(* ===== verification/Prelude.thy ===== *)
theory Prelude
  imports Main "HOL-Library.Word" "HOL-Library.Monad_Syntax"
begin

text \<open>
  What every component of the kernel model shares.

  A kernel operation is a function into \<open>_ option\<close>: \<open>None\<close> is a stop of the machine (a
  \<open>KASSERT\<close> or \<open>panic\<close> of the source, or a dereference the C program may not make), and
  \<open>Some\<close> is a normal return.  An error code that the C function returns is a value: \<open>Inl e\<close> of
  a sum, with \<open>Inr\<close> for the 0 return and the results stored through pointers.

  Dynamic memory is the record \<open>kmem\<close>: the set of live blocks, and an oracle that decides for each
  call of \<open>kmalloc\<close> whether it returns NULL.  Components extend the record with their own fields,
  so \<open>kmalloc\<close> and \<open>kfree\<close> work on every kernel state.
\<close>

unbundle bit_operations_syntax

named_theorems kmem_simps \<open>projections of states after allocator calls\<close>
named_theorems op_defs \<open>definitions of the operations of a component\<close>

section \<open>Assertions and error codes\<close>

definition kassert :: "bool \<Rightarrow> unit option" where
  "kassert b = (if b then Some () else None)"

lemma kassert_True [simp]: "kassert True = Some ()"
  and kassert_False [simp]: "kassert False = None"
  by (simp_all add: kassert_def)

lemma kassert_eq_Some [simp]: "kassert b = Some u \<longleftrightarrow> b"
  by (simp add: kassert_def)

lemma bind_kassert [simp]: "Option.bind (kassert b) f = (if b then f () else None)"
  by (simp add: kassert_def)

text \<open>The error codes of \<open>kern/errno.h\<close> that the modelled code returns or passes on.\<close>

datatype errno =
    ENOSYS | ENOMEM | EAGAIN | EINTR | EFAULT | ENAMETOOLONG | EINVAL | EPERM | EACCES
  | EMPROC | ENPROC | ENOEXEC | E2BIG | ESRCH | ECHILD | ENOTDIR | EISDIR | ENOENT | ELOOP
  | ENOTEMPTY | EEXIST | EMLINK | EXDEV | ENODEV | ENXIO | EBUSY | EMFILE | ENFILE | EBADF
  | EIOCTL | EIO | ESPIPE | EPIPE | EROFS | ENOSPC | EFBIG

fun errno_code :: "errno \<Rightarrow> int" where
  "errno_code ENOSYS = 1"
| "errno_code ENOMEM = 3"
| "errno_code EAGAIN = 4"
| "errno_code EINTR = 5"
| "errno_code EFAULT = 6"
| "errno_code ENAMETOOLONG = 7"
| "errno_code EINVAL = 8"
| "errno_code EPERM = 9"
| "errno_code EACCES = 10"
| "errno_code EMPROC = 11"
| "errno_code ENPROC = 12"
| "errno_code ENOEXEC = 13"
| "errno_code E2BIG = 14"
| "errno_code ESRCH = 15"
| "errno_code ECHILD = 16"
| "errno_code ENOTDIR = 17"
| "errno_code EISDIR = 18"
| "errno_code ENOENT = 19"
| "errno_code ELOOP = 20"
| "errno_code ENOTEMPTY = 21"
| "errno_code EEXIST = 22"
| "errno_code EMLINK = 23"
| "errno_code EXDEV = 24"
| "errno_code ENODEV = 25"
| "errno_code ENXIO = 26"
| "errno_code EBUSY = 27"
| "errno_code EMFILE = 28"
| "errno_code ENFILE = 29"
| "errno_code EBADF = 30"
| "errno_code EIOCTL = 31"
| "errno_code EIO = 32"
| "errno_code ESPIPE = 33"
| "errno_code EPIPE = 34"
| "errno_code EROFS = 35"
| "errno_code ENOSPC = 36"
| "errno_code EFBIG = 38"

text \<open>A C caller tests \<open>if (err)\<close>: no code is 0, so an \<open>Inl\<close> is never taken for success.\<close>

lemma errno_code_pos: "errno_code e > 0"
  by (cases e) simp_all

section \<open>C integers\<close>

text \<open>
  \<open>unsigned\<close> and \<open>size_t\<close> values are \<open>nat\<close>s below $2^{32}$ with the reduction written out
  (\<open>u32\<close>); signed \<open>int\<close> and \<open>off_t\<close> values are \<open>int\<close>s reduced to two's complement at
  32 and 64 bits (\<open>s32\<close>, \<open>s64\<close>).
\<close>

definition u32 :: "nat \<Rightarrow> nat" where
  "u32 n = n mod 2 ^ 32"

definition s32 :: "int \<Rightarrow> int" where
  "s32 x = (x + 2 ^ 31) mod 2 ^ 32 - 2 ^ 31"

definition s64 :: "int \<Rightarrow> int" where
  "s64 x = (x + 2 ^ 63) mod 2 ^ 64 - 2 ^ 63"

lemma u32_id: "n < 4294967296 \<Longrightarrow> u32 n = n"
  by (simp add: u32_def)

lemma u32_bound [simp]: "u32 n < 4294967296"
  by (simp add: u32_def)

lemma s32_id: "- 2147483648 \<le> x \<Longrightarrow> x < 2147483648 \<Longrightarrow> s32 x = x"
  by (simp add: s32_def)

lemma s32_range: "- 2147483648 \<le> s32 x \<and> s32 x < 2147483648"
proof -
  have "0 \<le> (x + 2 ^ 31) mod 2 ^ 32 \<and> (x + 2 ^ 31) mod 2 ^ 32 < 2 ^ 32" by simp
  then show ?thesis by (simp add: s32_def)
qed

lemma s64_id: "- (2 ^ 63) \<le> x \<Longrightarrow> x < 2 ^ 63 \<Longrightarrow> s64 x = x"
  by (simp add: s64_def)

text \<open>The macro \<open>DIVROUNDUP\<close> of \<open>lib.h\<close> on unsigned operands.\<close>

definition DIVROUNDUP :: "nat \<Rightarrow> nat \<Rightarrow> nat" where
  "DIVROUNDUP a b = u32 (a + b - 1) div b"

section \<open>Kernel memory as the components see it\<close>

type_synonym addr = nat  \<comment> \<open>0 is NULL\<close>

record kmem =
  oom :: "nat \<Rightarrow> bool"   \<comment> \<open>does the n-th call of kmalloc return NULL\<close>
  ticks :: nat             \<comment> \<open>calls of kmalloc so far\<close>
  live :: "addr set"       \<comment> \<open>blocks allocated and not yet freed\<close>

definition kmalloc :: "'a kmem_scheme \<Rightarrow> addr \<times> 'a kmem_scheme" where
  "kmalloc s =
     (let n = ticks s; s1 = s\<lparr>ticks := Suc n\<rparr>
      in if oom s n then (0, s1) else (Suc n, s1\<lparr>live := insert (Suc n) (live s)\<rparr>))"

text \<open>Freeing NULL does nothing; freeing a block that is not live stops the machine.\<close>

definition kfree :: "addr \<Rightarrow> 'a kmem_scheme \<Rightarrow> 'a kmem_scheme option" where
  "kfree p s =
     (if p = 0 then Some s
      else if p \<in> live s then Some (s\<lparr>live := live s - {p}\<rparr>)
      else None)"

text \<open>No block beyond the last call of \<open>kmalloc\<close> is live, and NULL never is.\<close>

definition kmem_ok :: "'a kmem_scheme \<Rightarrow> bool" where
  "kmem_ok s \<longleftrightarrow> (\<forall>p\<in>live s. 0 < p \<and> p \<le> ticks s)"

text \<open>What the components rely on: the laws of an allocator.\<close>

locale allocator =
  fixes alloc :: "'s \<Rightarrow> nat \<times> 's"
    and free :: "nat \<Rightarrow> 's \<Rightarrow> 's option"
    and blocks :: "'s \<Rightarrow> nat set"
    and inv :: "'s \<Rightarrow> bool"
  assumes alloc_inv: "inv s \<Longrightarrow> alloc s = (p, t) \<Longrightarrow> inv t"
    and alloc_null: "alloc s = (0, t) \<Longrightarrow> blocks t = blocks s"
    and alloc_fresh: "inv s \<Longrightarrow> alloc s = (p, t) \<Longrightarrow> p \<noteq> 0 \<Longrightarrow> p \<notin> blocks s \<and> blocks t = insert p (blocks s)"
    and free_null: "free 0 s = Some s"
    and free_live: "inv s \<Longrightarrow> p \<in> blocks s \<Longrightarrow> \<exists>t. free p s = Some t \<and> blocks t = blocks s - {p}"
    and free_dead: "p \<noteq> 0 \<Longrightarrow> p \<notin> blocks s \<Longrightarrow> free p s = None"
    and free_inv: "inv s \<Longrightarrow> free p s = Some t \<Longrightarrow> inv t"
begin

text \<open>A block that is allocated and freed again leaves the live blocks as they were.\<close>

lemma alloc_free:
  assumes "inv s" and "alloc s = (p, t)"
  shows "\<exists>u. free p t = Some u \<and> blocks u = blocks s \<and> inv u"
proof (cases "p = 0")
  case True
  then show ?thesis using assms alloc_null alloc_inv free_null by metis
next
  case False
  from assms have inv: "inv t" by (rule alloc_inv)
  from False assms have p: "p \<notin> blocks s" and t: "blocks t = insert p (blocks s)"
    using alloc_fresh by blast+
  from inv t obtain u where u: "free p t = Some u" "blocks u = blocks t - {p}"
    using free_live by blast
  with inv p t show ?thesis using free_inv by auto
qed

text \<open>Freeing twice is caught.\<close>

lemma double_free:
  assumes "inv s" and "p \<noteq> 0" and "free p s = Some t"
  shows "free p t = None"
proof -
  have "p \<in> blocks s" using free_dead [OF assms(2)] assms(3) by (cases "p \<in> blocks s") auto
  from free_live [OF assms(1) this] assms(3) have "p \<notin> blocks t" by auto
  with assms(2) show ?thesis by (rule free_dead)
qed

end

lemma kmem_ok_fresh: "kmem_ok s \<Longrightarrow> Suc (ticks s) \<notin> live s"
  by (force simp: kmem_ok_def)

lemma kmem_ok_kmalloc: "kmem_ok s \<Longrightarrow> kmalloc s = (p, t) \<Longrightarrow> kmem_ok t"
  by (auto simp: kmalloc_def kmem_ok_def Let_def le_Suc_eq split: if_splits)

lemma kmem_ok_kfree: "kmem_ok s \<Longrightarrow> kfree p s = Some t \<Longrightarrow> kmem_ok t"
  by (auto simp: kfree_def kmem_ok_def split: if_splits)

interpretation kmem_alloc: allocator kmalloc kfree live kmem_ok
proof unfold_locales
  fix s :: "'a kmem_scheme" and p t
  show "kmem_ok s \<Longrightarrow> kmalloc s = (p, t) \<Longrightarrow> p \<noteq> 0 \<Longrightarrow>
      p \<notin> live s \<and> live t = insert p (live s)"
    using kmem_ok_fresh [of s] by (auto simp: kmalloc_def Let_def split: if_splits)
  show "kmalloc s = (0, t) \<Longrightarrow> live t = live s"
    by (auto simp: kmalloc_def Let_def split: if_splits)
  show "kmem_ok s \<Longrightarrow> p \<in> live s \<Longrightarrow> \<exists>t. kfree p s = Some t \<and> live t = live s - {p}"
    by (force simp: kfree_def kmem_ok_def)
qed (auto simp: kfree_def intro: kmem_ok_kmalloc kmem_ok_kfree)

lemma kmalloc_frame [kmem_simps]:
  "kmalloc s = (p, t) \<Longrightarrow> oom t = oom s \<and> ticks t = Suc (ticks s)"
  by (auto simp: kmalloc_def Let_def split: if_splits)

lemma kmalloc_cases:
  assumes "kmalloc s = (p, t)"
  obtains (null) "p = 0" "oom s (ticks s)" "t = s\<lparr>ticks := Suc (ticks s)\<rparr>"
  | (block) "p = Suc (ticks s)" "\<not> oom s (ticks s)"
      "t = s\<lparr>ticks := Suc (ticks s), live := insert p (live s)\<rparr>"
  using assms by (auto simp: kmalloc_def Let_def split: if_splits)

end
