(* ===== verification/Lib_Words.thy ===== *)
theory Lib_Words
  imports Prelude
begin

text \<open>
  The kernel's helpers on machine words: byte swapping and the 64-bit join and split of
  \<open>kern/lib/bswap.c\<close>, and time arithmetic of \<open>kern/lib/time.c\<close>.  The machine is big-endian.
\<close>

section \<open>Byte order\<close>

definition bswap16 :: "16 word \<Rightarrow> 16 word" where
  "bswap16 val = push_bit 8 (val AND 0x00ff) OR drop_bit 8 (val AND 0xff00)"

definition bswap32 :: "32 word \<Rightarrow> 32 word" where
  "bswap32 val =
     push_bit 24 (val AND 0x000000ff)
     OR push_bit 8 (val AND 0x0000ff00)
     OR drop_bit 8 (val AND 0x00ff0000)
     OR drop_bit 24 (val AND 0xff000000)"

definition bswap64 :: "64 word \<Rightarrow> 64 word" where
  "bswap64 val =
     push_bit 56 (val AND 0x00000000000000ff)
     OR push_bit 40 (val AND 0x000000000000ff00)
     OR push_bit 24 (val AND 0x0000000000ff0000)
     OR push_bit 8 (val AND 0x00000000ff000000)
     OR push_bit 8 (val AND 0x000000ff00000000)
     OR push_bit 24 (val AND 0x0000ff0000000000)
     OR drop_bit 40 (val AND 0x00ff000000000000)
     OR drop_bit 56 (val AND 0xff00000000000000)"

text \<open>On a big-endian host the network functions are the identity.\<close>

definition ntohl :: "32 word \<Rightarrow> 32 word" where "ntohl val = val"
definition htonl :: "32 word \<Rightarrow> 32 word" where "htonl val = val"
definition ntohs :: "16 word \<Rightarrow> 16 word" where "ntohs val = val"
definition htons :: "16 word \<Rightarrow> 16 word" where "htons val = val"

definition join32to64 :: "32 word \<Rightarrow> 32 word \<Rightarrow> 64 word" where
  "join32to64 x1 x2 = push_bit 32 (ucast x1) OR ucast x2"

definition split64to32 :: "64 word \<Rightarrow> 32 word \<times> 32 word" where
  "split64to32 x = (ucast (drop_bit 32 x), ucast (x AND 0xffffffff))"

text \<open>Byte \<open>i\<close> of a word, counted from the low end, and the word with its bytes in reverse.\<close>

definition byte_at :: "nat \<Rightarrow> 'a::len word \<Rightarrow> 8 word" where
  "byte_at i w = ucast (drop_bit (8 * i) w)"

lemma bit_byte_at: "bit (byte_at i w) k \<longleftrightarrow> k < 8 \<and> bit w (8 * i + k)"
  by (auto simp: byte_at_def bit_ucast_iff bit_drop_bit_eq)


text \<open>The masks of the source as runs of bits.\<close>

lemma byte_masks:
  "(0x00ff :: 'a::len word) = mask 8"
  "(0xff00 :: 'a word) = push_bit 8 (mask 8)"
  "(0xff0000 :: 'a word) = push_bit 16 (mask 8)"
  "(0xff000000 :: 'a word) = push_bit 24 (mask 8)"
  "(0xff00000000 :: 'a word) = push_bit 32 (mask 8)"
  "(0xff0000000000 :: 'a word) = push_bit 40 (mask 8)"
  "(0xff000000000000 :: 'a word) = push_bit 48 (mask 8)"
  "(0xff00000000000000 :: 'a word) = push_bit 56 (mask 8)"
  "(0xffffffff :: 'a word) = mask 32"
  by (simp_all add: mask_eq_exp_minus_1 push_bit_eq_mult)

lemma bit_bswap16: "bit (bswap16 v) n \<longleftrightarrow> n < 16 \<and> bit v (if n < 8 then 8 + n else n - 8)"
  by (auto simp: bswap16_def byte_masks bit_simps)

lemma bit_bswap32:
  "bit (bswap32 v) n \<longleftrightarrow> n < 32 \<and>
     bit v (if n < 8 then 24 + n else if n < 16 then 8 + n else if n < 24 then n - 8 else n - 24)"
  by (auto simp: bswap32_def byte_masks bit_simps)

lemma bit_bswap64:
  "bit (bswap64 v) n \<longleftrightarrow> n < 64 \<and>
     (if n < 8 then bit v (56 + n) else if n < 16 then bit v (40 + n)
      else if n < 32 then False
      else if n < 40 then bit v (n - 8)
      else if n < 48 then bit v (n - 24) \<or> bit v (n - 8)
      else if n < 56 then bit v (n - 40)
      else bit v (n - 56))"
  by (auto simp: bswap64_def byte_masks bit_simps)

lemma word_eq_iff_bytes:
  fixes v w :: "'a::len word"
  assumes "LENGTH('a) = 8 * k"
  shows "v = w \<longleftrightarrow> (\<forall>i<k. byte_at i v = byte_at i w)"
proof
  assume *: "\<forall>i<k. byte_at i v = byte_at i w"
  show "v = w"
  proof (rule bit_word_eqI)
    fix n assume n: "n < LENGTH('a)"
    then have "n div 8 < k" using assms by auto
    then have "byte_at (n div 8) v = byte_at (n div 8) w" using * by blast
    then have "bit (byte_at (n div 8) v) (n mod 8) = bit (byte_at (n div 8) w) (n mod 8)" by simp
    then show "bit v n = bit w n" by (simp add: bit_byte_at)
  qed
qed simp

lemma byte_eqI: "(\<And>k. k < 8 \<Longrightarrow> bit (b :: 8 word) k = bit c k) \<Longrightarrow> b = c"
  by (rule bit_word_eqI) simp

text \<open>
  \<open>bswap32\<close> reverses the four bytes of its argument, so applying it twice gives the
  argument back.
\<close>

theorem bswap32_reverses:
  "bswap32 (bswap32 v) = v \<and> (\<forall>i\<in>{0..<4}. byte_at i (bswap32 v) = byte_at (3 - i) v)"
proof (intro conjI ballI)
  show "bswap32 (bswap32 v) = v"
    by (rule bit_word_eqI) (auto simp: bit_bswap32 split: if_splits)
  fix i :: nat assume "i \<in> {0..<4}"
  then have "i = 0 \<or> i = 1 \<or> i = 2 \<or> i = 3" by auto
  then show "byte_at i (bswap32 v) = byte_at (3 - i) v"
    by (elim disjE; intro byte_eqI) (simp_all add: bit_byte_at bit_bswap32 add.assoc [symmetric])
qed

lemma bswap32_reverses_witness:
  "byte_at 0 (bswap32 0x01020304) = 1 \<and> bswap32 (bswap32 0x01020304) = 0x01020304"
  using bswap32_reverses [of "0x01020304"] by (auto simp: byte_at_def dest: bspec [of _ _ 0])

text \<open>
  C11: \<open>bswap64\<close> reverses the eight bytes of its argument exactly when bytes 4 and 5 (bits 32 to
  47) are zero: the code shifts these two bytes left where it has to shift them right.
\<close>

theorem bswap64_correct_iff:
  "(\<forall>i<8. byte_at i (bswap64 v) = byte_at (7 - i) v) \<longleftrightarrow> byte_at 4 v = 0 \<and> byte_at 5 v = 0"
proof
  assume *: "\<forall>i<8. byte_at i (bswap64 v) = byte_at (7 - i) v"
  have low: "byte_at 2 (bswap64 v) = 0" "byte_at 3 (bswap64 v) = 0"
    by (rule byte_eqI; simp add: bit_byte_at bit_bswap64)+
  from * have "byte_at 2 (bswap64 v) = byte_at 5 v" and "byte_at 3 (bswap64 v) = byte_at 4 v"
    by (auto dest: spec [of _ 2] spec [of _ 3])
  with low show "byte_at 4 v = 0 \<and> byte_at 5 v = 0" by simp
next
  assume z: "byte_at 4 v = 0 \<and> byte_at 5 v = 0"
  have z4: "\<not> bit v (32 + k)" and z5: "\<not> bit v (40 + k)" if "k < 8" for k
    using bit_byte_at [of 4 v k] bit_byte_at [of 5 v k] z that by simp_all
  show "\<forall>i<8. byte_at i (bswap64 v) = byte_at (7 - i) v"
  proof (intro allI impI)
    fix i :: nat assume "i < 8"
    then have "i = 0 \<or> i = 1 \<or> i = 2 \<or> i = 3 \<or> i = 4 \<or> i = 5 \<or> i = 6 \<or> i = 7" by auto
    then show "byte_at i (bswap64 v) = byte_at (7 - i) v"
      by (elim disjE; intro byte_eqI)
        (simp_all add: bit_byte_at bit_bswap64 add.assoc [symmetric] z4 z5)
  qed
qed

lemma bswap64_correct_iff_witness:
  "byte_at 0 (bswap64 0x0102000000060708) = byte_at 7 (0x0102000000060708 :: 64 word)
    \<and> \<not> (\<forall>i<8. byte_at i (bswap64 0x0102030405060708) = byte_at (7 - i) (0x0102030405060708 :: 64 word))"
proof
  have z: "byte_at 4 (0x0102000000060708 :: 64 word) = 0 \<and> byte_at 5 (0x0102000000060708 :: 64 word) = 0"
    by (simp add: byte_at_def)
  from spec [OF iffD2 [OF bswap64_correct_iff z], of 0]
  show "byte_at 0 (bswap64 0x0102000000060708) = byte_at 7 (0x0102000000060708 :: 64 word)" by simp
  have nz: "\<not> (byte_at 4 (0x0102030405060708 :: 64 word) = 0 \<and> byte_at 5 (0x0102030405060708 :: 64 word) = 0)"
    by (simp add: byte_at_def)
  show "\<not> (\<forall>i<8. byte_at i (bswap64 0x0102030405060708) = byte_at (7 - i) (0x0102030405060708 :: 64 word))"
    by (rule contrapos_nn [OF nz iffD1 [OF bswap64_correct_iff]])
qed

lemma not_bit_32: "\<not> bit (x :: 32 word) (32 + n)"
  by (auto dest: bit_imp_le_length)

lemma split_join: "split64to32 (join32to64 x1 x2) = (x1, x2)"
  by (auto simp: split64to32_def join32to64_def byte_masks bit_simps not_bit_32
      intro!: bit_word_eqI)

lemma join_split: "split64to32 x = (x1, x2) \<Longrightarrow> join32to64 x1 x2 = x"
  by (auto simp: split64to32_def join32to64_def byte_masks bit_simps intro!: bit_word_eqI)

section \<open>Time\<close>

record timespec =
  tv_sec :: int    \<comment> \<open>64 bits\<close>
  tv_nsec :: int   \<comment> \<open>32 bits\<close>

definition timespec_add :: "timespec \<Rightarrow> timespec \<Rightarrow> timespec" where
  "timespec_add ts1 ts2 =
     (let nsec = s32 (tv_nsec ts1 + tv_nsec ts2);
          sec = s64 (tv_sec ts1 + tv_sec ts2)
      in if nsec \<ge> 1000000000
         then \<lparr>tv_sec = s64 (sec + 1), tv_nsec = s32 (nsec - 1000000000)\<rparr>
         else \<lparr>tv_sec = sec, tv_nsec = nsec\<rparr>)"

definition timespec_sub :: "timespec \<Rightarrow> timespec \<Rightarrow> timespec" where
  "timespec_sub ts1 ts2 =
     (let r = ts1;
          r = (if tv_nsec r < tv_nsec ts2
               then r\<lparr>tv_nsec := s32 (tv_nsec r + 1000000000), tv_sec := s64 (tv_sec r - 1)\<rparr>
               else r);
          r = r\<lparr>tv_nsec := s32 (tv_nsec r - tv_nsec ts2)\<rparr>
      in r\<lparr>tv_sec := s64 (tv_sec r - tv_sec ts2)\<rparr>)"

text \<open>A time is normal when its nanoseconds are a fraction of a second.\<close>

definition normal_ts :: "timespec \<Rightarrow> bool" where
  "normal_ts ts \<longleftrightarrow> 0 \<le> tv_nsec ts \<and> tv_nsec ts < 1000000000"

definition ts_value :: "timespec \<Rightarrow> int" where
  "ts_value ts = tv_sec ts * 1000000000 + tv_nsec ts"

text \<open>Seconds small enough that the 64-bit arithmetic cannot overflow.\<close>

definition small_ts :: "timespec \<Rightarrow> bool" where
  "small_ts ts \<longleftrightarrow> \<bar>tv_sec ts\<bar> < 2 ^ 61"

lemma timespec_add_eq:
  assumes "normal_ts a" "normal_ts b" "small_ts a" "small_ts b"
  shows "normal_ts (timespec_add a b) \<and> ts_value (timespec_add a b) = ts_value a + ts_value b"
  using assms by (auto simp: timespec_add_def normal_ts_def ts_value_def small_ts_def Let_def
      s32_id s64_id abs_less_iff)

lemma timespec_sub_eq:
  assumes "normal_ts a" "normal_ts b" "\<bar>tv_sec a\<bar> \<le> 2 ^ 62" "small_ts b"
  shows "normal_ts (timespec_sub a b) \<and> ts_value (timespec_sub a b) = ts_value a - ts_value b"
  using assms by (auto simp: timespec_sub_def normal_ts_def ts_value_def small_ts_def Let_def
      s32_id s64_id abs_less_iff)

lemma normal_ts_inj:
  assumes "normal_ts a" "normal_ts b" "ts_value a = ts_value b"
  shows "a = b"
proof -
  have "tv_nsec a = ts_value a mod 1000000000" "tv_nsec b = ts_value b mod 1000000000"
    using assms(1,2) by (auto simp: normal_ts_def ts_value_def)
  with assms(3) have n: "tv_nsec a = tv_nsec b" by simp
  with assms(3) have "tv_sec a = tv_sec b" by (simp add: ts_value_def)
  with n show ?thesis by simp
qed

lemma timespec_add_small:
  assumes "normal_ts a" "normal_ts b" "small_ts a" "small_ts b"
  shows "\<bar>tv_sec (timespec_add a b)\<bar> \<le> 2 ^ 62"
  using assms by (auto simp: timespec_add_def normal_ts_def small_ts_def Let_def
      s32_id s64_id abs_less_iff abs_le_iff)

text \<open>
  On normal times whose seconds stay clear of the 64-bit limits \<open>timespec_add\<close> is the exact
  sum and again normal, and \<open>timespec_sub\<close> takes it back.
\<close>

theorem timespec_arith:
  assumes "normal_ts a" "normal_ts b" "small_ts a" "small_ts b"
  shows "normal_ts (timespec_add a b)
    \<and> ts_value (timespec_add a b) = ts_value a + ts_value b
    \<and> timespec_sub (timespec_add a b) b = a"
proof -
  note add = timespec_add_eq [OF assms] timespec_add_small [OF assms]
  then have "normal_ts (timespec_sub (timespec_add a b) b)
      \<and> ts_value (timespec_sub (timespec_add a b) b) = ts_value a"
    using timespec_sub_eq [of "timespec_add a b" b] assms by simp
  then have "timespec_sub (timespec_add a b) b = a"
    using assms(1) by (blast intro: normal_ts_inj)
  with add show ?thesis by simp
qed

lemma timespec_arith_witness:
  "timespec_sub (timespec_add \<lparr>tv_sec = 3, tv_nsec = 700000000\<rparr> \<lparr>tv_sec = 1, tv_nsec = 600000000\<rparr>)
     \<lparr>tv_sec = 1, tv_nsec = 600000000\<rparr> = \<lparr>tv_sec = 3, tv_nsec = 700000000\<rparr>"
  using timespec_arith [of "\<lparr>tv_sec = 3, tv_nsec = 700000000\<rparr>" "\<lparr>tv_sec = 1, tv_nsec = 600000000\<rparr>"]
  by (simp add: normal_ts_def small_ts_def)

end
