(* ===== verification/Bitmap.thy ===== *)
theory Bitmap
  imports Prelude
begin

text \<open>
  The fixed-size bitmap of \<open>kern/lib/bitmap.c\<close>, which the file system uses for its free map.
  The bits are kept in bytes; the bits of the last byte beyond \<open>nbits\<close> are set at creation, so
  the search for a zero bit never returns them.  The contract \<open>bit_allocator\<close> states what the
  clients of a bitmap rely on.
\<close>

section \<open>Operations\<close>

record bitmap =
  b_at :: addr           \<comment> \<open>the block of the structure\<close>
  v_at :: addr           \<comment> \<open>the block of the bits\<close>
  nbits :: nat           \<comment> \<open>unsigned\<close>
  bv :: "8 word list"

text \<open>The loop of \<open>bitmap_create\<close> that marks the bits from \<open>j\<close> to the end of the byte.\<close>

function mark_leftover :: "nat \<Rightarrow> 8 word \<Rightarrow> 8 word" where
  "mark_leftover j w = (if j < 8 then mark_leftover (Suc j) (w OR push_bit j 1) else w)"
  by pat_completeness auto
termination by (relation "measure (\<lambda>(j, w). 8 - j)") auto

declare mark_leftover.simps [simp del]

definition bitmap_create :: "nat \<Rightarrow> 'a kmem_scheme \<Rightarrow> (bitmap option \<times> 'a kmem_scheme) option" where
  "bitmap_create n s =
     (let words = DIVROUNDUP n 8; (b, s) = kmalloc s in
      if b = 0 then Some (None, s) else
      let (vp, s) = kmalloc s in
      if vp = 0 then do { s \<leftarrow> kfree b s; Some (None, s) } else
      let bits = replicate words 0; bm = \<lparr>b_at = b, v_at = vp, nbits = n, bv = bits\<rparr> in
      if words > n div 8 then do {
        let ix = words - 1;
        let overbits = n - ix * 8;
        kassert (n div 8 = words - 1);
        kassert (overbits > 0 \<and> overbits < 8);
        Some (Some (bm\<lparr>bv := bits[ix := mark_leftover overbits (bits ! ix)]\<rparr>), s)
      } else Some (Some bm, s))"

definition bitmap_destroy :: "bitmap \<Rightarrow> 'a kmem_scheme \<Rightarrow> 'a kmem_scheme option" where
  "bitmap_destroy b s = do { s \<leftarrow> kfree (v_at b) s; kfree (b_at b) s }"

definition bitmap_getdata :: "bitmap \<Rightarrow> 8 word list" where
  "bitmap_getdata b = bv b"

definition bitmap_translate :: "nat \<Rightarrow> nat \<times> 8 word" where
  "bitmap_translate bitno = (bitno div 8, push_bit (bitno mod 8) 1)"

text \<open>The inner loop of \<open>bitmap_alloc\<close>: the first clear bit of a byte.\<close>

function first_clear :: "8 word \<Rightarrow> nat \<Rightarrow> nat option" where
  "first_clear w off =
     (if off < 8 then if w AND push_bit off 1 = 0 then Some off else first_clear w (Suc off)
      else None)"
  by pat_completeness auto
termination by (relation "measure (\<lambda>(w, off). 8 - off)") auto

declare first_clear.simps [simp del]

text \<open>The outer loop, over the bytes.  The \<open>KASSERT(0)\<close> after the inner loop is its \<open>None\<close>.\<close>

function alloc_from :: "bitmap \<Rightarrow> nat \<Rightarrow> nat \<Rightarrow> ((errno + nat) \<times> bitmap) option" where
  "alloc_from b ix maxix =
     (if ix < maxix then do {
        kassert (ix < length (bv b));
        if bv b ! ix \<noteq> 0xff then
          (case first_clear (bv b ! ix) 0 of
             None \<Rightarrow> None
           | Some off \<Rightarrow> do {
               let b = b\<lparr>bv := (bv b)[ix := bv b ! ix OR push_bit off 1]\<rparr>;
               let index = u32 (ix * 8 + off);
               kassert (index < nbits b);
               Some (Inr index, b) })
        else alloc_from b (Suc ix) maxix }
      else Some (Inl ENOSPC, b))"
  by pat_completeness auto
termination by (relation "measure (\<lambda>(b, ix, maxix). maxix - ix)") auto

declare alloc_from.simps [simp del]

definition bitmap_alloc :: "bitmap \<Rightarrow> ((errno + nat) \<times> bitmap) option" where
  "bitmap_alloc b = alloc_from b 0 (DIVROUNDUP (nbits b) 8)"

definition bitmap_mark :: "bitmap \<Rightarrow> nat \<Rightarrow> bitmap option" where
  "bitmap_mark b index = do {
     kassert (index < nbits b);
     let (ix, mask) = bitmap_translate index;
     kassert (ix < length (bv b));
     kassert (bv b ! ix AND mask = 0);
     Some (b\<lparr>bv := (bv b)[ix := bv b ! ix OR mask]\<rparr>) }"

definition bitmap_unmark :: "bitmap \<Rightarrow> nat \<Rightarrow> bitmap option" where
  "bitmap_unmark b index = do {
     kassert (index < nbits b);
     let (ix, mask) = bitmap_translate index;
     kassert (ix < length (bv b));
     kassert (bv b ! ix AND mask \<noteq> 0);
     Some (b\<lparr>bv := (bv b)[ix := bv b ! ix AND NOT mask]\<rparr>) }"

text \<open>\<open>bitmap_isset\<close> has no assertion on its index: beyond the last byte it reads wild.\<close>

definition bitmap_isset :: "bitmap \<Rightarrow> nat \<Rightarrow> bool option" where
  "bitmap_isset b index = do {
     let (ix, mask) = bitmap_translate index;
     kassert (ix < length (bv b));
     Some (bv b ! ix AND mask \<noteq> 0) }"

section \<open>Bits and the invariant\<close>

definition bit_of :: "bitmap \<Rightarrow> nat \<Rightarrow> bool" where
  "bit_of b i \<longleftrightarrow> bit (bv b ! (i div 8)) (i mod 8)"

definition used :: "bitmap \<Rightarrow> nat set" where
  "used b = {i. i < nbits b \<and> bit_of b i}"

definition bitmap_inv :: "bitmap \<Rightarrow> bool" where
  "bitmap_inv b \<longleftrightarrow> nbits b \<le> 4294967288 \<and> length (bv b) = (nbits b + 7) div 8
     \<and> (\<forall>i. nbits b \<le> i \<and> i < 8 * length (bv b) \<longrightarrow> bit_of b i)"

lemma and_push_bit_1: "k < 8 \<Longrightarrow> (w AND 2 ^ k = 0) \<longleftrightarrow> \<not> bit (w :: 8 word) k"
proof -
  assume k: "k < 8"
  have "w AND push_bit k 1 = (if bit w k then push_bit k 1 else 0)"
    by (rule bit_word_eqI) (auto simp: bit_simps)
  moreover have "bit (push_bit k (1 :: 8 word)) k" using k by (simp add: bit_exp_iff)
  then have "push_bit k (1 :: 8 word) \<noteq> 0" by (metis bit_0_eq bot_apply bot_bool_def)
  ultimately show ?thesis by (simp add: push_bit_eq_mult)
qed

lemma div_mod_8_eq: "j div 8 = i div 8 \<Longrightarrow> j mod 8 = i mod 8 \<Longrightarrow> (j :: nat) = i"
  by (metis div_mult_mod_eq)

text \<open>The bytes of a bitmap after setting or clearing bit \<open>i\<close>.\<close>

definition set_bit_at :: "bitmap \<Rightarrow> nat \<Rightarrow> bitmap" where
  "set_bit_at b i = b\<lparr>bv := (bv b)[i div 8 := bv b ! (i div 8) OR push_bit (i mod 8) 1]\<rparr>"

definition clear_bit_at :: "bitmap \<Rightarrow> nat \<Rightarrow> bitmap" where
  "clear_bit_at b i = b\<lparr>bv := (bv b)[i div 8 := bv b ! (i div 8) AND NOT (push_bit (i mod 8) 1)]\<rparr>"

lemma set_bit_at_sel [simp]: "nbits (set_bit_at b i) = nbits b" "length (bv (set_bit_at b i)) = length (bv b)"
  and clear_bit_at_sel [simp]: "nbits (clear_bit_at b i) = nbits b"
    "length (bv (clear_bit_at b i)) = length (bv b)"
  by (simp_all add: set_bit_at_def clear_bit_at_def)

lemma bit_of_set: "i div 8 < length (bv b) \<Longrightarrow> bit_of (set_bit_at b i) j \<longleftrightarrow> j = i \<or> bit_of b j"
  by (auto simp: bit_of_def set_bit_at_def nth_list_update bit_simps dest: div_mod_8_eq)

lemma bit_of_clear: "i div 8 < length (bv b) \<Longrightarrow> bit_of (clear_bit_at b i) j \<longleftrightarrow> j \<noteq> i \<and> bit_of b j"
  by (auto simp: bit_of_def clear_bit_at_def nth_list_update bit_simps dest: div_mod_8_eq)

lemma in_bits: "bitmap_inv b \<Longrightarrow> i < nbits b \<Longrightarrow> i div 8 < length (bv b)"
  by (auto simp: bitmap_inv_def)

lemma bitmap_inv_set: "bitmap_inv b \<Longrightarrow> i < nbits b \<Longrightarrow> bitmap_inv (set_bit_at b i)"
  using in_bits [of b i] by (simp add: bitmap_inv_def bit_of_set)

lemma bitmap_inv_clear: "bitmap_inv b \<Longrightarrow> i < nbits b \<Longrightarrow> bitmap_inv (clear_bit_at b i)"
  using in_bits [of b i] by (simp add: bitmap_inv_def bit_of_clear)

lemma used_set: "bitmap_inv b \<Longrightarrow> i < nbits b \<Longrightarrow> used (set_bit_at b i) = insert i (used b)"
  using in_bits [of b i] by (auto simp: used_def bit_of_set)

lemma used_clear: "bitmap_inv b \<Longrightarrow> i < nbits b \<Longrightarrow> used (clear_bit_at b i) = used b - {i}"
  using in_bits [of b i] by (auto simp: used_def bit_of_clear)

section \<open>The operations meet the specification on sets\<close>

lemma used_bound: "i \<in> used b \<Longrightarrow> i < nbits b"
  by (simp add: used_def)

lemma mark_eq:
  "bitmap_inv b \<Longrightarrow> bitmap_mark b i =
     (if i < nbits b \<and> i \<notin> used b then Some (set_bit_at b i) else None)"
  using in_bits [of b i]
  by (auto simp: bitmap_mark_def bitmap_translate_def set_bit_at_def used_def bit_of_def
      and_push_bit_1)

lemma unmark_eq:
  "bitmap_inv b \<Longrightarrow> bitmap_unmark b i =
     (if i < nbits b \<and> i \<in> used b then Some (clear_bit_at b i) else None)"
  using in_bits [of b i]
  by (auto simp: bitmap_unmark_def bitmap_translate_def clear_bit_at_def used_def bit_of_def
      and_push_bit_1)

lemma isset_eq: "bitmap_inv b \<Longrightarrow> i < nbits b \<Longrightarrow> bitmap_isset b i = Some (i \<in> used b)"
  using in_bits [of b i]
  by (auto simp: bitmap_isset_def bitmap_translate_def used_def bit_of_def and_push_bit_1)

lemma first_clear_Some:
  "first_clear w off = Some k \<Longrightarrow> off \<le> k \<and> k < 8 \<and> \<not> bit w k \<and> (\<forall>j. off \<le> j \<and> j < k \<longrightarrow> bit w j)"
proof (induction w off rule: first_clear.induct)
  case (1 w off)
  then show ?case
    by (subst (asm) first_clear.simps)
      (auto simp: and_push_bit_1 split: if_splits dest!: Suc_leI simp: le_eq_less_or_eq)
qed

lemma first_clear_None:
  "first_clear w off = None \<Longrightarrow> off \<le> j \<Longrightarrow> j < 8 \<Longrightarrow> bit w j"
proof (induction w off rule: first_clear.induct)
  case (1 w off)
  show ?case
  proof (cases "j = off")
    case True
    with "1.prems" show ?thesis
      by (subst (asm) first_clear.simps) (simp add: and_push_bit_1 split: if_splits)
  next
    case False
    with "1.prems" have "w AND push_bit off 1 \<noteq> 0" "first_clear w (Suc off) = None" "Suc off \<le> j"
      by (auto simp: first_clear.simps [of w off] split: if_splits)
    with "1.IH" "1.prems" show ?thesis by auto
  qed
qed

lemma all_bits: "(w :: 8 word) = 0xff \<longleftrightarrow> (\<forall>j<8. bit w j)"
proof
  assume "\<forall>j<8. bit w j"
  then have "w = mask 8" by (auto intro: bit_word_eqI simp: bit_simps)
  then show "w = 0xff" by (simp add: mask_eq_exp_minus_1)
next
  assume "w = 0xff"
  then have "w = mask 8" by (simp add: mask_eq_exp_minus_1)
  then show "\<forall>j<8. bit w j" by (simp add: bit_mask_iff)
qed


lemma bit_of_byte: "k < 8 \<Longrightarrow> bit_of b (8 * ix + k) \<longleftrightarrow> bit (bv b ! ix) k"
  by (simp add: bit_of_def)

lemma full_byte: "bv b ! ix = 0xff \<Longrightarrow> \<forall>j<8 * ix. bit_of b j \<Longrightarrow> j < 8 * Suc ix \<Longrightarrow> bit_of b j"
proof -
  assume full: "bv b ! ix = 0xff" and below: "\<forall>j<8 * ix. bit_of b j" and j: "j < 8 * Suc ix"
  show "bit_of b j"
  proof (cases "j < 8 * ix")
    case False
    with j have "j = 8 * ix + (j - 8 * ix)" "j - 8 * ix < 8" by auto
    then show ?thesis using full bit_of_byte [of "j - 8 * ix" b ix] all_bits by auto
  qed (use below in blast)
qed

lemma alloc_from_spec:
  assumes "bitmap_inv b" "maxix = length (bv b)" "\<forall>j<8 * ix. bit_of b j" "ix \<le> maxix"
  shows "(\<exists>i. i < nbits b \<and> \<not> bit_of b i \<and> (\<forall>j<i. bit_of b j)
            \<and> alloc_from b ix maxix = Some (Inr i, set_bit_at b i))
       \<or> (\<forall>i<nbits b. bit_of b i) \<and> alloc_from b ix maxix = Some (Inl ENOSPC, b)"
  using assms
proof (induction b ix maxix rule: alloc_from.induct)
  case (1 b ix maxix)
  show ?case
  proof (cases "ix < maxix")
    case False
    with "1.prems" have "ix = length (bv b)" "nbits b \<le> 8 * length (bv b)"
      by (auto simp: bitmap_inv_def)
    with False "1.prems" show ?thesis by (simp add: alloc_from.simps [of b])
  next
    case True
    show ?thesis
    proof (cases "bv b ! ix = 0xff")
      case full: True
      have "\<forall>j<8 * Suc ix. bit_of b j" using full "1.prems"(3) full_byte by blast
      with "1.IH" [of "()"] True "1.prems" full show ?thesis by (simp add: alloc_from.simps [of b ix])
    next
      case False
      then obtain k0 where k0: "k0 < 8" "\<not> bit (bv b ! ix) k0" using all_bits by blast
      obtain k where k: "first_clear (bv b ! ix) 0 = Some k"
        using first_clear_None [of "bv b ! ix" 0 k0] k0 by (cases "first_clear (bv b ! ix) 0") auto
      note k' = first_clear_Some [OF k]
      let ?i = "8 * ix + k"
      have free: "\<not> bit_of b ?i" using k' by (simp add: bit_of_byte)
      have i8: "?i < 8 * length (bv b)" using k' True "1.prems"(2) by simp
      then have i: "?i < nbits b" using free "1.prems"(1) by (metis bitmap_inv_def not_le)
      have below: "bit_of b j" if "j < ?i" for j
      proof (cases "j < 8 * ix")
        case False
        with that have "j = 8 * ix + (j - 8 * ix)" "j - 8 * ix < k" by auto
        then show ?thesis using k' bit_of_byte [of "j - 8 * ix" b ix] by auto
      qed (use "1.prems"(3) in blast)
      have "u32 (ix * 8 + k) = ?i"
        using i "1.prems"(1) by (simp add: bitmap_inv_def u32_id mult.commute)
      then have "alloc_from b ix maxix = Some (Inr ?i, set_bit_at b ?i)"
        using True False k k' i "1.prems"(2)
        by (simp add: alloc_from.simps [of b ix] set_bit_at_def mult.commute)
      with i free below show ?thesis by blast
    qed
  qed
qed

text \<open>The definition of \<open>used\<close> only looks below \<open>nbits\<close>, so the two readings agree.\<close>

lemma alloc_spec:
  assumes "bitmap_inv b"
  shows "(\<exists>i. i < nbits b \<and> i \<notin> used b \<and> (\<forall>j<i. j \<in> used b)
            \<and> bitmap_alloc b = Some (Inr i, set_bit_at b i))
       \<or> used b = {..<nbits b} \<and> bitmap_alloc b = Some (Inl ENOSPC, b)"
proof -
  have "DIVROUNDUP (nbits b) 8 = length (bv b)"
    using assms by (simp add: bitmap_inv_def DIVROUNDUP_def u32_id)
  with alloc_from_spec [OF assms, of "length (bv b)" 0] show ?thesis
    by (auto simp: bitmap_alloc_def used_def)
qed

section \<open>The contract of a bit allocator\<close>

locale bit_allocator =
  fixes alloc :: "'b \<Rightarrow> ((errno + nat) \<times> 'b) option"
    and mark :: "'b \<Rightarrow> nat \<Rightarrow> 'b option"
    and unmark :: "'b \<Rightarrow> nat \<Rightarrow> 'b option"
    and isset :: "'b \<Rightarrow> nat \<Rightarrow> bool option"
    and taken :: "'b \<Rightarrow> nat set"
    and size_of :: "'b \<Rightarrow> nat"
    and inv :: "'b \<Rightarrow> bool"
  assumes taken_bound: "taken b \<subseteq> {..<size_of b}"
    and alloc_ok: "inv b \<Longrightarrow> taken b \<noteq> {..<size_of b} \<Longrightarrow> \<exists>i b'. alloc b = Some (Inr i, b')
      \<and> i < size_of b \<and> i \<notin> taken b \<and> (\<forall>j<i. j \<in> taken b)
      \<and> taken b' = insert i (taken b) \<and> size_of b' = size_of b \<and> inv b'"
    and alloc_full: "inv b \<Longrightarrow> taken b = {..<size_of b} \<Longrightarrow> alloc b = Some (Inl ENOSPC, b)"
    and mark_ok: "inv b \<Longrightarrow> i < size_of b \<Longrightarrow> i \<notin> taken b \<Longrightarrow> \<exists>b'. mark b i = Some b'
      \<and> taken b' = insert i (taken b) \<and> size_of b' = size_of b \<and> inv b'"
    and mark_bad: "inv b \<Longrightarrow> \<not> (i < size_of b \<and> i \<notin> taken b) \<Longrightarrow> mark b i = None"
    and unmark_ok: "inv b \<Longrightarrow> i \<in> taken b \<Longrightarrow> \<exists>b'. unmark b i = Some b'
      \<and> taken b' = taken b - {i} \<and> size_of b' = size_of b \<and> inv b'"
    and unmark_bad: "inv b \<Longrightarrow> i \<notin> taken b \<Longrightarrow> unmark b i = None"
    and isset_ok: "inv b \<Longrightarrow> i < size_of b \<Longrightarrow> isset b i = Some (i \<in> taken b)"
begin

text \<open>An allocated bit can be released, which gives back the set of taken bits.\<close>

lemma alloc_unmark:
  assumes "inv b" and "alloc b = Some (Inr i, b')"
  shows "\<exists>b''. unmark b' i = Some b'' \<and> taken b'' = taken b \<and> inv b''"
proof -
  have "taken b \<noteq> {..<size_of b}" using alloc_full assms by fastforce
  with alloc_ok [OF assms(1)] assms(2)
  have *: "i \<notin> taken b" "taken b' = insert i (taken b)" "inv b'" by auto
  with unmark_ok [of b' i] show ?thesis by auto
qed

text \<open>Each successful allocation takes one more bit.\<close>

lemma alloc_card:
  assumes "inv b" and "alloc b = Some (Inr i, b')"
  shows "card (taken b') = Suc (card (taken b)) \<and> inv b' \<and> i \<notin> taken b \<and> i < size_of b"
proof -
  have "taken b \<noteq> {..<size_of b}" using alloc_full assms by fastforce
  with alloc_ok [OF assms(1)] assms(2)
  have *: "i \<notin> taken b" "taken b' = insert i (taken b)" "inv b'" "i < size_of b" by auto
  moreover have "finite (taken b)" using taken_bound finite_subset by blast
  ultimately show ?thesis by simp
qed

end

interpretation bm: bit_allocator bitmap_alloc bitmap_mark bitmap_unmark bitmap_isset used nbits bitmap_inv
proof unfold_locales
  fix b assume "bitmap_inv b" "used b \<noteq> {..<nbits b}"
  then show "\<exists>i b'. bitmap_alloc b = Some (Inr i, b') \<and> i < nbits b \<and> i \<notin> used b
      \<and> (\<forall>j<i. j \<in> used b) \<and> used b' = insert i (used b) \<and> nbits b' = nbits b \<and> bitmap_inv b'"
    using alloc_spec [of b] by (auto simp: used_set bitmap_inv_set)
next
  fix b assume "bitmap_inv b" "used b = {..<nbits b}"
  then show "bitmap_alloc b = Some (Inl ENOSPC, b)"
    using alloc_spec [of b] by auto
qed (auto simp: mark_eq unmark_eq isset_eq used_set used_clear bitmap_inv_set bitmap_inv_clear
    dest: used_bound)


section \<open>Creation\<close>

lemma bit_mark_leftover: "bit (mark_leftover j w) k \<longleftrightarrow> bit w k \<or> j \<le> k \<and> k < 8"
proof (induction j w rule: mark_leftover.induct)
  case (1 j w)
  then show ?case
    by (cases "j < 8") (auto simp: mark_leftover.simps [of j w] bit_simps)
qed

text \<open>The bitmap that \<open>bitmap_create\<close> builds when both allocations succeed.\<close>

definition fresh_bitmap :: "addr \<Rightarrow> addr \<Rightarrow> nat \<Rightarrow> bitmap" where
  "fresh_bitmap p q n =
     (let words = (n + 7) div 8; bits = replicate words 0
      in \<lparr>b_at = p, v_at = q, nbits = n,
          bv = (if n mod 8 = 0 then bits
                else bits[words - 1 := mark_leftover (n mod 8) (bits ! (words - 1))])\<rparr>)"

lemma words_eq: "(n + 7) div 8 = (if n mod 8 = 0 then n div 8 else Suc (n div 8))" for n :: nat
  by presburger

lemma le_by_byte: "(n :: nat) \<le> i \<longleftrightarrow> n div 8 < i div 8 \<or> n div 8 = i div 8 \<and> n mod 8 \<le> i mod 8"
proof -
  obtain q r q' r' where *: "n div 8 = q" "n mod 8 = r" "i div 8 = q'" "i mod 8 = r'" by blast
  have "n = 8 * q + r" "i = 8 * q' + r'" "r < 8" "r' < 8" using * by auto
  then show ?thesis unfolding * by auto
qed

lemma bit_of_fresh:
  assumes "i < 8 * ((n + 7) div 8)"
  shows "bit_of (fresh_bitmap p q n) i \<longleftrightarrow> n \<le> i"
proof -
  have iw: "i div 8 < (n + 7) div 8" using assms by auto
  consider "n mod 8 = 0" "i div 8 < n div 8" | "n mod 8 \<noteq> 0" "i div 8 < n div 8"
    | "n mod 8 \<noteq> 0" "i div 8 = n div 8"
    using iw by (auto simp: words_eq less_Suc_eq split: if_splits)
  then show ?thesis
    by cases (auto simp: bit_of_def fresh_bitmap_def Let_def words_eq bit_mark_leftover
        le_by_byte [of n i] simp del: replicate_Suc)
qed

lemma fresh_bitmap_sel [simp]:
  "nbits (fresh_bitmap p q n) = n" "length (bv (fresh_bitmap p q n)) = (n + 7) div 8"
  "b_at (fresh_bitmap p q n) = p" "v_at (fresh_bitmap p q n) = q"
  by (simp_all add: fresh_bitmap_def Let_def)

lemma fresh_bitmap_ok:
  assumes "n \<le> 4294967288"
  shows "bitmap_inv (fresh_bitmap p q n) \<and> used (fresh_bitmap p q n) = {}"
  using assms by (auto simp: bitmap_inv_def used_def bit_of_fresh)

lemma create_ok:
  assumes n: "n \<le> 4294967288" and k1: "kmalloc s = (p, s1)" "p \<noteq> 0" and k2: "kmalloc s1 = (q, s2)" "q \<noteq> 0"
  shows "bitmap_create n s = Some (Some (fresh_bitmap p q n), s2)"
proof -
  have words: "DIVROUNDUP n 8 = (n + 7) div 8" using n by (simp add: DIVROUNDUP_def u32_id)
  define w where "w = (n + 7) div 8"
  show ?thesis
  proof (cases "n mod 8 = 0")
    case True
    then have "\<not> w > n div 8" unfolding w_def by (simp add: words_eq)
    with True k1 k2 words show ?thesis
      by (simp add: bitmap_create_def fresh_bitmap_def Let_def flip: w_def)
  next
    case False
    then have *: "n div 8 = w - 1" "w > 0" "w - 1 < w" unfolding w_def by (simp_all add: words_eq)
    then have over: "n - (w - 1) * 8 = n mod 8" by (metis *(1) minus_div_mult_eq_mod)
    show ?thesis
      using False k1 k2 words * over
      by (simp add: bitmap_create_def fresh_bitmap_def Let_def flip: w_def)
  qed
qed

lemma create_null:
  assumes inv: "kmem_ok s" and k: "kmalloc s = (p, s1)" "p = 0 \<or> (\<exists>s2. kmalloc s1 = (0, s2))"
  shows "\<exists>t. bitmap_create n s = Some (None, t) \<and> live t = live s"
proof (cases "p = 0")
  case True
  with k have "live s1 = live s" using kmem_alloc.alloc_null by blast
  with True k(1) show ?thesis by (simp add: bitmap_create_def Let_def)
next
  case False
  with k(2) obtain s2 where s2: "kmalloc s1 = (0, s2)" by blast
  have l: "live s2 = insert p (live s)" "p \<notin> live s"
    using kmem_alloc.alloc_fresh [OF inv k(1) False] kmem_alloc.alloc_null [OF s2] by auto
  have "kmem_ok s2" using inv k(1) s2 by (blast intro: kmem_ok_kmalloc)
  then obtain t where "kfree p s2 = Some t" "live t = live s2 - {p}"
    using kmem_alloc.free_live [of s2 p] l by auto
  with False k(1) s2 l show ?thesis by (simp add: bitmap_create_def Let_def)
qed


section \<open>Properties\<close>

text \<open>
  C12: \<open>bitmap_alloc\<close> on a well-formed bitmap never stops the kernel: it returns the least
  clear bit and sets exactly that bit, or, when every bit is set, \<open>ENOSPC\<close> with the bitmap
  unchanged.
\<close>

theorem bitmap_alloc_first_fit:
  assumes "bitmap_inv b"
  shows "case bitmap_alloc b of
       None \<Rightarrow> False
     | Some (Inr i, b') \<Rightarrow> i < nbits b \<and> i \<notin> used b \<and> {..<i} \<subseteq> used b
         \<and> used b' = insert i (used b) \<and> bitmap_inv b'
     | Some (Inl e, b') \<Rightarrow> e = ENOSPC \<and> b' = b \<and> used b = {..<nbits b}"
  using alloc_spec [OF assms]
  by (elim disjE exE conjE)
    (simp_all add: used_set [OF assms] bitmap_inv_set [OF assms] subset_iff)

lemma bitmap_alloc_first_fit_witness:
  "case bitmap_alloc (fresh_bitmap 1 2 11) of
       None \<Rightarrow> False
     | Some (Inr i, b') \<Rightarrow> i = 0 \<and> used b' = {0}
     | Some (Inl e, b') \<Rightarrow> used (fresh_bitmap 1 2 11) = {..<11}"
  using bitmap_alloc_first_fit [of "fresh_bitmap 1 2 11"] fresh_bitmap_ok [of 11 1 2]
  by (simp add: lessThan_empty_iff split: option.splits sum.splits prod.splits)

text \<open>
  C13: \<open>bitmap_mark\<close> and \<open>bitmap_unmark\<close> pass their assertions exactly when the index is in
  range and the bit is clear, respectively set; then they add it to, or take it from, the set of
  used bits, keep the bitmap well formed and its size, and each undoes the other.
\<close>

theorem bitmap_mark_unmark:
  assumes "bitmap_inv b"
  shows "((\<exists>b'. bitmap_mark b i = Some b') \<longleftrightarrow> i < nbits b \<and> i \<notin> used b)
    \<and> ((\<exists>b'. bitmap_unmark b i = Some b') \<longleftrightarrow> i \<in> used b)
    \<and> (\<forall>b'. bitmap_mark b i = Some b' \<longrightarrow> bitmap_inv b' \<and> nbits b' = nbits b \<and> used b' = insert i (used b)
        \<and> (\<exists>b''. bitmap_unmark b' i = Some b'' \<and> bitmap_inv b'' \<and> nbits b'' = nbits b \<and> used b'' = used b))
    \<and> (\<forall>b'. bitmap_unmark b i = Some b' \<longrightarrow> bitmap_inv b' \<and> nbits b' = nbits b \<and> used b' = used b - {i}
        \<and> (\<exists>b''. bitmap_mark b' i = Some b'' \<and> bitmap_inv b'' \<and> nbits b'' = nbits b \<and> used b'' = used b))"
proof (intro conjI allI impI)
  show "(\<exists>b'. bitmap_mark b i = Some b') \<longleftrightarrow> i < nbits b \<and> i \<notin> used b"
    using bm.mark_ok [OF assms] bm.mark_bad [OF assms] by (metis option.distinct(1))
  show "(\<exists>b'. bitmap_unmark b i = Some b') \<longleftrightarrow> i \<in> used b"
    using bm.unmark_ok [OF assms] bm.unmark_bad [OF assms] by (metis option.distinct(1))
next
  fix b' assume m: "bitmap_mark b i = Some b'"
  then have i: "i < nbits b" "i \<notin> used b" using assms by (auto simp: mark_eq split: if_splits)
  with m bm.mark_ok [OF assms i] show b': "bitmap_inv b'" "nbits b' = nbits b" "used b' = insert i (used b)" by auto
  with bm.unmark_ok [of b' i] i
  show "\<exists>b''. bitmap_unmark b' i = Some b'' \<and> bitmap_inv b'' \<and> nbits b'' = nbits b \<and> used b'' = used b" by auto
next
  fix b' assume m: "bitmap_unmark b i = Some b'"
  then have i: "i \<in> used b" "i < nbits b" using assms by (auto simp: unmark_eq split: if_splits)
  with m bm.unmark_ok [OF assms i(1)] show b': "bitmap_inv b'" "nbits b' = nbits b" "used b' = used b - {i}" by auto
  with bm.mark_ok [of b' i] i
  show "\<exists>b''. bitmap_mark b' i = Some b'' \<and> bitmap_inv b'' \<and> nbits b'' = nbits b \<and> used b'' = used b" by auto
qed

lemma bitmap_mark_unmark_witness:
  "\<exists>b'. bitmap_mark (fresh_bitmap 1 2 11) 10 = Some b' \<and> used b' = {10}
     \<and> (\<exists>b''. bitmap_unmark b' 10 = Some b'' \<and> used b'' = {})"
proof -
  have ok: "bitmap_inv (fresh_bitmap 1 2 11)" "used (fresh_bitmap 1 2 11) = {}"
    using fresh_bitmap_ok [of 11 1 2] by simp_all
  from bitmap_mark_unmark [OF ok(1), of 10] ok(2) show ?thesis by auto
qed

text \<open>
  \<open>bitmap_create\<close> never stops the kernel for a size that does not overflow the rounding:
  it returns a well-formed bitmap of that size with no bit used, or NULL after releasing what it
  had allocated; \<open>bitmap_destroy\<close> of the new bitmap releases exactly its two blocks.
\<close>

theorem bitmap_create_destroy:
  assumes "kmem_ok s" and "n \<le> 4294967288"
  shows "case bitmap_create n s of
       None \<Rightarrow> False
     | Some (None, t) \<Rightarrow> live t = live s
     | Some (Some b, t) \<Rightarrow> bitmap_inv b \<and> nbits b = n \<and> used b = {}
         \<and> (\<exists>u. bitmap_destroy b t = Some u \<and> live u = live s)"
proof -
  obtain p s1 where k1: "kmalloc s = (p, s1)" by fastforce
  obtain q s2 where k2: "kmalloc s1 = (q, s2)" by fastforce
  show ?thesis
  proof (cases "p = 0 \<or> q = 0")
    case True
    with create_null [OF assms(1) k1, of n] k2 show ?thesis by auto
  next
    case False
    with create_ok [OF assms(2) k1 _ k2]
    have c: "bitmap_create n s = Some (Some (fresh_bitmap p q n), s2)" by simp
    have ok: "kmem_ok s1" using assms(1) k1 by (rule kmem_ok_kmalloc)
    have ok2: "kmem_ok s2" using ok k2 by (rule kmem_ok_kmalloc)
    have l: "p \<notin> live s" "live s1 = insert p (live s)" "q \<notin> live s1" "live s2 = insert q (live s1)"
      using kmem_alloc.alloc_fresh assms(1) k1 ok k2 False by blast+
    obtain t where t: "kfree q s2 = Some t" "live t = live s2 - {q}"
      using kmem_alloc.free_live [OF ok2, of q] l by auto
    have okt: "kmem_ok t" using ok2 t(1) by (rule kmem_ok_kfree)
    obtain u where "kfree p t = Some u" "live u = live t - {p}"
      using kmem_alloc.free_live [OF okt, of p] t l by auto
    then have "\<exists>u. bitmap_destroy (fresh_bitmap p q n) s2 = Some u \<and> live u = live s"
      using t l by (auto simp: bitmap_destroy_def)
    with c fresh_bitmap_ok [OF assms(2)] show ?thesis by simp
  qed
qed

lemma bitmap_create_destroy_witness:
  "case bitmap_create 11 \<lparr>oom = \<lambda>n. False, ticks = 0, live = {}\<rparr> of
       None \<Rightarrow> False
     | Some (None, t) \<Rightarrow> live t = {}
     | Some (Some b, t) \<Rightarrow> nbits b = 11 \<and> used b = {}"
  using bitmap_create_destroy [of "\<lparr>oom = \<lambda>n. False, ticks = 0, live = {}\<rparr>" 11]
  by (auto simp: kmem_ok_def split: option.splits)

end
