(* ===== verification/Threadlist.thy ===== *)
theory Threadlist
  imports Prelude
begin

text \<open>
  The intrusive doubly linked lists of threads of \<open>kern/thread/threadlist.c\<close>, on an explicit heap
  of list nodes.  Each list \<open>l\<close> owns two sentinels, \<open>Head l\<close> and \<open>Tail l\<close>; the node of a
  thread is part of the thread.  The relation \<open>on_list h l ts\<close> says that the chain of list \<open>l\<close>
  holds the threads \<open>ts\<close> in this order, and the operations are proved to act on \<open>ts\<close> as the
  operations of a double-ended queue.  The contract \<open>thread_queue\<close> is what the wait channels and
  the run queues use of it.

  \<open>DEBUGASSERT\<close> expands to nothing in this configuration and is not modelled; following a NULL
  link stops the machine.
\<close>

section \<open>Operations\<close>

type_synonym thread = nat

text \<open>The list heads of the thread system: per CPU a run queue and the zombies, one list per wait
  channel, and lists on a kernel stack.\<close>

datatype tlist = Runqueue nat | Zombies nat | Wchan addr | Local nat

datatype lnode = Head tlist | Tail tlist | Node thread

record lists = kmem +
  tln_prev :: "lnode \<Rightarrow> lnode option"
  tln_next :: "lnode \<Rightarrow> lnode option"
  tln_self :: "lnode \<Rightarrow> thread option"
  tl_count :: "tlist \<Rightarrow> nat"

definition set_prev :: "lnode \<Rightarrow> lnode option \<Rightarrow> 'a lists_scheme \<Rightarrow> 'a lists_scheme" where
  "set_prev n p h = h\<lparr>tln_prev := (tln_prev h)(n := p)\<rparr>"

definition set_next :: "lnode \<Rightarrow> lnode option \<Rightarrow> 'a lists_scheme \<Rightarrow> 'a lists_scheme" where
  "set_next n p h = h\<lparr>tln_next := (tln_next h)(n := p)\<rparr>"

definition set_self :: "lnode \<Rightarrow> thread option \<Rightarrow> 'a lists_scheme \<Rightarrow> 'a lists_scheme" where
  "set_self n t h = h\<lparr>tln_self := (tln_self h)(n := t)\<rparr>"

definition set_count :: "tlist \<Rightarrow> nat \<Rightarrow> 'a lists_scheme \<Rightarrow> 'a lists_scheme" where
  "set_count l c h = h\<lparr>tl_count := (tl_count h)(l := c)\<rparr>"

definition threadlistnode_init :: "lnode \<Rightarrow> thread \<Rightarrow> 'a lists_scheme \<Rightarrow> 'a lists_scheme option" where
  "threadlistnode_init tln t h = do {
     kassert (t \<noteq> 0);
     Some (set_self tln (Some t) (set_prev tln None (set_next tln None h))) }"

definition threadlistnode_cleanup :: "lnode \<Rightarrow> 'a lists_scheme \<Rightarrow> 'a lists_scheme option" where
  "threadlistnode_cleanup tln h = do {
     kassert (tln_next h tln = None);
     kassert (tln_prev h tln = None);
     kassert (tln_self h tln \<noteq> None);
     Some h }"

definition threadlist_init :: "tlist \<Rightarrow> 'a lists_scheme \<Rightarrow> 'a lists_scheme" where
  "threadlist_init l h =
     (let h = set_next (Head l) (Some (Tail l)) h;
          h = set_prev (Head l) None h;
          h = set_next (Tail l) None h;
          h = set_prev (Tail l) (Some (Head l)) h;
          h = set_self (Head l) None h;
          h = set_self (Tail l) None h
      in set_count l 0 h)"

definition threadlist_isempty :: "tlist \<Rightarrow> 'a lists_scheme \<Rightarrow> bool" where
  "threadlist_isempty l h \<longleftrightarrow> tl_count h l = 0"

definition threadlist_cleanup :: "tlist \<Rightarrow> 'a lists_scheme \<Rightarrow> 'a lists_scheme option" where
  "threadlist_cleanup l h = do {
     kassert (threadlist_isempty l h);
     kassert (tl_count h l = 0);
     Some h }"

definition threadlist_insertafternode ::
  "lnode \<Rightarrow> thread \<Rightarrow> 'a lists_scheme \<Rightarrow> 'a lists_scheme option" where
  "threadlist_insertafternode onlist t h = do {
     let addee = Node t;
     let h = set_prev addee (Some onlist) h;
     let h = set_next addee (tln_next h onlist) h;
     p \<leftarrow> tln_prev h addee;
     let h = set_next p (Some addee) h;
     n \<leftarrow> tln_next h addee;
     Some (set_prev n (Some addee) h) }"

definition threadlist_insertbeforenode ::
  "thread \<Rightarrow> lnode \<Rightarrow> 'a lists_scheme \<Rightarrow> 'a lists_scheme option" where
  "threadlist_insertbeforenode t onlist h = do {
     let addee = Node t;
     let h = set_prev addee (tln_prev h onlist) h;
     let h = set_next addee (Some onlist) h;
     p \<leftarrow> tln_prev h addee;
     let h = set_next p (Some addee) h;
     n \<leftarrow> tln_next h addee;
     Some (set_prev n (Some addee) h) }"

definition threadlist_removenode :: "lnode \<Rightarrow> 'a lists_scheme \<Rightarrow> 'a lists_scheme option" where
  "threadlist_removenode tln h = do {
     p \<leftarrow> tln_prev h tln;
     let h = set_next p (tln_next h tln) h;
     n \<leftarrow> tln_next h tln;
     let h = set_prev n (tln_prev h tln) h;
     let h = set_prev tln None h;
     Some (set_next tln None h) }"

text \<open>\<open>tl_count\<close> is an \<open>unsigned\<close>.\<close>

definition count_up :: "tlist \<Rightarrow> 'a lists_scheme \<Rightarrow> 'a lists_scheme" where
  "count_up l h = set_count l (u32 (tl_count h l + 1)) h"

definition count_down :: "tlist \<Rightarrow> 'a lists_scheme \<Rightarrow> 'a lists_scheme" where
  "count_down l h = set_count l (u32 (tl_count h l + 4294967295)) h"

definition threadlist_addhead :: "tlist \<Rightarrow> thread \<Rightarrow> 'a lists_scheme \<Rightarrow> 'a lists_scheme option" where
  "threadlist_addhead l t h = do {
     h \<leftarrow> threadlist_insertafternode (Head l) t h;
     Some (count_up l h) }"

definition threadlist_addtail :: "tlist \<Rightarrow> thread \<Rightarrow> 'a lists_scheme \<Rightarrow> 'a lists_scheme option" where
  "threadlist_addtail l t h = do {
     h \<leftarrow> threadlist_insertbeforenode t (Tail l) h;
     Some (count_up l h) }"

definition threadlist_remhead :: "tlist \<Rightarrow> 'a lists_scheme \<Rightarrow> (thread option \<times> 'a lists_scheme) option" where
  "threadlist_remhead l h = do {
     tln \<leftarrow> tln_next h (Head l);
     if tln_next h tln = None then Some (None, h)
     else do {
       h \<leftarrow> threadlist_removenode tln h;
       let h = count_down l h;
       Some (tln_self h tln, h) } }"

definition threadlist_remtail :: "tlist \<Rightarrow> 'a lists_scheme \<Rightarrow> (thread option \<times> 'a lists_scheme) option" where
  "threadlist_remtail l h = do {
     tln \<leftarrow> tln_prev h (Tail l);
     if tln_prev h tln = None then Some (None, h)
     else do {
       h \<leftarrow> threadlist_removenode tln h;
       let h = count_down l h;
       Some (tln_self h tln, h) } }"

definition threadlist_insertafter ::
  "tlist \<Rightarrow> thread \<Rightarrow> thread \<Rightarrow> 'a lists_scheme \<Rightarrow> 'a lists_scheme option" where
  "threadlist_insertafter l onlist addee h = do {
     h \<leftarrow> threadlist_insertafternode (Node onlist) addee h;
     Some (count_up l h) }"

definition threadlist_insertbefore ::
  "tlist \<Rightarrow> thread \<Rightarrow> thread \<Rightarrow> 'a lists_scheme \<Rightarrow> 'a lists_scheme option" where
  "threadlist_insertbefore l addee onlist h = do {
     h \<leftarrow> threadlist_insertbeforenode addee (Node onlist) h;
     Some (count_up l h) }"

definition threadlist_remove :: "tlist \<Rightarrow> thread \<Rightarrow> 'a lists_scheme \<Rightarrow> 'a lists_scheme option" where
  "threadlist_remove l t h = do {
     h \<leftarrow> threadlist_removenode (Node t) h;
     Some (count_down l h) }"

section \<open>Chains of nodes\<close>

text \<open>Two neighbours of the list point at each other.\<close>

fun linked :: "'a lists_scheme \<Rightarrow> lnode list \<Rightarrow> bool" where
  "linked h (a # b # ns) \<longleftrightarrow> tln_next h a = Some b \<and> tln_prev h b = Some a \<and> linked h (b # ns)"
| "linked h ns \<longleftrightarrow> True"

lemma linked_append: "linked h (xs @ a # ys) \<longleftrightarrow> linked h (xs @ [a]) \<and> linked h (a # ys)"
proof (induction xs)
  case (Cons x xs)
  then show ?case by (cases xs) auto
qed simp

lemma linked_frame:
  "linked h ns \<Longrightarrow> (\<And>n. n \<in> set (butlast ns) \<Longrightarrow> tln_next h' n = tln_next h n) \<Longrightarrow>
   (\<And>n. n \<in> set (tl ns) \<Longrightarrow> tln_prev h' n = tln_prev h n) \<Longrightarrow> linked h' ns"
  by (induction h ns rule: linked.induct) auto

lemmas node_updates = set_prev_def set_next_def set_self_def set_count_def


definition link_in :: "lnode \<Rightarrow> lnode \<Rightarrow> lnode \<Rightarrow> 'a lists_scheme \<Rightarrow> 'a lists_scheme" where
  "link_in a x b h = set_prev b (Some x) (set_next a (Some x) (set_next x (Some b) (set_prev x (Some a) h)))"

definition link_out :: "lnode \<Rightarrow> lnode \<Rightarrow> lnode \<Rightarrow> 'a lists_scheme \<Rightarrow> 'a lists_scheme" where
  "link_out a x b h = set_next x None (set_prev x None (set_prev b (Some a) (set_next a (Some b) h)))"

lemma link_sel [simp]:
  "tln_next (link_in a x b h) = (tln_next h)(x := Some b, a := Some x)"
  "tln_prev (link_in a x b h) = (tln_prev h)(x := Some a, b := Some x)"
  "tln_next (link_out a x b h) = (tln_next h)(a := Some b, x := None)"
  "tln_prev (link_out a x b h) = (tln_prev h)(b := Some a, x := None)"
  "tln_self (link_in a x b h) = tln_self h" "tl_count (link_in a x b h) = tl_count h"
  "tln_self (link_out a x b h) = tln_self h" "tl_count (link_out a x b h) = tl_count h"
  by (simp_all add: link_in_def link_out_def node_updates)

lemma count_sel [simp]:
  "tln_next (count_up l h) = tln_next h" "tln_prev (count_up l h) = tln_prev h"
  "tln_self (count_up l h) = tln_self h"
  "tln_next (count_down l h) = tln_next h" "tln_prev (count_down l h) = tln_prev h"
  "tln_self (count_down l h) = tln_self h"
  "tl_count (count_up l h) = (tl_count h)(l := u32 (tl_count h l + 1))"
  "tl_count (count_down l h) = (tl_count h)(l := u32 (tl_count h l + 4294967295))"
  by (simp_all add: count_up_def count_down_def set_count_def)

lemma insertafter_eq:
  "tln_next h a = Some b \<Longrightarrow> Node t \<noteq> a \<Longrightarrow> threadlist_insertafternode a t h = Some (link_in a (Node t) b h)"
  by (simp add: threadlist_insertafternode_def link_in_def node_updates Let_def)

lemma insertbefore_eq:
  "tln_prev h b = Some a \<Longrightarrow> Node t \<noteq> a \<Longrightarrow> Node t \<noteq> b \<Longrightarrow>
   threadlist_insertbeforenode t b h = Some (link_in a (Node t) b h)"
  by (simp add: threadlist_insertbeforenode_def link_in_def node_updates Let_def)

lemma removenode_eq:
  "tln_prev h x = Some a \<Longrightarrow> tln_next h x = Some b \<Longrightarrow> a \<noteq> x \<Longrightarrow> b \<noteq> x \<Longrightarrow>
   threadlist_removenode x h = Some (link_out a x b h)"
  by (simp add: threadlist_removenode_def link_out_def node_updates Let_def)

lemma linked_cong:
  "(\<And>n. n \<in> set ns \<Longrightarrow> tln_next h' n = tln_next h n) \<Longrightarrow>
   (\<And>n. n \<in> set ns \<Longrightarrow> tln_prev h' n = tln_prev h n) \<Longrightarrow> linked h' ns = linked h ns"
  by (induction h ns rule: linked.induct) auto

lemma linked_snoc_frame:
  "linked h (xs @ [a]) \<Longrightarrow> (\<And>n. n \<in> set xs \<Longrightarrow> tln_next h' n = tln_next h n) \<Longrightarrow>
   (\<And>n. n \<in> set xs \<or> n = a \<Longrightarrow> tln_prev h' n = tln_prev h n) \<Longrightarrow> linked h' (xs @ [a])"
  by (erule linked_frame) (cases xs; auto)+

lemma linked_Cons_frame:
  "linked h (b # ys) \<Longrightarrow> (\<And>n. n \<in> set ys \<or> n = b \<Longrightarrow> tln_next h' n = tln_next h n) \<Longrightarrow>
   (\<And>n. n \<in> set ys \<Longrightarrow> tln_prev h' n = tln_prev h n) \<Longrightarrow> linked h' (b # ys)"
  by (erule linked_frame) (auto dest: in_set_butlastD split: if_splits)

lemma linked_split:
  "linked h (xs @ a # b # ys) \<Longrightarrow> linked h (xs @ [a]) \<and> tln_next h a = Some b
     \<and> tln_prev h b = Some a \<and> linked h (b # ys)"
  using linked_append [of h xs a "b # ys"] by simp

lemma linked_join:
  "linked h (xs @ [a]) \<Longrightarrow> tln_next h a = Some b \<Longrightarrow> tln_prev h b = Some a \<Longrightarrow> linked h (b # ys) \<Longrightarrow>
   linked h (xs @ a # b # ys)"
  using linked_append [of h xs a "b # ys"] by simp

lemma linked_link_in:
  assumes "linked h (xs @ a # b # ys)" and d: "distinct (xs @ a # b # ys)" and x: "x \<notin> set (xs @ a # b # ys)"
  shows "linked (link_in a x b h) (xs @ a # x # b # ys)"
proof (rule linked_join)
  from assms(1) have l: "linked h (xs @ [a])" "linked h (b # ys)" by (auto dest: linked_split)
  show "linked (link_in a x b h) (xs @ [a])"
    by (rule linked_snoc_frame [OF l(1)]) (use d x in auto)
  have "linked (link_in a x b h) (b # ys)"
    by (rule linked_Cons_frame [OF l(2)]) (use d x in auto)
  then show "linked (link_in a x b h) (x # b # ys)" using d x by auto
qed (use d x in auto)

lemma linked_link_out:
  assumes "linked h (xs @ a # x # b # ys)" and d: "distinct (xs @ a # x # b # ys)"
  shows "linked (link_out a x b h) (xs @ a # b # ys)"
proof (rule linked_join)
  from assms(1) have l: "linked h (xs @ [a])" "linked h (b # ys)"
    using linked_split [OF assms(1)] by auto
  show "linked (link_out a x b h) (xs @ [a])"
    by (rule linked_snoc_frame [OF l(1)]) (use d in auto)
  show "linked (link_out a x b h) (b # ys)"
    by (rule linked_Cons_frame [OF l(2)]) (use d in auto)
qed (use d in auto)

section \<open>Lists of threads\<close>

definition chain :: "tlist \<Rightarrow> thread list \<Rightarrow> lnode list" where
  "chain l ts = Head l # map Node ts @ [Tail l]"

definition on_list :: "'a lists_scheme \<Rightarrow> tlist \<Rightarrow> thread list \<Rightarrow> bool" where
  "on_list h l ts \<longleftrightarrow> linked h (chain l ts) \<and> distinct ts
     \<and> tln_prev h (Head l) = None \<and> tln_next h (Tail l) = None
     \<and> tln_self h (Head l) = None \<and> tln_self h (Tail l) = None
     \<and> (\<forall>t\<in>set ts. tln_self h (Node t) = Some t)
     \<and> tl_count h l = length ts \<and> length ts < 4294967296"

text \<open>A thread on no list: its links are NULL.\<close>

definition detached :: "'a lists_scheme \<Rightarrow> thread \<Rightarrow> bool" where
  "detached h t \<longleftrightarrow> tln_prev h (Node t) = None \<and> tln_next h (Node t) = None
     \<and> tln_self h (Node t) = Some t"

definition before :: "tlist \<Rightarrow> thread list \<Rightarrow> lnode" where
  "before l us = (if us = [] then Head l else Node (last us))"

definition after :: "tlist \<Rightarrow> thread list \<Rightarrow> lnode" where
  "after l vs = (if vs = [] then Tail l else Node (hd vs))"

lemma chain_split:
  obtains xs ys where "chain l (us @ vs) = xs @ before l us # after l vs # ys"
    "chain l (us @ t # vs) = xs @ before l us # Node t # after l vs # ys"
proof (rule that)
  have u: "Head l # map Node us = butlast (Head l # map Node us) @ [before l us]"
    by (cases us rule: rev_cases) (auto simp: before_def)
  have v: "map Node vs @ [Tail l] = after l vs # tl (map Node vs @ [Tail l])"
    by (cases vs) (auto simp: after_def)
  show "chain l (us @ vs) = butlast (Head l # map Node us) @ before l us # after l vs # tl (map Node vs @ [Tail l])"
    using u v unfolding chain_def
    by (metis (no_types, lifting) append_Cons append_Nil append_assoc map_append)
  show "chain l (us @ t # vs)
      = butlast (Head l # map Node us) @ before l us # Node t # after l vs # tl (map Node vs @ [Tail l])"
    using u v unfolding chain_def
    by (metis (no_types, lifting) append_Cons append_Nil append_assoc list.map(2) map_append)
qed

lemma distinct_chain: "distinct (chain l ts) \<longleftrightarrow> distinct ts"
  by (auto simp: chain_def distinct_map inj_on_def)

lemma set_chain: "set (chain l ts) = {Head l, Tail l} \<union> Node ` set ts"
  by (auto simp: chain_def)


lemma before_after [simp]: "before l us \<noteq> Tail k" "after l vs \<noteq> Head k"
  "Tail k \<noteq> before l us" "Head k \<noteq> after l vs"
  by (auto simp: before_def after_def)

lemma before_in: "before l us \<in> insert (Head l) (Node ` set us)"
  by (auto simp: before_def)

lemma after_in: "after l vs \<in> insert (Tail l) (Node ` set vs)"
  by (auto simp: after_def)

lemma on_list_links:
  assumes "on_list h l (us @ vs)"
  shows "tln_next h (before l us) = Some (after l vs) \<and> tln_prev h (after l vs) = Some (before l us)"
proof -
  obtain xs ys where "chain l (us @ vs) = xs @ before l us # after l vs # ys"
    by (rule chain_split)
  then show ?thesis using assms linked_split by (fastforce simp: on_list_def)
qed

lemma on_list_insert:
  assumes ol: "on_list h l (us @ vs)" and t: "t \<notin> set (us @ vs)" "tln_self h (Node t) = Some t"
    and len: "length (us @ vs) < 4294967295"
  shows "on_list (count_up l (link_in (before l us) (Node t) (after l vs) h)) l (us @ t # vs)"
proof -
  obtain xs ys where c: "chain l (us @ vs) = xs @ before l us # after l vs # ys"
    "chain l (us @ t # vs) = xs @ before l us # Node t # after l vs # ys"
    by (rule chain_split)
  have d: "distinct (xs @ before l us # after l vs # ys)"
    using ol c(1) by (metis distinct_chain on_list_def)
  have x: "Node t \<notin> set (xs @ before l us # after l vs # ys)"
    using t(1) unfolding c(1) [symmetric] set_chain by auto
  have "linked h (xs @ before l us # after l vs # ys)" using ol c(1) by (simp add: on_list_def)
  from linked_link_in [OF this d x]
  have "linked (link_in (before l us) (Node t) (after l vs) h) (chain l (us @ t # vs))" by (simp add: c(2))
  then have "linked (count_up l (link_in (before l us) (Node t) (after l vs) h)) (chain l (us @ t # vs))"
    by (rule iffD1 [OF linked_cong, rotated 2]) simp_all
  then show ?thesis using ol t len by (auto simp: on_list_def u32_id)
qed

lemma on_list_remove:
  assumes ol: "on_list h l (us @ t # vs)"
  defines "h' \<equiv> count_down l (link_out (before l us) (Node t) (after l vs) h)"
  shows "on_list h' l (us @ vs) \<and> detached h' t
    \<and> tln_prev h (Node t) = Some (before l us) \<and> tln_next h (Node t) = Some (after l vs)"
proof -
  obtain xs ys where c: "chain l (us @ vs) = xs @ before l us # after l vs # ys"
    "chain l (us @ t # vs) = xs @ before l us # Node t # after l vs # ys"
    by (rule chain_split)
  have d: "distinct (xs @ before l us # Node t # after l vs # ys)"
    using ol c(2) by (metis distinct_chain on_list_def)
  have l: "linked h (xs @ before l us # Node t # after l vs # ys)" using ol c(2) by (simp add: on_list_def)
  from linked_link_out [OF l d]
  have "linked (link_out (before l us) (Node t) (after l vs) h) (chain l (us @ vs))" by (simp add: c(1))
  then have "linked h' (chain l (us @ vs))"
    unfolding h'_def by (rule iffD1 [OF linked_cong, rotated 2]) simp_all
  moreover have "u32 (Suc (length us + length vs) + 4294967295) = length us + length vs"
    using ol by (simp add: on_list_def u32_def)
  ultimately have "on_list h' l (us @ vs) \<and> detached h' t"
    using ol d by (auto simp: on_list_def detached_def h'_def)
  moreover have "tln_prev h (Node t) = Some (before l us)" "tln_next h (Node t) = Some (after l vs)"
    using linked_split [OF l] by auto
  ultimately show ?thesis by simp
qed

lemma before_not_t: "t \<notin> set us \<Longrightarrow> before l us \<noteq> Node t"
  by (auto simp: before_def)

lemma after_not_t: "t \<notin> set vs \<Longrightarrow> after l vs \<noteq> Node t"
  by (auto simp: after_def)

text \<open>What an operation on list \<open>l\<close> leaves alone: the other lists.\<close>

definition same_elsewhere :: "'a lists_scheme \<Rightarrow> 'a lists_scheme \<Rightarrow> tlist \<Rightarrow> thread set \<Rightarrow> bool" where
  "same_elsewhere h h' l ts \<longleftrightarrow> tln_self h' = tln_self h \<and> lists.more h' = lists.more h
     \<and> oom h' = oom h \<and> ticks h' = ticks h \<and> live h' = live h
     \<and> (\<forall>k. k \<noteq> l \<longrightarrow> tl_count h' k = tl_count h k)
     \<and> (\<forall>n. n \<notin> {Head l, Tail l} \<union> Node ` ts \<longrightarrow> tln_prev h' n = tln_prev h n \<and> tln_next h' n = tln_next h n)"

lemma on_list_elsewhere:
  assumes "same_elsewhere h h' l ts" and "on_list h k us" and "k \<noteq> l" and "set us \<inter> ts = {}"
  shows "on_list h' k us"
proof -
  have "n \<notin> {Head l, Tail l} \<union> Node ` ts" if "n \<in> set (chain k us)" for n
    using that assms(3,4) by (auto simp: set_chain)
  then have "linked h' (chain k us) = linked h (chain k us)"
    using assms(1) by (intro linked_cong) (auto simp: same_elsewhere_def)
  moreover have "tln_prev h' (Head k) = tln_prev h (Head k)" "tln_next h' (Tail k) = tln_next h (Tail k)"
    using assms(1,3) by (auto simp: same_elsewhere_def)
  ultimately show ?thesis using assms by (auto simp: on_list_def same_elsewhere_def)
qed

lemma detached_elsewhere:
  "same_elsewhere h h' l ts \<Longrightarrow> detached h t \<Longrightarrow> t \<notin> ts \<Longrightarrow> detached h' t"
  by (auto simp: detached_def same_elsewhere_def)

text \<open>Only the links and the counts change.\<close>

lemma elsewhere_eq:
  "same_elsewhere h h' l ts \<Longrightarrow> \<exists>p n c. h' = h\<lparr>tln_prev := p, tln_next := n, tl_count := c\<rparr>"
  by (intro exI [of _ "tln_prev h'"] exI [of _ "tln_next h'"] exI [of _ "tl_count h'"])
    (cases h; cases h'; simp add: same_elsewhere_def)

lemma elsewhere_in:
  "same_elsewhere h (count_up l (link_in (before l us) (Node t) (after l vs) h)) l (set (us @ t # vs))"
  using before_in [of l us] after_in [of l vs]
  by (auto simp: same_elsewhere_def count_up_def link_in_def node_updates)

lemma elsewhere_out:
  "same_elsewhere h (count_down l (link_out (before l us) (Node t) (after l vs) h)) l (set (us @ t # vs))"
  using before_in [of l us] after_in [of l vs]
  by (auto simp: same_elsewhere_def count_down_def link_out_def node_updates)

section \<open>Every operation is the operation of a double-ended queue\<close>

lemma detached_notin: "on_list h l ts \<Longrightarrow> detached h t \<Longrightarrow> t \<notin> set ts"
  using on_list_remove by (fastforce simp: detached_def dest: split_list)

lemma init_spec: "on_list (threadlist_init l h) l []"
  by (simp add: on_list_def chain_def threadlist_init_def node_updates Let_def)

lemma isempty_spec: "on_list h l ts \<Longrightarrow> threadlist_isempty l h \<longleftrightarrow> ts = []"
  by (auto simp: on_list_def threadlist_isempty_def)

lemma cleanup_spec: "on_list h l ts \<Longrightarrow> threadlist_cleanup l h = (if ts = [] then Some h else None)"
  by (auto simp: threadlist_cleanup_def threadlist_isempty_def on_list_def)

lemma insert_at_spec:
  assumes "on_list h l (us @ vs)" and "detached h t" and "length (us @ vs) < 4294967295"
  defines "h' \<equiv> link_in (before l us) (Node t) (after l vs) h"
  shows "threadlist_insertafternode (before l us) t h = Some h'"
    and "threadlist_insertbeforenode t (after l vs) h = Some h'"
    and "on_list (count_up l h') l (us @ t # vs)"
    and "same_elsewhere h (count_up l h') l (set (us @ t # vs))"
proof -
  have t: "t \<notin> set us" "t \<notin> set vs" using detached_notin [OF assms(1,2)] by auto
  note ne = before_not_t [OF t(1), of l, symmetric] after_not_t [OF t(2), of l, symmetric]
  show "threadlist_insertafternode (before l us) t h = Some h'"
    using on_list_links [OF assms(1)] ne by (simp add: insertafter_eq h'_def)
  show "threadlist_insertbeforenode t (after l vs) h = Some h'"
    using on_list_links [OF assms(1)] ne by (simp add: insertbefore_eq h'_def)
  show "on_list (count_up l h') l (us @ t # vs)"
    unfolding h'_def using assms(1-3) t by (intro on_list_insert) (auto simp: detached_def)
  show "same_elsewhere h (count_up l h') l (set (us @ t # vs))"
    unfolding h'_def by (rule elsewhere_in)
qed

lemma remove_at_spec:
  assumes "on_list h l (us @ t # vs)"
  defines "h' \<equiv> link_out (before l us) (Node t) (after l vs) h"
  shows "threadlist_removenode (Node t) h = Some h'"
    and "on_list (count_down l h') l (us @ vs)" and "detached (count_down l h') t"
    and "same_elsewhere h (count_down l h') l (set (us @ t # vs))"
    and "tln_self h (Node t) = Some t"
proof -
  have t: "t \<notin> set us" "t \<notin> set vs" using assms(1) by (auto simp: on_list_def)
  note rm = on_list_remove [OF assms(1)]
  show "threadlist_removenode (Node t) h = Some h'"
    using rm before_not_t [OF t(1), of l] after_not_t [OF t(2), of l] by (simp add: removenode_eq h'_def)
  show "on_list (count_down l h') l (us @ vs)" "detached (count_down l h') t"
    using rm by (simp_all add: h'_def)
  show "same_elsewhere h (count_down l h') l (set (us @ t # vs))"
    unfolding h'_def by (rule elsewhere_out)
  show "tln_self h (Node t) = Some t" using assms(1) by (simp add: on_list_def)
qed

lemma addtail_spec:
  assumes "on_list h l ts" and "detached h t" and "length ts < 4294967295"
  shows "\<exists>h'. threadlist_addtail l t h = Some h' \<and> on_list h' l (ts @ [t])
    \<and> same_elsewhere h h' l (set (ts @ [t]))"
  using insert_at_spec [of h l ts "[]" t] assms
  by (auto simp: threadlist_addtail_def after_def)

lemma addhead_spec:
  assumes "on_list h l ts" and "detached h t" and "length ts < 4294967295"
  shows "\<exists>h'. threadlist_addhead l t h = Some h' \<and> on_list h' l (t # ts)
    \<and> same_elsewhere h h' l (set (t # ts))"
  using insert_at_spec [of h l "[]" ts t] assms
  by (auto simp: threadlist_addhead_def before_def)

lemma remhead_spec:
  assumes "on_list h l ts"
  shows "case ts of [] \<Rightarrow> threadlist_remhead l h = Some (None, h)
    | t # ts' \<Rightarrow> \<exists>h'. threadlist_remhead l h = Some (Some t, h') \<and> on_list h' l ts' \<and> detached h' t
        \<and> same_elsewhere h h' l (set ts)"
proof (cases ts)
  case Nil
  with assms show ?thesis by (simp add: on_list_def chain_def threadlist_remhead_def)
next
  case (Cons t ts')
  have "tln_next h (Head l) = Some (Node t)" "tln_next h (Node t) \<noteq> None"
    using assms Cons on_list_links [of h l "[]" ts] on_list_remove [of h l "[]" t ts']
    by (simp_all add: before_def after_def)
  then show ?thesis
    using remove_at_spec [of h l "[]" t ts'] assms Cons
    by (auto simp: threadlist_remhead_def Let_def)
qed

lemma remtail_spec:
  assumes "on_list h l ts"
  shows "if ts = [] then threadlist_remtail l h = Some (None, h)
    else \<exists>h'. threadlist_remtail l h = Some (Some (last ts), h') \<and> on_list h' l (butlast ts)
        \<and> detached h' (last ts) \<and> same_elsewhere h h' l (set ts)"
proof (cases ts rule: rev_cases)
  case Nil
  with assms show ?thesis by (simp add: on_list_def chain_def threadlist_remtail_def)
next
  case (snoc ts' t)
  have "tln_prev h (Tail l) = Some (Node t)" "tln_prev h (Node t) \<noteq> None"
    using assms snoc on_list_links [of h l ts "[]"] on_list_remove [of h l ts' t "[]"]
    by (simp_all add: before_def after_def)
  then show ?thesis
    using remove_at_spec [of h l ts' t "[]"] assms snoc
    by (auto simp: threadlist_remtail_def Let_def)
qed

lemma insertafter_spec:
  assumes "on_list h l (us @ a # vs)" and "detached h t" and "length (us @ a # vs) < 4294967295"
  shows "\<exists>h'. threadlist_insertafter l a t h = Some h' \<and> on_list h' l (us @ a # t # vs)
    \<and> same_elsewhere h h' l (set (us @ a # t # vs))"
  using insert_at_spec [of h l "us @ [a]" vs t] assms
  by (auto simp: threadlist_insertafter_def before_def)

lemma insertbefore_spec:
  assumes "on_list h l (us @ a # vs)" and "detached h t" and "length (us @ a # vs) < 4294967295"
  shows "\<exists>h'. threadlist_insertbefore l t a h = Some h' \<and> on_list h' l (us @ t # a # vs)
    \<and> same_elsewhere h h' l (set (us @ t # a # vs))"
  using insert_at_spec [of h l us "a # vs" t] assms
  by (auto simp: threadlist_insertbefore_def after_def)

lemma remove_spec:
  assumes "on_list h l (us @ t # vs)"
  shows "\<exists>h'. threadlist_remove l t h = Some h' \<and> on_list h' l (us @ vs) \<and> detached h' t"
  using remove_at_spec [OF assms] by (simp add: threadlist_remove_def)

text \<open>A thread is on at most one list: its predecessors lead back to one head only.\<close>

lemma on_list_unique:
  "on_list h l (us @ t # vs) \<Longrightarrow> on_list h k (us' @ t # vs') \<Longrightarrow> l = k"
proof (induction us arbitrary: t vs us' vs' rule: rev_induct)
  case Nil
  then have "before l [] = before k us'" using on_list_remove [of h l "[]" t vs] on_list_remove [of h k us' t vs'] by simp
  then show ?case by (auto simp: before_def split: if_splits)
next
  case (snoc u us)
  then have b: "before l (us @ [u]) = before k us'"
    using on_list_remove [of h l "us @ [u]" t vs] on_list_remove [of h k us' t vs'] by simp
  then obtain ws where "us' = ws @ [u]"
    by (cases us' rule: rev_cases) (auto simp: before_def)
  with snoc show ?case by auto
qed

lemma on_list_disjoint: "on_list h l ts \<Longrightarrow> on_list h k us \<Longrightarrow> l \<noteq> k \<Longrightarrow> set ts \<inter> set us = {}"
  using on_list_unique by (metis disjoint_iff split_list)

section \<open>The contract of a queue of threads\<close>

text \<open>The loop \<open>while ((t = remhead(a)) != NULL) addtail(b, t)\<close> over any queue operations.\<close>

partial_function (option) move_all ::
  "('l \<Rightarrow> 'h \<Rightarrow> (thread option \<times> 'h) option) \<Rightarrow> ('l \<Rightarrow> thread \<Rightarrow> 'h \<Rightarrow> 'h option) \<Rightarrow>
   'l \<Rightarrow> 'l \<Rightarrow> 'h \<Rightarrow> 'h option" where
  "move_all remhead addtail a b h =
     (case remhead a h of
        None \<Rightarrow> None
      | Some (None, h') \<Rightarrow> Some h'
      | Some (Some t, h') \<Rightarrow>
          (case addtail b t h' of None \<Rightarrow> None | Some h'' \<Rightarrow> move_all remhead addtail a b h''))"

locale thread_queue =
  fixes repr :: "'h \<Rightarrow> 'l \<Rightarrow> thread list \<Rightarrow> bool"
    and loose :: "'h \<Rightarrow> thread \<Rightarrow> bool"
    and addtail :: "'l \<Rightarrow> thread \<Rightarrow> 'h \<Rightarrow> 'h option"
    and remhead :: "'l \<Rightarrow> 'h \<Rightarrow> (thread option \<times> 'h) option"
  assumes addtail: "repr h l ts \<Longrightarrow> loose h t \<Longrightarrow> length ts < 4294967295 \<Longrightarrow>
      \<exists>h'. addtail l t h = Some h' \<and> repr h' l (ts @ [t])
        \<and> (\<forall>k us. repr h k us \<and> k \<noteq> l \<and> set us \<inter> set (ts @ [t]) = {} \<longrightarrow> repr h' k us)"
    and remhead_empty: "repr h l [] \<Longrightarrow> remhead l h = Some (None, h)"
    and remhead: "repr h l (t # ts) \<Longrightarrow>
      \<exists>h'. remhead l h = Some (Some t, h') \<and> repr h' l ts \<and> loose h' t
        \<and> (\<forall>k us. repr h k us \<and> k \<noteq> l \<and> set us \<inter> set (t # ts) = {} \<longrightarrow> repr h' k us)"
    and distinct_repr: "repr h l ts \<Longrightarrow> distinct ts"
begin

text \<open>Moving a whole queue ends, keeps the order, and leaves the source empty.\<close>

lemma move_all_spec:
  assumes "repr h a ts" and "repr h b us" and "a \<noteq> b" and "set ts \<inter> set us = {}"
    and "length ts + length us < 4294967295"
  shows "\<exists>h'. move_all remhead addtail a b h = Some h' \<and> repr h' a [] \<and> repr h' b (us @ ts)
    \<and> (\<forall>k ws. repr h k ws \<and> k \<noteq> a \<and> k \<noteq> b \<and> set ws \<inter> (set ts \<union> set us) = {} \<longrightarrow> repr h' k ws)"
  using assms
proof (induction ts arbitrary: h us)
  case Nil
  then show ?case by (subst move_all.simps) (auto simp: remhead_empty)
next
  case (Cons t ts)
  from remhead [OF Cons.prems(1)] obtain h1 where h1: "remhead a h = Some (Some t, h1)"
    "repr h1 a ts" "loose h1 t"
    and f1: "\<And>k us. repr h k us \<Longrightarrow> k \<noteq> a \<Longrightarrow> set us \<inter> set (t # ts) = {} \<Longrightarrow> repr h1 k us" by blast
  have b1: "repr h1 b us" using f1 [OF Cons.prems(2)] Cons.prems by auto
  have d: "t \<notin> set ts" using distinct_repr [OF Cons.prems(1)] by simp
  from addtail [OF b1 h1(3)] Cons.prems(5) obtain h2 where h2: "addtail b t h1 = Some h2"
    "repr h2 b (us @ [t])"
    and f2: "\<And>k ws. repr h1 k ws \<Longrightarrow> k \<noteq> b \<Longrightarrow> set ws \<inter> set (us @ [t]) = {} \<Longrightarrow> repr h2 k ws" by auto
  have a2: "repr h2 a ts" using f2 [OF h1(2)] Cons.prems(3,4) d by auto
  obtain h' where h': "move_all remhead addtail a b h2 = Some h'" "repr h' a []" "repr h' b ((us @ [t]) @ ts)"
    and f': "\<And>k ws. repr h2 k ws \<Longrightarrow> k \<noteq> a \<Longrightarrow> k \<noteq> b \<Longrightarrow> set ws \<inter> (set ts \<union> set (us @ [t])) = {} \<Longrightarrow> repr h' k ws"
    using Cons.IH [OF a2 h2(2) Cons.prems(3)] Cons.prems(4,5) d by auto
  have "repr h' k ws" if "repr h k ws" "k \<noteq> a" "k \<noteq> b" "set ws \<inter> (set (t # ts) \<union> set us) = {}" for k ws
    using that by (intro f' f2 f1) auto
  moreover have "move_all remhead addtail a b h = Some h'"
    by (subst move_all.simps) (simp add: h1 h2 h')
  ultimately show ?case using h' by auto
qed

end

interpretation tlq: thread_queue on_list detached threadlist_addtail threadlist_remhead
proof unfold_locales
  fix h :: "'a lists_scheme" and l ts t
  assume "on_list h l ts" "detached h t" "length ts < 4294967295"
  from addtail_spec [OF this] show "\<exists>h'. threadlist_addtail l t h = Some h' \<and> on_list h' l (ts @ [t])
      \<and> (\<forall>k us. on_list h k us \<and> k \<noteq> l \<and> set us \<inter> set (ts @ [t]) = {} \<longrightarrow> on_list h' k us)"
    using on_list_elsewhere by blast
next
  fix h :: "'a lists_scheme" and l t ts
  assume "on_list h l (t # ts)"
  from remhead_spec [OF this] show "\<exists>h'. threadlist_remhead l h = Some (Some t, h') \<and> on_list h' l ts
      \<and> detached h' t \<and> (\<forall>k us. on_list h k us \<and> k \<noteq> l \<and> set us \<inter> set (t # ts) = {} \<longrightarrow> on_list h' k us)"
    using on_list_elsewhere by fastforce
qed (use remhead_spec in \<open>force simp: on_list_def\<close>)+

section \<open>Properties\<close>

text \<open>What adding thread \<open>t\<close> to the list \<open>l\<close> leaves alone: all other lists and threads.\<close>

definition others_kept :: "'a lists_scheme \<Rightarrow> 'a lists_scheme \<Rightarrow> tlist \<Rightarrow> thread \<Rightarrow> bool" where
  "others_kept h h' l t \<longleftrightarrow> (\<forall>k ws. on_list h k ws \<and> k \<noteq> l \<longrightarrow> on_list h' k ws) \<and> (\<forall>u. detached h u \<and> u \<noteq> t \<longrightarrow> detached h' u)"

lemma others_keptI:
  assumes "on_list h l ts" and "detached h t" and "same_elsewhere h h' l (insert t (set ts))"
  shows "others_kept h h' l t"
  unfolding others_kept_def
proof (intro conjI allI impI; elim conjE)
  fix k ws assume k: "on_list h k ws" "k \<noteq> l"
  then have "set ws \<inter> insert t (set ts) = {}"
    using on_list_disjoint [OF assms(1) k(1)] detached_notin [OF k(1) assms(2)] by auto
  then show "on_list h' k ws" using on_list_elsewhere [OF assms(3) k] by blast
next
  fix u assume "detached h u" "u \<noteq> t"
  then show "detached h' u" using detached_elsewhere [OF assms(3)] detached_notin [OF assms(1)] by blast
qed

text \<open>
  C14: adding a thread that is on no list puts it at the chosen place of the list: at the tail or at the
  head of any list, also an empty one, or next to a thread of the list.  None of the four operations stops, and
  none changes another list or puts another thread on a list.
\<close>

theorem threadlist_adds:
  assumes "on_list h l ts" and "detached h t" and "length ts < 4294967295"
  shows "(\<exists>h'. threadlist_addtail l t h = Some h' \<and> on_list h' l (ts @ [t]) \<and> others_kept h h' l t)
    \<and> (\<exists>h'. threadlist_addhead l t h = Some h' \<and> on_list h' l (t # ts) \<and> others_kept h h' l t)
    \<and> (\<forall>us a vs. ts = us @ a # vs \<longrightarrow>
        (\<exists>h'. threadlist_insertafter l a t h = Some h' \<and> on_list h' l (us @ a # t # vs) \<and> others_kept h h' l t)
        \<and> (\<exists>h'. threadlist_insertbefore l t a h = Some h' \<and> on_list h' l (us @ t # a # vs) \<and> others_kept h h' l t))"
proof (intro conjI allI impI)
  note kept = others_keptI [OF assms(1,2)]
  show "\<exists>h'. threadlist_addtail l t h = Some h' \<and> on_list h' l (ts @ [t]) \<and> others_kept h h' l t"
    using addtail_spec [OF assms] kept by fastforce
  show "\<exists>h'. threadlist_addhead l t h = Some h' \<and> on_list h' l (t # ts) \<and> others_kept h h' l t"
    using addhead_spec [OF assms] kept by fastforce
  fix us a vs assume ts: "ts = us @ a # vs"
  show "\<exists>h'. threadlist_insertafter l a t h = Some h' \<and> on_list h' l (us @ a # t # vs) \<and> others_kept h h' l t"
    using insertafter_spec [OF assms [unfolded ts]] kept by (fastforce simp: ts insert_commute)
  show "\<exists>h'. threadlist_insertbefore l t a h = Some h' \<and> on_list h' l (us @ t # a # vs) \<and> others_kept h h' l t"
    using insertbefore_spec [OF assms [unfolded ts]] kept by (fastforce simp: ts insert_commute)
qed

text \<open>A heap in which every thread is on no list.\<close>

definition no_lists :: lists where
  "no_lists = \<lparr>oom = \<lambda>_. False, ticks = 0, live = {}, tln_prev = \<lambda>_. None, tln_next = \<lambda>_. None,
     tln_self = (\<lambda>n. case n of Node t \<Rightarrow> Some t | _ \<Rightarrow> None), tl_count = \<lambda>_. 0\<rparr>"

definition two_threads :: lists where
  "two_threads = the (threadlist_addtail (Local 0) 8 (the (threadlist_addtail (Local 0) 7
     (threadlist_init (Local 0) no_lists))))"

lemma two_threads_ok: "on_list two_threads (Local 0) [7, 8] \<and> detached two_threads 9"
proof -
  let ?h0 = "threadlist_init (Local 0) no_lists"
  have d: "detached ?h0 t" for t
    by (simp add: detached_def threadlist_init_def no_lists_def node_updates Let_def)
  from addtail_spec [OF init_spec [of "Local 0" no_lists] d [of 7]] obtain h1
    where h1: "threadlist_addtail (Local 0) 7 ?h0 = Some h1" "on_list h1 (Local 0) [7]"
      and e1: "same_elsewhere ?h0 h1 (Local 0) {7}" by auto
  have d1: "detached h1 8" "detached h1 9" using e1 d detached_elsewhere by fastforce+
  from addtail_spec [OF h1(2) d1(1)] obtain h2
    where h2: "threadlist_addtail (Local 0) 8 h1 = Some h2" "on_list h2 (Local 0) [7, 8]"
      and e2: "same_elsewhere h1 h2 (Local 0) {7, 8}" by auto
  have "detached h2 9" using e2 d1(2) detached_elsewhere by fastforce
  with h1 h2 show ?thesis by (simp add: two_threads_def)
qed

lemma threadlist_adds_witness:
  "(\<exists>h'. threadlist_insertafter (Local 0) 7 9 two_threads = Some h' \<and> on_list h' (Local 0) [7, 9, 8])
    \<and> (\<exists>h'. threadlist_addhead (Local 1) 9 (threadlist_init (Local 1) no_lists) = Some h' \<and> on_list h' (Local 1) [9])"
proof
  have o: "on_list two_threads (Local 0) [7, 8]" and d: "detached two_threads 9" using two_threads_ok by simp_all
  have "[7, 8] = [] @ 7 # [8]" by simp
  then show "\<exists>h'. threadlist_insertafter (Local 0) 7 9 two_threads = Some h' \<and> on_list h' (Local 0) [7, 9, 8]"
    using threadlist_adds [OF o d] by fastforce
  have "detached (threadlist_init (Local 1) no_lists) 9"
    by (simp add: detached_def threadlist_init_def no_lists_def node_updates Let_def)
  from threadlist_adds [OF init_spec this] show "\<exists>h'. threadlist_addhead (Local 1) 9 (threadlist_init (Local 1) no_lists) = Some h' \<and> on_list h' (Local 1) [9]"
    by auto
qed

text \<open>
  C15: removing from a list returns the threads from the chosen end in order, or NULL exactly
  when the list is empty; \<open>threadlist_remove\<close> takes out the given thread.  A removed thread is
  on no list.
\<close>

theorem threadlist_removes:
  assumes "on_list h l ts"
  shows "(case ts of
        [] \<Rightarrow> threadlist_remhead l h = Some (None, h) \<and> threadlist_remtail l h = Some (None, h)
      | t # ts' \<Rightarrow> (\<exists>h'. threadlist_remhead l h = Some (Some t, h') \<and> on_list h' l ts' \<and> detached h' t)
          \<and> (\<exists>h'. threadlist_remtail l h = Some (Some (last ts), h') \<and> on_list h' l (butlast ts)
              \<and> detached h' (last ts)))
    \<and> (\<forall>us t vs. ts = us @ t # vs \<longrightarrow>
        (\<exists>h'. threadlist_remove l t h = Some h' \<and> on_list h' l (us @ vs) \<and> detached h' t))"
proof -
  have "\<forall>us t vs. ts = us @ t # vs \<longrightarrow>
      (\<exists>h'. threadlist_remove l t h = Some h' \<and> on_list h' l (us @ vs) \<and> detached h' t)"
    using assms remove_spec by blast
  then show ?thesis
    using remhead_spec [OF assms] remtail_spec [OF assms] by (cases ts) auto
qed

lemma threadlist_removes_witness:
  "\<exists>h'. threadlist_remhead (Local 0) two_threads = Some (Some 7, h') \<and> on_list h' (Local 0) [8]"
proof -
  have "on_list two_threads (Local 0) [7, 8]" using two_threads_ok by simp
  from threadlist_removes [OF this] show ?thesis by auto
qed

end
