(* ===== verification/Threads.thy ===== *)
theory Threads
  imports Threadlist "HOL-Library.Multiset"
begin

text \<open>
  The machine-independent thread system of \<open>kern/thread/thread.c\<close> and \<open>kern/thread/clock.c\<close>:
  thread structures, wait channels, run queues, the context switch, the disposal of dead threads,
  migration between CPUs and interprocessor interrupts.  The code changes a list with interrupts
  off and under the spinlock of that list, so each operation is one step; the lock itself is the
  subject of \<open>Spinlock\<close>.  The queues are the linked lists of \<open>Threadlist\<close>; the lemmas are
  stated over their contents.

  Not modelled: the names kept for debugging, the machine context (\<open>switchframe_switch\<close>,
  \<open>thread_machdep_init\<close>), the interrupt level counters, and \<open>as_activate\<close>.
\<close>

section \<open>State\<close>

datatype threadstate = S_RUN | S_READY | S_SLEEP | S_ZOMBIE

type_synonym cpu = addr  \<comment> \<open>a pointer to a cpu structure, 0 is NULL\<close>

record threads = lists +
  t_state :: "thread \<Rightarrow> threadstate"
  t_cpu :: "thread \<Rightarrow> cpu"
  t_stack :: "thread \<Rightarrow> addr"
  t_proc :: "thread \<Rightarrow> addr"
  t_in_interrupt :: "thread \<Rightarrow> bool"
  stackmem :: "addr \<Rightarrow> nat \<Rightarrow> nat"     \<comment> \<open>the words at the bottom of a stack\<close>
  c_curthread :: "cpu \<Rightarrow> thread"
  c_isidle :: "cpu \<Rightarrow> bool"
  c_hardclocks :: "cpu \<Rightarrow> nat"
  c_ipi_pending :: "cpu \<Rightarrow> 32 word"
  c_shootdown :: "cpu \<Rightarrow> addr list"
  allcpus :: "cpu list"
  curcpu :: cpu
  lbolt :: addr

abbreviation curthread :: "'a threads_scheme \<Rightarrow> thread" where
  "curthread s \<equiv> c_curthread s (curcpu s)"

section \<open>Threads\<close>

definition THREAD_STACK_MAGIC :: nat where
  "THREAD_STACK_MAGIC = 0xbaadf00d"

definition thread_checkstack_init :: "thread \<Rightarrow> 'a threads_scheme \<Rightarrow> 'a threads_scheme option" where
  "thread_checkstack_init t s = do {
     kassert (t_stack s t \<noteq> 0);
     let m = (stackmem s (t_stack s t))(0 := THREAD_STACK_MAGIC, 1 := THREAD_STACK_MAGIC,
                2 := THREAD_STACK_MAGIC, 3 := THREAD_STACK_MAGIC);
     Some (s\<lparr>stackmem := (stackmem s)(t_stack s t := m)\<rparr>) }"

definition thread_checkstack :: "thread \<Rightarrow> 'a threads_scheme \<Rightarrow> unit option" where
  "thread_checkstack t s =
     (if t_stack s t \<noteq> 0 then do {
        kassert (stackmem s (t_stack s t) 0 = THREAD_STACK_MAGIC);
        kassert (stackmem s (t_stack s t) 1 = THREAD_STACK_MAGIC);
        kassert (stackmem s (t_stack s t) 2 = THREAD_STACK_MAGIC);
        kassert (stackmem s (t_stack s t) 3 = THREAD_STACK_MAGIC) }
      else Some ())"

definition MAX_NAME_LENGTH :: nat where
  "MAX_NAME_LENGTH = 64"

text \<open>The thread returned is NULL on failure; the argument is the length of the name.\<close>

definition thread_create :: "nat \<Rightarrow> 'a threads_scheme \<Rightarrow> (thread \<times> 'a threads_scheme) option" where
  "thread_create namelen s =
     (if namelen > MAX_NAME_LENGTH then Some (0, s)
      else let (t, s) = kmalloc s in
        if t = 0 then Some (0, s)
        else do {
          let s = s\<lparr>t_state := (t_state s)(t := S_READY)\<rparr>;
          s \<leftarrow> threadlistnode_init (Node t) t s;
          Some (t, s\<lparr>t_stack := (t_stack s)(t := 0), t_cpu := (t_cpu s)(t := 0),
                     t_proc := (t_proc s)(t := 0), t_in_interrupt := (t_in_interrupt s)(t := False)\<rparr>) })"

text \<open>The block of a thread structure has the thread's number as its address.\<close>

definition thread_destroy :: "thread \<Rightarrow> 'a threads_scheme \<Rightarrow> 'a threads_scheme option" where
  "thread_destroy t s = do {
     kassert (t \<noteq> curthread s);
     kassert (t_state s t \<noteq> S_RUN);
     kassert (t_proc s t = 0);
     s \<leftarrow> (if t_stack s t \<noteq> 0 then kfree (t_stack s t) s else Some s);
     s \<leftarrow> threadlistnode_cleanup (Node t) s;
     kfree t s }"

partial_function (option) exorcise :: "'a threads_scheme \<Rightarrow> 'a threads_scheme option" where
  "exorcise s =
     (case threadlist_remhead (Zombies (curcpu s)) s of
        None \<Rightarrow> None
      | Some (None, s1) \<Rightarrow> Some s1
      | Some (Some z, s1) \<Rightarrow>
          if z = curthread s1 \<or> t_state s1 z \<noteq> S_ZOMBIE then None
          else (case thread_destroy z s1 of None \<Rightarrow> None | Some s2 \<Rightarrow> exorcise s2))"

section \<open>Interprocessor interrupts\<close>

definition IPI_PANIC :: nat where "IPI_PANIC = 0"
definition IPI_OFFLINE :: nat where "IPI_OFFLINE = 1"
definition IPI_UNIDLE :: nat where "IPI_UNIDLE = 2"
definition IPI_TLBSHOOTDOWN :: nat where "IPI_TLBSHOOTDOWN = 3"
definition TLBSHOOTDOWN_MAX :: nat where "TLBSHOOTDOWN_MAX = 16"

definition ipi_send :: "cpu \<Rightarrow> nat \<Rightarrow> 'a threads_scheme \<Rightarrow> 'a threads_scheme option" where
  "ipi_send target code s = do {
     kassert (code < 32);
     Some (s\<lparr>c_ipi_pending := (c_ipi_pending s)(target := c_ipi_pending s target OR push_bit code 1)\<rparr>) }"

fun ipi_send_all :: "cpu list \<Rightarrow> nat \<Rightarrow> 'a threads_scheme \<Rightarrow> 'a threads_scheme option" where
  "ipi_send_all [] code s = Some s"
| "ipi_send_all (c # cs) code s = do {
     s \<leftarrow> (if c \<noteq> curcpu s then ipi_send c code s else Some s);
     ipi_send_all cs code s }"

definition ipi_broadcast :: "nat \<Rightarrow> 'a threads_scheme \<Rightarrow> 'a threads_scheme option" where
  "ipi_broadcast code s = ipi_send_all (allcpus s) code s"

definition ipi_tlbshootdown :: "cpu \<Rightarrow> addr \<Rightarrow> 'a threads_scheme \<Rightarrow> 'a threads_scheme option" where
  "ipi_tlbshootdown target mapping s =
     (if length (c_shootdown s target) = TLBSHOOTDOWN_MAX then None
      else let s = s\<lparr>c_shootdown := (c_shootdown s)(target := c_shootdown s target @ [mapping])\<rparr>
           in Some (s\<lparr>c_ipi_pending :=
                (c_ipi_pending s)(target := c_ipi_pending s target OR push_bit IPI_TLBSHOOTDOWN 1)\<rparr>))"

text \<open>
  The handler halts the CPU for good (\<open>None\<close>) or returns the mappings it passed to
  \<open>vm_tlbshootdown\<close>, in order.
\<close>

definition interprocessor_interrupt :: "'a threads_scheme \<Rightarrow> (addr list \<times> 'a threads_scheme) option" where
  "interprocessor_interrupt s =
     (let c = curcpu s; bits = c_ipi_pending s c in
      if bit bits IPI_PANIC then None
      else if bit bits IPI_OFFLINE then None
      else let (shot, s) = (if bit bits IPI_TLBSHOOTDOWN
                            then (c_shootdown s c, s\<lparr>c_shootdown := (c_shootdown s)(c := [])\<rparr>)
                            else ([], s))
           in Some (shot, s\<lparr>c_ipi_pending := (c_ipi_pending s)(c := 0)\<rparr>))"

text \<open>The head and the tail of the run queue are linked by hand; the nodes between are dropped.\<close>

definition thread_panic :: "'a threads_scheme \<Rightarrow> 'a threads_scheme option" where
  "thread_panic s = do {
     s \<leftarrow> ipi_broadcast IPI_PANIC s;
     let l = Runqueue (curcpu s);
     let s = set_count l 0 s;
     let s = set_next (Head l) (Some (Tail l)) s;
     Some (set_prev (Tail l) (Some (Head l)) s) }"

definition thread_shutdown :: "'a threads_scheme \<Rightarrow> 'a threads_scheme option" where
  "thread_shutdown s = ipi_broadcast IPI_OFFLINE s"

section \<open>The run queues and the context switch\<close>

definition thread_make_runnable :: "thread \<Rightarrow> 'a threads_scheme \<Rightarrow> 'a threads_scheme option" where
  "thread_make_runnable target s = do {
     let targetcpu = t_cpu s target;
     kassert (targetcpu \<noteq> 0);
     let s = s\<lparr>t_state := (t_state s)(target := S_READY)\<rparr>;
     s \<leftarrow> threadlist_addtail (Runqueue targetcpu) target s;
     if c_isidle s targetcpu \<and> targetcpu \<noteq> curcpu s then ipi_send targetcpu IPI_UNIDLE s else Some s }"

text \<open>The \<open>switch\<close> statement of \<open>thread_switch\<close>.\<close>

definition queue_current :: "threadstate \<Rightarrow> addr \<Rightarrow> 'a threads_scheme \<Rightarrow> 'a threads_scheme option" where
  "queue_current newstate wc s =
     (let cur = curthread s in
      case newstate of
        S_RUN \<Rightarrow> None
      | S_READY \<Rightarrow> thread_make_runnable cur s
      | S_SLEEP \<Rightarrow> threadlist_addtail (Wchan wc) cur s
      | S_ZOMBIE \<Rightarrow> threadlist_addtail (Zombies (curcpu s)) cur s)"

text \<open>
  One round of the loop that gets the next thread.  With an empty run queue the CPU stays idle
  until an interrupt, after which the round is run again.
\<close>

definition pick_next :: "'a threads_scheme \<Rightarrow> 'a threads_scheme option" where
  "pick_next s = do {
     let c = curcpu s;
     (nxt, s) \<leftarrow> threadlist_remhead (Runqueue c) s;
     case nxt of
       None \<Rightarrow> Some s
     | Some t \<Rightarrow> Some (s\<lparr>c_isidle := (c_isidle s)(c := False), c_curthread := (c_curthread s)(c := t)\<rparr>) }"

text \<open>The code after \<open>switchframe_switch\<close>, on the new thread; \<open>thread_startup\<close> begins with the same steps.\<close>

definition switch_in :: "'a threads_scheme \<Rightarrow> 'a threads_scheme option" where
  "switch_in s = exorcise (s\<lparr>t_state := (t_state s)(curthread s := S_RUN)\<rparr>)"

definition idle_round :: "'a threads_scheme \<Rightarrow> 'a threads_scheme option" where
  "idle_round s = do {
     s \<leftarrow> pick_next s;
     if c_isidle s (curcpu s) then Some s else switch_in s }"

definition thread_switch :: "threadstate \<Rightarrow> addr \<Rightarrow> 'a threads_scheme \<Rightarrow> 'a threads_scheme option" where
  "thread_switch newstate wc s =
     (let c = curcpu s; cur = curthread s in
      if c_isidle s c then Some s
      else do {
        thread_checkstack cur s;
        if newstate = S_READY \<and> threadlist_isempty (Runqueue c) s then Some s
        else do {
          s \<leftarrow> queue_current newstate wc s;
          let s = s\<lparr>t_state := (t_state s)(cur := newstate)\<rparr>;
          idle_round (s\<lparr>c_isidle := (c_isidle s)(c := True)\<rparr>) } })"

definition thread_yield :: "'a threads_scheme \<Rightarrow> 'a threads_scheme option" where
  "thread_yield s = thread_switch S_READY 0 s"

section \<open>Wait channels\<close>

definition wchan_create :: "'a threads_scheme \<Rightarrow> addr \<times> 'a threads_scheme" where
  "wchan_create s =
     (let (wc, s) = kmalloc s
      in if wc = 0 then (0, s) else (wc, threadlist_init (Wchan wc) s))"

definition wchan_destroy :: "addr \<Rightarrow> 'a threads_scheme \<Rightarrow> 'a threads_scheme option" where
  "wchan_destroy wc s = do { s \<leftarrow> threadlist_cleanup (Wchan wc) s; kfree wc s }"

definition wchan_isempty :: "addr \<Rightarrow> 'a threads_scheme \<Rightarrow> bool" where
  "wchan_isempty wc s = threadlist_isempty (Wchan wc) s"

text \<open>Up to the point where the thread is off the CPU.\<close>

definition wchan_sleep :: "addr \<Rightarrow> 'a threads_scheme \<Rightarrow> 'a threads_scheme option" where
  "wchan_sleep wc s = do {
     kassert (\<not> t_in_interrupt s (curthread s));
     thread_switch S_SLEEP wc s }"

definition wchan_wakeone :: "addr \<Rightarrow> 'a threads_scheme \<Rightarrow> 'a threads_scheme option" where
  "wchan_wakeone wc s = do {
     (target, s) \<leftarrow> threadlist_remhead (Wchan wc) s;
     case target of None \<Rightarrow> Some s | Some t \<Rightarrow> thread_make_runnable t s }"

text \<open>The second loop of \<open>wchan_wakeall\<close>.\<close>

partial_function (option) runnable_all :: "tlist \<Rightarrow> 'a threads_scheme \<Rightarrow> 'a threads_scheme option" where
  "runnable_all l s =
     (case threadlist_remhead l s of
        None \<Rightarrow> None
      | Some (None, s1) \<Rightarrow> Some s1
      | Some (Some t, s1) \<Rightarrow>
          (case thread_make_runnable t s1 of None \<Rightarrow> None | Some s2 \<Rightarrow> runnable_all l s2))"

definition wchan_wakeall :: "addr \<Rightarrow> 'a threads_scheme \<Rightarrow> 'a threads_scheme option" where
  "wchan_wakeall wc s = do {
     let s = threadlist_init (Local 0) s;
     s \<leftarrow> move_all threadlist_remhead threadlist_addtail (Wchan wc) (Local 0) s;
     s \<leftarrow> runnable_all (Local 0) s;
     threadlist_cleanup (Local 0) s }"

section \<open>Migration and the clock\<close>

text \<open>The run queue lengths of all CPUs, and that of the current one.\<close>

fun count_threads :: "cpu list \<Rightarrow> nat \<times> nat \<Rightarrow> 'a threads_scheme \<Rightarrow> nat \<times> nat" where
  "count_threads [] (mine, tot) s = (mine, tot)"
| "count_threads (c # cs) (mine, tot) s =
     count_threads cs (if c = curcpu s then tl_count s (Runqueue c) else mine,
                       u32 (tot + tl_count s (Runqueue c))) s"

abbreviation victims :: tlist where "victims \<equiv> Local 2"

text \<open>The loop over \<open>to_send\<close> that fills the list of victims; a NULL thread stops the machine.\<close>

fun take_victims :: "nat \<Rightarrow> 'a threads_scheme \<Rightarrow> 'a threads_scheme option" where
  "take_victims 0 s = Some s"
| "take_victims (Suc n) s = do {
     (t, s) \<leftarrow> threadlist_remtail (Runqueue (curcpu s)) s;
     t \<leftarrow> t;
     s \<leftarrow> threadlist_addhead victims t s;
     take_victims n s }"

text \<open>The inner loop: \<open>to_send\<close> goes down in each round.\<close>

fun send_victims :: "cpu \<Rightarrow> nat \<Rightarrow> nat \<Rightarrow> 'a threads_scheme \<Rightarrow> (nat \<times> 'a threads_scheme) option" where
  "send_victims c one_share 0 s = Some (0, s)"
| "send_victims c one_share (Suc to_send) s =
     (if tl_count s (Runqueue c) < one_share then do {
        (t, s) \<leftarrow> threadlist_remhead victims s;
        t \<leftarrow> t;
        if t = curthread s then do {
          s \<leftarrow> threadlist_addtail victims t s;
          send_victims c one_share to_send s }
        else do {
          let s = s\<lparr>t_cpu := (t_cpu s)(t := c)\<rparr>;
          s \<leftarrow> threadlist_addtail (Runqueue c) t s;
          s \<leftarrow> (if c_isidle s c then ipi_send c IPI_UNIDLE s else Some s);
          send_victims c one_share to_send s } }
      else Some (Suc to_send, s))"

fun send_all :: "cpu list \<Rightarrow> nat \<Rightarrow> nat \<Rightarrow> 'a threads_scheme \<Rightarrow> 'a threads_scheme option" where
  "send_all [] one_share to_send s = Some s"
| "send_all (c # cs) one_share to_send s =
     (if to_send = 0 then Some s
      else if c = curcpu s then send_all cs one_share to_send s
      else do {
        (to_send, s) \<leftarrow> send_victims c one_share to_send s;
        send_all cs one_share to_send s })"

definition thread_consider_migration :: "'a threads_scheme \<Rightarrow> 'a threads_scheme option" where
  "thread_consider_migration s = do {
     let (my_count, total_count) = count_threads (allcpus s) (0, 0) s;
     let one_share = DIVROUNDUP total_count (length (allcpus s));
     if my_count < one_share then Some s
     else do {
       let to_send = my_count - one_share;
       let s = threadlist_init victims s;
       s \<leftarrow> take_victims to_send s;
       s \<leftarrow> send_all (allcpus s) one_share to_send s;
       s \<leftarrow> (if \<not> threadlist_isempty victims s
             then move_all threadlist_remhead threadlist_addtail victims (Runqueue (curcpu s)) s
             else Some s);
       kassert (threadlist_isempty victims s);
       threadlist_cleanup victims s } }"

definition schedule :: "'a threads_scheme \<Rightarrow> 'a threads_scheme" where
  "schedule s = s"

definition hardclock_bootstrap :: "'a threads_scheme \<Rightarrow> 'a threads_scheme option" where
  "hardclock_bootstrap s = (let (wc, s) = wchan_create s in if wc = 0 then None else Some (s\<lparr>lbolt := wc\<rparr>))"

definition timerclock :: "'a threads_scheme \<Rightarrow> 'a threads_scheme option" where
  "timerclock s = wchan_wakeall (lbolt s) s"

definition hardclock :: "'a threads_scheme \<Rightarrow> 'a threads_scheme option" where
  "hardclock s = do {
     let c = curcpu s;
     let s = s\<lparr>c_hardclocks := (c_hardclocks s)(c := u32 (c_hardclocks s c + 1))\<rparr>;
     s \<leftarrow> (if c_hardclocks s c mod 16 = 0 then thread_consider_migration s else Some s);
     let s = (if c_hardclocks s c mod 4 = 0 then schedule s else s);
     thread_yield s }"

section \<open>Frames\<close>

lemma on_list_cong:
  "tln_prev h' = tln_prev h \<Longrightarrow> tln_next h' = tln_next h \<Longrightarrow> tln_self h' = tln_self h \<Longrightarrow>
   tl_count h' = tl_count h \<Longrightarrow> on_list h' l ts = on_list h l ts"
  using linked_cong [of _ h' h] by (auto simp: on_list_def)

lemma on_list_upd [simp]:
  "on_list (s\<lparr>t_state := a1\<rparr>) l ts = on_list s l ts" "on_list (s\<lparr>c_isidle := a2\<rparr>) l ts = on_list s l ts"
  "on_list (s\<lparr>c_curthread := a3\<rparr>) l ts = on_list s l ts"
  "on_list (s\<lparr>c_ipi_pending := a4\<rparr>) l ts = on_list s l ts"
  "on_list (s\<lparr>t_cpu := a5\<rparr>) l ts = on_list s l ts" "on_list (s\<lparr>live := a6\<rparr>) l ts = on_list s l ts"
  by (rule on_list_cong; simp)+

lemma detached_upd [simp]:
  "detached (s\<lparr>t_state := a1\<rparr>) t = detached s t" "detached (s\<lparr>c_isidle := a2\<rparr>) t = detached s t"
  "detached (s\<lparr>c_curthread := a3\<rparr>) t = detached s t" "detached (s\<lparr>c_ipi_pending := a4\<rparr>) t = detached s t"
  "detached (s\<lparr>t_cpu := a5\<rparr>) t = detached s t" "detached (s\<lparr>live := a6\<rparr>) t = detached s t"
  by (simp_all add: detached_def)

text \<open>The queueing operations change links, states, CPU assignments and pending interrupts only.\<close>

definition same_rest :: "'a threads_scheme \<Rightarrow> 'a threads_scheme \<Rightarrow> bool" where
  "same_rest s s' \<longleftrightarrow> oom s' = oom s \<and> ticks s' = ticks s \<and> live s' = live s \<and> tln_self s' = tln_self s
     \<and> t_stack s' = t_stack s \<and> t_proc s' = t_proc s \<and> t_in_interrupt s' = t_in_interrupt s
     \<and> stackmem s' = stackmem s \<and> c_curthread s' = c_curthread s \<and> c_isidle s' = c_isidle s
     \<and> c_hardclocks s' = c_hardclocks s \<and> c_shootdown s' = c_shootdown s \<and> allcpus s' = allcpus s
     \<and> curcpu s' = curcpu s \<and> lbolt s' = lbolt s \<and> threads.more s' = threads.more s"

lemma same_rest_refl [simp]: "same_rest s s"
  by (simp add: same_rest_def)

lemma same_rest_trans: "same_rest s s1 \<Longrightarrow> same_rest s1 s2 \<Longrightarrow> same_rest s s2"
  by (simp add: same_rest_def)

lemma same_rest_upd [simp]:
  "same_rest s (s'\<lparr>t_state := a1\<rparr>) = same_rest s s'" "same_rest s (s'\<lparr>t_cpu := a2\<rparr>) = same_rest s s'"
  "same_rest s (s'\<lparr>c_ipi_pending := a3\<rparr>) = same_rest s s'"
  "same_rest (s\<lparr>t_state := a1\<rparr>) s' = same_rest s s'" "same_rest (s\<lparr>t_cpu := a2\<rparr>) s' = same_rest s s'"
  "same_rest (s\<lparr>c_ipi_pending := a3\<rparr>) s' = same_rest s s'"
  by (simp_all add: same_rest_def)

lemmas same_restD = same_rest_def [THEN iffD1]

lemma elsewhere_threads:
  assumes "same_elsewhere h h' l ts"
  shows "same_rest h h'" "t_state h' = t_state h" "t_cpu h' = t_cpu h" "c_ipi_pending h' = c_ipi_pending h"
proof -
  obtain p n c where "h' = h\<lparr>tln_prev := p, tln_next := n, tl_count := c\<rparr>"
    using elsewhere_eq [OF assms] by blast
  then show "same_rest h h'" "t_state h' = t_state h" "t_cpu h' = t_cpu h" "c_ipi_pending h' = c_ipi_pending h"
    by (simp_all add: same_rest_def)
qed

text \<open>The run queues of all CPUs.\<close>

definition runqueues :: "'a threads_scheme \<Rightarrow> (cpu \<Rightarrow> thread list) \<Rightarrow> bool" where
  "runqueues s rq \<longleftrightarrow> (\<forall>c. on_list s (Runqueue c) (rq c))"

lemma runqueuesD: "runqueues s rq \<Longrightarrow> on_list s (Runqueue c) (rq c)"
  by (simp add: runqueues_def)

lemma runqueues_upd [simp]:
  "runqueues (s\<lparr>t_state := a1\<rparr>) rq = runqueues s rq" "runqueues (s\<lparr>c_isidle := a2\<rparr>) rq = runqueues s rq"
  "runqueues (s\<lparr>c_curthread := a3\<rparr>) rq = runqueues s rq"
  "runqueues (s\<lparr>c_ipi_pending := a4\<rparr>) rq = runqueues s rq"
  "runqueues (s\<lparr>t_cpu := a5\<rparr>) rq = runqueues s rq" "runqueues (s\<lparr>live := a6\<rparr>) rq = runqueues s rq"
  by (simp_all add: runqueues_def)

text \<open>A thread taken off or put on one list leaves the other lists alone.\<close>

lemma other_list_kept:
  assumes "same_elsewhere h h' l (set ts)" and "on_list h l ts" and "on_list h k us" and "k \<noteq> l"
  shows "on_list h' k us"
  using on_list_elsewhere [OF assms(1,3,4)] on_list_disjoint [OF assms(2,3)] assms(4) by auto

lemma other_list_kept_add:
  assumes "same_elsewhere h h' l (insert t (set ts))" and "on_list h l ts" and "detached h t"
    and "on_list h k us" and "k \<noteq> l"
  shows "on_list h' k us"
proof -
  have "set us \<inter> insert t (set ts) = {}"
    using on_list_disjoint [OF assms(2,4)] detached_notin [OF assms(4,3)] assms(5) by auto
  then show ?thesis using on_list_elsewhere [OF assms(1,4,5)] by blast
qed

text \<open>What the four list operations do to a state with known lists.\<close>

lemma addtail_kept:
  assumes "on_list h l ts" and "detached h t" and "length ts < 4294967295"
  obtains h' where "threadlist_addtail l t h = Some h'" "on_list h' l (ts @ [t])"
    "\<forall>k us. on_list h k us \<and> k \<noteq> l \<longrightarrow> on_list h' k us"
    "\<forall>u. detached h u \<and> u \<noteq> t \<longrightarrow> detached h' u"
    "same_rest h h'" "t_state h' = t_state h" "t_cpu h' = t_cpu h" "c_ipi_pending h' = c_ipi_pending h"
proof -
  from addtail_spec [OF assms] obtain h' where h': "threadlist_addtail l t h = Some h'"
    "on_list h' l (ts @ [t])" and e: "same_elsewhere h h' l (insert t (set ts))" by auto
  have "detached h' u" if "detached h u" "u \<noteq> t" for u
    using detached_elsewhere [OF e that(1)] that(2) detached_notin [OF assms(1) that(1)] by auto
  then show thesis
    using that h' other_list_kept_add [OF e assms(1,2)] elsewhere_threads [OF e] by blast
qed

lemma addhead_kept:
  assumes "on_list h l ts" and "detached h t" and "length ts < 4294967295"
  obtains h' where "threadlist_addhead l t h = Some h'" "on_list h' l (t # ts)"
    "\<forall>k us. on_list h k us \<and> k \<noteq> l \<longrightarrow> on_list h' k us"
    "same_rest h h'" "t_state h' = t_state h" "t_cpu h' = t_cpu h" "c_ipi_pending h' = c_ipi_pending h"
proof -
  from addhead_spec [OF assms] obtain h' where h': "threadlist_addhead l t h = Some h'"
    "on_list h' l (t # ts)" and e: "same_elsewhere h h' l (insert t (set ts))" by auto
  then show thesis using that other_list_kept_add [OF e assms(1,2)] elsewhere_threads [OF e] by blast
qed

lemma remhead_kept:
  assumes "on_list h l (t # ts)"
  obtains h' where "threadlist_remhead l h = Some (Some t, h')" "on_list h' l ts" "detached h' t"
    "\<forall>k us. on_list h k us \<and> k \<noteq> l \<longrightarrow> on_list h' k us"
    "\<forall>u. detached h u \<longrightarrow> detached h' u"
    "same_rest h h'" "t_state h' = t_state h" "t_cpu h' = t_cpu h" "c_ipi_pending h' = c_ipi_pending h"
proof -
  from remhead_spec [OF assms] obtain h' where h': "threadlist_remhead l h = Some (Some t, h')"
    "on_list h' l ts" "detached h' t" and e: "same_elsewhere h h' l (set (t # ts))" by auto
  have "detached h' u" if "detached h u" for u
    using detached_elsewhere [OF e that] detached_notin [OF assms that] by blast
  then show thesis using that h' other_list_kept [OF e assms] elsewhere_threads [OF e] by blast
qed

lemma remtail_kept:
  assumes "on_list h l (ts @ [t])"
  obtains h' where "threadlist_remtail l h = Some (Some t, h')" "on_list h' l ts" "detached h' t"
    "\<forall>k us. on_list h k us \<and> k \<noteq> l \<longrightarrow> on_list h' k us"
    "same_rest h h'" "t_state h' = t_state h" "t_cpu h' = t_cpu h" "c_ipi_pending h' = c_ipi_pending h"
proof -
  from remtail_spec [OF assms] obtain h' where h': "threadlist_remtail l h = Some (Some t, h')"
    "on_list h' l ts" "detached h' t" and e: "same_elsewhere h h' l (set (ts @ [t]))" by auto
  then show thesis using that other_list_kept [OF e assms] elsewhere_threads [OF e] by blast
qed

lemma remhead_empty: "on_list h l [] \<Longrightarrow> threadlist_remhead l h = Some (None, h)"
  using remhead_spec [of h l "[]"] by simp

lemma on_list_count: "on_list h l ts \<Longrightarrow> tl_count h l = length ts"
  by (simp add: on_list_def)

section \<open>Waking threads\<close>

lemma make_runnable_spec:
  assumes rq: "runqueues s rq" and d: "detached s t" and len: "length (rq (t_cpu s t)) < 4294967295"
    and cpu: "t_cpu s t \<noteq> 0"
  obtains s' where "thread_make_runnable t s = Some s'"
    "runqueues s' (rq(t_cpu s t := rq (t_cpu s t) @ [t]))"
    "t_state s' = (t_state s)(t := S_READY)" "t_cpu s' = t_cpu s" "same_rest s s'"
    "\<forall>l ts. on_list s l ts \<and> (\<forall>c. l \<noteq> Runqueue c) \<longrightarrow> on_list s' l ts"
    "\<forall>u. detached s u \<and> u \<noteq> t \<longrightarrow> detached s' u"
    "c_isidle s (t_cpu s t) \<and> t_cpu s t \<noteq> curcpu s \<Longrightarrow> bit (c_ipi_pending s' (t_cpu s t)) IPI_UNIDLE"
proof -
  let ?c = "t_cpu s t" and ?s = "s\<lparr>t_state := (t_state s)(t := S_READY)\<rparr>"
  have o: "on_list ?s (Runqueue ?c) (rq ?c)" and d': "detached ?s t"
    using rq d by (simp_all add: runqueues_def)
  obtain s1
    where s1: "threadlist_addtail (Runqueue ?c) t ?s = Some s1" "on_list s1 (Runqueue ?c) (rq ?c @ [t])"
      and keep: "\<forall>k us. on_list ?s k us \<and> k \<noteq> Runqueue ?c \<longrightarrow> on_list s1 k us"
      and loose: "\<forall>u. detached ?s u \<and> u \<noteq> t \<longrightarrow> detached s1 u"
      and rest: "same_rest ?s s1" "t_state s1 = t_state ?s" "t_cpu s1 = t_cpu ?s"
        "c_ipi_pending s1 = c_ipi_pending ?s"
    by (rule addtail_kept [OF o d' len]) (rule that)
  have rq1: "runqueues s1 (rq(?c := rq ?c @ [t]))"
    using s1(2) keep rq by (auto simp: runqueues_def)
  have r: "same_rest s s1" "c_isidle s1 = c_isidle s" "curcpu s1 = curcpu s"
    using rest(1) same_restD [OF rest(1)] by simp_all
  let ?s' = "if c_isidle s ?c \<and> ?c \<noteq> curcpu s
    then s1\<lparr>c_ipi_pending := (c_ipi_pending s1)(?c := c_ipi_pending s1 ?c OR push_bit IPI_UNIDLE 1)\<rparr> else s1"
  have "thread_make_runnable t s = Some ?s'"
    using s1(1) cpu by (simp add: thread_make_runnable_def Let_def ipi_send_def r IPI_UNIDLE_def)
  then show thesis
    by (rule that) (use rq1 loose keep r rest in \<open>auto simp: bit_simps IPI_UNIDLE_def\<close>)
qed

lemma wakeone_spec:
  assumes rq: "runqueues s rq" and wc: "on_list s (Wchan wc) ts"
    and cpus: "\<And>t. t \<in> set ts \<Longrightarrow> t_cpu s t \<noteq> 0" and len: "\<And>c. length (rq c) < 4294967295"
  shows "case ts of [] \<Rightarrow> wchan_wakeone wc s = Some s
    | t # ts' \<Rightarrow> \<exists>s'. wchan_wakeone wc s = Some s' \<and> on_list s' (Wchan wc) ts'
        \<and> runqueues s' (rq(t_cpu s t := rq (t_cpu s t) @ [t]))
        \<and> t_state s' = (t_state s)(t := S_READY) \<and> t_cpu s' = t_cpu s \<and> same_rest s s'
        \<and> (\<forall>l us. on_list s l us \<and> l \<noteq> Wchan wc \<and> (\<forall>c. l \<noteq> Runqueue c) \<longrightarrow> on_list s' l us)"
proof (cases ts)
  case Nil
  with wc show ?thesis by (simp add: wchan_wakeone_def remhead_empty)
next
  case (Cons t ts')
  obtain s1
    where s1: "threadlist_remhead (Wchan wc) s = Some (Some t, s1)" "on_list s1 (Wchan wc) ts'" "detached s1 t"
      and k1: "\<forall>k us. on_list s k us \<and> k \<noteq> Wchan wc \<longrightarrow> on_list s1 k us"
      and "\<forall>u. detached s u \<longrightarrow> detached s1 u"
      and r1: "same_rest s s1" "t_state s1 = t_state s" "t_cpu s1 = t_cpu s"
        "c_ipi_pending s1 = c_ipi_pending s"
    by (rule remhead_kept [OF wc [unfolded Cons]]) (rule that)
  have rq1: "runqueues s1 rq" using rq k1 by (simp add: runqueues_def)
  have c1: "t_cpu s1 t \<noteq> 0" using cpus Cons r1(3) by simp
  obtain s2 where s2: "thread_make_runnable t s1 = Some s2"
    "runqueues s2 (rq(t_cpu s1 t := rq (t_cpu s1 t) @ [t]))"
    "t_state s2 = (t_state s1)(t := S_READY)" "t_cpu s2 = t_cpu s1" "same_rest s1 s2"
    and k2: "\<forall>l ts. on_list s1 l ts \<and> (\<forall>c. l \<noteq> Runqueue c) \<longrightarrow> on_list s2 l ts"
    and "\<forall>u. detached s1 u \<and> u \<noteq> t \<longrightarrow> detached s2 u"
    and "c_isidle s1 (t_cpu s1 t) \<and> t_cpu s1 t \<noteq> curcpu s1 \<Longrightarrow> bit (c_ipi_pending s2 (t_cpu s1 t)) IPI_UNIDLE"
    by (rule make_runnable_spec [OF rq1 s1(3) len c1]) (rule that)
  have "wchan_wakeone wc s = Some s2" using s1(1) s2(1) by (simp add: wchan_wakeone_def)
  moreover have "on_list s2 (Wchan wc) ts'" using k2 s1(2) by simp
  moreover have "\<forall>l us. on_list s l us \<and> l \<noteq> Wchan wc \<and> (\<forall>c. l \<noteq> Runqueue c) \<longrightarrow> on_list s2 l us"
    using k1 k2 by blast
  ultimately show ?thesis using s2 r1 same_rest_trans [OF r1(1)] Cons by auto
qed

lemma runnable_all_spec:
  assumes "on_list s l ts" and l: "\<And>c. l \<noteq> Runqueue c" and "runqueues s rq"
    and "\<And>c. length (rq c) + length ts < 4294967295" and "\<And>t. t \<in> set ts \<Longrightarrow> t_cpu s t \<noteq> 0"
  shows "\<exists>s'. runnable_all l s = Some s' \<and> on_list s' l []
    \<and> runqueues s' (\<lambda>c. rq c @ filter (\<lambda>t. t_cpu s t = c) ts)
    \<and> t_state s' = (\<lambda>t. if t \<in> set ts then S_READY else t_state s t) \<and> t_cpu s' = t_cpu s \<and> same_rest s s'
    \<and> (\<forall>k us. on_list s k us \<and> k \<noteq> l \<and> (\<forall>c. k \<noteq> Runqueue c) \<longrightarrow> on_list s' k us)
    \<and> (\<forall>u. detached s u \<longrightarrow> detached s' u)"
  using assms(1,3-5)
proof (induction ts arbitrary: s rq)
  case Nil
  have "runnable_all l s = Some s"
    using Nil(1) by (subst runnable_all.simps) (simp add: remhead_empty)
  with Nil show ?case by simp
next
  case (Cons t ts)
  obtain s1
    where s1: "threadlist_remhead l s = Some (Some t, s1)" "on_list s1 l ts" "detached s1 t"
      and k1: "\<forall>k us. on_list s k us \<and> k \<noteq> l \<longrightarrow> on_list s1 k us"
      and d1: "\<forall>u. detached s u \<longrightarrow> detached s1 u"
      and r1: "same_rest s s1" "t_state s1 = t_state s" "t_cpu s1 = t_cpu s"
        "c_ipi_pending s1 = c_ipi_pending s"
    by (rule remhead_kept [OF Cons.prems(1)]) (rule that)
  have rq1: "runqueues s1 rq" using k1 l [symmetric] Cons.prems(2) by (simp add: runqueues_def)
  have len1: "length (rq (t_cpu s1 t)) < 4294967295" using Cons.prems(3) [of "t_cpu s1 t"] by simp
  have c1: "t_cpu s1 t \<noteq> 0" using Cons.prems(4) [of t] r1(3) by simp
  let ?rq = "rq(t_cpu s1 t := rq (t_cpu s1 t) @ [t])"
  obtain s2 where s2: "thread_make_runnable t s1 = Some s2"
    "runqueues s2 ?rq" "t_state s2 = (t_state s1)(t := S_READY)" "t_cpu s2 = t_cpu s1" "same_rest s1 s2"
    and k2: "\<forall>k us. on_list s1 k us \<and> (\<forall>c. k \<noteq> Runqueue c) \<longrightarrow> on_list s2 k us"
    and d2: "\<forall>u. detached s1 u \<and> u \<noteq> t \<longrightarrow> detached s2 u"
    and "c_isidle s1 (t_cpu s1 t) \<and> t_cpu s1 t \<noteq> curcpu s1 \<Longrightarrow> bit (c_ipi_pending s2 (t_cpu s1 t)) IPI_UNIDLE"
    by (rule make_runnable_spec [OF rq1 s1(3) len1 c1]) (rule that)
  have o2: "on_list s2 l ts" using k2 s1(2) l by blast
  have len2: "length (?rq c) + length ts < 4294967295" for c using Cons.prems(3) [of c] by auto
  have c2: "t_cpu s2 u \<noteq> 0" if "u \<in> set ts" for u using Cons.prems(4) [of u] that r1 s2 by simp
  from Cons.IH [OF o2 s2(2) len2 c2] obtain s' where s': "runnable_all l s2 = Some s'" "on_list s' l []"
    "runqueues s' (\<lambda>c. ?rq c @ filter (\<lambda>t. t_cpu s2 t = c) ts)"
    "t_state s' = (\<lambda>u. if u \<in> set ts then S_READY else t_state s2 u)" "t_cpu s' = t_cpu s2" "same_rest s2 s'"
    and k': "\<And>k us. on_list s2 k us \<Longrightarrow> k \<noteq> l \<Longrightarrow> (\<And>c. k \<noteq> Runqueue c) \<Longrightarrow> on_list s' k us"
    and d': "\<forall>u. detached s2 u \<longrightarrow> detached s' u" by blast
  have "runnable_all l s = Some s'" by (subst runnable_all.simps) (simp add: s1 s2 s')
  moreover have "(\<lambda>c. ?rq c @ filter (\<lambda>t. t_cpu s2 t = c) ts) = (\<lambda>c. rq c @ filter (\<lambda>t. t_cpu s t = c) (t # ts))"
    by (auto simp: fun_eq_iff s2(4) r1(3))
  moreover have "t_state s' = (\<lambda>u. if u \<in> set (t # ts) then S_READY else t_state s u)"
    using s'(4) s2(3) r1(2) by auto
  moreover have "on_list s' k us" if "on_list s k us" "k \<noteq> l" "\<And>c. k \<noteq> Runqueue c" for k us
    using that k1 k2 by (intro k') auto
  moreover have "\<forall>u. detached s u \<longrightarrow> detached s' u" using d1 d2 d' detached_notin [OF Cons.prems(1)] by auto
  moreover have "same_rest s s'" using r1(1) s2(5) s'(6) same_rest_trans by blast
  ultimately show ?case using s' s2(4) r1(3) by auto
qed

lemma init_kept:
  assumes "on_list s k us" and "k \<noteq> l"
  shows "on_list (threadlist_init l s) k us"
proof -
  have "linked (threadlist_init l s) (chain k us) = linked s (chain k us)"
    using assms(2) by (intro linked_cong) (auto simp: threadlist_init_def node_updates Let_def chain_def)
  with assms show ?thesis by (auto simp: on_list_def threadlist_init_def node_updates Let_def)
qed

text \<open>Moving a list onto another keeps everything but the links.\<close>

lemma move_all_rest:
  assumes "on_list s a ts" and "on_list s b us" and "a \<noteq> b" and "length ts + length us < 4294967295"
  shows "\<exists>s'. move_all threadlist_remhead threadlist_addtail a b s = Some s' \<and> on_list s' a [] \<and> on_list s' b (us @ ts)
    \<and> same_rest s s' \<and> t_state s' = t_state s \<and> t_cpu s' = t_cpu s \<and> c_ipi_pending s' = c_ipi_pending s
    \<and> (\<forall>k ws. on_list s k ws \<and> k \<noteq> a \<and> k \<noteq> b \<longrightarrow> on_list s' k ws)
    \<and> (\<forall>u. detached s u \<longrightarrow> detached s' u)"
  using assms
proof (induction ts arbitrary: s us)
  case Nil
  then show ?case by (subst move_all.simps) (simp add: remhead_empty)
next
  case (Cons t ts)
  obtain s1 where s1: "threadlist_remhead a s = Some (Some t, s1)" "on_list s1 a ts" "detached s1 t"
    "\<forall>k us. on_list s k us \<and> k \<noteq> a \<longrightarrow> on_list s1 k us" "\<forall>u. detached s u \<longrightarrow> detached s1 u"
    "same_rest s s1" "t_state s1 = t_state s" "t_cpu s1 = t_cpu s" "c_ipi_pending s1 = c_ipi_pending s"
    by (rule remhead_kept [OF Cons.prems(1)]) (rule that)
  have b1: "on_list s1 b us" "length us < 4294967295" using s1(4) Cons.prems by auto
  obtain s2 where s2: "threadlist_addtail b t s1 = Some s2" "on_list s2 b (us @ [t])"
    "\<forall>k us. on_list s1 k us \<and> k \<noteq> b \<longrightarrow> on_list s2 k us" "\<forall>u. detached s1 u \<and> u \<noteq> t \<longrightarrow> detached s2 u"
    "same_rest s1 s2" "t_state s2 = t_state s1" "t_cpu s2 = t_cpu s1" "c_ipi_pending s2 = c_ipi_pending s1"
    by (rule addtail_kept [OF b1(1) s1(3) b1(2)]) (rule that)
  have a2: "on_list s2 a ts" using s2(3) s1(2) Cons.prems(3) by simp
  from Cons.IH [OF a2 s2(2) Cons.prems(3)] Cons.prems(4) obtain s' where
    s': "move_all threadlist_remhead threadlist_addtail a b s2 = Some s'" "on_list s' a []" "on_list s' b ((us @ [t]) @ ts)"
      "same_rest s2 s'" "t_state s' = t_state s2" "t_cpu s' = t_cpu s2" "c_ipi_pending s' = c_ipi_pending s2"
      "\<forall>k ws. on_list s2 k ws \<and> k \<noteq> a \<and> k \<noteq> b \<longrightarrow> on_list s' k ws"
      "\<forall>u. detached s2 u \<longrightarrow> detached s' u" by auto
  have "move_all threadlist_remhead threadlist_addtail a b s = Some s'"
    by (subst move_all.simps) (simp add: s1 s2 s')
  moreover have "same_rest s s'" using s1(6) s2(5) s'(4) same_rest_trans by blast
  moreover have "\<forall>k ws. on_list s k ws \<and> k \<noteq> a \<and> k \<noteq> b \<longrightarrow> on_list s' k ws" using s1(4) s2(3) s'(8) by simp
  moreover have "\<forall>u. detached s u \<longrightarrow> detached s' u"
    using s1(5) s2(4) s'(9) detached_notin [OF Cons.prems(1)] by auto
  ultimately show ?case using s' s2(6-8) s1(7-9) by simp
qed

lemma init_same:
  "same_rest (threadlist_init (Local i) s) (threadlist_init (Local i) s)"
  "t_state (threadlist_init l s) = t_state s" "t_cpu (threadlist_init l s) = t_cpu s"
  "curcpu (threadlist_init l s) = curcpu s" "c_curthread (threadlist_init l s) = c_curthread s"
  "allcpus (threadlist_init l s) = allcpus s" "live (threadlist_init l s) = live s"
  "c_isidle (threadlist_init l s) = c_isidle s" "t_stack (threadlist_init l s) = t_stack s"
  "t_proc (threadlist_init l s) = t_proc s" "stackmem (threadlist_init l s) = stackmem s"
  by (simp_all add: threadlist_init_def node_updates Let_def)

lemma wakeall_spec:
  assumes rq: "runqueues s rq" and wc: "on_list s (Wchan wc) ts"
    and cpus: "\<And>t. t \<in> set ts \<Longrightarrow> t_cpu s t \<noteq> 0" and len: "\<And>c. length (rq c) + length ts < 4294967295"
  shows "\<exists>s'. wchan_wakeall wc s = Some s' \<and> on_list s' (Wchan wc) []
    \<and> runqueues s' (\<lambda>c. rq c @ filter (\<lambda>t. t_cpu s t = c) ts)
    \<and> t_state s' = (\<lambda>t. if t \<in> set ts then S_READY else t_state s t) \<and> t_cpu s' = t_cpu s
    \<and> same_rest (threadlist_init (Local 0) s) s'
    \<and> (\<forall>l us. on_list s l us \<and> l \<noteq> Wchan wc \<and> l \<noteq> Local 0 \<and> (\<forall>c. l \<noteq> Runqueue c) \<longrightarrow> on_list s' l us)
    \<and> on_list s' (Local 0) [] \<and> (\<forall>u. detached s u \<longrightarrow> detached s' u)"
proof -
  let ?s0 = "threadlist_init (Local 0) s"
  have w0: "on_list ?s0 (Wchan wc) ts" and l0: "on_list ?s0 (Local 0) []" using wc by (simp_all add: init_kept init_spec)
  have rq0: "runqueues ?s0 rq" using rq by (simp add: runqueues_def init_kept)
  from move_all_rest [OF w0 l0] len [of 0] obtain s1 where
    s1: "move_all threadlist_remhead threadlist_addtail (Wchan wc) (Local 0) ?s0 = Some s1"
      "on_list s1 (Wchan wc) []" "on_list s1 (Local 0) ts" "same_rest ?s0 s1" "t_state s1 = t_state ?s0"
      "t_cpu s1 = t_cpu ?s0" "\<forall>k ws. on_list ?s0 k ws \<and> k \<noteq> Wchan wc \<and> k \<noteq> Local 0 \<longrightarrow> on_list s1 k ws"
      "\<forall>u. detached ?s0 u \<longrightarrow> detached s1 u" by auto
  have rq1: "runqueues s1 rq" using rq0 s1(7) by (auto simp: runqueues_def)
  have c1: "\<And>t. t \<in> set ts \<Longrightarrow> t_cpu s1 t \<noteq> 0" using cpus s1(6) by (simp add: init_same)
  from runnable_all_spec [OF s1(3) _ rq1 len c1] obtain s2 where
    s2: "runnable_all (Local 0) s1 = Some s2" "on_list s2 (Local 0) []"
      "runqueues s2 (\<lambda>c. rq c @ filter (\<lambda>t. t_cpu s1 t = c) ts)"
      "t_state s2 = (\<lambda>t. if t \<in> set ts then S_READY else t_state s1 t)" "t_cpu s2 = t_cpu s1" "same_rest s1 s2"
      "\<forall>k us. on_list s1 k us \<and> k \<noteq> Local 0 \<and> (\<forall>c. k \<noteq> Runqueue c) \<longrightarrow> on_list s2 k us"
      "\<forall>u. detached s1 u \<longrightarrow> detached s2 u" by auto
  have "wchan_wakeall wc s = Some s2"
    using s1(1) s2(1) on_list_count [OF s2(2)]
    by (simp add: wchan_wakeall_def threadlist_cleanup_def threadlist_isempty_def)
  moreover have "on_list s2 (Wchan wc) []" using s2(7) s1(2) by simp
  moreover have "\<forall>l us. on_list s l us \<and> l \<noteq> Wchan wc \<and> l \<noteq> Local 0 \<and> (\<forall>c. l \<noteq> Runqueue c) \<longrightarrow> on_list s2 l us"
    using s2(7) s1(7) init_kept by blast
  moreover have "t_state s2 = (\<lambda>t. if t \<in> set ts then S_READY else t_state s t)"
    by (simp only: s2(4) s1(5) init_same)
  moreover have "\<forall>u. detached s u \<longrightarrow> detached s2 u"
    using s1(8) s2(8) by (simp add: detached_def threadlist_init_def node_updates Let_def)
  moreover have "same_rest ?s0 s2" using s1(4) s2(6) by (rule same_rest_trans)
  ultimately show ?thesis
    using s2(2,3,5) s1(6) by (intro exI [of _ s2]) (simp add: init_same)
qed

section \<open>Dead threads\<close>

text \<open>A list of threads that may be destroyed: dead, without a process, with a structure and a stack
  of their own.\<close>

definition reapable :: "'a threads_scheme \<Rightarrow> thread list \<Rightarrow> bool" where
  "reapable s zs \<longleftrightarrow> (\<forall>z\<in>set zs. z \<noteq> curthread s \<and> t_state s z = S_ZOMBIE \<and> t_proc s z = 0
       \<and> z \<noteq> 0 \<and> z \<in> live s \<and> (t_stack s z = 0 \<or> t_stack s z \<in> live s))
     \<and> (\<forall>y\<in>set zs. \<forall>z\<in>set zs. t_stack s y \<noteq> z \<and> (y \<noteq> z \<and> t_stack s y \<noteq> 0 \<longrightarrow> t_stack s y \<noteq> t_stack s z))"

lemma kfree_live: "p \<in> live s \<Longrightarrow> p \<noteq> 0 \<Longrightarrow> kfree p s = Some (s\<lparr>live := live s - {p}\<rparr>)"
  by (simp add: kfree_def)

lemma destroy_spec:
  assumes "reapable s (z # zs)" and "detached s z"
  shows "thread_destroy z s = Some (s\<lparr>live := live s - ({z, t_stack s z} - {0})\<rparr>)"
proof -
  have z: "z \<noteq> curthread s" "t_state s z = S_ZOMBIE" "t_proc s z = 0" "z \<noteq> 0" "z \<in> live s"
    "t_stack s z = 0 \<or> t_stack s z \<in> live s" "t_stack s z \<noteq> z" using assms(1) by (auto simp: reapable_def)
  have d: "tln_next s (Node z) = None" "tln_prev s (Node z) = None" "tln_self s (Node z) = Some z"
    using assms(2) by (simp_all add: detached_def)
  show ?thesis
  proof (cases "t_stack s z = 0")
    case True
    then have "{z, t_stack s z} - {0} = {z}" using z(4) by auto
    then show ?thesis
      using z d True by (simp add: thread_destroy_def kfree_live threadlistnode_cleanup_def)
  next
    case False
    then have "live s - {t_stack s z} - {z} = live s - ({z, t_stack s z} - {0})" using z(4) by auto
    then show ?thesis
      using z d False by (simp add: thread_destroy_def kfree_live threadlistnode_cleanup_def)
  qed
qed

lemma exorcise_spec:
  assumes "on_list s (Zombies (curcpu s)) zs" and "reapable s zs" and "distinct zs"
  shows "\<exists>s'. exorcise s = Some s' \<and> on_list s' (Zombies (curcpu s)) []
    \<and> live s' = live s - (set zs \<union> (t_stack s ` set zs - {0}))
    \<and> t_state s' = t_state s \<and> t_cpu s' = t_cpu s \<and> c_curthread s' = c_curthread s
    \<and> curcpu s' = curcpu s \<and> c_isidle s' = c_isidle s
    \<and> (\<forall>l us. on_list s l us \<and> l \<noteq> Zombies (curcpu s) \<longrightarrow> on_list s' l us)"
  using assms
proof (induction zs arbitrary: s)
  case Nil
  then have "exorcise s = Some s" by (subst exorcise.simps) (simp add: remhead_empty)
  with Nil show ?case by simp
next
  case (Cons z zs)
  let ?l = "Zombies (curcpu s)"
  obtain s1 where s1: "threadlist_remhead ?l s = Some (Some z, s1)" "on_list s1 ?l zs" "detached s1 z"
    "\<forall>k us. on_list s k us \<and> k \<noteq> ?l \<longrightarrow> on_list s1 k us" "\<forall>u. detached s u \<longrightarrow> detached s1 u"
    and r1: "same_rest s s1" "t_state s1 = t_state s" "t_cpu s1 = t_cpu s" "c_ipi_pending s1 = c_ipi_pending s"
    by (rule remhead_kept [OF Cons.prems(1)]) (rule that)
  note r = same_restD [OF r1(1)]
  have reap1: "reapable s1 (z # zs)" using Cons.prems(2) r r1(2) by (simp add: reapable_def)
  let ?s2 = "s1\<lparr>live := live s1 - ({z, t_stack s1 z} - {0})\<rparr>"
  have d: "thread_destroy z s1 = Some ?s2" by (rule destroy_spec [OF reap1 s1(3)])
  have "reapable ?s2 zs" using reap1 Cons.prems(3) by (auto simp: reapable_def)
  moreover have "on_list ?s2 (Zombies (curcpu ?s2)) zs" using s1(2) r by simp
  ultimately obtain s' where s': "exorcise ?s2 = Some s'" "on_list s' (Zombies (curcpu s)) []"
    "live s' = live ?s2 - (set zs \<union> (t_stack s ` set zs - {0}))" "t_state s' = t_state ?s2"
    "t_cpu s' = t_cpu ?s2" "c_curthread s' = c_curthread ?s2" "curcpu s' = curcpu ?s2" "c_isidle s' = c_isidle ?s2"
    "\<forall>l us. on_list ?s2 l us \<and> l \<noteq> ?l \<longrightarrow> on_list s' l us"
    using Cons.IH [of ?s2] Cons.prems(3) r by auto
  have "z \<noteq> curthread s1" "t_state s1 z = S_ZOMBIE" using reap1 by (simp_all add: reapable_def)
  then have "exorcise s = Some s'" by (subst exorcise.simps) (simp add: s1(1) d s'(1))
  moreover have "z \<noteq> 0" using reap1 by (simp add: reapable_def)
  then have "live s' = live s - (set (z # zs) \<union> (t_stack s ` set (z # zs) - {0}))" using s'(3) r by auto
  moreover have "\<forall>l us. on_list s l us \<and> l \<noteq> ?l \<longrightarrow> on_list s' l us" using s'(9) s1(4) by simp
  ultimately show ?case using s' r1 r by simp
qed

section \<open>Round robin\<close>

text \<open>
  \<open>idle_round\<close> with a thread waiting: it becomes the current thread of the CPU, and the dead threads
  of the CPU are disposed of.
\<close>

lemma idle_round_spec:
  assumes rq: "runqueues s rq" and ne: "rq (curcpu s) = t # ts" and idle: "c_isidle s (curcpu s)"
    and zs: "on_list s (Zombies (curcpu s)) zs" and reap: "reapable (s\<lparr>c_curthread := (c_curthread s)(curcpu s := t)\<rparr>) zs"
  shows "\<exists>s'. idle_round s = Some s' \<and> runqueues s' (rq(curcpu s := ts)) \<and> curthread s' = t
    \<and> curcpu s' = curcpu s \<and> \<not> c_isidle s' (curcpu s) \<and> t_state s' = (t_state s)(t := S_RUN)
    \<and> on_list s' (Zombies (curcpu s)) [] \<and> live s' = live s - (set zs \<union> (t_stack s ` set zs - {0}))
    \<and> t_cpu s' = t_cpu s
    \<and> (\<forall>l us. on_list s l us \<and> l \<noteq> Zombies (curcpu s) \<and> (\<forall>c. l \<noteq> Runqueue c) \<longrightarrow> on_list s' l us)"
proof -
  let ?c = "curcpu s"
  have o: "on_list s (Runqueue ?c) (t # ts)" using runqueuesD [OF rq, of "curcpu s"] ne by simp
  obtain s1 where s1: "threadlist_remhead (Runqueue ?c) s = Some (Some t, s1)" "on_list s1 (Runqueue ?c) ts" "detached s1 t"
    and k1: "\<forall>k us. on_list s k us \<and> k \<noteq> Runqueue ?c \<longrightarrow> on_list s1 k us" and "\<forall>u. detached s u \<longrightarrow> detached s1 u"
    and r1: "same_rest s s1" "t_state s1 = t_state s" "t_cpu s1 = t_cpu s" "c_ipi_pending s1 = c_ipi_pending s"
    by (rule remhead_kept [OF o]) (rule that)
  note r = same_restD [OF r1(1)]
  let ?s2 = "s1\<lparr>c_isidle := (c_isidle s)(?c := False), c_curthread := (c_curthread s)(?c := t)\<rparr>"
  let ?s3 = "?s2\<lparr>t_state := (t_state s)(t := S_RUN)\<rparr>"
  have p: "pick_next s = Some ?s2" using s1(1) r by (simp add: pick_next_def Let_def)
  have rq2: "runqueues s1 (rq(?c := ts))" using rq k1 s1(2) by (simp add: runqueues_def)
  have z3: "on_list ?s3 (Zombies (curcpu ?s3)) zs" using zs k1 r by simp
  have nt: "t \<notin> set zs" using on_list_disjoint [OF zs o] by auto
  have reap3: "reapable ?s3 zs" using reap nt r by (auto simp: reapable_def)
  have dz: "distinct zs" using zs by (simp add: on_list_def)
  from exorcise_spec [OF z3 reap3 dz] r obtain s' where s': "exorcise ?s3 = Some s'" "on_list s' (Zombies ?c) []"
    "live s' = live s1 - (set zs \<union> (t_stack s1 ` set zs - {0}))"
    "t_state s' = t_state ?s3" "t_cpu s' = t_cpu ?s3" "c_curthread s' = c_curthread ?s3"
    "curcpu s' = ?c" "c_isidle s' = c_isidle ?s3"
    and k': "\<forall>l us. on_list ?s3 l us \<and> l \<noteq> Zombies ?c \<longrightarrow> on_list s' l us" by auto
  have "idle_round s = Some s'" using p s'(1) r r1(2) by (simp add: idle_round_def switch_in_def)
  moreover have "runqueues s' (rq(?c := ts))" using rq2 k' by (simp add: runqueues_def)
  moreover have "\<forall>l us. on_list s l us \<and> l \<noteq> Zombies ?c \<and> (\<forall>c. l \<noteq> Runqueue c) \<longrightarrow> on_list s' l us"
    using k1 k' by simp
  ultimately show ?thesis using s' r r1 by simp
qed

lemma idle_round_waits: "on_list s (Runqueue (curcpu s)) [] \<Longrightarrow> c_isidle s (curcpu s) \<Longrightarrow> idle_round s = Some s"
  by (simp add: idle_round_def pick_next_def remhead_empty Let_def)

lemma checkstack_ok:
  "thread_checkstack t s = Some () \<longleftrightarrow> t_stack s t = 0 \<or> (\<forall>i<4. stackmem s (t_stack s t) i = THREAD_STACK_MAGIC)"
  by (auto simp: thread_checkstack_def kassert_def numeral_eq_Suc less_Suc_eq)

text \<open>The current thread of a running CPU: on no list, with an intact stack.\<close>

definition running :: "'a threads_scheme \<Rightarrow> bool" where
  "running s \<longleftrightarrow> \<not> c_isidle s (curcpu s) \<and> detached s (curthread s) \<and> thread_checkstack (curthread s) s = Some ()
     \<and> t_cpu s (curthread s) = curcpu s \<and> curcpu s \<noteq> 0"

lemma yield_spec:
  assumes run: "running s" and rq: "runqueues s rq" and ne: "rq (curcpu s) = t # ts"
    and len: "length (rq (curcpu s)) < 4294967295"
    and zs: "on_list s (Zombies (curcpu s)) zs" and reap: "reapable s zs"
  shows "\<exists>s'. thread_yield s = Some s' \<and> runqueues s' (rq(curcpu s := ts @ [curthread s])) \<and> curthread s' = t
    \<and> curcpu s' = curcpu s \<and> \<not> c_isidle s' (curcpu s)
    \<and> t_state s' = (t_state s)(curthread s := S_READY, t := S_RUN) \<and> on_list s' (Zombies (curcpu s)) []
    \<and> (\<forall>l us. on_list s l us \<and> l \<noteq> Zombies (curcpu s) \<and> (\<forall>c. l \<noteq> Runqueue c) \<longrightarrow> on_list s' l us)"
proof -
  let ?c = "curcpu s" and ?cur = "curthread s"
  have cpu: "t_cpu s ?cur = ?c" "?c \<noteq> 0" "\<not> c_isidle s ?c" "thread_checkstack ?cur s = Some ()" and d: "detached s ?cur"
    using run by (simp_all add: running_def)
  have len': "length (rq (t_cpu s ?cur)) < 4294967295" "t_cpu s ?cur \<noteq> 0" using len cpu by simp_all
  have ne0: "\<not> threadlist_isempty (Runqueue ?c) s"
    using on_list_count [OF runqueuesD [OF rq, of ?c]] ne by (simp add: threadlist_isempty_def)
  obtain s1 where s1: "thread_make_runnable ?cur s = Some s1" "runqueues s1 (rq(?c := rq ?c @ [?cur]))"
      "t_state s1 = (t_state s)(?cur := S_READY)" "t_cpu s1 = t_cpu s" "same_rest s s1"
    and k1: "\<forall>l ts. on_list s l ts \<and> (\<forall>c. l \<noteq> Runqueue c) \<longrightarrow> on_list s1 l ts"
    by (rule make_runnable_spec [OF rq d len', unfolded cpu(1)]) (rule that)
  note r = same_restD [OF s1(5)]
  let ?s2 = "s1\<lparr>c_isidle := (c_isidle s1)(?c := True)\<rparr>"
  have q2: "runqueues ?s2 (rq(?c := t # ts @ [?cur]))" using s1(2) ne by simp
  have cc: "curcpu ?s2 = ?c" using r by simp
  have z2: "on_list ?s2 (Zombies (curcpu ?s2)) zs" using zs k1 cc by simp
  have ncur: "?cur \<notin> set zs" using reap by (auto simp: reapable_def)
  have o: "on_list s (Runqueue ?c) (t # ts)" using runqueuesD [OF rq, of "curcpu s"] ne by simp
  have nt: "t \<notin> set zs" using on_list_disjoint [OF zs o] by auto
  have reap2: "reapable (?s2\<lparr>c_curthread := (c_curthread ?s2)(curcpu ?s2 := t)\<rparr>) zs"
    using reap nt ncur r s1(3) by (auto simp: reapable_def)
  from idle_round_spec [OF q2 _ _ z2 reap2] cc obtain s' where s': "idle_round ?s2 = Some s'"
    "runqueues s' (rq(?c := ts @ [?cur]))" "curthread s' = t" "curcpu s' = ?c" "\<not> c_isidle s' ?c"
    "t_state s' = (t_state ?s2)(t := S_RUN)" "on_list s' (Zombies ?c) []"
    and k': "\<forall>l us. on_list ?s2 l us \<and> l \<noteq> Zombies ?c \<and> (\<forall>c. l \<noteq> Runqueue c) \<longrightarrow> on_list s' l us" by auto
  have eq: "s1\<lparr>t_state := (t_state s1)(?cur := S_READY)\<rparr> = s1" using s1(3) by simp
  have "thread_yield s = Some s'"
    using s'(1) cpu ne0 s1(1) eq by (simp add: thread_yield_def thread_switch_def Let_def queue_current_def)
  moreover have "\<forall>l us. on_list s l us \<and> l \<noteq> Zombies ?c \<and> (\<forall>c. l \<noteq> Runqueue c) \<longrightarrow> on_list s' l us"
    using k1 k' by simp
  ultimately show ?thesis using s' s1(3) by simp
qed

section \<open>Migration\<close>

text \<open>Every queued thread is assigned to the CPU of its queue.\<close>

definition homed :: "'a threads_scheme \<Rightarrow> (cpu \<Rightarrow> thread list) \<Rightarrow> bool" where
  "homed s rq \<longleftrightarrow> (\<forall>c. \<forall>t\<in>set (rq c). t_cpu s t = c)"

text \<open>The state while threads are moved: the run queues, and the victims taken from this CPU.\<close>

definition migrating :: "'a threads_scheme \<Rightarrow> (cpu \<Rightarrow> thread list) \<Rightarrow> thread list \<Rightarrow> bool" where
  "migrating s rq vs \<longleftrightarrow> runqueues s rq \<and> on_list s victims vs \<and> homed s rq \<and> (\<forall>t\<in>set vs. t_cpu s t = curcpu s)"

definition pool :: "cpu set \<Rightarrow> (cpu \<Rightarrow> thread list) \<Rightarrow> thread list \<Rightarrow> thread multiset" where
  "pool C rq vs = (\<Sum>c\<in>C. mset (rq c)) + mset vs"

lemma pool_move:
  assumes "finite C" and "c \<in> C" and "mset xs + mset vs' = mset (rq c) + mset vs"
  shows "pool C (rq(c := xs)) vs' = pool C rq vs"
proof -
  have "(\<Sum>d\<in>C - {c}. mset ((rq(c := xs)) d)) = (\<Sum>d\<in>C - {c}. mset (rq d))" by (rule sum.cong) auto
  then have "pool C (rq(c := xs)) vs' = (mset xs + mset vs') + (\<Sum>d\<in>C - {c}. mset (rq d))"
    using assms(1,2) by (simp add: pool_def sum.remove [of C c])
  also have "\<dots> = pool C rq vs" unfolding assms(3) using assms(1,2) by (simp add: pool_def sum.remove [of C c])
  finally show ?thesis .
qed

text \<open>What moving threads keeps, beside the queues themselves.\<close>

definition mig_frame :: "'a threads_scheme \<Rightarrow> 'a threads_scheme \<Rightarrow> bool" where
  "mig_frame s s' \<longleftrightarrow> same_rest s s' \<and> t_state s' = t_state s \<and> t_cpu s' (curthread s) = t_cpu s (curthread s)
     \<and> (\<forall>l us. on_list s l us \<and> l \<noteq> victims \<and> (\<forall>c. l \<noteq> Runqueue c) \<longrightarrow> on_list s' l us)"

lemma mig_frame_trans: "mig_frame s s1 \<Longrightarrow> mig_frame s1 s2 \<Longrightarrow> mig_frame s s2"
  using same_rest_trans [of s s1 s2] by (simp add: mig_frame_def same_rest_def)

lemma take_victims_spec:
  assumes "migrating s rq vs" and "rq (curcpu s) = xs @ ys" and "length ys + length vs < 4294967295"
  shows "\<exists>s'. take_victims (length ys) s = Some s' \<and> migrating s' (rq(curcpu s := xs)) (ys @ vs) \<and> mig_frame s s'"
  using assms
proof (induction ys arbitrary: s rq vs rule: rev_induct)
  case Nil
  then have "rq(curcpu s := xs) = rq" by auto
  with Nil show ?case by (simp add: mig_frame_def)
next
  case (snoc y ys)
  let ?c = "curcpu s"
  have o: "on_list s (Runqueue ?c) ((xs @ ys) @ [y])" and v: "on_list s victims vs"
    using snoc.prems(1,2) runqueuesD [of s rq ?c] by (simp_all add: migrating_def)
  obtain s1 where s1: "threadlist_remtail (Runqueue ?c) s = Some (Some y, s1)" "on_list s1 (Runqueue ?c) (xs @ ys)" "detached s1 y"
    and k1: "\<forall>k us. on_list s k us \<and> k \<noteq> Runqueue ?c \<longrightarrow> on_list s1 k us"
    and r1: "same_rest s s1" "t_state s1 = t_state s" "t_cpu s1 = t_cpu s" "c_ipi_pending s1 = c_ipi_pending s"
    by (rule remtail_kept [OF o]) (rule that)
  have v1: "on_list s1 victims vs" "length vs < 4294967295" using v k1 snoc.prems(3) by auto
  obtain s2 where s2: "threadlist_addhead victims y s1 = Some s2" "on_list s2 victims (y # vs)"
    and k2: "\<forall>k us. on_list s1 k us \<and> k \<noteq> victims \<longrightarrow> on_list s2 k us"
    and r2: "same_rest s1 s2" "t_state s2 = t_state s1" "t_cpu s2 = t_cpu s1" "c_ipi_pending s2 = c_ipi_pending s1"
    by (rule addhead_kept [OF v1(1) s1(3) v1(2)]) (rule that)
  have rest: "same_rest s s2" using r1(1) r2(1) by (rule same_rest_trans)
  note r = same_restD [OF rest]
  let ?rq = "rq(?c := xs @ ys)"
  have "runqueues s2 ?rq"
    using snoc.prems(1) k1 k2 s1(2) by (simp add: runqueues_def migrating_def)
  moreover have "homed s2 ?rq"
    using snoc.prems(1,2) r1 r2 by (auto simp: homed_def migrating_def)
  moreover have "t_cpu s y = ?c" using snoc.prems(1,2) by (auto simp: migrating_def homed_def)
  ultimately have m2: "migrating s2 ?rq (y # vs)"
    using snoc.prems(1) s2(2) r r1 r2 by (simp add: migrating_def)
  have f2: "mig_frame s s2" using rest k1 k2 r1 r2 by (simp add: mig_frame_def)
  have c2: "curcpu s2 = ?c" using r by simp
  have pre: "?rq (curcpu s2) = xs @ ys" "length ys + length (y # vs) < 4294967295" using c2 snoc.prems(3) by simp_all
  from snoc.IH [OF m2 pre, unfolded c2 fun_upd_upd] obtain s' where
    s': "take_victims (length ys) s2 = Some s'" "migrating s' (rq(?c := xs)) (ys @ y # vs)" "mig_frame s2 s'" by blast
  have "take_victims (length (ys @ [y])) s = Some s'" using s1(1) s2(1) s'(1) by simp
  then show ?case using s'(2) mig_frame_trans [OF f2 s'(3)] by (intro exI [of _ s']) (simp del: fun_upd_apply)
qed

lemma send_victims_spec:
  assumes "migrating s rq vs" and "n \<le> length vs" and "c \<noteq> curcpu s"
    and "length (rq c) + length vs < 4294967295"
  shows "\<exists>s' xs vs' n'. send_victims c share n s = Some (n', s') \<and> migrating s' (rq(c := xs)) vs' \<and> mig_frame s s'
    \<and> n' \<le> length vs' \<and> mset xs + mset vs' = mset (rq c) + mset vs \<and> length xs \<le> max (length (rq c)) share
    \<and> length vs' \<le> length vs"
  using assms
proof (induction n arbitrary: s rq vs)
  case 0
  then show ?case by (intro exI [of _ s] exI [of _ "rq c"] exI [of _ vs] exI [of _ 0]) (simp add: mig_frame_def)
next
  case (Suc n)
  have "runqueues s rq" using Suc.prems(1) by (simp add: migrating_def)
  then have cnt: "tl_count s (Runqueue c) = length (rq c)" by (intro on_list_count runqueuesD)
  show ?case
  proof (cases "length (rq c) < share")
    case False
    with Suc.prems cnt show ?thesis
      by (intro exI [of _ s] exI [of _ "rq c"] exI [of _ vs] exI [of _ "Suc n"]) (simp add: mig_frame_def)
  next
    case less: True
    obtain t ts where vs: "vs = t # ts" using Suc.prems(2) by (cases vs) auto
    have v: "on_list s victims (t # ts)" and q: "runqueues s rq" and h: "homed s rq"
      and hv: "\<forall>u\<in>set vs. t_cpu s u = curcpu s" using Suc.prems(1) vs by (simp_all add: migrating_def)
    obtain s1 where s1: "threadlist_remhead victims s = Some (Some t, s1)" "on_list s1 victims ts" "detached s1 t"
      and k1: "\<forall>k us. on_list s k us \<and> k \<noteq> victims \<longrightarrow> on_list s1 k us" and "\<forall>u. detached s u \<longrightarrow> detached s1 u"
      and r1: "same_rest s s1" "t_state s1 = t_state s" "t_cpu s1 = t_cpu s" "c_ipi_pending s1 = c_ipi_pending s"
      by (rule remhead_kept [OF v]) (rule that)
    note R1 = same_restD [OF r1(1)]
    have q1: "runqueues s1 rq" using q k1 by (simp add: runqueues_def)
    have lts: "length ts < 4294967295" "length (rq c) < 4294967295" using Suc.prems(4) vs by simp_all
    have dt: "t \<notin> set ts" using v by (simp add: on_list_def)
    show ?thesis
    proof (cases "t = curthread s")
      case True
      obtain s2 where s2: "threadlist_addtail victims t s1 = Some s2" "on_list s2 victims (ts @ [t])"
        and k2: "\<forall>k us. on_list s1 k us \<and> k \<noteq> victims \<longrightarrow> on_list s2 k us" and "\<forall>u. detached s1 u \<and> u \<noteq> t \<longrightarrow> detached s2 u"
        and r2: "same_rest s1 s2" "t_state s2 = t_state s1" "t_cpu s2 = t_cpu s1" "c_ipi_pending s2 = c_ipi_pending s1"
        by (rule addtail_kept [OF s1(2,3) lts(1)]) (rule that)
      have rest: "same_rest s s2" using r1(1) r2(1) by (rule same_rest_trans)
      note R2 = same_restD [OF rest]
      have m2: "migrating s2 rq (ts @ [t])"
        using q1 k2 s2(2) h hv vs r1 r2 R2 by (simp add: migrating_def runqueues_def homed_def)
      have f2: "mig_frame s s2" using rest k1 k2 r1 r2 by (simp add: mig_frame_def)
      have pre: "n \<le> length (ts @ [t])" "c \<noteq> curcpu s2" "length (rq c) + length (ts @ [t]) < 4294967295"
        using Suc.prems vs R2 by auto
      from Suc.IH [OF m2 pre] obtain s' xs vs' n' where i: "send_victims c share n s2 = Some (n', s')"
        "migrating s' (rq(c := xs)) vs'" "mig_frame s2 s'" "n' \<le> length vs'"
        "mset xs + mset vs' = mset (rq c) + mset (ts @ [t])" "length xs \<le> max (length (rq c)) share"
        "length vs' \<le> length (ts @ [t])" by blast
      have "send_victims c share (Suc n) s = Some (n', s')" using less cnt s1(1) True R1 s2(1) i(1) by simp
      then show ?thesis using i(2,4-7) mig_frame_trans [OF f2 i(3)] vs
        by - (rule exI [of _ s'], rule exI [of _ xs], rule exI [of _ vs'], rule exI [of _ n'], simp del: fun_upd_apply)
    next
      case False
      let ?s1 = "s1\<lparr>t_cpu := (t_cpu s)(t := c)\<rparr>"
      have o1: "on_list ?s1 (Runqueue c) (rq c)" "detached ?s1 t" using q1 s1(3) runqueuesD by simp_all
      obtain s2 where s2: "threadlist_addtail (Runqueue c) t ?s1 = Some s2" "on_list s2 (Runqueue c) (rq c @ [t])"
        and k2: "\<forall>k us. on_list ?s1 k us \<and> k \<noteq> Runqueue c \<longrightarrow> on_list s2 k us" and "\<forall>u. detached ?s1 u \<and> u \<noteq> t \<longrightarrow> detached s2 u"
        and r2: "same_rest ?s1 s2" "t_state s2 = t_state ?s1" "t_cpu s2 = t_cpu ?s1" "c_ipi_pending s2 = c_ipi_pending ?s1"
        by (rule addtail_kept [OF o1 lts(2)]) (rule that)
      let ?s3 = "if c_isidle s2 c then s2\<lparr>c_ipi_pending := (c_ipi_pending s2)(c := c_ipi_pending s2 c OR push_bit IPI_UNIDLE 1)\<rparr> else s2"
      have rest: "same_rest s ?s3" using r1(1) r2(1) same_rest_trans by auto
      note R3 = same_restD [OF rest]
      have st3: "t_state ?s3 = t_state s" "t_cpu ?s3 = (t_cpu s)(t := c)" using r1 r2 by auto
      have q3: "runqueues ?s3 (rq(c := rq c @ [t]))" "on_list ?s3 victims ts"
        using q1 k2 s2(2) s1(2) by (auto simp: runqueues_def)
      have nt: "t \<notin> set (rq d)" for d using on_list_disjoint [OF v runqueuesD [OF q, of d]] by auto
      have m3: "migrating ?s3 (rq(c := rq c @ [t])) ts"
        unfolding migrating_def using q3 h hv vs dt nt R3 st3 by (auto simp: homed_def)
      have f3: "mig_frame s ?s3" using rest st3 False k1 k2 by (auto simp: mig_frame_def)
      have pre: "n \<le> length ts" "c \<noteq> curcpu ?s3" "length ((rq(c := rq c @ [t])) c) + length ts < 4294967295"
        using Suc.prems vs R3 by auto
      from Suc.IH [OF m3 pre, unfolded fun_upd_same fun_upd_upd] obtain s' xs vs' n' where i: "send_victims c share n ?s3 = Some (n', s')"
        "migrating s' (rq(c := xs)) vs'" "mig_frame ?s3 s'" "n' \<le> length vs'"
        "mset xs + mset vs' = mset (rq c @ [t]) + mset ts" "length xs \<le> max (length (rq c @ [t])) share"
        "length vs' \<le> length ts" by blast
      have "send_victims c share (Suc n) s = Some (n', s')"
        using less cnt s1(1) False R1 s2(1) i(1) r1(3) by (simp add: ipi_send_def IPI_UNIDLE_def Let_def split: if_splits)
      then show ?thesis using i(2,4-7) mig_frame_trans [OF f3 i(3)] vs less
        by - (rule exI [of _ s'], rule exI [of _ xs], rule exI [of _ vs'], rule exI [of _ n'], simp del: fun_upd_apply)
    qed
  qed
qed

lemma send_all_spec:
  assumes "migrating s rq vs" and "n \<le> length vs" and "distinct cs" and "finite C" and "set cs \<subseteq> C"
    and "\<And>c. length (rq c) + length vs < 4294967295"
  shows "\<exists>s' rq' vs'. send_all cs share n s = Some s' \<and> migrating s' rq' vs' \<and> mig_frame s s'
    \<and> pool C rq' vs' = pool C rq vs \<and> (\<forall>c. c \<notin> set cs - {curcpu s} \<longrightarrow> rq' c = rq c)
    \<and> (\<forall>c. length (rq' c) \<le> max (length (rq c)) share) \<and> length vs' \<le> length vs"
  using assms
proof (induction cs arbitrary: s rq vs n)
  case Nil
  then show ?case by (intro exI [of _ s] exI [of _ rq] exI [of _ vs]) (simp add: mig_frame_def)
next
  case (Cons c cs)
  show ?case
  proof (cases "n = 0 \<or> c = curcpu s")
    case True
    show ?thesis
    proof (cases "n = 0")
      case True
      then show ?thesis using Cons.prems(1)
        by (intro exI [of _ s] exI [of _ rq] exI [of _ vs]) (simp add: mig_frame_def)
    next
      case False
      with True have c: "c = curcpu s" by simp
      from Cons.IH [OF Cons.prems(1,2) _ Cons.prems(4) _ Cons.prems(6)] Cons.prems(3,5)
      obtain s' rq' vs' where i: "send_all cs share n s = Some s'" "migrating s' rq' vs'" "mig_frame s s'"
        "pool C rq' vs' = pool C rq vs" "\<forall>c. c \<notin> set cs - {curcpu s} \<longrightarrow> rq' c = rq c"
        "\<forall>c. length (rq' c) \<le> max (length (rq c)) share" "length vs' \<le> length vs" by auto
      then show ?thesis using False c by (intro exI [of _ s'] exI [of _ rq'] exI [of _ vs']) auto
    qed
  next
    case False
    then have c: "c \<noteq> curcpu s" by simp
    from send_victims_spec [OF Cons.prems(1,2) c Cons.prems(6)]
    obtain s1 xs vs1 n1 where s1: "send_victims c share n s = Some (n1, s1)" "migrating s1 (rq(c := xs)) vs1"
      "mig_frame s s1" "n1 \<le> length vs1" "mset xs + mset vs1 = mset (rq c) + mset vs"
      "length xs \<le> max (length (rq c)) share" "length vs1 \<le> length vs" by blast
    have "length xs + length vs1 = length (rq c) + length vs"
      using arg_cong [OF s1(5), of size] by simp
    then have len: "length ((rq(c := xs)) d) + length vs1 < 4294967295" for d
      using Cons.prems(6) [of d] Cons.prems(6) [of c] s1(7) by simp
    have pc: "pool C (rq(c := xs)) vs1 = pool C rq vs"
      using Cons.prems(4,5) s1(5) by (intro pool_move) auto
    have cc: "curcpu s1 = curcpu s" using s1(3) by (simp add: mig_frame_def same_rest_def)
    have cs: "distinct cs" "set cs \<subseteq> C" using Cons.prems(3,5) by auto
    from Cons.IH [OF s1(2,4) cs(1) Cons.prems(4) cs(2) len]
    obtain s' rq' vs' where i: "send_all cs share n1 s1 = Some s'" "migrating s' rq' vs'" "mig_frame s1 s'"
      "pool C rq' vs' = pool C (rq(c := xs)) vs1" "\<forall>d. d \<notin> set cs - {curcpu s1} \<longrightarrow> rq' d = (rq(c := xs)) d"
      "\<forall>d. length (rq' d) \<le> max (length ((rq(c := xs)) d)) share" "length vs' \<le> length vs1" by blast
    have "send_all (c # cs) share n s = Some s'" using False s1(1) i(1) by simp
    moreover have "length (rq' d) \<le> max (length (rq d)) share" for d
      using i(6) [rule_format, of d] s1(6) by (cases "d = c") auto
    moreover have "rq' d = rq d" if "d \<notin> set (c # cs) - {curcpu s}" for d
    proof -
      have "d \<noteq> c" "d \<notin> set cs - {curcpu s1}" using that c cc by auto
      then show ?thesis using i(5) by simp
    qed
    ultimately show ?thesis using i pc mig_frame_trans [OF s1(3)] s1(7)
      by (intro exI [of _ s'] exI [of _ rq'] exI [of _ vs']) auto
  qed
qed

lemma count_threads_eq:
  assumes "runqueues s rq" and "tot + (\<Sum>c\<leftarrow>cs. length (rq c)) < 4294967296"
  shows "count_threads cs (mine, tot) s =
    (if curcpu s \<in> set cs then length (rq (curcpu s)) else mine, tot + (\<Sum>c\<leftarrow>cs. length (rq c)))"
  using assms(2)
proof (induction cs arbitrary: mine tot)
  case (Cons c cs)
  have "tl_count s (Runqueue c) = length (rq c)" using on_list_count [OF runqueuesD [OF assms(1)]] .
  moreover have "u32 (tot + length (rq c)) = tot + length (rq c)" using Cons.prems by (simp add: u32_def)
  ultimately show ?case using Cons by auto
qed simp

lemma migration_spec:
  fixes s :: "'a threads_scheme"
  assumes q: "runqueues s rq" and h: "homed s rq" and d: "distinct (allcpus s)" and cur: "curcpu s \<in> set (allcpus s)"
    and bound: "(\<Sum>c\<leftarrow>allcpus s. length (rq c)) + length (allcpus s) < 4294967295"
    and others: "\<And>c. c \<notin> set (allcpus s) \<Longrightarrow> rq c = []"
  defines "share \<equiv> ((\<Sum>c\<leftarrow>allcpus s. length (rq c)) + length (allcpus s) - 1) div length (allcpus s)"
  shows "\<exists>s' rq'. thread_consider_migration s = Some s' \<and> runqueues s' rq' \<and> homed s' rq'
    \<and> (\<Sum>c\<in>set (allcpus s). mset (rq' c)) = (\<Sum>c\<in>set (allcpus s). mset (rq c))
    \<and> t_state s' = t_state s \<and> t_cpu s' (curthread s) = t_cpu s (curthread s)
    \<and> (\<forall>c. length (rq' c) \<le> max (length (rq c)) share)
    \<and> min share (length (rq (curcpu s))) \<le> length (rq' (curcpu s))"
proof -
  let ?c = "curcpu s" and ?C = "set (allcpus s)" and ?tot = "\<Sum>c\<leftarrow>allcpus s. length (rq c)"
  have cnt: "count_threads (allcpus s) (0, 0) s = (length (rq ?c), ?tot)"
    using count_threads_eq [OF q, of 0 "allcpus s" 0] bound cur by simp
  have sh: "DIVROUNDUP ?tot (length (allcpus s)) = share" using bound by (simp add: DIVROUNDUP_def share_def u32_def)
  have one: "length (rq c) \<le> ?tot" for c
  proof (cases "c \<in> ?C")
    case True
    then show ?thesis by (intro member_le_sum_list) auto
  qed (simp add: others)
  show ?thesis
  proof (cases "length (rq ?c) < share")
    case True
    then show ?thesis using q h cnt sh by (intro exI [of _ s] exI [of _ rq]) (simp add: thread_consider_migration_def)
  next
    case False
    define xs ys where "xs = take share (rq ?c)" and "ys = drop share (rq ?c)"
    have xy: "rq ?c = xs @ ys" "length xs = share" "length ys = length (rq ?c) - share"
      using False by (simp_all add: xs_def ys_def)
    let ?s0 = "threadlist_init victims s"
    have m0: "migrating ?s0 rq []"
      using q h by (simp add: migrating_def runqueues_def homed_def init_kept init_spec init_same)
    have ly: "length xs + length ys < 4294967295" using one [of ?c] bound xy(1) by simp
    have pre: "rq (curcpu ?s0) = xs @ ys" "length ys + length ([] :: thread list) < 4294967295"
      using ly xy(1) by (simp_all add: init_same)
    from take_victims_spec [OF m0 pre] obtain s1 where s1: "take_victims (length ys) ?s0 = Some s1"
      "migrating s1 (rq(?c := xs)) ys" "mig_frame ?s0 s1" unfolding init_same append_Nil2 by blast
    have f1: "allcpus s1 = allcpus s" "curcpu s1 = ?c" using s1(3) by (simp_all add: mig_frame_def same_rest_def init_same)
    have two: "length (rq c) + length (rq ?c) \<le> ?tot" if "c \<noteq> ?c" for c
    proof (cases "c \<in> ?C")
      case True
      have "(\<Sum>c\<in>{c, ?c}. length (rq c)) \<le> (\<Sum>c\<in>?C. length (rq c))" using True cur by (intro sum_mono2) auto
      then show ?thesis using that d by (simp add: sum_list_distinct_conv_sum_set)
    qed (simp add: others one)
    have len1: "length ((rq(?c := xs)) c) + length ys < 4294967295" for c
      using two [of c] ly bound xy(3) by (cases "c = ?c") simp_all
    from send_all_spec [OF s1(2) le_refl d finite_set order_refl len1, of share] obtain s2 rq2 vs2 where
      s2: "send_all (allcpus s) share (length ys) s1 = Some s2" "migrating s2 rq2 vs2" "mig_frame s1 s2"
        "pool ?C rq2 vs2 = pool ?C (rq(?c := xs)) ys" "\<forall>c. c \<notin> ?C - {curcpu s1} \<longrightarrow> rq2 c = (rq(?c := xs)) c"
        "\<forall>c. length (rq2 c) \<le> max (length ((rq(?c := xs)) c)) share" "length vs2 \<le> length ys" by blast
    have rq2: "rq2 ?c = xs" using s2(5) f1 by simp
    have f2: "mig_frame ?s0 s2" using s1(3) s2(3) by (rule mig_frame_trans)
    have c2: "curcpu s2 = ?c" using f2 by (simp add: mig_frame_def same_rest_def init_same)
    have q2: "runqueues s2 rq2" and v2: "on_list s2 victims vs2" and h2: "homed s2 rq2"
      and hv2: "\<forall>t\<in>set vs2. t_cpu s2 t = ?c" using s2(2) c2 by (simp_all add: migrating_def)
    have "length vs2 + length (rq2 ?c) < 4294967295" using s2(7) ly rq2 by simp
    with move_all_rest [OF v2 runqueuesD [OF q2]] obtain s3 where
      s3: "move_all threadlist_remhead threadlist_addtail victims (Runqueue ?c) s2 = Some s3" "on_list s3 victims []"
        "on_list s3 (Runqueue ?c) (rq2 ?c @ vs2)" "same_rest s2 s3" "t_state s3 = t_state s2" "t_cpu s3 = t_cpu s2"
        "\<forall>k ws. on_list s2 k ws \<and> k \<noteq> victims \<and> k \<noteq> Runqueue ?c \<longrightarrow> on_list s3 k ws" by blast
    let ?rq = "rq2(?c := rq2 ?c @ vs2)"
    have q3: "runqueues s3 ?rq" using s3(3,7) q2 by (simp add: runqueues_def)
    have h3: "homed s3 ?rq" using h2 hv2 s3(6) by (auto simp: homed_def)
    have "pool ?C ?rq [] = pool ?C rq2 vs2" using cur by (intro pool_move) auto
    also have "\<dots> = pool ?C rq []" unfolding s2(4) using cur xy by (intro pool_move) auto
    finally have p3: "(\<Sum>c\<in>?C. mset (?rq c)) = (\<Sum>c\<in>?C. mset (rq c))" by (simp add: pool_def)
    have isempty: "threadlist_isempty victims s3" "tl_count s3 victims = 0"
      using on_list_count [OF s3(2)] by (simp_all add: threadlist_isempty_def)
    have left: "(if \<not> threadlist_isempty victims s2 then move_all threadlist_remhead threadlist_addtail victims (Runqueue (curcpu s2)) s2
        else Some s2) = Some s3"
    proof (cases "vs2 = []")
      case True
      then have "move_all threadlist_remhead threadlist_addtail victims (Runqueue ?c) s2 = Some s2"
        using v2 by (subst move_all.simps) (simp add: remhead_empty)
      then show ?thesis using s3(1) c2 by simp
    next
      case False
      then show ?thesis using s3(1) c2 on_list_count [OF v2] by (simp add: threadlist_isempty_def)
    qed
    have "thread_consider_migration s = Some s3"
      using False cnt sh s1(1) s2(1) xy(3) f1 c2 isempty
      by (simp add: thread_consider_migration_def threadlist_cleanup_def Let_def left split del: if_split)
    moreover have "t_state s3 = t_state s" "t_cpu s3 (curthread s) = t_cpu s (curthread s)"
      using f2 s3(5,6) by (simp_all add: mig_frame_def init_same)
    moreover have "length (?rq c) \<le> max (length (rq c)) share" for c
      using s2(6) [rule_format, of c] s2(7) xy(1) rq2 by (cases "c = ?c") simp_all
    moreover have "share \<le> length (?rq ?c)" using rq2 xy by simp
    ultimately show ?thesis using q3 h3 p3 by (intro exI [of _ s3] exI [of _ ?rq]) auto
  qed
qed

section \<open>Interrupts between CPUs\<close>

lemma ipi_send_all_eq:
  assumes "code < 32" and "distinct cs"
  shows "ipi_send_all cs code s = Some (s\<lparr>c_ipi_pending := (\<lambda>c. if c \<in> set cs \<and> c \<noteq> curcpu s
      then c_ipi_pending s c OR push_bit code 1 else c_ipi_pending s c)\<rparr>)"
  using assms(2)
proof (induction cs arbitrary: s)
  case (Cons c cs)
  show ?case
  proof (cases "c = curcpu s")
    case True
    then have "(\<lambda>d. if d \<in> set cs \<and> d \<noteq> curcpu s then c_ipi_pending s d OR push_bit code 1 else c_ipi_pending s d)
      = (\<lambda>d. if d \<in> set (c # cs) \<and> d \<noteq> curcpu s then c_ipi_pending s d OR push_bit code 1 else c_ipi_pending s d)"
      by auto
    with True Cons show ?thesis by simp
  next
    case False
    let ?s1 = "s\<lparr>c_ipi_pending := (c_ipi_pending s)(c := c_ipi_pending s c OR push_bit code 1)\<rparr>"
    have "(\<lambda>d. if d \<in> set cs \<and> d \<noteq> curcpu s then c_ipi_pending ?s1 d OR push_bit code 1 else c_ipi_pending ?s1 d)
      = (\<lambda>d. if d \<in> set (c # cs) \<and> d \<noteq> curcpu s then c_ipi_pending s d OR push_bit code 1 else c_ipi_pending s d)"
      (is "?f = ?g") using False Cons.prems by auto
    moreover have "ipi_send_all (c # cs) code s = ipi_send_all cs code ?s1"
      using False assms(1) by (simp add: ipi_send_def)
    moreover have "ipi_send_all cs code ?s1 = Some (?s1\<lparr>c_ipi_pending := ?f\<rparr>)"
      using Cons.IH [of ?s1] Cons.prems by simp
    moreover have "?s1\<lparr>c_ipi_pending := ?f\<rparr> = s\<lparr>c_ipi_pending := ?f\<rparr>" by simp
    ultimately show ?thesis by (simp only:)
  qed
qed simp

section \<open>Properties\<close>

text \<open>A machine with two CPUs, threads 20, 21 and 22 asleep on channel 5 and 23 in the run queue of CPU 2.\<close>

definition idle_machine :: threads where
  "idle_machine = \<lparr>oom = \<lambda>_. False, ticks = 30, live = {10..30},
     tln_prev = \<lambda>_. None, tln_next = \<lambda>_. None, tln_self = (\<lambda>n. case n of Node t \<Rightarrow> Some t | _ \<Rightarrow> None),
     tl_count = \<lambda>_. 0, t_state = (\<lambda>t. if t = 10 then S_RUN else S_SLEEP), t_cpu = (\<lambda>t. if t = 21 then 3 else 2),
     t_stack = \<lambda>_. 0, t_proc = \<lambda>_. 0, t_in_interrupt = \<lambda>_. False, stackmem = \<lambda>_ _. 0,
     c_curthread = \<lambda>_. 10, c_isidle = \<lambda>_. False, c_hardclocks = \<lambda>_. 0, c_ipi_pending = \<lambda>_. 0,
     c_shootdown = \<lambda>_. [], allcpus = [2, 3], curcpu = 2, lbolt = 0\<rparr>"

text \<open>An empty list head on every list.\<close>

definition all_empty :: "'a lists_scheme \<Rightarrow> 'a lists_scheme" where
  "all_empty h = h\<lparr>tln_next := (\<lambda>n. case n of Head l \<Rightarrow> Some (Tail l) | _ \<Rightarrow> None),
     tln_prev := (\<lambda>n. case n of Tail l \<Rightarrow> Some (Head l) | _ \<Rightarrow> None),
     tln_self := (\<lambda>n. case n of Node t \<Rightarrow> Some t | _ \<Rightarrow> None), tl_count := \<lambda>_. 0\<rparr>"

lemma all_empty_lists: "on_list (all_empty h) l []" "detached (all_empty h) t"
  by (simp_all add: all_empty_def on_list_def chain_def detached_def)

definition sleepy_machine :: threads where
  "sleepy_machine = the (threadlist_addtail (Runqueue 2) 23 (the (threadlist_addtail (Wchan 5) 22
     (the (threadlist_addtail (Wchan 5) 21 (the (threadlist_addtail (Wchan 5) 20 (all_empty idle_machine))))))))"

lemma sleepy_machine_ok:
  "on_list sleepy_machine (Wchan 5) [20, 21, 22]" "runqueues sleepy_machine ((\<lambda>_. [])(2 := [23]))"
  "t \<notin> {20, 21, 22, 23} \<Longrightarrow> detached sleepy_machine t" "on_list sleepy_machine (Zombies 2) []"
  "t_cpu sleepy_machine = t_cpu idle_machine" "t_state sleepy_machine = t_state idle_machine"
  "same_rest (all_empty idle_machine) sleepy_machine"
proof -
  let ?h = "all_empty idle_machine"
  obtain h1 where h1: "threadlist_addtail (Wchan 5) 20 ?h = Some h1" "on_list h1 (Wchan 5) ([] @ [20])"
    "\<forall>k us. on_list ?h k us \<and> k \<noteq> Wchan 5 \<longrightarrow> on_list h1 k us" "\<forall>u. detached ?h u \<and> u \<noteq> 20 \<longrightarrow> detached h1 u"
    "same_rest ?h h1" "t_state h1 = t_state ?h" "t_cpu h1 = t_cpu ?h"
    by (rule addtail_kept [of ?h "Wchan 5" "[]" 20]) (simp_all add: all_empty_lists)
  obtain h2 where h2: "threadlist_addtail (Wchan 5) 21 h1 = Some h2" "on_list h2 (Wchan 5) ([20] @ [21])"
    "\<forall>k us. on_list h1 k us \<and> k \<noteq> Wchan 5 \<longrightarrow> on_list h2 k us" "\<forall>u. detached h1 u \<and> u \<noteq> 21 \<longrightarrow> detached h2 u"
    "same_rest h1 h2" "t_state h2 = t_state h1" "t_cpu h2 = t_cpu h1"
    by (rule addtail_kept [of h1 "Wchan 5" "[20]" 21]) (use h1 in \<open>simp_all add: all_empty_lists\<close>)
  obtain h3 where h3: "threadlist_addtail (Wchan 5) 22 h2 = Some h3" "on_list h3 (Wchan 5) ([20, 21] @ [22])"
    "\<forall>k us. on_list h2 k us \<and> k \<noteq> Wchan 5 \<longrightarrow> on_list h3 k us" "\<forall>u. detached h2 u \<and> u \<noteq> 22 \<longrightarrow> detached h3 u"
    "same_rest h2 h3" "t_state h3 = t_state h2" "t_cpu h3 = t_cpu h2"
    by (rule addtail_kept [of h2 "Wchan 5" "[20, 21]" 22]) (use h1 h2 in \<open>simp_all add: all_empty_lists\<close>)
  have o3: "on_list h3 (Runqueue 2) []" "detached h3 23"
    using h1(3,4) h2(3,4) h3(3,4) by (simp_all add: all_empty_lists)
  obtain h4 where h4: "threadlist_addtail (Runqueue 2) 23 h3 = Some h4" "on_list h4 (Runqueue 2) ([] @ [23])"
    "\<forall>k us. on_list h3 k us \<and> k \<noteq> Runqueue 2 \<longrightarrow> on_list h4 k us" "\<forall>u. detached h3 u \<and> u \<noteq> 23 \<longrightarrow> detached h4 u"
    "same_rest h3 h4" "t_state h4 = t_state h3" "t_cpu h4 = t_cpu h3"
    by (rule addtail_kept [OF o3]) simp_all
  have eq: "sleepy_machine = h4" by (simp add: sleepy_machine_def h1(1) h2(1) h3(1) h4(1))
  have base: "t_state ?h = t_state idle_machine" "t_cpu ?h = t_cpu idle_machine" by (simp_all add: all_empty_def)
  show "on_list sleepy_machine (Wchan 5) [20, 21, 22]" using h3(2) h4(3) by (simp add: eq)
  show "runqueues sleepy_machine ((\<lambda>_. [])(2 := [23]))"
    using h1(3) h2(3) h3(3) h4(2,3) by (simp add: eq runqueues_def all_empty_lists)
  show "t \<notin> {20, 21, 22, 23} \<Longrightarrow> detached sleepy_machine t" using h1(4) h2(4) h3(4) h4(4) by (simp add: eq all_empty_lists)
  show "on_list sleepy_machine (Zombies 2) []" using h1(3) h2(3) h3(3) h4(3) by (simp add: eq all_empty_lists)
  show "t_cpu sleepy_machine = t_cpu idle_machine" "t_state sleepy_machine = t_state idle_machine"
    using h1(6,7) h2(6,7) h3(6,7) h4(6,7) base by (simp_all add: eq)
  show "same_rest ?h sleepy_machine"
    unfolding eq using h1(5) h2(5) h3(5) h4(5) same_rest_trans by blast
qed

lemma sleepy_machine_rest: "curcpu sleepy_machine = 2" "allcpus sleepy_machine = [2, 3]"
  "c_curthread sleepy_machine c = 10" "\<not> c_isidle sleepy_machine c" "t_stack sleepy_machine t = 0"
  using same_restD [OF sleepy_machine_ok(7)] by (simp_all add: all_empty_def idle_machine_def)

text \<open>
  C16: waking is first in, first out.  \<open>wchan_wakeone\<close> makes the thread that has slept longest
  ready and puts it at the end of the run queue of its own CPU; on an empty channel it does nothing.
  \<open>wchan_wakeall\<close> empties the channel and appends each sleeper to the run queue of its CPU in the
  order they went to sleep.  Both always return, and no other queue changes.
\<close>

theorem wchan_wakes_fifo:
  assumes "runqueues s rq" and "on_list s (Wchan wc) ts" and "\<forall>t\<in>set ts. t_cpu s t \<noteq> 0"
    and "\<forall>c. length (rq c) + length ts < 4294967295"
  shows "(case ts of [] \<Rightarrow> wchan_wakeone wc s = Some s
      | t # ts' \<Rightarrow> \<exists>s'. wchan_wakeone wc s = Some s' \<and> on_list s' (Wchan wc) ts'
          \<and> runqueues s' (rq(t_cpu s t := rq (t_cpu s t) @ [t])) \<and> t_state s' = (t_state s)(t := S_READY))
    \<and> (\<exists>s'. wchan_wakeall wc s = Some s' \<and> on_list s' (Wchan wc) []
          \<and> runqueues s' (\<lambda>c. rq c @ filter (\<lambda>t. t_cpu s t = c) ts)
          \<and> t_state s' = (\<lambda>t. if t \<in> set ts then S_READY else t_state s t)
          \<and> (\<forall>l us. on_list s l us \<and> l \<noteq> Wchan wc \<and> l \<noteq> Local 0 \<and> (\<forall>c. l \<noteq> Runqueue c) \<longrightarrow> on_list s' l us))"
proof
  have len: "length (rq c) < 4294967295" for c using assms(4) by (meson add_lessD1)
  show "case ts of [] \<Rightarrow> wchan_wakeone wc s = Some s
      | t # ts' \<Rightarrow> \<exists>s'. wchan_wakeone wc s = Some s' \<and> on_list s' (Wchan wc) ts'
          \<and> runqueues s' (rq(t_cpu s t := rq (t_cpu s t) @ [t])) \<and> t_state s' = (t_state s)(t := S_READY)"
    using wakeone_spec [OF assms(1,2) _ len] assms(3) by (cases ts) (simp, fastforce)
  show "\<exists>s'. wchan_wakeall wc s = Some s' \<and> on_list s' (Wchan wc) []
          \<and> runqueues s' (\<lambda>c. rq c @ filter (\<lambda>t. t_cpu s t = c) ts)
          \<and> t_state s' = (\<lambda>t. if t \<in> set ts then S_READY else t_state s t)
          \<and> (\<forall>l us. on_list s l us \<and> l \<noteq> Wchan wc \<and> l \<noteq> Local 0 \<and> (\<forall>c. l \<noteq> Runqueue c) \<longrightarrow> on_list s' l us)"
    using wakeall_spec [OF assms(1,2)] assms(3,4) by blast
qed

lemma wchan_wakes_fifo_witness:
  "\<exists>s'. wchan_wakeall 5 sleepy_machine = Some s' \<and> on_list s' (Wchan 5) []
     \<and> on_list s' (Runqueue 2) [23, 20, 22] \<and> on_list s' (Runqueue 3) [21]"
proof -
  have cpu: "t_cpu sleepy_machine = (\<lambda>t. if t = 21 then 3 else 2)"
    by (simp add: sleepy_machine_ok(5)) (simp add: idle_machine_def)
  have "\<exists>s'. wchan_wakeall 5 sleepy_machine = Some s' \<and> on_list s' (Wchan 5) []
    \<and> runqueues s' (\<lambda>c. ((\<lambda>_. [])(2 := [23])) c @ filter (\<lambda>t. t_cpu sleepy_machine t = c) [20, 21, 22])"
  proof -
    have "\<forall>t\<in>set [20, 21, 22]. t_cpu sleepy_machine t \<noteq> 0"
      "\<forall>c. length (((\<lambda>_. [])(2 := [23 :: nat])) c) + length [20, 21, 22 :: nat] < 4294967295"
      by (simp_all add: cpu)
    from wchan_wakes_fifo [OF sleepy_machine_ok(2,1) this] show ?thesis by blast
  qed
  then obtain s' where s': "wchan_wakeall 5 sleepy_machine = Some s'" "on_list s' (Wchan 5) []"
    and q: "runqueues s' (\<lambda>c. ((\<lambda>_. [])(2 := [23])) c @ filter (\<lambda>t. t_cpu sleepy_machine t = c) [20, 21, 22])" by blast
  show ?thesis using s' runqueuesD [OF q, of 2] runqueuesD [OF q, of 3] by (simp add: cpu)
qed

text \<open>
  \<open>thread_yield\<close> is round robin: with threads waiting, the first of the run queue becomes
  current and running, the old thread is ready at the end of the queue, and the dead threads of the
  CPU have been disposed of; with an empty run queue the call returns at once.
\<close>

theorem thread_yield_round_robin:
  assumes "running s" and "runqueues s rq" and "length (rq (curcpu s)) < 4294967295"
    and "on_list s (Zombies (curcpu s)) zs" and "reapable s zs"
  shows "case rq (curcpu s) of
      [] \<Rightarrow> thread_yield s = Some s
    | t # ts \<Rightarrow> \<exists>s'. thread_yield s = Some s' \<and> runqueues s' (rq(curcpu s := ts @ [curthread s])) \<and> curthread s' = t
        \<and> curcpu s' = curcpu s \<and> \<not> c_isidle s' (curcpu s)
        \<and> t_state s' = (t_state s)(curthread s := S_READY, t := S_RUN) \<and> on_list s' (Zombies (curcpu s)) []
        \<and> (\<forall>l us. on_list s l us \<and> l \<noteq> Zombies (curcpu s) \<and> (\<forall>c. l \<noteq> Runqueue c) \<longrightarrow> on_list s' l us)"
proof (cases "rq (curcpu s)")
  case Nil
  have "threadlist_isempty (Runqueue (curcpu s)) s"
    using on_list_count [OF runqueuesD [OF assms(2), of "curcpu s"]] Nil by (simp add: threadlist_isempty_def)
  with Nil assms(1) show ?thesis by (simp add: thread_yield_def thread_switch_def Let_def running_def)
next
  case (Cons t ts)
  then show ?thesis using yield_spec [OF assms(1,2) Cons assms(3-5)] by simp
qed

lemma thread_yield_round_robin_witness:
  "\<exists>s'. thread_yield sleepy_machine = Some s' \<and> curthread s' = 23 \<and> on_list s' (Runqueue 2) [10]
     \<and> on_list s' (Wchan 5) [20, 21, 22] \<and> t_state s' 10 = S_READY \<and> t_state s' 23 = S_RUN"
proof -
  have run: "running sleepy_machine"
    by (simp add: running_def sleepy_machine_rest sleepy_machine_ok thread_checkstack_def idle_machine_def)
  have z: "on_list sleepy_machine (Zombies (curcpu sleepy_machine)) []" "reapable sleepy_machine []"
    using sleepy_machine_ok(4) by (simp_all add: sleepy_machine_rest reapable_def)
  have q: "((\<lambda>_. [])(2 := [23])) (curcpu sleepy_machine) = [23]" by (simp add: sleepy_machine_rest)
  have len: "length (((\<lambda>_. [])(2 := [23])) (curcpu sleepy_machine)) < 4294967295" by (simp add: q)
  from thread_yield_round_robin [OF run sleepy_machine_ok(2) len z, unfolded q] obtain s'
    where s': "thread_yield sleepy_machine = Some s'" "curthread s' = 23"
      and qs: "runqueues s' ((\<lambda>_. [])(2 := [23], curcpu sleepy_machine := [] @ [curthread sleepy_machine]))"
      and st: "t_state s' = (t_state sleepy_machine)(curthread sleepy_machine := S_READY, 23 := S_RUN)"
      and k: "\<forall>l us. on_list sleepy_machine l us \<and> l \<noteq> Zombies (curcpu sleepy_machine) \<and> (\<forall>c. l \<noteq> Runqueue c) \<longrightarrow> on_list s' l us"
    by auto
  show ?thesis
    using s' k sleepy_machine_ok(1) runqueuesD [OF qs, of 2] st by (auto simp: sleepy_machine_rest)
qed

text \<open>
  C17: \<open>thread_consider_migration\<close> always returns and loses no thread: the threads in the run
  queues of all CPUs are the same before and after, each is assigned to the CPU whose queue it is
  in, the current thread is not moved, no other CPU is loaded beyond the average share (rounded up)
  unless it already was, and this CPU does not fall below the share by sending.
\<close>

theorem migration_conserves_threads:
  assumes "runqueues s rq" and "homed s rq" and "distinct (allcpus s)" and "curcpu s \<in> set (allcpus s)"
    and "(\<Sum>c\<leftarrow>allcpus s. length (rq c)) + length (allcpus s) < 4294967295"
    and "\<forall>c. c \<notin> set (allcpus s) \<longrightarrow> rq c = []"
    and "share = ((\<Sum>c\<leftarrow>allcpus s. length (rq c)) + length (allcpus s) - 1) div length (allcpus s)"
  shows "\<exists>s' rq'. thread_consider_migration s = Some s' \<and> runqueues s' rq' \<and> homed s' rq'
    \<and> (\<Sum>c\<in>set (allcpus s). mset (rq' c)) = (\<Sum>c\<in>set (allcpus s). mset (rq c))
    \<and> t_state s' = t_state s \<and> t_cpu s' (curthread s) = t_cpu s (curthread s)
    \<and> (\<forall>c. length (rq' c) \<le> max (length (rq c)) share)
    \<and> min share (length (rq (curcpu s))) \<le> length (rq' (curcpu s))"
  unfolding assms(7) by (rule migration_spec) (use assms in auto)

definition busy_machine :: threads where
  "busy_machine = the (wchan_wakeall 5 (sleepy_machine\<lparr>t_cpu := \<lambda>_. 2\<rparr>))"

lemma migration_conserves_threads_witness:
  "\<exists>s' rq'. thread_consider_migration busy_machine = Some s' \<and> runqueues s' rq'
     \<and> mset (rq' 2) + mset (rq' 3) = mset [20, 21, 22, 23] \<and> 2 \<le> length (rq' 2) \<and> length (rq' 3) \<le> 2"
proof -
  let ?s = "sleepy_machine\<lparr>t_cpu := \<lambda>_. 2\<rparr>" and ?q = "(\<lambda>_. [])(2 := [23 :: nat])"
  let ?rq = "(\<lambda>_. [])(2 := [23, 20, 21, 22 :: nat])"
  have "runqueues ?s ?q" "on_list ?s (Wchan 5) [20, 21, 22]" "\<And>t. t \<in> set [20, 21, 22] \<Longrightarrow> t_cpu ?s t \<noteq> 0"
    "\<And>c. length (?q c) + length [20, 21, 22 :: nat] < 4294967295"
    using sleepy_machine_ok(1,2) by simp_all
  from wakeall_spec [OF this] obtain b where b: "wchan_wakeall 5 ?s = Some b"
    "runqueues b (\<lambda>c. ?q c @ filter (\<lambda>t. t_cpu ?s t = c) [20, 21, 22])" "t_cpu b = t_cpu ?s"
    "same_rest (threadlist_init (Local 0) ?s) b" by blast
  have "(\<lambda>c. ?q c @ filter (\<lambda>t. t_cpu ?s t = c) [20, 21, 22]) = ?rq" by (auto simp: fun_eq_iff)
  with b(2) have q: "runqueues b ?rq" by (simp only:)
  have cpus: "allcpus b = [2, 3]" "curcpu b = 2"
    using same_restD [OF b(4)] by (simp_all add: init_same sleepy_machine_rest)
  have h: "homed b ?rq" using b(3) by (simp add: homed_def)
  have pre: "distinct (allcpus b)" "curcpu b \<in> set (allcpus b)"
    "(\<Sum>c\<leftarrow>allcpus b. length (?rq c)) + length (allcpus b) < 4294967295" "\<forall>c. c \<notin> set (allcpus b) \<longrightarrow> ?rq c = []"
    "2 = ((\<Sum>c\<leftarrow>allcpus b. length (?rq c)) + length (allcpus b) - 1) div length (allcpus b)"
    by (simp_all add: cpus) presburger
  from migration_conserves_threads [OF q h pre] obtain s' rq' where r: "thread_consider_migration b = Some s'" "runqueues s' rq'"
    "(\<Sum>c\<in>set (allcpus b). mset (rq' c)) = (\<Sum>c\<in>set (allcpus b). mset (?rq c))"
    "\<forall>c. length (rq' c) \<le> max (length (?rq c)) 2" "min 2 (length (?rq (curcpu b))) \<le> length (rq' (curcpu b))" by blast
  have "mset (rq' 2) + mset (rq' 3) = mset [20, 21, 22, 23]" using r(3) by (simp add: cpus add_mset_commute)
  moreover have "2 \<le> length (rq' 2)" "length (rq' 3) \<le> 2" using r(4) [rule_format, of 3] r(5) by (simp_all add: cpus)
  ultimately show ?thesis using r(1,2) b(1) by (auto simp: busy_machine_def)
qed

text \<open>
  dead threads are disposed of exactly once: \<open>exorcise\<close> returns with the zombie list of the CPU
  empty and the structures and stacks of exactly these threads freed, and no other queue changes.
\<close>

theorem exorcise_frees_zombies:
  assumes "on_list s (Zombies (curcpu s)) zs" and "reapable s zs"
  shows "\<exists>s'. exorcise s = Some s' \<and> on_list s' (Zombies (curcpu s)) []
    \<and> live s' = live s - (set zs \<union> (t_stack s ` set zs - {0})) \<and> t_state s' = t_state s
    \<and> (\<forall>l us. on_list s l us \<and> l \<noteq> Zombies (curcpu s) \<longrightarrow> on_list s' l us)"
proof -
  have "distinct zs" using assms(1) by (simp add: on_list_def)
  from exorcise_spec [OF assms this] show ?thesis by blast
qed

definition grave_machine :: threads where
  "grave_machine = the (threadlist_addtail (Zombies 2) 24 (sleepy_machine\<lparr>t_state := \<lambda>_. S_ZOMBIE\<rparr>))"

lemma exorcise_frees_zombies_witness:
  "\<exists>s'. exorcise grave_machine = Some s' \<and> live s' = {10..30} - {24} \<and> on_list s' (Zombies 2) []"
proof -
  let ?s = "sleepy_machine\<lparr>t_state := \<lambda>_. S_ZOMBIE\<rparr>"
  have o: "on_list ?s (Zombies 2) []" and d: "detached ?s 24" using sleepy_machine_ok(3,4) by simp_all
  obtain g where g: "threadlist_addtail (Zombies 2) 24 ?s = Some g" "on_list g (Zombies 2) ([] @ [24])"
    and r: "same_rest ?s g" "t_state g = t_state ?s"
    by (rule addtail_kept [OF o d]) (simp, rule that)
  have g': "curcpu g = 2" "c_curthread g 2 = 10" "t_stack g 24 = 0" "t_proc g 24 = 0" "live g = {10..30}"
    using same_restD [OF r(1)] same_restD [OF sleepy_machine_ok(7)]
    by (simp_all add: all_empty_def idle_machine_def)
  have "on_list g (Zombies (curcpu g)) [24]" "reapable g [24]" using g(2) g' r(2) by (simp_all add: reapable_def)
  from exorcise_frees_zombies [OF this] g' have "\<exists>s'. exorcise g = Some s' \<and> live s' = {10..30} - {24} \<and> on_list s' (Zombies 2) []"
    by auto
  then show ?thesis using g(1) by (simp add: grave_machine_def)
qed

text \<open>
  a broadcast interrupt reaches every other CPU and only those, and the handler of a CPU that is
  neither panicked nor taken offline passes each queued TLB shootdown on once, in order, and leaves
  nothing pending.
\<close>

theorem ipi_delivery:
  assumes "code < 32" and "distinct (allcpus s)"
  shows "(\<exists>s'. ipi_broadcast code s = Some s'
      \<and> (\<forall>c. bit (c_ipi_pending s' c) code \<longleftrightarrow> (c \<in> set (allcpus s) \<and> c \<noteq> curcpu s) \<or> bit (c_ipi_pending s c) code)
      \<and> (\<forall>c k. k \<noteq> code \<longrightarrow> bit (c_ipi_pending s' c) k = bit (c_ipi_pending s c) k))
    \<and> (length (c_shootdown s (curcpu s)) < TLBSHOOTDOWN_MAX \<and> \<not> bit (c_ipi_pending s (curcpu s)) IPI_PANIC
        \<and> \<not> bit (c_ipi_pending s (curcpu s)) IPI_OFFLINE \<longrightarrow>
      (\<exists>s1 s2. ipi_tlbshootdown (curcpu s) m s = Some s1
        \<and> interprocessor_interrupt s1 = Some (c_shootdown s (curcpu s) @ [m], s2)
        \<and> c_shootdown s2 (curcpu s) = [] \<and> c_ipi_pending s2 (curcpu s) = 0))"
proof (intro conjI impI)
  show "\<exists>s'. ipi_broadcast code s = Some s'
      \<and> (\<forall>c. bit (c_ipi_pending s' c) code \<longleftrightarrow> (c \<in> set (allcpus s) \<and> c \<noteq> curcpu s) \<or> bit (c_ipi_pending s c) code)
      \<and> (\<forall>c k. k \<noteq> code \<longrightarrow> bit (c_ipi_pending s' c) k = bit (c_ipi_pending s c) k)"
    using assms by (auto simp: ipi_broadcast_def ipi_send_all_eq bit_simps)
next
  assume "length (c_shootdown s (curcpu s)) < TLBSHOOTDOWN_MAX \<and> \<not> bit (c_ipi_pending s (curcpu s)) IPI_PANIC
      \<and> \<not> bit (c_ipi_pending s (curcpu s)) IPI_OFFLINE"
  then show "\<exists>s1 s2. ipi_tlbshootdown (curcpu s) m s = Some s1
        \<and> interprocessor_interrupt s1 = Some (c_shootdown s (curcpu s) @ [m], s2)
        \<and> c_shootdown s2 (curcpu s) = [] \<and> c_ipi_pending s2 (curcpu s) = 0"
    by (simp add: ipi_tlbshootdown_def interprocessor_interrupt_def Let_def bit_simps
        IPI_PANIC_def IPI_OFFLINE_def IPI_TLBSHOOTDOWN_def)
qed

lemma ipi_delivery_witness:
  "\<exists>s'. ipi_broadcast IPI_OFFLINE idle_machine = Some s' \<and> bit (c_ipi_pending s' 3) 1 \<and> \<not> bit (c_ipi_pending s' 2) 1"
proof -
  have "IPI_OFFLINE < 32" "distinct (allcpus idle_machine)" by (simp_all add: IPI_OFFLINE_def idle_machine_def)
  from ipi_delivery [OF this] obtain s' where "ipi_broadcast IPI_OFFLINE idle_machine = Some s'"
    "\<forall>c. bit (c_ipi_pending s' c) IPI_OFFLINE \<longleftrightarrow> (c \<in> set (allcpus idle_machine) \<and> c \<noteq> curcpu idle_machine)
       \<or> bit (c_ipi_pending idle_machine c) IPI_OFFLINE" by blast
  then show ?thesis by (intro exI [of _ s']) (simp add: IPI_OFFLINE_def idle_machine_def)
qed

end
