(* ===== verification/Synch.thy ===== *)
theory Synch
  imports Threads
begin

text \<open>
  Semaphores, locks and condition variables of \<open>kern/thread/synch.c\<close>.  Each operation holds the
  spinlock of its object while it works, and \<open>wchan_sleep\<close> gives the spinlock up only when the
  thread is on the wait channel, so the code between two sleeps is one step.  An operation that may
  sleep returns a flag: \<open>True\<close> when it has returned to its caller, \<open>False\<close> when the thread is
  asleep in it; when the thread runs again it repeats the round of the \<open>while\<close> loop.

  The operations are composed into a step relation over all threads and CPUs, for which mutual
  exclusion, the absence of lost wakeups and the conservation of semaphore counts are invariants.
  The \<open>HANGMAN\<close> hooks expand to nothing in the kernel configurations of the repository; the
  deadlock detector is modelled in \<open>Hangman\<close>.
\<close>

section \<open>Operations\<close>

record sync = threads +
  sem_name :: "addr \<Rightarrow> addr"
  sem_wchan :: "addr \<Rightarrow> addr"
  sem_count :: "addr \<Rightarrow> nat"
  lk_name :: "addr \<Rightarrow> addr"
  lk_wchan :: "addr \<Rightarrow> addr"
  lk_holder :: "addr \<Rightarrow> thread"      \<comment> \<open>0 is NULL\<close>
  lk_available :: "addr \<Rightarrow> bool"
  cv_name :: "addr \<Rightarrow> addr"
  cv_wchan :: "addr \<Rightarrow> addr"

text \<open>The copy of a string; its contents are not modelled here.\<close>

definition kstrdup :: "'a kmem_scheme \<Rightarrow> addr \<times> 'a kmem_scheme" where
  "kstrdup s = kmalloc s"

subsection \<open>Semaphores\<close>

definition sem_create :: "nat \<Rightarrow> 'a sync_scheme \<Rightarrow> (addr \<times> 'a sync_scheme) option" where
  "sem_create initial_count s = do {
     let (sem, s) = kmalloc s;
     if sem = 0 then Some (0, s)
     else do {
       let (name, s) = kstrdup s;
       if name = 0 then do { s \<leftarrow> kfree sem s; Some (0, s) }
       else do {
         let s = s\<lparr>sem_name := (sem_name s)(sem := name)\<rparr>;
         let (wc, s) = wchan_create s;
         if wc = 0 then do { s \<leftarrow> kfree name s; s \<leftarrow> kfree sem s; Some (0, s) }
         else Some (sem, s\<lparr>sem_wchan := (sem_wchan s)(sem := wc),
                           sem_count := (sem_count s)(sem := initial_count)\<rparr>) } } }"

definition sem_destroy :: "addr \<Rightarrow> 'a sync_scheme \<Rightarrow> 'a sync_scheme option" where
  "sem_destroy sem s = do {
     kassert (sem \<noteq> 0);
     s \<leftarrow> wchan_destroy (sem_wchan s sem) s;
     s \<leftarrow> kfree (sem_name s sem) s;
     kfree sem s }"

text \<open>One round of the loop of \<open>P\<close>: take a unit, or sleep.\<close>

definition P_round :: "addr \<Rightarrow> 'a sync_scheme \<Rightarrow> (bool \<times> 'a sync_scheme) option" where
  "P_round sem s =
     (if sem_count s sem = 0 then do { s \<leftarrow> wchan_sleep (sem_wchan s sem) s; Some (False, s) }
      else Some (True, s\<lparr>sem_count := (sem_count s)(sem := sem_count s sem - 1)\<rparr>))"

definition P :: "addr \<Rightarrow> 'a sync_scheme \<Rightarrow> (bool \<times> 'a sync_scheme) option" where
  "P sem s = do {
     kassert (sem \<noteq> 0);
     kassert (\<not> t_in_interrupt s (curthread s));
     P_round sem s }"

text \<open>The count is an \<open>unsigned\<close>; the assertion catches its wrap-around.\<close>

definition V :: "addr \<Rightarrow> 'a sync_scheme \<Rightarrow> 'a sync_scheme option" where
  "V sem s = do {
     kassert (sem \<noteq> 0);
     let s = s\<lparr>sem_count := (sem_count s)(sem := u32 (sem_count s sem + 1))\<rparr>;
     kassert (sem_count s sem > 0);
     wchan_wakeone (sem_wchan s sem) s }"

subsection \<open>Locks\<close>

definition lock_create :: "'a sync_scheme \<Rightarrow> (addr \<times> 'a sync_scheme) option" where
  "lock_create s = do {
     let (lock, s) = kmalloc s;
     if lock = 0 then Some (0, s)
     else do {
       let (name, s) = kstrdup s;
       if name = 0 then do { s \<leftarrow> kfree lock s; Some (0, s) }
       else do {
         let s = s\<lparr>lk_name := (lk_name s)(lock := name), lk_available := (lk_available s)(lock := True),
                   lk_holder := (lk_holder s)(lock := 0)\<rparr>;
         let (wc, s) = wchan_create s;
         if wc = 0 then do { s \<leftarrow> kfree name s; s \<leftarrow> kfree lock s; Some (0, s) }
         else Some (lock, s\<lparr>lk_wchan := (lk_wchan s)(lock := wc)\<rparr>) } } }"

definition lock_destroy :: "addr \<Rightarrow> 'a sync_scheme \<Rightarrow> 'a sync_scheme option" where
  "lock_destroy lock s = do {
     kassert (lock \<noteq> 0);
     kassert (lk_available s lock);
     kassert (lk_holder s lock = 0);
     s \<leftarrow> wchan_destroy (lk_wchan s lock) s;
     s \<leftarrow> kfree (lk_name s lock) s;
     kfree lock s }"

definition lock_do_i_hold :: "addr \<Rightarrow> 'a sync_scheme \<Rightarrow> bool option" where
  "lock_do_i_hold lock s = do { kassert (lock \<noteq> 0); Some (lk_holder s lock = curthread s) }"

definition lock_round :: "addr \<Rightarrow> 'a sync_scheme \<Rightarrow> (bool \<times> 'a sync_scheme) option" where
  "lock_round lock s =
     (if \<not> lk_available s lock then do { s \<leftarrow> wchan_sleep (lk_wchan s lock) s; Some (False, s) }
      else Some (True, s\<lparr>lk_available := (lk_available s)(lock := False),
                         lk_holder := (lk_holder s)(lock := curthread s)\<rparr>))"

definition lock_acquire :: "addr \<Rightarrow> 'a sync_scheme \<Rightarrow> (bool \<times> 'a sync_scheme) option" where
  "lock_acquire lock s = do {
     kassert (lock \<noteq> 0);
     kassert (\<not> t_in_interrupt s (curthread s));
     held \<leftarrow> lock_do_i_hold lock s;
     kassert (\<not> held);
     lock_round lock s }"

definition lock_release :: "addr \<Rightarrow> 'a sync_scheme \<Rightarrow> 'a sync_scheme option" where
  "lock_release lock s = do {
     kassert (lock \<noteq> 0);
     kassert (lk_holder s lock = curthread s);
     let s = s\<lparr>lk_available := (lk_available s)(lock := True), lk_holder := (lk_holder s)(lock := 0)\<rparr>;
     wchan_wakeone (lk_wchan s lock) s }"

subsection \<open>Condition variables\<close>

definition cv_create :: "bool \<Rightarrow> 'a sync_scheme \<Rightarrow> (addr \<times> 'a sync_scheme) option" where
  "cv_create name_given s =
     (if \<not> name_given then Some (0, s)
      else do {
        let (cv, s) = kmalloc s;
        if cv = 0 then Some (0, s)
        else do {
          let (name, s) = kstrdup s;
          if name = 0 then do { s \<leftarrow> kfree cv s; Some (0, s) }
          else do {
            let s = s\<lparr>cv_name := (cv_name s)(cv := name)\<rparr>;
            let (wc, s) = wchan_create s;
            if wc = 0 then do { s \<leftarrow> kfree wc s; s \<leftarrow> kfree name s; s \<leftarrow> kfree cv s; Some (0, s) }
            else Some (cv, s\<lparr>cv_wchan := (cv_wchan s)(cv := wc)\<rparr>) } } })"

definition cv_destroy :: "addr \<Rightarrow> 'a sync_scheme \<Rightarrow> 'a sync_scheme option" where
  "cv_destroy cv s = do {
     kassert (cv \<noteq> 0);
     s \<leftarrow> wchan_destroy (cv_wchan s cv) s;
     s \<leftarrow> kfree (cv_name s cv) s;
     kfree cv s }"

text \<open>
  \<open>cv_wait\<close> until the thread sleeps.  The spinlock of the condition variable is held from before
  the lock is released until the thread is on the channel, so no signal can come between.  When the
  thread runs again it goes on with \<open>lock_acquire\<close>.
\<close>

definition cv_wait :: "addr \<Rightarrow> addr \<Rightarrow> 'a sync_scheme \<Rightarrow> 'a sync_scheme option" where
  "cv_wait cv lock s = do {
     kassert (cv \<noteq> 0);
     kassert (lock \<noteq> 0);
     held \<leftarrow> lock_do_i_hold lock s;
     kassert held;
     s \<leftarrow> lock_release lock s;
     wchan_sleep (cv_wchan s cv) s }"

definition cv_signal :: "addr \<Rightarrow> addr \<Rightarrow> 'a sync_scheme \<Rightarrow> 'a sync_scheme option" where
  "cv_signal cv lock s = do {
     kassert (cv \<noteq> 0);
     kassert (lock \<noteq> 0);
     held \<leftarrow> lock_do_i_hold lock s;
     kassert held;
     wchan_wakeone (cv_wchan s cv) s }"

definition cv_broadcast :: "addr \<Rightarrow> addr \<Rightarrow> 'a sync_scheme \<Rightarrow> 'a sync_scheme option" where
  "cv_broadcast cv lock s = do {
     kassert (cv \<noteq> 0);
     kassert (lock \<noteq> 0);
     held \<leftarrow> lock_do_i_hold lock s;
     kassert held;
     wchan_wakeall (cv_wchan s cv) s }"

section \<open>All queues of the machine\<close>

definition queues :: "'a threads_scheme \<Rightarrow> (tlist \<Rightarrow> thread list) \<Rightarrow> bool" where
  "queues s L \<longleftrightarrow> (\<forall>l. on_list s l (L l))"

lemma queuesD: "queues s L \<Longrightarrow> on_list s l (L l)"
  by (simp add: queues_def)

text \<open>
  The invariant of the scheduler, over the threads \<open>T\<close>: every queue is intact, threads are queued on
  their own CPU, and a running thread is on no queue.
\<close>

definition sched_ok :: "'a threads_scheme \<Rightarrow> thread set \<Rightarrow> (tlist \<Rightarrow> thread list) \<Rightarrow> bool" where
  "sched_ok s T L \<longleftrightarrow> queues s L \<and> finite T \<and> card T < 4294967295 \<and> 0 \<notin> T
     \<and> (\<forall>l. set (L l) \<subseteq> T) \<and> (\<forall>c. L (Zombies c) = [])
     \<and> (\<forall>t\<in>T. t_cpu s t \<in> set (allcpus s) \<and> thread_checkstack t s = Some () \<and> \<not> t_in_interrupt s t)
     \<and> 0 \<notin> set (allcpus s) \<and> curcpu s \<in> set (allcpus s)
     \<and> (\<forall>c. \<forall>t\<in>set (L (Runqueue c)). t_cpu s t = c)
     \<and> (\<forall>c\<in>set (allcpus s). \<not> c_isidle s c \<longrightarrow>
          c_curthread s c \<in> T \<and> t_cpu s (c_curthread s c) = c \<and> detached s (c_curthread s c))"

text \<open>What the scheduler never changes.\<close>

definition same_env :: "'a threads_scheme \<Rightarrow> 'a threads_scheme \<Rightarrow> bool" where
  "same_env s s' \<longleftrightarrow> t_cpu s' = t_cpu s \<and> allcpus s' = allcpus s \<and> curcpu s' = curcpu s \<and> t_stack s' = t_stack s
     \<and> t_in_interrupt s' = t_in_interrupt s \<and> stackmem s' = stackmem s \<and> threads.more s' = threads.more s"

lemma same_env_refl [simp]: "same_env s s"
  by (simp add: same_env_def)

lemma same_env_trans: "same_env s s1 \<Longrightarrow> same_env s1 s2 \<Longrightarrow> same_env s s2"
  by (simp add: same_env_def)

lemma same_rest_env: "same_rest s s' \<Longrightarrow> t_cpu s' = t_cpu s \<Longrightarrow> same_env s s'"
  by (simp add: same_rest_def same_env_def)

lemma checkstack_env: "same_env s s' \<Longrightarrow> thread_checkstack t s' = thread_checkstack t s"
  by (simp add: same_env_def thread_checkstack_def)

lemma sched_cong:
  assumes "tln_prev s' = tln_prev s" "tln_next s' = tln_next s" "tln_self s' = tln_self s" "tl_count s' = tl_count s"
    and "t_cpu s' = t_cpu s" "allcpus s' = allcpus s" "curcpu s' = curcpu s" "t_stack s' = t_stack s" "t_in_interrupt s' = t_in_interrupt s"
    "stackmem s' = stackmem s" "c_isidle s' = c_isidle s" "c_curthread s' = c_curthread s"
  shows "sched_ok s' T L = sched_ok s T L"
proof -
  have "queues s' L = queues s L" using on_list_cong [OF assms(1-4)] by (simp add: queues_def)
  moreover have "detached s' t = detached s t" "thread_checkstack t s' = thread_checkstack t s" for t
    using assms by (simp_all add: detached_def thread_checkstack_def)
  ultimately show ?thesis unfolding sched_ok_def using assms by simp
qed

lemma sched_len: "sched_ok s T L \<Longrightarrow> length (L l) \<le> card T"
  using distinct_card [of "L l"] card_mono [of T "set (L l)"] queuesD [of s L l]
  by (simp add: sched_ok_def on_list_def)

lemma sched_len_room: "sched_ok s T L \<Longrightarrow> t \<in> T \<Longrightarrow> t \<notin> set (L l) \<Longrightarrow> length (L l) < 4294967295"
  using sched_len [of s T L l] by (simp add: sched_ok_def)

lemma running_thread:
  assumes "sched_ok s T L" and "\<not> c_isidle s (curcpu s)"
  shows "curthread s \<in> T" "t_cpu s (curthread s) = curcpu s" "detached s (curthread s)" "curcpu s \<noteq> 0"
    "thread_checkstack (curthread s) s = Some ()" "\<not> t_in_interrupt s (curthread s)" "curthread s \<noteq> 0"
proof -
  show *: "curthread s \<in> T" "t_cpu s (curthread s) = curcpu s" "detached s (curthread s)"
    using assms by (auto simp: sched_ok_def)
  show "thread_checkstack (curthread s) s = Some ()" "\<not> t_in_interrupt s (curthread s)"
    using *(1) assms(1) by (simp_all add: sched_ok_def)
  have "curcpu s \<in> set (allcpus s)" "0 \<notin> set (allcpus s)" "0 \<notin> T" using assms(1) by (simp_all add: sched_ok_def)
  then show "curcpu s \<noteq> 0" "curthread s \<noteq> 0" using *(1) by metis+
qed

lemma running_notin:
  assumes "sched_ok s T L" and "c \<in> set (allcpus s)" and "\<not> c_isidle s c"
  shows "c_curthread s c \<notin> set (L l)"
proof -
  have "detached s (c_curthread s c)" and "on_list s l (L l)" using assms by (auto simp: sched_ok_def queues_def)
  then show ?thesis by (metis detached_notin)
qed

text \<open>The parts of the invariant that an operation can break.\<close>

lemma sched_okI:
  assumes ok: "sched_ok s T L" and env: "same_env s s'" and q: "queues s' L'"
    and sub: "\<And>l. set (L' l) \<subseteq> T" and z: "\<And>c. L' (Zombies c) = []"
    and home: "\<And>c t. t \<in> set (L' (Runqueue c)) \<Longrightarrow> t_cpu s t = c"
    and run: "\<And>c. c \<in> set (allcpus s) \<Longrightarrow> \<not> c_isidle s' c \<Longrightarrow>
      c_curthread s' c \<in> T \<and> t_cpu s (c_curthread s' c) = c \<and> detached s' (c_curthread s' c)"
  shows "sched_ok s' T L'"
proof -
  have e: "t_cpu s' = t_cpu s" "allcpus s' = allcpus s" "curcpu s' = curcpu s" "t_in_interrupt s' = t_in_interrupt s"
    using env by (simp_all add: same_env_def)
  show ?thesis
    unfolding sched_ok_def e checkstack_env [OF env]
    using ok q sub z home run by (simp add: sched_ok_def)
qed

subsection \<open>Waking\<close>

text \<open>One thread is moved from a wait channel to the run queue of its CPU.\<close>

definition woken :: "(thread \<Rightarrow> cpu) \<Rightarrow> addr \<Rightarrow> (tlist \<Rightarrow> thread list) \<Rightarrow> (tlist \<Rightarrow> thread list)" where
  "woken cpu wc L = (case L (Wchan wc) of [] \<Rightarrow> L
     | t # ts \<Rightarrow> L(Wchan wc := ts, Runqueue (cpu t) := L (Runqueue (cpu t)) @ [t]))"

lemma make_runnable_sched:
  assumes ok: "sched_ok s T L" and d: "detached s t" and t: "t \<in> T"
    and nr: "\<And>c. c \<in> set (allcpus s) \<Longrightarrow> \<not> c_isidle s c \<Longrightarrow> c_curthread s c \<noteq> t"
  obtains s' where "thread_make_runnable t s = Some s'"
    "sched_ok s' T (L(Runqueue (t_cpu s t) := L (Runqueue (t_cpu s t)) @ [t]))"
    "same_env s s'" "c_curthread s' = c_curthread s" "c_isidle s' = c_isidle s"
proof -
  let ?c = "t_cpu s t" and ?L = "L(Runqueue (t_cpu s t) := L (Runqueue (t_cpu s t)) @ [t])"
  have q: "queues s L" using ok by (simp add: sched_ok_def)
  have nin: "t \<notin> set (L l)" for l using detached_notin [OF queuesD [OF q] d] .
  have rq: "runqueues s (\<lambda>c. L (Runqueue c))" using q by (simp add: runqueues_def queues_def)
  have len: "length (L (Runqueue ?c)) < 4294967295" using sched_len_room [OF ok t nin] .
  have "?c \<in> set (allcpus s)" "0 \<notin> set (allcpus s)" using ok t by (simp_all add: sched_ok_def)
  then have c0: "?c \<noteq> 0" by metis
  obtain s' where s': "thread_make_runnable t s = Some s'"
    "runqueues s' ((\<lambda>c. L (Runqueue c))(?c := L (Runqueue ?c) @ [t]))"
    "t_state s' = (t_state s)(t := S_READY)" "t_cpu s' = t_cpu s" "same_rest s s'"
    "\<forall>l ts. on_list s l ts \<and> (\<forall>c. l \<noteq> Runqueue c) \<longrightarrow> on_list s' l ts"
    "\<forall>u. detached s u \<and> u \<noteq> t \<longrightarrow> detached s' u"
    by (rule make_runnable_spec [OF rq d len c0]) (rule that)
  have env: "same_env s s'" using s'(4,5) by (intro same_rest_env)
  have r: "c_curthread s' = c_curthread s" "c_isidle s' = c_isidle s" using s'(5) by (simp_all add: same_rest_def)
  have "on_list s' l (?L l)" for l
  proof (cases "\<exists>c. l = Runqueue c")
    case True
    then obtain c where "l = Runqueue c" by blast
    then show ?thesis using runqueuesD [OF s'(2), of c] by auto
  next
    case False
    then show ?thesis using s'(6) queuesD [OF q, of l] by auto
  qed
  then have "queues s' ?L" by (simp add: queues_def)
  then have "sched_ok s' T ?L"
    using ok t nr s'(7) r by (intro sched_okI [OF ok env]) (auto simp: sched_ok_def split: if_splits)
  then show thesis using that s'(1) env r by blast
qed

lemma wakeone_sched:
  assumes ok: "sched_ok s T L"
  obtains s' where "wchan_wakeone wc s = Some s'" "sched_ok s' T (woken (t_cpu s) wc L)"
    "same_env s s'" "c_curthread s' = c_curthread s" "c_isidle s' = c_isidle s"
proof (cases "L (Wchan wc)")
  case Nil
  have "on_list s (Wchan wc) []" using ok Nil by (metis sched_ok_def queuesD)
  then have "wchan_wakeone wc s = Some s" by (simp add: wchan_wakeone_def remhead_empty)
  then show thesis using that ok Nil by (simp add: woken_def)
next
  case (Cons t ts)
  have q: "queues s L" using ok by (simp add: sched_ok_def)
  then have o: "on_list s (Wchan wc) (t # ts)" using Cons by (metis queuesD)
  obtain s1 where s1: "threadlist_remhead (Wchan wc) s = Some (Some t, s1)" "on_list s1 (Wchan wc) ts" "detached s1 t"
    "\<forall>k us. on_list s k us \<and> k \<noteq> Wchan wc \<longrightarrow> on_list s1 k us" "\<forall>u. detached s u \<longrightarrow> detached s1 u"
    and r1: "same_rest s s1" "t_state s1 = t_state s" "t_cpu s1 = t_cpu s" "c_ipi_pending s1 = c_ipi_pending s"
    by (rule remhead_kept [OF o]) (rule that)
  let ?L1 = "L(Wchan wc := ts)"
  have env1: "same_env s s1" using r1 by (intro same_rest_env)
  have r: "c_curthread s1 = c_curthread s" "c_isidle s1 = c_isidle s" "allcpus s1 = allcpus s" using r1(1) by (simp_all add: same_rest_def)
  have "set (L (Wchan wc)) \<subseteq> T" using ok by (simp add: sched_ok_def)
  then have tT: "t \<in> T" and sub: "set ts \<subseteq> T" using Cons by simp_all
  have "queues s1 ?L1" using q s1(2,4) by (simp add: queues_def)
  then have ok1: "sched_ok s1 T ?L1"
    using ok sub s1(5) r by (intro sched_okI [OF ok env1]) (auto simp: sched_ok_def split: if_splits)
  have nr: "c_curthread s1 c \<noteq> t" if "c \<in> set (allcpus s1)" "\<not> c_isidle s1 c" for c
    using running_notin [OF ok, of c "Wchan wc"] that r Cons by auto
  obtain s2 where s2: "thread_make_runnable t s1 = Some s2"
    "sched_ok s2 T (?L1(Runqueue (t_cpu s1 t) := ?L1 (Runqueue (t_cpu s1 t)) @ [t]))"
    "same_env s1 s2" "c_curthread s2 = c_curthread s1" "c_isidle s2 = c_isidle s1"
    by (rule make_runnable_sched [OF ok1 s1(3) tT nr]) (assumption, assumption, rule that)
  have "wchan_wakeone wc s = Some s2" using s1(1) s2(1) by (simp add: wchan_wakeone_def)
  moreover have "sched_ok s2 T (woken (t_cpu s) wc L)" using s2(2) r1(3) Cons by (simp add: woken_def)
  ultimately show thesis using that s2 r same_env_trans [OF env1] by metis
qed

definition woken_all :: "(thread \<Rightarrow> cpu) \<Rightarrow> addr \<Rightarrow> (tlist \<Rightarrow> thread list) \<Rightarrow> (tlist \<Rightarrow> thread list)" where
  "woken_all cpu wc L = (\<lambda>l. case l of
       Runqueue c \<Rightarrow> L l @ filter (\<lambda>t. cpu t = c) (L (Wchan wc))
     | Wchan w \<Rightarrow> if w = wc then [] else L l
     | Local i \<Rightarrow> if i = 0 then [] else L l
     | Zombies c \<Rightarrow> L l)"

lemma wakeall_sched:
  assumes ok: "sched_ok s T L"
  obtains s' where "wchan_wakeall wc s = Some s'" "sched_ok s' T (woken_all (t_cpu s) wc L)"
    "same_env s s'" "c_curthread s' = c_curthread s" "c_isidle s' = c_isidle s" "t_proc s' = t_proc s" "live s' = live s"
proof -
  let ?ts = "L (Wchan wc)"
  have q: "queues s L" and sub: "\<And>l. set (L l) \<subseteq> T" and T: "finite T" "card T < 4294967295"
    and a: "\<forall>t\<in>T. t_cpu s t \<in> set (allcpus s)" "0 \<notin> set (allcpus s)" using ok by (simp_all add: sched_ok_def)
  have rq: "runqueues s (\<lambda>c. L (Runqueue c))" using q by (simp add: runqueues_def queues_def)
  have c0: "t_cpu s t \<noteq> 0" if "t \<in> set ?ts" for t using sub a that by (metis subset_iff)
  have len: "length (L (Runqueue c)) + length ?ts < 4294967295" for c
  proof -
    have "set (L (Runqueue c)) \<inter> set ?ts = {}" using on_list_disjoint [OF queuesD [OF q] queuesD [OF q]] by blast
    then have "length (L (Runqueue c)) + length ?ts = card (set (L (Runqueue c)) \<union> set ?ts)"
      using queuesD [OF q, of "Runqueue c"] queuesD [OF q, of "Wchan wc"]
      by (simp add: card_Un_disjoint distinct_card on_list_def)
    also have "\<dots> \<le> card T" using sub T(1) by (intro card_mono) auto
    finally show ?thesis using T(2) by simp
  qed
  from wakeall_spec [OF rq queuesD [OF q] c0 len] obtain s' where s': "wchan_wakeall wc s = Some s'"
    "on_list s' (Wchan wc) []" "runqueues s' (\<lambda>c. L (Runqueue c) @ filter (\<lambda>t. t_cpu s t = c) ?ts)"
    "t_cpu s' = t_cpu s" "same_rest (threadlist_init (Local 0) s) s'"
    "\<forall>l us. on_list s l us \<and> l \<noteq> Wchan wc \<and> l \<noteq> Local 0 \<and> (\<forall>c. l \<noteq> Runqueue c) \<longrightarrow> on_list s' l us"
    "on_list s' (Local 0) []" "\<forall>u. detached s u \<longrightarrow> detached s' u" by blast
  have env: "same_env s s'"
    using s'(4,5) by (simp add: same_env_def same_rest_def threadlist_init_def node_updates Let_def)
  have r: "c_curthread s' = c_curthread s" "c_isidle s' = c_isidle s" "t_proc s' = t_proc s" "live s' = live s"
    using s'(5) by (simp_all add: same_rest_def init_same)
  have "on_list s' l (woken_all (t_cpu s) wc L l)" for l
    using s'(2,6,7) runqueuesD [OF s'(3)] queuesD [OF q] by (cases l) (auto simp: woken_all_def)
  then have "queues s' (woken_all (t_cpu s) wc L)" by (simp add: queues_def)
  moreover have "set (woken_all (t_cpu s) wc L l) \<subseteq> T" for l
    using sub by (cases l) (auto simp: woken_all_def)
  ultimately have "sched_ok s' T (woken_all (t_cpu s) wc L)"
    using ok s'(8) r by (intro sched_okI [OF ok env]) (auto simp: sched_ok_def woken_all_def)
  then show thesis using that s'(1) env r by blast
qed

subsection \<open>Sleeping and switching\<close>

text \<open>An idle CPU takes the next thread of its run queue, if there is one.\<close>

definition dispatched :: "cpu \<Rightarrow> (tlist \<Rightarrow> thread list) \<Rightarrow> (tlist \<Rightarrow> thread list)" where
  "dispatched c L = L(Runqueue c := tl (L (Runqueue c)))"

lemma idle_round_sched:
  assumes ok: "sched_ok s T L" and idle: "c_isidle s (curcpu s)"
  obtains s' where "idle_round s = Some s'" "sched_ok s' T (dispatched (curcpu s) L)" "same_env s s'"
    "L (Runqueue (curcpu s)) \<noteq> [] \<Longrightarrow> curthread s' = hd (L (Runqueue (curcpu s)))"
    "c_isidle s' (curcpu s) \<longleftrightarrow> L (Runqueue (curcpu s)) = []"
proof (cases "L (Runqueue (curcpu s))")
  case Nil
  have "on_list s (Runqueue (curcpu s)) []" using ok Nil by (metis sched_ok_def queuesD)
  then have "idle_round s = Some s" using idle by (rule idle_round_waits)
  moreover have "dispatched (curcpu s) L = L" using Nil by (auto simp: dispatched_def)
  ultimately show thesis using that ok Nil idle by simp
next
  case (Cons t ts)
  let ?c = "curcpu s" and ?L = "dispatched (curcpu s) L"
  have q: "queues s L" using ok by (simp add: sched_ok_def)
  then have o: "on_list s (Runqueue ?c) (t # ts)" using Cons by (metis queuesD)
  obtain s1 where s1: "threadlist_remhead (Runqueue ?c) s = Some (Some t, s1)" "on_list s1 (Runqueue ?c) ts" "detached s1 t"
    "\<forall>k us. on_list s k us \<and> k \<noteq> Runqueue ?c \<longrightarrow> on_list s1 k us" "\<forall>u. detached s u \<longrightarrow> detached s1 u"
    and r1: "same_rest s s1" "t_state s1 = t_state s" "t_cpu s1 = t_cpu s" "c_ipi_pending s1 = c_ipi_pending s"
    by (rule remhead_kept [OF o]) (rule that)
  have r: "c_curthread s1 = c_curthread s" "c_isidle s1 = c_isidle s" "curcpu s1 = ?c" using r1(1) by (simp_all add: same_rest_def)
  let ?s2 = "s1\<lparr>c_isidle := (c_isidle s)(?c := False), c_curthread := (c_curthread s)(?c := t)\<rparr>"
  let ?s3 = "?s2\<lparr>t_state := (t_state s)(t := S_RUN)\<rparr>"
  have "on_list s (Zombies ?c) []" using ok by (metis sched_ok_def queuesD)
  then have z: "on_list ?s3 (Zombies (curcpu ?s3)) []" using s1(4) r by simp
  then have "exorcise ?s3 = Some ?s3" by (subst exorcise.simps) (simp add: remhead_empty)
  then have i: "idle_round s = Some ?s3"
    using s1(1) r r1(2) by (simp add: idle_round_def pick_next_def switch_in_def Let_def)
  have env: "same_env s ?s3" using same_rest_env [OF r1(1,3)] by (simp add: same_env_def)
  have "queues ?s3 ?L" using q s1(2,4) Cons by (simp add: queues_def dispatched_def)
  moreover have "t \<in> T" "t_cpu s t = ?c" "set ts \<subseteq> T" "\<And>u. u \<in> set ts \<Longrightarrow> t_cpu s u = ?c"
  proof -
    have "set (L (Runqueue ?c)) \<subseteq> T" "\<forall>t\<in>set (L (Runqueue ?c)). t_cpu s t = ?c" using ok by (simp_all add: sched_ok_def)
    then show "t \<in> T" "t_cpu s t = ?c" "set ts \<subseteq> T" "\<And>u. u \<in> set ts \<Longrightarrow> t_cpu s u = ?c" using Cons by simp_all
  qed
  ultimately have "sched_ok ?s3 T ?L"
    using ok s1(3,5) Cons by (intro sched_okI [OF ok env]) (auto simp: sched_ok_def dispatched_def split: if_splits)
  then show thesis using that [OF i] env r Cons by simp
qed

text \<open>
  The current thread gives up its CPU: it is put at the end of the list \<open>l\<close> with its new state, and
  the CPU takes the next thread.
\<close>

definition switched :: "tlist \<Rightarrow> thread \<Rightarrow> cpu \<Rightarrow> (tlist \<Rightarrow> thread list) \<Rightarrow> (tlist \<Rightarrow> thread list)" where
  "switched l t c L = dispatched c (L(l := L l @ [t]))"

lemma sleep_sched:
  assumes ok: "sched_ok s T L" and run: "\<not> c_isidle s (curcpu s)"
  obtains s' where "wchan_sleep wc s = Some s'" "sched_ok s' T (switched (Wchan wc) (curthread s) (curcpu s) L)" "same_env s s'"
proof -
  let ?c = "curcpu s" and ?t = "curthread s" and ?l = "Wchan wc"
  note rt = running_thread [OF ok run]
  have q: "queues s L" using ok by (simp add: sched_ok_def)
  have nin: "?t \<notin> set (L k)" for k using detached_notin [OF queuesD [OF q] rt(3)] .
  have len: "length (L ?l) < 4294967295" using sched_len_room [OF ok rt(1) nin] .
  obtain s1 where s1: "threadlist_addtail ?l ?t s = Some s1" "on_list s1 ?l (L ?l @ [?t])"
    "\<forall>k us. on_list s k us \<and> k \<noteq> ?l \<longrightarrow> on_list s1 k us" "\<forall>u. detached s u \<and> u \<noteq> ?t \<longrightarrow> detached s1 u"
    and r1: "same_rest s s1" "t_state s1 = t_state s" "t_cpu s1 = t_cpu s" "c_ipi_pending s1 = c_ipi_pending s"
    by (rule addtail_kept [OF queuesD [OF q] rt(3) len]) (rule that)
  have r: "c_curthread s1 = c_curthread s" "c_isidle s1 = c_isidle s" "curcpu s1 = ?c" using r1(1) by (simp_all add: same_rest_def)
  let ?s2 = "s1\<lparr>t_state := (t_state s)(?t := S_SLEEP), c_isidle := (c_isidle s)(?c := True)\<rparr>"
  let ?L = "L(?l := L ?l @ [?t])"
  have env: "same_env s ?s2" using same_rest_env [OF r1(1,3)] by (simp add: same_env_def)
  have other: "c_curthread s c \<noteq> ?t" if "c \<in> set (allcpus s)" "\<not> c_isidle s c" "c \<noteq> ?c" for c
    using ok that rt(2) by (auto simp: sched_ok_def)
  have "queues ?s2 ?L" using q s1(2,3) by (simp add: queues_def)
  moreover have "set (?L k) \<subseteq> T" for k using ok rt(1) by (auto simp: sched_ok_def)
  ultimately have ok2: "sched_ok ?s2 T ?L"
    using ok s1(4) r other by (intro sched_okI [OF ok env]) (auto simp: sched_ok_def split: if_splits)
  have idle2: "c_isidle ?s2 (curcpu ?s2)" "curcpu ?s2 = ?c" using r by simp_all
  obtain s3 where s3: "idle_round ?s2 = Some s3" "sched_ok s3 T (dispatched (curcpu ?s2) ?L)" "same_env ?s2 s3"
    by (rule idle_round_sched [OF ok2 idle2(1)]) (rule that)
  have "wchan_sleep wc s = Some s3"
    using s3(1) s1(1) r1(2) r run rt(5,6)
    by (simp add: wchan_sleep_def thread_switch_def queue_current_def Let_def)
  moreover have "sched_ok s3 T (switched ?l ?t ?c L)" using s3(2) idle2(2) by (simp add: switched_def)
  ultimately show thesis using that same_env_trans [OF env s3(3)] by blast
qed

lemma yield_sched:
  assumes ok: "sched_ok s T L" and run: "\<not> c_isidle s (curcpu s)"
  obtains s' L' where "thread_yield s = Some s'" "sched_ok s' T L'" "same_env s s'" "\<And>w. L' (Wchan w) = L (Wchan w)"
proof (cases "L (Runqueue (curcpu s))")
  case Nil
  have "on_list s (Runqueue (curcpu s)) []" using ok Nil by (metis sched_ok_def queuesD)
  then have "threadlist_isempty (Runqueue (curcpu s)) s" by (simp add: threadlist_isempty_def on_list_count)
  then have "thread_yield s = Some s"
    using running_thread [OF ok run] run by (simp add: thread_yield_def thread_switch_def Let_def)
  then show thesis using that ok by simp
next
  case (Cons t ts)
  let ?c = "curcpu s" and ?t = "curthread s"
  note rt = running_thread [OF ok run]
  have q: "queues s L" using ok by (simp add: sched_ok_def)
  have ne: "\<not> threadlist_isempty (Runqueue ?c) s"
    using on_list_count [OF queuesD [OF q, of "Runqueue ?c"]] Cons by (simp add: threadlist_isempty_def)
  have nin: "?t \<notin> set (L k)" for k using detached_notin [OF queuesD [OF q] rt(3)] .
  have rq: "runqueues s (\<lambda>c. L (Runqueue c))" using q by (simp add: runqueues_def queues_def)
  have len: "length (L (Runqueue (t_cpu s ?t))) < 4294967295" using sched_len_room [OF ok rt(1) nin] .
  obtain s1 where s1: "thread_make_runnable ?t s = Some s1"
    "runqueues s1 ((\<lambda>c. L (Runqueue c))(?c := L (Runqueue ?c) @ [?t]))"
    "t_state s1 = (t_state s)(?t := S_READY)" "t_cpu s1 = t_cpu s" "same_rest s s1"
    "\<forall>l ts. on_list s l ts \<and> (\<forall>c. l \<noteq> Runqueue c) \<longrightarrow> on_list s1 l ts"
    "\<forall>u. detached s u \<and> u \<noteq> ?t \<longrightarrow> detached s1 u"
    by (rule make_runnable_spec [OF rq rt(3) len, unfolded rt(2)]) (rule rt(4), rule that)
  have r: "c_curthread s1 = c_curthread s" "c_isidle s1 = c_isidle s" "curcpu s1 = ?c" using s1(5) by (simp_all add: same_rest_def)
  let ?s2 = "s1\<lparr>c_isidle := (c_isidle s)(?c := True)\<rparr>"
  let ?L = "L(Runqueue ?c := L (Runqueue ?c) @ [?t])"
  have env: "same_env s ?s2" using same_rest_env [OF s1(5,4)] by (simp add: same_env_def)
  have other: "c_curthread s c \<noteq> ?t" if "c \<in> set (allcpus s)" "\<not> c_isidle s c" "c \<noteq> ?c" for c
    using ok that rt(2) by (auto simp: sched_ok_def)
  have "on_list ?s2 l (?L l)" for l
  proof (cases "\<exists>c. l = Runqueue c")
    case True
    then obtain c where "l = Runqueue c" by blast
    then show ?thesis using runqueuesD [OF s1(2), of c] by auto
  next
    case False
    then show ?thesis using s1(6) queuesD [OF q, of l] by auto
  qed
  then have "queues ?s2 ?L" by (simp add: queues_def)
  moreover have "set (?L k) \<subseteq> T" for k using ok rt(1) by (auto simp: sched_ok_def)
  ultimately have ok2: "sched_ok ?s2 T ?L"
    using ok s1(7) r other rt(2) by (intro sched_okI [OF ok env]) (auto simp: sched_ok_def split: if_splits)
  have idle2: "c_isidle ?s2 (curcpu ?s2)" "curcpu ?s2 = ?c" using r by simp_all
  obtain s3 where s3: "idle_round ?s2 = Some s3" "sched_ok s3 T (dispatched (curcpu ?s2) ?L)" "same_env ?s2 s3"
    by (rule idle_round_sched [OF ok2 idle2(1)]) (rule that)
  have eq: "s1\<lparr>t_state := (t_state s1)(?t := S_READY)\<rparr> = s1" using s1(3) by simp
  have "thread_yield s = Some s3"
    using s3(1) run ne s1(1) eq r rt(5) by (simp add: thread_yield_def thread_switch_def Let_def queue_current_def)
  then show thesis using that s3(2) same_env_trans [OF env s3(3)] by (simp add: dispatched_def)
qed

section \<open>The protocol of locks, semaphores and condition variables\<close>

text \<open>
  An abstract machine: the wait channels as sequences of threads, the words of the objects, and for
  each thread the call it is in.  The sets \<open>K\<close>, \<open>S\<close> and \<open>C\<close> are the locks, semaphores and
  condition variables in use, with their wait channels.
\<close>

datatype callpoint = Outside | InP addr | InLock addr | InCv addr addr

record proto =
  p_wq :: "addr \<Rightarrow> thread list"
  p_holder :: "addr \<Rightarrow> thread"
  p_avail :: "addr \<Rightarrow> bool"
  p_count :: "addr \<Rightarrow> nat"
  p_pc :: "thread \<Rightarrow> callpoint"
  p_held :: "(thread \<times> addr) set"   \<comment> \<open>locks that threads hold between their calls\<close>

record objects =
  o_locks :: "addr set"
  o_sems :: "addr set"
  o_cvs :: "addr set"
  o_lw :: "addr \<Rightarrow> addr"
  o_sw :: "addr \<Rightarrow> addr"
  o_cw :: "addr \<Rightarrow> addr"

definition chans_ok :: "objects \<Rightarrow> bool" where
  "chans_ok B \<longleftrightarrow> inj_on (o_lw B) (o_locks B) \<and> inj_on (o_sw B) (o_sems B) \<and> inj_on (o_cw B) (o_cvs B)
     \<and> o_lw B ` o_locks B \<inter> o_sw B ` o_sems B = {} \<and> o_lw B ` o_locks B \<inter> o_cw B ` o_cvs B = {}
     \<and> o_sw B ` o_sems B \<inter> o_cw B ` o_cvs B = {} \<and> 0 \<notin> o_locks B \<and> 0 \<notin> o_sems B \<and> 0 \<notin> o_cvs B"

lemma chans_distinct:
  assumes "chans_ok B"
  shows "l \<in> o_locks B \<Longrightarrow> k \<in> o_locks B \<Longrightarrow> o_lw B l = o_lw B k \<longleftrightarrow> l = k"
    "x \<in> o_sems B \<Longrightarrow> y \<in> o_sems B \<Longrightarrow> o_sw B x = o_sw B y \<longleftrightarrow> x = y"
    "v \<in> o_cvs B \<Longrightarrow> w \<in> o_cvs B \<Longrightarrow> o_cw B v = o_cw B w \<longleftrightarrow> v = w"
    "l \<in> o_locks B \<Longrightarrow> x \<in> o_sems B \<Longrightarrow> o_lw B l \<noteq> o_sw B x"
    "l \<in> o_locks B \<Longrightarrow> x \<in> o_sems B \<Longrightarrow> o_sw B x \<noteq> o_lw B l"
    "l \<in> o_locks B \<Longrightarrow> v \<in> o_cvs B \<Longrightarrow> o_lw B l \<noteq> o_cw B v"
    "l \<in> o_locks B \<Longrightarrow> v \<in> o_cvs B \<Longrightarrow> o_cw B v \<noteq> o_lw B l"
    "x \<in> o_sems B \<Longrightarrow> v \<in> o_cvs B \<Longrightarrow> o_sw B x \<noteq> o_cw B v"
    "x \<in> o_sems B \<Longrightarrow> v \<in> o_cvs B \<Longrightarrow> o_cw B v \<noteq> o_sw B x"
  using assms by (auto simp: chans_ok_def inj_on_eq_iff disjoint_iff)

definition awake :: "thread set \<Rightarrow> proto \<Rightarrow> callpoint \<Rightarrow> addr \<Rightarrow> thread set" where
  "awake T p i w = {t \<in> T. p_pc p t = i \<and> t \<notin> set (p_wq p w)}"

text \<open>
  The invariant.  The last two clauses exclude lost wakeups: while threads sleep on a free lock, a
  woken thread is on its way to it; while threads sleep on a semaphore, there is a woken thread for
  every unit of its count.
\<close>

definition queues_wf :: "thread set \<Rightarrow> proto \<Rightarrow> bool" where
  "queues_wf T p \<longleftrightarrow> (\<forall>w. set (p_wq p w) \<subseteq> T \<and> distinct (p_wq p w))"

definition locks_wf :: "thread set \<Rightarrow> objects \<Rightarrow> proto \<Rightarrow> bool" where
  "locks_wf T B p \<longleftrightarrow> (\<forall>l\<in>o_locks B. p_holder p l \<in> insert 0 T \<and> (p_avail p l \<longleftrightarrow> p_holder p l = 0))
     \<and> (\<forall>t l. (t, l) \<in> p_held p \<longleftrightarrow> l \<in> o_locks B \<and> t \<in> T \<and> p_holder p l = t)"

definition sleepers_wf :: "thread set \<Rightarrow> objects \<Rightarrow> proto \<Rightarrow> bool" where
  "sleepers_wf T B p \<longleftrightarrow>
     (\<forall>l\<in>o_locks B. \<forall>t\<in>set (p_wq p (o_lw B l)). p_pc p t = InLock l)
     \<and> (\<forall>x\<in>o_sems B. \<forall>t\<in>set (p_wq p (o_sw B x)). p_pc p t = InP x)
     \<and> (\<forall>v\<in>o_cvs B. \<forall>t\<in>set (p_wq p (o_cw B v)). \<exists>l. p_pc p t = InCv v l)"

definition waiters_wf :: "thread set \<Rightarrow> objects \<Rightarrow> proto \<Rightarrow> bool" where
  "waiters_wf T B p \<longleftrightarrow> (\<forall>t\<in>T. case p_pc p t of
       Outside \<Rightarrow> True | InP x \<Rightarrow> x \<in> o_sems B
     | InLock l \<Rightarrow> l \<in> o_locks B \<and> p_holder p l \<noteq> t | InCv v l \<Rightarrow> v \<in> o_cvs B \<and> l \<in> o_locks B \<and> p_holder p l \<noteq> t)"

definition lock_wakeups :: "thread set \<Rightarrow> objects \<Rightarrow> proto \<Rightarrow> bool" where
  "lock_wakeups T B p \<longleftrightarrow>
     (\<forall>l\<in>o_locks B. p_avail p l \<and> p_wq p (o_lw B l) \<noteq> [] \<longrightarrow> awake T p (InLock l) (o_lw B l) \<noteq> {})"

definition sem_wakeups :: "thread set \<Rightarrow> objects \<Rightarrow> proto \<Rightarrow> bool" where
  "sem_wakeups T B p \<longleftrightarrow>
     (\<forall>x\<in>o_sems B. p_wq p (o_sw B x) \<noteq> [] \<longrightarrow> p_count p x \<le> card (awake T p (InP x) (o_sw B x)))"

definition proto_ok :: "thread set \<Rightarrow> objects \<Rightarrow> proto \<Rightarrow> bool" where
  "proto_ok T B p \<longleftrightarrow> queues_wf T p \<and> locks_wf T B p \<and> sleepers_wf T B p \<and> waiters_wf T B p
     \<and> lock_wakeups T B p \<and> sem_wakeups T B p"

definition free_thread :: "thread set \<Rightarrow> proto \<Rightarrow> thread \<Rightarrow> bool" where
  "free_thread T p t \<longleftrightarrow> t \<in> T \<and> (\<forall>w. t \<notin> set (p_wq p w))"

lemmas proto_defs = queues_wf_def locks_wf_def sleepers_wf_def waiters_wf_def lock_wakeups_def sem_wakeups_def

lemma proto_take_lock:
  assumes ok: "proto_ok T B p" and "0 \<notin> T" and t: "free_thread T p t" and l: "l \<in> o_locks B" "p_avail p l"
    and pc: "p_pc p t \<in> {Outside, InLock l} \<union> range (\<lambda>v. InCv v l)"
  shows "proto_ok T B (p\<lparr>p_avail := (p_avail p)(l := False), p_holder := (p_holder p)(l := t),
      p_pc := (p_pc p)(t := Outside), p_held := insert (t, l) (p_held p)\<rparr>)" (is "proto_ok T B ?q")
proof -
  have aw: "awake T ?q (InLock k) w = awake T p (InLock k) w" if "k \<noteq> l" for k w
    using pc that by (auto simp: awake_def)
  have awP: "awake T ?q (InP x) w = awake T p (InP x) w" for x w
    using pc by (auto simp: awake_def)
  show ?thesis unfolding proto_ok_def
  proof (intro conjI)
    show "queues_wf T ?q" using ok by (simp add: proto_ok_def queues_wf_def)
    show "locks_wf T B ?q" using ok t l \<open>0 \<notin> T\<close> by (auto simp: proto_ok_def locks_wf_def free_thread_def)
    show "sleepers_wf T B ?q" using ok t by (auto simp: proto_ok_def sleepers_wf_def free_thread_def)
    show "waiters_wf T B ?q" using ok by (auto simp: proto_ok_def waiters_wf_def split: callpoint.split)
    show "lock_wakeups T B ?q" using ok aw by (simp add: proto_ok_def lock_wakeups_def)
    show "sem_wakeups T B ?q" using ok awP by (simp add: proto_ok_def sem_wakeups_def)
  qed
qed

lemma proto_sleep_lock:
  assumes ok: "proto_ok T B p" and B: "chans_ok B" and t: "free_thread T p t" and l: "l \<in> o_locks B" "\<not> p_avail p l"
    and pc: "p_pc p t \<in> {Outside, InLock l} \<union> range (\<lambda>v. InCv v l)" and h: "p_holder p l \<noteq> t"
  shows "proto_ok T B (p\<lparr>p_wq := (p_wq p)(o_lw B l := p_wq p (o_lw B l) @ [t]), p_pc := (p_pc p)(t := InLock l)\<rparr>)"
    (is "proto_ok T B ?q")
proof -
  have aw: "awake T ?q (InLock k) (o_lw B k) = awake T p (InLock k) (o_lw B k)" if "k \<noteq> l" "k \<in> o_locks B" for k
    using pc that chans_distinct(1) [OF B, of k l] l(1) by (auto simp: awake_def)
  have awP: "awake T ?q (InP x) (o_sw B x) = awake T p (InP x) (o_sw B x)" if "x \<in> o_sems B" for x
    using pc chans_distinct(4) [OF B l(1) that] by (auto simp: awake_def)
  show ?thesis unfolding proto_ok_def
  proof (intro conjI)
    show "queues_wf T ?q" using ok t by (auto simp: proto_ok_def queues_wf_def free_thread_def)
    show "locks_wf T B ?q" using ok by (simp add: proto_ok_def locks_wf_def)
    show "sleepers_wf T B ?q"
      using ok t l(1) chans_distinct [OF B] by (auto simp: proto_ok_def sleepers_wf_def free_thread_def)
    show "waiters_wf T B ?q" using ok l h by (auto simp: proto_ok_def waiters_wf_def split: callpoint.split)
    show "lock_wakeups T B ?q"
      using ok aw l chans_distinct(1) [OF B _ l(1)] by (auto simp: proto_ok_def lock_wakeups_def)
    show "sem_wakeups T B ?q"
      using ok awP chans_distinct(5) [OF B l(1)] by (simp add: proto_ok_def sem_wakeups_def)
  qed
qed

lemma proto_release:
  assumes ok: "proto_ok T B p" and B: "chans_ok B" and "0 \<notin> T" and l: "l \<in> o_locks B" "p_holder p l \<noteq> 0"
  shows "proto_ok T B (p\<lparr>p_avail := (p_avail p)(l := True), p_holder := (p_holder p)(l := 0),
      p_wq := (p_wq p)(o_lw B l := tl (p_wq p (o_lw B l))), p_held := p_held p - {(p_holder p l, l)}\<rparr>)"
    (is "proto_ok T B ?q")
proof -
  have q: "queues_wf T p" "sleepers_wf T B p" using ok by (simp_all add: proto_ok_def)
  have aw: "awake T ?q (InLock k) (o_lw B k) = awake T p (InLock k) (o_lw B k)" if "k \<noteq> l" "k \<in> o_locks B" for k
    using that chans_distinct(1) [OF B, of k l] l(1) by (auto simp: awake_def)
  have awP: "awake T ?q (InP x) (o_sw B x) = awake T p (InP x) (o_sw B x)" if "x \<in> o_sems B" for x
    using chans_distinct(4) [OF B l(1) that] by (auto simp: awake_def)
  have woken: "hd (p_wq p (o_lw B l)) \<in> awake T ?q (InLock l) (o_lw B l)" if ne: "tl (p_wq p (o_lw B l)) \<noteq> []"
  proof -
    obtain h ts where "p_wq p (o_lw B l) = h # ts" using ne by (cases "p_wq p (o_lw B l)") auto
    moreover have "set (p_wq p (o_lw B l)) \<subseteq> T \<and> distinct (p_wq p (o_lw B l))" using q(1) by (simp add: queues_wf_def)
    moreover have "\<forall>t\<in>set (p_wq p (o_lw B l)). p_pc p t = InLock l" using q(2) l(1) by (simp add: sleepers_wf_def)
    ultimately show ?thesis by (simp add: awake_def)
  qed
  show ?thesis unfolding proto_ok_def
  proof (intro conjI)
    show "queues_wf T ?q" using q(1) by (auto simp: queues_wf_def distinct_tl dest: list.set_sel(2)) (metis list.sel(2) list.set_sel(2) subset_iff)
    show "locks_wf T B ?q" using ok l \<open>0 \<notin> T\<close> by (auto simp: proto_ok_def locks_wf_def)
    show "sleepers_wf T B ?q"
      using q(2) by (auto simp: sleepers_wf_def) (metis list.sel(2) list.set_sel(2))+
    have "\<And>t. t \<in> T \<Longrightarrow> t \<noteq> 0" using \<open>0 \<notin> T\<close> by metis
    then show "waiters_wf T B ?q" using ok by (auto simp: proto_ok_def waiters_wf_def split: callpoint.splits)
    show "lock_wakeups T B ?q"
      using ok aw woken l(1) chans_distinct(1) [OF B _ l(1)] by (auto simp: proto_ok_def lock_wakeups_def)
    show "sem_wakeups T B ?q"
      using ok awP chans_distinct(5) [OF B l(1)] by (simp add: proto_ok_def sem_wakeups_def)
  qed
qed

lemma proto_take_sem:
  assumes ok: "proto_ok T B p" and T: "finite T" and t: "free_thread T p t" and x: "x \<in> o_sems B" "p_count p x \<noteq> 0"
    and pc: "p_pc p t \<in> {Outside, InP x}"
  shows "proto_ok T B (p\<lparr>p_count := (p_count p)(x := p_count p x - 1), p_pc := (p_pc p)(t := Outside)\<rparr>)" (is "proto_ok T B ?q")
proof -
  have aw: "awake T ?q (InLock k) w = awake T p (InLock k) w" for k w using pc by (auto simp: awake_def)
  have awP: "awake T ?q (InP y) w = awake T p (InP y) w" if "y \<noteq> x" for y w using pc that by (auto simp: awake_def)
  have awx: "awake T ?q (InP x) w = awake T p (InP x) w - {t}" for w by (auto simp: awake_def)
  have fin: "finite (awake T p i w)" for i w using T by (simp add: awake_def)
  have dec: "card (awake T p (InP x) w) - 1 \<le> card (awake T ?q (InP x) w)" for w
    unfolding awx using card_Diff1_le [of "awake T p (InP x) w" t] fin by (simp add: card_Diff_singleton_if)
  show ?thesis unfolding proto_ok_def
  proof (intro conjI)
    show "queues_wf T ?q" "locks_wf T B ?q" using ok by (simp_all add: proto_ok_def queues_wf_def locks_wf_def)
    show "sleepers_wf T B ?q" using ok t by (auto simp: proto_ok_def sleepers_wf_def free_thread_def)
    show "waiters_wf T B ?q" using ok by (auto simp: proto_ok_def waiters_wf_def split: callpoint.split)
    show "lock_wakeups T B ?q" using ok aw by (simp add: proto_ok_def lock_wakeups_def)
    show "sem_wakeups T B ?q" unfolding sem_wakeups_def
    proof (intro ballI impI)
      fix y assume y: "y \<in> o_sems B" "p_wq ?q (o_sw B y) \<noteq> []"
      then have le: "p_count p y \<le> card (awake T p (InP y) (o_sw B y))" using ok by (simp add: proto_ok_def sem_wakeups_def)
      show "p_count ?q y \<le> card (awake T ?q (InP y) (o_sw B y))"
      proof (cases "y = x")
        case True
        with le dec [of "o_sw B x"] show ?thesis by simp
      next
        case False
        show ?thesis unfolding awP [OF False] using le False by simp
      qed
    qed
  qed
qed

lemma proto_sleep_sem:
  assumes ok: "proto_ok T B p" and B: "chans_ok B" and t: "free_thread T p t" and x: "x \<in> o_sems B" "p_count p x = 0"
    and pc: "p_pc p t \<in> {Outside, InP x}"
  shows "proto_ok T B (p\<lparr>p_wq := (p_wq p)(o_sw B x := p_wq p (o_sw B x) @ [t]), p_pc := (p_pc p)(t := InP x)\<rparr>)"
    (is "proto_ok T B ?q")
proof -
  have aw: "awake T ?q (InLock k) (o_lw B k) = awake T p (InLock k) (o_lw B k)" if "k \<in> o_locks B" for k
    using pc chans_distinct(5) [OF B that x(1)] by (auto simp: awake_def)
  have awP: "awake T ?q (InP y) (o_sw B y) = awake T p (InP y) (o_sw B y)" if "y \<noteq> x" "y \<in> o_sems B" for y
    using pc that chans_distinct(2) [OF B, of y x] x(1) by (auto simp: awake_def)
  show ?thesis unfolding proto_ok_def
  proof (intro conjI)
    show "queues_wf T ?q" using ok t by (auto simp: proto_ok_def queues_wf_def free_thread_def)
    show "locks_wf T B ?q" using ok by (simp add: proto_ok_def locks_wf_def)
    show "sleepers_wf T B ?q"
      using ok t x(1) chans_distinct [OF B] by (auto simp: proto_ok_def sleepers_wf_def free_thread_def)
    show "waiters_wf T B ?q" using ok x by (auto simp: proto_ok_def waiters_wf_def split: callpoint.split)
    show "lock_wakeups T B ?q"
      using ok aw chans_distinct(4) [OF B _ x(1)] by (simp add: proto_ok_def lock_wakeups_def)
    show "sem_wakeups T B ?q"
      using ok awP x chans_distinct(2) [OF B _ x(1)] by (auto simp: proto_ok_def sem_wakeups_def)
  qed
qed

text \<open>A channel loses its first sleeper: the rest of its threads stay well placed.\<close>

lemma set_tl_subset: "set (tl xs) \<subseteq> set xs"
  by (cases xs) auto

lemma wq_tl_wf:
  assumes "queues_wf T p" and "sleepers_wf T B p"
  shows "queues_wf T (p\<lparr>p_wq := (p_wq p)(w := tl (p_wq p w))\<rparr>)"
    and "sleepers_wf T B (p\<lparr>p_wq := (p_wq p)(w := tl (p_wq p w))\<rparr>)"
  using assms set_tl_subset [of "p_wq p w"] by (auto simp: queues_wf_def sleepers_wf_def distinct_tl)

lemma proto_V:
  assumes ok: "proto_ok T B p" and B: "chans_ok B" and T: "finite T" and x: "x \<in> o_sems B"
  shows "proto_ok T B (p\<lparr>p_count := (p_count p)(x := p_count p x + 1),
      p_wq := (p_wq p)(o_sw B x := tl (p_wq p (o_sw B x)))\<rparr>)" (is "proto_ok T B ?q")
proof -
  let ?w = "o_sw B x"
  have q: "queues_wf T p" "sleepers_wf T B p" using ok by (simp_all add: proto_ok_def)
  have aw: "awake T ?q (InLock k) (o_lw B k) = awake T p (InLock k) (o_lw B k)" if "k \<in> o_locks B" for k
    using chans_distinct(4) [OF B that x] by (auto simp: awake_def)
  have awP: "awake T ?q (InP y) (o_sw B y) = awake T p (InP y) (o_sw B y)" if "y \<noteq> x" "y \<in> o_sems B" for y
    using that chans_distinct(2) [OF B, of y x] x by (auto simp: awake_def)
  have up: "p_count p x + 1 \<le> card (awake T ?q (InP x) ?w)" if ne: "tl (p_wq p ?w) \<noteq> []"
  proof -
    obtain h ts where h: "p_wq p ?w = h # ts" using ne by (cases "p_wq p ?w") auto
    have sd: "set (p_wq p ?w) \<subseteq> T \<and> distinct (p_wq p ?w)" using q(1) by (simp add: queues_wf_def)
    have pcs: "\<forall>t\<in>set (p_wq p ?w). p_pc p t = InP x" using q(2) x by (simp add: sleepers_wf_def)
    have "awake T ?q (InP x) ?w = insert h (awake T p (InP x) ?w)" using h sd pcs by (auto simp: awake_def)
    moreover have "h \<notin> awake T p (InP x) ?w" using h by (simp add: awake_def)
    moreover have "finite (awake T p (InP x) ?w)" using T by (simp add: awake_def)
    moreover have "p_count p x \<le> card (awake T p (InP x) ?w)" using ok x h by (simp add: proto_ok_def sem_wakeups_def)
    ultimately show ?thesis by simp
  qed
  show ?thesis unfolding proto_ok_def
  proof (intro conjI)
    show "queues_wf T ?q" using wq_tl_wf(1) [OF q, of ?w] by (simp add: queues_wf_def)
    show "locks_wf T B ?q" using ok by (simp add: proto_ok_def locks_wf_def)
    show "sleepers_wf T B ?q" using wq_tl_wf(2) [OF q, of ?w] by (simp add: sleepers_wf_def)
    show "waiters_wf T B ?q" using ok by (auto simp: proto_ok_def waiters_wf_def split: callpoint.splits)
    show "lock_wakeups T B ?q"
      using ok aw chans_distinct(4) [OF B _ x] by (simp add: proto_ok_def lock_wakeups_def)
    show "sem_wakeups T B ?q"
      using ok awP up x chans_distinct(2) [OF B _ x] by (auto simp: proto_ok_def sem_wakeups_def)
  qed
qed

lemma proto_sleep_cv:
  assumes ok: "proto_ok T B p" and B: "chans_ok B" and t: "free_thread T p t" and v: "v \<in> o_cvs B" "l \<in> o_locks B"
    and pc: "p_pc p t = Outside" and h: "p_holder p l \<noteq> t"
  shows "proto_ok T B (p\<lparr>p_wq := (p_wq p)(o_cw B v := p_wq p (o_cw B v) @ [t]), p_pc := (p_pc p)(t := InCv v l)\<rparr>)"
    (is "proto_ok T B ?q")
proof -
  have aw: "awake T ?q (InLock k) (o_lw B k) = awake T p (InLock k) (o_lw B k)" if "k \<in> o_locks B" for k
    using pc chans_distinct(6) [OF B that v(1)] by (auto simp: awake_def)
  have awP: "awake T ?q (InP y) (o_sw B y) = awake T p (InP y) (o_sw B y)" if "y \<in> o_sems B" for y
    using pc chans_distinct(8) [OF B that v(1)] by (auto simp: awake_def)
  show ?thesis unfolding proto_ok_def
  proof (intro conjI)
    show "queues_wf T ?q" using ok t by (auto simp: proto_ok_def queues_wf_def free_thread_def)
    show "locks_wf T B ?q" using ok by (simp add: proto_ok_def locks_wf_def)
    show "sleepers_wf T B ?q"
      using ok t v(1) chans_distinct [OF B] by (auto simp: proto_ok_def sleepers_wf_def free_thread_def)
    show "waiters_wf T B ?q" using ok v h by (auto simp: proto_ok_def waiters_wf_def split: callpoint.split)
    show "lock_wakeups T B ?q"
      using ok aw chans_distinct(6) [OF B _ v(1)] by (simp add: proto_ok_def lock_wakeups_def)
    show "sem_wakeups T B ?q"
      using ok awP chans_distinct(8) [OF B _ v(1)] by (simp add: proto_ok_def sem_wakeups_def)
  qed
qed

text \<open>A signal or a broadcast takes threads off the channel of a condition variable.\<close>

lemma proto_wake_cv:
  assumes ok: "proto_ok T B p" and B: "chans_ok B" and v: "v \<in> o_cvs B" and sub: "set ts \<subseteq> set (p_wq p (o_cw B v))" "distinct ts"
  shows "proto_ok T B (p\<lparr>p_wq := (p_wq p)(o_cw B v := ts)\<rparr>)" (is "proto_ok T B ?q")
proof -
  have aw: "awake T ?q (InLock k) (o_lw B k) = awake T p (InLock k) (o_lw B k)" if "k \<in> o_locks B" for k
    using chans_distinct(6) [OF B that v] by (auto simp: awake_def)
  have awP: "awake T ?q (InP y) (o_sw B y) = awake T p (InP y) (o_sw B y)" if "y \<in> o_sems B" for y
    using chans_distinct(8) [OF B that v] by (auto simp: awake_def)
  show ?thesis unfolding proto_ok_def
  proof (intro conjI)
    show "queues_wf T ?q" using ok sub by (auto simp: proto_ok_def queues_wf_def)
    show "locks_wf T B ?q" using ok by (simp add: proto_ok_def locks_wf_def)
    show "waiters_wf T B ?q" using ok by (auto simp: proto_ok_def waiters_wf_def split: callpoint.splits)
    show "sleepers_wf T B ?q"
      using ok sub v chans_distinct [OF B] by (auto simp: proto_ok_def sleepers_wf_def)
    show "lock_wakeups T B ?q"
      using ok aw chans_distinct(6) [OF B _ v] by (simp add: proto_ok_def lock_wakeups_def)
    show "sem_wakeups T B ?q"
      using ok awP chans_distinct(8) [OF B _ v] by (simp add: proto_ok_def sem_wakeups_def)
  qed
qed

section \<open>All threads on all CPUs\<close>

text \<open>
  A machine: the kernel state, and for each thread the call it is in and the locks it holds.  Each
  step is taken by the current thread of the current CPU, or is an idle round, a clock interrupt
  (\<open>thread_yield\<close>), or the next step being taken on another CPU.
\<close>

record machine =
  m_sync :: sync
  m_pc :: "thread \<Rightarrow> callpoint"
  m_held :: "(thread \<times> addr) set"

abbreviation me :: "machine \<Rightarrow> thread" where
  "me M \<equiv> curthread (m_sync M)"

abbreviation running_cpu :: "machine \<Rightarrow> bool" where
  "running_cpu M \<equiv> \<not> c_isidle (m_sync M) (curcpu (m_sync M))"

text \<open>The machine after the current thread got the lock \<open>l\<close>, or went to sleep on it.\<close>

definition after_lock :: "machine \<Rightarrow> addr \<Rightarrow> bool \<Rightarrow> sync \<Rightarrow> machine" where
  "after_lock M l got s = M\<lparr>m_sync := s, m_pc := (m_pc M)(me M := (if got then Outside else InLock l)),
     m_held := (if got then insert (me M, l) (m_held M) else m_held M)\<rparr>"

definition after_sem :: "machine \<Rightarrow> addr \<Rightarrow> bool \<Rightarrow> sync \<Rightarrow> machine" where
  "after_sem M x got s = M\<lparr>m_sync := s, m_pc := (m_pc M)(me M := (if got then Outside else InP x))\<rparr>"

inductive sync_step :: "objects \<Rightarrow> machine \<Rightarrow> machine \<Rightarrow> bool" for B where
  other_cpu: "c \<in> set (allcpus (m_sync M)) \<Longrightarrow> sync_step B M (M\<lparr>m_sync := (m_sync M)\<lparr>curcpu := c\<rparr>\<rparr>)"
| idle: "\<not> running_cpu M \<Longrightarrow> idle_round (m_sync M) = Some s \<Longrightarrow> sync_step B M (M\<lparr>m_sync := s\<rparr>)"
| clock: "running_cpu M \<Longrightarrow> thread_yield (m_sync M) = Some s \<Longrightarrow> sync_step B M (M\<lparr>m_sync := s\<rparr>)"
| acquire: "running_cpu M \<Longrightarrow> m_pc M (me M) = Outside \<Longrightarrow> l \<in> o_locks B \<Longrightarrow>
    lock_acquire l (m_sync M) = Some (got, s) \<Longrightarrow> sync_step B M (after_lock M l got s)"
| acquire_again: "running_cpu M \<Longrightarrow> m_pc M (me M) = InLock l \<Longrightarrow>
    lock_round l (m_sync M) = Some (got, s) \<Longrightarrow> sync_step B M (after_lock M l got s)"
| release: "running_cpu M \<Longrightarrow> m_pc M (me M) = Outside \<Longrightarrow> l \<in> o_locks B \<Longrightarrow>
    lock_release l (m_sync M) = Some s \<Longrightarrow> sync_step B M (M\<lparr>m_sync := s, m_held := m_held M - {(me M, l)}\<rparr>)"
| sem_P: "running_cpu M \<Longrightarrow> m_pc M (me M) = Outside \<Longrightarrow> x \<in> o_sems B \<Longrightarrow>
    P x (m_sync M) = Some (got, s) \<Longrightarrow> sync_step B M (after_sem M x got s)"
| sem_P_again: "running_cpu M \<Longrightarrow> m_pc M (me M) = InP x \<Longrightarrow>
    P_round x (m_sync M) = Some (got, s) \<Longrightarrow> sync_step B M (after_sem M x got s)"
| sem_V: "running_cpu M \<Longrightarrow> m_pc M (me M) = Outside \<Longrightarrow> x \<in> o_sems B \<Longrightarrow>
    V x (m_sync M) = Some s \<Longrightarrow> sync_step B M (M\<lparr>m_sync := s\<rparr>)"
| wait: "running_cpu M \<Longrightarrow> m_pc M (me M) = Outside \<Longrightarrow> l \<in> o_locks B \<Longrightarrow> v \<in> o_cvs B \<Longrightarrow>
    cv_wait v l (m_sync M) = Some s \<Longrightarrow>
    sync_step B M (M\<lparr>m_sync := s, m_pc := (m_pc M)(me M := InCv v l), m_held := m_held M - {(me M, l)}\<rparr>)"
| wait_again: "running_cpu M \<Longrightarrow> m_pc M (me M) = InCv v l \<Longrightarrow>
    lock_acquire l (m_sync M) = Some (got, s) \<Longrightarrow> sync_step B M (after_lock M l got s)"
| signal: "running_cpu M \<Longrightarrow> m_pc M (me M) = Outside \<Longrightarrow> l \<in> o_locks B \<Longrightarrow> v \<in> o_cvs B \<Longrightarrow>
    cv_signal v l (m_sync M) = Some s \<Longrightarrow> sync_step B M (M\<lparr>m_sync := s\<rparr>)"
| broadcast: "running_cpu M \<Longrightarrow> m_pc M (me M) = Outside \<Longrightarrow> l \<in> o_locks B \<Longrightarrow> v \<in> o_cvs B \<Longrightarrow>
    cv_broadcast v l (m_sync M) = Some s \<Longrightarrow> sync_step B M (M\<lparr>m_sync := s\<rparr>)"

text \<open>The abstract machine that a machine with the queues \<open>L\<close> implements.\<close>

definition view :: "machine \<Rightarrow> (tlist \<Rightarrow> thread list) \<Rightarrow> proto" where
  "view M L = \<lparr>p_wq = (\<lambda>w. L (Wchan w)), p_holder = lk_holder (m_sync M), p_avail = lk_available (m_sync M),
     p_count = sem_count (m_sync M), p_pc = m_pc M, p_held = m_held M\<rparr>"

definition same_chans :: "objects \<Rightarrow> sync \<Rightarrow> bool" where
  "same_chans B s \<longleftrightarrow> (\<forall>l\<in>o_locks B. lk_wchan s l = o_lw B l) \<and> (\<forall>x\<in>o_sems B. sem_wchan s x = o_sw B x)
     \<and> (\<forall>v\<in>o_cvs B. cv_wchan s v = o_cw B v)"

definition machine_at :: "thread set \<Rightarrow> objects \<Rightarrow> machine \<Rightarrow> (tlist \<Rightarrow> thread list) \<Rightarrow> bool" where
  "machine_at T B M L \<longleftrightarrow> sched_ok (m_sync M) T L \<and> chans_ok B \<and> same_chans B (m_sync M)
     \<and> (\<forall>x\<in>o_sems B. sem_count (m_sync M) x < 4294967296) \<and> proto_ok T B (view M L)"

definition machine_ok :: "thread set \<Rightarrow> objects \<Rightarrow> machine \<Rightarrow> bool" where
  "machine_ok T B M \<longleftrightarrow> (\<exists>L. machine_at T B M L)"

lemma same_env_sync:
  assumes "same_env s s'"
  shows "sem_name s' = sem_name s" "sem_wchan s' = sem_wchan s" "sem_count s' = sem_count s"
    "lk_name s' = lk_name s" "lk_wchan s' = lk_wchan s" "lk_holder s' = lk_holder s"
    "lk_available s' = lk_available s" "cv_name s' = cv_name s" "cv_wchan s' = cv_wchan s"
proof -
  obtain a1 a2 a3 a4 a5 a6 a7 a8 a9 b1 b2 b3 b4 b5 b6 b7 b8 b9 c1 c2 c3 where
    "s' = s\<lparr>oom := a1, ticks := a2, live := a3, tln_prev := a4, tln_next := a5,
      tln_self := a6, tl_count := a7, t_state := a8, t_cpu := a9, t_stack := b1,
      t_proc := b2, t_in_interrupt := b3, stackmem := b4, c_curthread := b5,
      c_isidle := b6, c_hardclocks := b7, c_ipi_pending := b8,
      c_shootdown := b9, allcpus := c1, curcpu := c2, lbolt := c3\<rparr>"
  proof
    show "s' = s\<lparr>oom := oom s', ticks := ticks s', live := live s', tln_prev := tln_prev s', tln_next := tln_next s',
      tln_self := tln_self s', tl_count := tl_count s', t_state := t_state s', t_cpu := t_cpu s', t_stack := t_stack s',
      t_proc := t_proc s', t_in_interrupt := t_in_interrupt s', stackmem := stackmem s', c_curthread := c_curthread s',
      c_isidle := c_isidle s', c_hardclocks := c_hardclocks s', c_ipi_pending := c_ipi_pending s',
      c_shootdown := c_shootdown s', allcpus := allcpus s', curcpu := curcpu s', lbolt := lbolt s'\<rparr>"
    using assms by (intro threads.equality) (simp_all add: same_env_def)
  qed
  then show "sem_name s' = sem_name s" "sem_wchan s' = sem_wchan s" "sem_count s' = sem_count s"
    "lk_name s' = lk_name s" "lk_wchan s' = lk_wchan s" "lk_holder s' = lk_holder s"
    "lk_available s' = lk_available s" "cv_name s' = cv_name s" "cv_wchan s' = cv_wchan s"
    by simp_all
qed

lemma on_list_sync [simp]:
  "on_list (s\<lparr>lk_holder := a1\<rparr>) l ts = on_list s l ts" "on_list (s\<lparr>lk_available := a2\<rparr>) l ts = on_list s l ts"
  "on_list (s\<lparr>sem_count := a3\<rparr>) l ts = on_list s l ts"
  by (rule on_list_cong; simp)+

lemma detached_sync [simp]:
  "detached (s\<lparr>lk_holder := a1\<rparr>) t = detached s t" "detached (s\<lparr>lk_available := a2\<rparr>) t = detached s t"
  "detached (s\<lparr>sem_count := a3\<rparr>) t = detached s t"
  by (simp_all add: detached_def)

lemma checkstack_sync [simp]:
  "thread_checkstack t (s\<lparr>lk_holder := a1\<rparr>) = thread_checkstack t s"
  "thread_checkstack t (s\<lparr>lk_available := a2\<rparr>) = thread_checkstack t s"
  "thread_checkstack t (s\<lparr>sem_count := a3\<rparr>) = thread_checkstack t s"
  by (simp_all add: thread_checkstack_def)

lemma sched_ok_sync [simp]:
  "sched_ok (s\<lparr>lk_holder := a1\<rparr>) T L = sched_ok s T L" "sched_ok (s\<lparr>lk_available := a2\<rparr>) T L = sched_ok s T L"
  "sched_ok (s\<lparr>sem_count := a3\<rparr>) T L = sched_ok s T L"
  by (simp_all add: sched_ok_def queues_def)

lemma sched_ok_curcpu:
  assumes "sched_ok s T L" and "c \<in> set (allcpus s)"
  shows "sched_ok (s\<lparr>curcpu := c\<rparr>) T L"
proof -
  have "on_list (s\<lparr>curcpu := c\<rparr>) l ts = on_list s l ts" for l ts by (rule on_list_cong) simp_all
  moreover have "detached (s\<lparr>curcpu := c\<rparr>) t = detached s t" for t by (simp add: detached_def)
  moreover have "thread_checkstack t (s\<lparr>curcpu := c\<rparr>) = thread_checkstack t s" for t by (simp add: thread_checkstack_def)
  ultimately show ?thesis using assms by (simp add: sched_ok_def queues_def)
qed

lemma wq_after:
  "(\<lambda>w. woken cpu wc L (Wchan w)) = (\<lambda>w. L (Wchan w))(wc := tl (L (Wchan wc)))"
  "(\<lambda>w. woken_all cpu wc L (Wchan w)) = (\<lambda>w. L (Wchan w))(wc := [])"
  "(\<lambda>w. switched (Wchan wc) t c L (Wchan w)) = (\<lambda>w. L (Wchan w))(wc := L (Wchan wc) @ [t])"
  "(\<lambda>w. dispatched c L (Wchan w)) = (\<lambda>w. L (Wchan w))"
  by (auto simp: fun_eq_iff woken_def woken_all_def switched_def dispatched_def split: list.split)

lemma free_me: "machine_at T B M L \<Longrightarrow> running_cpu M \<Longrightarrow> free_thread T (view M L) (me M)"
  using running_notin [of "m_sync M" T L "curcpu (m_sync M)"] running_thread [of "m_sync M" T L]
  by (simp add: machine_at_def free_thread_def view_def sched_ok_def)

lemma machine_atI:
  assumes "machine_at T B M L" and "sched_ok s T L'" and "same_env (m_sync M) s"
    and "proto_ok T B (view (M\<lparr>m_sync := s, m_pc := pc, m_held := h\<rparr>) L')"
  shows "machine_ok T B (M\<lparr>m_sync := s, m_pc := pc, m_held := h\<rparr>)"
  using assms(1,2,4) same_env_sync [OF assms(3)]
  by (auto simp: machine_ok_def machine_at_def same_chans_def)

lemma machine_atD:
  assumes "machine_at T B M L"
  shows "sched_ok (m_sync M) T L" "chans_ok B" "proto_ok T B (view M L)" "finite T" "0 \<notin> T"
    "\<And>l. l \<in> o_locks B \<Longrightarrow> lk_wchan (m_sync M) l = o_lw B l" "\<And>x. x \<in> o_sems B \<Longrightarrow> sem_wchan (m_sync M) x = o_sw B x"
    "\<And>v. v \<in> o_cvs B \<Longrightarrow> cv_wchan (m_sync M) v = o_cw B v"
  using assms by (simp_all add: machine_at_def same_chans_def sched_ok_def)

lemma lock_round_ok:
  assumes at: "machine_at T B M L" and run: "running_cpu M" and l: "l \<in> o_locks B"
    and pc: "m_pc M (me M) \<in> {Outside, InLock l} \<union> range (\<lambda>v. InCv v l)" and h: "lk_holder (m_sync M) l \<noteq> me M"
  shows "\<exists>got s. lock_round l (m_sync M) = Some (got, s) \<and> machine_ok T B (after_lock M l got s)"
proof (cases "lk_available (m_sync M) l")
  case True
  let ?s = "(m_sync M)\<lparr>lk_available := (lk_available (m_sync M))(l := False), lk_holder := (lk_holder (m_sync M))(l := me M)\<rparr>"
  have "proto_ok T B ((view M L)\<lparr>p_avail := (p_avail (view M L))(l := False), p_holder := (p_holder (view M L))(l := me M),
      p_pc := (p_pc (view M L))(me M := Outside), p_held := insert (me M, l) (p_held (view M L))\<rparr>)"
    using machine_atD [OF at] free_me [OF at run] l pc True by (intro proto_take_lock) (simp_all add: view_def)
  then have "machine_at T B (after_lock M l True ?s) L"
    using at by (simp add: machine_at_def after_lock_def view_def same_chans_def)
  then show ?thesis using True by (auto simp: lock_round_def machine_ok_def)
next
  case False
  obtain s where s: "wchan_sleep (o_lw B l) (m_sync M) = Some s"
    "sched_ok s T (switched (Wchan (o_lw B l)) (me M) (curcpu (m_sync M)) L)" "same_env (m_sync M) s"
    by (rule sleep_sched [OF machine_atD(1) [OF at] run]) (rule that)
  have "proto_ok T B ((view M L)\<lparr>p_wq := (p_wq (view M L))(o_lw B l := p_wq (view M L) (o_lw B l) @ [me M]),
      p_pc := (p_pc (view M L))(me M := InLock l)\<rparr>)"
    using machine_atD [OF at] free_me [OF at run] l pc False h by (intro proto_sleep_lock) (simp_all add: view_def)
  then have "machine_ok T B (after_lock M l False s)"
    unfolding after_lock_def using same_env_sync [OF s(3)] by (intro machine_atI [OF at s(2,3)]) (simp add: view_def wq_after)
  then show ?thesis
    using False s(1) machine_atD(6) [OF at l] by (intro exI [of _ False] exI [of _ s]) (simp add: lock_round_def)
qed

lemma lock_acquire_ok:
  assumes at: "machine_at T B M L" and run: "running_cpu M" and l: "l \<in> o_locks B"
    and pc: "m_pc M (me M) \<in> {Outside, InLock l} \<union> range (\<lambda>v. InCv v l)" and h: "lk_holder (m_sync M) l \<noteq> me M"
  shows "\<exists>got s. lock_acquire l (m_sync M) = Some (got, s) \<and> machine_ok T B (after_lock M l got s)"
proof -
  have "l \<noteq> 0" using machine_atD(2) [OF at] l by (metis chans_ok_def)
  then show ?thesis
    using lock_round_ok [OF assms] h running_thread(6) [OF machine_atD(1) [OF at] run]
    by (simp add: lock_acquire_def lock_do_i_hold_def)
qed

lemma lock_release_ok:
  assumes at: "machine_at T B M L" and run: "running_cpu M" and l: "l \<in> o_locks B" and h: "lk_holder (m_sync M) l = me M"
  shows "\<exists>s L'. lock_release l (m_sync M) = Some s \<and> machine_at T B (M\<lparr>m_sync := s, m_held := m_held M - {(me M, l)}\<rparr>) L'
    \<and> c_isidle s = c_isidle (m_sync M) \<and> c_curthread s = c_curthread (m_sync M) \<and> curcpu s = curcpu (m_sync M)
    \<and> lk_holder s = (lk_holder (m_sync M))(l := 0)"
proof -
  let ?s0 = "(m_sync M)\<lparr>lk_available := (lk_available (m_sync M))(l := True), lk_holder := (lk_holder (m_sync M))(l := 0)\<rparr>"
  have ok0: "sched_ok ?s0 T L" using machine_atD(1) [OF at] by simp
  obtain s where s: "wchan_wakeone (o_lw B l) ?s0 = Some s" "sched_ok s T (woken (t_cpu ?s0) (o_lw B l) L)" "same_env ?s0 s"
    "c_curthread s = c_curthread ?s0" "c_isidle s = c_isidle ?s0"
    by (rule wakeone_sched [OF ok0]) (rule that)
  note e = same_env_sync [OF s(3)]
  have me0: "me M \<noteq> 0" using running_thread(7) [OF machine_atD(1) [OF at] run] .
  have l0: "l \<noteq> 0" using machine_atD(2) [OF at] l by (metis chans_ok_def)
  have "proto_ok T B ((view M L)\<lparr>p_avail := (p_avail (view M L))(l := True), p_holder := (p_holder (view M L))(l := 0),
      p_wq := (p_wq (view M L))(o_lw B l := tl (p_wq (view M L) (o_lw B l))),
      p_held := p_held (view M L) - {(p_holder (view M L) l, l)}\<rparr>)"
    using machine_atD [OF at] l h me0 by (intro proto_release) (simp_all add: view_def)
  then have "machine_at T B (M\<lparr>m_sync := s, m_held := m_held M - {(me M, l)}\<rparr>) (woken (t_cpu ?s0) (o_lw B l) L)"
    using at s(2) e h by (simp add: machine_at_def same_chans_def view_def wq_after)
  moreover have "lock_release l (m_sync M) = Some s"
    using s(1) h l0 machine_atD(6) [OF at l] by (simp add: lock_release_def)
  moreover have "curcpu s = curcpu (m_sync M)" using s(3) by (simp add: same_env_def)
  ultimately show ?thesis using s(4,5) e by (intro exI conjI) simp_all
qed

lemma P_round_ok:
  assumes at: "machine_at T B M L" and run: "running_cpu M" and x: "x \<in> o_sems B"
    and pc: "m_pc M (me M) \<in> {Outside, InP x}"
  shows "\<exists>got s. P_round x (m_sync M) = Some (got, s) \<and> machine_ok T B (after_sem M x got s)"
proof (cases "sem_count (m_sync M) x = 0")
  case False
  let ?s = "(m_sync M)\<lparr>sem_count := (sem_count (m_sync M))(x := sem_count (m_sync M) x - 1)\<rparr>"
  have "proto_ok T B ((view M L)\<lparr>p_count := (p_count (view M L))(x := p_count (view M L) x - 1),
      p_pc := (p_pc (view M L))(me M := Outside)\<rparr>)"
    using machine_atD [OF at] free_me [OF at run] x pc False by (intro proto_take_sem) (simp_all add: view_def)
  then have "machine_at T B (after_sem M x True ?s) L"
    using at by (auto simp: machine_at_def after_sem_def view_def same_chans_def)
  then show ?thesis using False by (auto simp: P_round_def machine_ok_def)
next
  case True
  obtain s where s: "wchan_sleep (o_sw B x) (m_sync M) = Some s"
    "sched_ok s T (switched (Wchan (o_sw B x)) (me M) (curcpu (m_sync M)) L)" "same_env (m_sync M) s"
    by (rule sleep_sched [OF machine_atD(1) [OF at] run]) (rule that)
  have "proto_ok T B ((view M L)\<lparr>p_wq := (p_wq (view M L))(o_sw B x := p_wq (view M L) (o_sw B x) @ [me M]),
      p_pc := (p_pc (view M L))(me M := InP x)\<rparr>)"
    using machine_atD [OF at] free_me [OF at run] x pc True by (intro proto_sleep_sem) (simp_all add: view_def)
  then have "machine_ok T B (M\<lparr>m_sync := s, m_pc := (m_pc M)(me M := InP x), m_held := m_held M\<rparr>)"
    using same_env_sync [OF s(3)] by (intro machine_atI [OF at s(2,3)]) (simp add: view_def wq_after)
  then show ?thesis
    using True s(1) machine_atD(7) [OF at x] by (intro exI [of _ False] exI [of _ s]) (simp add: P_round_def after_sem_def)
qed

lemma P_ok:
  assumes at: "machine_at T B M L" and run: "running_cpu M" and x: "x \<in> o_sems B"
    and pc: "m_pc M (me M) \<in> {Outside, InP x}"
  shows "\<exists>got s. P x (m_sync M) = Some (got, s) \<and> machine_ok T B (after_sem M x got s)"
proof -
  have "x \<noteq> 0" using machine_atD(2) [OF at] x by (metis chans_ok_def)
  then show ?thesis
    using P_round_ok [OF assms] running_thread(6) [OF machine_atD(1) [OF at] run] by (simp add: P_def)
qed

text \<open>\<open>V\<close> stops the machine only when the count would wrap around.\<close>

lemma V_ok:
  assumes at: "machine_at T B M L" and x: "x \<in> o_sems B" and room: "sem_count (m_sync M) x < 4294967295"
  shows "\<exists>s. V x (m_sync M) = Some s \<and> machine_ok T B (M\<lparr>m_sync := s\<rparr>)"
proof -
  let ?s0 = "(m_sync M)\<lparr>sem_count := (sem_count (m_sync M))(x := sem_count (m_sync M) x + 1)\<rparr>"
  have ok0: "sched_ok ?s0 T L" using machine_atD(1) [OF at] by simp
  obtain s where s: "wchan_wakeone (o_sw B x) ?s0 = Some s" "sched_ok s T (woken (t_cpu ?s0) (o_sw B x) L)" "same_env ?s0 s"
    "c_curthread s = c_curthread ?s0" "c_isidle s = c_isidle ?s0"
    by (rule wakeone_sched [OF ok0]) (rule that)
  note e = same_env_sync [OF s(3)]
  have x0: "x \<noteq> 0" using machine_atD(2) [OF at] x by (metis chans_ok_def)
  have "proto_ok T B ((view M L)\<lparr>p_count := (p_count (view M L))(x := p_count (view M L) x + 1),
      p_wq := (p_wq (view M L))(o_sw B x := tl (p_wq (view M L) (o_sw B x)))\<rparr>)"
    using machine_atD [OF at] x by (intro proto_V) (simp_all add: view_def)
  then have "machine_at T B (M\<lparr>m_sync := s\<rparr>) (woken (t_cpu ?s0) (o_sw B x) L)"
    using at s(2) e room by (auto simp: machine_at_def same_chans_def view_def wq_after)
  moreover have "V x (m_sync M) = Some s"
    using s(1) x0 room machine_atD(7) [OF at x] by (simp add: V_def u32_def Let_def)
  ultimately show ?thesis by (auto simp: machine_ok_def)
qed

lemma V_wraps:
  assumes "sem_count s x = 4294967295"
  shows "V x s = None"
  using assms by (simp add: V_def u32_def)

lemma cv_wait_ok:
  assumes at: "machine_at T B M L" and run: "running_cpu M" and l: "l \<in> o_locks B" and v: "v \<in> o_cvs B"
    and pc: "m_pc M (me M) = Outside" and h: "lk_holder (m_sync M) l = me M"
  shows "\<exists>s. cv_wait v l (m_sync M) = Some s
    \<and> machine_ok T B (M\<lparr>m_sync := s, m_pc := (m_pc M)(me M := InCv v l), m_held := m_held M - {(me M, l)}\<rparr>)"
proof -
  from lock_release_ok [OF at run l h] obtain s1 L1 where s1: "lock_release l (m_sync M) = Some s1"
    "c_isidle s1 = c_isidle (m_sync M)" "c_curthread s1 = c_curthread (m_sync M)" "curcpu s1 = curcpu (m_sync M)"
    "lk_holder s1 = (lk_holder (m_sync M))(l := 0)"
    and at1: "machine_at T B (M\<lparr>m_sync := s1, m_held := m_held M - {(me M, l)}\<rparr>) L1" by blast
  let ?M1 = "M\<lparr>m_sync := s1, m_held := m_held M - {(me M, l)}\<rparr>"
  have run1: "running_cpu ?M1" and me1: "me ?M1 = me M" using run s1 by simp_all
  have v0: "v \<noteq> 0" "l \<noteq> 0" using machine_atD(2) [OF at] v l by (metis chans_ok_def)+
  have me0: "me M \<noteq> 0" using running_thread(7) [OF machine_atD(1) [OF at] run] .
  obtain s where s: "wchan_sleep (o_cw B v) (m_sync ?M1) = Some s"
    "sched_ok s T (switched (Wchan (o_cw B v)) (me ?M1) (curcpu (m_sync ?M1)) L1)" "same_env (m_sync ?M1) s"
    by (rule sleep_sched [OF machine_atD(1) [OF at1] run1]) (rule that)
  have "proto_ok T B ((view ?M1 L1)\<lparr>p_wq := (p_wq (view ?M1 L1))(o_cw B v := p_wq (view ?M1 L1) (o_cw B v) @ [me ?M1]),
      p_pc := (p_pc (view ?M1 L1))(me ?M1 := InCv v l)\<rparr>)"
    using machine_atD [OF at1] free_me [OF at1 run1] l v pc s1(5) me0 me1
    by (intro proto_sleep_cv) (simp_all add: view_def)
  then have "machine_ok T B (?M1\<lparr>m_sync := s, m_pc := (m_pc ?M1)(me ?M1 := InCv v l), m_held := m_held ?M1\<rparr>)"
    using same_env_sync [OF s(3)] by (intro machine_atI [OF at1 s(2,3)]) (simp add: view_def wq_after)
  then show ?thesis
    using s(1) s1(1,3,4) v0 h machine_atD(8) [OF at1 v] by (simp add: cv_wait_def lock_do_i_hold_def)
qed

lemma cv_wake_ok:
  assumes at: "machine_at T B M L" and l: "l \<in> o_locks B" and v: "v \<in> o_cvs B" and h: "lk_holder (m_sync M) l = me M"
  shows "(\<exists>s. cv_signal v l (m_sync M) = Some s \<and> machine_ok T B (M\<lparr>m_sync := s\<rparr>))
    \<and> (\<exists>s. cv_broadcast v l (m_sync M) = Some s \<and> machine_ok T B (M\<lparr>m_sync := s\<rparr>))"
proof
  have v0: "v \<noteq> 0" "l \<noteq> 0" using machine_atD(2) [OF at] v l by (metis chans_ok_def)+
  have d: "distinct (p_wq (view M L) w)" for w using machine_atD(3) [OF at] by (simp add: proto_ok_def queues_wf_def)
  obtain s where s: "wchan_wakeone (o_cw B v) (m_sync M) = Some s" "sched_ok s T (woken (t_cpu (m_sync M)) (o_cw B v) L)"
    "same_env (m_sync M) s"
    by (rule wakeone_sched [OF machine_atD(1) [OF at]]) (rule that)
  have "proto_ok T B ((view M L)\<lparr>p_wq := (p_wq (view M L))(o_cw B v := tl (p_wq (view M L) (o_cw B v)))\<rparr>)"
    using machine_atD [OF at] v d set_tl_subset by (intro proto_wake_cv) (simp_all add: distinct_tl)
  then have "machine_ok T B (M\<lparr>m_sync := s, m_pc := m_pc M, m_held := m_held M\<rparr>)"
    using same_env_sync [OF s(3)] by (intro machine_atI [OF at s(2,3)]) (simp add: view_def wq_after)
  then show "\<exists>s. cv_signal v l (m_sync M) = Some s \<and> machine_ok T B (M\<lparr>m_sync := s\<rparr>)"
    using s(1) h v0 machine_atD(8) [OF at v] by (simp add: cv_signal_def lock_do_i_hold_def)
  obtain s' where s': "wchan_wakeall (o_cw B v) (m_sync M) = Some s'" "sched_ok s' T (woken_all (t_cpu (m_sync M)) (o_cw B v) L)"
    "same_env (m_sync M) s'"
    by (rule wakeall_sched [OF machine_atD(1) [OF at]]) (rule that)
  have "proto_ok T B ((view M L)\<lparr>p_wq := (p_wq (view M L))(o_cw B v := [])\<rparr>)"
    using machine_atD [OF at] v by (intro proto_wake_cv) simp_all
  then have "machine_ok T B (M\<lparr>m_sync := s', m_pc := m_pc M, m_held := m_held M\<rparr>)"
    using same_env_sync [OF s'(3)] by (intro machine_atI [OF at s'(2,3)]) (simp add: view_def wq_after)
  then show "\<exists>s. cv_broadcast v l (m_sync M) = Some s \<and> machine_ok T B (M\<lparr>m_sync := s\<rparr>)"
    using s'(1) h v0 machine_atD(8) [OF at v] by (simp add: cv_broadcast_def lock_do_i_hold_def)
qed

text \<open>A thread inside a call is there for an object in use, and does not hold the lock it waits for.\<close>

lemma me_waits:
  assumes "machine_at T B M L" and "running_cpu M"
  shows "m_pc M (me M) = InLock l \<Longrightarrow> l \<in> o_locks B \<and> lk_holder (m_sync M) l \<noteq> me M"
    "m_pc M (me M) = InCv v l \<Longrightarrow> l \<in> o_locks B \<and> lk_holder (m_sync M) l \<noteq> me M"
    "m_pc M (me M) = InP x \<Longrightarrow> x \<in> o_sems B"
proof -
  have "waiters_wf T B (view M L)" "me M \<in> T"
    using assms running_thread(1) [of "m_sync M" T L] by (simp_all add: machine_at_def proto_ok_def)
  then have "case m_pc M (me M) of Outside \<Rightarrow> True | InP x \<Rightarrow> x \<in> o_sems B
     | InLock l \<Rightarrow> l \<in> o_locks B \<and> lk_holder (m_sync M) l \<noteq> me M
     | InCv v l \<Rightarrow> v \<in> o_cvs B \<and> l \<in> o_locks B \<and> lk_holder (m_sync M) l \<noteq> me M"
    by (auto simp: waiters_wf_def view_def split: callpoint.splits)
  then show "m_pc M (me M) = InLock l \<Longrightarrow> l \<in> o_locks B \<and> lk_holder (m_sync M) l \<noteq> me M"
    "m_pc M (me M) = InCv v l \<Longrightarrow> l \<in> o_locks B \<and> lk_holder (m_sync M) l \<noteq> me M"
    "m_pc M (me M) = InP x \<Longrightarrow> x \<in> o_sems B" by simp_all
qed

lemma sched_step_ok:
  assumes "machine_at T B M L" and "sched_ok s T L'" and "same_env (m_sync M) s" and "\<And>w. L' (Wchan w) = L (Wchan w)"
  shows "machine_ok T B (M\<lparr>m_sync := s\<rparr>)"
proof -
  have "view (M\<lparr>m_sync := s, m_pc := m_pc M, m_held := m_held M\<rparr>) L' = view M L"
    using same_env_sync [OF assms(3)] assms(4) by (simp add: view_def)
  then have "machine_ok T B (M\<lparr>m_sync := s, m_pc := m_pc M, m_held := m_held M\<rparr>)"
    using assms(1) by (intro machine_atI [OF assms(1-3)]) (simp add: machine_at_def)
  then show ?thesis by simp
qed

lemma sync_step_ok:
  assumes "sync_step B M M'" and "machine_ok T B M"
  shows "machine_ok T B M'"
  using assms
proof (induction rule: sync_step.induct)
  case (other_cpu c M)
  then obtain L where at: "machine_at T B M L" by (auto simp: machine_ok_def)
  then have "machine_at T B (M\<lparr>m_sync := (m_sync M)\<lparr>curcpu := c\<rparr>\<rparr>) L"
    using sched_ok_curcpu [OF _ other_cpu(1)] by (simp add: machine_at_def same_chans_def view_def)
  then show ?case by (auto simp: machine_ok_def)
next
  case (idle M s)
  then obtain L where at: "machine_at T B M L" by (auto simp: machine_ok_def)
  obtain s' where "idle_round (m_sync M) = Some s'" "sched_ok s' T (dispatched (curcpu (m_sync M)) L)" "same_env (m_sync M) s'"
    by (rule idle_round_sched [OF machine_atD(1) [OF at]]) (use idle in simp, rule that)
  then show ?case using idle(2) by (auto intro: sched_step_ok [OF at] simp: dispatched_def)
next
  case (clock M s)
  then obtain L where at: "machine_at T B M L" by (auto simp: machine_ok_def)
  obtain s' L' where "thread_yield (m_sync M) = Some s'" "sched_ok s' T L'" "same_env (m_sync M) s'"
    "\<And>w. L' (Wchan w) = L (Wchan w)" using yield_sched [OF machine_atD(1) [OF at] clock(1)] by metis
  then show ?case using clock(2) by (auto intro: sched_step_ok [OF at])
next
  case (acquire M l got s)
  then obtain L where at: "machine_at T B M L" by (auto simp: machine_ok_def)
  have "lk_holder (m_sync M) l \<noteq> me M"
    using acquire(4) by (auto simp: lock_acquire_def lock_do_i_hold_def split: if_splits)
  with lock_acquire_ok [OF at acquire(1,3)] acquire(2,4) show ?case by auto
next
  case (acquire_again M l got s)
  then obtain L where at: "machine_at T B M L" by (auto simp: machine_ok_def)
  with lock_round_ok [OF at acquire_again(1), of l] me_waits(1) [OF at acquire_again(1,2)] acquire_again(2,3) show ?case by auto
next
  case (release M l s)
  then obtain L where at: "machine_at T B M L" by (auto simp: machine_ok_def)
  have "lk_holder (m_sync M) l = me M" using release(4) by (auto simp: lock_release_def split: if_splits)
  with lock_release_ok [OF at release(1,3)] release(4) show ?case by (auto simp: machine_ok_def)
next
  case (sem_P M x got s)
  then obtain L where at: "machine_at T B M L" by (auto simp: machine_ok_def)
  with P_ok [OF at sem_P(1,3)] sem_P(2,4) show ?case by auto
next
  case (sem_P_again M x got s)
  then obtain L where at: "machine_at T B M L" by (auto simp: machine_ok_def)
  with P_round_ok [OF at sem_P_again(1), of x] me_waits(3) [OF at sem_P_again(1,2)] sem_P_again(2,3) show ?case by auto
next
  case (sem_V M x s)
  then obtain L where at: "machine_at T B M L" by (auto simp: machine_ok_def)
  have "sem_count (m_sync M) x < 4294967296" using at sem_V(3) by (simp add: machine_at_def)
  moreover have "sem_count (m_sync M) x \<noteq> 4294967295" using sem_V(4) V_wraps [of "m_sync M" x] by auto
  ultimately have "sem_count (m_sync M) x < 4294967295" by simp
  from V_ok [OF at sem_V(3) this] sem_V(4) show ?case by auto
next
  case (wait M l v s)
  then obtain L where at: "machine_at T B M L" by (auto simp: machine_ok_def)
  have "lk_holder (m_sync M) l = me M" using wait(5) by (auto simp: cv_wait_def lock_do_i_hold_def split: if_splits)
  with cv_wait_ok [OF at wait(1,3,4,2)] wait(5) show ?case by auto
next
  case (wait_again M v l got s)
  then obtain L where at: "machine_at T B M L" by (auto simp: machine_ok_def)
  with lock_acquire_ok [OF at wait_again(1), of l] me_waits(2) [OF at wait_again(1,2)] wait_again(2,3) show ?case by auto
next
  case (signal M l v s)
  then obtain L where at: "machine_at T B M L" by (auto simp: machine_ok_def)
  have "lk_holder (m_sync M) l = me M" using signal(5) by (auto simp: cv_signal_def lock_do_i_hold_def split: if_splits)
  with cv_wake_ok [OF at signal(3,4)] signal(5) show ?case by auto
next
  case (broadcast M l v s)
  then obtain L where at: "machine_at T B M L" by (auto simp: machine_ok_def)
  have "lk_holder (m_sync M) l = me M" using broadcast(5) by (auto simp: cv_broadcast_def lock_do_i_hold_def split: if_splits)
  with cv_wake_ok [OF at broadcast(3,4)] broadcast(5) show ?case by auto
qed

lemma reachable_ok: "(sync_step B)\<^sup>*\<^sup>* M M' \<Longrightarrow> machine_ok T B M \<Longrightarrow> machine_ok T B M'"
  by (induction rule: rtranclp_induct) (auto intro: sync_step_ok)

section \<open>Creation and destruction\<close>

lemma on_list_names [simp]:
  "on_list (s\<lparr>lk_wchan := a1\<rparr>) l ts = on_list s l ts" "on_list (s\<lparr>sem_wchan := a2\<rparr>) l ts = on_list s l ts"
  "on_list (s\<lparr>cv_wchan := a3\<rparr>) l ts = on_list s l ts"
  by (rule on_list_cong; simp)+

lemma init_live [simp]:
  "live (threadlist_init l s) = live s" "ticks (threadlist_init l s) = ticks s" "oom (threadlist_init l s) = oom s"
  by (simp_all add: threadlist_init_def node_updates Let_def)

lemma init_sync [simp]:
  "sem_name (threadlist_init l s) = sem_name s" "sem_wchan (threadlist_init l s) = sem_wchan s"
  "sem_count (threadlist_init l s) = sem_count s" "lk_name (threadlist_init l s) = lk_name s"
  "lk_wchan (threadlist_init l s) = lk_wchan s" "lk_holder (threadlist_init l s) = lk_holder s"
  "lk_available (threadlist_init l s) = lk_available s" "cv_name (threadlist_init l s) = cv_name s"
  "cv_wchan (threadlist_init l s) = cv_wchan s"
  by (simp_all add: threadlist_init_def node_updates Let_def)

text \<open>The three blocks of an object, and that they are new.\<close>

definition new_object :: "'a kmem_scheme \<Rightarrow> 'a kmem_scheme \<Rightarrow> addr list \<Rightarrow> bool" where
  "new_object s s' ps \<longleftrightarrow> distinct ps \<and> 0 \<notin> set ps \<and> set ps \<inter> live s = {} \<and> live s' = live s \<union> set ps"

lemma kmem_ok_next:
  assumes "kmem_ok s"
  shows "Suc (ticks s) \<notin> live s" "Suc (Suc (ticks s)) \<notin> live s" "Suc (Suc (Suc (ticks s))) \<notin> live s"
  using assms by (force simp: kmem_ok_def)+

lemmas create_simps = kmalloc_def kstrdup_def wchan_create_def kfree_def Let_def new_object_def init_spec

lemma lock_create_spec:
  assumes "kmem_ok s"
  shows "\<exists>l s'. lock_create s = Some (l, s') \<and> (if l = 0 then live s' = live s
    else new_object s s' [l, lk_name s' l, lk_wchan s' l] \<and> lk_available s' l \<and> lk_holder s' l = 0
      \<and> on_list s' (Wchan (lk_wchan s' l)) [])"
  using kmem_ok_next [OF assms]
  by (cases "oom s (ticks s)"; cases "oom s (Suc (ticks s))"; cases "oom s (Suc (Suc (ticks s)))")
    (auto simp: lock_create_def create_simps)

lemma sem_create_spec:
  assumes "kmem_ok s"
  shows "\<exists>x s'. sem_create n s = Some (x, s') \<and> (if x = 0 then live s' = live s
    else new_object s s' [x, sem_name s' x, sem_wchan s' x] \<and> sem_count s' x = n
      \<and> on_list s' (Wchan (sem_wchan s' x)) [])"
  using kmem_ok_next [OF assms]
  by (cases "oom s (ticks s)"; cases "oom s (Suc (ticks s))"; cases "oom s (Suc (Suc (ticks s)))")
    (auto simp: sem_create_def create_simps)

lemma cv_create_spec:
  assumes "kmem_ok s"
  shows "\<exists>v s'. cv_create True s = Some (v, s') \<and> (if v = 0 then live s' = live s
    else new_object s s' [v, cv_name s' v, cv_wchan s' v] \<and> on_list s' (Wchan (cv_wchan s' v)) [])"
  using kmem_ok_next [OF assms]
  by (cases "oom s (ticks s)"; cases "oom s (Suc (ticks s))"; cases "oom s (Suc (Suc (ticks s)))")
    (auto simp: cv_create_def create_simps)

lemma wchan_destroy_eq:
  assumes "on_list s (Wchan wc) ts"
  shows "wchan_destroy wc s = (if ts = [] then kfree wc s else None)"
  using on_list_count [OF assms] by (simp add: wchan_destroy_def threadlist_cleanup_def threadlist_isempty_def)

lemma destroy_blocks:
  assumes "new_object s0 s [x, n, w]"
  shows "\<exists>s'. Option.bind (kfree w s) (\<lambda>s. Option.bind (kfree n s) (kfree x)) = Some s' \<and> live s' = live s0"
  using assms by (auto simp: new_object_def kfree_def)

lemma kfree_sync:
  assumes "kfree p s = Some t"
  shows "lk_name t = lk_name s" "sem_name t = sem_name s" "cv_name t = cv_name s"
  using assms by (auto simp: kfree_def split: if_splits)

section \<open>Properties\<close>

text \<open>One thread, 10, on CPU 2; the lock 40, the semaphore 42 and the condition variable 44.\<close>

definition boot_objects :: objects where
  "boot_objects = \<lparr>o_locks = {40}, o_sems = {42}, o_cvs = {44}, o_lw = \<lambda>_. 41, o_sw = \<lambda>_. 43, o_cw = \<lambda>_. 45\<rparr>"

definition boot_sync :: sync where
  "boot_sync = all_empty \<lparr>oom = \<lambda>_. False, ticks = 50, live = {10..50}, tln_prev = \<lambda>_. None, tln_next = \<lambda>_. None,
     tln_self = \<lambda>_. None, tl_count = \<lambda>_. 0, t_state = \<lambda>_. S_RUN, t_cpu = \<lambda>_. 2, t_stack = \<lambda>_. 0, t_proc = \<lambda>_. 0,
     t_in_interrupt = \<lambda>_. False, stackmem = \<lambda>_ _. 0, c_curthread = \<lambda>_. 10, c_isidle = \<lambda>_. False,
     c_hardclocks = \<lambda>_. 0, c_ipi_pending = \<lambda>_. 0, c_shootdown = \<lambda>_. [], allcpus = [2], curcpu = 2, lbolt = 0,
     sem_name = \<lambda>_. 0, sem_wchan = \<lambda>_. 43, sem_count = \<lambda>_. 0, lk_name = \<lambda>_. 0, lk_wchan = \<lambda>_. 41,
     lk_holder = \<lambda>_. 0, lk_available = \<lambda>_. True, cv_name = \<lambda>_. 0, cv_wchan = \<lambda>_. 45\<rparr>"

definition boot_machine :: machine where
  "boot_machine = \<lparr>m_sync = boot_sync, m_pc = \<lambda>_. Outside, m_held = {}\<rparr>"

lemma boot_fields:
  "allcpus boot_sync = [2]" "curcpu boot_sync = 2" "c_curthread boot_sync c = 10" "\<not> c_isidle boot_sync c"
  "t_cpu boot_sync t = 2" "t_in_interrupt boot_sync t = False" "t_stack boot_sync t = 0"
  "lk_holder boot_sync l = 0" "lk_available boot_sync l" "sem_count boot_sync x = 0"
  "lk_wchan boot_sync l = 41" "sem_wchan boot_sync x = 43" "cv_wchan boot_sync v = 45"
  "oom boot_sync n = False" "ticks boot_sync = 50" "live boot_sync = {10..50}"
  by (simp_all add: boot_sync_def all_empty_def)

lemma boot_machine_ok: "machine_ok {10} boot_objects boot_machine"
proof -
  have "queues boot_sync (\<lambda>_. [])" "detached boot_sync 10"
    by (simp_all add: queues_def boot_sync_def all_empty_lists)
  then have "sched_ok boot_sync {10} (\<lambda>_. [])"
    by (simp add: sched_ok_def boot_fields thread_checkstack_def)
  moreover have "proto_ok {10} boot_objects (view boot_machine (\<lambda>_. []))"
    by (auto simp: proto_ok_def proto_defs view_def boot_machine_def boot_fields)
  moreover have "chans_ok boot_objects" by (simp add: chans_ok_def boot_objects_def)
  ultimately have "machine_at {10} boot_objects boot_machine (\<lambda>_. [])"
    by (simp add: machine_at_def same_chans_def boot_machine_def boot_fields boot_objects_def)
  then show ?thesis by (auto simp: machine_ok_def)
qed

text \<open>
  C18: mutual exclusion.  From any consistent machine, whatever interleaving of lock, semaphore and
  condition variable calls, clock interrupts and CPUs follows, at most one thread has returned from
  \<open>lock_acquire\<close> on a lock without releasing it (or waiting with it), that thread is the recorded
  holder, and the lock is marked available exactly when there is no such thread.
\<close>

theorem lock_mutual_exclusion:
  assumes "machine_ok T B M0" and "(sync_step B)\<^sup>*\<^sup>* M0 M" and "l \<in> o_locks B"
  shows "(\<forall>t. (t, l) \<in> m_held M \<longleftrightarrow> t \<in> T \<and> lk_holder (m_sync M) l = t)
    \<and> (\<forall>t u. (t, l) \<in> m_held M \<and> (u, l) \<in> m_held M \<longrightarrow> t = u)
    \<and> (lk_available (m_sync M) l \<longleftrightarrow> (\<forall>t. (t, l) \<notin> m_held M))"
proof -
  from reachable_ok [OF assms(2,1)] obtain L where at: "machine_at T B M L" by (auto simp: machine_ok_def)
  have "locks_wf T B (view M L)" using machine_atD(3) [OF at] by (simp add: proto_ok_def)
  then have h: "\<And>t. (t, l) \<in> m_held M \<longleftrightarrow> t \<in> T \<and> lk_holder (m_sync M) l = t"
    and o: "lk_holder (m_sync M) l \<in> insert 0 T" "lk_available (m_sync M) l \<longleftrightarrow> lk_holder (m_sync M) l = 0"
    using assms(3) by (simp_all add: locks_wf_def view_def)
  have "lk_holder (m_sync M) l = 0 \<longleftrightarrow> lk_holder (m_sync M) l \<notin> T" using o(1) machine_atD(5) [OF at] by (metis insert_iff)
  then show ?thesis unfolding h o(2) by (simp, metis)
qed

lemma boot_acquire:
  "lock_acquire 40 boot_sync = Some (True, boot_sync\<lparr>lk_available := (lk_available boot_sync)(40 := False),
     lk_holder := (lk_holder boot_sync)(40 := 10)\<rparr>)"
  by (simp add: lock_acquire_def lock_do_i_hold_def lock_round_def boot_fields)

lemma lock_mutual_exclusion_witness:
  "\<exists>M. (sync_step boot_objects)\<^sup>*\<^sup>* boot_machine M \<and> (10, 40) \<in> m_held M \<and> \<not> lk_available (m_sync M) 40"
proof -
  let ?s = "boot_sync\<lparr>lk_available := (lk_available boot_sync)(40 := False), lk_holder := (lk_holder boot_sync)(40 := 10)\<rparr>"
  have "sync_step boot_objects boot_machine (after_lock boot_machine 40 True ?s)"
    using boot_acquire by (intro sync_step.acquire) (simp_all add: boot_machine_def boot_fields boot_objects_def)
  then have r: "(sync_step boot_objects)\<^sup>*\<^sup>* boot_machine (after_lock boot_machine 40 True ?s)" by (rule r_into_rtranclp)
  moreover have "(10, 40) \<in> m_held (after_lock boot_machine 40 True ?s)"
    by (simp add: after_lock_def boot_machine_def boot_fields)
  moreover have "40 \<in> o_locks boot_objects" by (simp add: boot_objects_def)
  ultimately show ?thesis using lock_mutual_exclusion [OF boot_machine_ok r] by blast
qed

text \<open>
  C19: no wakeup is lost.  In every reachable state, if threads sleep on a lock that is available,
  another thread inside \<open>lock_acquire\<close> on that lock has been woken and will try it; and if threads
  sleep on a semaphore, there are at least as many woken threads inside \<open>P\<close> as the count has units.
\<close>

theorem no_lost_wakeup:
  assumes "machine_ok T B M0" and "(sync_step B)\<^sup>*\<^sup>* M0 M"
  shows "\<exists>L. queues (m_sync M) L
    \<and> (\<forall>l\<in>o_locks B. lk_available (m_sync M) l \<and> L (Wchan (lk_wchan (m_sync M) l)) \<noteq> [] \<longrightarrow>
        (\<exists>t\<in>T. m_pc M t = InLock l \<and> t \<notin> set (L (Wchan (lk_wchan (m_sync M) l)))))
    \<and> (\<forall>x\<in>o_sems B. L (Wchan (sem_wchan (m_sync M) x)) \<noteq> [] \<longrightarrow>
        sem_count (m_sync M) x \<le> card {t \<in> T. m_pc M t = InP x \<and> t \<notin> set (L (Wchan (sem_wchan (m_sync M) x)))})"
proof -
  from reachable_ok [OF assms(2,1)] obtain L where at: "machine_at T B M L" by (auto simp: machine_ok_def)
  then have "queues (m_sync M) L" "lock_wakeups T B (view M L)" "sem_wakeups T B (view M L)" "same_chans B (m_sync M)"
    by (simp_all add: machine_at_def sched_ok_def proto_ok_def)
  then show ?thesis
    by (intro exI [of _ L]) (auto simp: lock_wakeups_def sem_wakeups_def awake_def view_def same_chans_def)
qed

text \<open>Thread 10 sleeps in \<open>P\<close> on the semaphore.\<close>

lemma no_lost_wakeup_witness:
  "\<exists>M L. (sync_step boot_objects)\<^sup>*\<^sup>* boot_machine M \<and> m_pc M 10 = InP 42 \<and> queues (m_sync M) L"
proof -
  obtain L where at: "machine_at {10} boot_objects boot_machine L" using boot_machine_ok by (auto simp: machine_ok_def)
  from P_ok [OF at, of 42] obtain got s where p: "P 42 boot_sync = Some (got, s)"
    by (auto simp: boot_machine_def boot_fields boot_objects_def)
  then have g: "\<not> got" by (auto simp: P_def P_round_def boot_fields bind_eq_Some_conv split: if_splits)
  have "sync_step boot_objects boot_machine (after_sem boot_machine 42 got s)"
    using p by (intro sync_step.sem_P) (simp_all add: boot_machine_def boot_fields boot_objects_def)
  then have r: "(sync_step boot_objects)\<^sup>*\<^sup>* boot_machine (after_sem boot_machine 42 got s)" by (rule r_into_rtranclp)
  from no_lost_wakeup [OF boot_machine_ok r] obtain L' where "queues (m_sync (after_sem boot_machine 42 got s)) L'" by blast
  moreover have "m_pc (after_sem boot_machine 42 got s) 10 = InP 42"
    using g by (simp add: after_sem_def boot_machine_def boot_fields)
  ultimately show ?thesis using r by blast
qed

text \<open>
  C20: called as documented, no operation stops the machine.  In every reachable state the thread
  that runs outside any call can acquire a lock it does not hold, release or wait with a lock it
  holds, signal, and do \<open>P\<close>; \<open>V\<close> stops exactly when the count would wrap around, and acquiring a lock
  one holds or releasing one that one does not hold is caught.
\<close>

theorem synch_calls_return:
  assumes "machine_ok T B M0" and "(sync_step B)\<^sup>*\<^sup>* M0 M" and "running_cpu M" and "m_pc M (me M) = Outside"
    and "l \<in> o_locks B" and "x \<in> o_sems B" and "v \<in> o_cvs B"
  shows "(lock_acquire l (m_sync M) = None \<longleftrightarrow> lk_holder (m_sync M) l = me M)
    \<and> (lock_release l (m_sync M) = None \<longleftrightarrow> lk_holder (m_sync M) l \<noteq> me M)
    \<and> (cv_wait v l (m_sync M) = None \<longleftrightarrow> lk_holder (m_sync M) l \<noteq> me M)
    \<and> (cv_signal v l (m_sync M) = None \<longleftrightarrow> lk_holder (m_sync M) l \<noteq> me M)
    \<and> (cv_broadcast v l (m_sync M) = None \<longleftrightarrow> lk_holder (m_sync M) l \<noteq> me M)
    \<and> P x (m_sync M) \<noteq> None \<and> (V x (m_sync M) = None \<longleftrightarrow> sem_count (m_sync M) x = 4294967295)"
proof -
  from reachable_ok [OF assms(2,1)] obtain L where at: "machine_at T B M L" by (auto simp: machine_ok_def)
  have c: "sem_count (m_sync M) x < 4294967296" using at assms(6) by (simp add: machine_at_def)
  have 1: "lock_acquire l (m_sync M) = None \<longleftrightarrow> lk_holder (m_sync M) l = me M"
  proof (cases "lk_holder (m_sync M) l = me M")
    case True
    then show ?thesis by (simp add: lock_acquire_def lock_do_i_hold_def)
  next
    case False
    then show ?thesis using lock_acquire_ok [OF at assms(3,5)] assms(4) by auto
  qed
  have 2: "lock_release l (m_sync M) = None \<longleftrightarrow> lk_holder (m_sync M) l \<noteq> me M"
    "cv_wait v l (m_sync M) = None \<longleftrightarrow> lk_holder (m_sync M) l \<noteq> me M"
    "cv_signal v l (m_sync M) = None \<longleftrightarrow> lk_holder (m_sync M) l \<noteq> me M"
    "cv_broadcast v l (m_sync M) = None \<longleftrightarrow> lk_holder (m_sync M) l \<noteq> me M"
  proof -
    have "lock_release l (m_sync M) \<noteq> None" "cv_wait v l (m_sync M) \<noteq> None"
      "cv_signal v l (m_sync M) \<noteq> None" "cv_broadcast v l (m_sync M) \<noteq> None" if "lk_holder (m_sync M) l = me M"
      using lock_release_ok [OF at assms(3,5) that] cv_wait_ok [OF at assms(3,5,7,4) that] cv_wake_ok [OF at assms(5,7) that]
      by auto
    moreover have "lock_release l (m_sync M) = None" "cv_wait v l (m_sync M) = None"
      "cv_signal v l (m_sync M) = None" "cv_broadcast v l (m_sync M) = None" if "lk_holder (m_sync M) l \<noteq> me M"
      using that by (simp_all add: lock_release_def cv_wait_def cv_signal_def cv_broadcast_def lock_do_i_hold_def)
    ultimately show "lock_release l (m_sync M) = None \<longleftrightarrow> lk_holder (m_sync M) l \<noteq> me M"
      "cv_wait v l (m_sync M) = None \<longleftrightarrow> lk_holder (m_sync M) l \<noteq> me M"
      "cv_signal v l (m_sync M) = None \<longleftrightarrow> lk_holder (m_sync M) l \<noteq> me M"
      "cv_broadcast v l (m_sync M) = None \<longleftrightarrow> lk_holder (m_sync M) l \<noteq> me M" by metis+
  qed
  have 5: "P x (m_sync M) \<noteq> None" using P_ok [OF at assms(3,6)] assms(4) by auto
  have 6: "V x (m_sync M) = None \<longleftrightarrow> sem_count (m_sync M) x = 4294967295"
    using V_ok [OF at assms(6)] V_wraps [of "m_sync M" x] c by (cases "sem_count (m_sync M) x < 4294967295") auto
  show ?thesis using 1 2 5 6 by blast
qed

lemma synch_calls_return_witness: "P 42 boot_sync \<noteq> None \<and> lock_release 40 boot_sync = None"
  using synch_calls_return [OF boot_machine_ok rtranclp.rtrancl_refl, of 40 42 44]
  by (simp add: boot_machine_def boot_fields boot_objects_def)

text \<open>
  creating a semaphore, lock or condition variable returns NULL and leaves no block behind, or
  three new blocks and an object in its initial state without waiters; destroying an object without
  waiters (and, for a lock, without holder) gives back exactly its blocks.
\<close>

theorem synch_create_destroy:
  assumes "kmem_ok s"
  shows "(\<exists>l s'. lock_create s = Some (l, s') \<and> (if l = 0 then live s' = live s
        else lk_available s' l \<and> lk_holder s' l = 0 \<and> on_list s' (Wchan (lk_wchan s' l)) []
          \<and> live s' = live s \<union> {l, lk_name s' l, lk_wchan s' l}
          \<and> (\<exists>s''. lock_destroy l s' = Some s'' \<and> live s'' = live s)))
    \<and> (\<exists>x s'. sem_create n s = Some (x, s') \<and> (if x = 0 then live s' = live s
        else sem_count s' x = n \<and> on_list s' (Wchan (sem_wchan s' x)) []
          \<and> live s' = live s \<union> {x, sem_name s' x, sem_wchan s' x}
          \<and> (\<exists>s''. sem_destroy x s' = Some s'' \<and> live s'' = live s)))
    \<and> (\<exists>v s'. cv_create True s = Some (v, s') \<and> (if v = 0 then live s' = live s
        else on_list s' (Wchan (cv_wchan s' v)) [] \<and> live s' = live s \<union> {v, cv_name s' v, cv_wchan s' v}
          \<and> (\<exists>s''. cv_destroy v s' = Some s'' \<and> live s'' = live s)))"
proof (intro conjI)
  from lock_create_spec [OF assms] obtain l s' where l: "lock_create s = Some (l, s')" "l = 0 \<Longrightarrow> live s' = live s"
    "l \<noteq> 0 \<Longrightarrow> new_object s s' [l, lk_name s' l, lk_wchan s' l] \<and> lk_available s' l \<and> lk_holder s' l = 0
      \<and> on_list s' (Wchan (lk_wchan s' l)) []" by (metis (full_types))
  have "\<exists>s''. lock_destroy l s' = Some s'' \<and> live s'' = live s" if "l \<noteq> 0"
    using destroy_blocks [of s s' l "lk_name s' l" "lk_wchan s' l"] l(3) [OF that] that
    by (auto simp: lock_destroy_def wchan_destroy_eq kfree_sync bind_eq_Some_conv)
  with l show "\<exists>l s'. lock_create s = Some (l, s') \<and> (if l = 0 then live s' = live s
        else lk_available s' l \<and> lk_holder s' l = 0 \<and> on_list s' (Wchan (lk_wchan s' l)) []
          \<and> live s' = live s \<union> {l, lk_name s' l, lk_wchan s' l}
          \<and> (\<exists>s''. lock_destroy l s' = Some s'' \<and> live s'' = live s))"
    by (intro exI [of _ l] exI [of _ s']) (auto simp: new_object_def)
next
  from sem_create_spec [OF assms] obtain x s' where x: "sem_create n s = Some (x, s')" "x = 0 \<Longrightarrow> live s' = live s"
    "x \<noteq> 0 \<Longrightarrow> new_object s s' [x, sem_name s' x, sem_wchan s' x] \<and> sem_count s' x = n
      \<and> on_list s' (Wchan (sem_wchan s' x)) []" by (metis (full_types))
  have "\<exists>s''. sem_destroy x s' = Some s'' \<and> live s'' = live s" if "x \<noteq> 0"
    using destroy_blocks [of s s' x "sem_name s' x" "sem_wchan s' x"] x(3) [OF that] that
    by (auto simp: sem_destroy_def wchan_destroy_eq kfree_sync bind_eq_Some_conv)
  with x show "\<exists>x s'. sem_create n s = Some (x, s') \<and> (if x = 0 then live s' = live s
        else sem_count s' x = n \<and> on_list s' (Wchan (sem_wchan s' x)) []
          \<and> live s' = live s \<union> {x, sem_name s' x, sem_wchan s' x}
          \<and> (\<exists>s''. sem_destroy x s' = Some s'' \<and> live s'' = live s))"
    by (intro exI [of _ x] exI [of _ s']) (auto simp: new_object_def)
next
  from cv_create_spec [OF assms] obtain v s' where v: "cv_create True s = Some (v, s')" "v = 0 \<Longrightarrow> live s' = live s"
    "v \<noteq> 0 \<Longrightarrow> new_object s s' [v, cv_name s' v, cv_wchan s' v] \<and> on_list s' (Wchan (cv_wchan s' v)) []"
    by (metis (full_types))
  have "\<exists>s''. cv_destroy v s' = Some s'' \<and> live s'' = live s" if "v \<noteq> 0"
    using destroy_blocks [of s s' v "cv_name s' v" "cv_wchan s' v"] v(3) [OF that] that
    by (auto simp: cv_destroy_def wchan_destroy_eq kfree_sync bind_eq_Some_conv)
  with v show "\<exists>v s'. cv_create True s = Some (v, s') \<and> (if v = 0 then live s' = live s
        else on_list s' (Wchan (cv_wchan s' v)) [] \<and> live s' = live s \<union> {v, cv_name s' v, cv_wchan s' v}
          \<and> (\<exists>s''. cv_destroy v s' = Some s'' \<and> live s'' = live s))"
    by (intro exI [of _ v] exI [of _ s']) (auto simp: new_object_def)
qed

lemma synch_create_destroy_witness:
  "\<exists>l s'. lock_create boot_sync = Some (l, s') \<and> (if l = 0 then live s' = {10..50} else lk_available s' l)"
proof -
  have "kmem_ok boot_sync" by (auto simp: kmem_ok_def boot_fields)
  from synch_create_destroy [OF this] show ?thesis unfolding boot_fields by (metis (full_types))
qed

end
