(* ===== verification/Hangman.thy ===== *)
theory Hangman
  imports Prelude
begin

text \<open>
  The deadlock detector of \<open>kern/thread/hangman.c\<close>.  Actors (threads, CPUs) wait for lockables
  (locks, spinlocks), and a lockable is held by at most one actor; before an actor waits, the chain
  of holders is followed from the lockable it wants.  Each operation holds the detector's spinlock
  throughout and is one step.

  The walk is a loop that would not end on a cycle that misses the actor.  The theorems show that
  this never happens: while no deadlock was reported, the graph has no cycle, so every walk ends, and
  a deadlock is reported exactly when the wait would close a cycle.
\<close>

section \<open>Operations\<close>

type_synonym actor = nat
type_synonym lockable = nat

record hangman =
  a_waiting :: "actor \<Rightarrow> lockable option"
  l_holding :: "lockable \<Rightarrow> actor option"
  hangman_lock :: lockable     \<comment> \<open>the detector's own spinlock\<close>

text \<open>The outcome of an operation: the new state, or one of the panics.\<close>

datatype outcome = Fine hangman | Deadlock | Misuse

text \<open>The search loop; \<open>None\<close> is a walk that never ends.\<close>

partial_function (option) search :: "hangman \<Rightarrow> actor option \<Rightarrow> actor \<Rightarrow> bool option" where
  "search h cur target =
     (case cur of
        None \<Rightarrow> Some False
      | Some c \<Rightarrow>
          if c = target then Some True
          else (case a_waiting h c of
                  None \<Rightarrow> Some False
                | Some l \<Rightarrow> search h (l_holding h l) target))"

definition hangman_check :: "hangman \<Rightarrow> lockable \<Rightarrow> actor \<Rightarrow> bool option" where
  "hangman_check h start target = search h (l_holding h start) target"

definition hangman_wait :: "actor \<Rightarrow> lockable \<Rightarrow> hangman \<Rightarrow> outcome option" where
  "hangman_wait a l h =
     (if l = hangman_lock h then Some (Fine h)
      else if a_waiting h a \<noteq> None then Some Misuse
      else do {
        found \<leftarrow> hangman_check h l a;
        Some (if found then Deadlock else Fine (h\<lparr>a_waiting := (a_waiting h)(a := Some l)\<rparr>)) })"

definition hangman_acquire :: "actor \<Rightarrow> lockable \<Rightarrow> hangman \<Rightarrow> outcome option" where
  "hangman_acquire a l h =
     (if l = hangman_lock h then Some (Fine h)
      else if a_waiting h a \<noteq> Some l then Some Misuse
      else if l_holding h l \<noteq> None then Some Misuse
      else Some (Fine (h\<lparr>l_holding := (l_holding h)(l := Some a), a_waiting := (a_waiting h)(a := None)\<rparr>)))"

definition hangman_release :: "actor \<Rightarrow> lockable \<Rightarrow> hangman \<Rightarrow> outcome option" where
  "hangman_release a l h =
     (if l = hangman_lock h then Some (Fine h)
      else if a_waiting h a \<noteq> None then Some Misuse
      else if l_holding h l \<noteq> Some a then Some Misuse
      else Some (Fine (h\<lparr>l_holding := (l_holding h)(l := None)\<rparr>)))"

inductive hang_step :: "hangman \<Rightarrow> hangman \<Rightarrow> bool" where
  wait: "hangman_wait a l h = Some (Fine h') \<Longrightarrow> hang_step h h'"
| acquire: "hangman_acquire a l h = Some (Fine h') \<Longrightarrow> hang_step h h'"
| release: "hangman_release a l h = Some (Fine h') \<Longrightarrow> hang_step h h'"

section \<open>The waits-for graph\<close>

definition waits_for :: "hangman \<Rightarrow> (actor \<times> actor) set" where
  "waits_for h = {(a, b). \<exists>l. a_waiting h a = Some l \<and> l_holding h l = Some b}"

definition hang_ok :: "hangman \<Rightarrow> bool" where
  "hang_ok h \<longleftrightarrow> finite (dom (a_waiting h)) \<and> acyclic (waits_for h)"

lemma waits_for_functional: "(a, b) \<in> waits_for h \<Longrightarrow> (a, c) \<in> waits_for h \<Longrightarrow> b = c"
  by (auto simp: waits_for_def)

lemma wf_waits_for:
  assumes "hang_ok h"
  shows "wf ((waits_for h)\<inverse>)"
proof (rule finite_acyclic_wf_converse)
  have "waits_for h \<subseteq> (\<lambda>a. (a, the (l_holding h (the (a_waiting h a))))) ` dom (a_waiting h)"
    by (force simp: waits_for_def)
  then show "finite (waits_for h)"
    using assms by (simp add: hang_ok_def finite_subset)
  show "acyclic (waits_for h)" using assms by (simp add: hang_ok_def)
qed

text \<open>On a graph without cycles the walk ends and decides reachability.\<close>

lemma search_Some:
  assumes "hang_ok h"
  shows "search h (Some c) t = Some ((c, t) \<in> (waits_for h)\<^sup>*)"
proof (induction c rule: wf_induct_rule [OF wf_waits_for [OF assms]])
  case (1 c)
  show ?case
  proof (cases "c = t")
    case True
    then show ?thesis by (subst search.simps) simp
  next
    case False
    show ?thesis
    proof (cases "Option.bind (a_waiting h c) (l_holding h)")
      case None
      then have "(c, d) \<notin> waits_for h" for d by (auto simp: waits_for_def)
      then have "(c, t) \<notin> (waits_for h)\<^sup>*" using False by (metis converse_rtranclE)
      moreover have "search h (Some c) t = Some False"
      proof (cases "a_waiting h c")
        case None
        then show ?thesis using False by (subst search.simps) simp
      next
        case (Some l)
        then show ?thesis
          using False \<open>Option.bind (a_waiting h c) (l_holding h) = None\<close>
          by (subst search.simps) (simp add: search.simps [of h None])
      qed
      ultimately show ?thesis by simp
    next
      case (Some b)
      then obtain l where l: "a_waiting h c = Some l" "l_holding h l = Some b" by (auto simp: bind_eq_Some_conv)
      then have e: "(c, b) \<in> waits_for h" by (auto simp: waits_for_def)
      have "(c, t) \<in> (waits_for h)\<^sup>* \<longleftrightarrow> (b, t) \<in> (waits_for h)\<^sup>*"
        using e False waits_for_functional by (metis converse_rtranclE converse_rtrancl_into_rtrancl)
      then show ?thesis using 1 [of b] e l False by (subst search.simps) simp
    qed
  qed
qed

lemma check_spec:
  assumes "hang_ok h"
  shows "hangman_check h l a = Some (\<exists>b. l_holding h l = Some b \<and> (b, a) \<in> (waits_for h)\<^sup>*)"
  using search_Some [OF assms]
  by (cases "l_holding h l") (simp_all add: hangman_check_def search.simps [of h None])

lemma waits_for_wait:
  assumes "a_waiting h a = None"
  shows "waits_for (h\<lparr>a_waiting := (a_waiting h)(a := Some l)\<rparr>) =
    waits_for h \<union> (case l_holding h l of None \<Rightarrow> {} | Some b \<Rightarrow> {(a, b)})"
  using assms by (auto simp: waits_for_def split: option.splits if_splits)

lemma wait_ok:
  assumes "hang_ok h" and "hangman_wait a l h = Some (Fine h')"
  shows "hang_ok h'"
proof (cases "l = hangman_lock h")
  case True
  with assms show ?thesis by (simp add: hangman_wait_def)
next
  case False
  then have w: "a_waiting h a = None" and h': "h' = h\<lparr>a_waiting := (a_waiting h)(a := Some l)\<rparr>"
    and n: "\<not> (\<exists>b. l_holding h l = Some b \<and> (b, a) \<in> (waits_for h)\<^sup>*)"
    using assms by (auto simp: hangman_wait_def check_spec split: if_splits)
  have "acyclic (waits_for h')"
    using assms(1) n by (auto simp: h' waits_for_wait [OF w] hang_ok_def acyclic_insert split: option.split)
  then show ?thesis using assms(1) by (simp add: hang_ok_def h')
qed

text \<open>An actor without outgoing edge may get any incoming ones.\<close>

lemma acyclic_sink:
  assumes "acyclic r" and "\<And>b. (a, b) \<notin> r" and "s \<subseteq> {(b, c). c = a \<and> b \<noteq> a}"
  shows "acyclic (r \<union> s)"
proof -
  have sink: "(a, b) \<notin> r \<union> s" for b using assms(2,3) by auto
  have path: "(x, y) \<in> (r \<union> s)\<^sup>+ \<Longrightarrow> y \<noteq> a \<Longrightarrow> (x, y) \<in> r\<^sup>+" for x y
  proof (induction rule: trancl_induct)
    case (base y)
    then show ?case using assms(3) by auto
  next
    case (step y z)
    then have "y \<noteq> a" using sink by auto
    with step show ?case using assms(3) by (auto intro: trancl_into_trancl)
  qed
  show ?thesis unfolding acyclic_def
  proof (intro allI notI)
    fix x assume x: "(x, x) \<in> (r \<union> s)\<^sup>+"
    then have "x \<noteq> a" using sink by (metis tranclD)
    with path [OF x] assms(1) show False by (auto simp: acyclic_def)
  qed
qed

lemma acquire_ok:
  assumes "hang_ok h" and "hangman_acquire a l h = Some (Fine h')"
  shows "hang_ok h'"
proof (cases "l = hangman_lock h")
  case True
  with assms show ?thesis by (simp add: hangman_acquire_def)
next
  case False
  then have w: "a_waiting h a = Some l" "l_holding h l = None"
    and h': "h' = h\<lparr>l_holding := (l_holding h)(l := Some a), a_waiting := (a_waiting h)(a := None)\<rparr>"
    using assms(2) by (auto simp: hangman_acquire_def split: if_splits)
  have sub: "waits_for h' \<subseteq> waits_for h \<union> {(b, a) | b. b \<noteq> a}"
    by (auto simp: waits_for_def h' split: if_splits)
  have out: "(a, b) \<notin> waits_for h" for b using w by (auto simp: waits_for_def)
  have "acyclic (waits_for h \<union> {(b, a) | b. b \<noteq> a})"
    using assms(1) out by (intro acyclic_sink [where a = a]) (auto simp: hang_ok_def)
  then have "acyclic (waits_for h')" using sub by (rule acyclic_subset)
  moreover have "finite (dom (a_waiting h'))" using assms(1) by (simp add: h' hang_ok_def)
  ultimately show ?thesis by (simp add: hang_ok_def)
qed

lemma release_ok:
  assumes "hang_ok h" and "hangman_release a l h = Some (Fine h')"
  shows "hang_ok h'"
proof -
  have "waits_for h' \<subseteq> waits_for h" "a_waiting h' = a_waiting h"
    using assms(2) by (auto simp: hangman_release_def waits_for_def split: if_splits)
  with assms(1) show ?thesis by (auto simp: hang_ok_def intro: acyclic_subset)
qed

lemma hang_step_ok: "hang_step h h' \<Longrightarrow> hang_ok h \<Longrightarrow> hang_ok h'"
  by (induction rule: hang_step.induct) (auto intro: wait_ok acquire_ok release_ok)

section \<open>Properties\<close>

text \<open>
  C22: the walk always ends.  From a state in which nobody waits, in any sequence of waits,
  acquisitions and releases that was not stopped, the waits-for graph has no cycle and
  \<open>hangman_check\<close> returns for every lockable and actor.
\<close>

theorem hangman_check_terminates:
  assumes "a_waiting h0 = Map.empty" and "hang_step\<^sup>*\<^sup>* h0 h"
  shows "acyclic (waits_for h) \<and> (\<forall>l a. hangman_check h l a \<noteq> None)"
proof -
  have "hang_ok h0" using assms(1) by (simp add: hang_ok_def waits_for_def acyclic_def)
  from assms(2) this have "hang_ok h" by (induction rule: rtranclp_induct) (auto intro: hang_step_ok)
  then show ?thesis using check_spec by (simp add: hang_ok_def)
qed

definition quiet_hangman :: hangman where
  "quiet_hangman = \<lparr>a_waiting = Map.empty, l_holding = Map.empty, hangman_lock = 99\<rparr>"

text \<open>Actor 1 holds lock 11 and waits for 12; actor 2 holds 12.\<close>

definition waiting_hangman :: hangman where
  "waiting_hangman = \<lparr>a_waiting = [1 \<mapsto> 12], l_holding = [11 \<mapsto> 1, 12 \<mapsto> 2], hangman_lock = 99\<rparr>"

lemma hang_run:
  assumes "hangman_wait a l h = Some (Fine h1)" and "hangman_acquire a l h1 = Some (Fine h2)"
  shows "hang_step\<^sup>*\<^sup>* h h2"
proof -
  have "hang_step h h1" "hang_step h1 h2" using assms by (blast intro: hang_step.intros)+
  then show ?thesis by simp
qed

lemma waiting_hangman_reached: "hang_step\<^sup>*\<^sup>* quiet_hangman waiting_hangman"
proof -
  let ?h1 = "\<lparr>a_waiting = Map.empty, l_holding = [11 \<mapsto> 1], hangman_lock = 99\<rparr>"
  let ?h2 = "\<lparr>a_waiting = Map.empty, l_holding = [11 \<mapsto> 1, 12 \<mapsto> 2], hangman_lock = 99\<rparr>"
  note run = hangman_wait_def hangman_check_def hangman_acquire_def quiet_hangman_def search.simps [of _ None]
  have "hang_step\<^sup>*\<^sup>* quiet_hangman ?h1"
    by (rule hang_run [of 1 11 _ "quiet_hangman\<lparr>a_waiting := [1 \<mapsto> 11]\<rparr>"]) (simp_all add: run)
  also have "hang_step\<^sup>*\<^sup>* ?h1 ?h2"
    by (rule hang_run [of 2 12 _ "?h1\<lparr>a_waiting := [2 \<mapsto> 12]\<rparr>"]) (simp_all add: run)
  also have "hang_step ?h2 waiting_hangman"
    by (rule hang_step.wait [of 1 12])
      (simp add: waiting_hangman_def hangman_wait_def hangman_check_def search.simps [of _ "Some 2"])
  finally show ?thesis .
qed

lemma hangman_check_terminates_witness: "acyclic (waits_for waiting_hangman)"
  using hangman_check_terminates [OF _ waiting_hangman_reached] by (simp add: quiet_hangman_def)

text \<open>
  C23: deadlocks are reported exactly.  In every reachable state, an actor that waits for nothing and
  asks for another lockable is stopped with \<open>Deadlock\<close> if and only if the wait would close a cycle of
  the waits-for graph; otherwise the wait is recorded.
\<close>

theorem hangman_reports_deadlocks:
  assumes "a_waiting h0 = Map.empty" and "hang_step\<^sup>*\<^sup>* h0 h" and "a_waiting h a = None" and "l \<noteq> hangman_lock h"
  shows "hangman_wait a l h = Some (if acyclic (waits_for (h\<lparr>a_waiting := (a_waiting h)(a := Some l)\<rparr>))
    then Fine (h\<lparr>a_waiting := (a_waiting h)(a := Some l)\<rparr>) else Deadlock)"
proof -
  have "hang_ok h0" using assms(1) by (simp add: hang_ok_def waits_for_def acyclic_def)
  from assms(2) this have ok: "hang_ok h" by (induction rule: rtranclp_induct) (auto intro: hang_step_ok)
  then have "acyclic (waits_for (h\<lparr>a_waiting := (a_waiting h)(a := Some l)\<rparr>)) \<longleftrightarrow>
      \<not> (\<exists>b. l_holding h l = Some b \<and> (b, a) \<in> (waits_for h)\<^sup>*)"
    by (auto simp: waits_for_wait [OF assms(3)] hang_ok_def acyclic_insert split: option.split)
  then show ?thesis using assms(3,4) ok by (simp add: hangman_wait_def check_spec)
qed

lemma hangman_reports_deadlocks_witness: "hangman_wait 2 11 waiting_hangman = Some Deadlock"
proof -
  have "(2, 1) \<in> waits_for (waiting_hangman\<lparr>a_waiting := (a_waiting waiting_hangman)(2 := Some 11)\<rparr>)"
    "(1, 2) \<in> waits_for (waiting_hangman\<lparr>a_waiting := (a_waiting waiting_hangman)(2 := Some 11)\<rparr>)"
    by (simp_all add: waits_for_def waiting_hangman_def)
  then have "\<not> acyclic (waits_for (waiting_hangman\<lparr>a_waiting := (a_waiting waiting_hangman)(2 := Some 11)\<rparr>))"
    by (meson acyclic_def trancl.simps)
  then show ?thesis
    using hangman_reports_deadlocks [OF _ waiting_hangman_reached, of 2 11]
    by (simp add: quiet_hangman_def waiting_hangman_def)
qed

end
