(* ===== verification/Spinlock.thy ===== *)
theory Spinlock
  imports Prelude
begin

text \<open>
  Spinlocks, \<open>kern/thread/spinlock.c\<close>, on several CPUs.  The lock word is shared memory: a CPU
  first reads it and then does an atomic test-and-set, and between these the other CPUs run.  The
  operations are therefore split at every access to shared memory, and the step relation interleaves
  the CPUs.  Interrupts are off from the start of \<open>spinlock_acquire\<close> to the end of
  \<open>spinlock_release\<close>, so a CPU runs one of these calls at a time.
\<close>

section \<open>Operations\<close>

type_synonym cpu = addr

text \<open>How far a CPU has come in the call it is in.\<close>

datatype spinpoint = Elsewhere | Reading addr | Setting addr | Entering addr | Leaving addr

record spin =
  splk_lock :: "addr \<Rightarrow> nat"         \<comment> \<open>the lock word, 0 or 1\<close>
  splk_holder :: "addr \<Rightarrow> cpu"       \<comment> \<open>0 is NULL\<close>
  c_spinlocks :: "cpu \<Rightarrow> nat"
  c_at :: "cpu \<Rightarrow> spinpoint"

definition spinlock_init :: "addr \<Rightarrow> spin \<Rightarrow> spin" where
  "spinlock_init l s = s\<lparr>splk_lock := (splk_lock s)(l := 0), splk_holder := (splk_holder s)(l := 0)\<rparr>"

definition spinlock_cleanup :: "addr \<Rightarrow> spin \<Rightarrow> spin option" where
  "spinlock_cleanup l s = do {
     kassert (splk_holder s l = 0);
     kassert (splk_lock s l = 0);
     Some s }"

text \<open>The beginning of \<open>spinlock_acquire\<close>, up to the loop.\<close>

definition acquire_begin :: "cpu \<Rightarrow> addr \<Rightarrow> spin \<Rightarrow> spin option" where
  "acquire_begin c l s = do {
     kassert (splk_holder s l \<noteq> c);
     Some (s\<lparr>c_spinlocks := (c_spinlocks s)(c := c_spinlocks s c + 1), c_at := (c_at s)(c := Reading l)\<rparr>) }"

text \<open>The plain read, and the test-and-set.\<close>

definition acquire_read :: "cpu \<Rightarrow> addr \<Rightarrow> spin \<Rightarrow> spin" where
  "acquire_read c l s = (if splk_lock s l \<noteq> 0 then s else s\<lparr>c_at := (c_at s)(c := Setting l)\<rparr>)"

definition acquire_testandset :: "cpu \<Rightarrow> addr \<Rightarrow> spin \<Rightarrow> spin" where
  "acquire_testandset c l s =
     (let old = splk_lock s l; s = s\<lparr>splk_lock := (splk_lock s)(l := 1)\<rparr>
      in if old \<noteq> 0 then s\<lparr>c_at := (c_at s)(c := Reading l)\<rparr> else s\<lparr>c_at := (c_at s)(c := Entering l)\<rparr>)"

definition acquire_end :: "cpu \<Rightarrow> addr \<Rightarrow> spin \<Rightarrow> spin" where
  "acquire_end c l s = s\<lparr>splk_holder := (splk_holder s)(l := c), c_at := (c_at s)(c := Elsewhere)\<rparr>"

definition release_begin :: "cpu \<Rightarrow> addr \<Rightarrow> spin \<Rightarrow> spin option" where
  "release_begin c l s = do {
     kassert (splk_holder s l = c);
     kassert (c_spinlocks s c > 0);
     Some (s\<lparr>c_spinlocks := (c_spinlocks s)(c := c_spinlocks s c - 1), splk_holder := (splk_holder s)(l := 0),
             c_at := (c_at s)(c := Leaving l)\<rparr>) }"

definition release_end :: "cpu \<Rightarrow> addr \<Rightarrow> spin \<Rightarrow> spin" where
  "release_end c l s = s\<lparr>splk_lock := (splk_lock s)(l := 0), c_at := (c_at s)(c := Elsewhere)\<rparr>"

definition spinlock_do_i_hold :: "cpu \<Rightarrow> addr \<Rightarrow> spin \<Rightarrow> bool" where
  "spinlock_do_i_hold c l s \<longleftrightarrow> splk_holder s l = c"

inductive spin_step :: "spin \<Rightarrow> spin \<Rightarrow> bool" where
  acquire: "c \<noteq> 0 \<Longrightarrow> c_at s c = Elsewhere \<Longrightarrow> acquire_begin c l s = Some s' \<Longrightarrow> spin_step s s'"
| read: "c_at s c = Reading l \<Longrightarrow> spin_step s (acquire_read c l s)"
| set: "c_at s c = Setting l \<Longrightarrow> spin_step s (acquire_testandset c l s)"
| enter: "c_at s c = Entering l \<Longrightarrow> spin_step s (acquire_end c l s)"
| release: "c \<noteq> 0 \<Longrightarrow> c_at s c = Elsewhere \<Longrightarrow> release_begin c l s = Some s' \<Longrightarrow> spin_step s s'"
| leave: "c_at s c = Leaving l \<Longrightarrow> spin_step s (release_end c l s)"

text \<open>One CPU alone: the calls run to their end, or the CPU spins for ever on a taken lock.\<close>

definition spinlock_acquire :: "cpu \<Rightarrow> addr \<Rightarrow> spin \<Rightarrow> spin option" where
  "spinlock_acquire c l s = do {
     s \<leftarrow> acquire_begin c l s;
     let s = acquire_read c l s;
     kassert (c_at s c = Setting l);
     let s = acquire_testandset c l s;
     Some (acquire_end c l s) }"

definition spinlock_release :: "cpu \<Rightarrow> addr \<Rightarrow> spin \<Rightarrow> spin option" where
  "spinlock_release c l s = do { s \<leftarrow> release_begin c l s; Some (release_end c l s) }"

section \<open>Ownership\<close>

text \<open>A CPU owns the lock word from its successful test-and-set until it clears the word.\<close>

definition owns :: "spin \<Rightarrow> cpu \<Rightarrow> addr \<Rightarrow> bool" where
  "owns s c l \<longleftrightarrow> c_at s c = Entering l \<or> c_at s c = Leaving l \<or> (splk_holder s l = c \<and> c \<noteq> 0)"

definition acquiring :: "spinpoint \<Rightarrow> bool" where
  "acquiring p \<longleftrightarrow> (case p of Elsewhere \<Rightarrow> False | Leaving l \<Rightarrow> False | _ \<Rightarrow> True)"

definition spin_ok :: "spin \<Rightarrow> bool" where
  "spin_ok s \<longleftrightarrow> (\<forall>l. splk_lock s l \<in> {0, 1}) \<and> (\<forall>l. splk_lock s l = 0 \<longleftrightarrow> (\<forall>c. \<not> owns s c l))
     \<and> (\<forall>l c d. owns s c l \<and> owns s d l \<longrightarrow> c = d)
     \<and> (\<forall>l c. c_at s c = Entering l \<or> c_at s c = Leaving l \<longrightarrow> splk_holder s l = 0)
     \<and> (\<forall>c. c \<noteq> 0 \<longrightarrow> finite {l. splk_holder s l = c}
          \<and> c_spinlocks s c = card {l. splk_holder s l = c} + (if acquiring (c_at s c) then 1 else 0))
     \<and> c_at s 0 = Elsewhere"

lemma owns_upd [simp]:
  "owns (s\<lparr>c_spinlocks := a1\<rparr>) c l = owns s c l" "owns (s\<lparr>splk_lock := a2\<rparr>) c l = owns s c l"
  by (simp_all add: owns_def)

lemma spin_okD:
  assumes "spin_ok s"
  shows "splk_lock s l \<in> {0, 1}" "splk_lock s l = 0 \<longleftrightarrow> (\<forall>c. \<not> owns s c l)" "owns s c l \<Longrightarrow> owns s d l \<Longrightarrow> c = d"
    "c_at s c = Entering l \<Longrightarrow> splk_holder s l = 0" "c_at s c = Leaving l \<Longrightarrow> splk_holder s l = 0" "c \<noteq> 0 \<Longrightarrow> finite {l. splk_holder s l = c}"
    "c \<noteq> 0 \<Longrightarrow> c_spinlocks s c = card {l. splk_holder s l = c} + (if acquiring (c_at s c) then 1 else 0)"
    "c_at s 0 = Elsewhere"
  using assms unfolding spin_ok_def by blast+

lemma at_nonzero: "spin_ok s \<Longrightarrow> c_at s c \<noteq> Elsewhere \<Longrightarrow> c \<noteq> 0"
  using spin_okD(8) by metis

lemma owner_alone:
  assumes "spin_ok s" and "owns s c l" and "d \<noteq> c"
  shows "c_at s d \<noteq> Entering l" "c_at s d \<noteq> Leaving l"
  using spin_okD(3) [OF assms(1,2), of d] assms(3) by (auto simp: owns_def)

text \<open>A move of one CPU between points that own nothing changes no ownership.\<close>

lemma owns_move:
  assumes "\<And>k. p \<noteq> Entering k \<and> p \<noteq> Leaving k" and "\<And>k. c_at s c \<noteq> Entering k \<and> c_at s c \<noteq> Leaving k"
  shows "owns (s\<lparr>c_at := (c_at s)(c := p)\<rparr>) d l = owns s d l"
  using assms by (auto simp: owns_def)

lemma spin_ok_move:
  assumes ok: "spin_ok s" and c: "c \<noteq> 0" and p: "\<And>k. p \<noteq> Entering k \<and> p \<noteq> Leaving k"
    and q: "\<And>k. c_at s c \<noteq> Entering k \<and> c_at s c \<noteq> Leaving k"
    and n: "n = c_spinlocks s c - (if acquiring (c_at s c) then 1 else 0) + (if acquiring p then 1 else 0)"
  shows "spin_ok (s\<lparr>c_spinlocks := (c_spinlocks s)(c := n), c_at := (c_at s)(c := p)\<rparr>)"
proof -
  have o: "owns (s\<lparr>c_spinlocks := (c_spinlocks s)(c := n), c_at := (c_at s)(c := p)\<rparr>) d l = owns s d l" for d l
    using p q by (auto simp: owns_def)
  have k: "c_spinlocks s c - (if acquiring (c_at s c) then 1 else 0) = card {l. splk_holder s l = c}"
    using spin_okD(7) [OF ok c] by simp
  show ?thesis unfolding spin_ok_def o
    using spin_okD [OF ok] p c k n by (auto split: if_splits)
qed

lemma acquire_begin_ok: "spin_ok s \<Longrightarrow> c \<noteq> 0 \<Longrightarrow> c_at s c = Elsewhere \<Longrightarrow> acquire_begin c l s = Some s' \<Longrightarrow> spin_ok s'"
  using spin_ok_move [of s c "Reading l" "c_spinlocks s c + 1"]
  by (auto simp: acquire_begin_def acquiring_def split: if_splits)

lemma acquire_read_ok:
  assumes "spin_ok s" and "c_at s c = Reading l"
  shows "spin_ok (acquire_read c l s)"
proof -
  have "c \<noteq> 0" using at_nonzero [of s c] assms by simp
  then have "spin_ok (s\<lparr>c_spinlocks := (c_spinlocks s)(c := c_spinlocks s c), c_at := (c_at s)(c := Setting l)\<rparr>)"
    using assms spin_okD(7) [OF assms(1), of c] by (intro spin_ok_move) (simp_all add: acquiring_def)
  then show ?thesis using assms(1) by (simp add: acquire_read_def)
qed

lemma acquire_testandset_ok:
  assumes ok: "spin_ok s" and at: "c_at s c = Setting l"
  shows "spin_ok (acquire_testandset c l s)"
proof -
  have c: "c \<noteq> 0" using at_nonzero [of s c] assms by simp
  show ?thesis
  proof (cases "splk_lock s l = 0")
    case False
    then have "(splk_lock s)(l := 1) = splk_lock s" using spin_okD(1) [OF ok, of l] by auto
    then have "acquire_testandset c l s = s\<lparr>c_spinlocks := (c_spinlocks s)(c := c_spinlocks s c), c_at := (c_at s)(c := Reading l)\<rparr>"
      using False by (simp add: acquire_testandset_def)
    then show ?thesis
      using ok at c spin_ok_move [of s c "Reading l" "c_spinlocks s c"] spin_okD(7) [OF ok c] by (simp add: acquiring_def)
  next
    case True
    let ?s = "s\<lparr>splk_lock := (splk_lock s)(l := 1), c_at := (c_at s)(c := Entering l)\<rparr>"
    have eq: "acquire_testandset c l s = ?s" using True by (simp add: acquire_testandset_def)
    have free: "\<not> owns s d l" for d using True spin_okD(2) [OF ok] by simp
    have h0: "splk_holder s l = 0" using free by (auto simp: owns_def)
    have o: "owns ?s d k = (owns s d k \<or> d = c \<and> k = l)" for d k
      using at free by (auto simp: owns_def split: if_splits)
    show ?thesis unfolding eq spin_ok_def o
      using spin_okD [OF ok] c free h0 at by (auto simp: acquiring_def)
  qed
qed

lemma acquire_end_ok:
  assumes ok: "spin_ok s" and at: "c_at s c = Entering l"
  shows "spin_ok (acquire_end c l s)"
proof -
  have c: "c \<noteq> 0" using at_nonzero [of s c] assms by simp
  have h0: "splk_holder s l = 0" using spin_okD(4,5) [OF ok] at by simp
  have own: "owns s c l" using at by (simp add: owns_def)
  have o: "owns (acquire_end c l s) d k = owns s d k" for d k
    using at c h0 by (auto simp: owns_def acquire_end_def split: if_splits)
  have hs: "{k. splk_holder (acquire_end c l s) k = d} = (if d = c then insert l {k. splk_holder s k = c} else {k. splk_holder s k = d})"
    if "d \<noteq> 0" for d using h0 that by (auto simp: acquire_end_def split: if_splits)
  have only: "c_at s d \<noteq> Entering l \<and> c_at s d \<noteq> Leaving l" if "d \<noteq> c" for d
    using owner_alone [OF ok own that] by simp
  have cnt: "finite {k. splk_holder (acquire_end c l s) k = d} \<and> c_spinlocks (acquire_end c l s) d =
      card {k. splk_holder (acquire_end c l s) k = d} + (if acquiring (c_at (acquire_end c l s) d) then 1 else 0)"
    if d: "d \<noteq> 0" for d
  proof (cases "d = c")
    case True
    have "l \<notin> {k. splk_holder s k = c}" using h0 c by simp
    then show ?thesis unfolding hs [OF d] using True spin_okD(6,7) [OF ok c] at by (simp add: acquire_end_def acquiring_def)
  next
    case False
    then show ?thesis unfolding hs [OF d] using spin_okD(6,7) [OF ok d] by (simp add: acquire_end_def)
  qed
  show ?thesis unfolding spin_ok_def o
    using spin_okD [OF ok] cnt only c by (auto simp: acquire_end_def)
qed

lemma release_begin_ok:
  assumes ok: "spin_ok s" and c: "c \<noteq> 0" and at: "c_at s c = Elsewhere" and r: "release_begin c l s = Some s'"
  shows "spin_ok s'"
proof -
  have h: "splk_holder s l = c"
    and s': "s' = s\<lparr>c_spinlocks := (c_spinlocks s)(c := c_spinlocks s c - 1), splk_holder := (splk_holder s)(l := 0),
        c_at := (c_at s)(c := Leaving l)\<rparr>" using r by (auto simp: release_begin_def split: if_splits)
  have own: "owns s c l" using h c by (simp add: owns_def)
  have o: "owns s' d k = owns s d k" for d k
    using at h c by (cases "d = c"; cases "k = l") (auto simp: owns_def s')
  have hs: "{k. splk_holder s' k = d} = (if d = c then {k. splk_holder s k = c} - {l} else {k. splk_holder s k = d})"
    if "d \<noteq> 0" for d using h that by (auto simp: s' split: if_splits)
  have cnt: "finite {k. splk_holder s' k = d} \<and> c_spinlocks s' d =
      card {k. splk_holder s' k = d} + (if acquiring (c_at s' d) then 1 else 0)" if d: "d \<noteq> 0" for d
  proof (cases "d = c")
    case True
    have "l \<in> {k. splk_holder s k = c}" using h by simp
    then show ?thesis unfolding hs [OF d] using True spin_okD(6,7) [OF ok c] at by (simp add: s' acquiring_def)
  next
    case False
    then show ?thesis unfolding hs [OF d] using spin_okD(6,7) [OF ok d] by (simp add: s')
  qed
  show ?thesis unfolding spin_ok_def o
    using spin_okD [OF ok] cnt c by (auto simp: s')
qed

lemma release_end_ok:
  assumes ok: "spin_ok s" and at: "c_at s c = Leaving l"
  shows "spin_ok (release_end c l s)"
proof -
  have c: "c \<noteq> 0" using at_nonzero [of s c] assms by simp
  have h0: "splk_holder s l = 0" using spin_okD(4,5) [OF ok] at by simp
  have own: "owns s c l" using at by (simp add: owns_def)
  have o: "owns (release_end c l s) d k = (owns s d k \<and> k \<noteq> l)" for d k
    using at h0 c owner_alone [OF ok own, of d] by (cases "d = c"; cases "k = l") (auto simp: owns_def release_end_def)
  have cnt: "c_spinlocks s d = card {k. splk_holder s k = d} + (if acquiring (c_at (release_end c l s) d) then 1 else 0)"
    if d: "d \<noteq> 0" for d using spin_okD(7) [OF ok d] at by (auto simp: release_end_def acquiring_def)
  show ?thesis unfolding spin_ok_def o
    using spin_okD [OF ok] cnt c by (auto simp: release_end_def)
qed

lemma spin_step_ok: "spin_step s s' \<Longrightarrow> spin_ok s \<Longrightarrow> spin_ok s'"
  by (induction rule: spin_step.induct)
    (auto intro: acquire_begin_ok acquire_read_ok acquire_testandset_ok acquire_end_ok release_begin_ok release_end_ok)

lemma spin_reachable_ok: "spin_step\<^sup>*\<^sup>* s s' \<Longrightarrow> spin_ok s \<Longrightarrow> spin_ok s'"
  by (induction rule: rtranclp_induct) (auto intro: spin_step_ok)

text \<open>A CPU that is alone with a free lock gets it, and releasing it restores the state.\<close>

lemma acquire_free:
  assumes "spin_ok s" and "splk_lock s l = 0" and "c \<noteq> 0" and "c_at s c = Elsewhere"
  shows "spinlock_acquire c l s = Some (s\<lparr>splk_lock := (splk_lock s)(l := 1), splk_holder := (splk_holder s)(l := c),
      c_spinlocks := (c_spinlocks s)(c := c_spinlocks s c + 1)\<rparr>)"
proof -
  have "\<not> owns s c l" using assms(2) spin_okD(2) [OF assms(1)] by simp
  then have "splk_holder s l \<noteq> c" using assms(3) by (simp add: owns_def)
  moreover have "(c_at s)(c := Elsewhere) = c_at s" using assms(4) by auto
  ultimately show ?thesis
    using assms(2) by (simp add: spinlock_acquire_def acquire_begin_def acquire_read_def acquire_testandset_def
        acquire_end_def Let_def)
qed

section \<open>Properties\<close>

text \<open>
  C21: mutual exclusion on the hardware's test-and-set.  However the CPUs interleave, at most one of
  them is past its test-and-set and has not cleared the word, the word is 1 exactly then, a recorded
  holder is that CPU, and each CPU's count of spinlocks is the number of locks it holds plus the one
  it is acquiring.
\<close>

theorem spinlock_mutual_exclusion:
  assumes "spin_ok s0" and "spin_step\<^sup>*\<^sup>* s0 s"
  shows "(\<forall>l c d. owns s c l \<and> owns s d l \<longrightarrow> c = d) \<and> (\<forall>l. splk_lock s l = 1 \<longleftrightarrow> (\<exists>c. owns s c l))
    \<and> (\<forall>c l. c \<noteq> 0 \<and> spinlock_do_i_hold c l s \<longrightarrow> owns s c l)
    \<and> (\<forall>c. c \<noteq> 0 \<longrightarrow> c_spinlocks s c = card {l. splk_holder s l = c} + (if acquiring (c_at s c) then 1 else 0))"
proof -
  have ok: "spin_ok s" using assms spin_reachable_ok by blast
  have "splk_lock s l = 1 \<longleftrightarrow> (\<exists>c. owns s c l)" for l using spin_okD(1,2) [OF ok, of l] by auto
  moreover have "c \<noteq> 0 \<and> spinlock_do_i_hold c l s \<longrightarrow> owns s c l" for c l
    by (simp add: spinlock_do_i_hold_def owns_def)
  ultimately show ?thesis using spin_okD(3,7) [OF ok] by blast
qed

definition fresh_spin :: spin where
  "fresh_spin = \<lparr>splk_lock = \<lambda>_. 0, splk_holder = \<lambda>_. 0, c_spinlocks = \<lambda>_. 0, c_at = \<lambda>_. Elsewhere\<rparr>"

lemma fresh_spin_ok: "spin_ok fresh_spin"
  by (auto simp: spin_ok_def fresh_spin_def owns_def acquiring_def)

text \<open>CPU 2 reads the word of lock 7 while CPU 3 sets it: only CPU 3 enters.\<close>

lemma spinlock_mutual_exclusion_witness:
  "\<exists>s. spin_step\<^sup>*\<^sup>* fresh_spin s \<and> owns s 3 7 \<and> c_at s 2 = Setting 7 \<and> \<not> owns s 2 7"
proof -
  let ?s1 = "fresh_spin\<lparr>c_spinlocks := (c_spinlocks fresh_spin)(2 := 1), c_at := (c_at fresh_spin)(2 := Reading 7)\<rparr>"
  let ?s2 = "acquire_read 2 7 ?s1"
  let ?s3 = "?s2\<lparr>c_spinlocks := (c_spinlocks ?s2)(3 := 1), c_at := (c_at ?s2)(3 := Reading 7)\<rparr>"
  let ?s4 = "acquire_read 3 7 ?s3"
  let ?s5 = "acquire_testandset 3 7 ?s4"
  note defs = fresh_spin_def acquire_begin_def acquire_read_def acquire_testandset_def
  have "spin_step fresh_spin ?s1" by (rule spin_step.acquire [of 2 _ 7]) (simp_all add: defs)
  also have "spin_step\<^sup>*\<^sup>* ?s1 ?s2" by (rule r_into_rtranclp, rule spin_step.read) (simp add: defs)
  also have "spin_step ?s2 ?s3" by (rule spin_step.acquire [of 3 _ 7]) (simp_all add: defs)
  also have "spin_step ?s3 ?s4" by (rule spin_step.read) (simp add: defs)
  also have "spin_step ?s4 ?s5" by (rule spin_step.set) (simp add: defs)
  finally have r: "spin_step\<^sup>*\<^sup>* fresh_spin ?s5" .
  have "owns ?s5 3 7" "c_at ?s5 2 = Setting 7" by (simp_all add: owns_def defs Let_def)
  moreover have "\<not> owns ?s5 2 7" using spinlock_mutual_exclusion [OF fresh_spin_ok r] calculation(1) by fastforce
  ultimately show ?thesis using r by blast
qed

text \<open>
  in every reachable state a CPU outside these calls that asks for a free lock gets it and
  releasing it restores the lock; asking for a lock it already holds is caught (instead of spinning
  for ever), and so is releasing a lock it does not hold.
\<close>

theorem spinlock_acquire_release:
  assumes "spin_ok s0" and "spin_step\<^sup>*\<^sup>* s0 s" and "c \<noteq> 0" and "c_at s c = Elsewhere"
  shows "(if splk_holder s l = c then spinlock_acquire c l s = None \<and> spinlock_release c l s \<noteq> None
      else spinlock_release c l s = None)
    \<and> (splk_lock s l = 0 \<longrightarrow> (\<exists>s1. spinlock_acquire c l s = Some s1 \<and> spinlock_do_i_hold c l s1 \<and> spin_ok s1
        \<and> spinlock_release c l s1 = Some s))"
proof (intro conjI impI)
  have ok: "spin_ok s" using assms spin_reachable_ok by blast
  show "if splk_holder s l = c then spinlock_acquire c l s = None \<and> spinlock_release c l s \<noteq> None
      else spinlock_release c l s = None"
  proof (cases "splk_holder s l = c")
    case True
    then have "l \<in> {k. splk_holder s k = c}" by simp
    then have "c_spinlocks s c > 0"
      using spin_okD(6,7) [OF ok assms(3)] card_gt_0_iff by (metis (no_types, lifting) add_gr_0 empty_iff)
    with True show ?thesis by (simp add: spinlock_acquire_def acquire_begin_def spinlock_release_def release_begin_def)
  qed (simp add: spinlock_release_def release_begin_def)
  assume free: "splk_lock s l = 0"
  let ?s1 = "s\<lparr>splk_lock := (splk_lock s)(l := 1), splk_holder := (splk_holder s)(l := c),
      c_spinlocks := (c_spinlocks s)(c := c_spinlocks s c + 1)\<rparr>"
  have h0: "splk_holder s l = 0" using free spin_okD(2) [OF ok, of l] by (auto simp: owns_def)
  have acq: "spinlock_acquire c l s = Some ?s1" by (rule acquire_free [OF ok free assms(3,4)])
  have "(splk_lock s)(l := 0) = splk_lock s" "(splk_holder s)(l := 0) = splk_holder s" "(c_at s)(c := Elsewhere) = c_at s"
    using free h0 assms(4) by auto
  then have "spinlock_release c l ?s1 = Some s" by (simp add: spinlock_release_def release_begin_def release_end_def)
  moreover have "spin_ok ?s1"
  proof -
    let ?a = "s\<lparr>c_spinlocks := (c_spinlocks s)(c := c_spinlocks s c + 1), c_at := (c_at s)(c := Reading l)\<rparr>"
    have "spin_ok ?a"
      using assms(3,4) h0 by (intro acquire_begin_ok [OF ok assms(3,4), of l]) (simp add: acquire_begin_def)
    then have "spin_ok (acquire_end c l (acquire_testandset c l (acquire_read c l ?a)))"
      using free by (intro acquire_end_ok acquire_testandset_ok acquire_read_ok)
        (simp_all add: acquire_read_def acquire_testandset_def)
    moreover have "acquire_end c l (acquire_testandset c l (acquire_read c l ?a)) = ?s1"
      using free \<open>(c_at s)(c := Elsewhere) = c_at s\<close> by (simp add: acquire_read_def acquire_testandset_def acquire_end_def)
    ultimately show ?thesis by simp
  qed
  ultimately show "\<exists>s1. spinlock_acquire c l s = Some s1 \<and> spinlock_do_i_hold c l s1 \<and> spin_ok s1
      \<and> spinlock_release c l s1 = Some s"
    using acq by (simp add: spinlock_do_i_hold_def)
qed

lemma spinlock_acquire_release_witness:
  "\<exists>s1. spinlock_acquire 2 7 fresh_spin = Some s1 \<and> spinlock_do_i_hold 2 7 s1 \<and> spinlock_release 2 7 s1 = Some fresh_spin"
  using spinlock_acquire_release [OF fresh_spin_ok rtranclp.rtrancl_refl, of 2 7] by (auto simp: fresh_spin_def)

end
