(* ===== verification/Critical.thy ===== *)
theory Critical
  imports Synch
begin

text \<open>
  How kernel code uses a lock: \<open>lock_acquire\<close>, some work, \<open>lock_release\<close>.  Many functions of the
  kernel release the lock on every one of their return paths; \<open>critical\<close> is this shape, with the
  early returns as values of the work.  The contract \<open>mutex\<close> says what the clients need of a lock,
  and is interpreted on the sleep locks of \<open>Synch\<close>.

  A run of \<open>critical\<close> begins when the thread gets the lock: a thread that had to sleep in
  \<open>lock_acquire\<close> first goes on from a state in which the lock is free (\<open>lock_round\<close>), and what
  happens to sleepers is the subject of \<open>Synch\<close>.
\<close>

definition guarded ::
  "('l \<Rightarrow> 's \<Rightarrow> 's option) \<Rightarrow> ('l \<Rightarrow> 's \<Rightarrow> 's option) \<Rightarrow> 'l \<Rightarrow> ('s \<Rightarrow> ('r \<times> 's) option) \<Rightarrow> 's \<Rightarrow> ('r \<times> 's) option" where
  "guarded enter leave l f s = do { s \<leftarrow> enter l s; (r, s) \<leftarrow> f s; s \<leftarrow> leave l s; Some (r, s) }"

locale mutex =
  fixes enter :: "'l \<Rightarrow> 's \<Rightarrow> 's option"
    and leave :: "'l \<Rightarrow> 's \<Rightarrow> 's option"
    and idle :: "'s \<Rightarrow> 'l \<Rightarrow> bool"       \<comment> \<open>free, and nobody waits\<close>
    and mine :: "'s \<Rightarrow> 'l \<Rightarrow> bool"       \<comment> \<open>held by this thread, and nobody waits\<close>
    and take :: "'l \<Rightarrow> 's \<Rightarrow> 's"
    and drop :: "'l \<Rightarrow> 's \<Rightarrow> 's"
  assumes enter: "idle s l \<Longrightarrow> enter l s = Some (take l s)"
    and mine_take: "idle s l \<Longrightarrow> mine (take l s) l"
    and leave: "mine s l \<Longrightarrow> leave l s = Some (drop l s)"
    and idle_drop: "mine s l \<Longrightarrow> idle (drop l s) l"
    and drop_take: "idle s l \<Longrightarrow> drop l (take l s) = s"
    and reenter: "mine s l \<Longrightarrow> enter l s = None"
    and leave_idle: "idle s l \<Longrightarrow> leave l s = None"
begin

lemma guarded_eq:
  "idle s l \<Longrightarrow> f (take l s) = Some (r, s1) \<Longrightarrow> mine s1 l \<Longrightarrow> guarded enter leave l f s = Some (r, drop l s1)"
  by (simp add: guarded_def enter leave)

lemma guarded_None: "idle s l \<Longrightarrow> f (take l s) = None \<Longrightarrow> guarded enter leave l f s = None"
  by (simp add: guarded_def enter)

text \<open>Work that only reads leaves no trace.\<close>

lemma guarded_read: "idle s l \<Longrightarrow> guarded enter leave l (\<lambda>s. Some (g s, s)) s = Some (g (take l s), s)"
  by (simp add: guarded_def enter leave mine_take drop_take)

text \<open>Work that does not look at the lock.\<close>

lemma guarded_pure:
  "idle s l \<Longrightarrow> f (take l s) = Some (r, take l s1) \<Longrightarrow> idle s1 l \<Longrightarrow> guarded enter leave l f s = Some (r, s1)"
  by (simp add: guarded_eq mine_take drop_take)

text \<open>The lock is not reentrant.\<close>

lemma guarded_nested: "idle s l \<Longrightarrow> guarded enter leave l (guarded enter leave l f) s = None"
  by (simp add: guarded_def enter reenter mine_take)

end

section \<open>Sleep locks\<close>

text \<open>\<open>lock_acquire\<close> in a run that does not have to sleep.\<close>

definition lock_now :: "addr \<Rightarrow> 'a sync_scheme \<Rightarrow> 'a sync_scheme option" where
  "lock_now l s = do { (got, s) \<leftarrow> lock_acquire l s; kassert got; Some s }"

definition critical :: "addr \<Rightarrow> ('a sync_scheme \<Rightarrow> ('r \<times> 'a sync_scheme) option) \<Rightarrow> 'a sync_scheme \<Rightarrow> ('r \<times> 'a sync_scheme) option" where
  "critical = guarded lock_now lock_release"

definition lock_idle :: "'a sync_scheme \<Rightarrow> addr \<Rightarrow> bool" where
  "lock_idle s l \<longleftrightarrow> l \<noteq> 0 \<and> lk_available s l \<and> lk_holder s l = 0 \<and> on_list s (Wchan (lk_wchan s l)) []
     \<and> curthread s \<noteq> 0 \<and> \<not> t_in_interrupt s (curthread s)"

definition lock_mine :: "'a sync_scheme \<Rightarrow> addr \<Rightarrow> bool" where
  "lock_mine s l \<longleftrightarrow> l \<noteq> 0 \<and> \<not> lk_available s l \<and> lk_holder s l = curthread s \<and> on_list s (Wchan (lk_wchan s l)) []
     \<and> curthread s \<noteq> 0 \<and> \<not> t_in_interrupt s (curthread s)"

definition taken :: "addr \<Rightarrow> 'a sync_scheme \<Rightarrow> 'a sync_scheme" where
  "taken l s = s\<lparr>lk_available := (lk_available s)(l := False), lk_holder := (lk_holder s)(l := curthread s)\<rparr>"

definition dropped :: "addr \<Rightarrow> 'a sync_scheme \<Rightarrow> 'a sync_scheme" where
  "dropped l s = s\<lparr>lk_available := (lk_available s)(l := True), lk_holder := (lk_holder s)(l := 0)\<rparr>"

interpretation lk: mutex lock_now lock_release lock_idle lock_mine taken dropped
proof unfold_locales
  fix s :: "'a sync_scheme" and l
  show "lock_idle s l \<Longrightarrow> lock_now l s = Some (taken l s)"
    by (simp add: lock_idle_def lock_now_def lock_acquire_def lock_do_i_hold_def lock_round_def taken_def)
  show "lock_idle s l \<Longrightarrow> lock_mine (taken l s) l"
    by (simp add: lock_idle_def lock_mine_def taken_def)
  show "lock_mine s l \<Longrightarrow> lock_release l s = Some (dropped l s)"
    by (simp add: lock_mine_def lock_release_def dropped_def wchan_wakeone_def remhead_empty)
  show "lock_mine s l \<Longrightarrow> lock_idle (dropped l s) l"
    by (simp add: lock_idle_def lock_mine_def dropped_def)
  show "dropped l (taken l s) = s" if "lock_idle s l"
  proof -
    have "(lk_available s)(l := True) = lk_available s" "(lk_holder s)(l := 0) = lk_holder s"
      using that by (simp_all add: lock_idle_def fun_upd_idem)
    then show ?thesis by (simp add: dropped_def taken_def)
  qed
  show "lock_mine s l \<Longrightarrow> lock_now l s = None"
    by (simp add: lock_mine_def lock_now_def lock_acquire_def lock_do_i_hold_def)
  show "lock_idle s l \<Longrightarrow> lock_release l s = None"
    by (auto simp: lock_idle_def lock_release_def)
qed

lemmas critical_eq = lk.guarded_eq [folded critical_def]
lemmas critical_read = lk.guarded_read [folded critical_def]
lemmas critical_pure = lk.guarded_pure [folded critical_def]
lemmas critical_None = lk.guarded_None [folded critical_def]

text \<open>What a section does not touch.\<close>

lemma lock_sel [simp]:
  "live (taken l s) = live s" "live (dropped l s) = live s" "ticks (taken l s) = ticks s" "ticks (dropped l s) = ticks s"
  "oom (taken l s) = oom s" "oom (dropped l s) = oom s" "c_curthread (taken l s) = c_curthread s"
  "c_curthread (dropped l s) = c_curthread s" "curcpu (taken l s) = curcpu s" "curcpu (dropped l s) = curcpu s"
  "t_in_interrupt (taken l s) = t_in_interrupt s" "t_in_interrupt (dropped l s) = t_in_interrupt s"
  "lk_wchan (taken l s) = lk_wchan s" "lk_wchan (dropped l s) = lk_wchan s"
  "lk_name (taken l s) = lk_name s" "lk_name (dropped l s) = lk_name s"
  "sync.more (taken l s) = sync.more s" "sync.more (dropped l s) = sync.more s"
  by (simp_all add: taken_def dropped_def)

lemma lock_other [simp]:
  "l \<noteq> k \<Longrightarrow> lock_idle (taken l s) k = lock_idle s k" "l \<noteq> k \<Longrightarrow> lock_idle (dropped l s) k = lock_idle s k"
  "l \<noteq> k \<Longrightarrow> lock_mine (taken l s) k = lock_mine s k" "l \<noteq> k \<Longrightarrow> lock_mine (dropped l s) k = lock_mine s k"
  by (simp_all add: lock_idle_def lock_mine_def taken_def dropped_def)

text \<open>What a lock depends on.\<close>

lemma lock_idle_cong:
  "tln_prev s' = tln_prev s \<Longrightarrow> tln_next s' = tln_next s \<Longrightarrow> tln_self s' = tln_self s \<Longrightarrow> tl_count s' = tl_count s \<Longrightarrow>
   lk_available s' = lk_available s \<Longrightarrow> lk_holder s' = lk_holder s \<Longrightarrow> lk_wchan s' = lk_wchan s \<Longrightarrow>
   curthread s' = curthread s \<Longrightarrow> t_in_interrupt s' = t_in_interrupt s \<Longrightarrow> lock_idle s' l = lock_idle s l"
  unfolding lock_idle_def using on_list_cong [of s' s] by auto

lemma boot_lock_idle: "l \<noteq> 0 \<Longrightarrow> lock_idle (sync.extend boot_sync x) l"
proof -
  assume "l \<noteq> 0"
  have "on_list boot_sync (Wchan 41) []" by (simp add: boot_sync_def all_empty_lists)
  then have "on_list (sync.extend boot_sync x) (Wchan 41) []"
    using on_list_cong [of "sync.extend boot_sync x" boot_sync] by (simp add: sync.defs)
  then show ?thesis using \<open>l \<noteq> 0\<close> by (simp add: lock_idle_def sync.defs boot_fields)
qed

end
