(* ===== verification/Linked_List.thy ===== *)
theory Linked_List
  imports Critical
begin

text \<open>
  The concurrent list of \<open>kern/concurrent_list/linked_list.c\<close>: a doubly linked list ordered by key,
  protected by one lock, on an explicit heap of nodes.  The relation \<open>holds\<close> says which nodes a list
  has, and the operations are proved to act on the sequence of (key, data) pairs: insertion in front
  of the first key that is not smaller, insertion at the front below the smallest key, and removal of
  the first pair.

  \<open>yield_on_test\<close> is the test hook that gives up the CPU when \<open>test_num\<close> says so.
\<close>

section \<open>Operations\<close>

record llists = sync +
  n_prev :: "addr \<Rightarrow> addr"
  n_next :: "addr \<Rightarrow> addr"
  n_key :: "addr \<Rightarrow> int"
  n_data :: "addr \<Rightarrow> addr"
  l_first :: "addr \<Rightarrow> addr"
  l_last :: "addr \<Rightarrow> addr"
  l_length :: "addr \<Rightarrow> int"
  l_lock :: "addr \<Rightarrow> addr"
  test_num :: int

definition yield_on_test :: "int \<Rightarrow> 'a llists_scheme \<Rightarrow> 'a llists_scheme option" where
  "yield_on_test test s = (if test_num s = test then thread_yield s else Some s)"

text \<open>The result of \<open>kmalloc\<close> is used unchecked: without memory the store through NULL stops the machine.\<close>

definition linked_list_create :: "'a llists_scheme \<Rightarrow> (addr \<times> 'a llists_scheme) option" where
  "linked_list_create s = do {
     let (ptr, s) = kmalloc s;
     kassert (ptr \<noteq> 0);
     let s = s\<lparr>l_length := (l_length s)(ptr := 0), l_first := (l_first s)(ptr := 0), l_last := (l_last s)(ptr := 0)\<rparr>;
     (lock, s) \<leftarrow> lock_create s;
     let s = s\<lparr>l_lock := (l_lock s)(ptr := lock)\<rparr>;
     if lock = 0 then do { s \<leftarrow> kfree ptr s; Some (0, s) } else Some (ptr, s) }"

definition linked_list_create_node :: "int \<Rightarrow> addr \<Rightarrow> 'a llists_scheme \<Rightarrow> (addr \<times> 'a llists_scheme) option" where
  "linked_list_create_node key data s = do {
     let (newnode, s) = kmalloc s;
     kassert (newnode \<noteq> 0);
     Some (newnode, s\<lparr>n_prev := (n_prev s)(newnode := 0), n_next := (n_next s)(newnode := 0),
                      n_key := (n_key s)(newnode := key), n_data := (n_data s)(newnode := data)\<rparr>) }"

definition linked_list_prepend :: "addr \<Rightarrow> addr \<Rightarrow> 'a llists_scheme \<Rightarrow> (unit \<times> 'a llists_scheme) option" where
  "linked_list_prepend list data s = critical (l_lock s list) (\<lambda>s. do {
     let f = l_first s list;
     s \<leftarrow> yield_on_test 4 s;
     s \<leftarrow> (if l_first s list = 0 then do {
             (newnode, s) \<leftarrow> linked_list_create_node 0 data s;
             Some (s\<lparr>l_first := (l_first s)(list := newnode), l_last := (l_last s)(list := newnode)\<rparr>) }
           else do {
             kassert (f \<noteq> 0);
             (newnode, s) \<leftarrow> linked_list_create_node (s32 (n_key s f - 1)) data s;
             let s = s\<lparr>n_next := (n_next s)(newnode := l_first s list)\<rparr>;
             let s = s\<lparr>n_prev := (n_prev s)(f := newnode)\<rparr>;
             Some (s\<lparr>l_first := (l_first s)(list := newnode)\<rparr>) });
     Some ((), s\<lparr>l_length := (l_length s)(list := s32 (l_length s list + 1))\<rparr>) }) s"

text \<open>The search loop of \<open>linked_list_insert\<close>.\<close>

partial_function (option) find_runner :: "'a llists_scheme \<Rightarrow> int \<Rightarrow> addr \<Rightarrow> addr option" where
  "find_runner s key runner =
     (if runner \<noteq> 0 \<and> n_key s runner < key then find_runner s key (n_next s runner) else Some runner)"

definition insert_before :: "addr \<Rightarrow> addr \<Rightarrow> 'a llists_scheme \<Rightarrow> 'a llists_scheme option" where
  "insert_before new runner s = do {
     let prev = n_prev s runner;
     let s = s\<lparr>n_next := (n_next s)(new := runner)\<rparr>;
     s \<leftarrow> yield_on_test 2 s;
     let s = s\<lparr>n_prev := (n_prev s)(new := prev)\<rparr>;
     let s = s\<lparr>n_prev := (n_prev s)(runner := new)\<rparr>;
     Some (if prev \<noteq> 0 then s\<lparr>n_next := (n_next s)(prev := new)\<rparr> else s) }"

definition insert_last :: "addr \<Rightarrow> addr \<Rightarrow> 'a llists_scheme \<Rightarrow> 'a llists_scheme option" where
  "insert_last list new s = do {
     let last = l_last s list;
     let s = s\<lparr>n_next := (n_next s)(new := 0)\<rparr>;
     let s = s\<lparr>n_prev := (n_prev s)(new := last)\<rparr>;
     kassert (last \<noteq> 0);
     Some (s\<lparr>n_next := (n_next s)(last := new)\<rparr>) }"

definition linked_list_insert :: "addr \<Rightarrow> int \<Rightarrow> addr \<Rightarrow> 'a llists_scheme \<Rightarrow> (unit \<times> 'a llists_scheme) option" where
  "linked_list_insert list key data s =
     (if list = 0 then Some ((), s)
      else critical (l_lock s list) (\<lambda>s. do {
        (new, s) \<leftarrow> linked_list_create_node key data s;
        let runner = l_first s list;
        s \<leftarrow> (if runner = 0 then do {
                s \<leftarrow> yield_on_test 1 s;
                Some (s\<lparr>l_first := (l_first s)(list := new), l_last := (l_last s)(list := new)\<rparr>) }
              else do {
                runner \<leftarrow> find_runner s key runner;
                s \<leftarrow> (if runner \<noteq> 0 then insert_before new runner s else insert_last list new s);
                let s = (if n_prev s new = 0 then s\<lparr>l_first := (l_first s)(list := new)\<rparr> else s);
                Some (if n_next s new = 0 then s\<lparr>l_last := (l_last s)(list := new)\<rparr> else s) });
        Some ((), s\<lparr>l_length := (l_length s)(list := s32 (l_length s list + 1))\<rparr>) }) s)"

text \<open>The data returned is NULL, and no key is stored, for an empty list; the node is freed after the lock is released.\<close>

definition linked_list_remove_head ::
  "addr \<Rightarrow> 'a llists_scheme \<Rightarrow> ((addr \<times> int option) \<times> 'a llists_scheme) option" where
  "linked_list_remove_head list s =
     (if list = 0 then Some ((0, None), s)
      else do {
        ((removed, data, key), s) \<leftarrow> critical (l_lock s list) (\<lambda>s. do {
          let removed = l_first s list;
          if removed = 0 then Some ((0, 0, None), s)
          else do {
            let new_head = n_next s removed;
            s \<leftarrow> yield_on_test 3 s;
            let data = n_data s removed;
            let key = n_key s removed;
            let s = s\<lparr>l_first := (l_first s)(list := new_head)\<rparr>;
            let s = (if new_head \<noteq> 0 then s\<lparr>n_prev := (n_prev s)(new_head := 0)\<rparr> else s);
            let s = (if l_length s list \<le> 2 then s\<lparr>l_last := (l_last s)(list := new_head)\<rparr> else s);
            Some ((removed, data, Some key), s\<lparr>l_length := (l_length s)(list := s32 (l_length s list - 1))\<rparr>) } }) s;
        s \<leftarrow> kfree removed s;
        Some ((data, key), s) })"

section \<open>Representation\<close>

definition head_of :: "addr list \<Rightarrow> addr \<Rightarrow> addr" where
  "head_of ns q = (case ns of [] \<Rightarrow> q | n # _ \<Rightarrow> n)"

definition last_of :: "addr list \<Rightarrow> addr \<Rightarrow> addr" where
  "last_of ns p = (if ns = [] then p else last ns)"

text \<open>The nodes \<open>ns\<close> in a row, after \<open>p\<close> and before \<open>q\<close>.\<close>

fun seg :: "(addr \<Rightarrow> addr) \<Rightarrow> (addr \<Rightarrow> addr) \<Rightarrow> addr \<Rightarrow> addr list \<Rightarrow> addr \<Rightarrow> bool" where
  "seg pr nx p [] q \<longleftrightarrow> True"
| "seg pr nx p (n # ns) q \<longleftrightarrow> pr n = p \<and> nx n = head_of ns q \<and> seg pr nx n ns q"

lemma seg_append:
  "seg pr nx p (xs @ ys) q \<longleftrightarrow> seg pr nx p xs (head_of ys q) \<and> seg pr nx (last_of xs p) ys q"
  by (induction xs arbitrary: p) (auto simp: head_of_def last_of_def split: list.split)

lemma seg_frame:
  "(\<And>n. n \<in> set ns \<Longrightarrow> pr' n = pr n \<and> nx' n = nx n) \<Longrightarrow> seg pr' nx' p ns q = seg pr nx p ns q"
  by (induction ns arbitrary: p) auto

text \<open>Relinking the outer ends of a row.\<close>

lemma seg_front:
  assumes "seg pr nx p ys q" and "\<And>n. n \<in> set ys \<Longrightarrow> nx' n = nx n" and "\<And>n. n \<in> set (tl ys) \<Longrightarrow> pr' n = pr n"
    and "ys \<noteq> [] \<Longrightarrow> pr' (hd ys) = m"
  shows "seg pr' nx' m ys q"
  using assms seg_frame [of "tl ys" pr' pr nx' nx "hd ys" q] by (cases ys) auto

lemma seg_back:
  assumes "seg pr nx p xs q" and "\<And>n. n \<in> set xs \<Longrightarrow> pr' n = pr n" and "\<And>n. n \<in> set (butlast xs) \<Longrightarrow> nx' n = nx n"
    and "xs \<noteq> [] \<Longrightarrow> nx' (last xs) = m"
  shows "seg pr' nx' p xs m"
  using assms
proof (induction xs arbitrary: p)
  case (Cons x xs)
  then show ?case by (cases xs) (auto simp: head_of_def)
qed simp

text \<open>A node linked in between.\<close>

lemma seg_link:
  assumes "seg pr nx p (xs @ ys) q" and "pr' new = last_of xs p" and "nx' new = head_of ys q"
    and "\<And>n. n \<in> set xs \<Longrightarrow> pr' n = pr n" and "\<And>n. n \<in> set (butlast xs) \<Longrightarrow> nx' n = nx n" and "xs \<noteq> [] \<Longrightarrow> nx' (last xs) = new"
    and "\<And>n. n \<in> set ys \<Longrightarrow> nx' n = nx n" and "\<And>n. n \<in> set (tl ys) \<Longrightarrow> pr' n = pr n" and "ys \<noteq> [] \<Longrightarrow> pr' (hd ys) = new"
  shows "seg pr' nx' p (xs @ new # ys) q"
proof -
  from assms(1) have x: "seg pr nx p xs (head_of ys q)" and y: "seg pr nx (last_of xs p) ys q" by (simp_all add: seg_append)
  have "seg pr' nx' p xs new" using x assms(4-6) by (rule seg_back)
  moreover have "seg pr' nx' new ys q" using y assms(7-9) by (rule seg_front)
  ultimately show ?thesis using assms(2,3) by (simp add: seg_append head_of_def [of "new # _"])
qed

definition holds :: "'a llists_scheme \<Rightarrow> addr \<Rightarrow> addr list \<Rightarrow> bool" where
  "holds s l ns \<longleftrightarrow> seg (n_prev s) (n_next s) 0 ns 0 \<and> distinct ns \<and> 0 \<notin> set ns \<and> set ns \<subseteq> live s
     \<and> l_first s l = head_of ns 0 \<and> l_last s l = last_of ns 0 \<and> l_length s l = int (length ns)
     \<and> length ns < 2147483647"

definition pairs :: "'a llists_scheme \<Rightarrow> addr list \<Rightarrow> (int \<times> addr) list" where
  "pairs s ns = map (\<lambda>n. (n_key s n, n_data s n)) ns"

lemma find_runner_spec:
  assumes "seg (n_prev s) (n_next s) p ns 0" and "0 \<notin> set ns"
  shows "find_runner s key (head_of ns 0) = Some (head_of (dropWhile (\<lambda>n. n_key s n < key) ns) 0)"
  using assms
proof (induction ns arbitrary: p)
  case Nil
  then show ?case by (subst find_runner.simps) (simp add: head_of_def)
next
  case (Cons n ns)
  then show ?case by (subst find_runner.simps) (auto simp: head_of_def [of "n # _"])
qed

section \<open>What the operations do\<close>

text \<open>The hypotheses of a call: memory is sane, no test wants a yield, and nobody uses the lock of the list.\<close>

definition ready :: "'a llists_scheme \<Rightarrow> addr \<Rightarrow> bool" where
  "ready s l \<longleftrightarrow> kmem_ok s \<and> test_num s = 0 \<and> l \<noteq> 0 \<and> lock_idle s (l_lock s l)"

lemma taken_sel [simp]:
  "n_prev (taken k s) = n_prev s" "n_next (taken k s) = n_next s" "n_key (taken k s) = n_key s" "n_data (taken k s) = n_data s"
  "l_first (taken k s) = l_first s" "l_last (taken k s) = l_last s" "l_length (taken k s) = l_length s"
  "l_lock (taken k s) = l_lock s" "test_num (taken k s) = test_num s"
  "n_prev (dropped k s) = n_prev s" "n_next (dropped k s) = n_next s" "n_key (dropped k s) = n_key s" "n_data (dropped k s) = n_data s"
  "l_first (dropped k s) = l_first s" "l_last (dropped k s) = l_last s" "l_length (dropped k s) = l_length s"
  "l_lock (dropped k s) = l_lock s" "test_num (dropped k s) = test_num s"
  by (simp_all add: taken_def dropped_def)

lemma yield_none [simp]: "test_num s = 0 \<Longrightarrow> t \<noteq> 0 \<Longrightarrow> yield_on_test t s = Some s"
  by (simp add: yield_on_test_def)

lemma create_node_eq:
  "\<not> oom s (ticks s) \<Longrightarrow> linked_list_create_node k d s = Some (Suc (ticks s),
     s\<lparr>ticks := Suc (ticks s), live := insert (Suc (ticks s)) (live s),
       n_prev := (n_prev s)(Suc (ticks s) := 0), n_next := (n_next s)(Suc (ticks s) := 0),
       n_key := (n_key s)(Suc (ticks s) := k), n_data := (n_data s)(Suc (ticks s) := d)\<rparr>)"
  by (simp add: linked_list_create_node_def kmalloc_def Let_def)

definition spliced :: "addr \<Rightarrow> addr list \<Rightarrow> addr list \<Rightarrow> 'a llists_scheme \<Rightarrow> 'a llists_scheme" where
  "spliced new xs ys s = s\<lparr>
     n_prev := (\<lambda>n. if n = new then last_of xs 0 else if ys \<noteq> [] \<and> n = hd ys then new else n_prev s n),
     n_next := (\<lambda>n. if n = new then head_of ys 0 else if xs \<noteq> [] \<and> n = last xs then new else n_next s n)\<rparr>"

lemma insert_before_eq:
  assumes "test_num s = 0" and "seg (n_prev s) (n_next s) 0 (xs @ ys) 0" and "0 \<notin> set xs" and "ys \<noteq> []"
    and "new \<notin> set (xs @ ys)" and "0 \<notin> set ys"
  shows "insert_before new (hd ys) s = Some (spliced new xs ys s)"
proof -
  have p: "n_prev s (hd ys) = last_of xs 0" using assms(2,4) by (cases ys) (auto simp: seg_append)
  have l: "last_of xs 0 = 0 \<longleftrightarrow> xs = []" "last_of xs 0 = (if xs = [] then 0 else last xs)"
    using assms(3) by (metis last_of_def last_in_set) (simp add: last_of_def)
  have "xs \<noteq> [] \<Longrightarrow> 0 < last xs" using l(1) by (auto simp: last_of_def)
  moreover have "hd ys \<noteq> new" "xs \<noteq> [] \<Longrightarrow> last xs \<noteq> new" using assms(4,5) last_in_set [of xs] hd_in_set [of ys] by auto
  ultimately show ?thesis
    using assms(1,4) unfolding insert_before_def spliced_def Let_def
    by (auto simp: p l(1) head_of_def last_of_def fun_eq_iff split: list.split intro!: llists.equality)
qed

lemma insert_last_eq:
  assumes "l_last s l = last xs" and "xs \<noteq> []" and "0 \<notin> set xs" and "new \<notin> set xs"
  shows "insert_last l new s = Some (spliced new xs [] s)"
proof -
  have "last xs \<noteq> 0" "last xs \<noteq> new" using assms(2-4) last_in_set [of xs] by metis+
  then show ?thesis using assms(1,2)
    by (auto simp: insert_last_def spliced_def Let_def head_of_def last_of_def fun_eq_iff intro!: llists.equality)
qed

lemma spliced_seg:
  assumes "seg (n_prev s) (n_next s) 0 (xs @ ys) 0" and "distinct (xs @ ys)" and "new \<notin> set (xs @ ys)"
  shows "seg (n_prev (spliced new xs ys s)) (n_next (spliced new xs ys s)) 0 (xs @ new # ys) 0"
proof (rule seg_link [OF assms(1)])
  show "n_next (spliced new xs ys s) n = n_next s n" if "n \<in> set (butlast xs)" for n
  proof -
    have "last xs \<notin> set (butlast xs)" if "xs \<noteq> []"
      using assms(2) that append_butlast_last_id [of xs] by (metis distinct_append distinct_butlast not_distinct_conv_prefix)
    then show ?thesis using that assms(3) in_set_butlastD [OF that] by (auto simp: spliced_def)
  qed
  show "n_prev (spliced new xs ys s) n = n_prev s n" if "n \<in> set (tl ys)" for n
    using that assms(2,3) by (cases ys) (auto simp: spliced_def)
  show "n_prev (spliced new xs ys s) n = n_prev s n" if "n \<in> set xs" for n
    using that assms(2,3) hd_in_set [of ys] by (auto simp: spliced_def)
  show "n_next (spliced new xs ys s) n = n_next s n" if "n \<in> set ys" for n
  proof -
    have "last xs \<notin> set ys" if "xs \<noteq> []" using assms(2) last_in_set [OF that] by auto
    then show ?thesis using that assms(3) by (auto simp: spliced_def)
  qed
  show "xs \<noteq> [] \<Longrightarrow> n_next (spliced new xs ys s) (last xs) = new"
    using assms(3) last_in_set [of xs] by (auto simp: spliced_def)
  show "ys \<noteq> [] \<Longrightarrow> n_prev (spliced new xs ys s) (hd ys) = new"
    using assms(3) hd_in_set [of ys] by (auto simp: spliced_def)
qed (simp_all add: spliced_def)

text \<open>The insertion as a whole, up to the lock.\<close>

definition inserted :: "addr \<Rightarrow> int \<Rightarrow> addr \<Rightarrow> addr list \<Rightarrow> addr list \<Rightarrow> 'a llists_scheme \<Rightarrow> 'a llists_scheme" where
  "inserted l k d xs ys s = (let new = Suc (ticks s) in
     (spliced new xs ys s)\<lparr>ticks := new, live := insert new (live s), n_key := (n_key s)(new := k), n_data := (n_data s)(new := d),
        l_first := (if xs = [] then (l_first s)(l := new) else l_first s),
        l_last := (if ys = [] then (l_last s)(l := new) else l_last s),
        l_length := (l_length s)(l := l_length s l + 1)\<rparr>)"

lemma inserted_sel:
  "oom (inserted l k d xs ys s) = oom s" "ticks (inserted l k d xs ys s) = Suc (ticks s)"
  "live (inserted l k d xs ys s) = insert (Suc (ticks s)) (live s)"
  by (simp_all add: inserted_def spliced_def Let_def)

lemma holds_fresh: "kmem_ok s \<Longrightarrow> holds s l ns \<Longrightarrow> Suc (ticks s) \<notin> set ns"
  using kmem_ok_fresh [of s] by (auto simp: holds_def)

lemma holds_inserted:
  assumes h: "holds s l (xs @ ys)" and m: "kmem_ok s" and len: "length (xs @ ys) < 2147483646"
  shows "holds (inserted l k d xs ys s) l (xs @ Suc (ticks s) # ys)"
proof -
  let ?n = "Suc (ticks s)"
  have f: "?n \<notin> set (xs @ ys)" using holds_fresh [OF m h] .
  have "seg (n_prev (spliced ?n xs ys s)) (n_next (spliced ?n xs ys s)) 0 (xs @ ?n # ys) 0"
    using h f by (intro spliced_seg) (auto simp: holds_def)
  moreover have "distinct (xs @ ?n # ys)" "0 \<notin> set (xs @ ?n # ys)" "set (xs @ ?n # ys) \<subseteq> insert ?n (live s)"
    using h f by (auto simp: holds_def)
  ultimately show ?thesis
    using h len by (auto simp: holds_def inserted_def Let_def head_of_def last_of_def split: list.split)
qed

lemma pairs_inserted:
  "Suc (ticks s) \<notin> set (xs @ ys) \<Longrightarrow> pairs (inserted l k d xs ys s) (xs @ Suc (ticks s) # ys) = pairs s xs @ (k, d) # pairs s ys"
  by (auto simp: pairs_def inserted_def spliced_def Let_def)

lemma insert_body:
  assumes h: "holds s l (xs @ ys)" and m: "kmem_ok s" and t: "test_num s = 0" and o: "\<not> oom s (ticks s)"
    and len: "length (xs @ ys) < 2147483646"
    and xs: "\<forall>n\<in>set xs. n_key s n < k" and ys: "ys \<noteq> [] \<Longrightarrow> \<not> n_key s (hd ys) < k"
  shows "(do {
        (new, s) \<leftarrow> linked_list_create_node k d s;
        let runner = l_first s l;
        s \<leftarrow> (if runner = 0 then do {
                s \<leftarrow> yield_on_test 1 s;
                Some (s\<lparr>l_first := (l_first s)(l := new), l_last := (l_last s)(l := new)\<rparr>) }
              else do {
                runner \<leftarrow> find_runner s k runner;
                s \<leftarrow> (if runner \<noteq> 0 then insert_before new runner s else insert_last l new s);
                let s = (if n_prev s new = 0 then s\<lparr>l_first := (l_first s)(l := new)\<rparr> else s);
                Some (if n_next s new = 0 then s\<lparr>l_last := (l_last s)(l := new)\<rparr> else s) });
        Some ((), s\<lparr>l_length := (l_length s)(l := s32 (l_length s l + 1))\<rparr>) }) = Some ((), inserted l k d xs ys s)"
proof -
  let ?n = "Suc (ticks s)"
  define s1 where "s1 = s\<lparr>ticks := Suc (ticks s), live := insert ?n (live s), n_prev := (n_prev s)(?n := 0), n_next := (n_next s)(?n := 0),
       n_key := (n_key s)(?n := k), n_data := (n_data s)(?n := d)\<rparr>"
  have f: "?n \<notin> set (xs @ ys)" using holds_fresh [OF m h] .
  have z: "0 \<notin> set (xs @ ys)" using h by (simp add: holds_def)
  have c: "linked_list_create_node k d s = Some (?n, s1)" using create_node_eq [OF o] by (simp add: s1_def)
  have sg: "seg (n_prev s1) (n_next s1) 0 (xs @ ys) 0"
    using f h by (subst seg_frame [where pr = "n_prev s" and nx = "n_next s"]) (auto simp: s1_def holds_def)
  have s32: "s32 (int (length (xs @ ys)) + 1) = int (length (xs @ ys)) + 1" using len by (intro s32_id) auto
  have fields: "l_first s1 l = head_of (xs @ ys) 0" "l_last s1 l = last_of (xs @ ys) 0" "l_length s1 l = int (length (xs @ ys))"
    "test_num s1 = 0" using h t by (simp_all add: holds_def s1_def)
  have k1: "n_key s1 n = n_key s n" if "n \<in> set (xs @ ys)" for n using f that by (auto simp: s1_def)
  have dw: "dropWhile (\<lambda>n. n_key s1 n < k) (xs @ ys) = ys"
    using xs ys k1 by (subst dropWhile_append2) (auto simp: dropWhile_eq_self_iff)
  have find: "find_runner s1 k (head_of (xs @ ys) 0) = Some (head_of ys 0)" using find_runner_spec [OF sg z, of k] unfolding dw .
  show ?thesis
  proof (cases "xs @ ys = []")
    case True
    then show ?thesis using fields s32
      by (simp add: c head_of_def inserted_def spliced_def Let_def s1_def last_of_def fun_eq_iff)
  next
    case False
    have hd0: "head_of (xs @ ys) 0 \<noteq> 0" using z False by (cases "xs @ ys") (auto simp: head_of_def)
    have link: "(if head_of ys 0 \<noteq> 0 then insert_before ?n (head_of ys 0) s1 else insert_last l ?n s1) = Some (spliced ?n xs ys s1)"
    proof (cases ys)
      case Nil
      then show ?thesis using insert_last_eq [of s1 l xs ?n] fields z f False by (simp add: head_of_def last_of_def)
    next
      case (Cons y ys')
      then show ?thesis using insert_before_eq [OF fields(4) sg, of ?n] z f by (simp add: head_of_def)
    qed
    have l0: "last_of xs 0 = 0 \<longleftrightarrow> xs = []" using z by (metis last_of_def last_in_set Un_iff set_append)
    have y0: "head_of ys 0 = 0 \<longleftrightarrow> ys = []" using z by (cases ys) (auto simp: head_of_def)
    show ?thesis
      unfolding c bind.bind_lunit prod.case Let_def fields(1) if_not_P [OF hd0] find link
      using s32 fields(3) l0 y0
      by (cases "xs = []"; cases "ys = []")
        (simp_all add: spliced_def s1_def inserted_def Let_def fun_eq_iff cong del: if_weak_cong)
  qed
qed

lemma ready_inserted: "ready s l \<Longrightarrow> ready (inserted l k d xs ys s) l"
proof -
  assume r: "ready s l"
  have "lock_idle (inserted l k d xs ys s) (l_lock s l) = lock_idle s (l_lock s l)"
    by (rule lock_idle_cong) (simp_all add: inserted_def spliced_def Let_def)
  then show ?thesis using r by (auto simp: ready_def kmem_ok_def inserted_def spliced_def Let_def)
qed

lemma insert_eq:
  assumes r: "ready s l" and h: "holds s l (xs @ ys)" and o: "\<not> oom s (ticks s)" and len: "length (xs @ ys) < 2147483646"
    and xs: "\<forall>n\<in>set xs. n_key s n < k" and ys: "ys \<noteq> [] \<Longrightarrow> \<not> n_key s (hd ys) < k"
  shows "linked_list_insert l k d s = Some ((), inserted l k d xs ys s)"
proof -
  let ?k = "l_lock s l"
  have l0: "l \<noteq> 0" and idle: "lock_idle s ?k" using r by (simp_all add: ready_def)
  have h': "holds (taken ?k s) l (xs @ ys)" using h by (simp add: holds_def)
  have r': "kmem_ok (taken ?k s)" "test_num (taken ?k s) = 0" "\<not> oom (taken ?k s) (ticks (taken ?k s))"
    using r o by (simp_all add: ready_def kmem_ok_def)
  have comm: "inserted l k d xs ys (taken ?k s) = taken ?k (inserted l k d xs ys s)"
    by (rule llists.equality) (simp_all add: inserted_def spliced_def taken_def Let_def cong del: if_weak_cong)
  have idle': "lock_idle (inserted l k d xs ys s) ?k"
    using ready_inserted [OF r, of k d xs ys] by (simp add: ready_def inserted_def spliced_def Let_def)
  show ?thesis
    unfolding linked_list_insert_def if_not_P [OF l0]
    by (rule critical_pure [OF idle _ idle'], subst comm [symmetric], rule insert_body [OF h' r' len]) (use xs ys in auto)
qed

subsection \<open>Prepending and removing\<close>

text \<open>Prepending is an insertion at the front, with the key below the smallest.\<close>

definition front_key :: "'a llists_scheme \<Rightarrow> addr list \<Rightarrow> int" where
  "front_key s ns = (case ns of [] \<Rightarrow> 0 | n # _ \<Rightarrow> s32 (n_key s n - 1))"

lemma prepend_eq:
  assumes r: "ready s l" and h: "holds s l ns" and o: "\<not> oom s (ticks s)" and len: "length ns < 2147483646"
  shows "linked_list_prepend l d s = Some ((), inserted l (front_key s ns) d [] ns s)"
proof -
  let ?k = "l_lock s l" and ?n = "Suc (ticks s)" and ?s' = "inserted l (front_key s ns) d [] ns s"
  have idle: "lock_idle s ?k" using r by (simp add: ready_def)
  have t: "test_num s = 0" using r by (simp add: ready_def)
  have f: "?n \<notin> set ns" using holds_fresh [of s l ns] r h by (simp add: ready_def)
  have s32: "s32 (int (length ns) + 1) = int (length ns) + 1" using len by (intro s32_id) auto
  have z: "ns \<noteq> [] \<Longrightarrow> hd ns \<noteq> 0" using h hd_in_set [of ns] by (metis holds_def)
  have fields: "l_first s l = head_of ns 0" "l_last s l = last_of ns 0" "l_length s l = int (length ns)" using h by (simp_all add: holds_def)
  have o': "\<not> oom (taken ?k s) (ticks (taken ?k s))" using o by simp
  have idle': "lock_idle ?s' ?k"
    using ready_inserted [OF r, of "front_key s ns" d "[]" ns] by (simp add: ready_def inserted_def spliced_def Let_def)
  show ?thesis
    unfolding linked_list_prepend_def
    by (rule critical_pure [OF idle _ idle'], cases ns)
      (use t fields create_node_eq [OF o', of "front_key s ns" d] s32 f z in
        \<open>auto simp: head_of_def last_of_def front_key_def inserted_def spliced_def Let_def taken_def fun_eq_iff intro!: llists.equality\<close>)
qed

text \<open>Removal of the first node.\<close>

definition beheaded :: "addr \<Rightarrow> addr \<Rightarrow> addr list \<Rightarrow> 'a llists_scheme \<Rightarrow> 'a llists_scheme" where
  "beheaded l m ns s = s\<lparr>live := live s - {m}, l_first := (l_first s)(l := head_of ns 0),
     n_prev := (if ns = [] then n_prev s else (n_prev s)(hd ns := 0)),
     l_last := (if length ns \<le> 1 then (l_last s)(l := head_of ns 0) else l_last s), l_length := (l_length s)(l := l_length s l - 1)\<rparr>"

lemma holds_beheaded:
  assumes h: "holds s l (m # ns)"
  shows "holds (beheaded l m ns s) l ns"
proof -
  have d: "distinct ns" "seg (n_prev s) (n_next s) m ns 0" using h by (simp_all add: holds_def)
  have "seg (n_prev (beheaded l m ns s)) (n_next (beheaded l m ns s)) 0 ns 0"
    using d(1) by (intro seg_front [OF d(2)]) (cases ns; auto simp: beheaded_def)+
  moreover have "l_last (beheaded l m ns s) l = last_of ns 0"
    using h by (cases ns) (auto simp: beheaded_def holds_def last_of_def head_of_def)
  ultimately show ?thesis using h by (auto simp: holds_def beheaded_def)
qed

lemma ready_beheaded: "ready s l \<Longrightarrow> ready (beheaded l m ns s) l"
proof -
  assume r: "ready s l"
  have "lock_idle (beheaded l m ns s) (l_lock s l) = lock_idle s (l_lock s l)"
    by (rule lock_idle_cong) (simp_all add: beheaded_def)
  then show ?thesis using r by (auto simp: ready_def kmem_ok_def beheaded_def)
qed

lemma remove_head_eq:
  assumes r: "ready s l" and h: "holds s l (m # ns)"
  shows "linked_list_remove_head l s = Some ((n_data s m, Some (n_key s m)), beheaded l m ns s)"
proof -
  let ?k = "l_lock s l" and ?s = "(beheaded l m ns s)\<lparr>live := live s\<rparr>"
  have l0: "l \<noteq> 0" and idle: "lock_idle s ?k" and t: "test_num s = 0" using r by (simp_all add: ready_def)
  have m: "m \<noteq> 0" "m \<in> live s" "n_next s m = head_of ns 0" and f: "l_first s l = m" "l_length s l = int (length ns) + 1"
    using h by (auto simp: holds_def head_of_def)
  have z: "head_of ns 0 = 0 \<longleftrightarrow> ns = []" "ns \<noteq> [] \<Longrightarrow> head_of ns 0 = hd ns" using h by (auto simp: holds_def head_of_def split: list.splits)
  have s32: "s32 (int (length ns)) = int (length ns)" using h by (intro s32_id) (auto simp: holds_def)
  have idle': "lock_idle ?s ?k" using idle by (subst lock_idle_cong [of _ s]) (simp_all add: beheaded_def)
  have "critical ?k (\<lambda>s. do {
          let removed = l_first s l;
          if removed = 0 then Some ((0, 0, None), s)
          else do {
            let new_head = n_next s removed;
            s \<leftarrow> yield_on_test 3 s;
            let data = n_data s removed;
            let key = n_key s removed;
            let s = s\<lparr>l_first := (l_first s)(l := new_head)\<rparr>;
            let s = (if new_head \<noteq> 0 then s\<lparr>n_prev := (n_prev s)(new_head := 0)\<rparr> else s);
            let s = (if l_length s l \<le> 2 then s\<lparr>l_last := (l_last s)(l := new_head)\<rparr> else s);
            Some ((removed, data, Some key), s\<lparr>l_length := (l_length s)(l := s32 (l_length s l - 1))\<rparr>) } }) s
    = Some ((m, n_data s m, Some (n_key s m)), ?s)"
    by (rule critical_pure [OF idle _ idle'], cases "ns = []"; cases "length ns \<le> 1")
      (use m f z s32 t in \<open>simp_all add: beheaded_def taken_def cong del: if_weak_cong\<close>, simp_all add: Let_def)
  then show ?thesis unfolding linked_list_remove_head_def if_not_P [OF l0]
    using m by (simp add: kfree_def beheaded_def)
qed

lemma remove_head_empty: "ready s l \<Longrightarrow> holds s l [] \<Longrightarrow> linked_list_remove_head l s = Some ((0, None), s)"
  unfolding linked_list_remove_head_def
  by (simp add: ready_def critical_pure holds_def head_of_def kfree_def)

section \<open>The list as a sequence of pairs\<close>

text \<open>The place the search loop finds is the place of \<open>insort_key\<close>.\<close>

lemma insort_key_split:
  fixes k :: int
  shows "insort_key fst (k, d) ps = takeWhile (\<lambda>p. fst p < k) ps @ (k, d) # dropWhile (\<lambda>p. fst p < k) ps"
  by (induction ps) auto

lemma pairs_simps [simp]: "pairs s [] = []" "pairs s (n # ns) = (n_key s n, n_data s n) # pairs s ns"
  "length (pairs s ns) = length ns"
  by (simp_all add: pairs_def)

lemma pairs_split:
  "takeWhile (\<lambda>p. fst p < k) (pairs s ns) = pairs s (takeWhile (\<lambda>n. n_key s n < k) ns)"
  "dropWhile (\<lambda>p. fst p < k) (pairs s ns) = pairs s (dropWhile (\<lambda>n. n_key s n < k) ns)"
  by (simp_all add: pairs_def takeWhile_map dropWhile_map o_def)

text \<open>A list that is ready for a call and has the contents \<open>ps\<close>.\<close>

definition contents :: "'a llists_scheme \<Rightarrow> addr \<Rightarrow> (int \<times> addr) list \<Rightarrow> bool" where
  "contents s l ps \<longleftrightarrow> ready s l \<and> (\<exists>ns. holds s l ns \<and> pairs s ns = ps)"

lemma contents_insert:
  assumes c: "contents s l ps" and o: "\<not> oom s (ticks s)" and len: "length ps < 2147483646"
  obtains s' where "linked_list_insert l k d s = Some ((), s')" "contents s' l (insort_key fst (k, d) ps)"
    "oom s' = oom s" "ticks s' = Suc (ticks s)" "live s' = insert (Suc (ticks s)) (live s)"
proof -
  obtain ns where r: "ready s l" and ns: "holds s l ns" "pairs s ns = ps" using c by (auto simp: contents_def)
  let ?P = "\<lambda>n. n_key s n < k"
  let ?xs = "takeWhile ?P ns" and ?ys = "dropWhile ?P ns"
  let ?s = "inserted l k d ?xs ?ys s"
  have h: "holds s l (?xs @ ?ys)" and m: "kmem_ok s" using ns r by (simp_all add: ready_def)
  have l: "length (?xs @ ?ys) < 2147483646" using len ns(2) by auto
  have f: "Suc (ticks s) \<notin> set (?xs @ ?ys)" using holds_fresh [OF m h] .
  have "linked_list_insert l k d s = Some ((), ?s)"
    using hd_dropWhile [of ?P ns] by (intro insert_eq [OF r h o l]) (auto dest: set_takeWhileD)
  moreover have "holds ?s l (?xs @ Suc (ticks s) # ?ys)" using h m l by (rule holds_inserted)
  moreover have "pairs ?s (?xs @ Suc (ticks s) # ?ys) = insort_key fst (k, d) ps"
    using pairs_inserted [OF f] ns(2) by (simp add: insort_key_split pairs_split flip: ns(2))
  ultimately have "linked_list_insert l k d s = Some ((), ?s)" "contents ?s l (insort_key fst (k, d) ps)"
    using ready_inserted [OF r] unfolding contents_def by blast+
  then show thesis using inserted_sel by (rule that)
qed

lemma contents_prepend:
  assumes c: "contents s l ps" and o: "\<not> oom s (ticks s)" and len: "length ps < 2147483646"
  obtains s' where "linked_list_prepend l d s = Some ((), s')"
    "contents s' l ((case ps of [] \<Rightarrow> 0 | p # _ \<Rightarrow> s32 (fst p - 1), d) # ps)"
    "live s' = insert (Suc (ticks s)) (live s)"
proof -
  obtain ns where r: "ready s l" and ns: "holds s l ns" "pairs s ns = ps" using c by (auto simp: contents_def)
  let ?k = "front_key s ns"
  let ?s = "inserted l ?k d [] ns s"
  have h: "holds s l ([] @ ns)" and m: "kmem_ok s" using ns r by (simp_all add: ready_def)
  have l: "length ([] @ ns) < 2147483646" using len ns(2) by auto
  have f: "Suc (ticks s) \<notin> set ([] @ ns)" using holds_fresh [OF m h] .
  have "linked_list_prepend l d s = Some ((), ?s)" using prepend_eq [OF r ns(1) o] l by simp
  moreover have "holds ?s l ([] @ Suc (ticks s) # ns)" using h m l by (rule holds_inserted)
  moreover have "?k = (case ps of [] \<Rightarrow> 0 | p # _ \<Rightarrow> s32 (fst p - 1))" using ns(2) by (cases ns) (auto simp: front_key_def)
  moreover have "pairs ?s ([] @ Suc (ticks s) # ns) = (?k, d) # ps" using pairs_inserted [OF f] ns(2) by simp
  ultimately show thesis using that [of ?s] ready_inserted [OF r] inserted_sel(3) unfolding contents_def by metis
qed

lemma contents_remove:
  assumes c: "contents s l ((k, d) # ps)"
  obtains s' m where "linked_list_remove_head l s = Some ((d, Some k), s')" "contents s' l ps"
    "m \<in> live s" "live s' = live s - {m}"
proof -
  obtain n ns where r: "ready s l" and ns: "holds s l (n # ns)" "pairs s ns = ps" "n_key s n = k" "n_data s n = d"
    using c by (auto simp: contents_def pairs_def)
  have "pairs (beheaded l n ns s) ns = ps" "live (beheaded l n ns s) = live s - {n}" "n \<in> live s"
    using ns by (auto simp: pairs_def beheaded_def holds_def)
  then show thesis
    using that remove_head_eq [OF r ns(1)] holds_beheaded [OF ns(1)] ready_beheaded [OF r] ns(3,4)
    unfolding contents_def by blast
qed

lemma contents_empty: "contents s l [] \<Longrightarrow> linked_list_remove_head l s = Some ((0, None), s)"
  by (auto simp: contents_def pairs_def intro: remove_head_empty)

section \<open>Clients\<close>

text \<open>Insertion of all pairs of a list, and removal of \<open>n\<close> pairs.\<close>

fun insert_all :: "addr \<Rightarrow> (int \<times> addr) list \<Rightarrow> 'a llists_scheme \<Rightarrow> 'a llists_scheme option" where
  "insert_all l [] s = Some s"
| "insert_all l ((k, d) # ps) s = do { (_, s) \<leftarrow> linked_list_insert l k d s; insert_all l ps s }"

fun drain :: "addr \<Rightarrow> nat \<Rightarrow> 'a llists_scheme \<Rightarrow> ((addr \<times> int option) list \<times> 'a llists_scheme) option" where
  "drain l 0 s = Some ([], s)"
| "drain l (Suc n) s = do {
     (r, s) \<leftarrow> linked_list_remove_head l s;
     (rs, s) \<leftarrow> drain l n s;
     Some (r # rs, s) }"

lemma insert_all_contents:
  assumes "contents s l qs" and "\<And>n. ticks s \<le> n \<Longrightarrow> \<not> oom s n" and "length qs + length ps \<le> 2147483646"
  shows "\<exists>s'. insert_all l ps s = Some s' \<and> contents s' l (fold (insort_key fst) ps qs)"
  using assms
proof (induction ps arbitrary: s qs)
  case (Cons p ps)
  obtain k d where p: "p = (k, d)" by (cases p)
  obtain s1 where s1: "linked_list_insert l k d s = Some ((), s1)" "contents s1 l (insort_key fst (k, d) qs)"
    "oom s1 = oom s" "ticks s1 = Suc (ticks s)"
    by (rule contents_insert [OF Cons.prems(1), of k d]) (use Cons.prems in auto)
  have "\<exists>s'. insert_all l ps s1 = Some s' \<and> contents s' l (fold (insort_key fst) ps (insort_key fst (k, d) qs))"
    using Cons.prems s1 by (intro Cons.IH) auto
  then show ?case using s1(1) p by simp
qed auto

lemma drain_contents:
  "contents s l ps \<Longrightarrow> \<exists>s'. drain l (length ps) s = Some (map (\<lambda>(k, d). (d, Some k)) ps, s') \<and> contents s' l []"
proof (induction ps arbitrary: s)
  case (Cons p ps)
  obtain k d where p: "p = (k, d)" by (cases p)
  obtain s1 where s1: "linked_list_remove_head l s = Some ((d, Some k), s1)" "contents s1 l ps"
    using contents_remove [of s l k d ps] Cons.prems p by metis
  then show ?case using Cons.IH [OF s1(2)] p by auto
qed auto

section \<open>Properties\<close>

definition boot_lists :: llists where
  "boot_lists = sync.extend boot_sync (llists.fields (\<lambda>_. 0) (\<lambda>_. 0) (\<lambda>n. if n = 20 then 5 else 0) (\<lambda>n. if n = 20 then 30 else 0)
     (\<lambda>_. 20) (\<lambda>_. 20) (\<lambda>_. 1) (\<lambda>_. 40) 0)"

lemma boot_holds: "holds boot_lists 35 [20]"
  by (simp add: holds_def boot_lists_def sync.defs llists.defs boot_fields head_of_def last_of_def)

lemma boot_contents: "contents boot_lists 35 [(5, 30)]" and boot_lists_mem: "\<not> oom boot_lists n" "ticks boot_lists = 50" "live boot_lists = {10..50}"
proof -
  have "lock_idle boot_lists 40" unfolding boot_lists_def by (rule boot_lock_idle) simp
  then show "contents boot_lists 35 [(5, 30)]"
    using boot_holds by (auto simp: contents_def ready_def kmem_ok_def boot_lists_def sync.defs llists.defs boot_fields)
  show "\<not> oom boot_lists n" "ticks boot_lists = 50" "live boot_lists = {10..50}"
    by (simp_all add: boot_lists_def sync.defs llists.defs boot_fields)
qed

text \<open>
  C24: the operations of the concurrent list act on its sequence of (key, data) pairs.  Insertion puts
  the pair in front of the first key that is not smaller, so a list ordered by key stays ordered;
  prepending adds a pair whose key is 0, or one below the first key with wrap-around at 32 bits, and
  keeps the order unless the key wraps; removal returns the first pair and frees its node, or
  returns NULL for an empty list and changes nothing.  Each operation leaves the list well formed
  and its lock free.
\<close>

theorem linked_list_refines:
  assumes "contents s l ps" and "\<not> oom s (ticks s)" and "length ps < 2147483646"
  shows "(\<exists>s'. linked_list_insert l k d s = Some ((), s') \<and> contents s' l (insort_key fst (k, d) ps)
        \<and> (sorted (map fst ps) \<longrightarrow> sorted (map fst (insort_key fst (k, d) ps)))
        \<and> live s' = insert (Suc (ticks s)) (live s))
    \<and> (\<exists>s' k'. linked_list_prepend l d s = Some ((), s') \<and> contents s' l ((k', d) # ps)
        \<and> k' = (case ps of [] \<Rightarrow> 0 | p # _ \<Rightarrow> s32 (fst p - 1))
        \<and> (sorted (map fst ps) \<and> (ps \<noteq> [] \<longrightarrow> - 2147483648 < fst (hd ps) \<and> fst (hd ps) < 2147483648)
            \<longrightarrow> sorted (map fst ((k', d) # ps))))
    \<and> (case ps of [] \<Rightarrow> linked_list_remove_head l s = Some ((0, None), s)
        | (k', d') # qs \<Rightarrow> \<exists>s' n. linked_list_remove_head l s = Some ((d', Some k'), s') \<and> contents s' l qs
            \<and> n \<in> live s \<and> live s' = live s - {n})" (is "?ins \<and> ?pre \<and> ?rem")
proof (intro conjI)
  show ?ins using contents_insert [OF assms, of k d] by (metis sorted_insort_key)
  let ?k = "case ps of [] \<Rightarrow> 0 | p # _ \<Rightarrow> s32 (fst p - 1)"
  have "sorted (map fst ((?k, d) # ps))"
    if "sorted (map fst ps)" "ps \<noteq> [] \<longrightarrow> - 2147483648 < fst (hd ps) \<and> fst (hd ps) < 2147483648"
    using that s32_id [of "fst (hd ps) - 1"] by (cases ps) auto
  then show ?pre using contents_prepend [OF assms, of d] by metis
  show ?rem
  proof (cases ps)
    case (Cons p qs)
    obtain k' d' where p: "p = (k', d')" by (cases p)
    have "contents s l ((k', d') # qs)" using assms(1) Cons p by simp
    then obtain s' n where "linked_list_remove_head l s = Some ((d', Some k'), s')" "contents s' l qs" "n \<in> live s" "live s' = live s - {n}"
      by (rule contents_remove)
    then show ?thesis using Cons p by auto
  qed (use assms contents_empty in simp)
qed

lemma linked_list_refines_witness:
  "\<exists>s'. linked_list_insert 35 3 31 boot_lists = Some ((), s') \<and> contents s' 35 [(3, 31), (5, 30)]"
  using linked_list_refines [OF boot_contents, of 3 31] boot_lists_mem by auto

text \<open>
  the concurrent list sorts.  If pairs are inserted one after the other into an empty list and
  removed again, while memory lasts, every call returns and they come out ordered by key, those with
  equal keys in the reverse order of insertion, and the list is empty again.
\<close>

theorem linked_list_sorts:
  assumes "contents s l []" and "\<And>n. ticks s \<le> n \<Longrightarrow> \<not> oom s n" and "length ps \<le> 2147483646"
  shows "\<exists>s1 s2. insert_all l ps s = Some s1
    \<and> drain l (length ps) s1 = Some (map (\<lambda>(k, d). (d, Some k)) (sort_key fst (rev ps)), s2) \<and> contents s2 l []"
proof -
  have "fold (insort_key fst) ps [] = sort_key fst (rev ps)" by (simp add: sort_key_def foldr_conv_fold)
  then obtain s1 where s1: "insert_all l ps s = Some s1" "contents s1 l (sort_key fst (rev ps))"
    using insert_all_contents [OF assms(1,2), of ps] assms(3) by auto
  then show ?thesis using drain_contents [OF s1(2)] by auto
qed

lemma linked_list_sorts_witness:
  "\<exists>s0 s1 s2. linked_list_remove_head 35 boot_lists = Some ((30, Some 5), s0)
    \<and> insert_all 35 [(2, 11), (1, 12), (2, 13)] s0 = Some s1
    \<and> drain 35 3 s1 = Some ([(12, Some 1), (13, Some 2), (11, Some 2)], s2)"
proof -
  obtain s0 where s0: "linked_list_remove_head 35 boot_lists = Some ((30, Some 5), s0)" "contents s0 35 []" "oom s0 = oom boot_lists"
  proof -
    have r: "ready boot_lists 35" "holds boot_lists 35 [20]" "n_data boot_lists 20 = 30" "n_key boot_lists 20 = 5"
      using boot_contents boot_holds by (simp_all add: contents_def boot_lists_def sync.defs llists.defs)
    show thesis
      by (rule that [of "beheaded 35 20 [] boot_lists"])
        (use remove_head_eq [OF r(1,2)] holds_beheaded [OF r(2)] ready_beheaded [OF r(1), of 20 "[]"] r in
          \<open>auto simp: contents_def pairs_def\<close>, simp add: beheaded_def)
  qed
  then show ?thesis
    using linked_list_sorts [OF s0(2), of "[(2, 11), (1, 12), (2, 13)]"] boot_lists_mem
    by (auto simp: sort_key_def numeral_3_eq_3 simp del: insert_all.simps drain.simps)
qed

end
