(* ===== verification/Array.thy ===== *)
theory Array
  imports Prelude
begin

text \<open>
  The resizable array of pointers of \<open>kern/lib/array.c\<close> and \<open>kern/include/array.h\<close>, from which
  the typed arrays of the kernel are generated.  The block behind an array is a list of cells; a cell
  that was never stored to is \<open>None\<close>, and reading it is a stop.  Sizes are \<open>unsigned\<close> and wrap, as
  does the number of bytes passed to \<open>kmalloc\<close>; the doubling loop therefore ends only for sizes up
  to $2^{31}$, and blocks are as large as intended only below $2^{30}$ cells.

  The contract \<open>growing_list\<close> states what the clients of an array rely on.
\<close>

section \<open>Operations\<close>

record 'e arr =
  a_at :: addr                  \<comment> \<open>the block of the structure\<close>
  a_v :: addr                   \<comment> \<open>the block of the cells\<close>
  a_num :: nat
  a_max :: nat
  a_cells :: "'e option list"

definition array_init :: "'e arr \<Rightarrow> 'e arr" where
  "array_init a = a\<lparr>a_num := 0, a_max := 0, a_v := 0, a_cells := []\<rparr>"

definition array_create :: "'a kmem_scheme \<Rightarrow> 'e arr option \<times> 'a kmem_scheme" where
  "array_create s = (let (a, s) = kmalloc s in
     if a \<noteq> 0 then (Some (array_init \<lparr>a_at = a, a_v = 0, a_num = 0, a_max = 0, a_cells = []\<rparr>), s) else (None, s))"

definition array_cleanup :: "'e arr \<Rightarrow> 'a kmem_scheme \<Rightarrow> ('e arr \<times> 'a kmem_scheme) option" where
  "array_cleanup a s = do {
     kassert (a_num a = 0);
     s \<leftarrow> kfree (a_v a) s;
     Some (a\<lparr>a_v := 0, a_cells := []\<rparr>, s) }"

definition array_destroy :: "'e arr \<Rightarrow> 'a kmem_scheme \<Rightarrow> 'a kmem_scheme option" where
  "array_destroy a s = do { (a, s) \<leftarrow> array_cleanup a s; kfree (a_at a) s }"

definition array_num :: "'e arr \<Rightarrow> nat" where
  "array_num a = a_num a"

definition array_get :: "'e arr \<Rightarrow> nat \<Rightarrow> 'e option" where
  "array_get a i = do { kassert (i < a_num a); kassert (i < length (a_cells a)); a_cells a ! i }"

definition array_set :: "'e arr \<Rightarrow> nat \<Rightarrow> 'e \<Rightarrow> 'e arr option" where
  "array_set a i x = do {
     kassert (i < a_num a);
     kassert (i < length (a_cells a));
     Some (a\<lparr>a_cells := (a_cells a)[i := Some x]\<rparr>) }"

text \<open>The doubling loop of \<open>array_preallocate\<close>; \<open>None\<close> if it does not end.\<close>

partial_function (option) grow :: "nat \<Rightarrow> nat \<Rightarrow> nat option" where
  "grow num newmax = (if num > newmax then grow num (if newmax \<noteq> 0 then u32 (newmax * 2) else 4) else Some newmax)"

definition array_preallocate :: "'e arr \<Rightarrow> nat \<Rightarrow> 'a kmem_scheme \<Rightarrow> ((errno + unit) \<times> 'e arr \<times> 'a kmem_scheme) option" where
  "array_preallocate a num s =
     (if num > a_max a then do {
        newmax \<leftarrow> grow num (a_max a);
        let (newptr, s) = kmalloc s;
        if newptr = 0 then Some (Inl ENOMEM, a, s)
        else do {
          let size = u32 (newmax * 4) div 4;
          let copied = u32 (a_num a * 4) div 4;
          kassert (copied \<le> size);
          s \<leftarrow> kfree (a_v a) s;
          Some (Inr (), a\<lparr>a_v := newptr, a_max := newmax,
                          a_cells := take copied (a_cells a) @ replicate (size - copied) None\<rparr>, s) } }
      else Some (Inr (), a, s))"

definition array_setsize :: "'e arr \<Rightarrow> nat \<Rightarrow> 'a kmem_scheme \<Rightarrow> ((errno + unit) \<times> 'e arr \<times> 'a kmem_scheme) option" where
  "array_setsize a num s = do {
     (result, a, s) \<leftarrow> array_preallocate a num s;
     case result of Inl e \<Rightarrow> Some (Inl e, a, s) | Inr _ \<Rightarrow> Some (Inr (), a\<lparr>a_num := num\<rparr>, s) }"

definition array_add :: "'e arr \<Rightarrow> 'e \<Rightarrow> 'a kmem_scheme \<Rightarrow> ((errno + nat) \<times> 'e arr \<times> 'a kmem_scheme) option" where
  "array_add a x s = do {
     let index = a_num a;
     (ret, a, s) \<leftarrow> array_setsize a (u32 (index + 1)) s;
     case ret of Inl e \<Rightarrow> Some (Inl e, a, s)
     | Inr _ \<Rightarrow> do {
         kassert (index < length (a_cells a));
         Some (Inr index, a\<lparr>a_cells := (a_cells a)[index := Some x]\<rparr>, s) } }"

definition array_remove :: "'e arr \<Rightarrow> nat \<Rightarrow> 'e arr option" where
  "array_remove a i = do {
     kassert (a_num a \<le> a_max a);
     kassert (i < a_num a);
     let num_to_move = a_num a - (i + 1);
     Some (a\<lparr>a_cells := take i (a_cells a) @ take num_to_move (drop (i + 1) (a_cells a)) @ drop (i + num_to_move) (a_cells a),
             a_num := a_num a - 1\<rparr>) }"

section \<open>The doubling loop\<close>

lemma grow_done: "num \<le> m \<Longrightarrow> grow num m = Some m"
  by (subst grow.simps) simp

text \<open>For sizes up to $2^{31}$ the loop ends with less than twice the size.\<close>

lemma grow_spec:
  assumes "num \<le> 2147483648" and "4 \<le> m"
  shows "\<exists>m'. grow num m = Some m' \<and> num \<le> m' \<and> m \<le> m' \<and> (m' = m \<or> m' < 2 * num)"
  using assms
proof (induction "num - m" arbitrary: m rule: less_induct)
  case less
  show ?case
  proof (cases "num > m")
    case True
    then have u: "u32 (m * 2) = m * 2" using less.prems by (intro u32_id) simp
    have "\<exists>m'. grow num (m * 2) = Some m' \<and> num \<le> m' \<and> m * 2 \<le> m' \<and> (m' = m * 2 \<or> m' < 2 * num)"
      using True less.prems by (intro less.hyps) auto
    then show ?thesis using True u less.prems by (subst grow.simps) auto
  qed (simp add: grow_done)
qed

lemma grow_from:
  assumes "num \<le> 2147483648" and "m = 0 \<or> 4 \<le> m" and "num > m"
  shows "\<exists>m'. grow num m = Some m' \<and> num \<le> m' \<and> 4 \<le> m' \<and> m' \<le> max 4 (2 * num)"
proof (cases "m = 0")
  case True
  then have "grow num m = grow num 4" using assms(3) by (subst grow.simps) simp
  then show ?thesis using grow_spec [OF assms(1), of 4] by auto
next
  case False
  then show ?thesis using grow_spec [OF assms(1), of m] assms by force
qed

text \<open>Beyond, the capacity wraps to 0 and the loop starts over, for ever.\<close>

lemma grow_result:
  "grow num m = Some r \<Longrightarrow> m = 0 \<or> (\<exists>k. 2 \<le> k \<and> k < 32 \<and> m = 2 ^ k) \<longrightarrow> num \<le> r \<and> r \<le> 2147483648"
proof (induction num m r rule: grow.raw_induct [rotated, consumes 1], intro impI)
  fix grow :: "nat \<Rightarrow> nat \<Rightarrow> nat option" and num m r
  assume IH: "\<And>num m r. grow num m = Some r \<Longrightarrow>
      m = 0 \<or> (\<exists>k. 2 \<le> k \<and> k < 32 \<and> m = 2 ^ k) \<longrightarrow> num \<le> r \<and> r \<le> 2147483648"
    and eq: "(if num > m then grow num (if m \<noteq> 0 then u32 (m * 2) else 4) else Some m) = Some r"
    and m: "m = 0 \<or> (\<exists>k. 2 \<le> k \<and> k < 32 \<and> m = 2 ^ k)"
  have pow: "2 ^ k \<le> (2147483648::nat)" if "k < 32" for k :: nat
    using power_increasing [of k 31 "2::nat"] that by simp
  show "num \<le> r \<and> r \<le> 2147483648"
  proof (cases "num > m")
    case True
    let ?m = "if m \<noteq> 0 then u32 (m * 2) else 4"
    have r: "grow num ?m = Some r" using eq True by simp
    have "?m = 0 \<or> (\<exists>k. 2 \<le> k \<and> k < 32 \<and> ?m = 2 ^ k)"
    proof (cases "m = 0")
      case True
      then show ?thesis by (auto intro!: exI [of _ 2])
    next
      case False
      then obtain k where k: "2 \<le> k" "k < 32" "m = 2 ^ k" using m by auto
      show ?thesis
      proof (cases "k = 31")
        case True
        then show ?thesis using k by (simp add: u32_def)
      next
        case False
        then have "2 ^ k * 2 < (4294967296::nat)" using k power_strict_increasing [of "Suc k" 32 "2::nat"] by simp
        then show ?thesis using k False by (auto simp: u32_id intro!: exI [of _ "Suc k"])
      qed
    qed
    then show ?thesis using IH [OF r] by simp
  next
    case False
    then show ?thesis using eq m pow by auto
  qed
qed

lemma grow_diverges:
  assumes "num > 2147483648" and "m = 0 \<or> (\<exists>k. 2 \<le> k \<and> k < 32 \<and> m = 2 ^ k)"
  shows "grow num m = None"
  using grow_result [of num m] assms by (cases "grow num m") force+

section \<open>Arrays as lists\<close>

text \<open>An array that holds the elements \<open>xs\<close> in live blocks.\<close>

definition holds_list :: "'a kmem_scheme \<Rightarrow> 'e arr \<Rightarrow> 'e list \<Rightarrow> bool" where
  "holds_list s a xs \<longleftrightarrow> kmem_ok s \<and> a_num a = length xs \<and> length (a_cells a) = a_max a \<and> take (a_num a) (a_cells a) = map Some xs
     \<and> a_num a \<le> a_max a \<and> (a_max a = 0 \<or> 4 \<le> a_max a) \<and> a_max a < 1073741824
     \<and> (a_v a = 0 \<or> a_v a \<in> live s) \<and> a_at a \<in> live s \<and> a_v a \<noteq> a_at a"

text \<open>What the clients rely on.\<close>

locale growing_list =
  fixes get :: "'b \<Rightarrow> nat \<Rightarrow> 'e option"
    and put :: "'b \<Rightarrow> nat \<Rightarrow> 'e \<Rightarrow> 'b option"
    and add :: "'b \<Rightarrow> 'e \<Rightarrow> 's \<Rightarrow> ((errno + nat) \<times> 'b \<times> 's) option"
    and del :: "'b \<Rightarrow> nat \<Rightarrow> 'b option"
    and rep :: "'s \<Rightarrow> 'b \<Rightarrow> 'e list \<Rightarrow> bool"
    and room :: nat
  assumes get_law: "rep s b xs \<Longrightarrow> get b i = (if i < length xs then Some (xs ! i) else None)"
    and put_law: "rep s b xs \<Longrightarrow> i < length xs \<Longrightarrow> \<exists>b'. put b i x = Some b' \<and> rep s b' (xs[i := x])"
    and put_out: "rep s b xs \<Longrightarrow> \<not> i < length xs \<Longrightarrow> put b i x = None"
    and add_law: "rep s b xs \<Longrightarrow> length xs < room \<Longrightarrow> \<exists>b' s'.
      (add b x s = Some (Inr (length xs), b', s') \<and> rep s' b' (xs @ [x])) \<or> (add b x s = Some (Inl ENOMEM, b, s') \<and> rep s' b xs)"
    and del_law: "rep s b xs \<Longrightarrow> i < length xs \<Longrightarrow> \<exists>b'. del b i = Some b' \<and> rep s b' (take i xs @ drop (Suc i) xs)"
begin

text \<open>The representation determines the elements.\<close>

lemma rep_unique:
  assumes "rep s b xs" and "rep s b ys"
  shows "xs = ys"
proof -
  have g: "(if i < length xs then Some (xs ! i) else None) = (if i < length ys then Some (ys ! i) else None)" for i
    using get_law [OF assms(1)] get_law [OF assms(2)] by metis
  then have "i < length xs \<longleftrightarrow> i < length ys" for i by (metis option.discI)
  then have "length xs = length ys" by (metis linorder_neqE_nat nat_neq_iff)
  then show ?thesis using g by (intro nth_equalityI) (auto, metis option.inject)
qed

text \<open>What was appended is found at the index handed back, and what was there stays.\<close>

lemma add_get:
  assumes "rep s b xs" and "length xs < room" and "add b x s = Some (Inr i, b', s')"
  shows "i = length xs \<and> get b' i = Some x \<and> (\<forall>j<i. get b' j = get b j)"
proof -
  have r: "i = length xs" "rep s' b' (xs @ [x])" using add_law [OF assms(1,2), of x] assms(3) by auto
  then show ?thesis using get_law [OF r(2)] get_law [OF assms(1)] by (auto simp: nth_append)
qed

end

lemma holds_nth: "holds_list s a xs \<Longrightarrow> i < length xs \<Longrightarrow> a_cells a ! i = Some (xs ! i)"
  unfolding holds_list_def by (metis nth_map nth_take)

lemma array_get_eq: "holds_list s a xs \<Longrightarrow> array_get a i = (if i < length xs then Some (xs ! i) else None)"
  using holds_nth [of s a xs i] by (auto simp: array_get_def holds_list_def)

lemma array_set_eq:
  assumes "holds_list s a xs" and "i < length xs"
  shows "array_set a i x = Some (a\<lparr>a_cells := (a_cells a)[i := Some x]\<rparr>) \<and> holds_list s (a\<lparr>a_cells := (a_cells a)[i := Some x]\<rparr>) (xs[i := x])"
  using assms by (auto simp: array_set_def holds_list_def take_update_swap map_update)

lemma preallocate_spec:
  assumes h: "holds_list s a xs" and n: "num \<le> 268435456"
  shows "if num > a_max a \<and> oom s (ticks s) then array_preallocate a num s = Some (Inl ENOMEM, a, s\<lparr>ticks := Suc (ticks s)\<rparr>)
    else \<exists>a' s'. array_preallocate a num s = Some (Inr (), a', s') \<and> holds_list s' a' xs \<and> num \<le> a_max a'
      \<and> a_max a' \<le> max (a_max a) (max 4 (2 * num)) \<and> a_at a' = a_at a"
proof (cases "num > a_max a")
  case True
  have c: "a_max a = 0 \<or> 4 \<le> a_max a" "a_num a \<le> a_max a" using h by (simp_all add: holds_list_def)
  have n': "num \<le> 2147483648" using n by simp
  obtain m where m: "grow num (a_max a) = Some m" "num \<le> m" "4 \<le> m" "m \<le> max 4 (2 * num)"
    using grow_from [OF n' c(1) True] by auto
  have sz: "u32 (m * 4) div 4 = m" "u32 (a_num a * 4) div 4 = a_num a" "a_num a \<le> m" "m < 1073741824"
    using m n True c(2) by (simp_all add: u32_id)
  show ?thesis
  proof (cases "oom s (ticks s)")
    case False
    have f: "Suc (ticks s) \<notin> live s" "a_at a \<in> live s" using h kmem_ok_fresh [of s] by (auto simp: holds_list_def)
    show ?thesis
      using True False m sz h f c
      by (auto simp: array_preallocate_def kmalloc_def kfree_def Let_def holds_list_def kmem_ok_def)
  qed (use True m in \<open>simp add: array_preallocate_def kmalloc_def Let_def\<close>)
qed (use h in \<open>simp add: array_preallocate_def\<close>)

lemma holds_ticks: "holds_list s a xs \<Longrightarrow> holds_list (s\<lparr>ticks := Suc (ticks s)\<rparr>) a xs"
  by (auto simp: holds_list_def kmem_ok_def le_Suc_eq)

lemma array_add_spec:
  assumes h: "holds_list s a xs" and n: "length xs < 268435456"
  shows "if length xs = a_max a \<and> oom s (ticks s) then array_add a x s = Some (Inl ENOMEM, a, s\<lparr>ticks := Suc (ticks s)\<rparr>)
    else \<exists>a' s'. array_add a x s = Some (Inr (length xs), a', s') \<and> holds_list s' a' (xs @ [x])
      \<and> a_max a' \<le> max (a_max a) (max 4 (2 * length (xs @ [x])))"
proof -
  have num: "a_num a = length xs" "a_num a \<le> a_max a" using h by (simp_all add: holds_list_def)
  have u: "u32 (length xs + 1) = Suc (length xs)" using n by (simp add: u32_id)
  have full: "Suc (length xs) > a_max a \<longleftrightarrow> length xs = a_max a" using num by auto
  have n': "Suc (length xs) \<le> 268435456" using n by simp
  note pre = preallocate_spec [OF h n', unfolded full]
  show ?thesis
  proof (cases "length xs = a_max a \<and> oom s (ticks s)")
    case True
    then show ?thesis using pre num u by (simp add: array_add_def array_setsize_def)
  next
    case False
    then obtain a' s' where a': "array_preallocate a (Suc (length xs)) s = Some (Inr (), a', s')" "holds_list s' a' xs"
      "Suc (length xs) \<le> a_max a'" "a_max a' \<le> max (a_max a) (max 4 (2 * Suc (length xs)))" using pre by auto
    let ?a = "a'\<lparr>a_num := Suc (length xs), a_cells := (a_cells a')[length xs := Some x]\<rparr>"
    have len: "length xs < length (a_cells a')" using a' by (simp add: holds_list_def)
    have "array_add a x s = Some (Inr (length xs), ?a, s')"
      using a' num u len by (simp add: array_add_def array_setsize_def Let_def)
    moreover have "holds_list s' ?a (xs @ [x])"
      using a' len by (auto simp: holds_list_def take_Suc_conv_app_nth)
    moreover have "a_max ?a \<le> max (a_max a) (max 4 (2 * length (xs @ [x])))" using a'(4) by simp
    ultimately show ?thesis using False by auto
  qed
qed

lemma array_remove_spec:
  assumes h: "holds_list s a xs" and i: "i < length xs"
  shows "\<exists>a'. array_remove a i = Some a' \<and> holds_list s a' (take i xs @ drop (Suc i) xs)"
proof -
  let ?n = "length xs - Suc i" and ?c = "a_cells a"
  let ?c' = "take i ?c @ take ?n (drop (Suc i) ?c) @ drop (i + ?n) ?c"
  have num: "a_num a = length xs" "length xs \<le> length ?c" "a_num a \<le> a_max a" "take (length xs) ?c = map Some xs" "length ?c = a_max a"
    using h by (auto simp: holds_list_def)
  have "take i ?c = map Some (take i xs)" using num(4) i by (metis less_imp_le min.absorb1 take_map take_take)
  moreover have "take ?n (drop (Suc i) ?c) = map Some (drop (Suc i) xs)"
    using num(4) by (metis drop_map drop_take)
  ultimately have "take (length xs - 1) ?c' = map Some (take i xs @ drop (Suc i) xs)" using i by simp
  moreover have "length ?c' = a_max a" using num i by simp
  ultimately show ?thesis
    using h i num(1,3) by (auto simp: array_remove_def holds_list_def)
qed

interpretation ar: growing_list array_get array_set array_add array_remove holds_list 268435456
proof unfold_locales
  fix s :: "'b kmem_scheme" and b :: "'a arr" and xs i x
  assume h: "holds_list s b xs"
  show "array_get b i = (if i < length xs then Some (xs ! i) else None)" using h by (rule array_get_eq)
  show "i < length xs \<Longrightarrow> \<exists>b'. array_set b i x = Some b' \<and> holds_list s b' (xs[i := x])"
    using array_set_eq [OF h] by blast
  show "\<not> i < length xs \<Longrightarrow> array_set b i x = None" using h by (simp add: array_set_def holds_list_def)
  show "\<exists>b' s'. (array_add b x s = Some (Inr (length xs), b', s') \<and> holds_list s' b' (xs @ [x]))
      \<or> (array_add b x s = Some (Inl ENOMEM, b, s') \<and> holds_list s' b xs)" if "length xs < 268435456"
    using array_add_spec [OF h that, of x] holds_ticks [OF h] by (auto split: if_splits)
  show "i < length xs \<Longrightarrow> \<exists>b'. array_remove b i = Some b' \<and> holds_list s b' (take i xs @ drop (Suc i) xs)"
    using h by (rule array_remove_spec)
qed

lemmas array_add_get = ar.add_get
lemmas array_rep_unique = ar.rep_unique

section \<open>Properties\<close>

text \<open>
  C25: an array is a list.  On an array that holds \<open>xs\<close>, reading and writing at an index act on the
  element there, and stop the machine out of range; appending returns the index of the new last
  element, or ENOMEM with the array unchanged when the block is full and there is no memory; removal
  closes the gap.  Appending never makes the block longer than four cells or twice the elements.
\<close>

theorem array_refines_list:
  assumes "holds_list s a xs" and "length xs < 268435456"
  shows "array_get a i = (if i < length xs then Some (xs ! i) else None)
    \<and> (if i < length xs then \<exists>a'. array_set a i x = Some a' \<and> holds_list s a' (xs[i := x]) else array_set a i x = None)
    \<and> (if length xs = a_max a \<and> oom s (ticks s)
       then \<exists>s'. array_add a x s = Some (Inl ENOMEM, a, s') \<and> holds_list s' a xs
       else \<exists>a' s'. array_add a x s = Some (Inr (length xs), a', s') \<and> holds_list s' a' (xs @ [x])
         \<and> array_get a' (length xs) = Some x \<and> (\<forall>j<length xs. array_get a' j = array_get a j)
         \<and> a_max a' \<le> max (a_max a) (max 4 (2 * length (xs @ [x]))))
    \<and> (if i < length xs then \<exists>a'. array_remove a i = Some a' \<and> holds_list s a' (take i xs @ drop (Suc i) xs)
       else array_remove a i = None)" (is "?get \<and> ?set \<and> ?add \<and> ?rem")
proof (intro conjI)
  show ?get using assms(1) by (rule ar.get_law)
  show ?set using ar.put_law [OF assms(1)] ar.put_out [OF assms(1)] by simp
  show ?add
  proof (cases "length xs = a_max a \<and> oom s (ticks s)")
    case True
    then have "array_add a x s = Some (Inl ENOMEM, a, s\<lparr>ticks := Suc (ticks s)\<rparr>)" using array_add_spec [OF assms, of x] by simp
    then show ?thesis using True holds_ticks [OF assms(1)] by auto
  next
    case False
    obtain a' s' where a': "array_add a x s = Some (Inr (length xs), a', s')" "holds_list s' a' (xs @ [x])"
      "a_max a' \<le> max (a_max a) (max 4 (2 * length (xs @ [x])))"
      using array_add_spec [OF assms, of x] unfolding if_not_P [OF False] by blast
    then show ?thesis unfolding if_not_P [OF False] using array_add_get [OF assms a'(1)] by blast
  qed
  show ?rem using ar.del_law [OF assms(1)] assms(1) by (auto simp: array_remove_def holds_list_def)
qed

text \<open>An array of two elements with room for two more, and one that is full in a state without memory.\<close>

definition small_mem :: "bool \<Rightarrow> kmem" where
  "small_mem full = \<lparr>oom = \<lambda>_. full, ticks = 9, live = {3, 4}\<rparr>"

definition small_arr :: "nat list \<Rightarrow> nat arr" where
  "small_arr xs = \<lparr>a_at = 3, a_v = 4, a_num = length xs, a_max = 4, a_cells = map Some xs @ replicate (4 - length xs) None\<rparr>"

lemma small_holds: "length xs \<le> 4 \<Longrightarrow> holds_list (small_mem full) (small_arr xs) xs"
  by (simp add: holds_list_def small_mem_def small_arr_def kmem_ok_def)

lemma array_refines_list_witness:
  "(\<exists>a' s'. array_add (small_arr [7, 8]) 9 (small_mem False) = Some (Inr 2, a', s') \<and> holds_list s' a' [7, 8, 9])
    \<and> (\<exists>s'. array_add (small_arr [1, 2, 3, 4]) 5 (small_mem True) = Some (Inl ENOMEM, small_arr [1, 2, 3, 4], s'))"
  using array_refines_list [OF small_holds [of "[7, 8]" False], of 0 9]
    array_refines_list [OF small_holds [of "[1, 2, 3, 4]" True], of 0 5]
  by (auto simp: small_arr_def small_mem_def)

text \<open>
  the doubling loop of \<open>array_preallocate\<close>, with the capacity computed in 32 bits.  It ends
  exactly for sizes up to $2^{31}$, with a capacity that is large enough and less than twice the size
  (or 4); for larger sizes the capacity wraps to 0 and the loop runs for ever.
\<close>

theorem array_growth_terminates:
  assumes "m = 0 \<or> (\<exists>k. 2 \<le> k \<and> k < 32 \<and> m = 2 ^ k)" and "num > m"
  shows "if num \<le> 2147483648 then \<exists>m'. grow num m = Some m' \<and> num \<le> m' \<and> m' \<le> max 4 (2 * num)
    else grow num m = None"
proof -
  have "4 \<le> (2::nat) ^ k" if "2 \<le> k" for k :: nat using power_increasing [OF that, of "2::nat"] by simp
  then have "m = 0 \<or> 4 \<le> m" using assms(1) by auto
  then show ?thesis using grow_from [of num m] grow_diverges [of num m] assms by auto
qed

lemma array_growth_terminates_witness:
  "(\<exists>m'. grow 70000 64 = Some m' \<and> 70000 \<le> m' \<and> m' \<le> 140000) \<and> grow 3000000000 4 = None"
proof -
  have "\<exists>k. 2 \<le> k \<and> k < 32 \<and> (64::nat) = 2 ^ k" "\<exists>k. 2 \<le> k \<and> k < 32 \<and> (4::nat) = 2 ^ k"
    by (rule exI [of _ 6], simp, rule exI [of _ 2], simp)
  then show ?thesis using array_growth_terminates [of 64 70000] array_growth_terminates [of 4 3000000000] by simp
qed

end
