(* ===== verification/Cstring.thy ===== *)
theory Cstring
  imports Prelude "HOL-Library.List_Lexorder"
begin

text \<open>
  The memory and string functions of \<open>common/libc/string\<close> and \<open>atoi\<close>, which the kernel and the C
  library share.  Memory is a function from addresses to bytes; a \<open>long\<close> is four bytes.  Loops that
  run to the end of a string are \<open>partial_function\<close>s, so a string without a terminator is a loop
  that does not end.
\<close>

type_synonym byte = "8 word"
type_synonym memory = "nat \<Rightarrow> byte"

section \<open>Blocks\<close>

text \<open>One element of \<open>w\<close> bytes is copied, or filled.\<close>

definition move1 :: "nat \<Rightarrow> nat \<Rightarrow> nat \<Rightarrow> memory \<Rightarrow> memory" where
  "move1 w d s m = (\<lambda>a. if d \<le> a \<and> a < d + w then m (s + (a - d)) else m a)"

definition fill1 :: "nat \<Rightarrow> byte \<Rightarrow> nat \<Rightarrow> memory \<Rightarrow> memory" where
  "fill1 w c d m = (\<lambda>a. if d \<le> a \<and> a < d + w then c else m a)"

function move_up :: "nat \<Rightarrow> nat \<Rightarrow> nat \<Rightarrow> nat \<Rightarrow> nat \<Rightarrow> memory \<Rightarrow> memory" where
  "move_up w d s i n m = (if i < n then move_up w d s (Suc i) n (move1 w (d + i * w) (s + i * w) m) else m)"
  by pat_completeness auto
termination by (relation "measure (\<lambda>(w, d, s, i, n, m). n - i)") auto

fun move_down :: "nat \<Rightarrow> nat \<Rightarrow> nat \<Rightarrow> nat \<Rightarrow> memory \<Rightarrow> memory" where
  "move_down w d s 0 m = m"
| "move_down w d s (Suc i) m = move_down w d s i (move1 w (d + i * w) (s + i * w) m)"

function fill_up :: "nat \<Rightarrow> byte \<Rightarrow> nat \<Rightarrow> nat \<Rightarrow> nat \<Rightarrow> memory \<Rightarrow> memory" where
  "fill_up w c d i n m = (if i < n then fill_up w c d (Suc i) n (fill1 w c (d + i * w) m) else m)"
  by pat_completeness auto
termination by (relation "measure (\<lambda>(w, c, d, i, n, m). n - i)") auto

declare move_up.simps [simp del] fill_up.simps [simp del]

definition bzero :: "nat \<Rightarrow> nat \<Rightarrow> memory \<Rightarrow> memory" where
  "bzero block len m =
     (if block mod 4 = 0 \<and> len mod 4 = 0 then fill_up 4 0 block 0 (len div 4) m else fill_up 1 0 block 0 len m)"

definition memset :: "nat \<Rightarrow> int \<Rightarrow> nat \<Rightarrow> memory \<Rightarrow> memory" where
  "memset p ch len m = fill_up 1 (word_of_int ch) p 0 len m"

definition memcpy :: "nat \<Rightarrow> nat \<Rightarrow> nat \<Rightarrow> memory \<Rightarrow> memory" where
  "memcpy dst src len m =
     (if dst mod 4 = 0 \<and> src mod 4 = 0 \<and> len mod 4 = 0 then move_up 4 dst src 0 (len div 4) m
      else move_up 1 dst src 0 len m)"

definition memmove :: "nat \<Rightarrow> nat \<Rightarrow> nat \<Rightarrow> memory \<Rightarrow> memory" where
  "memmove dst src len m =
     (if dst < src then memcpy dst src len m
      else if dst mod 4 = 0 \<and> src mod 4 = 0 \<and> len mod 4 = 0 then move_down 4 dst src (len div 4) m
      else move_down 1 dst src len m)"

text \<open>What a copy should do: all bytes at once.\<close>

definition copied :: "nat \<Rightarrow> nat \<Rightarrow> nat \<Rightarrow> memory \<Rightarrow> memory" where
  "copied dst src len m = (\<lambda>a. if dst \<le> a \<and> a < dst + len then m (src + (a - dst)) else m a)"

lemma fill_up_eq: "i \<le> n \<Longrightarrow> fill_up w c d i n m = (\<lambda>a. if d + i * w \<le> a \<and> a < d + n * w then c else m a)"
proof (induction "n - i" arbitrary: i m)
  case 0
  then show ?case by (subst fill_up.simps) (auto simp: fun_eq_iff)
next
  case (Suc k)
  then have i: "i < n" "n - Suc i = k" by auto
  have "Suc i * w \<le> n * w" using i(1) by (intro mult_le_mono) auto
  then show ?case using Suc.hyps(1) [of "Suc i"] i
    by (subst fill_up.simps) (auto simp: fun_eq_iff fill1_def)
qed

text \<open>Copying upwards is right if the destination is below the source, or the blocks are disjoint.\<close>

lemma move_up_eq:
  assumes "i \<le> n" and "(d < s \<and> d + w \<le> s) \<or> (d = s) \<or> s + n * w \<le> d"
  shows "move_up w d s i n m = copied (d + i * w) (s + i * w) ((n - i) * w) m"
  using assms(1)
proof (induction "n - i" arbitrary: i m)
  case 0
  then show ?case by (subst move_up.simps) (auto simp: copied_def fun_eq_iff)
next
  case (Suc k)
  then have i: "i < n" "n - Suc i = k" "n - i = Suc k" by auto
  have n: "n * w = i * w + w + k * w" using i by (metis add.assoc add.commute add_mult_distrib i(3) le_add_diff_inverse less_imp_le mult_Suc)
  have "move_up w d s i n m = copied (d + Suc i * w) (s + Suc i * w) (k * w) (move1 w (d + i * w) (s + i * w) m)"
    using Suc.hyps(1) [of "Suc i"] i by (subst move_up.simps) simp
  also have "\<dots> = copied (d + i * w) (s + i * w) (Suc k * w) m"
    using assms(2) n by (auto simp: copied_def move1_def fun_eq_iff add.assoc)
  finally show ?case using i by simp
qed

lemma move_down_eq:
  "s + w \<le> d \<or> s = d \<Longrightarrow> move_down w d s n m = copied d s (n * w) m"
proof (induction n arbitrary: m)
  case (Suc n)
  have "move_down w d s (Suc n) m = copied d s (n * w) (move1 w (d + n * w) (s + n * w) m)" using Suc by simp
  also have "\<dots> = copied d s (Suc n * w) m"
    using Suc.prems by (auto simp: copied_def move1_def fun_eq_iff)
  finally show ?case .
qed (auto simp: copied_def fun_eq_iff)

lemma aligned_gap: "a mod 4 = 0 \<Longrightarrow> b mod 4 = 0 \<Longrightarrow> a < b \<Longrightarrow> a + 4 \<le> (b::nat)"
  by presburger

lemma memcpy_eq: "dst \<le> src \<or> src + len \<le> dst \<Longrightarrow> memcpy dst src len m = copied dst src len m"
  using move_up_eq [of 0 "len div 4" dst src 4 m] move_up_eq [of 0 len dst src 1 m] aligned_gap [of dst src]
  by (cases dst src rule: linorder_cases) (auto simp: memcpy_def)

lemma memmove_eq: "memmove dst src len m = copied dst src len m"
  using move_down_eq [of src 4 dst "len div 4" m] move_down_eq [of src 1 dst len m] aligned_gap [of src dst]
  by (cases dst src rule: linorder_cases) (auto simp: memmove_def memcpy_eq)

lemma bzero_eq: "bzero block len m = (\<lambda>a. if block \<le> a \<and> a < block + len then 0 else m a)"
  by (auto simp: bzero_def fill_up_eq)

lemma memset_eq: "memset p ch len m = (\<lambda>a. if p \<le> a \<and> a < p + len then word_of_int ch else m a)"
  by (simp add: memset_def fill_up_eq)

section \<open>Strings\<close>

partial_function (option) strlen_from :: "memory \<Rightarrow> nat \<Rightarrow> nat \<Rightarrow> nat option" where
  "strlen_from m str ret = (if m (str + ret) \<noteq> 0 then strlen_from m str (ret + 1) else Some ret)"

definition strlen :: "nat \<Rightarrow> memory \<Rightarrow> nat option" where
  "strlen str m = strlen_from m str 0"

partial_function (option) strcpy_from :: "nat \<Rightarrow> nat \<Rightarrow> nat \<Rightarrow> memory \<Rightarrow> memory option" where
  "strcpy_from dest src i m =
     (if m (src + i) \<noteq> 0 then strcpy_from dest src (i + 1) (m(dest + i := m (src + i))) else Some (m(dest + i := 0)))"

definition strcpy :: "nat \<Rightarrow> nat \<Rightarrow> memory \<Rightarrow> memory option" where
  "strcpy dest src m = strcpy_from dest src 0 m"

definition strcat :: "nat \<Rightarrow> nat \<Rightarrow> memory \<Rightarrow> memory option" where
  "strcat dest src m = do { offset \<leftarrow> strlen dest m; strcpy (dest + offset) src m }"

text \<open>The result of \<open>strchr\<close> is 0, which stands for NULL, if the character is not there.\<close>

partial_function (option) strchr :: "nat \<Rightarrow> byte \<Rightarrow> memory \<Rightarrow> nat option" where
  "strchr s ch m =
     (if m s \<noteq> 0 then if m s = ch then Some s else strchr (s + 1) ch m
      else if m s = ch then Some s else Some 0)"

fun strrchr_from :: "nat \<Rightarrow> byte \<Rightarrow> memory \<Rightarrow> nat \<Rightarrow> nat" where
  "strrchr_from s ch m 0 = 0"
| "strrchr_from s ch m (Suc i) = (if m (s + i) = ch then s + i else strrchr_from s ch m i)"

definition strrchr :: "nat \<Rightarrow> byte \<Rightarrow> memory \<Rightarrow> nat option" where
  "strrchr s ch m = do { n \<leftarrow> strlen s m; Some (strrchr_from s ch m (n + 1)) }"

partial_function (option) strcmp_from :: "memory \<Rightarrow> nat \<Rightarrow> nat \<Rightarrow> nat \<Rightarrow> int option" where
  "strcmp_from m a b i =
     (if m (a + i) \<noteq> 0 \<and> m (a + i) = m (b + i) then strcmp_from m a b (i + 1)
      else Some (if m (a + i) > m (b + i) then 1 else if m (a + i) = m (b + i) then 0 else - 1))"

definition strcmp :: "nat \<Rightarrow> nat \<Rightarrow> memory \<Rightarrow> int option" where
  "strcmp a b m = strcmp_from m a b 0"

partial_function (option) skip_seps :: "nat \<Rightarrow> memory \<Rightarrow> nat \<Rightarrow> nat option" where
  "skip_seps seps m head =
     (if m head \<noteq> 0 then do { c \<leftarrow> strchr seps (m head) m; if c \<noteq> 0 then skip_seps seps m (head + 1) else Some head }
      else Some head)"

partial_function (option) skip_word :: "nat \<Rightarrow> memory \<Rightarrow> nat \<Rightarrow> nat option" where
  "skip_word seps m tail =
     (if m tail \<noteq> 0 then do { c \<leftarrow> strchr seps (m tail) m; if c = 0 then skip_word seps m (tail + 1) else Some tail }
      else Some tail)"

text \<open>The word found (0 for none), the new context and memory.\<close>

definition strtok_r :: "nat \<Rightarrow> nat \<Rightarrow> nat \<Rightarrow> memory \<Rightarrow> (nat \<times> nat \<times> memory) option" where
  "strtok_r string seps context m = do {
     let context = (if string \<noteq> 0 then string else context);
     let head = context;
     if head = 0 then Some (0, context, m)
     else do {
       head \<leftarrow> skip_seps seps m head;
       if m head = 0 then Some (0, 0, m)
       else do {
         tail \<leftarrow> skip_word seps m head;
         if m tail = 0 then Some (head, 0, m)
         else Some (head, tail + 1, m(tail := 0)) } } }"

text \<open>The string \<open>xs\<close> stands at \<open>p\<close>.\<close>

definition string_at :: "memory \<Rightarrow> nat \<Rightarrow> byte list \<Rightarrow> bool" where
  "string_at m p xs \<longleftrightarrow> p \<noteq> 0 \<and> 0 \<notin> set xs \<and> (\<forall>i<length xs. m (p + i) = xs ! i) \<and> m (p + length xs) = 0"

lemma string_at_Nil [simp]: "string_at m p [] \<longleftrightarrow> p \<noteq> 0 \<and> m p = 0"
  by (simp add: string_at_def)

lemma string_at_Cons [simp]: "string_at m p (x # xs) \<longleftrightarrow> p \<noteq> 0 \<and> x \<noteq> 0 \<and> m p = x \<and> string_at m (Suc p) xs"
  by (auto simp: string_at_def All_less_Suc2)

lemma string_at_append:
  "string_at m p (xs @ ys) \<longleftrightarrow> p \<noteq> 0 \<and> 0 \<notin> set xs \<and> (\<forall>i<length xs. m (p + i) = xs ! i) \<and> string_at m (p + length xs) ys"
  by (induction xs arbitrary: p) (auto simp: All_less_Suc2, simp add: string_at_def)

lemma string_at_unique: "string_at m p xs \<Longrightarrow> string_at m p ys \<Longrightarrow> xs = ys"
  by (induction xs arbitrary: p ys) (case_tac ys; auto)+

lemma strlen_from_eq: "string_at m (p + i) xs \<Longrightarrow> strlen_from m p i = Some (i + length xs)"
proof (induction xs arbitrary: i)
  case (Cons x xs)
  then show ?case by (subst strlen_from.simps) auto
qed (subst strlen_from.simps, simp)

lemma strlen_eq: "string_at m p xs \<Longrightarrow> strlen p m = Some (length xs)"
  using strlen_from_eq [of m p 0] by (simp add: strlen_def)

text \<open>Copying a string into a buffer that does not overlap it.\<close>

lemma strcpy_from_eq:
  assumes "string_at m (src + i) xs" and "dest + i + length xs < src + i \<or> src + i + length xs < dest + i"
  shows "strcpy_from dest src i m = Some (\<lambda>a. if dest + i \<le> a \<and> a < dest + i + length xs then xs ! (a - (dest + i))
     else if a = dest + i + length xs then 0 else m a)"
  using assms
proof (induction xs arbitrary: i m)
  case Nil
  then show ?case by (subst strcpy_from.simps) (auto simp: fun_eq_iff)
next
  case (Cons x xs)
  let ?m = "m(dest + i := m (src + i))"
  have "string_at ?m (src + (i + 1)) xs" using Cons.prems by (auto simp: string_at_def)
  then have IH: "strcpy_from dest src (i + 1) ?m = Some (\<lambda>a. if dest + (i + 1) \<le> a \<and> a < dest + (i + 1) + length xs
      then xs ! (a - (dest + (i + 1))) else if a = dest + (i + 1) + length xs then 0 else ?m a)"
    by (rule Cons.IH) (use Cons.prems in auto)
  have "strcpy_from dest src i m = strcpy_from dest src (i + 1) ?m" using Cons.prems(1) by (subst strcpy_from.simps) simp
  also have "\<dots> = Some (\<lambda>a. if dest + i \<le> a \<and> a < dest + i + length (x # xs) then (x # xs) ! (a - (dest + i))
      else if a = dest + i + length (x # xs) then 0 else m a)"
    unfolding IH option.inject
  proof
    fix a
    show "(if dest + (i + 1) \<le> a \<and> a < dest + (i + 1) + length xs
        then xs ! (a - (dest + (i + 1))) else if a = dest + (i + 1) + length xs then 0 else ?m a) =
      (if dest + i \<le> a \<and> a < dest + i + length (x # xs) then (x # xs) ! (a - (dest + i))
        else if a = dest + i + length (x # xs) then 0 else m a)"
      using Cons.prems(1) by (cases "a = dest + i") (auto simp: nth_Cons')
  qed
  finally show ?case .
qed

lemma strcpy_eq:
  assumes "string_at m src xs" and "dest + length xs < src \<or> src + length xs < dest" and "dest \<noteq> 0"
  shows "\<exists>m'. strcpy dest src m = Some m' \<and> string_at m' dest xs \<and> string_at m' src xs
    \<and> (\<forall>a. a < dest \<or> dest + length xs < a \<longrightarrow> m' a = m a)"
  using strcpy_from_eq [of m src 0 xs dest] assms by (auto simp: strcpy_def string_at_def)

lemma strcat_eq:
  assumes "string_at m dest ys" and "string_at m src xs"
    and "dest + length ys + length xs < src \<or> src + length xs < dest"
  shows "\<exists>m'. strcat dest src m = Some m' \<and> string_at m' dest (ys @ xs) \<and> string_at m' src xs
    \<and> (\<forall>a. a < dest \<or> dest + length (ys @ xs) < a \<longrightarrow> m' a = m a)"
proof -
  have "dest \<noteq> 0" using assms(1) by (simp add: string_at_def)
  then obtain m' where m': "strcpy (dest + length ys) src m = Some m'" "string_at m' (dest + length ys) xs" "string_at m' src xs"
    "\<forall>a. a < dest + length ys \<or> dest + length ys + length xs < a \<longrightarrow> m' a = m a"
    using strcpy_eq [OF assms(2), of "dest + length ys"] assms(3) by auto
  have "string_at m' dest (ys @ xs)" 
    unfolding string_at_append using m'(2,4) assms(1) by (auto simp: string_at_def)
  then show ?thesis using m' strlen_eq [OF assms(1)] by (auto simp: strcat_def)
qed

text \<open>Searching: the first and the last occurrence; the terminator counts as a character.\<close>

lemma strchr_eq:
  "string_at m p xs \<Longrightarrow> strchr p c m = Some (if c \<in> set (xs @ [0]) then p + length (takeWhile (\<lambda>x. x \<noteq> c) (xs @ [0])) else 0)"
proof (induction xs arbitrary: p)
  case Nil
  then show ?case by (subst strchr.simps) auto
next
  case (Cons x xs)
  then show ?case by (subst strchr.simps) auto
qed

lemma strrchr_from_eq:
  "strrchr_from p c m n = (if \<exists>i<n. m (p + i) = c then p + (GREATEST i. i < n \<and> m (p + i) = c) else 0)"
proof (induction n)
  case (Suc n)
  show ?case
  proof (cases "m (p + n) = c")
    case True
    then have "(GREATEST i. i < Suc n \<and> m (p + i) = c) = n" by (intro Greatest_equality) auto
    then show ?thesis using True by auto
  next
    case False
    then have "(i < Suc n \<and> m (p + i) = c) = (i < n \<and> m (p + i) = c)" for i using less_Suc_eq by auto
    then show ?thesis using False Suc by auto
  qed
qed simp

lemma strcmp_from_eq:
  "string_at m (a + i) xs \<Longrightarrow> string_at m (b + i) ys \<Longrightarrow>
   strcmp_from m a b i = Some (if xs = ys then 0 else if xs < ys then - 1 else 1)"
proof (induction xs arbitrary: i ys)
  case Nil
  then show ?case by (subst strcmp_from.simps) (cases ys; auto)
next
  case (Cons x xs)
  show ?case
  proof (cases ys)
    case Nil
    then show ?thesis using Cons.prems by (subst strcmp_from.simps) (auto simp: word_gt_0)
  next
    case (Cons y ys')
    then show ?thesis using Cons.prems Cons.IH [of "i + 1" ys'] by (subst strcmp_from.simps) auto
  qed
qed

lemma strcmp_eq:
  "string_at m a xs \<Longrightarrow> string_at m b ys \<Longrightarrow> strcmp a b m = Some (if xs = ys then 0 else if xs < ys then - 1 else 1)"
  using strcmp_from_eq [of m a 0] by (simp add: strcmp_def)

lemma strrchr_eq:
  assumes "string_at m p xs"
  shows "strrchr p c m = Some (if c \<in> set (xs @ [0]) then p + (GREATEST i. i \<le> length xs \<and> (xs @ [0]) ! i = c) else 0)"
proof -
  have e: "(i < Suc (length xs) \<and> m (p + i) = c) \<longleftrightarrow> (i \<le> length xs \<and> (xs @ [0]) ! i = c)" for i
    using assms by (auto simp: string_at_def nth_append le_less less_Suc_eq)
  have "(\<exists>i<Suc (length xs). m (p + i) = c) \<longleftrightarrow> c \<in> set (xs @ [0])"
    using e by (auto simp: in_set_conv_nth less_Suc_eq_le simp del: set_append)
  then show ?thesis using strlen_eq [OF assms] e by (simp add: strrchr_def strrchr_from_eq)
qed

section \<open>Words of a line\<close>

lemma strchr_sep: "string_at m seps ss \<Longrightarrow> c \<noteq> 0 \<Longrightarrow> \<exists>r. strchr seps c m = Some r \<and> (r \<noteq> 0 \<longleftrightarrow> c \<in> set ss)"
  using strchr_eq [of m seps ss c] by (auto simp: string_at_def)

lemma skip_seps_eq:
  assumes "string_at m seps ss" and "string_at m p xs"
  shows "skip_seps seps m p = Some (p + length (takeWhile (\<lambda>c. c \<in> set ss) xs))"
  using assms(2)
proof (induction xs arbitrary: p)
  case (Cons x xs)
  then obtain r where "strchr seps x m = Some r" "r \<noteq> 0 \<longleftrightarrow> x \<in> set ss" using strchr_sep [OF assms(1), of x] by auto
  then show ?case using Cons by (subst skip_seps.simps) auto
qed (subst skip_seps.simps, simp)

lemma skip_word_eq:
  assumes "string_at m seps ss" and "string_at m p xs"
  shows "skip_word seps m p = Some (p + length (takeWhile (\<lambda>c. c \<notin> set ss) xs))"
  using assms(2)
proof (induction xs arbitrary: p)
  case (Cons x xs)
  then obtain r where "strchr seps x m = Some r" "r \<noteq> 0 \<longleftrightarrow> x \<in> set ss" using strchr_sep [OF assms(1), of x] by auto
  then show ?case using Cons by (subst skip_word.simps) auto
qed (subst skip_word.simps, simp)

lemma string_at_drop: "string_at m p xs \<Longrightarrow> n \<le> length xs \<Longrightarrow> string_at m (p + n) (drop n xs)"
  using string_at_append [of m p "take n xs" "drop n xs"] by simp

text \<open>The words of a string between separators.\<close>

function words :: "byte list \<Rightarrow> byte list \<Rightarrow> byte list list" where
  "words ss xs = (let ys = dropWhile (\<lambda>c. c \<in> set ss) xs in
     if ys = [] then [] else takeWhile (\<lambda>c. c \<notin> set ss) ys # words ss (dropWhile (\<lambda>c. c \<notin> set ss) ys))"
  by pat_completeness auto
termination
proof (relation "measure (\<lambda>(ss, xs). length xs)")
  fix ss xs :: "byte list" and ys
  assume ys: "ys = dropWhile (\<lambda>c. c \<in> set ss) xs" "ys \<noteq> []"
  then have "hd ys \<notin> set ss" using hd_dropWhile [of "\<lambda>c. c \<in> set ss" xs] by simp
  then have "length (dropWhile (\<lambda>c. c \<notin> set ss) ys) < length ys" using ys(2) length_dropWhile_le by (cases ys) (auto simp: less_Suc_eq_le)
  also have "\<dots> \<le> length xs" using ys(1) length_dropWhile_le by metis
  finally show "((ss, dropWhile (\<lambda>c. c \<notin> set ss) ys), ss, xs) \<in> measure (\<lambda>(ss, xs). length xs)" by simp
qed simp

declare words.simps [simp del]

lemma words_sep: "s \<in> set ss \<Longrightarrow> words ss (s # xs) = words ss xs"
  by (subst (1 2) words.simps) simp

lemma string_at_dropWhile: "string_at m p xs \<Longrightarrow> string_at m (p + length (takeWhile P xs)) (dropWhile P xs)"
  using string_at_drop [of m p xs "length (takeWhile P xs)"] length_takeWhile_le [of P xs] by (simp add: dropWhile_eq_drop)

text \<open>A call finds the next word and leaves the rest for the following calls.\<close>

lemma strtok_step:
  assumes seps: "string_at m seps ss" and p: "string_at m p xs" and far: "\<And>a. p \<le> a \<Longrightarrow> a \<le> p + length xs \<Longrightarrow> a < seps \<or> seps + length ss < a"
    and call: "(str = p) \<or> (str = 0 \<and> ctx = p)"
  shows "case words ss xs of
      [] \<Rightarrow> strtok_r str seps ctx m = Some (0, 0, m)
    | w # ws \<Rightarrow> \<exists>h c m'. strtok_r str seps ctx m = Some (h, c, m') \<and> string_at m' h w \<and> string_at m' seps ss
        \<and> p \<le> h \<and> h + length w \<le> p + length xs \<and> (\<forall>a. a < p \<or> p + length xs < a \<longrightarrow> m' a = m a)
        \<and> (\<forall>a. a < h + length w \<longrightarrow> m' a = m a)
        \<and> (if c = 0 then ws = [] else h + length w < c \<and> c \<le> p + length xs
            \<and> (\<exists>ys. string_at m' c ys \<and> c + length ys = p + length xs \<and> words ss ys = ws))"
proof -
  let ?sep = "\<lambda>c. c \<in> set ss" and ?non = "\<lambda>c. c \<notin> set ss"
  let ?ys = "dropWhile ?sep xs" and ?h = "p + length (takeWhile ?sep xs)"
  let ?w = "takeWhile ?non ?ys" and ?zs = "dropWhile ?non ?ys"
  have p0: "p \<noteq> 0" using p by (simp add: string_at_def)
  have ys: "string_at m ?h ?ys" using p by (rule string_at_dropWhile)
  have hd: "skip_seps seps m p = Some ?h" using seps p by (rule skip_seps_eq)
  have ctx: "(if str \<noteq> 0 then str else ctx) = p" using call p0 by auto
  have len: "length (takeWhile ?sep xs) + length ?ys = length xs" by (metis length_append takeWhile_dropWhile_id)
  show ?thesis
  proof (cases "?ys = []")
    case True
    then have "words ss xs = []" by (subst words.simps) simp
    then show ?thesis using ys True hd ctx p0 by (simp add: strtok_r_def)
  next
    case False
    have ws: "words ss xs = ?w # words ss ?zs" using False by (subst words.simps) (simp add: Let_def)
    have m0: "m ?h \<noteq> 0" using ys False by (cases ?ys) auto
    have tl: "skip_word seps m ?h = Some (?h + length ?w)" using seps ys by (rule skip_word_eq)
    have zs: "string_at m (?h + length ?w) ?zs" using ys by (rule string_at_dropWhile)
    have len2: "length ?w + length ?zs = length ?ys" by (metis length_append takeWhile_dropWhile_id)
    have w: "0 \<notin> set ?w" "\<forall>i<length ?w. m (?h + i) = ?w ! i"
      using ys string_at_append [of m ?h ?w ?zs] by auto
    show ?thesis
    proof (cases ?zs)
      case Nil
      have "m (?h + length ?w) = 0" using zs unfolding Nil by simp
      then have "strtok_r str seps ctx m = Some (?h, 0, m)" using hd tl m0 ctx p0 by (simp add: strtok_r_def)
      moreover have "string_at m ?h ?w" using ys Nil by (metis append_Nil2 takeWhile_dropWhile_id)
      moreover have "words ss ?zs = []" unfolding Nil by (subst words.simps) simp
      ultimately show ?thesis unfolding ws list.case using seps len len2
        by (intro exI [of _ ?h] exI [of _ 0] exI [of _ m]) auto
    next
      case (Cons z vs)
      let ?t = "?h + length ?w"
      let ?m = "m(?t := 0)"
      have z: "z \<in> set ss" using Cons hd_dropWhile [of ?non ?ys] by auto
      have mz: "m ?t \<noteq> 0" "string_at m (Suc ?t) vs" using zs Cons by auto
      have r: "strtok_r str seps ctx m = Some (?h, ?t + 1, ?m)" using hd tl m0 ctx p0 mz by (simp add: strtok_r_def)
      have sw: "string_at ?m ?h ?w" using w p0 by (auto simp: string_at_def)
      have ss: "string_at ?m seps ss" using far [of ?t] seps len len2 by (auto simp: string_at_def)
      have sv: "string_at ?m (?t + 1) vs" using mz by (auto simp: string_at_def)
      have wv: "words ss vs = words ss ?zs" using Cons z words_sep by simp
      have e: "?t + 1 + length vs = p + length xs" using len len2 Cons by simp
      have "if ?t + 1 = 0 then words ss ?zs = [] else ?h + length ?w < ?t + 1 \<and> ?t + 1 \<le> p + length xs
            \<and> (\<exists>ys. string_at ?m (?t + 1) ys \<and> ?t + 1 + length ys = p + length xs \<and> words ss ys = words ss ?zs)"
        using sv wv e by auto
      moreover have "\<forall>a. a < p \<or> p + length xs < a \<longrightarrow> ?m a = m a" using e by auto
      moreover have "\<forall>a. a < ?h + length ?w \<longrightarrow> ?m a = m a" "p \<le> ?h" "?h + length ?w \<le> p + length xs" using e by auto
      ultimately show ?thesis unfolding ws list.case
        by (intro exI [of _ ?h] exI [of _ "?t + 1"] exI [of _ ?m] conjI r sw ss)
    qed
  qed
qed

text \<open>The loop over all words of a line, as the menu and the shell write it: the addresses of the words.\<close>

fun strtok_all :: "nat \<Rightarrow> nat \<Rightarrow> nat \<Rightarrow> nat \<Rightarrow> memory \<Rightarrow> (nat list \<times> memory) option" where
  "strtok_all 0 str seps ctx m = None"
| "strtok_all (Suc fuel) str seps ctx m = do {
     (h, c, m) \<leftarrow> strtok_r str seps ctx m;
     if h = 0 then Some ([], m)
     else do { (hs, m) \<leftarrow> strtok_all fuel 0 seps c m; Some (h # hs, m) } }"

lemma strtok_all_eq:
  assumes "string_at m seps ss" and "string_at m p xs" and "p + length xs < seps \<or> seps + length ss < p"
    and "(str = p) \<or> (str = 0 \<and> ctx = p)" and "length (words ss xs) < fuel"
  shows "\<exists>hs m'. strtok_all fuel str seps ctx m = Some (hs, m') \<and> list_all2 (string_at m') hs (words ss xs)
    \<and> (\<forall>a. a < p \<longrightarrow> m' a = m a)"
  using assms
proof (induction fuel arbitrary: m p xs str ctx)
  case (Suc fuel)
  have far: "a < seps \<or> seps + length ss < a" if "p \<le> a" "a \<le> p + length xs" for a using Suc.prems(3) that by auto
  note step = strtok_step [OF Suc.prems(1,2) far Suc.prems(4)]
  show ?case
  proof (cases "words ss xs")
    case Nil
    then show ?thesis using step by simp
  next
    case (Cons w ws)
    then obtain h c m1 where m1: "strtok_r str seps ctx m = Some (h, c, m1)" "string_at m1 h w" "string_at m1 seps ss"
      "p \<le> h" "\<forall>a. a < h + length w \<longrightarrow> m1 a = m a"
      and c: "if c = 0 then ws = [] else h + length w < c \<and> c \<le> p + length xs
            \<and> (\<exists>ys. string_at m1 c ys \<and> c + length ys = p + length xs \<and> words ss ys = ws)"
      using step by auto
    have h0: "h \<noteq> 0" using m1(2) by (simp add: string_at_def)
    have "\<exists>hs m'. strtok_all fuel 0 seps c m1 = Some (hs, m') \<and> list_all2 (string_at m') hs ws \<and> (\<forall>a. a < h + length w + 1 \<longrightarrow> m' a = m1 a)"
    proof (cases "c = 0")
      case True
      then have "strtok_r 0 seps c m1 = Some (0, 0, m1)" by (simp add: strtok_r_def)
      then show ?thesis using c True Suc.prems(5) Cons by (cases fuel) auto
    next
      case False
      then obtain ys where ys: "string_at m1 c ys" "c + length ys = p + length xs" "words ss ys = ws" and hc: "h + length w < c" using c by auto
      have "\<exists>hs m'. strtok_all fuel 0 seps c m1 = Some (hs, m') \<and> list_all2 (string_at m') hs (words ss ys) \<and> (\<forall>a. a < c \<longrightarrow> m' a = m1 a)"
        using Suc.prems(3,5) ys m1(4) hc Cons by (intro Suc.IH [OF m1(3) ys(1)]) auto
      then show ?thesis using ys(3) hc by auto
    qed
    then obtain hs m' where hs: "strtok_all fuel 0 seps c m1 = Some (hs, m')" "list_all2 (string_at m') hs ws" "\<forall>a. a < h + length w + 1 \<longrightarrow> m' a = m1 a" by auto
    have "string_at m' h w" using m1(2) hs(3) by (auto simp: string_at_def)
    then show ?thesis using m1 hs h0 Cons by auto
  qed
qed simp

section \<open>Decimal numbers\<close>

partial_function (option) skip_blank :: "memory \<Rightarrow> nat \<Rightarrow> nat option" where
  "skip_blank m s = (if m s = 32 \<or> m s = 9 then skip_blank m (s + 1) else Some s)"

text \<open>The value is accumulated in an \<open>unsigned\<close>; \<open>digits\<close> is the address of the string of digits.\<close>

partial_function (option) atoi_digits :: "memory \<Rightarrow> nat \<Rightarrow> nat \<Rightarrow> 32 word \<Rightarrow> (32 word) option" where
  "atoi_digits m digits s val =
     (if m s \<noteq> 0 then do {
        found \<leftarrow> strchr digits (m s) m;
        if found = 0 then Some val
        else atoi_digits m digits (s + 1) (val * 10 + of_nat (found - digits)) }
      else Some val)"

definition atoi :: "nat \<Rightarrow> nat \<Rightarrow> memory \<Rightarrow> int option" where
  "atoi digits s m = do {
     s \<leftarrow> skip_blank m s;
     let (neg, s) = (if m s = 45 then (True, s + 1) else if m s = 43 then (False, s + 1) else (False, s));
     val \<leftarrow> atoi_digits m digits s 0;
     Some (if neg then sint (- val) else sint val) }"

definition digit_chars :: "byte list" where
  "digit_chars = [48, 49, 50, 51, 52, 53, 54, 55, 56, 57]"

definition number :: "nat list \<Rightarrow> nat" where
  "number ds = foldl (\<lambda>v d. v * 10 + d) 0 ds"

definition chars_of :: "nat list \<Rightarrow> byte list" where
  "chars_of ds = map (\<lambda>d. digit_chars ! d) ds"

lemma digit_chars_simps: "length digit_chars = 10" "distinct digit_chars" "0 \<notin> set digit_chars" "45 \<notin> set digit_chars"
  "43 \<notin> set digit_chars" "32 \<notin> set digit_chars" "9 \<notin> set digit_chars"
  by (simp_all add: digit_chars_def)

lemma digit_found:
  assumes "string_at m digits digit_chars" and "d < 10"
  shows "strchr digits (digit_chars ! d) m = Some (digits + d)"
proof -
  have "takeWhile (\<lambda>x. x \<noteq> digit_chars ! d) (digit_chars @ [0]) = take d (digit_chars @ [0])"
    using assms(2) digit_chars_simps(1,2) by (intro takeWhile_eq_take_P_nth) (auto simp: nth_append nth_eq_iff_index_eq)
  then have "length (takeWhile (\<lambda>x. x \<noteq> digit_chars ! d) (digit_chars @ [0])) = d"
    using assms(2) digit_chars_simps(1) by simp
  moreover have "digit_chars ! d \<in> set (digit_chars @ [0])" using assms(2) digit_chars_simps(1) by simp
  ultimately show ?thesis using strchr_eq [OF assms(1)] by simp
qed

lemma digit_not_found: "string_at m digits digit_chars \<Longrightarrow> c \<noteq> 0 \<Longrightarrow> c \<notin> set digit_chars \<Longrightarrow> strchr digits c m = Some 0"
  using strchr_eq [of m digits digit_chars c] by simp

lemma atoi_digits_eq:
  assumes "string_at m digits digit_chars" and "string_at m s (chars_of ds @ rest)" and "\<forall>d\<in>set ds. d < 10"
    and "rest = [] \<or> hd rest \<notin> set digit_chars"
  shows "atoi_digits m digits s val = Some (foldl (\<lambda>v d. v * 10 + of_nat d) val ds)"
  using assms(2,3)
proof (induction ds arbitrary: s val)
  case Nil
  then show ?case
    using assms(1,4) digit_not_found [OF assms(1), of "m s"] by (subst atoi_digits.simps) (cases rest; auto simp: chars_of_def)
next
  case (Cons d ds)
  then have d: "m s = digit_chars ! d" "m s \<noteq> 0" "string_at m (s + 1) (chars_of ds @ rest)" "d < 10" by (auto simp: chars_of_def)
  then have "strchr digits (m s) m = Some (digits + d)" "digits \<noteq> 0"
    using digit_found [OF assms(1), of d] assms(1) by (auto simp: string_at_def)
  moreover have "atoi_digits m digits (s + 1) (val * 10 + of_nat d) = Some (foldl (\<lambda>v d. v * 10 + of_nat d) (val * 10 + of_nat d) ds)"
    using Cons.prems(2) by (intro Cons.IH d(3)) auto
  ultimately show ?case using d(2) by (subst atoi_digits.simps) auto
qed

lemma number_word: "foldl (\<lambda>v d. v * 10 + of_nat d) (of_nat v) ds = (of_nat (foldl (\<lambda>v d. v * 10 + d) v ds) :: 32 word)"
proof (induction ds arbitrary: v)
  case (Cons d ds)
  then show ?case using Cons [of "v * 10 + d"] by simp
qed simp

lemma sint_s32: "sint (word_of_int x :: 32 word) = s32 x"
  by (simp add: sint_uint s32_def signed_take_bit_eq_take_bit_shift take_bit_eq_mod uint_word_of_int mod_simps)

lemma skip_blank_eq:
  assumes "string_at m s (bs @ xs)" and "set bs \<subseteq> {32, 9}" and "xs = [] \<or> hd xs \<notin> {32, 9}"
  shows "skip_blank m s = Some (s + length bs)"
  using assms
proof (induction bs arbitrary: s)
  case Nil
  then show ?case by (subst skip_blank.simps) (cases xs; auto)
next
  case (Cons b bs)
  then show ?case by (subst skip_blank.simps) auto
qed

text \<open>The decimal digits of a number.\<close>

fun decimal :: "nat \<Rightarrow> nat list" where
  "decimal n = (if n < 10 then [n] else decimal (n div 10) @ [n mod 10])"

declare decimal.simps [simp del]

lemma number_decimal: "number (decimal n) = n \<and> (\<forall>d\<in>set (decimal n). d < 10)"
proof (induction n rule: decimal.induct)
  case (1 n)
  show ?case
  proof (cases "n < 10")
    case False
    then have "decimal n = decimal (n div 10) @ [n mod 10]" by (subst decimal.simps) simp
    then show ?thesis using 1 False by (auto simp: number_def)
  qed (subst (1 2) decimal.simps, simp add: number_def)
qed

section \<open>Properties\<close>

text \<open>Memory with a few strings, for the examples.\<close>

fun example_mem :: "(nat \<times> byte list) list \<Rightarrow> memory" where
  "example_mem [] = (\<lambda>_. 0)"
| "example_mem ((p, xs) # bs) = (\<lambda>a. if p \<le> a \<and> a < p + length xs then xs ! (a - p) else example_mem bs a)"

text \<open>
  C26: the block functions, with their word-at-a-time paths, do what byte-at-a-time definitions say.
  \<open>memmove\<close> copies the whole source as it was before the call, for all overlaps and alignments;
  \<open>memcpy\<close> does if the destination is not inside the source; \<open>bzero\<close> and \<open>memset\<close> fill exactly the
  block.
\<close>

theorem block_functions:
  "memmove dst src len m = copied dst src len m
    \<and> (dst \<le> src \<or> src + len \<le> dst \<longrightarrow> memcpy dst src len m = copied dst src len m)
    \<and> bzero dst len m = (\<lambda>a. if dst \<le> a \<and> a < dst + len then 0 else m a)
    \<and> memset dst ch len m = (\<lambda>a. if dst \<le> a \<and> a < dst + len then word_of_int ch else m a)"
  by (simp add: memmove_eq memcpy_eq bzero_eq memset_eq)

lemma block_functions_witness:
  "memmove 12 8 16 (example_mem [(8, [1, 2, 3, 4])]) 15 = 4 \<and> memcpy 8 12 4 (example_mem [(12, [1, 2, 3, 4])]) 9 = 2"
  using block_functions [of 12 8 16 "example_mem [(8, [1, 2, 3, 4])]"] block_functions [of 8 12 4 "example_mem [(12, [1, 2, 3, 4])]"]
  by (simp add: copied_def)

text \<open>
  the string functions end on every terminated string and compute the length, the order (bytes
  compared unsigned), the first and the last place of a character with the terminator counted, the
  copy, and the concatenation; copying writes nothing but the string and its terminator.
\<close>

theorem string_functions:
  assumes "string_at m a xs" and "string_at m b ys"
  shows "strlen a m = Some (length xs)
    \<and> strcmp a b m = Some (if xs = ys then 0 else if xs < ys then - 1 else 1)
    \<and> strchr a c m = Some (if c \<in> set (xs @ [0]) then a + length (takeWhile (\<lambda>x. x \<noteq> c) (xs @ [0])) else 0)
    \<and> strrchr a c m = Some (if c \<in> set (xs @ [0]) then a + (GREATEST i. i \<le> length xs \<and> (xs @ [0]) ! i = c) else 0)
    \<and> (d \<noteq> 0 \<and> (d + length xs < a \<or> a + length xs < d) \<longrightarrow>
        (\<exists>m'. strcpy d a m = Some m' \<and> string_at m' d xs \<and> string_at m' a xs
          \<and> (\<forall>i. i < d \<or> d + length xs < i \<longrightarrow> m' i = m i)))
    \<and> (b + length ys + length xs < a \<or> a + length xs < b \<longrightarrow>
        (\<exists>m'. strcat b a m = Some m' \<and> string_at m' b (ys @ xs) \<and> string_at m' a xs
          \<and> (\<forall>i. i < b \<or> b + length (ys @ xs) < i \<longrightarrow> m' i = m i)))"
  using strlen_eq [OF assms(1)] strcmp_eq [OF assms] strchr_eq [OF assms(1)] strrchr_eq [OF assms(1)]
    strcpy_eq [OF assms(1)] strcat_eq [OF assms(2,1)] by (intro conjI impI) auto

lemma string_functions_witness:
  "strcmp 10 20 (example_mem [(10, [99, 100]), (20, [99, 101, 102])]) = Some (- 1)
    \<and> (\<exists>m'. strcat 20 10 (example_mem [(10, [99, 100]), (20, [99, 101, 102])]) = Some m' \<and> string_at m' 20 [99, 101, 102, 99, 100])"
proof -
  let ?m = "example_mem [(10, [99, 100]), (20, [99, 101, 102])]"
  have "string_at ?m 10 [99, 100]" "string_at ?m 20 [99, 101, 102]" by simp_all
  from string_functions [OF this, of 0 0] show ?thesis by (simp del: example_mem.simps string_at_Cons) blast
qed

text \<open>
  splitting a line with \<open>strtok_r\<close>.  Repeated calls return exactly the words between separators,
  in order, each terminated in place, and end; the separators may be any string outside the line.
\<close>

theorem strtok_splits:
  assumes "string_at m p xs" and "string_at m seps ss" and "p + length xs < seps \<or> seps + length ss < p"
  shows "\<exists>hs m'. strtok_all (length (words ss xs) + 1) p seps 0 m = Some (hs, m') \<and> list_all2 (string_at m') hs (words ss xs)"
  using strtok_all_eq [OF assms(2,1,3), of p 0 "length (words ss xs) + 1"] by auto

lemma strtok_splits_witness:
  "\<exists>hs m'. strtok_all 3 10 30 0 (example_mem [(10, [32, 97, 98, 32, 32, 99]), (30, [32, 9])]) = Some (hs, m')
    \<and> list_all2 (string_at m') hs [[97, 98], [99]]"
proof -
  let ?m = "example_mem [(10, [32, 97, 98, 32, 32, 99]), (30, [32, 9])]"
  have "string_at ?m 10 [32, 97, 98, 32, 32, 99]" "string_at ?m 30 [32, 9]" by simp_all
  moreover have "words [32, 9] [32, 97, 98, 32, 32, 99] = [[97, 98], [99]]" by (simp add: words.simps)
  ultimately show ?thesis using strtok_splits [of ?m 10 "[32, 97, 98, 32, 32, 99]" 30 "[32, 9]"]
    by (simp add: numeral_3_eq_3 del: strtok_all.simps example_mem.simps)
qed

text \<open>
  C27: \<open>atoi\<close> reads decimal numbers: blanks, an optional sign and digits give the number, reduced to a
  32-bit \<open>int\<close>, whatever follows the digits; so printing a number that fits and reading it back
  gives the number.
\<close>

theorem atoi_reads_decimal:
  assumes "string_at m digits digit_chars" and "string_at m s (bs @ sign @ chars_of (decimal n) @ rest)"
    and "set bs \<subseteq> {32, 9}" and "sign \<in> {[], [43], [45]}" and "rest = [] \<or> hd rest \<notin> set digit_chars"
  shows "atoi digits s m = Some (s32 (if sign = [45] then - int n else int n))"
proof -
  let ?xs = "sign @ chars_of (decimal n) @ rest" and ?p = "s + length bs"
  have ne: "decimal n \<noteq> []" by (subst decimal.simps) simp
  have dn: "\<forall>d\<in>set (decimal n). d < 10" "number (decimal n) = n" using number_decimal [of n] by simp_all
  have in_chars: "hd (chars_of (decimal n)) \<in> set digit_chars" "chars_of (decimal n) \<noteq> []"
    using ne dn(1) digit_chars_simps(1) by (auto simp: chars_of_def hd_map)
  have nb: "hd ?xs \<notin> {32, 9}" using assms(4) in_chars digit_chars_simps by auto
  have "skip_blank m s = Some ?p" by (rule skip_blank_eq [OF assms(2,3)]) (use nb in simp)
  have at: "string_at m (?p + length sign) (chars_of (decimal n) @ rest)"
    using assms(2) string_at_append [of m s bs ?xs] string_at_append [of m ?p sign] by simp
  have "atoi_digits m digits (?p + length sign) 0 = Some (of_nat n)"
    using atoi_digits_eq [OF assms(1) at dn(1) assms(5), of 0] number_word [of 0 "decimal n"] dn(2) by (simp add: number_def)
  moreover have "(if m ?p = 45 then (True, ?p + 1) else if m ?p = 43 then (False, ?p + 1) else (False, ?p)) = (sign = [45], ?p + length sign)"
  proof -
    have "string_at m ?p ?xs" using assms(2) string_at_append [of m s bs ?xs] by simp
    moreover have "?xs \<noteq> []" using in_chars(2) by simp
    ultimately have "m ?p = hd ?xs" by (cases ?xs) auto
    moreover have "hd (chars_of (decimal n) @ rest) \<noteq> 45" "hd (chars_of (decimal n) @ rest) \<noteq> 43"
      using in_chars digit_chars_simps by auto
    ultimately show ?thesis using assms(4) by auto
  qed
  ultimately show ?thesis
    using \<open>skip_blank m s = Some ?p\<close> sint_s32 [of "int n"] sint_s32 [of "- int n"] by (simp add: atoi_def)
qed

lemma atoi_reads_decimal_witness:
  "atoi 100 20 (example_mem [(20, [32, 45, 52, 50, 120]), (100, digit_chars)]) = Some (- 42)"
proof -
  let ?m = "example_mem [(20, [32, 45, 52, 50, 120]), (100, digit_chars)]"
  have "string_at ?m 100 digit_chars" "string_at ?m 20 ([32] @ [45] @ chars_of (decimal 42) @ [120])"
    by (simp_all add: digit_chars_def chars_of_def decimal.simps)
  then show ?thesis
    using atoi_reads_decimal [of ?m 100 20 "[32]" "[45]" 42 "[120]"] by (simp add: digit_chars_def s32_def del: example_mem.simps)
qed

end
