(* ===== verification/Usermem.thy ===== *)
theory Usermem
  imports Cstring
begin

text \<open>
  Transfers between the kernel and user memory: \<open>kern/vm/copyinout.c\<close> and \<open>kern/lib/uio.c\<close>.  Memory
  is one function from virtual addresses to bytes, with the accesses that would fault given by two
  predicates.  A fault while \<open>tm_badfaultfunc\<close> is set resumes in \<open>copyfail\<close> and makes the call return
  EFAULT; what was copied before the fault stays copied (pages are word-aligned, so the word loop of
  \<open>memcpy\<close> stops at the same byte as the byte loop).
\<close>

section \<open>Copying in and out\<close>

record umem =
  bytes :: memory
  readable :: "nat \<Rightarrow> bool"
  writable :: "nat \<Rightarrow> bool"
  tm_badfaultfunc :: bool          \<comment> \<open>set to copyfail, or NULL\<close>
  current_as :: addr               \<comment> \<open>the result of proc_getas\<close>

definition USERSPACETOP :: nat where
  "USERSPACETOP = 0x80000000"

definition copycheck :: "nat \<Rightarrow> nat \<Rightarrow> errno + nat" where
  "copycheck userptr len =
     (let bot = userptr; top = u32 (bot + len + (2 ^ 32 - 1)) in
      if top < bot then Inl EFAULT
      else if bot \<ge> USERSPACETOP then Inl EFAULT
      else if top \<ge> USERSPACETOP then Inr (USERSPACETOP - bot)
      else Inr len)"

text \<open>\<open>memcpy\<close> on memory that may fault: whether it came to its end, and the memory then.\<close>

definition fault_memcpy :: "nat \<Rightarrow> nat \<Rightarrow> nat \<Rightarrow> umem \<Rightarrow> bool \<times> umem" where
  "fault_memcpy dst src len m =
     (let k = length (takeWhile (\<lambda>i. readable m (src + i) \<and> writable m (dst + i)) [0..<len])
      in (k = len, m\<lparr>bytes := memcpy dst src k (bytes m)\<rparr>))"

definition copyin :: "nat \<Rightarrow> nat \<Rightarrow> nat \<Rightarrow> umem \<Rightarrow> (errno + unit) \<times> umem" where
  "copyin usersrc dest len m =
     (case copycheck usersrc len of
        Inl e \<Rightarrow> (Inl e, m)
      | Inr stoplen \<Rightarrow>
          if stoplen \<noteq> len then (Inl EFAULT, m)
          else
            let m = m\<lparr>tm_badfaultfunc := True\<rparr>;
                (ok, m) = fault_memcpy dest usersrc len m;
                m = m\<lparr>tm_badfaultfunc := False\<rparr>
            in (if ok then Inr () else Inl EFAULT, m))"

definition copyout :: "nat \<Rightarrow> nat \<Rightarrow> nat \<Rightarrow> umem \<Rightarrow> (errno + unit) \<times> umem" where
  "copyout src userdest len m =
     (case copycheck userdest len of
        Inl e \<Rightarrow> (Inl e, m)
      | Inr stoplen \<Rightarrow>
          if stoplen \<noteq> len then (Inl EFAULT, m)
          else
            let m = m\<lparr>tm_badfaultfunc := True\<rparr>;
                (ok, m) = fault_memcpy userdest src len m;
                m = m\<lparr>tm_badfaultfunc := False\<rparr>
            in (if ok then Inr () else Inl EFAULT, m))"

text \<open>The loop of \<open>copystr\<close> from \<open>i\<close>; the result is \<open>None\<close> after a fault.\<close>

function copystr :: "nat \<Rightarrow> nat \<Rightarrow> nat \<Rightarrow> nat \<Rightarrow> nat \<Rightarrow> umem \<Rightarrow> (errno + nat) option \<times> umem" where
  "copystr dest src maxlen stoplen i m =
     (if i < maxlen \<and> i < stoplen then
        if \<not> readable m (src + i) \<or> \<not> writable m (dest + i) then (None, m)
        else
          let m = m\<lparr>bytes := (bytes m)(dest + i := bytes m (src + i))\<rparr>
          in if bytes m (src + i) = 0 then (Some (Inr (i + 1)), m) else copystr dest src maxlen stoplen (i + 1) m
      else if stoplen < maxlen then (Some (Inl EFAULT), m)
      else (Some (Inl ENAMETOOLONG), m))"
  by pat_completeness auto
termination by (relation "measure (\<lambda>(dest, src, maxlen, stoplen, i, m). maxlen - i)") auto

declare copystr.simps [simp del]

definition copyinstr :: "nat \<Rightarrow> nat \<Rightarrow> nat \<Rightarrow> umem \<Rightarrow> (errno + nat) \<times> umem" where
  "copyinstr usersrc dest len m =
     (case copycheck usersrc len of
        Inl e \<Rightarrow> (Inl e, m)
      | Inr stoplen \<Rightarrow>
          let m = m\<lparr>tm_badfaultfunc := True\<rparr>;
              (result, m) = copystr dest usersrc len stoplen 0 m;
              m = m\<lparr>tm_badfaultfunc := False\<rparr>
          in (case result of None \<Rightarrow> Inl EFAULT | Some r \<Rightarrow> r, m))"

definition copyoutstr :: "nat \<Rightarrow> nat \<Rightarrow> nat \<Rightarrow> umem \<Rightarrow> (errno + nat) \<times> umem" where
  "copyoutstr src userdest len m =
     (case copycheck userdest len of
        Inl e \<Rightarrow> (Inl e, m)
      | Inr stoplen \<Rightarrow>
          let m = m\<lparr>tm_badfaultfunc := True\<rparr>;
              (result, m) = copystr userdest src len stoplen 0 m;
              m = m\<lparr>tm_badfaultfunc := False\<rparr>
          in (case result of None \<Rightarrow> Inl EFAULT | Some r \<Rightarrow> r, m))"

text \<open>A kernel object at an address has these bytes.\<close>

definition put_bytes_at :: "nat \<Rightarrow> byte list \<Rightarrow> memory \<Rightarrow> memory" where
  "put_bytes_at a bs m = (\<lambda>x. if a \<le> x \<and> x < a + length bs then bs ! (x - a) else m x)"

section \<open>The user region\<close>

lemma top_eq:
  assumes "p < 4294967296" and "len < 4294967296"
  shows "u32 (p + len + (2 ^ 32 - 1)) =
    (if p + len = 0 then 4294967295 else if p + len \<le> 4294967296 then p + len - 1 else p + len - 1 - 4294967296)"
proof -
  have "(p + len - 1 + 4294967296) mod 4294967296 = (p + len - 1) mod 4294967296" by simp
  then show ?thesis using assms by (auto simp: u32_def mod_if)
qed

text \<open>A block passes the check untruncated exactly when it is not empty and lies in user space.\<close>

lemma copycheck_exact:
  assumes "p < 4294967296" and "len < 4294967296"
  shows "copycheck p len = Inr len \<longleftrightarrow> 0 < len \<and> p + len \<le> USERSPACETOP"
  using assms unfolding copycheck_def top_eq [OF assms] Let_def by (auto simp: USERSPACETOP_def)

lemma copycheck_stop:
  assumes "p < 4294967296" and "len < 4294967296" and "copycheck p len = Inr n"
  shows "p < USERSPACETOP \<and> p + n \<le> USERSPACETOP \<and> (0 < len \<longrightarrow> n = min len (USERSPACETOP - p))"
  using assms(3) assms(1,2) unfolding copycheck_def top_eq [OF assms(1,2)] Let_def
  by (auto simp: USERSPACETOP_def split: if_splits)

lemma copycheck_EFAULT: "copycheck p len = Inl e \<Longrightarrow> e = EFAULT"
  by (auto simp: copycheck_def Let_def split: if_splits)

section \<open>What a transfer does\<close>

definition accessible :: "umem \<Rightarrow> nat \<Rightarrow> nat \<Rightarrow> nat \<Rightarrow> bool" where
  "accessible m dst src len \<longleftrightarrow> (\<forall>i<len. readable m (src + i) \<and> writable m (dst + i))"

lemma takeWhile_all: "length (takeWhile P [0..<n]) = n \<longleftrightarrow> (\<forall>i<n. P i)"
  by (metis (no_types, lifting) atLeastLessThan_iff diff_zero length_upt set_upt takeWhile_eq_all_conv takeWhile_eq_take take_all_iff zero_le order_refl)

lemma fault_memcpy_ok:
  "accessible m dst src len \<Longrightarrow> fault_memcpy dst src len m = (True, m\<lparr>bytes := memcpy dst src len (bytes m)\<rparr>)"
  using takeWhile_all [of "\<lambda>i. readable m (src + i) \<and> writable m (dst + i)" len]
  by (simp add: fault_memcpy_def accessible_def)

lemma fault_memcpy_fails: "\<not> accessible m dst src len \<Longrightarrow> \<not> fst (fault_memcpy dst src len m)"
  using takeWhile_all [of "\<lambda>i. readable m (src + i) \<and> writable m (dst + i)" len]
  by (simp add: fault_memcpy_def accessible_def Let_def)

lemma fault_memcpy_frame:
  assumes "dst \<le> src \<or> src + len \<le> dst" and "a < dst \<or> dst + len \<le> a"
  shows "bytes (snd (fault_memcpy dst src len m)) a = bytes m a"
proof -
  let ?k = "length (takeWhile (\<lambda>i. readable m (src + i) \<and> writable m (dst + i)) [0..<len])"
  have "?k \<le> len" using length_takeWhile_le [of _ "[0..<len]"] by simp
  then show ?thesis using assms memcpy_eq [of dst src ?k "bytes m"] by (auto simp: fault_memcpy_def Let_def copied_def)
qed

lemma copyin_eq:
  assumes "u < 4294967296" and "len < 4294967296"
  shows "copyin u k len m =
    (if 0 < len \<and> u + len \<le> USERSPACETOP then
       (if accessible m k u len then Inr () else Inl EFAULT, (snd (fault_memcpy k u len m))\<lparr>tm_badfaultfunc := False\<rparr>)
     else (Inl EFAULT, m))"
proof -
  have fm: "fault_memcpy k u len (m\<lparr>tm_badfaultfunc := True\<rparr>) = (accessible m k u len, (snd (fault_memcpy k u len m))\<lparr>tm_badfaultfunc := True\<rparr>)"
    using takeWhile_all [of "\<lambda>i. readable m (u + i) \<and> writable m (k + i)" len]
    by (simp add: fault_memcpy_def Let_def accessible_def)
  show ?thesis
  proof (cases "copycheck u len")
    case (Inl e)
    then show ?thesis using copycheck_exact [OF assms] copycheck_EFAULT [OF Inl] by (auto simp: copyin_def)
  next
    case (Inr n)
    then show ?thesis using copycheck_exact [OF assms] fm by (auto simp: copyin_def)
  qed
qed

lemma copyout_eq:
  assumes "u < 4294967296" and "len < 4294967296"
  shows "copyout k u len m =
    (if 0 < len \<and> u + len \<le> USERSPACETOP then
       (if accessible m u k len then Inr () else Inl EFAULT, (snd (fault_memcpy u k len m))\<lparr>tm_badfaultfunc := False\<rparr>)
     else (Inl EFAULT, m))"
proof -
  have fm: "fault_memcpy u k len (m\<lparr>tm_badfaultfunc := True\<rparr>) = (accessible m u k len, (snd (fault_memcpy u k len m))\<lparr>tm_badfaultfunc := True\<rparr>)"
    using takeWhile_all [of "\<lambda>i. readable m (k + i) \<and> writable m (u + i)" len]
    by (simp add: fault_memcpy_def Let_def accessible_def)
  show ?thesis
  proof (cases "copycheck u len")
    case (Inl e)
    then show ?thesis using copycheck_exact [OF assms] copycheck_EFAULT [OF Inl] by (auto simp: copyout_def)
  next
    case (Inr n)
    then show ?thesis using copycheck_exact [OF assms] fm by (auto simp: copyout_def)
  qed
qed

text \<open>The loop over a string, from its beginning or from within.\<close>

lemma copystr_eq:
  assumes "string_at (bytes m) (src + i) xs" and "dest + i + length xs < src + i \<or> src + i + length xs < dest + i"
    and "\<And>j. j \<le> i + length xs \<Longrightarrow> readable m (src + j) \<and> writable m (dest + j)"
  shows "\<exists>m'. copystr dest src maxlen stoplen i m =
      (Some (if i + length xs < min maxlen stoplen then Inr (i + length xs + 1) else if stoplen < maxlen then Inl EFAULT else Inl ENAMETOOLONG), m')
    \<and> (i + length xs < min maxlen stoplen \<longrightarrow> (\<forall>j\<le>length xs. bytes m' (dest + i + j) = bytes m (src + i + j)))
    \<and> (\<forall>a. a < dest + i \<or> dest + i + length xs < a \<or> dest + min maxlen stoplen \<le> a \<longrightarrow> bytes m' a = bytes m a)
    \<and> m' = m\<lparr>bytes := bytes m'\<rparr>"
  using assms
proof (induction xs arbitrary: i m)
  case Nil
  then have "readable m (src + i)" "writable m (dest + i)" "bytes m (src + i) = 0" by auto
  then show ?case using Nil.prems(2) by (subst copystr.simps) (auto simp: Let_def)
next
  case (Cons x xs)
  let ?m = "m\<lparr>bytes := (bytes m)(dest + i := bytes m (src + i))\<rparr>"
  show ?case
  proof (cases "i < maxlen \<and> i < stoplen")
    case False
    then show ?thesis by (subst copystr.simps) auto
  next
    case True
    have ne: "src + i \<noteq> dest + i" using Cons.prems(2) by auto
    have st: "string_at (bytes ?m) (src + (i + 1)) xs" using Cons.prems(1,2) by (auto simp: string_at_def)
    have apart: "dest + (i + 1) + length xs < src + (i + 1) \<or> src + (i + 1) + length xs < dest + (i + 1)" using Cons.prems(2) by auto
    have acc: "readable ?m (src + j) \<and> writable ?m (dest + j)" if "j \<le> i + 1 + length xs" for j using Cons.prems(3) that by simp
    obtain m' where m': "copystr dest src maxlen stoplen (i + 1) ?m =
      (Some (if i + 1 + length xs < min maxlen stoplen then Inr (i + 1 + length xs + 1) else if stoplen < maxlen then Inl EFAULT else Inl ENAMETOOLONG), m')"
      "i + 1 + length xs < min maxlen stoplen \<longrightarrow> (\<forall>j\<le>length xs. bytes m' (dest + (i + 1) + j) = bytes ?m (src + (i + 1) + j))"
      "\<forall>a. a < dest + (i + 1) \<or> dest + (i + 1) + length xs < a \<or> dest + min maxlen stoplen \<le> a \<longrightarrow> bytes m' a = bytes ?m a"
      "m' = ?m\<lparr>bytes := bytes m'\<rparr>"
      using Cons.IH [OF st apart acc] by blast
    have eq: "copystr dest src maxlen stoplen i m = copystr dest src maxlen stoplen (i + 1) ?m"
      using True Cons.prems(1,3) ne by (subst copystr.simps) (auto simp: Let_def)
    have "\<forall>j\<le>length (x # xs). bytes m' (dest + i + j) = bytes m (src + i + j)" if "i + 1 + length xs < min maxlen stoplen"
    proof (intro allI impI)
      fix j assume j: "j \<le> length (x # xs)"
      show "bytes m' (dest + i + j) = bytes m (src + i + j)"
      proof (cases j)
        case 0
        then show ?thesis using m'(3) by simp
      next
        case (Suc j')
        then have "bytes m' (dest + i + j) = bytes ?m (src + i + j)" using m'(2) that j by force
        then show ?thesis using Cons.prems(2) j by auto
      qed
    qed
    moreover have "\<forall>a. a < dest + i \<or> dest + i + length (x # xs) < a \<or> dest + min maxlen stoplen \<le> a \<longrightarrow> bytes m' a = bytes m a"
      using m'(3) True by auto
    moreover have "m' = m\<lparr>bytes := bytes m'\<rparr>" using m'(4) by simp
    ultimately show ?thesis unfolding eq m'(1) by (intro exI [of _ m']) auto
  qed
qed

section \<open>Transfers described by a uio\<close>

datatype uio_rw = UIO_READ | UIO_WRITE
datatype uio_seg = UIO_USERISPACE | UIO_USERSPACE | UIO_SYSSPACE

record uio =
  uio_iov :: "(nat \<times> nat) list"     \<comment> \<open>base and length; as many as uio_iovcnt says\<close>
  uio_offset :: int
  uio_resid :: nat
  uio_segflg :: uio_seg
  uio_rw :: uio_rw
  uio_space :: addr

text \<open>One transfer of \<open>amt\<close> bytes between the kernel at \<open>p\<close> and the first buffer.\<close>

definition uio_chunk :: "nat \<Rightarrow> nat \<Rightarrow> nat \<Rightarrow> uio \<Rightarrow> umem \<Rightarrow> (errno + unit) \<times> umem" where
  "uio_chunk p base amt u m =
     (case uio_segflg u of
        UIO_SYSSPACE \<Rightarrow>
          (Inr (), m\<lparr>bytes := (if uio_rw u = UIO_READ then memmove base p amt (bytes m) else memmove p base amt (bytes m))\<rparr>)
      | _ \<Rightarrow> if uio_rw u = UIO_READ then copyout p base amt m else copyin base p amt m)"

text \<open>The loop of \<open>uiomove\<close>. Running out of buffers is a panic.\<close>

function uiomove_loop :: "nat \<Rightarrow> nat \<Rightarrow> uio \<Rightarrow> umem \<Rightarrow> ((errno + unit) \<times> uio \<times> umem) option" where
  "uiomove_loop p n u m =
     (if n > 0 \<and> uio_resid u > 0 then
        (case uio_iov u of
           [] \<Rightarrow> None
         | (base, len) # iovs \<Rightarrow>
             let amt = (if len > n then n else len) in
             if amt = 0 then (if iovs = [] then None else uiomove_loop p n (u\<lparr>uio_iov := iovs\<rparr>) m)
             else (case uio_chunk p base amt u m of
                 (Inl e, m) \<Rightarrow> Some (Inl e, u, m)
               | (Inr _, m) \<Rightarrow>
                   uiomove_loop (p + amt) (n - amt)
                     (u\<lparr>uio_iov := (base + amt, len - amt) # iovs, uio_resid := u32 (uio_resid u + 2 ^ 32 - amt),
                        uio_offset := s64 (uio_offset u + int amt)\<rparr>) m))
      else Some (Inr (), u, m))"
  by pat_completeness auto
termination
  by (relation "inv_image (less_than <*lex*> less_than) (\<lambda>(p, n, u, m). (n, length (uio_iov u)))") (auto split: if_splits)

declare uiomove_loop.simps [simp del]

definition uiomove :: "nat \<Rightarrow> nat \<Rightarrow> uio \<Rightarrow> umem \<Rightarrow> ((errno + unit) \<times> uio \<times> umem) option" where
  "uiomove p n u m = do {
     kassert (if uio_segflg u = UIO_SYSSPACE then uio_space u = 0 else uio_space u = current_as m);
     uiomove_loop p n u m }"

text \<open>\<open>zeros\<close> is the address of the static block of sixteen zero bytes.\<close>

function uiomovezeros_loop :: "nat \<Rightarrow> nat \<Rightarrow> uio \<Rightarrow> umem \<Rightarrow> ((errno + unit) \<times> uio \<times> umem) option" where
  "uiomovezeros_loop zeros n u m =
     (if n > 0 then
        let amt = (if 16 > n then n else 16) in
        (case uiomove zeros amt u m of
           None \<Rightarrow> None
         | Some (Inl e, u, m) \<Rightarrow> Some (Inl e, u, m)
         | Some (Inr _, u, m) \<Rightarrow> uiomovezeros_loop zeros (n - amt) u m)
      else Some (Inr (), u, m))"
  by pat_completeness auto
termination by (relation "measure (\<lambda>(zeros, n, u, m). n)") auto

declare uiomovezeros_loop.simps [simp del]

definition uiomovezeros :: "nat \<Rightarrow> nat \<Rightarrow> uio \<Rightarrow> umem \<Rightarrow> ((errno + unit) \<times> uio \<times> umem) option" where
  "uiomovezeros zeros n u m = do { kassert (uio_rw u = UIO_READ); uiomovezeros_loop zeros n u m }"

definition uio_kinit :: "nat \<Rightarrow> nat \<Rightarrow> int \<Rightarrow> uio_rw \<Rightarrow> uio" where
  "uio_kinit kbuf len pos rw = \<lparr>uio_iov = [(kbuf, len)], uio_offset = pos, uio_resid = len,
     uio_segflg = UIO_SYSSPACE, uio_rw = rw, uio_space = 0\<rparr>"

text \<open>The addresses a uio stands for, in the order of the transfer; \<open>uio_resid\<close> is their number.\<close>

definition uio_addrs :: "uio \<Rightarrow> nat list" where
  "uio_addrs u = concat (map (\<lambda>(b, l). [b..<b + l]) (uio_iov u))"

definition uio_ok :: "uio \<Rightarrow> umem \<Rightarrow> bool" where
  "uio_ok u m \<longleftrightarrow> uio_resid u = length (uio_addrs u) \<and> length (uio_addrs u) < 4294967296 \<and> uio_iov u \<noteq> []
     \<and> (if uio_segflg u = UIO_SYSSPACE then uio_space u = 0 else uio_space u = current_as m)"

text \<open>Bytes carried over one by one.\<close>

definition carry :: "nat list \<Rightarrow> nat list \<Rightarrow> memory \<Rightarrow> memory" where
  "carry ds ss m = fold (\<lambda>(d, s) m. m(d := m s)) (zip ds ss) m"

lemma carry_append: "length ds = length ss \<Longrightarrow> carry (ds @ ds') (ss @ ss') m = carry ds' ss' (carry ds ss m)"
  by (simp add: carry_def)

lemma carry_frame: "a \<notin> set ds \<Longrightarrow> carry ds ss m a = m a"
proof (induction ds arbitrary: ss m)
  case (Cons d ds)
  then show ?case by (cases ss) (auto simp: carry_def)
qed (simp add: carry_def)

lemma carry_nth:
  assumes "length ds = length ss" and "distinct ds" and "set ds \<inter> set ss = {}" and "i < length ds"
  shows "carry ds ss m (ds ! i) = m (ss ! i)"
  using assms
proof (induction ds ss arbitrary: m i rule: list_induct2)
  case (Cons d ds s ss)
  show ?case
  proof (cases i)
    case 0
    have "carry (d # ds) (s # ss) m = carry ds ss (m(d := m s))" by (simp add: carry_def)
    then show ?thesis using 0 Cons.prems carry_frame [of d ds ss "m(d := m s)"] by simp
  next
    case (Suc j)
    have "carry (d # ds) (s # ss) m = carry ds ss (m(d := m s))" by (simp add: carry_def)
    moreover have "carry ds ss (m(d := m s)) (ds ! j) = (m(d := m s)) (ss ! j)" using Cons Suc by auto
    moreover have "ss ! j \<noteq> d" using Cons.prems Suc nth_mem [of j ss] Cons.hyps by auto
    ultimately show ?thesis using Suc by simp
  qed
qed simp

lemma carry_block:
  assumes "d + n \<le> s \<or> s + n \<le> d"
  shows "carry [d..<d + n] [s..<s + n] m = copied d s n m"
proof
  fix a
  show "carry [d..<d + n] [s..<s + n] m a = copied d s n m a"
  proof (cases "d \<le> a \<and> a < d + n")
    case True
    then show ?thesis using carry_nth [of "[d..<d + n]" "[s..<s + n]" "a - d" m] assms by (auto simp: copied_def)
  next
    case False
    then show ?thesis using carry_frame [of a "[d..<d + n]"] by (auto simp: copied_def)
  qed
qed

lemma u32_sub:
  assumes "a \<le> r" and "r < 4294967296"
  shows "u32 (r + 2 ^ 32 - a) = r - a"
proof -
  have "r + 2 ^ 32 - a = (r - a) + 2 ^ 32" using assms(1) by simp
  then show ?thesis using assms(2) unfolding u32_def by (simp only: mod_add_self2) simp
qed

text \<open>When the first \<open>k\<close> bytes can be carried between the kernel at \<open>p\<close> and the uio.\<close>

definition uio_access :: "nat \<Rightarrow> nat \<Rightarrow> uio \<Rightarrow> umem \<Rightarrow> bool" where
  "uio_access p k u m \<longleftrightarrow> (uio_segflg u \<noteq> UIO_SYSSPACE \<longrightarrow> (\<forall>i<k. uio_addrs u ! i < USERSPACETOP
     \<and> (if uio_rw u = UIO_READ then readable m (p + i) \<and> writable m (uio_addrs u ! i)
        else readable m (uio_addrs u ! i) \<and> writable m (p + i))))"

definition uio_carry :: "uio_rw \<Rightarrow> nat list \<Rightarrow> nat list \<Rightarrow> memory \<Rightarrow> memory" where
  "uio_carry rw us ks m = (if rw = UIO_READ then carry us ks m else carry ks us m)"

lemma uio_carry_append:
  "length us = length ks \<Longrightarrow> uio_carry rw (us @ us') (ks @ ks') m = uio_carry rw us' ks' (uio_carry rw us ks m)"
  by (simp add: uio_carry_def carry_append)

definition same_access :: "umem \<Rightarrow> umem \<Rightarrow> bool" where
  "same_access m m' \<longleftrightarrow> readable m' = readable m \<and> writable m' = writable m \<and> current_as m' = current_as m"

lemma uio_chunk_ok:
  assumes "0 < amt" and "amt < 4294967296" and "b + amt \<le> p \<or> p + amt \<le> b"
    and "uio_segflg u \<noteq> UIO_SYSSPACE \<longrightarrow> b + amt \<le> USERSPACETOP
       \<and> (if uio_rw u = UIO_READ then accessible m b p amt else accessible m p b amt)"
  shows "\<exists>m'. uio_chunk p b amt u m = (Inr (), m') \<and> bytes m' = uio_carry (uio_rw u) [b..<b + amt] [p..<p + amt] (bytes m) \<and> same_access m m'"
proof -
  have d: "carry [b..<b + amt] [p..<p + amt] (bytes m) = copied b p amt (bytes m)"
    "carry [p..<p + amt] [b..<b + amt] (bytes m) = copied p b amt (bytes m)" using assms(3) by (auto intro: carry_block)
  have c: "memcpy b p amt (bytes m) = copied b p amt (bytes m)" "memcpy p b amt (bytes m) = copied p b amt (bytes m)"
    using assms(3) by (auto intro: memcpy_eq)
  show ?thesis
  proof (cases "uio_segflg u = UIO_SYSSPACE")
    case True
    then show ?thesis using d by (auto simp: uio_chunk_def uio_carry_def memmove_eq same_access_def)
  next
    case False
    then have seg: "uio_chunk p b amt u m = (if uio_rw u = UIO_READ then copyout p b amt m else copyin b p amt m)"
      by (cases "uio_segflg u") (auto simp: uio_chunk_def)
    have "b < 4294967296" using False assms(1,4) by (auto simp: USERSPACETOP_def)
    then show ?thesis unfolding seg
      using False assms d c by (auto simp: uio_carry_def copyout_eq copyin_eq fault_memcpy_ok same_access_def)
  qed
qed

lemma uiomove_loop_ok:
  assumes "uio_ok u m" and "k = min n (length (uio_addrs u))" and "uio_access p k u m"
    and "set (uio_addrs u) \<inter> {p..<p + k} = {}" and "- (2 ^ 63) \<le> uio_offset u" and "uio_offset u + int k < 2 ^ 63"
  shows "\<exists>u' m'. uiomove_loop p n u m = Some (Inr (), u', m') \<and> uio_addrs u' = drop k (uio_addrs u)
      \<and> uio_resid u' = uio_resid u - k \<and> uio_offset u' = uio_offset u + int k
      \<and> bytes m' = uio_carry (uio_rw u) (take k (uio_addrs u)) [p..<p + k] (bytes m) \<and> same_access m m'
      \<and> uio_segflg u' = uio_segflg u \<and> uio_rw u' = uio_rw u \<and> uio_space u' = uio_space u"
  using assms
proof (induction "n + length (uio_iov u)" arbitrary: p n u m k rule: less_induct)
  case less
  show ?case
  proof (cases "n > 0 \<and> uio_resid u > 0")
    case False
    then have "k = 0" using less.prems(1,2) by (auto simp: uio_ok_def)
    then show ?thesis using False by (subst uiomove_loop.simps) (auto simp: uio_carry_def carry_def same_access_def)
  next
    case True
    then obtain b l iovs where iov: "uio_iov u = (b, l) # iovs" using less.prems(1) by (cases "uio_iov u") (auto simp: uio_ok_def)
    define A where "A = uio_addrs u"
    define amt where "amt = (if l > n then n else l)"
    have A: "A = [b..<b + l] @ concat (map (\<lambda>(b, l). [b..<b + l]) iovs)" by (simp add: A_def uio_addrs_def iov)
    have resid: "uio_resid u = length A" "length A < 4294967296" using less.prems(1) by (simp_all add: uio_ok_def A_def)
    show ?thesis
    proof (cases "amt = 0")
      case amt0: True
      then have l0: "l = 0" using True by (auto simp: amt_def split: if_splits)
      have ne: "iovs \<noteq> []" using A l0 resid True by auto
      let ?u = "u\<lparr>uio_iov := iovs\<rparr>"
      have A': "uio_addrs ?u = uio_addrs u" using A l0 by (simp add: A_def uio_addrs_def)
      have "uiomove_loop p n u m = uiomove_loop p n ?u m"
        using True ne amt0 by (subst uiomove_loop.simps) (simp add: iov amt_def [symmetric])
      moreover have "uio_ok ?u m" "uio_access p k ?u m"
        using less.prems(1,3) ne A' by (simp_all add: uio_ok_def uio_access_def)
      ultimately show ?thesis using less.hyps [of n ?u m k p] less.prems A' iov by simp
    next
      case False
      have amt: "0 < amt" "amt \<le> n" "amt \<le> l" "amt \<le> length A" using False A by (auto simp: amt_def split: if_splits)
      have k: "amt \<le> k" "k \<le> length A" using amt less.prems(2) by (auto simp: A_def)
      have ta: "take amt A = [b..<b + amt]" using amt A by (simp add: take_upt)
      have nth: "A ! i = b + i" if "i < amt" for i using that amt A by (simp add: nth_append)
      have disj: "set A \<inter> {p..<p + k} = {}" using less.prems(4) by (simp add: A_def)
      have apart: "b + amt \<le> p \<or> p + amt \<le> b"
      proof (rule ccontr)
        assume "\<not> ?thesis"
        then have "max b p \<in> set (take amt A) \<inter> {p..<p + k}" using k amt unfolding ta by auto
        then show False using disj set_take_subset [of amt A] by blast
      qed
      have user: "uio_segflg u \<noteq> UIO_SYSSPACE \<longrightarrow> b + amt \<le> USERSPACETOP
          \<and> (if uio_rw u = UIO_READ then accessible m b p amt else accessible m p b amt)"
      proof
        assume "uio_segflg u \<noteq> UIO_SYSSPACE"
        then have acc: "A ! i < USERSPACETOP \<and> (if uio_rw u = UIO_READ then readable m (p + i) \<and> writable m (A ! i)
            else readable m (A ! i) \<and> writable m (p + i))" if "i < k" for i
          using less.prems(3) that by (simp add: uio_access_def A_def)
        have "b + (amt - 1) < USERSPACETOP" using acc [of "amt - 1"] nth [of "amt - 1"] amt k by simp
        moreover have "if uio_rw u = UIO_READ then readable m (p + i) \<and> writable m (b + i) else readable m (b + i) \<and> writable m (p + i)"
          if "i < amt" for i using acc [of i] nth [OF that] that k by (auto split: if_splits)
        ultimately show "b + amt \<le> USERSPACETOP \<and> (if uio_rw u = UIO_READ then accessible m b p amt else accessible m p b amt)"
          using amt(1) by (cases "uio_rw u = UIO_READ") (simp_all add: accessible_def)
      qed
      obtain m1 where m1: "uio_chunk p b amt u m = (Inr (), m1)"
        "bytes m1 = uio_carry (uio_rw u) [b..<b + amt] [p..<p + amt] (bytes m)" "same_access m m1"
        using uio_chunk_ok [OF amt(1) _ apart user] amt resid by auto
      let ?u = "u\<lparr>uio_iov := (b + amt, l - amt) # iovs, uio_resid := u32 (uio_resid u + 2 ^ 32 - amt), uio_offset := s64 (uio_offset u + int amt)\<rparr>"
      have r: "u32 (uio_resid u + 2 ^ 32 - amt) = length A - amt"
        using u32_sub amt resid by simp
      have off: "s64 (uio_offset u + int amt) = uio_offset u + int amt" using less.prems(5,6) k by (intro s64_id) auto
      have A': "uio_addrs ?u = drop amt A" using amt A by (simp add: uio_addrs_def)
      have step: "uiomove_loop p n u m = uiomove_loop (p + amt) (n - amt) ?u m1"
        using True False m1(1) by (subst uiomove_loop.simps) (simp add: iov amt_def [symmetric])
      have "\<exists>u' m'. uiomove_loop (p + amt) (n - amt) ?u m1 = Some (Inr (), u', m') \<and> uio_addrs u' = drop (k - amt) (uio_addrs ?u)
        \<and> uio_resid u' = uio_resid ?u - (k - amt) \<and> uio_offset u' = uio_offset ?u + int (k - amt)
        \<and> bytes m' = uio_carry (uio_rw ?u) (take (k - amt) (uio_addrs ?u)) [p + amt..<p + amt + (k - amt)] (bytes m1) \<and> same_access m1 m'
        \<and> uio_segflg u' = uio_segflg ?u \<and> uio_rw u' = uio_rw ?u \<and> uio_space u' = uio_space ?u"
      proof (rule less.hyps)
        show "n - amt + length (uio_iov ?u) < n + length (uio_iov u)" using amt iov by simp
        have "length A - amt < 4294967296" using resid by linarith
        then show "uio_ok ?u m1" unfolding uio_ok_def A' using less.prems(1) m1(3) r by (simp add: uio_ok_def same_access_def)
        show "k - amt = min (n - amt) (length (uio_addrs ?u))" using less.prems(2) A' by (simp add: A_def)
        show "uio_access (p + amt) (k - amt) ?u m1"
          using less.prems(3) m1(3) A' k by (auto simp: uio_access_def same_access_def A_def add.assoc)
        show "set (uio_addrs ?u) \<inter> {p + amt..<p + amt + (k - amt)} = {}"
          using disj A' k set_drop_subset [of amt A] by auto
        show "- (2 ^ 63) \<le> uio_offset ?u" "uio_offset ?u + int (k - amt) < 2 ^ 63" using less.prems(5,6) off k by auto
      qed
      moreover have "take k A = [b..<b + amt] @ take (k - amt) (drop amt A)" using k ta by (metis le_add_diff_inverse take_add)
      moreover have "[p..<p + k] = [p..<p + amt] @ [p + amt..<p + amt + (k - amt)]"
        using k by (metis add.assoc le_add_diff_inverse upt_add_eq_append le_add1)
      ultimately show ?thesis
        unfolding step A' using k amt m1(2,3) off r resid less.prems(2)
        by (auto simp: uio_carry_append same_access_def A_def [symmetric])
    qed
  qed
qed

text \<open>Without the access the outcome is EFAULT: a chunk that is carried over could be accessed.\<close>

lemma uio_chunk_EFAULT: "uio_chunk p b amt u m = (Inl e, m') \<Longrightarrow> e = EFAULT"
  by (auto simp: uio_chunk_def copyout_def copyin_def dest: copycheck_EFAULT split: uio_seg.splits if_splits sum.splits prod.splits)

lemma uio_chunk_same: "same_access m (snd (uio_chunk p b amt u m))"
  by (auto simp: same_access_def uio_chunk_def copyout_def copyin_def fault_memcpy_def Let_def split: uio_seg.splits if_splits sum.splits prod.splits)

lemma copycheck_high: "USERSPACETOP \<le> b \<Longrightarrow> copycheck b len = Inl EFAULT"
  by (simp add: copycheck_def Let_def)

lemma uio_chunk_access:
  assumes "uio_chunk p b amt u m = (Inr (), m')" and "uio_segflg u \<noteq> UIO_SYSSPACE" and "amt < 4294967296"
  shows "b + amt \<le> USERSPACETOP \<and> (if uio_rw u = UIO_READ then accessible m b p amt else accessible m p b amt)"
proof -
  have seg: "uio_chunk p b amt u m = (if uio_rw u = UIO_READ then copyout p b amt m else copyin b p amt m)"
    using assms(2) by (cases "uio_segflg u") (auto simp: uio_chunk_def)
  have "b < USERSPACETOP"
    using assms(1) copycheck_high [of b amt] unfolding seg by (rule_tac ccontr) (auto simp: copyout_def copyin_def split: if_splits)
  then have "b < 4294967296" by (simp add: USERSPACETOP_def)
  then show ?thesis using assms(1,3) unfolding seg by (auto simp: copyout_eq copyin_eq split: if_splits)
qed

lemma uiomove_loop_EFAULT:
  assumes "uio_ok u m" and "k = min n (length (uio_addrs u))" and "\<not> uio_access p k u m"
  shows "\<exists>u' m'. uiomove_loop p n u m = Some (Inl EFAULT, u', m')"
  using assms
proof (induction "n + length (uio_iov u)" arbitrary: p n u m k rule: less_induct)
  case less
  have sg: "uio_segflg u \<noteq> UIO_SYSSPACE" and k0: "0 < k" using less.prems(3) by (auto simp: uio_access_def)
  then have go: "n > 0 \<and> uio_resid u > 0" using less.prems(1,2) by (auto simp: uio_ok_def)
  then obtain b l iovs where iov: "uio_iov u = (b, l) # iovs" using less.prems(1) by (cases "uio_iov u") (auto simp: uio_ok_def)
  define A where "A = uio_addrs u"
  define amt where "amt = (if l > n then n else l)"
  have A: "A = [b..<b + l] @ concat (map (\<lambda>(b, l). [b..<b + l]) iovs)" by (simp add: A_def uio_addrs_def iov)
  have resid: "uio_resid u = length A" "length A < 4294967296" using less.prems(1) by (simp_all add: uio_ok_def A_def)
  show ?case
  proof (cases "amt = 0")
    case amt0: True
    then have l0: "l = 0" using go by (auto simp: amt_def split: if_splits)
    have ne: "iovs \<noteq> []" using A l0 resid go by auto
    let ?u = "u\<lparr>uio_iov := iovs\<rparr>"
    have A': "uio_addrs ?u = uio_addrs u" using A l0 by (simp add: A_def uio_addrs_def)
    have "uiomove_loop p n u m = uiomove_loop p n ?u m"
      using go ne amt0 by (subst uiomove_loop.simps) (simp add: iov amt_def [symmetric])
    moreover have "uio_ok ?u m" using less.prems(1) ne A' by (simp add: uio_ok_def)
    moreover have "uio_access p k ?u m = uio_access p k u m" using A' by (simp add: uio_access_def)
    ultimately show ?thesis using less.hyps [of n ?u m k p] less.prems A' iov by simp
  next
    case False
    have amt: "0 < amt" "amt \<le> n" "amt \<le> l" "amt \<le> length A" using False A by (auto simp: amt_def split: if_splits)
    have k: "amt \<le> k" "k \<le> length A" using amt less.prems(2) by (auto simp: A_def)
    have nth: "A ! i = b + i" if "i < amt" for i using that amt A by (simp add: nth_append)
    let ?u = "u\<lparr>uio_iov := (b + amt, l - amt) # iovs, uio_resid := u32 (uio_resid u + 2 ^ 32 - amt), uio_offset := s64 (uio_offset u + int amt)\<rparr>"
    obtain r m1 where c: "uio_chunk p b amt u m = (r, m1)" by fastforce
    have eq: "uiomove_loop p n u m = (case r of Inl e \<Rightarrow> Some (Inl e, u, m1) | Inr _ \<Rightarrow> uiomove_loop (p + amt) (n - amt) ?u m1)"
      using go False c by (subst uiomove_loop.simps) (simp add: iov amt_def [symmetric])
    show ?thesis
    proof (cases r)
      case (Inl e)
      then show ?thesis using eq uio_chunk_EFAULT c by simp
    next
      case (Inr x)
      have m1: "same_access m m1" using uio_chunk_same [of m p b amt u] c by simp
      have ok: "b + amt \<le> USERSPACETOP \<and> (if uio_rw u = UIO_READ then accessible m b p amt else accessible m p b amt)"
        using uio_chunk_access [of p b amt u m m1] c Inr sg amt resid by simp
      have A': "uio_addrs ?u = drop amt A" using amt A by (simp add: uio_addrs_def)
      have "u32 (uio_resid u + 2 ^ 32 - amt) = length A - amt" using u32_sub amt resid by simp
      then have "uio_ok ?u m1"
        using less.prems(1) m1 resid unfolding uio_ok_def A' by (simp add: same_access_def less_imp_diff_less)
      moreover have "\<not> uio_access (p + amt) (k - amt) ?u m1"
      proof
        assume rest: "uio_access (p + amt) (k - amt) ?u m1"
        have "A ! i < USERSPACETOP \<and> (if uio_rw u = UIO_READ then readable m (p + i) \<and> writable m (A ! i)
            else readable m (A ! i) \<and> writable m (p + i))" if "i < k" for i
        proof (cases "i < amt")
          case True
          then show ?thesis using ok nth by (auto simp: accessible_def split: if_splits)
        next
          case False
          then obtain j where j: "i = amt + j" by (metis add_diff_inverse_nat)
          then have jk: "j < k - amt" using that by simp
          have "A ! i = drop amt A ! j" using k j by simp
          moreover have "drop amt A ! j < USERSPACETOP \<and> (if uio_rw u = UIO_READ then readable m1 (p + amt + j) \<and> writable m1 (drop amt A ! j)
              else readable m1 (drop amt A ! j) \<and> writable m1 (p + amt + j))"
            using rest [unfolded uio_access_def A', THEN mp, THEN spec, of j] sg jk by simp
          ultimately show ?thesis using m1 unfolding j by (auto simp: same_access_def add.assoc split: if_splits)
        qed
        then show False using less.prems(3) unfolding uio_access_def A_def by blast
      qed
      moreover have "k - amt = min (n - amt) (length (uio_addrs ?u))" using less.prems(2) A' by (simp add: A_def)
      ultimately have "\<exists>u' m'. uiomove_loop (p + amt) (n - amt) ?u m1 = Some (Inl EFAULT, u', m')"
        using amt iov by (intro less.hyps) auto
      then show ?thesis unfolding eq Inr by simp
    qed
  qed
qed

lemma copyin_spec:
  assumes "u < 4294967296" and "len < 4294967296" and "USERSPACETOP \<le> k"
  shows "fst (copyin u k len m) = (if 0 < len \<and> u + len \<le> USERSPACETOP \<and> accessible m k u len then Inr () else Inl EFAULT)
    \<and> (fst (copyin u k len m) = Inr () \<longrightarrow> (\<forall>i<len. bytes (snd (copyin u k len m)) (k + i) = bytes m (u + i)))
    \<and> (\<forall>a. a < k \<or> k + len \<le> a \<longrightarrow> bytes (snd (copyin u k len m)) a = bytes m a)
    \<and> (\<not> tm_badfaultfunc m \<longrightarrow> \<not> tm_badfaultfunc (snd (copyin u k len m)))"
proof (cases "0 < len \<and> u + len \<le> USERSPACETOP")
  case True
  then have d: "k \<le> u \<or> u + len \<le> k" using assms(3) by auto
  have eq: "copyin u k len m = (if accessible m k u len then Inr () else Inl EFAULT, (snd (fault_memcpy k u len m))\<lparr>tm_badfaultfunc := False\<rparr>)"
    using True copyin_eq [OF assms(1,2)] by simp
  have "\<forall>i<len. bytes (snd (fault_memcpy k u len m)) (k + i) = bytes m (u + i)" if "accessible m k u len"
    using fault_memcpy_ok [OF that] memcpy_eq [OF d] by (simp add: copied_def)
  moreover have "\<forall>a. a < k \<or> k + len \<le> a \<longrightarrow> bytes (snd (fault_memcpy k u len m)) a = bytes m a"
    using fault_memcpy_frame [OF d] by blast
  ultimately show ?thesis unfolding eq using True by simp
qed (auto simp: copyin_eq [OF assms(1,2)])

lemma copyout_spec:
  assumes "u < 4294967296" and "len < 4294967296" and "USERSPACETOP \<le> k"
  shows "fst (copyout k u len m) = (if 0 < len \<and> u + len \<le> USERSPACETOP \<and> accessible m u k len then Inr () else Inl EFAULT)
    \<and> (fst (copyout k u len m) = Inr () \<longrightarrow> (\<forall>i<len. bytes (snd (copyout k u len m)) (u + i) = bytes m (k + i)))
    \<and> (\<forall>a. a < u \<or> u + len \<le> a \<or> USERSPACETOP \<le> a \<longrightarrow> bytes (snd (copyout k u len m)) a = bytes m a)
    \<and> (\<not> tm_badfaultfunc m \<longrightarrow> \<not> tm_badfaultfunc (snd (copyout k u len m)))"
proof (cases "0 < len \<and> u + len \<le> USERSPACETOP")
  case True
  then have d: "u \<le> k \<or> k + len \<le> u" using assms(3) by auto
  have eq: "copyout k u len m = (if accessible m u k len then Inr () else Inl EFAULT, (snd (fault_memcpy u k len m))\<lparr>tm_badfaultfunc := False\<rparr>)"
    using True copyout_eq [OF assms(1,2)] by simp
  have "\<forall>i<len. bytes (snd (fault_memcpy u k len m)) (u + i) = bytes m (k + i)" if "accessible m u k len"
    using fault_memcpy_ok [OF that] memcpy_eq [OF d] by (simp add: copied_def)
  moreover have "\<forall>a. a < u \<or> u + len \<le> a \<longrightarrow> bytes (snd (fault_memcpy u k len m)) a = bytes m a"
    using fault_memcpy_frame [OF d] by blast
  ultimately show ?thesis unfolding eq using True by simp
qed (auto simp: copyout_eq [OF assms(1,2)])

section \<open>Transfers of a part of a uio\<close>

text \<open>What a transfer of at most \<open>uio_resid\<close> bytes does, does not depend on \<open>uio_resid\<close>.\<close>

lemma uiomove_loop_resid:
  assumes "n \<le> uio_resid u" and "uio_resid u < 4294967296" and "n \<le> R" and "R < 4294967296"
  shows "case uiomove_loop p n u m of None \<Rightarrow> uiomove_loop p n (u\<lparr>uio_resid := R\<rparr>) m = None
    | Some (r, u', m') \<Rightarrow> uio_resid u' \<le> uio_resid u
       \<and> uiomove_loop p n (u\<lparr>uio_resid := R\<rparr>) m = Some (r, u'\<lparr>uio_resid := R - (uio_resid u - uio_resid u')\<rparr>, m')"
  using assms
proof (induction p n u m arbitrary: R rule: uiomove_loop.induct)
  case (1 p n u m)
  have sw: "u\<lparr>uio_resid := R, uio_iov := v\<rparr> = u\<lparr>uio_iov := v, uio_resid := R\<rparr>" for v by simp
  show ?case
  proof (cases "n > 0")
    case False
    then show ?thesis by (simp add: uiomove_loop.simps)
  next
    case True
    then have go: "n > 0 \<and> uio_resid u > 0" "n > 0 \<and> R > 0" using 1 by auto
    show ?thesis
    proof (cases "uio_iov u")
      case Nil
      then show ?thesis using go by (simp add: uiomove_loop.simps)
    next
      case (Cons x iovs)
      obtain b l where x: "x = (b, l)" by (cases x)
      define amt where "amt = (if l > n then n else l)"
      show ?thesis
      proof (cases "amt = 0")
        case True
        show ?thesis
        proof (cases "iovs = []")
          case True
          then show ?thesis using go \<open>amt = 0\<close> Cons x by (simp add: uiomove_loop.simps amt_def [symmetric])
        next
          case False
          have "uiomove_loop p n u m = uiomove_loop p n (u\<lparr>uio_iov := iovs\<rparr>) m"
            "uiomove_loop p n (u\<lparr>uio_resid := R\<rparr>) m = uiomove_loop p n (u\<lparr>uio_iov := iovs, uio_resid := R\<rparr>) m"
            using go \<open>amt = 0\<close> Cons x False uiomove_loop.simps [of p n u m] uiomove_loop.simps [of p n "u\<lparr>uio_resid := R\<rparr>" m]
            by (simp_all add: amt_def [symmetric] sw)
          then show ?thesis using "1.IH"(1) [OF go(1) Cons x [symmetric] amt_def True False, of R] 1(3-) by (auto split: option.splits)
        qed
      next
        case False
        have a: "amt \<le> n" by (simp add: amt_def)
        obtain c m1 where c: "uio_chunk p b amt u m = (c, m1)" by fastforce
        have c': "uio_chunk p b amt (u\<lparr>uio_resid := R\<rparr>) m = (c, m1)" unfolding c [symmetric] by (cases "uio_segflg u") (simp_all add: uio_chunk_def)
        have w: "u32 (uio_resid u + 2 ^ 32 - amt) = uio_resid u - amt" "u32 (R + 2 ^ 32 - amt) = R - amt"
          using a 1(3-) u32_sub [of amt "uio_resid u"] u32_sub [of amt R] by simp_all
        let ?u = "u\<lparr>uio_iov := (b + amt, l - amt) # iovs, uio_resid := u32 (uio_resid u + 2 ^ 32 - amt), uio_offset := s64 (uio_offset u + int amt)\<rparr>"
        have so: "u\<lparr>uio_iov := v, uio_resid := r, uio_offset := w\<rparr> = u\<lparr>uio_iov := v, uio_offset := w, uio_resid := r\<rparr>" for v r w by simp
        show ?thesis
        proof (cases c)
          case (Inl e)
          then show ?thesis using go \<open>amt \<noteq> 0\<close> Cons x c c'
              uiomove_loop.simps [of p n u m] uiomove_loop.simps [of p n "u\<lparr>uio_resid := R\<rparr>" m]
            by (simp add: amt_def [symmetric])
        next
          case (Inr y)
          have s1: "uiomove_loop p n u m = uiomove_loop (p + amt) (n - amt) ?u m1"
            using go \<open>amt \<noteq> 0\<close> Cons x c Inr by (subst uiomove_loop.simps) (simp add: amt_def [symmetric])
          have s2: "uiomove_loop p n (u\<lparr>uio_resid := R\<rparr>) m = uiomove_loop (p + amt) (n - amt) (?u\<lparr>uio_resid := R - amt\<rparr>) m1"
            using go \<open>amt \<noteq> 0\<close> Cons x c' Inr w(2) by (subst uiomove_loop.simps) (simp add: amt_def [symmetric] so)
          have "case uiomove_loop (p + amt) (n - amt) ?u m1 of None \<Rightarrow> uiomove_loop (p + amt) (n - amt) (?u\<lparr>uio_resid := R - amt\<rparr>) m1 = None
            | Some (r, u', m') \<Rightarrow> uio_resid u' \<le> uio_resid ?u
              \<and> uiomove_loop (p + amt) (n - amt) (?u\<lparr>uio_resid := R - amt\<rparr>) m1 = Some (r, u'\<lparr>uio_resid := R - amt - (uio_resid ?u - uio_resid u')\<rparr>, m')"
            using "1.IH"(2) [OF go(1) Cons x [symmetric] amt_def False c [symmetric] Inr, of "R - amt"] 1(3-) w a by simp
          then show ?thesis unfolding s1 s2 using w(1) a 1(3-) by (auto split: option.splits)
        qed
      qed
    qed
  qed
qed

definition uio_part :: "uio \<Rightarrow> umem \<Rightarrow> bool" where
  "uio_part u m \<longleftrightarrow> uio_resid u \<le> length (uio_addrs u) \<and> length (uio_addrs u) < 4294967296
     \<and> (if uio_segflg u = UIO_SYSSPACE then uio_space u = 0 else uio_space u = current_as m)"

lemma uiomove_part:
  assumes "uio_part u m" and "n \<le> uio_resid u" and "uio_access p n u m"
    and "set (uio_addrs u) \<inter> {p..<p + n} = {}" and "- (2 ^ 63) \<le> uio_offset u" and "uio_offset u + int n < 2 ^ 63"
  shows "\<exists>u' m'. uiomove p n u m = Some (Inr (), u', m') \<and> uio_addrs u' = drop n (uio_addrs u)
      \<and> uio_resid u' = uio_resid u - n \<and> uio_offset u' = uio_offset u + int n
      \<and> bytes m' = uio_carry (uio_rw u) (take n (uio_addrs u)) [p..<p + n] (bytes m) \<and> same_access m m'
      \<and> uio_segflg u' = uio_segflg u \<and> uio_rw u' = uio_rw u \<and> uio_space u' = uio_space u"
proof (cases "n = 0")
  case True
  then show ?thesis using assms(1) by (simp add: uiomove_def uio_part_def uiomove_loop.simps uio_carry_def carry_def same_access_def)
next
  case False
  let ?L = "length (uio_addrs u)"
  let ?v = "u\<lparr>uio_resid := ?L\<rparr>"
  have A: "uio_addrs ?v = uio_addrs u" by (simp add: uio_addrs_def)
  have "uio_iov u \<noteq> []" using False assms(1,2) by (auto simp: uio_part_def uio_addrs_def)
  then have v: "uio_ok ?v m" "n = min n (length (uio_addrs ?v))" "uio_access p n ?v m"
    using assms(1-3) A by (simp_all add: uio_ok_def uio_part_def uio_access_def)
  have L: "n \<le> ?L" "?L < 4294967296" "uio_resid u \<le> ?L" using assms(1,2) by (simp_all add: uio_part_def)
  obtain u1 m1 where u1: "uiomove_loop p n ?v m = Some (Inr (), u1, m1)" "uio_addrs u1 = drop n (uio_addrs u)" "uio_resid u1 = ?L - n"
    "uio_offset u1 = uio_offset u + int n" "bytes m1 = uio_carry (uio_rw u) (take n (uio_addrs u)) [p..<p + n] (bytes m)" "same_access m m1"
    "uio_segflg u1 = uio_segflg u" "uio_rw u1 = uio_rw u" "uio_space u1 = uio_space u"
    using uiomove_loop_ok [OF v] assms(4-6) A by auto
  have "uiomove_loop p n u m = Some (Inr (), u1\<lparr>uio_resid := uio_resid u - n\<rparr>, m1)"
    using uiomove_loop_resid [of n ?v "uio_resid u" p m] u1(1,3) L assms(2) by simp
  then have "uiomove p n u m = Some (Inr (), u1\<lparr>uio_resid := uio_resid u - n\<rparr>, m1)" using assms(1) by (simp add: uiomove_def uio_part_def)
  moreover have "uio_addrs (u1\<lparr>uio_resid := uio_resid u - n\<rparr>) = uio_addrs u1" by (simp add: uio_addrs_def)
  ultimately show ?thesis using u1 by simp
qed

lemma map_carry:
  assumes "length ds = length ss" and "distinct ds" and "set ds \<inter> set ss = {}"
  shows "map (carry ds ss m) ds = map m ss"
  using assms by (intro nth_equalityI) (simp_all add: carry_nth)

text \<open>The same with the bytes as lists.\<close>

lemma uiomove_bytes:
  assumes "uio_part u m" and "n \<le> uio_resid u" and "uio_access p n u m" and "distinct (uio_addrs u)"
    and "set (uio_addrs u) \<inter> {p..<p + n} = {}" and "- (2 ^ 63) \<le> uio_offset u" and "uio_offset u + int n < 2 ^ 63"
  obtains u' m' where "uiomove p n u m = Some (Inr (), u', m')" "uio_part u' m'" "uio_addrs u' = drop n (uio_addrs u)"
    "uio_resid u' = uio_resid u - n" "uio_offset u' = uio_offset u + int n" "uio_segflg u' = uio_segflg u" "uio_rw u' = uio_rw u"
    "uio_space u' = uio_space u" "same_access m m'"
    "uio_rw u = UIO_READ \<Longrightarrow> map (bytes m') (take n (uio_addrs u)) = map (bytes m) [p..<p + n]"
    "\<And>a. uio_rw u = UIO_READ \<Longrightarrow> a \<notin> set (take n (uio_addrs u)) \<Longrightarrow> bytes m' a = bytes m a"
    "uio_rw u = UIO_WRITE \<Longrightarrow> map (bytes m') [p..<p + n] = map (bytes m) (take n (uio_addrs u))"
    "\<And>a. uio_rw u = UIO_WRITE \<Longrightarrow> a \<notin> {p..<p + n} \<Longrightarrow> bytes m' a = bytes m a"
proof -
  let ?A = "uio_addrs u"
  have len: "n \<le> length ?A" "length ?A < 4294967296" "uio_resid u \<le> length ?A" using assms(1,2) by (simp_all add: uio_part_def)
  obtain u' m' where u': "uiomove p n u m = Some (Inr (), u', m')" "uio_addrs u' = drop n ?A"
      "uio_resid u' = uio_resid u - n" "uio_offset u' = uio_offset u + int n"
      "bytes m' = uio_carry (uio_rw u) (take n ?A) [p..<p + n] (bytes m)" "same_access m m'"
      "uio_segflg u' = uio_segflg u" "uio_rw u' = uio_rw u" "uio_space u' = uio_space u"
    using uiomove_part [OF assms(1-3,5-7)] by blast
  have d: "set (take n ?A) \<inter> set [p..<p + n] = {}" using assms(5) set_take_subset [of n ?A] by auto
  have "uio_part u' m'" using u'(2,3,6-9) len assms(1) by (auto simp: uio_part_def same_access_def)
  then show thesis
    using that [OF u'(1)] u' d len assms(4) map_carry [of "take n ?A" "[p..<p + n]" "bytes m"] map_carry [of "[p..<p + n]" "take n ?A" "bytes m"]
      carry_frame [of _ "take n ?A"] carry_frame [of _ "[p..<p + n]"]
    by (auto simp: uio_carry_def)
qed

text \<open>Filling with zeros.\<close>

lemma uiomovezeros_loop_ok:
  assumes "uio_part u m" and "uio_rw u = UIO_READ" and "n \<le> uio_resid u" and "distinct (uio_addrs u)"
    and "set (uio_addrs u) \<inter> {z..<z + 16} = {}" and "- (2 ^ 63) \<le> uio_offset u" and "uio_offset u + int n < 2 ^ 63"
    and "\<forall>i<16. bytes m (z + i) = 0 \<and> readable m (z + i)"
    and "uio_segflg u \<noteq> UIO_SYSSPACE \<longrightarrow> (\<forall>i<n. uio_addrs u ! i < USERSPACETOP \<and> writable m (uio_addrs u ! i))"
  shows "\<exists>u' m'. uiomovezeros_loop z n u m = Some (Inr (), u', m') \<and> uio_part u' m' \<and> uio_addrs u' = drop n (uio_addrs u)
    \<and> uio_resid u' = uio_resid u - n \<and> uio_offset u' = uio_offset u + int n \<and> uio_segflg u' = uio_segflg u \<and> uio_rw u' = uio_rw u
    \<and> uio_space u' = uio_space u \<and> same_access m m' \<and> (\<forall>a. bytes m' a = (if a \<in> set (take n (uio_addrs u)) then 0 else bytes m a))"
  using assms
proof (induction n arbitrary: u m rule: less_induct)
  case (less n)
  let ?A = "uio_addrs u"
  show ?case
  proof (cases "n = 0")
    case True
    then show ?thesis using less.prems(1) by (subst uiomovezeros_loop.simps) (simp add: same_access_def)
  next
    case False
    define k where "k = (if 16 > n then n else 16)"
    have k: "0 < k" "k \<le> n" "k \<le> 16" using False by (simp_all add: k_def)
    have L: "n \<le> length ?A" using less.prems(1,3) by (simp add: uio_part_def)
    have acc: "uio_access z k u m" using less.prems(2,8,9) k by (auto simp: uio_access_def)
    have apart: "set ?A \<inter> {z..<z + k} = {}" using less.prems(5) k by auto
    obtain u1 m1 where u1: "uiomove z k u m = Some (Inr (), u1, m1)" "uio_part u1 m1" "uio_addrs u1 = drop k ?A"
      "uio_resid u1 = uio_resid u - k" "uio_offset u1 = uio_offset u + int k" "uio_segflg u1 = uio_segflg u" "uio_rw u1 = uio_rw u"
      "uio_space u1 = uio_space u" "same_access m m1" "map (bytes m1) (take k ?A) = map (bytes m) [z..<z + k]"
      "\<And>a. a \<notin> set (take k ?A) \<Longrightarrow> bytes m1 a = bytes m a"
      using less.prems(2,3,6,7) k by (rule_tac uiomove_bytes [OF less.prems(1) _ acc less.prems(4) apart]) auto
    have b1: "bytes m1 a = (if a \<in> set (take k ?A) then 0 else bytes m a)" for a
    proof (cases "a \<in> set (take k ?A)")
      case True
      then have "bytes m1 a \<in> set (map (bytes m) [z..<z + k])" unfolding u1(10) [symmetric] by simp
      then have "bytes m1 a = 0" using less.prems(8) k by (auto simp: le_iff_add)
      then show ?thesis using True by simp
    qed (simp add: u1(11))
    have d1: "set (take k ?A) \<inter> {z..<z + 16} = {}" using less.prems(5) set_take_subset [of k ?A] by blast
    have "\<exists>u' m'. uiomovezeros_loop z (n - k) u1 m1 = Some (Inr (), u', m') \<and> uio_part u' m' \<and> uio_addrs u' = drop (n - k) (uio_addrs u1)
      \<and> uio_resid u' = uio_resid u1 - (n - k) \<and> uio_offset u' = uio_offset u1 + int (n - k) \<and> uio_segflg u' = uio_segflg u1 \<and> uio_rw u' = uio_rw u1
      \<and> uio_space u' = uio_space u1 \<and> same_access m1 m' \<and> (\<forall>a. bytes m' a = (if a \<in> set (take (n - k) (uio_addrs u1)) then 0 else bytes m1 a))"
    proof (rule less.IH)
      show "set (uio_addrs u1) \<inter> {z..<z + 16} = {}" using less.prems(5) set_drop_subset [of k ?A] u1(3) by auto
      show "\<forall>i<16. bytes m1 (z + i) = 0 \<and> readable m1 (z + i)"
        using less.prems(8) d1 u1(9) b1 by (auto simp: same_access_def)
      show "uio_segflg u1 \<noteq> UIO_SYSSPACE \<longrightarrow> (\<forall>i<n - k. uio_addrs u1 ! i < USERSPACETOP \<and> writable m1 (uio_addrs u1 ! i))"
        using less.prems(9) u1(3,6,9) k L by (auto simp: same_access_def)
    qed (use u1 less.prems k in auto)
    then obtain u' m' where r: "uiomovezeros_loop z (n - k) u1 m1 = Some (Inr (), u', m')" "uio_part u' m'" "uio_addrs u' = drop (n - k) (drop k ?A)"
      "uio_resid u' = uio_resid u - k - (n - k)" "uio_offset u' = uio_offset u + int k + int (n - k)" "uio_segflg u' = uio_segflg u" "uio_rw u' = uio_rw u"
      "uio_space u' = uio_space u" "same_access m1 m'" "\<forall>a. bytes m' a = (if a \<in> set (take (n - k) (drop k ?A)) then 0 else bytes m1 a)"
      using u1 by auto
    have "take n ?A = take k ?A @ take (n - k) (drop k ?A)" using k by (metis le_add_diff_inverse take_add)
    then have "\<forall>a. bytes m' a = (if a \<in> set (take n ?A) then 0 else bytes m a)" using r(10) b1 by auto
    moreover have "uiomovezeros_loop z n u m = Some (Inr (), u', m')"
      using False u1(1) r(1) by (subst uiomovezeros_loop.simps) (simp add: k_def)
    ultimately show ?thesis using r k u1(9) by (auto simp: same_access_def)
  qed
qed

section \<open>Properties\<close>

text \<open>
  C28: the kernel is protected in both directions.  With a kernel buffer at \<open>k\<close>, \<open>copyin\<close> and
  \<open>copyout\<close> succeed exactly when the user block is not empty, lies below \<open>USERSPACETOP\<close> and can be
  accessed, and then carry it over; in every other case they return EFAULT.  \<open>copyin\<close> changes nothing
  outside the buffer, \<open>copyout\<close> changes nothing in kernel space, and the fault handler is off
  afterwards.  An empty block gives EFAULT, whatever the address.
\<close>

theorem copy_protects_kernel:
  assumes "u < 4294967296" and "len < 4294967296" and "USERSPACETOP \<le> k" and "\<not> tm_badfaultfunc m"
  shows "(let (r, m') = copyin u k len m in
        r = (if 0 < len \<and> u + len \<le> USERSPACETOP \<and> accessible m k u len then Inr () else Inl EFAULT)
        \<and> (r = Inr () \<longrightarrow> (\<forall>i<len. bytes m' (k + i) = bytes m (u + i)))
        \<and> (\<forall>a. a < k \<or> k + len \<le> a \<longrightarrow> bytes m' a = bytes m a) \<and> \<not> tm_badfaultfunc m')
    \<and> (let (r, m') = copyout k u len m in
        r = (if 0 < len \<and> u + len \<le> USERSPACETOP \<and> accessible m u k len then Inr () else Inl EFAULT)
        \<and> (r = Inr () \<longrightarrow> (\<forall>i<len. bytes m' (u + i) = bytes m (k + i)))
        \<and> (\<forall>a. a < u \<or> u + len \<le> a \<or> USERSPACETOP \<le> a \<longrightarrow> bytes m' a = bytes m a) \<and> \<not> tm_badfaultfunc m')"
  unfolding Let_def case_prod_beta
  using copyin_spec [OF assms(1-3), of m] copyout_spec [OF assms(1-3), of m] assms(4) by (intro conjI) blast+

text \<open>Thread 1 has sixteen bytes of user memory at 4096.\<close>

definition one_page :: umem where
  "one_page = \<lparr>bytes = example_mem [(4096, [5, 6, 7, 8])], readable = (\<lambda>a. 4096 \<le> a \<and> a < 4112 \<or> USERSPACETOP \<le> a),
     writable = (\<lambda>a. 4096 \<le> a \<and> a < 4112 \<or> USERSPACETOP \<le> a), tm_badfaultfunc = False, current_as = 1\<rparr>"

lemma copy_protects_kernel_witness:
  "fst (copyin 4096 USERSPACETOP 4 one_page) = Inr () \<and> fst (copyin 4096 USERSPACETOP 0 one_page) = Inl EFAULT
    \<and> fst (copyout USERSPACETOP 4110 4 one_page) = Inl EFAULT"
proof -
  have "accessible one_page USERSPACETOP 4096 4"
    by (auto simp: accessible_def one_page_def USERSPACETOP_def)
  moreover have "\<not> accessible one_page 4110 USERSPACETOP 4"
    unfolding accessible_def by (rule notI, drule spec [of _ 3]) (simp add: one_page_def USERSPACETOP_def)
  ultimately show ?thesis
    using copy_protects_kernel [of 4096 4 USERSPACETOP one_page] copy_protects_kernel [of 4096 0 USERSPACETOP one_page]
      copy_protects_kernel [of 4110 4 USERSPACETOP one_page]
    by (auto simp: one_page_def USERSPACETOP_def Let_def case_prod_beta)
qed

text \<open>
  C30: a transfer through a uio.  If \<open>uio_resid\<close> is the number of bytes the buffers hold, the buffers
  do not overlap the kernel block and can be accessed, \<open>uiomove\<close> carries over as many bytes as asked
  for and as fit, in order, across any division into buffers; it advances the offset by that number
  and lowers \<open>uio_resid\<close> by it, so that a further call goes on where this one stopped.  If one of
  those bytes cannot be accessed, or is not in user space where it must be, the result is EFAULT.
\<close>

theorem uiomove_transfers:
  assumes "uio_ok u m" and "k = min n (uio_resid u)" and "set (uio_addrs u) \<inter> {p..<p + k} = {}"
    and "- (2 ^ 63) \<le> uio_offset u" and "uio_offset u + int k < 2 ^ 63"
  shows "(uio_access p k u m \<longrightarrow>
      (\<exists>u' m'. uiomove p n u m = Some (Inr (), u', m') \<and> uio_addrs u' = drop k (uio_addrs u)
        \<and> uio_resid u' = uio_resid u - k \<and> uio_offset u' = uio_offset u + int k
        \<and> (distinct (uio_addrs u) \<longrightarrow> (\<forall>i<k. if uio_rw u = UIO_READ then bytes m' (uio_addrs u ! i) = bytes m (p + i)
             else bytes m' (p + i) = bytes m (uio_addrs u ! i)))
        \<and> (\<forall>a. a \<notin> set (take k (uio_addrs u)) \<and> a \<notin> {p..<p + k} \<longrightarrow> bytes m' a = bytes m a)))
    \<and> (\<not> uio_access p k u m \<longrightarrow> (\<exists>u' m'. uiomove p n u m = Some (Inl EFAULT, u', m')))"
proof (intro conjI impI)
  let ?A = "uio_addrs u"
  have go: "uiomove p n u m = uiomove_loop p n u m" and k: "k = min n (length ?A)"
    using assms(1,2) by (simp_all add: uiomove_def uio_ok_def)
  show "\<exists>u' m'. uiomove p n u m = Some (Inl EFAULT, u', m')" if "\<not> uio_access p k u m"
    unfolding go using assms(1) k that by (rule uiomove_loop_EFAULT)
  assume acc: "uio_access p k u m"
  obtain u' m' where u': "uiomove_loop p n u m = Some (Inr (), u', m')" "uio_addrs u' = drop k ?A"
      "uio_resid u' = uio_resid u - k" "uio_offset u' = uio_offset u + int k"
      "bytes m' = uio_carry (uio_rw u) (take k ?A) [p..<p + k] (bytes m)"
    using uiomove_loop_ok [OF assms(1) k acc assms(3-5)] by blast
  have apart: "set (take k ?A) \<inter> set [p..<p + k] = {}" using assms(3) set_take_subset [of k ?A] by auto
  have len: "length (take k ?A) = k" using k by simp
  have "if uio_rw u = UIO_READ then bytes m' (?A ! i) = bytes m (p + i) else bytes m' (p + i) = bytes m (?A ! i)"
    if "distinct ?A" "i < k" for i
    using that apart len u'(5) carry_nth [of "take k ?A" "[p..<p + k]" i "bytes m"] carry_nth [of "[p..<p + k]" "take k ?A" i "bytes m"]
    by (auto simp: uio_carry_def)
  moreover have "bytes m' a = bytes m a" if "a \<notin> set (take k ?A)" "a \<notin> {p..<p + k}" for a
    using that u'(5) carry_frame [of a "take k ?A"] carry_frame [of a "[p..<p + k]"] by (simp add: uio_carry_def)
  ultimately show "\<exists>u' m'. uiomove p n u m = Some (Inr (), u', m') \<and> uio_addrs u' = drop k ?A
        \<and> uio_resid u' = uio_resid u - k \<and> uio_offset u' = uio_offset u + int k
        \<and> (distinct ?A \<longrightarrow> (\<forall>i<k. if uio_rw u = UIO_READ then bytes m' (?A ! i) = bytes m (p + i)
             else bytes m' (p + i) = bytes m (?A ! i)))
        \<and> (\<forall>a. a \<notin> set (take k ?A) \<and> a \<notin> {p..<p + k} \<longrightarrow> bytes m' a = bytes m a)"
    unfolding go using u'(1-4) by blast
qed

definition two_buffers :: uio where
  "two_buffers = \<lparr>uio_iov = [(4096, 2), (4100, 0), (4104, 3)], uio_offset = 7, uio_resid = 5, uio_segflg = UIO_USERSPACE,
     uio_rw = UIO_WRITE, uio_space = 1\<rparr>"

lemma uiomove_transfers_witness:
  "\<exists>u' m'. uiomove USERSPACETOP 3 two_buffers one_page = Some (Inr (), u', m') \<and> uio_resid u' = 2 \<and> uio_offset u' = 10
    \<and> bytes m' USERSPACETOP = 5 \<and> bytes m' (USERSPACETOP + 1) = 6 \<and> uio_addrs u' = [4105, 4106]"
proof -
  have A: "uio_addrs two_buffers = [4096, 4097, 4104, 4105, 4106]" by (simp add: uio_addrs_def two_buffers_def upt_rec)
  have "uio_ok two_buffers one_page" using A by (simp add: uio_ok_def two_buffers_def one_page_def)
  moreover have "uio_access USERSPACETOP 3 two_buffers one_page"
    using A by (auto simp: uio_access_def two_buffers_def one_page_def USERSPACETOP_def less_Suc_eq numeral_3_eq_3)
  ultimately obtain u' m' where r: "uiomove USERSPACETOP 3 two_buffers one_page = Some (Inr (), u', m')"
      "uio_addrs u' = drop 3 (uio_addrs two_buffers)" "uio_resid u' = uio_resid two_buffers - 3"
      "uio_offset u' = uio_offset two_buffers + int 3"
      "\<forall>i<3. bytes m' (USERSPACETOP + i) = bytes one_page (uio_addrs two_buffers ! i)"
    using uiomove_transfers [of two_buffers one_page 3 3 USERSPACETOP] A by (auto simp: two_buffers_def USERSPACETOP_def)
  have "bytes m' USERSPACETOP = bytes one_page 4096" "bytes m' (USERSPACETOP + 1) = bytes one_page 4097"
    using r(5) [rule_format, of 0] r(5) [rule_format, of 1] A by simp_all
  then show ?thesis using r(1-4) A by (simp add: two_buffers_def one_page_def)
qed

text \<open>
  C29: reading a string from user space.  For a terminated string at \<open>u\<close> and a kernel buffer of \<open>len\<close>
  bytes behind it, \<open>copyinstr\<close> returns the length with the terminator and leaves the string in the
  buffer if it fits and lies in user space; it returns EFAULT if the string begins outside user space
  or runs into the kernel before the buffer is full, and ENAMETOOLONG otherwise.  It writes to no
  other byte.
\<close>

theorem copyinstr_outcomes:
  assumes "string_at (bytes m) u xs" and "u < 4294967296" and "0 < len" and "len \<le> USERSPACETOP" and "USERSPACETOP \<le> d" and "u + length xs < d"
    and "\<And>j. j \<le> length xs \<Longrightarrow> readable m (u + j) \<and> writable m (d + j)"
  shows "\<exists>m'. copyinstr u d len m =
      (if u < USERSPACETOP \<and> length xs < min len (USERSPACETOP - u) then Inr (length xs + 1)
       else if USERSPACETOP \<le> u \<or> USERSPACETOP - u < len then Inl EFAULT else Inl ENAMETOOLONG, m')
    \<and> (u < USERSPACETOP \<and> length xs < min len (USERSPACETOP - u) \<longrightarrow> string_at (bytes m') d xs)
    \<and> (\<forall>a. a < d \<or> d + len \<le> a \<longrightarrow> bytes m' a = bytes m a)"
proof (cases "USERSPACETOP \<le> u")
  case True
  then have "copycheck u len = Inl EFAULT" by (simp add: copycheck_def Let_def)
  then show ?thesis using True by (auto simp: copyinstr_def)
next
  case False
  have len: "len < 4294967296" using assms(4) by (simp add: USERSPACETOP_def)
  have nw: "u + len \<le> 4294967296" using False assms(4) by (simp add: USERSPACETOP_def)
  have "\<exists>n. copycheck u len = Inr n"
    unfolding copycheck_def top_eq [OF assms(2) len] Let_def using False assms(3) nw by auto
  then obtain n where n: "copycheck u len = Inr n" by blast
  have n': "n = min len (USERSPACETOP - u)" using copycheck_stop [OF assms(2) len n] assms(3) by simp
  let ?m = "m\<lparr>tm_badfaultfunc := True\<rparr>"
  have st: "string_at (bytes ?m) (u + 0) xs" and apart: "d + 0 + length xs < u + 0 \<or> u + 0 + length xs < d + 0"
    and acc: "\<And>j. j \<le> 0 + length xs \<Longrightarrow> readable ?m (u + j) \<and> writable ?m (d + j)" using assms(1,6,7) by simp_all
  obtain m' where m': "copystr d u len n 0 ?m =
      (Some (if 0 + length xs < min len n then Inr (0 + length xs + 1) else if n < len then Inl EFAULT else Inl ENAMETOOLONG), m')"
    "0 + length xs < min len n \<longrightarrow> (\<forall>j\<le>length xs. bytes m' (d + 0 + j) = bytes ?m (u + 0 + j))"
    "\<forall>a. a < d + 0 \<or> d + 0 + length xs < a \<or> d + min len n \<le> a \<longrightarrow> bytes m' a = bytes ?m a"
    using copystr_eq [OF st apart acc] by blast
  let ?m' = "m'\<lparr>tm_badfaultfunc := False\<rparr>"
  have mn: "min len n = n" using n' by simp
  have "copyinstr u d len m = (if length xs < n then Inr (length xs + 1) else if n < len then Inl EFAULT else Inl ENAMETOOLONG, ?m')"
    using n m'(1) mn by (simp add: copyinstr_def)
  moreover have "n < len \<longleftrightarrow> USERSPACETOP - u < len" using n' by auto
  moreover have "string_at (bytes ?m') d xs" if "length xs < n"
    using m'(2) that mn assms(1,5) by (auto simp: string_at_def USERSPACETOP_def)
  moreover have "bytes ?m' a = bytes m a" if "a < d \<or> d + len \<le> a" for a
    using m'(3) that n' mn by (auto simp: n')
  ultimately show ?thesis using False n' by (intro exI [of _ ?m']) simp
qed

lemma copyinstr_outcomes_witness:
  "fst (copyinstr 4096 USERSPACETOP 8 one_page) = Inr 5 \<and> fst (copyinstr 4096 USERSPACETOP 3 one_page) = Inl ENAMETOOLONG"
proof -
  have s: "string_at (bytes one_page) 4096 [5, 6, 7, 8]" by (simp add: one_page_def)
  have "\<exists>m'. copyinstr 4096 USERSPACETOP 8 one_page = (Inr 5, m')"
    using copyinstr_outcomes [OF s, of 8 USERSPACETOP] by (auto simp: one_page_def USERSPACETOP_def)
  moreover have "\<exists>m'. copyinstr 4096 USERSPACETOP 3 one_page = (Inl ENAMETOOLONG, m')"
    using copyinstr_outcomes [OF s, of 3 USERSPACETOP] by (auto simp: one_page_def USERSPACETOP_def)
  ultimately show ?thesis by auto
qed

end
