(* ===== verification/Vnode.thy ===== *)
theory Vnode
  imports Critical Array Usermem
begin

text \<open>
  Abstract files: \<open>kern/vfs/vnode.c\<close> and the function tables of \<open>kern/include/vnode.h\<close> and
  \<open>kern/include/fs.h\<close>.  A vnode is a reference-counted object whose operations are found through a
  table; the tables are an argument \<open>T\<close> of the model, as they are data in the C program.  The private
  state of the file systems is the field \<open>fs_state\<close>, of any type; \<open>user_mem\<close> is the memory that the
  buffers of a uio lie in.

  What the headers document about the operations is the predicate \<open>fs_contract\<close>: an operation leaves
  the kernel's structures alone and keeps every reference count, except that a lookup hands back a
  counted reference and a reclaim consumes one.  \<open>effect s s' d\<close> says that a step changed the counts
  by \<open>d\<close> and nothing else that the kernel can see; effects of consecutive steps add up.
\<close>

section \<open>Vnodes and their operations\<close>

record 'd vnodes = sync +
  vn_refcount :: "addr \<Rightarrow> int"
  vn_fs :: "addr \<Rightarrow> addr"
  vn_data :: "addr \<Rightarrow> addr"
  vn_ops :: "addr \<Rightarrow> addr"
  fs_state :: 'd                  \<comment> \<open>what the file systems keep\<close>
  fs_blocks :: "addr set"         \<comment> \<open>the memory they have allocated\<close>
  user_mem :: umem                \<comment> \<open>what they transfer data to and from\<close>

type_synonym ('s, 'r) call = "'s \<Rightarrow> ((errno + 'r) \<times> 's) option"

record stat =
  st_size :: int
  st_mode :: nat
  st_nlink :: nat
  st_blocks :: nat
  st_blksize :: nat
  st_dev :: nat
  st_rdev :: nat

record 's vnode_ops =
  vop_magic :: nat
  vop_eachopen :: "addr \<Rightarrow> 32 word \<Rightarrow> ('s, unit) call"
  vop_reclaim :: "addr \<Rightarrow> ('s, unit) call"
  vop_read :: "addr \<Rightarrow> uio \<Rightarrow> ('s, uio) call"
  vop_readlink :: "addr \<Rightarrow> uio \<Rightarrow> ('s, uio) call"
  vop_write :: "addr \<Rightarrow> uio \<Rightarrow> ('s, uio) call"
  vop_stat :: "addr \<Rightarrow> ('s, stat) call"
  vop_gettype :: "addr \<Rightarrow> ('s, nat) call"
  vop_isseekable :: "addr \<Rightarrow> 's \<Rightarrow> bool"
  vop_truncate :: "addr \<Rightarrow> int \<Rightarrow> ('s, unit) call"
  vop_namefile :: "addr \<Rightarrow> uio \<Rightarrow> ('s, uio) call"
  vop_creat :: "addr \<Rightarrow> string \<Rightarrow> bool \<Rightarrow> nat \<Rightarrow> ('s, addr) call"
  vop_symlink :: "addr \<Rightarrow> string \<Rightarrow> string \<Rightarrow> ('s, unit) call"
  vop_mkdir :: "addr \<Rightarrow> string \<Rightarrow> nat \<Rightarrow> ('s, unit) call"
  vop_link :: "addr \<Rightarrow> string \<Rightarrow> addr \<Rightarrow> ('s, unit) call"
  vop_remove :: "addr \<Rightarrow> string \<Rightarrow> ('s, unit) call"
  vop_rmdir :: "addr \<Rightarrow> string \<Rightarrow> ('s, unit) call"
  vop_rename :: "addr \<Rightarrow> string \<Rightarrow> addr \<Rightarrow> string \<Rightarrow> ('s, unit) call"
  vop_lookup :: "addr \<Rightarrow> string \<Rightarrow> ('s, addr) call"
  vop_lookparent :: "addr \<Rightarrow> string \<Rightarrow> nat \<Rightarrow> ('s, addr \<times> string) call"

record 's fs_ops =
  fsop_sync :: "addr \<Rightarrow> ('s, unit) call"
  fsop_getvolname :: "addr \<Rightarrow> 's \<Rightarrow> string option"
  fsop_getroot :: "addr \<Rightarrow> ('s, addr) call"
  fsop_unmount :: "addr \<Rightarrow> ('s, unit) call"

record 's optables =
  vops :: "addr \<Rightarrow> 's vnode_ops"    \<comment> \<open>the table at an address\<close>
  dev_ops :: addr                   \<comment> \<open>the address of \<open>dev_vnode_ops\<close>\<close>
  fops :: "addr \<Rightarrow> 's fs_ops"       \<comment> \<open>the operations of a file system\<close>

text \<open>The shape \<open>result = f(...); if (result) return result; ...\<close>.\<close>

definition on_ok :: "('s, 'r) call \<Rightarrow> ('r \<Rightarrow> ('s, 'q) call) \<Rightarrow> ('s, 'q) call" where
  "on_ok c k s = do { (r, s) \<leftarrow> c s; case r of Inl e \<Rightarrow> Some (Inl e, s) | Inr x \<Rightarrow> k x s }"

definition VOP_MAGIC :: nat where
  "VOP_MAGIC = 0xa2b3c4d5"

definition deadbeef :: nat where
  "deadbeef = 0xdeadbeef"

definition vnode_init :: "addr \<Rightarrow> addr \<Rightarrow> addr \<Rightarrow> addr \<Rightarrow> ('d, 'a) vnodes_scheme \<Rightarrow> ('d, 'a) vnodes_scheme option" where
  "vnode_init vn ops fs data s = do {
     kassert (vn \<noteq> 0);
     kassert (ops \<noteq> 0);
     Some (s\<lparr>vn_ops := (vn_ops s)(vn := ops), vn_refcount := (vn_refcount s)(vn := 1),
             vn_fs := (vn_fs s)(vn := fs), vn_data := (vn_data s)(vn := data)\<rparr>) }"

definition vnode_cleanup :: "addr \<Rightarrow> ('d, 'a) vnodes_scheme \<Rightarrow> ('d, 'a) vnodes_scheme option" where
  "vnode_cleanup vn s = do {
     kassert (vn_refcount s vn = 1);
     Some (s\<lparr>vn_ops := (vn_ops s)(vn := 0), vn_refcount := (vn_refcount s)(vn := 0),
             vn_fs := (vn_fs s)(vn := 0), vn_data := (vn_data s)(vn := 0)\<rparr>) }"

text \<open>The panics of \<open>vnode_check\<close>.\<close>

definition vnode_check :: "('d, 'a) vnodes_scheme optables \<Rightarrow> addr \<Rightarrow> ('d, 'a) vnodes_scheme \<Rightarrow> unit option" where
  "vnode_check T v s = do {
     kassert (v \<noteq> 0);
     kassert (v \<noteq> deadbeef);
     kassert (vn_ops s v \<noteq> 0);
     kassert (vn_ops s v \<noteq> deadbeef);
     kassert (vop_magic (vops T (vn_ops s v)) = VOP_MAGIC);
     kassert (vn_fs s v \<noteq> deadbeef);
     kassert (\<not> vn_refcount s v < 0);
     kassert (vn_refcount s v \<noteq> 0) }"

text \<open>The macro \<open>__VOP\<close>: check the vnode and call through its table.\<close>

definition VOP :: "('d, 'a) vnodes_scheme optables \<Rightarrow> (('d, 'a) vnodes_scheme vnode_ops \<Rightarrow> addr \<Rightarrow> (('d, 'a) vnodes_scheme, 'r) call)
    \<Rightarrow> addr \<Rightarrow> (('d, 'a) vnodes_scheme, 'r) call" where
  "VOP T f v s = do { vnode_check T v s; f (vops T (vn_ops s v)) v s }"

definition vnode_incref :: "addr \<Rightarrow> ('d, 'a) vnodes_scheme \<Rightarrow> ('d, 'a) vnodes_scheme option" where
  "vnode_incref vn s = do {
     kassert (vn \<noteq> 0);
     Some (s\<lparr>vn_refcount := (vn_refcount s)(vn := s32 (vn_refcount s vn + 1))\<rparr>) }"

text \<open>An error of \<open>VOP_RECLAIM\<close> is only printed.\<close>

definition vnode_decref :: "('d, 'a) vnodes_scheme optables \<Rightarrow> addr \<Rightarrow> ('d, 'a) vnodes_scheme \<Rightarrow> ('d, 'a) vnodes_scheme option" where
  "vnode_decref T vn s = do {
     kassert (vn \<noteq> 0);
     kassert (vn_refcount s vn > 0);
     if vn_refcount s vn > 1 then Some (s\<lparr>vn_refcount := (vn_refcount s)(vn := vn_refcount s vn - 1)\<rparr>)
     else do { (_, s) \<leftarrow> VOP T vop_reclaim vn s; Some s } }"

section \<open>Effects on reference counts\<close>

text \<open>Memory that does not belong to a file system.\<close>

definition own :: "('d, 'a) vnodes_scheme \<Rightarrow> addr set" where
  "own s = live s - fs_blocks s"

text \<open>Threads, queues, locks, semaphores and condition variables are as before.\<close>

definition same_sync :: "'a sync_scheme \<Rightarrow> 'a sync_scheme \<Rightarrow> bool" where
  "same_sync s s' \<longleftrightarrow> (\<exists>a b c d. s' = s\<lparr>oom := a, ticks := b, live := c, sync.more := d\<rparr>)"

definition one :: "addr \<Rightarrow> addr \<Rightarrow> int" where
  "one v = (\<lambda>u. if u = v then 1 else 0)"

definition balance :: "('d, 'a) vnodes_scheme \<Rightarrow> ('d, 'a) vnodes_scheme \<Rightarrow> (addr \<Rightarrow> int) \<Rightarrow> bool" where
  "balance s s' d \<longleftrightarrow> same_sync s s' \<and> vnodes.more s' = vnodes.more s \<and> own s' = own s
     \<and> (\<forall>v. vn_refcount s' v = vn_refcount s v + d v)"

text \<open>A vnode that stays in use keeps its type.\<close>

definition kept :: "('d, 'a) vnodes_scheme \<Rightarrow> ('d, 'a) vnodes_scheme \<Rightarrow> bool" where
  "kept s s' \<longleftrightarrow> (\<forall>v. 0 < vn_refcount s v \<and> 0 < vn_refcount s' v \<longrightarrow> vn_ops s' v = vn_ops s v \<and> vn_fs s' v = vn_fs s v)"

text \<open>Every vnode in use passes \<open>vnode_check\<close>; \<open>low s n\<close> leaves room for \<open>n\<close> more references.\<close>

definition vnodes_ok :: "('d, 'a) vnodes_scheme optables \<Rightarrow> ('d, 'a) vnodes_scheme \<Rightarrow> bool" where
  "vnodes_ok T s \<longleftrightarrow> kmem_ok s \<and> fs_blocks s \<subseteq> live s \<and> (\<forall>v. 0 \<le> vn_refcount s v)
     \<and> (\<forall>v. 0 < vn_refcount s v \<longrightarrow> vnode_check T v s = Some ())"

definition low :: "('d, 'a) vnodes_scheme \<Rightarrow> int \<Rightarrow> bool" where
  "low s n \<longleftrightarrow> (\<forall>v. vn_refcount s v + n \<le> 2147483647)"

text \<open>A reference that can be given back: it is not the last one to a device.\<close>

definition droppable :: "('d, 'a) vnodes_scheme optables \<Rightarrow> ('d, 'a) vnodes_scheme \<Rightarrow> addr \<Rightarrow> bool" where
  "droppable T s v \<longleftrightarrow> 1 < vn_refcount s v \<or> (0 < vn_refcount s v \<and> vn_ops s v \<noteq> dev_ops T)"

section \<open>The contract of the operations\<close>

definition quiet :: "('d, 'a) vnodes_scheme optables \<Rightarrow> (('d, 'a) vnodes_scheme, 'r) call \<Rightarrow> ('d, 'a) vnodes_scheme \<Rightarrow> bool" where
  "quiet T c s \<longleftrightarrow> (\<exists>r s'. c s = Some (r, s') \<and> vnodes_ok T s' \<and> balance s s' (\<lambda>_. 0) \<and> kept s s')"

definition hands_back :: "('r \<Rightarrow> addr) \<Rightarrow> ('d, 'a) vnodes_scheme optables \<Rightarrow> (('d, 'a) vnodes_scheme, 'r) call \<Rightarrow> ('d, 'a) vnodes_scheme \<Rightarrow> bool" where
  "hands_back node T c s \<longleftrightarrow> (\<exists>r s'. c s = Some (r, s') \<and> vnodes_ok T s' \<and> kept s s'
     \<and> (case r of Inl e \<Rightarrow> balance s s' (\<lambda>_. 0) | Inr x \<Rightarrow> balance s s' (one (node x)) \<and> droppable T s' (node x)))"

definition vop_contract :: "('d, 'a) vnodes_scheme optables \<Rightarrow> ('d, 'a) vnodes_scheme vnode_ops \<Rightarrow> addr \<Rightarrow> ('d, 'a) vnodes_scheme \<Rightarrow> bool" where
  "vop_contract T ops v s \<longleftrightarrow>
     (\<forall>fl. quiet T (vop_eachopen ops v fl) s) \<and> (\<forall>u. uio_rw u = UIO_READ \<longrightarrow> quiet T (vop_read ops v u) s) \<and> (\<forall>u. uio_rw u = UIO_READ \<longrightarrow> quiet T (vop_readlink ops v u) s)
     \<and> (\<forall>u. uio_rw u = UIO_WRITE \<longrightarrow> quiet T (vop_write ops v u) s) \<and> quiet T (vop_stat ops v) s \<and> quiet T (vop_gettype ops v) s
     \<and> (\<forall>n. quiet T (vop_truncate ops v n) s) \<and> (\<forall>u. uio_rw u = UIO_READ \<longrightarrow> quiet T (vop_namefile ops v u) s)
     \<and> (\<forall>n x. quiet T (vop_symlink ops v n x) s) \<and> (\<forall>n x. quiet T (vop_mkdir ops v n x) s) \<and> (\<forall>n x. quiet T (vop_link ops v n x) s)
     \<and> (\<forall>n. quiet T (vop_remove ops v n) s) \<and> (\<forall>n. quiet T (vop_rmdir ops v n) s) \<and> (\<forall>n w n'. quiet T (vop_rename ops v n w n') s)
     \<and> (low s 1 \<longrightarrow> (\<forall>n x md. hands_back id T (vop_creat ops v n x md) s) \<and> (\<forall>p. hands_back id T (vop_lookup ops v p) s)
          \<and> (\<forall>p n. hands_back fst T (vop_lookparent ops v p n) s))
     \<and> (vn_refcount s v = 1 \<longrightarrow> (\<exists>r s'. vop_reclaim ops v s = Some (r, s') \<and> vnodes_ok T s' \<and> kept s s'
          \<and> balance s s' (if vn_ops s v \<noteq> dev_ops T then - one v else (\<lambda>_. 0))))"

definition fs_contract :: "('d, 'a) vnodes_scheme optables \<Rightarrow> bool" where
  "fs_contract T \<longleftrightarrow> (\<forall>s. vnodes_ok T s \<longrightarrow>
     (\<forall>v. 0 < vn_refcount s v \<longrightarrow> vop_contract T (vops T (vn_ops s v)) v s)
     \<and> (\<forall>f. quiet T (fsop_sync (fops T f) f) s \<and> quiet T (fsop_unmount (fops T f) f) s
          \<and> (low s 1 \<longrightarrow> hands_back id T (fsop_getroot (fops T f) f) s)))"

section \<open>The algebra of effects\<close>

lemma same_sync_refl [simp]: "same_sync s s"
  by (auto simp: same_sync_def intro!: exI [of _ "oom s"] exI [of _ "ticks s"] exI [of _ "live s"] exI [of _ "sync.more s"] sync.equality)

lemma same_sync_trans: "same_sync s s1 \<Longrightarrow> same_sync s1 s2 \<Longrightarrow> same_sync s s2"
  unfolding same_sync_def by (elim exE, hypsubst, simp, intro exI, rule refl)

lemma same_sync_sel:
  assumes "same_sync s s'"
  shows "lk_available s' = lk_available s" "lk_holder s' = lk_holder s" "lk_wchan s' = lk_wchan s" "lk_name s' = lk_name s"
    "curthread s' = curthread s" "t_in_interrupt s' = t_in_interrupt s" "t_proc s' = t_proc s" "lock_idle s' l = lock_idle s l"
proof -
  obtain a b c d where s': "s' = s\<lparr>oom := a, ticks := b, live := c, sync.more := d\<rparr>" using assms by (auto simp: same_sync_def)
  show "lk_available s' = lk_available s" "lk_holder s' = lk_holder s" "lk_wchan s' = lk_wchan s" "lk_name s' = lk_name s"
    "curthread s' = curthread s" "t_in_interrupt s' = t_in_interrupt s" "t_proc s' = t_proc s" by (simp_all add: s')
  show "lock_idle s' l = lock_idle s l" by (rule lock_idle_cong) (simp_all add: s')
qed

text \<open>Work in a lock that leaves the locks as it found them.\<close>

lemma same_sync_taken:
  assumes "lock_idle s l" and "same_sync (taken l s) s1"
  shows "lock_mine s1 l" "same_sync s (dropped l s1)"
proof -
  obtain a b c d where s1: "s1 = (taken l s)\<lparr>oom := a, ticks := b, live := c, sync.more := d\<rparr>" using assms by (auto simp: same_sync_def)
  have "on_list s1 (Wchan w) ts = on_list s (Wchan w) ts" for w ts by (rule on_list_cong) (simp_all add: s1 taken_def)
  then show "lock_mine s1 l" using assms(1) by (simp add: s1 taken_def lock_mine_def lock_idle_def)
  have "dropped l s1 = (dropped l (taken l s))\<lparr>oom := a, ticks := b, live := c, sync.more := d\<rparr>"
    by (simp add: s1 dropped_def taken_def)
  then show "same_sync s (dropped l s1)" using lk.drop_take [OF assms(1)] by (auto simp: same_sync_def)
qed

lemma balance_refl [simp]: "balance s s (\<lambda>_. 0)"
  by (simp add: balance_def)

lemma balance_trans: "balance s s1 d \<Longrightarrow> balance s1 s2 e \<Longrightarrow> balance s s2 (\<lambda>v. d v + e v)"
  using same_sync_trans [of s s1 s2] by (simp add: balance_def)

lemma balance_zero [simp]: "balance s s1 (\<lambda>_. 0) \<Longrightarrow> balance s1 s2 e \<Longrightarrow> balance s s2 e"
  using balance_trans [of s s1 "\<lambda>_. 0" s2 e] by simp

lemma balance_back: "balance s s1 d \<Longrightarrow> balance s1 s2 (\<lambda>_. 0) \<Longrightarrow> balance s s2 d"
  using balance_trans [of s s1 d s2 "\<lambda>_. 0"] by simp

lemma balance_undo: "balance s s1 (one v) \<Longrightarrow> balance s1 s2 (- one v) \<Longrightarrow> balance s s2 (\<lambda>_. 0)"
  using balance_trans [of s s1 "one v" s2 "- one v"] by simp

lemma balance_count: "balance s s1 d \<Longrightarrow> vn_refcount s1 v = vn_refcount s v + d v"
  by (simp add: balance_def)

lemma low_step: "low s (n + 1) \<Longrightarrow> balance s s1 (one v) \<Longrightarrow> low s1 n"
  unfolding low_def balance_def one_def
proof
  fix u
  assume "\<forall>v. vn_refcount s v + (n + 1) \<le> 2147483647" "same_sync s s1 \<and> vnodes.more s1 = vnodes.more s \<and> own s1 = own s
    \<and> (\<forall>u. vn_refcount s1 u = vn_refcount s u + (if u = v then 1 else 0))"
  then have "vn_refcount s u + (n + 1) \<le> 2147483647" "vn_refcount s1 u = vn_refcount s u + (if u = v then 1 else 0)" by blast+
  then show "vn_refcount s1 u + n \<le> 2147483647" by (auto split: if_splits)
qed

lemma low_same: "low s n \<Longrightarrow> balance s s1 (\<lambda>_. 0) \<Longrightarrow> low s1 n"
  by (auto simp: low_def balance_def)

lemma low_mono: "low s n \<Longrightarrow> m \<le> n \<Longrightarrow> low s m"
  unfolding low_def by (meson add_left_mono order_trans)

section \<open>The operations of a contract\<close>

lemma vnode_checkD: "vnodes_ok T s \<Longrightarrow> 0 < vn_refcount s v \<Longrightarrow> vnode_check T v s = Some ()"
  by (simp add: vnodes_ok_def)

lemma VOP_eq: "vnodes_ok T s \<Longrightarrow> 0 < vn_refcount s v \<Longrightarrow> VOP T f v s = f (vops T (vn_ops s v)) v s"
  by (simp add: VOP_def vnode_checkD)

text \<open>Updates of the counts alone.\<close>

lemma check_count: "vnode_check T v s = Some () \<Longrightarrow> 0 < r v \<Longrightarrow> vnode_check T v (s\<lparr>vn_refcount := r\<rparr>) = Some ()"
  by (auto simp: vnode_check_def split: if_splits)

lemma vnodes_ok_count:
  assumes "vnodes_ok T s" and "\<And>u. 0 \<le> r u" and "\<And>u. 0 < r u \<Longrightarrow> 0 < vn_refcount s u"
  shows "vnodes_ok T (s\<lparr>vn_refcount := r\<rparr>)"
  using assms check_count [of T _ s r] by (simp add: vnodes_ok_def kmem_ok_def)

lemma balance_count_upd: "balance s (s\<lparr>vn_refcount := (vn_refcount s)(v := vn_refcount s v + n)\<rparr>) (\<lambda>u. if u = v then n else 0)"
proof -
  let ?s = "s\<lparr>vn_refcount := (vn_refcount s)(v := vn_refcount s v + n)\<rparr>"
  have "?s = s\<lparr>oom := oom s, ticks := ticks s, live := live s, sync.more := sync.more ?s\<rparr>" by (rule sync.equality) simp_all
  then have "same_sync s ?s" unfolding same_sync_def by blast
  then show ?thesis by (simp add: balance_def own_def)
qed

lemma incref_ok:
  assumes ok: "vnodes_ok T s" and v: "0 < vn_refcount s v" and low: "low s 1"
  obtains s' where "vnode_incref v s = Some s'" "vnodes_ok T s'" "balance s s' (one v)" "kept s s'" "1 < vn_refcount s' v"
    "s' = s\<lparr>vn_refcount := (vn_refcount s)(v := vn_refcount s v + 1)\<rparr>"
proof -
  let ?s = "s\<lparr>vn_refcount := (vn_refcount s)(v := vn_refcount s v + 1)\<rparr>"
  have v0: "v \<noteq> 0" using vnode_checkD [OF ok v] by (auto simp: vnode_check_def split: if_splits)
  have nn: "0 \<le> vn_refcount s u" for u using ok by (simp add: vnodes_ok_def)
  have "vn_refcount s v + 1 \<le> 2147483647" using low by (simp only: low_def)
  then have "s32 (vn_refcount s v + 1) = vn_refcount s v + 1" using v by (intro s32_id) auto
  then have "vnode_incref v s = Some ?s" using v0 by (simp add: vnode_incref_def)
  moreover have "vnodes_ok T ?s" using v nn by (intro vnodes_ok_count [OF ok]) (auto split: if_splits)
  moreover have "balance s ?s (one v)" using balance_count_upd [of s v 1] by (simp add: one_def)
  ultimately show thesis using that v by (auto simp: kept_def)
qed

lemma decref_ok:
  assumes c: "fs_contract T" and ok: "vnodes_ok T s" and v: "droppable T s v"
  obtains s' where "vnode_decref T v s = Some s'" "vnodes_ok T s'" "balance s s' (- one v)" "kept s s'"
proof (cases "vn_refcount s v > 1")
  case True
  let ?s = "s\<lparr>vn_refcount := (vn_refcount s)(v := vn_refcount s v + - 1)\<rparr>"
  have v0: "v \<noteq> 0" using vnode_checkD [OF ok, of v] True by (auto simp: vnode_check_def split: if_splits)
  have nn: "0 \<le> vn_refcount s u" for u using ok by (simp add: vnodes_ok_def)
  have "vnode_decref T v s = Some ?s" using v0 True by (simp add: vnode_decref_def)
  moreover have "vnodes_ok T ?s" using True nn by (intro vnodes_ok_count [OF ok]) (auto split: if_splits)
  moreover have "(\<lambda>u. if u = v then - 1 else 0) = - one v" by (auto simp: one_def)
  then have "balance s ?s (- one v)" using balance_count_upd [of s v "- 1"] by simp
  ultimately show thesis using that by (auto simp: kept_def)
next
  case False
  then have 1: "vn_refcount s v = 1" "vn_ops s v \<noteq> dev_ops T" using v by (auto simp: droppable_def)
  have v0: "v \<noteq> 0" using vnode_checkD [OF ok, of v] 1 by (auto simp: vnode_check_def split: if_splits)
  have "vop_contract T (vops T (vn_ops s v)) v s" using c ok 1 by (simp add: fs_contract_def)
  then obtain r s' where "vop_reclaim (vops T (vn_ops s v)) v s = Some (r, s')" "vnodes_ok T s'" "kept s s'" "balance s s' (- one v)"
    using 1 unfolding vop_contract_def by auto
  moreover have "VOP T vop_reclaim v s = vop_reclaim (vops T (vn_ops s v)) v s" using ok 1 by (simp add: VOP_eq)
  ultimately show thesis using that v0 1 by (simp add: vnode_decref_def)
qed

section \<open>Composing calls\<close>

text \<open>A step that changes the counts by \<open>d\<close> and keeps all else.\<close>

definition step :: "('d, 'a) vnodes_scheme optables \<Rightarrow> ('d, 'a) vnodes_scheme \<Rightarrow> ('d, 'a) vnodes_scheme \<Rightarrow> (addr \<Rightarrow> int) \<Rightarrow> bool" where
  "step T s s' d \<longleftrightarrow> vnodes_ok T s' \<and> balance s s' d \<and> kept s s'"

lemma stepD: "step T s s' d \<Longrightarrow> vnodes_ok T s'" "step T s s' d \<Longrightarrow> balance s s' d" "step T s s' d \<Longrightarrow> kept s s'"
  by (simp_all add: step_def)

lemma step_refl: "vnodes_ok T s \<Longrightarrow> step T s s (\<lambda>_. 0)"
  by (simp add: step_def kept_def)

lemma step_trans:
  assumes "step T s s1 d" and "step T s1 s2 e" and "\<And>v. 0 \<le> d v"
  shows "step T s s2 (\<lambda>v. d v + e v)"
proof -
  have "0 < vn_refcount s1 v" if "0 < vn_refcount s v" for v
    using that assms(1,3) by (simp add: step_def balance_def add_pos_nonneg)
  then have "kept s s2" using assms(1,2) unfolding step_def kept_def by metis
  then show ?thesis using assms(1,2) balance_trans by (auto simp: step_def)
qed

lemma step_0 [trans]: "step T s s1 (\<lambda>_. 0) \<Longrightarrow> step T s1 s2 e \<Longrightarrow> step T s s2 e"
  using step_trans [of T s s1 "\<lambda>_. 0" s2 e] by simp

lemma step_one_0: "step T s s1 (one v) \<Longrightarrow> step T s1 s2 (\<lambda>_. 0) \<Longrightarrow> step T s s2 (one v)"
  using step_trans [of T s s1 "one v" s2 "\<lambda>_. 0"] by (simp add: one_def)

lemma step_undo: "step T s s1 (one v) \<Longrightarrow> step T s1 s2 (- one v) \<Longrightarrow> step T s s2 (\<lambda>_. 0)"
  using step_trans [of T s s1 "one v" s2 "- one v"] by (simp add: one_def)

lemma step_swap: "step T s s1 (one v) \<Longrightarrow> step T s1 s2 (one w) \<Longrightarrow> step T s2 s3 (- one v) \<Longrightarrow> step T s s3 (one w)"
  using step_trans [of T s s1 "one v" s2 "one w"] step_trans [of T s s2 "\<lambda>u. one v u + one w u" s3 "- one v"]
  by (simp add: one_def)

lemma step_count: "step T s s' d \<Longrightarrow> vn_refcount s' v = vn_refcount s v + d v"
  by (simp add: step_def balance_def)

lemma step_more: "step T s s' d \<Longrightarrow> vnodes.more s' = vnodes.more s"
  by (simp add: step_def balance_def)

lemma step_sync: "step T s s' d \<Longrightarrow> same_sync s s'"
  by (simp add: step_def balance_def)

lemma step_low: "step T s s1 (one v) \<Longrightarrow> low s (n + 1) \<Longrightarrow> low s1 n" "step T s s1 (\<lambda>_. 0) \<Longrightarrow> low s n \<Longrightarrow> low s1 n"
  by (auto simp: step_def intro: low_step low_same)

text \<open>A reference in hand stays one that can be given back, as long as the counts only grow.\<close>

lemma step_droppable: "droppable T s v \<Longrightarrow> step T s s1 d \<Longrightarrow> (\<And>u. 0 \<le> d u) \<Longrightarrow> droppable T s1 v"
proof -
  assume a: "droppable T s v" "step T s s1 d" "\<And>u. 0 \<le> d u"
  have c: "vn_refcount s v \<le> vn_refcount s1 v" using step_count [OF a(2), of v] a(3) [of v] by simp
  have "0 < vn_refcount s v" using a(1) by (auto simp: droppable_def)
  then have "vn_ops s1 v = vn_ops s v" using c stepD(3) [OF a(2)] by (auto simp: kept_def)
  then show ?thesis using a(1) c by (auto simp: droppable_def)
qed

text \<open>The outcome of a call that hands back the references \<open>refs x\<close> (none or one) with its result \<open>x\<close>.\<close>

definition sum_of :: "addr option \<Rightarrow> addr \<Rightarrow> int" where
  "sum_of r = (case r of None \<Rightarrow> (\<lambda>_. 0) | Some v \<Rightarrow> one v)"

definition outcome :: "('r \<Rightarrow> addr option) \<Rightarrow> ('d, 'a) vnodes_scheme optables \<Rightarrow> ('d, 'a) vnodes_scheme
    \<Rightarrow> ((errno + 'r) \<times> ('d, 'a) vnodes_scheme) option \<Rightarrow> bool" where
  "outcome refs T s m \<longleftrightarrow> (\<exists>r s'. m = Some (r, s') \<and>
     (case r of Inl e \<Rightarrow> step T s s' (\<lambda>_. 0) | Inr x \<Rightarrow> step T s s' (sum_of (refs x)) \<and> (\<forall>v. refs x = Some v \<longrightarrow> droppable T s' v)))"

lemma outcome_error: "vnodes_ok T s \<Longrightarrow> outcome refs T s (Some (Inl e, s))"
  by (simp add: outcome_def step_refl)

lemma outcome_quiet:
  fixes m :: "((errno + 'r) \<times> ('d, 'a) vnodes_scheme) option"
  shows "outcome (\<lambda>_. None) T s m \<longleftrightarrow> (\<exists>r s'. m = Some (r, s') \<and> step T s s' (\<lambda>_. 0))"
proof -
  have "(case r of Inl e \<Rightarrow> step T s s' (\<lambda>_. 0) | Inr x \<Rightarrow> step T s s' (sum_of None) \<and> (\<forall>v. None = Some v \<longrightarrow> droppable T s' v)) = step T s s' (\<lambda>_. 0)"
    for r :: "errno + 'r" and s' by (cases r) (simp_all add: sum_of_def)
  then show ?thesis unfolding outcome_def by simp
qed

lemma quiet_outcome: "quiet T c s \<longleftrightarrow> outcome (\<lambda>_. None) T s (c s)"
  unfolding outcome_quiet by (simp add: quiet_def step_def)

lemma hands_back_outcome: "hands_back node T c s \<longleftrightarrow> outcome (\<lambda>x. Some (node x)) T s (c s)"
  by (auto simp: hands_back_def outcome_def step_def sum_of_def split: sum.splits)

lemma sum_of_nonneg: "0 \<le> sum_of r v"
  by (cases r) (auto simp: sum_of_def one_def)

text \<open>After a quiet step, an outcome is an outcome of the whole.\<close>

lemma outcome_after:
  assumes "step T s s1 (\<lambda>_. 0)" and "outcome refs T s1 m"
  shows "outcome refs T s m"
proof -
  obtain r s2 where r: "m = Some (r, s2)" and s2: "case r of Inl e \<Rightarrow> step T s1 s2 (\<lambda>_. 0)
      | Inr x \<Rightarrow> step T s1 s2 (sum_of (refs x)) \<and> (\<forall>v. refs x = Some v \<longrightarrow> droppable T s2 v)"
    using assms(2) unfolding outcome_def by blast
  then show ?thesis using step_0 [OF assms(1)] by (cases r) (auto simp: outcome_def)
qed

text \<open>The frequent end of a function: an operation, then the reference in hand is given back.\<close>

lemma outcome_decref:
  assumes c: "fs_contract T" and s1: "step T s s1 (one v)" "droppable T s1 v" and m: "outcome refs T s1 m"
  shows "outcome refs T s (do { (r, s) \<leftarrow> m; s \<leftarrow> vnode_decref T v s; Some (r, s) })"
proof -
  obtain r s2 where r: "m = Some (r, s2)" and s2: "case r of Inl e \<Rightarrow> step T s1 s2 (\<lambda>_. 0)
      | Inr x \<Rightarrow> step T s1 s2 (sum_of (refs x)) \<and> (\<forall>v. refs x = Some v \<longrightarrow> droppable T s2 v)"
    using m unfolding outcome_def by blast
  define d where "d = (case r of Inl e \<Rightarrow> (\<lambda>_. 0) | Inr x \<Rightarrow> sum_of (refs x))"
  have d: "step T s1 s2 d" "0 \<le> d u" for u using s2 by (auto simp: d_def sum_of_nonneg split: sum.splits)
  have ok2: "vnodes_ok T s2" using d(1) by (rule stepD)
  have dr: "droppable T s2 v" using step_droppable [OF s1(2) d(1)] d(2) by simp
  obtain s3 where s3: "vnode_decref T v s2 = Some s3" "step T s2 s3 (- one v)"
    using decref_ok [OF c ok2 dr] by (metis step_def)
  have "step T s s2 (\<lambda>u. one v u + d u)" by (rule step_trans [OF s1(1) d(1)]) (simp add: one_def)
  then have "step T s s3 (\<lambda>u. (one v u + d u) + (- one v) u)" by (rule step_trans [OF _ s3(2)]) (use d(2) in \<open>simp add: one_def\<close>)
  then have e: "step T s s3 d" by simp
  have "droppable T s3 w" if "r = Inr x" "refs x = Some w" for x w
  proof -
    have dw: "droppable T s2 w" and dd: "d = one w" using s2 that by (auto simp: d_def sum_of_def)
    show ?thesis
    proof (cases "w = v")
      case False
      have "vn_refcount s3 w = vn_refcount s2 w" using step_count [OF s3(2), of w] False by (simp add: one_def)
      moreover have "vn_ops s3 w = vn_ops s2 w" using dw calculation stepD(3) [OF s3(2)] by (auto simp: kept_def droppable_def)
      ultimately show ?thesis using dw by (simp add: droppable_def)
    next
      case True
      have n: "vn_refcount s3 v = vn_refcount s1 v" "vn_refcount s2 v = vn_refcount s1 v + 1"
        using step_count [OF s3(2), of v] step_count [OF d(1), of v] dd True by (simp_all add: one_def)
      moreover have "0 < vn_refcount s1 v" using s1(2) by (auto simp: droppable_def)
      ultimately have "vn_ops s3 v = vn_ops s1 v" using stepD(3) [OF s3(2)] stepD(3) [OF d(1)] by (auto simp: kept_def)
      then show ?thesis using s1(2) n True by (simp add: droppable_def)
    qed
  qed
  then show ?thesis using r s3(1) e by (auto simp: outcome_def d_def split: sum.splits)
qed

lemma outcome_on_ok:
  assumes "outcome rc T s (c s)"
    and "\<And>x s1. step T s s1 (sum_of (rc x)) \<Longrightarrow> (\<forall>v. rc x = Some v \<longrightarrow> droppable T s1 v) \<Longrightarrow> outcome refs T s (k x s1)"
  shows "outcome refs T s (on_ok c k s)"
proof -
  obtain r s1 where r: "c s = Some (r, s1)" and s1: "case r of Inl e \<Rightarrow> step T s s1 (\<lambda>_. 0)
      | Inr x \<Rightarrow> step T s s1 (sum_of (rc x)) \<and> (\<forall>v. rc x = Some v \<longrightarrow> droppable T s1 v)"
    using assms(1) unfolding outcome_def by blast
  show ?thesis
  proof (cases r)
    case (Inl e)
    then show ?thesis using r s1 by (auto simp: on_ok_def outcome_def)
  next
    case (Inr x)
    then show ?thesis using r s1 assms(2) [of s1 x] by (simp add: on_ok_def)
  qed
qed

lemma outcome_return: "step T s s1 (sum_of (refs x)) \<Longrightarrow> (\<forall>v. refs x = Some v \<longrightarrow> droppable T s1 v) \<Longrightarrow> outcome refs T s (Some (Inr x, s1))"
  by (simp add: outcome_def)

text \<open>The operations of a vnode in use, through \<open>VOP\<close>.\<close>

lemma vop_outcomes:
  assumes "fs_contract T" and "vnodes_ok T s" and "0 < vn_refcount s v"
  shows "outcome (\<lambda>_. None) T s (VOP T (\<lambda>ops v. vop_eachopen ops v fl) v s)"
    and "uio_rw u = UIO_READ \<Longrightarrow> outcome (\<lambda>_. None) T s (VOP T (\<lambda>ops v. vop_read ops v u) v s)"
    and "uio_rw u = UIO_READ \<Longrightarrow> outcome (\<lambda>_. None) T s (VOP T (\<lambda>ops v. vop_readlink ops v u) v s)"
    and "uio_rw u = UIO_WRITE \<Longrightarrow> outcome (\<lambda>_. None) T s (VOP T (\<lambda>ops v. vop_write ops v u) v s)"
    and "outcome (\<lambda>_. None) T s (VOP T vop_stat v s)"
    and "outcome (\<lambda>_. None) T s (VOP T vop_gettype v s)"
    and "outcome (\<lambda>_. None) T s (VOP T (\<lambda>ops v. vop_truncate ops v l) v s)"
    and "uio_rw u = UIO_READ \<Longrightarrow> outcome (\<lambda>_. None) T s (VOP T (\<lambda>ops v. vop_namefile ops v u) v s)"
    and "outcome (\<lambda>_. None) T s (VOP T (\<lambda>ops v. vop_symlink ops v n c) v s)"
    and "outcome (\<lambda>_. None) T s (VOP T (\<lambda>ops v. vop_mkdir ops v n md) v s)"
    and "outcome (\<lambda>_. None) T s (VOP T (\<lambda>ops v. vop_link ops v n w) v s)"
    and "outcome (\<lambda>_. None) T s (VOP T (\<lambda>ops v. vop_remove ops v n) v s)"
    and "outcome (\<lambda>_. None) T s (VOP T (\<lambda>ops v. vop_rmdir ops v n) v s)"
    and "outcome (\<lambda>_. None) T s (VOP T (\<lambda>ops v. vop_rename ops v n w n2) v s)"
    and "low s 1 \<Longrightarrow> outcome Some T s (VOP T (\<lambda>ops v. vop_creat ops v n x md) v s)"
    and "low s 1 \<Longrightarrow> outcome Some T s (VOP T (\<lambda>ops v. vop_lookup ops v p) v s)"
    and "low s 1 \<Longrightarrow> outcome (\<lambda>x. Some (fst x)) T s (VOP T (\<lambda>ops v. vop_lookparent ops v p b) v s)"
proof -
  have c: "vop_contract T (vops T (vn_ops s v)) v s" using assms by (simp add: fs_contract_def)
  note c' = c [unfolded vop_contract_def quiet_outcome hands_back_outcome, simplified]
  note eq = VOP_eq [OF assms(2,3)]
  show "outcome (\<lambda>_. None) T s (VOP T (\<lambda>ops v. vop_eachopen ops v fl) v s)"
    "uio_rw u = UIO_READ \<Longrightarrow> outcome (\<lambda>_. None) T s (VOP T (\<lambda>ops v. vop_read ops v u) v s)"
    "uio_rw u = UIO_READ \<Longrightarrow> outcome (\<lambda>_. None) T s (VOP T (\<lambda>ops v. vop_readlink ops v u) v s)"
    "uio_rw u = UIO_WRITE \<Longrightarrow> outcome (\<lambda>_. None) T s (VOP T (\<lambda>ops v. vop_write ops v u) v s)"
    "outcome (\<lambda>_. None) T s (VOP T vop_stat v s)"
    "outcome (\<lambda>_. None) T s (VOP T vop_gettype v s)"
    "outcome (\<lambda>_. None) T s (VOP T (\<lambda>ops v. vop_truncate ops v l) v s)"
    "uio_rw u = UIO_READ \<Longrightarrow> outcome (\<lambda>_. None) T s (VOP T (\<lambda>ops v. vop_namefile ops v u) v s)"
    "outcome (\<lambda>_. None) T s (VOP T (\<lambda>ops v. vop_symlink ops v n c) v s)"
    "outcome (\<lambda>_. None) T s (VOP T (\<lambda>ops v. vop_mkdir ops v n md) v s)"
    "outcome (\<lambda>_. None) T s (VOP T (\<lambda>ops v. vop_link ops v n w) v s)"
    "outcome (\<lambda>_. None) T s (VOP T (\<lambda>ops v. vop_remove ops v n) v s)"
    "outcome (\<lambda>_. None) T s (VOP T (\<lambda>ops v. vop_rmdir ops v n) v s)"
    "outcome (\<lambda>_. None) T s (VOP T (\<lambda>ops v. vop_rename ops v n w n2) v s)"
    using c' by (simp_all add: eq)
  assume "low s 1"
  then show "outcome Some T s (VOP T (\<lambda>ops v. vop_creat ops v n x md) v s)"
    "outcome Some T s (VOP T (\<lambda>ops v. vop_lookup ops v p) v s)"
    "outcome (\<lambda>x. Some (fst x)) T s (VOP T (\<lambda>ops v. vop_lookparent ops v p b) v s)"
    using c' by (simp_all add: eq)
qed

lemma fsop_outcomes:
  assumes "fs_contract T" and "vnodes_ok T s"
  shows "outcome (\<lambda>_. None) T s (fsop_sync (fops T f) f s)" "outcome (\<lambda>_. None) T s (fsop_unmount (fops T f) f s)"
    "low s 1 \<Longrightarrow> outcome Some T s (fsop_getroot (fops T f) f s)"
  using assms by (auto simp: fs_contract_def quiet_outcome hands_back_outcome)

end
