(* ===== verification/Vfslist.thy ===== *)
theory Vfslist
  imports Vnode
begin

text \<open>
  The table of devices of \<open>kern/vfs/vfslist.c\<close>: names, raw names, mounted file systems and swap,
  under the recursive \<open>vfs_biglock\<close>.  Device names are values here, so the block of a name appears
  only in the functions that allocate it.
\<close>

section \<open>State\<close>

record 'd vfs = "'d vnodes" +
  p_cwd :: "addr \<Rightarrow> addr"            \<comment> \<open>of a process\<close>
  bootfs_vnode :: addr
  vfs_biglock :: addr
  vfs_biglock_depth :: nat
  knowndevs :: "addr arr"
  kd_name :: "addr \<Rightarrow> string"
  kd_rawname :: "addr \<Rightarrow> string option"
  kd_device :: "addr \<Rightarrow> addr"
  kd_vnode :: "addr \<Rightarrow> addr"
  kd_fs :: "addr \<Rightarrow> addr"
  d_devnumber :: "addr \<Rightarrow> nat"

definition SWAP_FS :: addr where
  "SWAP_FS = 0xffffffff"

section \<open>The big lock\<close>

definition vfs_biglock_acquire :: "('d, 'a) vfs_scheme \<Rightarrow> ('d, 'a) vfs_scheme option" where
  "vfs_biglock_acquire s = do {
     held \<leftarrow> lock_do_i_hold (vfs_biglock s) s;
     s \<leftarrow> (if \<not> held then lock_now (vfs_biglock s) s
           else if vfs_biglock_depth s = 0 then lock_now (vfs_biglock s) s
           else Some s);
     Some (s\<lparr>vfs_biglock_depth := u32 (vfs_biglock_depth s + 1)\<rparr>) }"

definition vfs_biglock_release :: "('d, 'a) vfs_scheme \<Rightarrow> ('d, 'a) vfs_scheme option" where
  "vfs_biglock_release s = do {
     held \<leftarrow> lock_do_i_hold (vfs_biglock s) s;
     kassert held;
     kassert (vfs_biglock_depth s > 0);
     let s = s\<lparr>vfs_biglock_depth := vfs_biglock_depth s - 1\<rparr>;
     if vfs_biglock_depth s = 0 then lock_release (vfs_biglock s) s else Some s }"

definition vfs_biglock_do_i_hold :: "('d, 'a) vfs_scheme \<Rightarrow> bool option" where
  "vfs_biglock_do_i_hold s = lock_do_i_hold (vfs_biglock s) s"

definition biglock_held :: "('d, 'a) vfs_scheme \<Rightarrow> unit option" where
  "biglock_held s = do { held \<leftarrow> vfs_biglock_do_i_hold s; kassert held }"

section \<open>Finding devices\<close>

text \<open>The loop of \<open>vfs_getroot\<close> from index \<open>i\<close>.\<close>

function getroot_from :: "('d, 'a) vfs_scheme optables \<Rightarrow> string \<Rightarrow> nat \<Rightarrow> nat \<Rightarrow> (('d, 'a) vfs_scheme, addr) call" where
  "getroot_from T devname num i s =
     (if i < num then do {
        kd \<leftarrow> array_get (knowndevs s) i;
        let fs = kd_fs s kd;
        if fs \<noteq> 0 \<and> fs \<noteq> SWAP_FS \<and> (kd_name s kd = devname \<or> fsop_getvolname (fops T fs) fs s = Some devname) then
          fsop_getroot (fops T fs) fs s
        else if \<not> (fs \<noteq> 0 \<and> fs \<noteq> SWAP_FS) \<and> kd_rawname s kd \<noteq> None \<and> kd_name s kd = devname then Some (Inl ENXIO, s)
        else if kd_name s kd = devname then do {
          kassert (fs = 0);
          kassert (kd_rawname s kd = None);
          kassert (kd_device s kd \<noteq> 0);
          s \<leftarrow> vnode_incref (kd_vnode s kd) s;
          Some (Inr (kd_vnode s kd), s) }
        else if kd_rawname s kd = Some devname then do {
          kassert (kd_device s kd \<noteq> 0);
          s \<leftarrow> vnode_incref (kd_vnode s kd) s;
          Some (Inr (kd_vnode s kd), s) }
        else getroot_from T devname num (i + 1) s }
      else Some (Inl ENODEV, s))"
  by pat_completeness auto
termination by (relation "measure (\<lambda>(T, devname, num, i, s). num - i)") auto

declare getroot_from.simps [simp del]

definition vfs_getroot :: "('d, 'a) vfs_scheme optables \<Rightarrow> string \<Rightarrow> (('d, 'a) vfs_scheme, addr) call" where
  "vfs_getroot T devname s = do {
     biglock_held s;
     getroot_from T devname (array_num (knowndevs s)) 0 s }"

text \<open>The loop of \<open>vfs_getdevname\<close>; the result \<open>None\<close> inside is the NULL pointer.\<close>

function devname_from :: "addr \<Rightarrow> nat \<Rightarrow> nat \<Rightarrow> ('d, 'a) vfs_scheme \<Rightarrow> string option option" where
  "devname_from fs num i s =
     (if i < num then do {
        kd \<leftarrow> array_get (knowndevs s) i;
        if kd_fs s kd = fs then Some (Some (kd_name s kd)) else devname_from fs num (i + 1) s }
      else Some None)"
  by pat_completeness auto
termination by (relation "measure (\<lambda>(fs, num, i, s). num - i)") auto

declare devname_from.simps [simp del]

definition vfs_getdevname :: "addr \<Rightarrow> ('d, 'a) vfs_scheme \<Rightarrow> string option option" where
  "vfs_getdevname fs s = do {
     kassert (fs \<noteq> 0);
     biglock_held s;
     devname_from fs (array_num (knowndevs s)) 0 s }"

text \<open>The table is an array of devices, and what can be reached through it is in use.\<close>

definition devs_ok :: "('d, 'a) vfs_scheme \<Rightarrow> addr list \<Rightarrow> bool" where
  "devs_ok s kds \<longleftrightarrow> holds_list s (knowndevs s) kds
     \<and> (\<forall>kd\<in>set kds. 0 < vn_refcount s (kd_vnode s kd)
          \<and> (kd_rawname s kd \<noteq> None \<longrightarrow> kd_device s kd \<noteq> 0)
          \<and> (kd_rawname s kd = None \<longrightarrow> kd_fs s kd \<noteq> SWAP_FS \<and> (kd_fs s kd = 0 \<longrightarrow> kd_device s kd \<noteq> 0)))"

lemma getroot_hands_back:
  assumes c: "fs_contract T" and ok: "vnodes_ok T s" and low: "low s 1" and d: "devs_ok s kds"
  shows "hands_back id T (getroot_from T devname (length kds) i) s"
proof (induction "length kds - i" arbitrary: i)
  case 0
  then show ?case using ok unfolding hands_back_def by (subst getroot_from.simps) (simp add: kept_def)
next
  case (Suc n)
  have h: "holds_list s (knowndevs s) kds" using d by (simp add: devs_ok_def)
  have i: "i < length kds" using Suc.hyps(2) by simp
  define kd where "kd = kds ! i"
  have get: "array_get (knowndevs s) i = Some kd" using array_get_eq [OF h, of i] i by (simp add: kd_def)
  have kd: "0 < vn_refcount s (kd_vnode s kd)" "kd_rawname s kd \<noteq> None \<longrightarrow> kd_device s kd \<noteq> 0"
    "kd_rawname s kd = None \<longrightarrow> kd_fs s kd \<noteq> SWAP_FS \<and> (kd_fs s kd = 0 \<longrightarrow> kd_device s kd \<noteq> 0)"
    using d i by (auto simp: devs_ok_def kd_def)
  have dev: "hands_back id T (\<lambda>s. do { s \<leftarrow> vnode_incref (kd_vnode s kd) s; Some (Inr (kd_vnode s kd), s) }) s"
  proof -
    obtain s' where s': "vnode_incref (kd_vnode s kd) s = Some s'" "vnodes_ok T s'" "balance s s' (one (kd_vnode s kd))" "kept s s'"
        "1 < vn_refcount s' (kd_vnode s kd)" "s' = s\<lparr>vn_refcount := (vn_refcount s)(kd_vnode s kd := vn_refcount s (kd_vnode s kd) + 1)\<rparr>"
      by (rule incref_ok [OF ok kd(1) low])
    then have "kd_vnode s' = kd_vnode s" by simp
    then show ?thesis using s' by (auto simp: hands_back_def droppable_def)
  qed
  have root: "hands_back id T (fsop_getroot (fops T f) f) s" for f using c ok low by (simp add: fs_contract_def)
  have rest: "hands_back id T (getroot_from T devname (length kds) (i + 1)) s" using Suc.hyps by (intro Suc.hyps(1)) simp
  have err: "hands_back id T (\<lambda>s. Some (Inl ENXIO, s)) s" using ok by (simp add: hands_back_def kept_def)
  show ?case
    using i get kd dev root rest err unfolding hands_back_def
    by (subst getroot_from.simps) (auto simp: Let_def)
qed

end
