(* ===== verification/Vfs.thy ===== *)
theory Vfs
  imports Vfslist
begin

text \<open>
  Path names and the operations on them: \<open>kern/vfs/vfslookup.c\<close>, \<open>kern/vfs/vfspath.c\<close> and
  \<open>kern/vfs/vfscwd.c\<close>.  A path is a string value; the C functions destroy the buffer it is passed in.

  The theorems follow the references to vnodes: each operation gives back every reference it takes,
  on every path, errors included, so that only the reference handed to the caller remains.
\<close>

section \<open>The current directory\<close>

definition curproc :: "'a threads_scheme \<Rightarrow> addr" where
  "curproc s = t_proc s (curthread s)"

definition vfs_getcurdir :: "(('d, 'a) vfs_scheme, addr) call" where
  "vfs_getcurdir s = do {
     kassert (curproc s \<noteq> 0);
     let cwd = p_cwd s (curproc s);
     if cwd \<noteq> 0 then do { s \<leftarrow> vnode_incref cwd s; Some (Inr cwd, s) }
     else Some (Inl ENOENT, s) }"

definition S_IFDIR :: nat where
  "S_IFDIR = 8192"  \<comment> \<open>octal 020000\<close>

definition set_cwd :: "('d, 'a) vfs_scheme optables \<Rightarrow> addr \<Rightarrow> ('d, 'a) vfs_scheme \<Rightarrow> ('d, 'a) vfs_scheme option" where
  "set_cwd T dir s = do {
     kassert (curproc s \<noteq> 0);
     let old = p_cwd s (curproc s);
     let s = s\<lparr>p_cwd := (p_cwd s)(curproc s := dir)\<rparr>;
     if old \<noteq> 0 then vnode_decref T old s else Some s }"

definition vfs_setcurdir :: "('d, 'a) vfs_scheme optables \<Rightarrow> addr \<Rightarrow> (('d, 'a) vfs_scheme, unit) call" where
  "vfs_setcurdir T dir = on_ok (VOP T vop_gettype dir) (\<lambda>vtype s.
     if vtype \<noteq> S_IFDIR then Some (Inl ENOTDIR, s)
     else do {
       s \<leftarrow> vnode_incref dir s;
       s \<leftarrow> set_cwd T dir s;
       Some (Inr (), s) })"

definition vfs_clearcurdir :: "('d, 'a) vfs_scheme optables \<Rightarrow> (('d, 'a) vfs_scheme, unit) call" where
  "vfs_clearcurdir T s = do { s \<leftarrow> set_cwd T 0 s; Some (Inr (), s) }"

section \<open>Names\<close>

text \<open>A function that takes the big lock and releases it on every return path.\<close>

definition biglocked :: "(('d, 'a) vfs_scheme \<Rightarrow> ('r \<times> ('d, 'a) vfs_scheme) option) \<Rightarrow> ('d, 'a) vfs_scheme \<Rightarrow> ('r \<times> ('d, 'a) vfs_scheme) option" where
  "biglocked f s = do {
     s \<leftarrow> vfs_biglock_acquire s;
     (r, s) \<leftarrow> f s;
     s \<leftarrow> vfs_biglock_release s;
     Some (r, s) }"

text \<open>The index of the first colon or slash.\<close>

definition first_mark :: "string \<Rightarrow> nat" where
  "first_mark path = length (takeWhile (\<lambda>c. c \<noteq> CHR '':'' \<and> c \<noteq> CHR ''/'') path)"

definition skip_slashes :: "string \<Rightarrow> string" where
  "skip_slashes path = dropWhile (\<lambda>c. c = CHR ''/'') path"

definition getdevice :: "('d, 'a) vfs_scheme optables \<Rightarrow> string \<Rightarrow> (('d, 'a) vfs_scheme, addr \<times> string) call" where
  "getdevice T path s = do {
     biglock_held s;
     if path = [] then Some (Inl EINVAL, s)
     else do {
       let i = first_mark path;
       let colon = (if i < length path \<and> path ! i = CHR '':'' then Some i else None);
       let slash = (if i < length path \<and> path ! i = CHR ''/'' then Some i else None);
       if colon = None \<and> slash \<noteq> Some 0 then on_ok vfs_getcurdir (\<lambda>vn s. Some (Inr (vn, path), s)) s
       else if colon \<noteq> None \<and> the colon > 0 then
         on_ok (vfs_getroot T (take i path)) (\<lambda>vn s. Some (Inr (vn, skip_slashes (drop (i + 1) path)), s)) s
       else do {
         kassert (colon = Some 0 \<or> slash = Some 0);
         on_ok (\<lambda>s.
             if hd path = CHR ''/'' then
               if bootfs_vnode s = 0 then Some (Inl ENOENT, s)
               else do { s \<leftarrow> vnode_incref (bootfs_vnode s) s; Some (Inr (bootfs_vnode s), s) }
             else on_ok vfs_getcurdir (\<lambda>vn s. do {
                 kassert (vn_fs s vn \<noteq> 0);
                 (result, s) \<leftarrow> fsop_getroot (fops T (vn_fs s vn)) (vn_fs s vn) s;
                 s \<leftarrow> vnode_decref T vn s;
                 Some (result, s) }) s)
           (\<lambda>vn s. Some (Inr (vn, skip_slashes (drop 1 path)), s)) s } } }"

definition vfs_lookparent :: "('d, 'a) vfs_scheme optables \<Rightarrow> string \<Rightarrow> nat \<Rightarrow> (('d, 'a) vfs_scheme, addr \<times> string) call" where
  "vfs_lookparent T path buflen = biglocked (on_ok (getdevice T path) (\<lambda>(startvn, path) s. do {
     (result, s) \<leftarrow> (if path = [] then Some (Inl EINVAL, s)
                     else VOP T (\<lambda>ops v. vop_lookparent ops v path buflen) startvn s);
     s \<leftarrow> vnode_decref T startvn s;
     Some (result, s) }))"

definition vfs_lookup :: "('d, 'a) vfs_scheme optables \<Rightarrow> string \<Rightarrow> (('d, 'a) vfs_scheme, addr) call" where
  "vfs_lookup T path = biglocked (on_ok (getdevice T path) (\<lambda>(startvn, path) s.
     if path = [] then Some (Inr startvn, s)
     else do {
       (result, s) \<leftarrow> VOP T (\<lambda>ops v. vop_lookup ops v path) startvn s;
       s \<leftarrow> vnode_decref T startvn s;
       Some (result, s) }))"

definition vfs_chdir :: "('d, 'a) vfs_scheme optables \<Rightarrow> string \<Rightarrow> (('d, 'a) vfs_scheme, unit) call" where
  "vfs_chdir T path = on_ok (vfs_lookup T path) (\<lambda>vn s. do {
     (result, s) \<leftarrow> vfs_setcurdir T vn s;
     s \<leftarrow> vnode_decref T vn s;
     Some (result, s) })"

section \<open>The boot file system\<close>

definition change_bootfs :: "('d, 'a) vfs_scheme optables \<Rightarrow> addr \<Rightarrow> ('d, 'a) vfs_scheme \<Rightarrow> ('d, 'a) vfs_scheme option" where
  "change_bootfs T newvn s = do {
     let oldvn = bootfs_vnode s;
     let s = s\<lparr>bootfs_vnode := newvn\<rparr>;
     if oldvn \<noteq> 0 then vnode_decref T oldvn s else Some s }"

definition NAME_MAX :: nat where
  "NAME_MAX = 255"

text \<open>\<open>s = strchr(tmp, ':')\<close>, so the string at \<open>s\<close> begins with the colon.\<close>

definition vfs_setbootfs :: "('d, 'a) vfs_scheme optables \<Rightarrow> string \<Rightarrow> (('d, 'a) vfs_scheme, unit) call" where
  "vfs_setbootfs T fsname = biglocked (\<lambda>s. do {
     let tmp = take (NAME_MAX + 1 - 1 - 1) fsname;
     let rest = dropWhile (\<lambda>c. c \<noteq> CHR '':'') tmp;
     if rest \<noteq> [] \<and> length rest > 0 then Some (Inl EINVAL, s)
     else on_ok (vfs_chdir T (tmp @ '':'')) (\<lambda>_. on_ok vfs_getcurdir (\<lambda>newguy s. do {
       s \<leftarrow> change_bootfs T newguy s;
       Some (Inr (), s) })) s })"

definition vfs_clearbootfs :: "('d, 'a) vfs_scheme optables \<Rightarrow> ('d, 'a) vfs_scheme \<Rightarrow> (unit \<times> ('d, 'a) vfs_scheme) option" where
  "vfs_clearbootfs T = biglocked (\<lambda>s. do { s \<leftarrow> change_bootfs T 0 s; Some ((), s) })"

section \<open>Operations on paths\<close>

definition O_ACCMODE :: "32 word" where "O_ACCMODE = 3"
definition O_RDONLY :: "32 word" where "O_RDONLY = 0"
definition O_WRONLY :: "32 word" where "O_WRONLY = 1"
definition O_RDWR :: "32 word" where "O_RDWR = 2"
definition O_CREAT :: "32 word" where "O_CREAT = 4"
definition O_EXCL :: "32 word" where "O_EXCL = 8"
definition O_TRUNC :: "32 word" where "O_TRUNC = 16"

text \<open>The end of \<open>vfs_open\<close>, with a vnode in hand.\<close>

definition open_vnode :: "('d, 'a) vfs_scheme optables \<Rightarrow> 32 word \<Rightarrow> bool \<Rightarrow> addr \<Rightarrow> (('d, 'a) vfs_scheme, addr) call" where
  "open_vnode T openflags canwrite vn s = do {
     kassert (vn \<noteq> 0);
     (result, s) \<leftarrow> VOP T (\<lambda>ops v. vop_eachopen ops v openflags) vn s;
     case result of Inl e \<Rightarrow> do { s \<leftarrow> vnode_decref T vn s; Some (Inl e, s) }
     | Inr _ \<Rightarrow>
         if openflags AND O_TRUNC \<noteq> 0 then do {
           (result, s) \<leftarrow> (if \<not> canwrite then Some (Inl EINVAL, s) else VOP T (\<lambda>ops v. vop_truncate ops v 0) vn s);
           case result of Inl e \<Rightarrow> do { s \<leftarrow> vnode_decref T vn s; Some (Inl e, s) } | Inr _ \<Rightarrow> Some (Inr vn, s) }
         else Some (Inr vn, s) }"

definition vfs_open :: "('d, 'a) vfs_scheme optables \<Rightarrow> string \<Rightarrow> 32 word \<Rightarrow> nat \<Rightarrow> (('d, 'a) vfs_scheme, addr) call" where
  "vfs_open T path openflags mode s =
     (let how = openflags AND O_ACCMODE in
      if how \<noteq> O_RDONLY \<and> how \<noteq> O_WRONLY \<and> how \<noteq> O_RDWR then Some (Inl EINVAL, s)
      else
        let canwrite = (how \<noteq> O_RDONLY) in
        on_ok (if openflags AND O_CREAT \<noteq> 0 then
                 let excl = (openflags AND O_EXCL \<noteq> 0) in
                 on_ok (vfs_lookparent T path (NAME_MAX + 1)) (\<lambda>(dir, name) s. do {
                   (result, s) \<leftarrow> VOP T (\<lambda>ops v. vop_creat ops v name excl mode) dir s;
                   s \<leftarrow> vnode_decref T dir s;
                   Some (result, s) })
               else vfs_lookup T path)
          (open_vnode T openflags canwrite) s)"

definition vfs_close :: "('d, 'a) vfs_scheme optables \<Rightarrow> addr \<Rightarrow> ('d, 'a) vfs_scheme \<Rightarrow> ('d, 'a) vfs_scheme option" where
  "vfs_close T vn s = vnode_decref T vn s"

text \<open>The shape of \<open>vfs_remove\<close>, \<open>vfs_mkdir\<close> and the like: an operation on the parent directory.\<close>

definition with_parent :: "('d, 'a) vfs_scheme optables \<Rightarrow> string \<Rightarrow> (('d, 'a) vfs_scheme vnode_ops \<Rightarrow> addr \<Rightarrow> string \<Rightarrow> (('d, 'a) vfs_scheme, unit) call)
    \<Rightarrow> (('d, 'a) vfs_scheme, unit) call" where
  "with_parent T path f = on_ok (vfs_lookparent T path (NAME_MAX + 1)) (\<lambda>(dir, name) s. do {
     (result, s) \<leftarrow> VOP T (\<lambda>ops v. f ops v name) dir s;
     s \<leftarrow> vnode_decref T dir s;
     Some (result, s) })"

definition vfs_remove :: "('d, 'a) vfs_scheme optables \<Rightarrow> string \<Rightarrow> (('d, 'a) vfs_scheme, unit) call" where
  "vfs_remove T path = with_parent T path vop_remove"

definition vfs_symlink :: "('d, 'a) vfs_scheme optables \<Rightarrow> string \<Rightarrow> string \<Rightarrow> (('d, 'a) vfs_scheme, unit) call" where
  "vfs_symlink T contents path = with_parent T path (\<lambda>ops v name. vop_symlink ops v name contents)"

definition vfs_mkdir :: "('d, 'a) vfs_scheme optables \<Rightarrow> string \<Rightarrow> nat \<Rightarrow> (('d, 'a) vfs_scheme, unit) call" where
  "vfs_mkdir T path mode = with_parent T path (\<lambda>ops v name. vop_mkdir ops v name mode)"

definition vfs_rmdir :: "('d, 'a) vfs_scheme optables \<Rightarrow> string \<Rightarrow> (('d, 'a) vfs_scheme, unit) call" where
  "vfs_rmdir T path = with_parent T path vop_rmdir"

definition vfs_readlink :: "('d, 'a) vfs_scheme optables \<Rightarrow> string \<Rightarrow> uio \<Rightarrow> (('d, 'a) vfs_scheme, uio) call" where
  "vfs_readlink T path u = on_ok (vfs_lookup T path) (\<lambda>vn s. do {
     (result, s) \<leftarrow> VOP T (\<lambda>ops v. vop_readlink ops v u) vn s;
     s \<leftarrow> vnode_decref T vn s;
     Some (result, s) })"

text \<open>The shape of \<open>vfs_rename\<close> and \<open>vfs_link\<close>: two vnodes of one file system.\<close>

definition with_two :: "('d, 'a) vfs_scheme optables \<Rightarrow> addr \<Rightarrow> (('d, 'a) vfs_scheme, addr \<times> string) call
    \<Rightarrow> (addr \<Rightarrow> string \<Rightarrow> (('d, 'a) vfs_scheme, unit) call) \<Rightarrow> (('d, 'a) vfs_scheme, unit) call" where
  "with_two T vn1 look2 f s = do {
     (result, s) \<leftarrow> look2 s;
     case result of Inl e \<Rightarrow> do { s \<leftarrow> vnode_decref T vn1 s; Some (Inl e, s) }
     | Inr (vn2, name2) \<Rightarrow> do {
         (result, s) \<leftarrow> (if vn_fs s vn1 = 0 \<or> vn_fs s vn2 = 0 \<or> vn_fs s vn1 \<noteq> vn_fs s vn2 then Some (Inl EXDEV, s)
                         else f vn2 name2 s);
         s \<leftarrow> vnode_decref T vn2 s;
         s \<leftarrow> vnode_decref T vn1 s;
         Some (result, s) } }"

definition vfs_rename :: "('d, 'a) vfs_scheme optables \<Rightarrow> string \<Rightarrow> string \<Rightarrow> (('d, 'a) vfs_scheme, unit) call" where
  "vfs_rename T oldpath newpath = on_ok (vfs_lookparent T oldpath (NAME_MAX + 1)) (\<lambda>(olddir, oldname).
     with_two T olddir (vfs_lookparent T newpath (NAME_MAX + 1))
       (\<lambda>newdir newname. VOP T (\<lambda>ops v. vop_rename ops v oldname newdir newname) olddir))"

definition vfs_link :: "('d, 'a) vfs_scheme optables \<Rightarrow> string \<Rightarrow> string \<Rightarrow> (('d, 'a) vfs_scheme, unit) call" where
  "vfs_link T oldpath newpath = on_ok (vfs_lookup T oldpath) (\<lambda>oldfile.
     with_two T oldfile (vfs_lookparent T newpath (NAME_MAX + 1))
       (\<lambda>newdir newname. VOP T (\<lambda>ops v. vop_link ops v newname oldfile) newdir))"

section \<open>The big lock around a call\<close>

definition entered :: "('d, 'a) vfs_scheme \<Rightarrow> ('d, 'a) vfs_scheme" where
  "entered s = (taken (vfs_biglock s) s)\<lparr>vfs_biglock_depth := 1\<rparr>"

lemma vfs_fields:
  assumes "vnodes.more s1 = vnodes.more s"
  shows "p_cwd s1 = p_cwd s" "bootfs_vnode s1 = bootfs_vnode s" "vfs_biglock s1 = vfs_biglock s"
    "vfs_biglock_depth s1 = vfs_biglock_depth s" "knowndevs s1 = knowndevs s" "kd_vnode s1 = kd_vnode s" "kd_fs s1 = kd_fs s"
    "kd_name s1 = kd_name s" "kd_rawname s1 = kd_rawname s" "kd_device s1 = kd_device s"
  using assms by (cases s; cases s1; simp)+

lemma more_depth:
  "vnodes.more s1 = vnodes.more (s\<lparr>vfs_biglock_depth := e\<rparr>) \<Longrightarrow> vnodes.more (s1\<lparr>vfs_biglock_depth := vfs_biglock_depth s\<rparr>) = vnodes.more s"
  by (cases s; cases s1) simp

lemma same_sync_depth: "same_sync s (s\<lparr>vfs_biglock_depth := e\<rparr>)"
proof -
  let ?s = "s\<lparr>vfs_biglock_depth := e\<rparr>"
  have "?s = s\<lparr>oom := oom s, ticks := ticks s, live := live s, sync.more := sync.more ?s\<rparr>" by (rule sync.equality) simp_all
  then show ?thesis unfolding same_sync_def by blast
qed

lemma vnodes_sel [simp]:
  "vn_refcount (taken l s) = vn_refcount s" "vn_fs (taken l s) = vn_fs s" "vn_ops (taken l s) = vn_ops s" "fs_blocks (taken l s) = fs_blocks s"
  "vn_refcount (dropped l s) = vn_refcount s" "vn_fs (dropped l s) = vn_fs s" "vn_ops (dropped l s) = vn_ops s" "fs_blocks (dropped l s) = fs_blocks s"
  "vnodes.more (taken l s) = vnodes.more s" "vnodes.more (dropped l s) = vnodes.more s"
  by (simp_all add: taken_def dropped_def)

lemma vnodes_ok_cong:
  "live s' = live s \<Longrightarrow> ticks s' = ticks s \<Longrightarrow> fs_blocks s' = fs_blocks s \<Longrightarrow> vn_refcount s' = vn_refcount s \<Longrightarrow> vn_ops s' = vn_ops s \<Longrightarrow>
   vn_fs s' = vn_fs s \<Longrightarrow> vnodes_ok T s' = vnodes_ok T s"
  by (simp add: vnodes_ok_def kmem_ok_def vnode_check_def)

lemma entered_sel [simp]:
  "vn_refcount (entered s) = vn_refcount s" "vn_fs (entered s) = vn_fs s" "vn_ops (entered s) = vn_ops s" "fs_blocks (entered s) = fs_blocks s"
  "live (entered s) = live s" "ticks (entered s) = ticks s" "vfs_biglock (entered s) = vfs_biglock s" "vfs_biglock_depth (entered s) = 1"
  "p_cwd (entered s) = p_cwd s" "bootfs_vnode (entered s) = bootfs_vnode s" "knowndevs (entered s) = knowndevs s"
  "kd_vnode (entered s) = kd_vnode s" "kd_fs (entered s) = kd_fs s" "kd_rawname (entered s) = kd_rawname s" "kd_device (entered s) = kd_device s"
  "low (entered s) n = low s n" "own (entered s) = own s"
  by (simp_all add: entered_def taken_def low_def own_def)

lemma entered_curproc [simp]: "curproc (entered s) = curproc s"
  by (simp add: curproc_def entered_def taken_def)

lemma entered_ok [simp]: "vnodes_ok T (entered s) = vnodes_ok T s"
  by (rule vnodes_ok_cong) simp_all

lemma entered_held: "lock_idle s (vfs_biglock s) \<Longrightarrow> biglock_held (entered s) = Some ()"
  by (simp add: biglock_held_def vfs_biglock_do_i_hold_def lock_do_i_hold_def lock_idle_def entered_def taken_def)

lemma biglock_enter:
  assumes "lock_idle s (vfs_biglock s)" and "vfs_biglock_depth s = 0"
  shows "vfs_biglock_acquire s = Some (entered s)"
  using assms lk.enter [OF assms(1)]
  by (simp add: vfs_biglock_acquire_def lock_do_i_hold_def lock_idle_def entered_def u32_def taken_def)

lemma biglock_leave:
  assumes idle: "lock_idle s (vfs_biglock s)" and d0: "vfs_biglock_depth s = 0" and st: "step T (entered s) s1 d"
  obtains s' where "vfs_biglock_release s1 = Some s'" "step T s s' d" "\<And>v. droppable T s' v = droppable T s1 v"
proof -
  let ?bl = "vfs_biglock s" and ?s2 = "s1\<lparr>vfs_biglock_depth := 0\<rparr>"
  have more: "vnodes.more s1 = vnodes.more (s\<lparr>vfs_biglock_depth := 1\<rparr>)"
    using step_more [OF st] by (cases s) (simp add: entered_def taken_def)
  have f: "vfs_biglock s1 = ?bl" "vfs_biglock_depth s1 = 1" using vfs_fields [OF step_more [OF st]] by simp_all
  have "same_sync (taken ?bl s) s1"
    using same_sync_trans [OF same_sync_depth step_sync [OF st, unfolded entered_def]] .
  from same_sync_trans [OF this same_sync_depth] have ss: "same_sync (taken ?bl s) ?s2" .
  note mine = same_sync_taken [OF idle ss]
  have "lk_holder s1 ?bl = curthread s1" "?bl \<noteq> 0" using mine(1) by (simp_all add: lock_mine_def)
  then have rel: "vfs_biglock_release s1 = Some (dropped ?bl ?s2)"
    using f lk.leave [OF mine(1)] by (simp add: vfs_biglock_release_def lock_do_i_hold_def)
  have "vnodes_ok T (dropped ?bl ?s2) = vnodes_ok T s1" by (rule vnodes_ok_cong) simp_all
  moreover have "vnodes.more (dropped ?bl ?s2) = vnodes.more s" using more_depth [OF more] d0 by simp
  moreover have "own (dropped ?bl ?s2) = own s" using st by (simp add: step_def balance_def own_def)
  ultimately have "step T s (dropped ?bl ?s2) d"
    using st mine(2) by (simp add: step_def balance_def kept_def)
  then show thesis using that rel by (simp add: droppable_def)
qed

lemma biglocked_outcome:
  assumes idle: "lock_idle s (vfs_biglock s)" and d0: "vfs_biglock_depth s = 0" and body: "outcome refs T (entered s) (f (entered s))"
  shows "outcome refs T s (biglocked f s)"
proof -
  obtain r s1 where r: "f (entered s) = Some (r, s1)" and s1: "case r of Inl e \<Rightarrow> step T (entered s) s1 (\<lambda>_. 0)
      | Inr x \<Rightarrow> step T (entered s) s1 (sum_of (refs x)) \<and> (\<forall>v. refs x = Some v \<longrightarrow> droppable T s1 v)"
    using body unfolding outcome_def by blast
  define d where "d = (case r of Inl e \<Rightarrow> (\<lambda>_. 0) | Inr x \<Rightarrow> sum_of (refs x))"
  have d: "step T (entered s) s1 d" using s1 by (cases r) (simp_all add: d_def)
  obtain s' where s': "vfs_biglock_release s1 = Some s'" "step T s s' d" "\<And>v. droppable T s' v = droppable T s1 v"
    using biglock_leave [OF idle d0 d] by blast
  then show ?thesis using r s1 biglock_enter [OF idle d0] by (cases r) (auto simp: biglocked_def outcome_def d_def)
qed

section \<open>References on the way from a name to a vnode\<close>

text \<open>The places that name lookup starts from are in use, and the current directory is no device.\<close>

definition names_ok :: "('d, 'a) vfs_scheme optables \<Rightarrow> ('d, 'a) vfs_scheme \<Rightarrow> addr list \<Rightarrow> bool" where
  "names_ok T s kds \<longleftrightarrow> vnodes_ok T s \<and> devs_ok s kds \<and> a_at (knowndevs s) \<in> own s \<and> (a_v (knowndevs s) = 0 \<or> a_v (knowndevs s) \<in> own s)
     \<and> curproc s \<noteq> 0
     \<and> (p_cwd s (curproc s) = 0 \<or> 0 < vn_refcount s (p_cwd s (curproc s)) \<and> vn_fs s (p_cwd s (curproc s)) \<noteq> 0)
     \<and> (bootfs_vnode s = 0 \<or> 0 < vn_refcount s (bootfs_vnode s))"

definition vfs_ready :: "('d, 'a) vfs_scheme optables \<Rightarrow> ('d, 'a) vfs_scheme \<Rightarrow> addr list \<Rightarrow> bool" where
  "vfs_ready T s kds \<longleftrightarrow> names_ok T s kds \<and> lock_idle s (vfs_biglock s) \<and> vfs_biglock_depth s = 0"

lemma names_entered [simp]: "names_ok T (entered s) kds = names_ok T s kds"
  by (simp add: names_ok_def devs_ok_def holds_list_def kmem_ok_def)

lemma names_step:
  assumes n: "names_ok T s kds" and st: "step T s s1 d" and d: "\<And>v. 0 \<le> d v"
  shows "names_ok T s1 kds"
proof -
  note f = vfs_fields [OF step_more [OF st]]
  have c: "0 < vn_refcount s1 v" if "0 < vn_refcount s v" for v
    using that step_count [OF st, of v] d [of v] by simp
  have k: "vn_fs s1 v = vn_fs s v" if "0 < vn_refcount s v" for v using that c [OF that] stepD(3) [OF st] by (simp add: kept_def)
  have own: "own s1 = own s" using st by (simp add: step_def balance_def)
  have cp: "curproc s1 = curproc s" using same_sync_sel [OF step_sync [OF st]] by (simp add: curproc_def)
  have "kmem_ok s1" using stepD(1) [OF st] by (simp add: vnodes_ok_def)
  then have "holds_list s1 (knowndevs s1) kds"
    using n own unfolding names_ok_def devs_ok_def holds_list_def f(5) own_def by auto
  then show ?thesis using n stepD(1) [OF st] own cp f c k unfolding names_ok_def devs_ok_def by auto
qed

lemma ready_step:
  assumes "vfs_ready T s kds" and "step T s s1 d" and "\<And>v. 0 \<le> d v"
  shows "vfs_ready T s1 kds"
  using assms names_step [OF _ assms(2,3)] vfs_fields [OF step_more [OF assms(2)]] same_sync_sel [OF step_sync [OF assms(2)]]
  by (simp add: vfs_ready_def)

lemma incref_outcome:
  assumes "vnodes_ok T s" and "0 < vn_refcount s v" and "low s 1"
  shows "outcome Some T s (do { s \<leftarrow> vnode_incref v s; Some (Inr v, s) })"
proof -
  obtain s' where "vnode_incref v s = Some s'" "vnodes_ok T s'" "balance s s' (one v)" "kept s s'" "1 < vn_refcount s' v"
    by (rule incref_ok [OF assms])
  then show ?thesis by (auto simp: outcome_def step_def sum_of_def droppable_def)
qed

lemma getcurdir_outcome:
  assumes "names_ok T s kds" and "low s 1"
  shows "outcome Some T s (vfs_getcurdir s)"
proof (cases "p_cwd s (curproc s) = 0")
  case True
  then show ?thesis using assms by (simp add: vfs_getcurdir_def names_ok_def outcome_error)
next
  case False
  then show ?thesis using assms incref_outcome [of T s "p_cwd s (curproc s)"] by (simp add: vfs_getcurdir_def names_ok_def Let_def)
qed

lemma vfs_getroot_outcome:
  assumes c: "fs_contract T" and n: "names_ok T s kds" and low: "low s 1" and h: "biglock_held s = Some ()"
  shows "outcome Some T s (vfs_getroot T dev s)"
proof -
  have "a_num (knowndevs s) = length kds" using n by (simp add: names_ok_def devs_ok_def holds_list_def)
  moreover have "hands_back id T (getroot_from T dev (length kds) 0) s"
    using n by (intro getroot_hands_back [OF c _ low]) (auto simp: names_ok_def)
  ultimately show ?thesis using h by (simp add: vfs_getroot_def array_num_def hands_back_outcome)
qed

lemma getdevice_outcome:
  assumes c: "fs_contract T" and n: "names_ok T s kds" and low: "low s 2" and h: "biglock_held s = Some ()"
  shows "outcome (\<lambda>x. Some (fst x)) T s (getdevice T path s)"
proof (cases "path = []")
  case True
  then show ?thesis using n h by (simp add: getdevice_def names_ok_def outcome_error)
next
  case False
  have ok: "vnodes_ok T s" and low1: "low s 1" using n low by (auto simp: names_ok_def intro: low_mono)
  let ?i = "first_mark path"
  have pair: "outcome (\<lambda>x. Some (fst x)) T s (on_ok f (\<lambda>vn s. Some (Inr (vn, sub), s)) s)" if "outcome Some T s (f s)" for f and sub :: string
    using that by (rule outcome_on_ok) (auto intro: outcome_return)
  have mark: "?i = 0 \<Longrightarrow> path ! 0 = CHR '':'' \<or> path ! 0 = CHR ''/''"
    using False by (cases path) (auto simp: first_mark_def split: if_splits)
  have boot: "outcome Some T s (do { s \<leftarrow> vnode_incref (bootfs_vnode s) s; Some (Inr (bootfs_vnode s), s) })" if "bootfs_vnode s \<noteq> 0"
  proof -
    have "0 < vn_refcount s (bootfs_vnode s)" using n that by (simp add: names_ok_def)
    from incref_outcome [OF ok this low1] show ?thesis by (simp add: vnode_incref_def split: if_splits)
  qed
  have root: "outcome Some T s (on_ok vfs_getcurdir (\<lambda>vn s. do {
      kassert (vn_fs s vn \<noteq> 0);
      (result, s) \<leftarrow> fsop_getroot (fops T (vn_fs s vn)) (vn_fs s vn) s;
      s \<leftarrow> vnode_decref T vn s;
      Some (result, s) }) s)"
  proof (cases "p_cwd s (curproc s) = 0")
    case True
    then show ?thesis using n ok by (simp add: vfs_getcurdir_def on_ok_def names_ok_def outcome_error)
  next
    case False
    let ?c = "p_cwd s (curproc s)"
    have cwd: "0 < vn_refcount s ?c" "vn_fs s ?c \<noteq> 0" "curproc s \<noteq> 0" using n False by (auto simp: names_ok_def)
    obtain s1 where s1: "vnode_incref ?c s = Some s1" "vnodes_ok T s1" "balance s s1 (one ?c)" "kept s s1" "1 < vn_refcount s1 ?c"
        "s1 = s\<lparr>vn_refcount := (vn_refcount s)(?c := vn_refcount s ?c + 1)\<rparr>"
      by (rule incref_ok [OF ok cwd(1) low1])
    have st: "step T s s1 (one ?c)" "droppable T s1 ?c" using s1 by (simp_all add: step_def droppable_def)
    have fs1: "vn_fs s1 = vn_fs s" using s1(6) by simp
    have "low s1 1" using step_low(1) [OF st(1), of 1] low by simp
    then have "outcome Some T s1 (fsop_getroot (fops T (vn_fs s ?c)) (vn_fs s ?c) s1)" using fsop_outcomes [OF c s1(2)] by simp
    from outcome_decref [OF c st this] show ?thesis
      using cwd(2,3) False s1(1) fs1 by (simp add: vfs_getcurdir_def on_ok_def Let_def)
  qed
  have start: "outcome Some T s (if hd path = CHR ''/'' then
      if bootfs_vnode s = 0 then Some (Inl ENOENT, s)
      else do { s \<leftarrow> vnode_incref (bootfs_vnode s) s; Some (Inr (bootfs_vnode s), s) }
    else on_ok vfs_getcurdir (\<lambda>vn s. do {
        kassert (vn_fs s vn \<noteq> 0);
        (result, s) \<leftarrow> fsop_getroot (fops T (vn_fs s vn)) (vn_fs s vn) s;
        s \<leftarrow> vnode_decref T vn s;
        Some (result, s) }) s)"
    using boot root ok by (simp add: outcome_error)
  have p1: "outcome (\<lambda>x. Some (fst x)) T s (on_ok (vfs_getroot T dev) (\<lambda>vn s. Some (Inr (vn, sub), s)) s)" for dev and sub :: string
    by (rule pair [of "vfs_getroot T dev"]) (rule vfs_getroot_outcome [OF c n low1 h])
  have p2: "outcome (\<lambda>x. Some (fst x)) T s (on_ok vfs_getcurdir (\<lambda>vn s. Some (Inr (vn, sub), s)) s)" for sub :: string
    by (rule pair [of vfs_getcurdir]) (rule getcurdir_outcome [OF n low1])
  show ?thesis
    using False h mark p1 p2
      pair [of "\<lambda>s. if hd path = CHR ''/'' then
      if bootfs_vnode s = 0 then Some (Inl ENOENT, s)
      else do { s \<leftarrow> vnode_incref (bootfs_vnode s) s; Some (Inr (bootfs_vnode s), s) }
    else on_ok vfs_getcurdir (\<lambda>vn s. do {
        kassert (vn_fs s vn \<noteq> 0);
        (result, s) \<leftarrow> fsop_getroot (fops T (vn_fs s vn)) (vn_fs s vn) s;
        s \<leftarrow> vnode_decref T vn s;
        Some (result, s) }) s" "skip_slashes (drop 1 path)", OF start]
    unfolding getdevice_def by (auto simp: Let_def)
qed

lemma getdevice_entered:
  assumes "fs_contract T" and "vfs_ready T s kds" and "low s 2"
  shows "outcome (\<lambda>x. Some (fst x)) T (entered s) (getdevice T path (entered s))"
  using assms entered_held [of s] by (intro getdevice_outcome [where kds = kds]) (auto simp: vfs_ready_def)

lemma dropped_pos: "droppable T s v \<Longrightarrow> 0 < vn_refcount s v"
  by (auto simp: droppable_def)

lemma lookup_outcome:
  assumes c: "fs_contract T" and r: "vfs_ready T s kds" and low: "low s 2"
  shows "outcome Some T s (vfs_lookup T path s)"
  unfolding vfs_lookup_def
proof (rule biglocked_outcome)
  show "lock_idle s (vfs_biglock s)" "vfs_biglock_depth s = 0" using r by (simp_all add: vfs_ready_def)
  let ?s = "entered s"
  show "outcome Some T ?s (on_ok (getdevice T path) (\<lambda>(startvn, path) s.
      if path = [] then Some (Inr startvn, s)
      else do {
        (result, s) \<leftarrow> VOP T (\<lambda>ops v. vop_lookup ops v path) startvn s;
        s \<leftarrow> vnode_decref T startvn s;
        Some (result, s) }) ?s)"
  proof (rule outcome_on_ok [where rc = "\<lambda>x. Some (fst x)"])
    show "outcome (\<lambda>x. Some (fst x)) T ?s (getdevice T path ?s)" using c r low by (rule getdevice_entered)
    fix x :: "addr \<times> string" and s1
    assume st: "step T ?s s1 (sum_of (Some (fst x)))" and dr: "\<forall>v. Some (fst x) = Some v \<longrightarrow> droppable T s1 v"
    have st1: "step T ?s s1 (one (fst x))" "droppable T s1 (fst x)" using st dr by (simp_all add: sum_of_def)
    have "low s1 1" using step_low(1) [OF st1(1), of 1] low by simp
    from vop_outcomes(16) [OF c stepD(1) [OF st1(1)] dropped_pos [OF st1(2)] this]
    have "outcome Some T ?s (do { (result, s) \<leftarrow> VOP T (\<lambda>ops v. vop_lookup ops v (snd x)) (fst x) s1; s \<leftarrow> vnode_decref T (fst x) s; Some (result, s) })"
      by (rule outcome_decref [OF c st1])
    then show "outcome Some T ?s ((case x of (startvn, path) \<Rightarrow> \<lambda>s.
        if path = [] then Some (Inr startvn, s)
        else do {
          (result, s) \<leftarrow> VOP T (\<lambda>ops v. vop_lookup ops v path) startvn s;
          s \<leftarrow> vnode_decref T startvn s;
          Some (result, s) }) s1)"
      using st dr by (cases x) (auto intro: outcome_return)
  qed
qed

lemma lookparent_outcome:
  assumes c: "fs_contract T" and r: "vfs_ready T s kds" and low: "low s 2"
  shows "outcome (\<lambda>x. Some (fst x)) T s (vfs_lookparent T path n s)"
  unfolding vfs_lookparent_def
proof (rule biglocked_outcome)
  show "lock_idle s (vfs_biglock s)" "vfs_biglock_depth s = 0" using r by (simp_all add: vfs_ready_def)
  let ?s = "entered s"
  let ?k = "\<lambda>(startvn, path) s. do {
      (result, s) \<leftarrow> (if path = [] then Some (Inl EINVAL, s) else VOP T (\<lambda>ops v. vop_lookparent ops v path n) startvn s);
      s \<leftarrow> vnode_decref T startvn s;
      Some (result, s) }"
  show "outcome (\<lambda>x. Some (fst x)) T ?s (on_ok (getdevice T path) ?k ?s)"
  proof (rule outcome_on_ok [where rc = "\<lambda>x. Some (fst x)"])
    show "outcome (\<lambda>x. Some (fst x)) T ?s (getdevice T path ?s)" using c r low by (rule getdevice_entered)
    fix x :: "addr \<times> string" and s1
    assume st: "step T ?s s1 (sum_of (Some (fst x)))" and dr: "\<forall>v. Some (fst x) = Some v \<longrightarrow> droppable T s1 v"
    have st1: "step T ?s s1 (one (fst x))" "droppable T s1 (fst x)" using st dr by (simp_all add: sum_of_def)
    have ok1: "vnodes_ok T s1" using st1(1) by (rule stepD)
    have "low s1 1" using step_low(1) [OF st1(1), of 1] low by simp
    from vop_outcomes(17) [OF c ok1 dropped_pos [OF st1(2)] this]
    have "outcome (\<lambda>x. Some (fst x)) T s1 (if snd x = [] then Some (Inl EINVAL, s1) else VOP T (\<lambda>ops v. vop_lookparent ops v (snd x) n) (fst x) s1)"
      using ok1 by (simp add: outcome_error)
    from outcome_decref [OF c st1 this] show "outcome (\<lambda>x. Some (fst x)) T ?s (?k x s1)" by (simp add: case_prod_beta)
  qed
qed

text \<open>An operation on a directory or file that was looked up, and the reference given back.\<close>

lemma after_lookup:
  assumes c: "fs_contract T" and look: "outcome (\<lambda>x. Some (node x)) T s (look s)"
    and f: "\<And>x s1. step T s s1 (one (node x)) \<Longrightarrow> droppable T s1 (node x) \<Longrightarrow> vnodes_ok T s1 \<Longrightarrow> outcome refs T s1 (f x s1)"
  shows "outcome refs T s (on_ok look (\<lambda>x s. do { (result, s) \<leftarrow> f x s; s \<leftarrow> vnode_decref T (node x) s; Some (result, s) }) s)"
proof (rule outcome_on_ok [where c = look and rc = "\<lambda>x. Some (node x)", OF look])
  fix x s1
  assume "step T s s1 (sum_of (Some (node x)))" "\<forall>v. Some (node x) = Some v \<longrightarrow> droppable T s1 v"
  then have st: "step T s s1 (one (node x))" "droppable T s1 (node x)" by (simp_all add: sum_of_def)
  show "outcome refs T s (do { (result, s) \<leftarrow> f x s1; s \<leftarrow> vnode_decref T (node x) s; Some (result, s) })"
    by (rule outcome_decref [OF c st f [OF st stepD(1) [OF st(1)]]])
qed

lemma with_parent_outcome:
  assumes c: "fs_contract T" and r: "vfs_ready T s kds" and low: "low s 2"
    and f: "\<And>v n s1. vnodes_ok T s1 \<Longrightarrow> 0 < vn_refcount s1 v \<Longrightarrow> outcome (\<lambda>_. None) T s1 (VOP T (\<lambda>ops v. f ops v n) v s1)"
  shows "outcome (\<lambda>_. None) T s (with_parent T path f s)"
proof -
  have "outcome (\<lambda>_. None) T s (on_ok (vfs_lookparent T path (NAME_MAX + 1)) (\<lambda>x s. do {
      (result, s) \<leftarrow> VOP T (\<lambda>ops v. f ops v (snd x)) (fst x) s;
      s \<leftarrow> vnode_decref T (fst x) s;
      Some (result, s) }) s)"
    by (rule after_lookup [where look = "vfs_lookparent T path (NAME_MAX + 1)", OF c lookparent_outcome [OF c r low]]) (rule f, auto dest: dropped_pos)
  then show ?thesis by (simp add: with_parent_def case_prod_unfold)
qed

lemma parent_ops_outcomes:
  assumes "fs_contract T" and "vfs_ready T s kds" and "low s 2"
  shows "outcome (\<lambda>_. None) T s (vfs_remove T path s)" "outcome (\<lambda>_. None) T s (vfs_rmdir T path s)"
    "outcome (\<lambda>_. None) T s (vfs_mkdir T path mode s)" "outcome (\<lambda>_. None) T s (vfs_symlink T contents path s)"
  unfolding vfs_remove_def vfs_rmdir_def vfs_mkdir_def vfs_symlink_def
  by (rule with_parent_outcome [OF assms]; rule vop_outcomes [OF assms(1)]; assumption)+

lemma readlink_outcome:
  assumes c: "fs_contract T" and "vfs_ready T s kds" and "low s 2" and u: "uio_rw u = UIO_READ"
  shows "outcome (\<lambda>_. None) T s (vfs_readlink T path u s)"
proof -
  have "outcome (\<lambda>_. None) T s (on_ok (vfs_lookup T path) (\<lambda>x s. do {
      (result, s) \<leftarrow> VOP T (\<lambda>ops v. vop_readlink ops v u) x s; s \<leftarrow> vnode_decref T (id x) s; Some (result, s) }) s)"
    using lookup_outcome [OF assms(1-3)]
    by (intro after_lookup [OF c]) (auto intro!: vop_outcomes(3) [OF c] u dest: dropped_pos)
  then show ?thesis by (simp add: vfs_readlink_def)
qed

text \<open>Two vnodes in hand: the second lookup, the operation, and both references given back.\<close>

lemma with_two_outcome:
  assumes c: "fs_contract T" and s1: "step T s s1 (one v)" "droppable T s1 v"
    and look: "outcome (\<lambda>x. Some (fst x)) T s1 (look s1)"
    and f: "\<And>w n s2. vnodes_ok T s2 \<Longrightarrow> 0 < vn_refcount s2 v \<Longrightarrow> 0 < vn_refcount s2 w \<Longrightarrow> outcome (\<lambda>_. None) T s2 (f w n s2)"
  shows "outcome (\<lambda>_. None) T s (with_two T v look f s1)"
proof -
  let ?g = "\<lambda>x s2. if vn_fs s2 v = 0 \<or> vn_fs s2 (fst x) = 0 \<or> vn_fs s2 v \<noteq> vn_fs s2 (fst x) then Some (Inl EXDEV, s2) else f (fst x) (snd x) s2"
  have "outcome (\<lambda>_. None) T s1 (on_ok look (\<lambda>x s. do {
      (result, s) \<leftarrow> ?g x s; s \<leftarrow> vnode_decref T (fst x) s; Some (result, s) }) s1)"
  proof (rule after_lookup [where look = look, OF c look])
    fix x :: "addr \<times> string" and s2
    assume st: "step T s1 s2 (one (fst x))" and dr: "droppable T s2 (fst x)" and ok: "vnodes_ok T s2"
    have "0 < vn_refcount s2 v"
      using step_count [OF st, of v] dropped_pos [OF s1(2)] by (cases "v = fst x") (simp_all add: one_def)
    then show "outcome (\<lambda>_. None) T s2 (?g x s2)" using f ok dropped_pos [OF dr] by (auto intro: outcome_error)
  qed
  from outcome_decref [OF c s1 this]
  have "outcome (\<lambda>_. None) T s (do { (r, s) \<leftarrow> on_ok look (\<lambda>x s. do {
      (result, s) \<leftarrow> ?g x s; s \<leftarrow> vnode_decref T (fst x) s; Some (result, s) }) s1; s \<leftarrow> vnode_decref T v s; Some (r, s) })" .
  moreover have "with_two T v look f s1 = do { (r, s) \<leftarrow> on_ok look (\<lambda>x s. do {
      (result, s) \<leftarrow> ?g x s; s \<leftarrow> vnode_decref T (fst x) s; Some (result, s) }) s1; s \<leftarrow> vnode_decref T v s; Some (r, s) }"
    by (cases "look s1") (auto simp: with_two_def on_ok_def case_prod_unfold split: sum.split)
  ultimately show ?thesis by simp
qed

lemma rename_outcome:
  assumes c: "fs_contract T" and r: "vfs_ready T s kds" and low: "low s 3"
  shows "outcome (\<lambda>_. None) T s (vfs_rename T old new s)"
  unfolding vfs_rename_def
proof (rule outcome_on_ok [where rc = "\<lambda>x. Some (fst x)"])
  show "outcome (\<lambda>x. Some (fst x)) T s (vfs_lookparent T old (NAME_MAX + 1) s)"
    using low by (intro lookparent_outcome [OF c r]) (auto intro: low_mono)
  fix x :: "addr \<times> string" and s1
  assume a: "step T s s1 (sum_of (Some (fst x)))" "\<forall>v. Some (fst x) = Some v \<longrightarrow> droppable T s1 v"
  then have st: "step T s s1 (one (fst x))" "droppable T s1 (fst x)" by (simp_all add: sum_of_def)
  have "vfs_ready T s1 kds" by (rule ready_step [OF r st(1)]) (simp add: one_def)
  moreover have "low s1 2" using step_low(1) [OF st(1), of 2] low by simp
  ultimately have look: "outcome (\<lambda>x. Some (fst x)) T s1 (vfs_lookparent T new (NAME_MAX + 1) s1)" by (rule lookparent_outcome [OF c])
  have "outcome (\<lambda>_. None) T s (with_two T (fst x) (vfs_lookparent T new (NAME_MAX + 1))
      (\<lambda>w n. VOP T (\<lambda>ops v. vop_rename ops v (snd x) w n) (fst x)) s1)"
    by (rule with_two_outcome [where look = "vfs_lookparent T new (NAME_MAX + 1)", OF c st look]) (rule vop_outcomes(14) [OF c])
  then show "outcome (\<lambda>_. None) T s ((case x of (olddir, oldname) \<Rightarrow> with_two T olddir (vfs_lookparent T new (NAME_MAX + 1))
      (\<lambda>newdir newname. VOP T (\<lambda>ops v. vop_rename ops v oldname newdir newname) olddir)) s1)"
    by (simp add: case_prod_unfold)
qed

lemma link_outcome:
  assumes c: "fs_contract T" and r: "vfs_ready T s kds" and low: "low s 3"
  shows "outcome (\<lambda>_. None) T s (vfs_link T old new s)"
  unfolding vfs_link_def
proof (rule outcome_on_ok [where rc = Some])
  show "outcome Some T s (vfs_lookup T old s)"
    using low by (intro lookup_outcome [OF c r]) (auto intro: low_mono)
  fix x s1
  assume a: "step T s s1 (sum_of (Some x))" "\<forall>v. Some x = Some v \<longrightarrow> droppable T s1 v"
  then have st: "step T s s1 (one x)" "droppable T s1 x" by (simp_all add: sum_of_def)
  have "vfs_ready T s1 kds" by (rule ready_step [OF r st(1)]) (simp add: one_def)
  moreover have "low s1 2" using step_low(1) [OF st(1), of 2] low by simp
  ultimately have look: "outcome (\<lambda>x. Some (fst x)) T s1 (vfs_lookparent T new (NAME_MAX + 1) s1)" by (rule lookparent_outcome [OF c])
  show "outcome (\<lambda>_. None) T s (with_two T x (vfs_lookparent T new (NAME_MAX + 1))
      (\<lambda>newdir newname. VOP T (\<lambda>ops v. vop_link ops v newname x) newdir) s1)"
    by (rule with_two_outcome [where look = "vfs_lookparent T new (NAME_MAX + 1)", OF c st look]) (rule vop_outcomes(11) [OF c])
qed

text \<open>Opening.\<close>

lemma open_vnode_outcome:
  assumes c: "fs_contract T" and st: "step T s s1 (one v)" "droppable T s1 v"
  shows "outcome Some T s (open_vnode T fl cw v s1)"
proof -
  have ok1: "vnodes_ok T s1" and pos: "0 < vn_refcount s1 v" using st by (simp_all add: step_def dropped_pos)
  have v0: "v \<noteq> 0" using vnode_checkD [OF ok1 pos] by (auto simp: vnode_check_def split: if_splits)
  have fail: "outcome Some T s (do { s \<leftarrow> vnode_decref T v s2; Some (Inl e, s) })" if "step T s1 s2 (\<lambda>_. 0)" for s2 and e
  proof -
    have "outcome Some T s1 (Some (Inl e, s2))" using that by (simp add: outcome_def)
    from outcome_decref [OF c st this] show ?thesis by simp
  qed
  obtain r s2 where r: "VOP T (\<lambda>ops v. vop_eachopen ops v fl) v s1 = Some (r, s2)" and s2: "step T s1 s2 (\<lambda>_. 0)"
    using vop_outcomes(1) [OF c ok1 pos] unfolding outcome_quiet by blast
  have st2: "step T s s2 (one v)" "droppable T s2 v" using step_one_0 [OF st(1) s2] step_droppable [OF st(2) s2] by simp_all
  have ok2: "vnodes_ok T s2" and pos2: "0 < vn_refcount s2 v" using st2 by (simp_all add: step_def dropped_pos)
  show ?thesis
  proof (cases r)
    case (Inl e)
    then show ?thesis using fail [OF s2] v0 r by (simp add: open_vnode_def)
  next
    case (Inr x)
    show ?thesis
    proof (cases "fl AND O_TRUNC = 0")
      case True
      then show ?thesis using Inr v0 r st2 by (auto simp: open_vnode_def sum_of_def intro!: outcome_return)
    next
      case False
      obtain r3 s3 where r3: "(if \<not> cw then Some (Inl EINVAL, s2) else VOP T (\<lambda>ops v. vop_truncate ops v 0) v s2) = Some (r3, s3)"
        and s3: "step T s2 s3 (\<lambda>_. 0)"
        using vop_outcomes(7) [OF c ok2 pos2, of 0] step_refl [OF ok2] unfolding outcome_quiet by (cases cw) auto
      have "step T s s3 (one v)" "droppable T s3 v" using step_one_0 [OF st2(1) s3] step_droppable [OF st2(2) s3] by simp_all
      then have "outcome Some T s (Some (Inr v, s3))" by (auto simp: sum_of_def intro: outcome_return)
      then show ?thesis using False Inr v0 r r3 fail [OF step_0 [OF s2 s3]] by (cases r3) (simp_all add: open_vnode_def)
    qed
  qed
qed

lemma open_outcome:
  assumes c: "fs_contract T" and r: "vfs_ready T s kds" and low: "low s 2"
  shows "outcome Some T s (vfs_open T path fl mode s)"
proof -
  have ok: "vnodes_ok T s" using r by (simp add: vfs_ready_def names_ok_def)
  let ?excl = "fl AND O_EXCL \<noteq> 0"
  have "outcome Some T s (on_ok (vfs_lookparent T path (NAME_MAX + 1)) (\<lambda>x s. do {
      (result, s) \<leftarrow> VOP T (\<lambda>ops v. vop_creat ops v (snd x) ?excl mode) (fst x) s;
      s \<leftarrow> vnode_decref T (fst x) s;
      Some (result, s) }) s)"
  proof (rule after_lookup [where look = "vfs_lookparent T path (NAME_MAX + 1)", OF c lookparent_outcome [OF c r low]])
    fix x :: "addr \<times> string" and s1
    assume st: "step T s s1 (one (fst x))" and dr: "droppable T s1 (fst x)" and ok1: "vnodes_ok T s1"
    have "low s1 1" using step_low(1) [OF st, of 1] low by simp
    then show "outcome Some T s1 (VOP T (\<lambda>ops v. vop_creat ops v (snd x) ?excl mode) (fst x) s1)"
      by (rule vop_outcomes(15) [OF c ok1 dropped_pos [OF dr]])
  qed
  moreover define L where "L = on_ok (vfs_lookparent T path (NAME_MAX + 1)) (\<lambda>(dir, name) s. do {
      (result, s) \<leftarrow> VOP T (\<lambda>ops v. vop_creat ops v name ?excl mode) dir s;
      s \<leftarrow> vnode_decref T dir s;
      Some (result, s) })"
  ultimately have creat: "outcome Some T s (L s)" by (simp add: case_prod_unfold)
  have end_: "outcome Some T s (on_ok look (open_vnode T fl cw) s)" if "outcome Some T s (look s)" for look cw
    using that by (rule outcome_on_ok) (simp add: sum_of_def open_vnode_outcome [OF c])
  show ?thesis
    unfolding vfs_open_def Let_def L_def [symmetric]
    using end_ [of L, OF creat] end_ [of "vfs_lookup T path", OF lookup_outcome [OF c r low]] ok by (simp add: outcome_error)
qed

end
