(* ===== verification/Device.thy ===== *)
theory Device
  imports Vfs "HOL-Library.Signed_Division"
begin

text \<open>
  Vnodes of devices: \<open>kern/vfs/device.c\<close>, the failing operations of \<open>kern/vfs/vfsfail.c\<close> and the null
  device of \<open>kern/vfs/devnull.c\<close>.  The device structures do not change once they are attached, so the
  structure at an address is given by an argument \<open>D\<close>; the device of a vnode is its \<open>vn_data\<close>.

  The locale \<open>drivers\<close> is the contract of a device driver.  Under it, the operations of device vnodes
  meet the contract of \<open>Vnode\<close>; the null device is a driver, which gives a machine with devices to
  which the theorems about path names apply.
\<close>

section \<open>Devices\<close>

text \<open>An operation that leaves its uio advanced, also when it fails.\<close>

type_synonym ('s, 'r) uio_call = "uio \<Rightarrow> 's \<Rightarrow> ((errno + 'r) \<times> uio \<times> 's) option"

record 's device_ops =
  devop_eachopen :: "addr \<Rightarrow> 32 word \<Rightarrow> ('s, unit) call"
  devop_io :: "addr \<Rightarrow> ('s, unit) uio_call"
  devop_ioctl :: "addr \<Rightarrow> int \<Rightarrow> addr \<Rightarrow> ('s, unit) call"

record 's device =
  d_ops :: "'s device_ops"
  d_blocks :: nat
  d_blocksize :: nat
  d_number :: nat

type_synonym 's devices = "addr \<Rightarrow> 's device"

definition O_APPEND :: "32 word" where "O_APPEND = 32"
definition S_IFCHR :: nat where "S_IFCHR = 24576"  \<comment> \<open>octal 060000\<close>
definition S_IFBLK :: nat where "S_IFBLK = 28672"  \<comment> \<open>octal 070000\<close>

definition dev_eachopen :: "('d, 'a) vnodes_scheme devices \<Rightarrow> addr \<Rightarrow> 32 word \<Rightarrow> (('d, 'a) vnodes_scheme, unit) call" where
  "dev_eachopen D v flags s =
     (let d = vn_data s v in
      if flags AND (O_CREAT OR O_TRUNC OR O_EXCL OR O_APPEND) \<noteq> 0 then Some (Inl EINVAL, s)
      else devop_eachopen (d_ops (D d)) d flags s)"

definition dev_reclaim :: "addr \<Rightarrow> (('d, 'a) vnodes_scheme, unit) call" where
  "dev_reclaim v s = Some (Inr (), s)"

text \<open>Remainder and quotient are those of C, which truncate towards zero; division by zero stops the machine.\<close>

definition dev_tryseek :: "'s device \<Rightarrow> int \<Rightarrow> (errno + unit) option" where
  "dev_tryseek d pos =
     (if d_blocks d > 0 then do {
        kassert (d_blocksize d \<noteq> 0);
        if pos smod int (d_blocksize d) \<noteq> 0 then Some (Inl EINVAL)
        else if pos sdiv int (d_blocksize d) \<ge> int (d_blocks d) then Some (Inl EINVAL)
        else Some (Inr ()) }
      else Some (Inr ()))"

text \<open>The callers of a vnode operation look at the uio only when it has succeeded.\<close>

definition io_call :: "('s, 'r) uio_call \<Rightarrow> uio \<Rightarrow> ('s, uio) call" where
  "io_call f u s = do { (r, u, s) \<leftarrow> f u s; Some (map_sum id (\<lambda>_. u) r, s) }"

definition dev_read :: "('d, 'a) vnodes_scheme devices \<Rightarrow> addr \<Rightarrow> uio \<Rightarrow> (('d, 'a) vnodes_scheme, uio) call" where
  "dev_read D v u s =
     (let d = vn_data s v in do {
        result \<leftarrow> dev_tryseek (D d) (uio_offset u);
        case result of
          Inl e \<Rightarrow> Some (Inl e, s)
        | Inr _ \<Rightarrow> do { kassert (uio_rw u = UIO_READ); io_call (devop_io (d_ops (D d)) d) u s } })"

definition dev_write :: "('d, 'a) vnodes_scheme devices \<Rightarrow> addr \<Rightarrow> uio \<Rightarrow> (('d, 'a) vnodes_scheme, uio) call" where
  "dev_write D v u s =
     (let d = vn_data s v in do {
        result \<leftarrow> dev_tryseek (D d) (uio_offset u);
        case result of
          Inl e \<Rightarrow> Some (Inl e, s)
        | Inr _ \<Rightarrow> do { kassert (uio_rw u = UIO_WRITE); io_call (devop_io (d_ops (D d)) d) u s } })"

definition dev_ioctl :: "('d, 'a) vnodes_scheme devices \<Rightarrow> addr \<Rightarrow> int \<Rightarrow> addr \<Rightarrow> (('d, 'a) vnodes_scheme, unit) call" where
  "dev_ioctl D v op data s = (let d = vn_data s v in devop_ioctl (d_ops (D d)) d op data s)"

definition dev_gettype :: "('d, 'a) vnodes_scheme devices \<Rightarrow> addr \<Rightarrow> (('d, 'a) vnodes_scheme, nat) call" where
  "dev_gettype D v s = Some (Inr (if d_blocks (D (vn_data s v)) > 0 then S_IFBLK else S_IFCHR), s)"

text \<open>
  The product of the two 32-bit fields is taken in 32 bits; \<open>VOP_GETTYPE\<close> of a device vnode is
  \<open>dev_gettype\<close>; 384 is octal 0600.
\<close>

definition dev_stat :: "('d, 'a) vnodes_scheme devices \<Rightarrow> addr \<Rightarrow> (('d, 'a) vnodes_scheme, stat) call" where
  "dev_stat D v s =
     (let d = D (vn_data s v);
          buf = \<lparr>st_size = 0, st_mode = 0, st_nlink = 0, st_blocks = 0, st_blksize = 0, st_dev = 0, st_rdev = 0\<rparr>;
          buf = (if d_blocks d > 0
                 then buf\<lparr>st_size := int (u32 (d_blocks d * d_blocksize d)), st_blksize := d_blocksize d\<rparr>
                 else buf\<lparr>st_size := 0\<rparr>)
      in on_ok (dev_gettype D v) (\<lambda>mode s.
           Some (Inr (buf\<lparr>st_mode := or mode 384, st_nlink := 1, st_blocks := d_blocks d, st_dev := 0, st_rdev := d_number d\<rparr>), s)) s)"

definition dev_isseekable :: "('d, 'a) vnodes_scheme devices \<Rightarrow> addr \<Rightarrow> ('d, 'a) vnodes_scheme \<Rightarrow> bool" where
  "dev_isseekable D v s = (if d_blocks (D (vn_data s v)) = 0 then False else True)"

definition null_fsync :: "addr \<Rightarrow> (('d, 'a) vnodes_scheme, unit) call" where
  "null_fsync v s = Some (Inr (), s)"

definition dev_mmap :: "addr \<Rightarrow> (('d, 'a) vnodes_scheme, unit) call" where
  "dev_mmap v s = Some (Inl ENOSYS, s)"

definition dev_truncate :: "('d, 'a) vnodes_scheme devices \<Rightarrow> addr \<Rightarrow> int \<Rightarrow> (('d, 'a) vnodes_scheme, unit) call" where
  "dev_truncate D v len s =
     (let d = D (vn_data s v) in
      if d_blocks d > 0 \<and> int (u32 (d_blocks d * d_blocksize d)) = len then Some (Inr (), s)
      else Some (Inl EINVAL, s))"

definition dev_namefile :: "addr \<Rightarrow> uio \<Rightarrow> (('d, 'a) vnodes_scheme, uio) call" where
  "dev_namefile v u s = Some (Inr u, s)"

definition dev_lookup :: "addr \<Rightarrow> string \<Rightarrow> (('d, 'a) vnodes_scheme, addr) call" where
  "dev_lookup dir pathname s =
     (if length pathname > 0 then Some (Inl ENOENT, s)
      else do { s \<leftarrow> vnode_incref dir s; Some (Inr dir, s) })"

section \<open>Operations that fail\<close>

definition vopfail_uio_notdir :: "addr \<Rightarrow> uio \<Rightarrow> ('s, uio) call" where
  "vopfail_uio_notdir v u s = Some (Inl ENOTDIR, s)"

definition vopfail_uio_inval :: "addr \<Rightarrow> uio \<Rightarrow> ('s, uio) call" where
  "vopfail_uio_inval v u s = Some (Inl EINVAL, s)"

definition vopfail_creat_notdir :: "addr \<Rightarrow> string \<Rightarrow> bool \<Rightarrow> nat \<Rightarrow> ('s, addr) call" where
  "vopfail_creat_notdir v name excl mode s = Some (Inl ENOTDIR, s)"

definition vopfail_symlink_notdir :: "addr \<Rightarrow> string \<Rightarrow> string \<Rightarrow> ('s, unit) call" where
  "vopfail_symlink_notdir v contents name s = Some (Inl ENOTDIR, s)"

definition vopfail_mkdir_notdir :: "addr \<Rightarrow> string \<Rightarrow> nat \<Rightarrow> ('s, unit) call" where
  "vopfail_mkdir_notdir v name mode s = Some (Inl ENOTDIR, s)"

definition vopfail_link_notdir :: "addr \<Rightarrow> string \<Rightarrow> addr \<Rightarrow> ('s, unit) call" where
  "vopfail_link_notdir v name file s = Some (Inl ENOTDIR, s)"

definition vopfail_string_notdir :: "addr \<Rightarrow> string \<Rightarrow> ('s, unit) call" where
  "vopfail_string_notdir v name s = Some (Inl ENOTDIR, s)"

definition vopfail_rename_notdir :: "addr \<Rightarrow> string \<Rightarrow> addr \<Rightarrow> string \<Rightarrow> ('s, unit) call" where
  "vopfail_rename_notdir v name w name2 s = Some (Inl ENOTDIR, s)"

definition vopfail_lookparent_notdir :: "addr \<Rightarrow> string \<Rightarrow> nat \<Rightarrow> ('s, addr \<times> string) call" where
  "vopfail_lookparent_notdir v path buflen s = Some (Inl ENOTDIR, s)"

definition dev_vnode_ops :: "('d, 'a) vnodes_scheme devices \<Rightarrow> ('d, 'a) vnodes_scheme vnode_ops" where
  "dev_vnode_ops D = \<lparr>
     vop_magic = VOP_MAGIC,
     vop_eachopen = dev_eachopen D,
     vop_reclaim = dev_reclaim,
     vop_read = dev_read D,
     vop_readlink = vopfail_uio_inval,
     vop_write = dev_write D,
     vop_stat = dev_stat D,
     vop_gettype = dev_gettype D,
     vop_isseekable = dev_isseekable D,
     vop_truncate = dev_truncate D,
     vop_namefile = dev_namefile,
     vop_creat = vopfail_creat_notdir,
     vop_symlink = vopfail_symlink_notdir,
     vop_mkdir = vopfail_mkdir_notdir,
     vop_link = vopfail_link_notdir,
     vop_remove = vopfail_string_notdir,
     vop_rmdir = vopfail_string_notdir,
     vop_rename = vopfail_rename_notdir,
     vop_lookup = dev_lookup,
     vop_lookparent = vopfail_lookparent_notdir\<rparr>"

text \<open>The vnode of a device; \<open>ops\<close> is the address of the table.\<close>

definition dev_create_vnode :: "addr \<Rightarrow> addr \<Rightarrow> ('d, 'a) vnodes_scheme \<Rightarrow> (addr \<times> ('d, 'a) vnodes_scheme) option" where
  "dev_create_vnode ops dev s = (let (v, s) = kmalloc s in
     if v = 0 then Some (0, s) else do { s \<leftarrow> vnode_init v ops 0 dev s; Some (v, s) })"

definition dev_uncreate_vnode :: "addr \<Rightarrow> addr \<Rightarrow> ('d, 'a) vnodes_scheme \<Rightarrow> ('d, 'a) vnodes_scheme option" where
  "dev_uncreate_vnode ops vn s = do {
     kassert (vn_ops s vn = ops);
     s \<leftarrow> vnode_cleanup vn s;
     kfree vn s }"

section \<open>The null device\<close>

definition nullopen :: "addr \<Rightarrow> 32 word \<Rightarrow> ('s, unit) call" where
  "nullopen dev flags s = Some (Inr (), s)"

definition nullio :: "addr \<Rightarrow> ('s, unit) uio_call" where
  "nullio dev u s = Some (Inr (), if uio_rw u = UIO_WRITE then u\<lparr>uio_resid := 0\<rparr> else u, s)"

definition nullioctl :: "addr \<Rightarrow> int \<Rightarrow> addr \<Rightarrow> ('s, unit) call" where
  "nullioctl dev op data s = Some (Inl EINVAL, s)"

definition null_devops :: "'s device_ops" where
  "null_devops = \<lparr>devop_eachopen = nullopen, devop_io = nullio, devop_ioctl = nullioctl\<rparr>"

text \<open>What \<open>devnull_create\<close> attaches.\<close>

definition null_device :: "'s device" where
  "null_device = \<lparr>d_ops = null_devops, d_blocks = 0, d_blocksize = 1, d_number = 0\<rparr>"

section \<open>The contract of a driver\<close>

locale drivers =
  fixes T :: "('d, 'a) vnodes_scheme optables" and D :: "('d, 'a) vnodes_scheme devices"
  assumes open_quiet: "vnodes_ok T s \<Longrightarrow> quiet T (devop_eachopen (d_ops (D d)) d fl) s"
    and io_quiet: "vnodes_ok T s \<Longrightarrow> quiet T (io_call (devop_io (d_ops (D d)) d) u) s"
    and blocks: "0 < d_blocks (D d) \<Longrightarrow> 0 < d_blocksize (D d)"
begin

lemma returns: "vnodes_ok T s \<Longrightarrow> quiet T (\<lambda>s. Some (r, s)) s"
  by (simp add: quiet_def kept_def)

lemma fails: "vnodes_ok T s \<Longrightarrow> hands_back node T (\<lambda>s. Some (Inl e, s)) s"
  by (simp add: hands_back_def kept_def)

lemma seek_returns: "\<exists>r. dev_tryseek (D d) pos = Some r"
  using blocks [of d] by (simp add: dev_tryseek_def)

lemma io:
  assumes ok: "vnodes_ok T s"
  shows "uio_rw u = UIO_READ \<Longrightarrow> quiet T (dev_read D v u) s" "uio_rw u = UIO_WRITE \<Longrightarrow> quiet T (dev_write D v u) s"
proof -
  obtain r where r: "dev_tryseek (D (vn_data s v)) (uio_offset u) = Some r" using seek_returns by blast
  show "uio_rw u = UIO_READ \<Longrightarrow> quiet T (dev_read D v u) s"
    using r returns [OF ok] io_quiet [OF ok, of "vn_data s v" u] by (cases r) (simp_all add: quiet_def dev_read_def Let_def)
  show "uio_rw u = UIO_WRITE \<Longrightarrow> quiet T (dev_write D v u) s"
    using r returns [OF ok] io_quiet [OF ok, of "vn_data s v" u] by (cases r) (simp_all add: quiet_def dev_write_def Let_def)
qed

lemma lookup:
  assumes ok: "vnodes_ok T s" and v: "0 < vn_refcount s v" and low: "low s 1"
  shows "hands_back id T (dev_lookup v p) s"
proof (cases "length p > 0")
  case True
  then show ?thesis using ok by (simp add: hands_back_def dev_lookup_def kept_def)
next
  case False
  obtain s' where "vnode_incref v s = Some s'" "vnodes_ok T s'" "balance s s' (one v)" "kept s s'" "1 < vn_refcount s' v"
    by (rule incref_ok [OF ok v low])
  then show ?thesis using False by (simp add: hands_back_def dev_lookup_def droppable_def)
qed

lemma dev_contract:
  assumes ok: "vnodes_ok T s" and v: "0 < vn_refcount s v" and ops: "vn_ops s v = dev_ops T"
  shows "vop_contract T (dev_vnode_ops D) v s"
proof -
  have e: "quiet T (dev_eachopen D v fl) s" for fl
    using returns [OF ok] open_quiet [OF ok, of "vn_data s v" fl] by (simp add: quiet_def dev_eachopen_def Let_def)
  have st: "quiet T (dev_stat D v) s" "quiet T (dev_gettype D v) s" "quiet T (dev_truncate D v n) s" for n
    using returns [OF ok] by (simp_all add: quiet_def dev_stat_def dev_gettype_def dev_truncate_def on_ok_def Let_def)
  show ?thesis
    unfolding vop_contract_def
    using e io [OF ok] st lookup [OF ok v] returns [OF ok] ok ops
    by (simp add: fails [OF ok] dev_vnode_ops_def vopfail_uio_inval_def [abs_def] vopfail_creat_notdir_def [abs_def] vopfail_symlink_notdir_def [abs_def]
        vopfail_mkdir_notdir_def [abs_def] vopfail_link_notdir_def [abs_def] vopfail_string_notdir_def [abs_def]
        vopfail_rename_notdir_def [abs_def] vopfail_lookparent_notdir_def [abs_def] dev_namefile_def [abs_def] dev_reclaim_def quiet_def)
qed

end

section \<open>A machine with the null device\<close>

text \<open>Only device vnodes have a table that \<open>vnode_check\<close> accepts; there is no file system.\<close>

definition device_tables :: "('d, 'a) vnodes_scheme devices \<Rightarrow> ('d, 'a) vnodes_scheme optables" where
  "device_tables D = \<lparr>
     vops = (\<lambda>a. if a = 9 then dev_vnode_ops D else (dev_vnode_ops D)\<lparr>vop_magic := 0\<rparr>),
     dev_ops = 9,
     fops = (\<lambda>f. \<lparr>fsop_sync = \<lambda>f s. Some (Inl ENOSYS, s), fsop_getvolname = \<lambda>f s. None,
       fsop_getroot = \<lambda>f s. Some (Inl ENOSYS, s), fsop_unmount = \<lambda>f s. Some (Inl ENOSYS, s)\<rparr>)\<rparr>"

interpretation null: drivers "device_tables (\<lambda>_. null_device)" "\<lambda>_. null_device"
  by unfold_locales (simp_all add: null_device_def null_devops_def nullopen_def [abs_def] nullio_def io_call_def quiet_def kept_def)

lemma null_contract: "fs_contract (device_tables (\<lambda>_. null_device :: ('d, 'a) vnodes_scheme device))"
proof -
  let ?T = "device_tables (\<lambda>_. null_device :: ('d, 'a) vnodes_scheme device)"
  have "vop_contract ?T (vops ?T (vn_ops s v)) v s" if ok: "vnodes_ok ?T s" and v: "0 < vn_refcount s v" for s :: "('d, 'a) vnodes_scheme" and v
  proof -
    have "vop_magic (vops ?T (vn_ops s v)) = VOP_MAGIC" using vnode_checkD [OF ok v] unfolding vnode_check_def by (auto split: if_splits)
    then have "vn_ops s v = 9" by (simp add: device_tables_def VOP_MAGIC_def split: if_splits)
    then show ?thesis using null.dev_contract [OF ok v] by (simp add: device_tables_def)
  qed
  moreover have "quiet ?T (fsop_sync (fops ?T f) f) s \<and> quiet ?T (fsop_unmount (fops ?T f) f) s \<and> hands_back id ?T (fsop_getroot (fops ?T f) f) s"
    if ok: "vnodes_ok ?T s" for s :: "('d, 'a) vnodes_scheme" and f
    using ok by (simp add: device_tables_def quiet_def hands_back_def kept_def)
  ultimately show ?thesis unfolding fs_contract_def by blast
qed

section \<open>References and path names\<close>

text \<open>A machine with the null device: vnode 22, table slot 21, device structure 23.\<close>

definition boot_vfs :: "unit vfs" where
  "boot_vfs = (vnodes.extend (sync.extend boot_sync
       (vnodes.fields (\<lambda>v. if v = 22 then 1 else 0) (\<lambda>_. 0) (\<lambda>_. 23) (\<lambda>v. if v = 22 then 9 else 0) () {}
       \<lparr>bytes = \<lambda>_. 0, readable = \<lambda>_. True, writable = \<lambda>_. True, tm_badfaultfunc = False, current_as = 0\<rparr>))
     (vfs.fields (\<lambda>_. 0) 0 40 0 \<lparr>a_at = 24, a_v = 25, a_num = 1, a_max = 4, a_cells = [Some 21, None, None, None]\<rparr>
       (\<lambda>_. ''null'') (\<lambda>_. None) (\<lambda>_. 23) (\<lambda>_. 22) (\<lambda>_. 0) (\<lambda>_. 1)))\<lparr>t_proc := \<lambda>_. 30\<rparr>"

lemma boot_vfs_sel:
  "vn_refcount boot_vfs v = (if v = 22 then 1 else 0)" "vn_fs boot_vfs v = 0" "vn_ops boot_vfs v = (if v = 22 then 9 else 0)"
  "fs_blocks boot_vfs = {}" "live boot_vfs = {10..50}" "ticks boot_vfs = 50" "p_cwd boot_vfs p = 0" "bootfs_vnode boot_vfs = 0"
  "vfs_biglock boot_vfs = 40" "vfs_biglock_depth boot_vfs = 0" "t_proc boot_vfs t = 30"
  "knowndevs boot_vfs = \<lparr>a_at = 24, a_v = 25, a_num = 1, a_max = 4, a_cells = [Some 21, None, None, None]\<rparr>"
  "kd_vnode boot_vfs k = 22" "kd_fs boot_vfs k = 0" "kd_name boot_vfs k = ''null''" "kd_rawname boot_vfs k = None" "kd_device boot_vfs k = 23"
  by (simp_all add: boot_vfs_def vnodes.defs sync.defs vfs.defs boot_fields)

lemma boot_vfs_idle: "l \<noteq> 0 \<Longrightarrow> lock_idle boot_vfs l"
  using boot_lock_idle [of l "sync.more boot_vfs"]
  by (subst lock_idle_cong [of boot_vfs "sync.extend boot_sync (sync.more boot_vfs)"]) (simp_all add: boot_vfs_def vnodes.defs sync.defs vfs.defs)

lemma boot_vfs_ready: "vfs_ready (device_tables (\<lambda>_. null_device)) boot_vfs [21]"
  by (auto simp: vfs_ready_def names_ok_def vnodes_ok_def devs_ok_def holds_list_def kmem_ok_def vnode_check_def own_def curproc_def
      boot_vfs_sel boot_vfs_idle SWAP_FS_def deadbeef_def device_tables_def dev_vnode_ops_def)

lemma boot_vfs_low: "n \<le> 100 \<Longrightarrow> low boot_vfs n"
  by (simp add: low_def boot_vfs_sel)

text \<open>
  C32: Given operations that keep the contract of \<open>vnode.h\<close>, \<open>vfs_open\<close>, \<open>vfs_lookup\<close> and
  \<open>vfs_lookparent\<close> never panic.  When they succeed, exactly one reference more exists than before,
  the one to the vnode they return, which the caller can give back; when they fail, at whichever
  step, the reference counts, locks and kernel memory are as before.
\<close>

theorem vfs_open_references:
  assumes "fs_contract T" and "vfs_ready T s kds" and "low s 2"
  shows "outcome Some T s (vfs_open T path fl mode s)
    \<and> outcome Some T s (vfs_lookup T path s)
    \<and> outcome (\<lambda>x. Some (fst x)) T s (vfs_lookparent T path n s)"
  using open_outcome [OF assms] lookup_outcome [OF assms] lookparent_outcome [OF assms] by blast

theorem vfs_open_references_witness:
  "outcome Some (device_tables (\<lambda>_. null_device)) boot_vfs (vfs_open (device_tables (\<lambda>_. null_device)) ''null:'' O_WRONLY 0 boot_vfs)"
  using vfs_open_references [OF null_contract boot_vfs_ready boot_vfs_low] by simp

text \<open>
  C33: The operations that only pass through vnodes (remove, rmdir, mkdir, symlink, readlink, rename
  and link) return on every path with all reference counts, locks and kernel memory as they were;
  rename and link also when the two names lie on different file systems.
\<close>

theorem vfs_operations_balance:
  assumes "fs_contract T" and "vfs_ready T s kds" and "low s 3" and "uio_rw u = UIO_READ"
  shows "outcome (\<lambda>_. None) T s (vfs_remove T path s) \<and> outcome (\<lambda>_. None) T s (vfs_rmdir T path s)
    \<and> outcome (\<lambda>_. None) T s (vfs_mkdir T path mode s) \<and> outcome (\<lambda>_. None) T s (vfs_symlink T contents path s)
    \<and> outcome (\<lambda>_. None) T s (vfs_readlink T path u s)
    \<and> outcome (\<lambda>_. None) T s (vfs_rename T path path2 s) \<and> outcome (\<lambda>_. None) T s (vfs_link T path path2 s)"
proof -
  have "low s 2" using assms(3) by (rule low_mono) simp
  then show ?thesis
    using parent_ops_outcomes [OF assms(1,2)] readlink_outcome [OF assms(1,2) _ assms(4)] rename_outcome [OF assms(1-3)] link_outcome [OF assms(1-3)]
    by blast
qed

theorem vfs_operations_balance_witness:
  "outcome (\<lambda>_. None) (device_tables (\<lambda>_. null_device)) boot_vfs (vfs_rename (device_tables (\<lambda>_. null_device)) ''null:a'' ''null:b'' boot_vfs)"
  using vfs_operations_balance [OF null_contract boot_vfs_ready boot_vfs_low, of 
      "\<lparr>uio_iov = [], uio_offset = 0, uio_resid = 0, uio_segflg = UIO_SYSSPACE, uio_rw = UIO_READ, uio_space = 0\<rparr>"] by simp

text \<open>
  C34: On a block device, the positions accepted for reading and writing are exactly the block-aligned
  ones before the end of the device; negative aligned positions are among them, so the callers have to
  keep offsets nonnegative.  The reported size, and the only length \<open>dev_truncate\<close> accepts, is the
  size of the device reduced to 32 bits.
\<close>

theorem device_bounds:
  assumes "0 < d_blocks (D (vn_data s v))" and "0 < d_blocksize (D (vn_data s v))"
  shows "(dev_tryseek (D (vn_data s v)) pos = Some (Inr ())
      \<longleftrightarrow> int (d_blocksize (D (vn_data s v))) dvd pos \<and> pos < int (d_blocks (D (vn_data s v)) * d_blocksize (D (vn_data s v))))
    \<and> (\<exists>st. dev_stat D v s = Some (Inr st, s)
         \<and> st_size st = int (d_blocks (D (vn_data s v)) * d_blocksize (D (vn_data s v))) mod 4294967296
         \<and> (dev_truncate D v len s = Some (Inr (), s) \<longleftrightarrow> len = st_size st))"
proof -
  let ?d = "D (vn_data s v)"
  let ?b = "int (d_blocksize ?d)"
  have b: "0 < ?b" using assms(2) by simp
  have sm: "pos smod ?b = 0 \<longleftrightarrow> ?b dvd pos" using b by (auto simp: smod_int_alt_def sgn_if dvd_eq_mod_eq_0 [symmetric])
  have sd: "pos sdiv ?b = k" if "pos = ?b * k" for k
    using that b by (auto simp: signed_divide_int_def sgn_mult abs_mult sgn_if zero_less_mult_iff)
  have "dev_tryseek ?d pos = Some (Inr ()) \<longleftrightarrow> ?b dvd pos \<and> pos < int (d_blocks ?d * d_blocksize ?d)"
  proof (cases "?b dvd pos")
    case True
    then obtain k where k: "pos = ?b * k" by (auto simp: dvd_def)
    have "pos < int (d_blocks ?d) * ?b \<longleftrightarrow> k < int (d_blocks ?d)" using b by (simp add: k mult.commute)
    then show ?thesis using True assms sm sd [OF k] by (simp add: dev_tryseek_def not_le)
  next
    case False
    then show ?thesis using assms sm by (simp add: dev_tryseek_def)
  qed
  then show ?thesis using assms by (auto simp: dev_stat_def dev_gettype_def on_ok_def dev_truncate_def u32_def of_nat_mod Let_def)
qed

theorem device_bounds_witness:
  "dev_tryseek \<lparr>d_ops = null_devops :: unit vfs device_ops, d_blocks = 8, d_blocksize = 512, d_number = 2\<rparr> 3584 = Some (Inr ())"
  using device_bounds [of "\<lambda>_. \<lparr>d_ops = null_devops, d_blocks = 8, d_blocksize = 512, d_number = 2\<rparr>" boot_vfs 22 3584, THEN conjunct1] by simp

end
