(* ===== verification/Shared_Buffer.thy ===== *)
theory Shared_Buffer
  imports Critical
begin

text \<open>
  The bounded buffer of \<open>kern/shared_buffer/shared_buffer.c\<close>.  The ring of characters is a record of
  its own, so that its two operations can be used at two levels: in the functions of the C file, over
  the locks and condition variables of \<open>Synch\<close>, and in a step relation over any number of producing
  and consuming threads, where a turn of a thread in the lock is one step.

  The theorems: the ring is a queue; what is consumed is what was produced, in order, in every
  interleaving; and no thread is left asleep while there is something to do for it and nobody else
  awake to do it.
\<close>

section \<open>The ring\<close>

record ring =
  cells :: "char list"
  r_in :: int
  r_out :: int
  r_count :: int
  r_size :: int

text \<open>An access outside the block stops the machine.\<close>

definition ring_put :: "char \<Rightarrow> ring \<Rightarrow> ring option" where
  "ring_put c r = do {
     kassert (0 \<le> r_in r \<and> r_in r < int (length (cells r)));
     Some (r\<lparr>cells := (cells r)[nat (r_in r) := c], r_in := (r_in r + 1) mod r_size r, r_count := s32 (r_count r + 1)\<rparr>) }"

definition ring_take :: "ring \<Rightarrow> (char \<times> ring) option" where
  "ring_take r = do {
     kassert (0 \<le> r_out r \<and> r_out r < int (length (cells r)));
     Some (cells r ! nat (r_out r), r\<lparr>r_out := (r_out r + 1) mod r_size r, r_count := s32 (r_count r - 1)\<rparr>) }"

section \<open>The operations\<close>

record buffers = sync +
  b_buffer :: "addr \<Rightarrow> addr"     \<comment> \<open>the block of the cells\<close>
  b_ring :: "addr \<Rightarrow> ring"
  b_lock :: "addr \<Rightarrow> addr"
  b_producer :: "addr \<Rightarrow> addr"
  b_consumer :: "addr \<Rightarrow> addr"

text \<open>The error paths give the memory of the lock and of the condition variable to \<open>kfree\<close>.\<close>

definition shared_buffer_create :: "int \<Rightarrow> 'a buffers_scheme \<Rightarrow> (addr \<times> 'a buffers_scheme) option" where
  "shared_buffer_create sz s = do {
     let (b, s) = kmalloc s;
     if b = 0 then Some (0, s)
     else do {
       let (block, s) = kmalloc s;
       let s = s\<lparr>b_buffer := (b_buffer s)(b := block)\<rparr>;
       if block = 0 then do { s \<leftarrow> kfree b s; Some (0, s) }
       else do {
         (lock, s) \<leftarrow> lock_create s;
         let s = s\<lparr>b_lock := (b_lock s)(b := lock)\<rparr>;
         if lock = 0 then do { s \<leftarrow> kfree block s; s \<leftarrow> kfree b s; Some (0, s) }
         else do {
           (cvp, s) \<leftarrow> cv_create True s;
           let s = s\<lparr>b_producer := (b_producer s)(b := cvp)\<rparr>;
           if cvp = 0 then do { s \<leftarrow> kfree block s; s \<leftarrow> kfree lock s; s \<leftarrow> kfree b s; Some (0, s) }
           else do {
             (cvc, s) \<leftarrow> cv_create True s;
             let s = s\<lparr>b_consumer := (b_consumer s)(b := cvc)\<rparr>;
             if cvc = 0 then do { s \<leftarrow> kfree block s; s \<leftarrow> kfree lock s; s \<leftarrow> kfree cvp s; s \<leftarrow> kfree b s; Some (0, s) }
             else Some (b, s\<lparr>b_ring := (b_ring s)(b :=
               \<lparr>cells = replicate (nat sz) CHR 0x00, r_in = 0, r_out = 0, r_count = 0, r_size = sz\<rparr>)\<rparr>) } } } } }"

definition shared_buffer_destroy :: "addr \<Rightarrow> 'a buffers_scheme \<Rightarrow> 'a buffers_scheme option" where
  "shared_buffer_destroy b s = do {
     kassert (b \<noteq> 0);
     s \<leftarrow> kfree (b_buffer s b) s;
     s \<leftarrow> lock_destroy (b_lock s b) s;
     kfree b s }"

text \<open>
  The loop and the rest of \<open>shared_buffer_produce\<close>, with the lock held.  The result \<open>False\<close> says that
  the thread went to sleep in \<open>cv_wait\<close>; when it is woken and has the lock again it comes back here.
\<close>

definition produce_loop :: "addr \<Rightarrow> char \<Rightarrow> 'a buffers_scheme \<Rightarrow> (bool \<times> 'a buffers_scheme) option" where
  "produce_loop b input s =
     (if r_size (b_ring s b) = r_count (b_ring s b) then do {
        s \<leftarrow> cv_wait (b_producer s b) (b_lock s b) s;
        Some (False, s) }
      else do {
        r \<leftarrow> ring_put input (b_ring s b);
        let s = s\<lparr>b_ring := (b_ring s)(b := r)\<rparr>;
        s \<leftarrow> cv_signal (b_consumer s b) (b_lock s b) s;
        s \<leftarrow> lock_release (b_lock s b) s;
        Some (True, s) })"

definition shared_buffer_produce :: "addr \<Rightarrow> char \<Rightarrow> 'a buffers_scheme \<Rightarrow> (bool \<times> 'a buffers_scheme) option" where
  "shared_buffer_produce b input s = do {
     kassert (b \<noteq> 0);
     s \<leftarrow> lock_now (b_lock s b) s;
     produce_loop b input s }"

definition consume_loop :: "addr \<Rightarrow> 'a buffers_scheme \<Rightarrow> (char option \<times> 'a buffers_scheme) option" where
  "consume_loop b s =
     (if r_count (b_ring s b) = 0 then do {
        s \<leftarrow> cv_wait (b_consumer s b) (b_lock s b) s;
        Some (None, s) }
      else do {
        (result, r) \<leftarrow> ring_take (b_ring s b);
        let s = s\<lparr>b_ring := (b_ring s)(b := r)\<rparr>;
        s \<leftarrow> cv_signal (b_producer s b) (b_lock s b) s;
        s \<leftarrow> lock_release (b_lock s b) s;
        Some (Some result, s) })"

definition shared_buffer_consume :: "addr \<Rightarrow> 'a buffers_scheme \<Rightarrow> (char option \<times> 'a buffers_scheme) option" where
  "shared_buffer_consume b s = do {
     kassert (b \<noteq> 0);
     s \<leftarrow> lock_now (b_lock s b) s;
     consume_loop b s }"

section \<open>The ring is a queue\<close>

definition ring_ok :: "ring \<Rightarrow> bool" where
  "ring_ok r \<longleftrightarrow> 0 < r_size r \<and> r_size r < 2147483648 \<and> int (length (cells r)) = r_size r \<and> 0 \<le> r_out r \<and> r_out r < r_size r
     \<and> 0 \<le> r_count r \<and> r_count r \<le> r_size r \<and> r_in r = (r_out r + r_count r) mod r_size r"

definition contents :: "ring \<Rightarrow> string" where
  "contents r = map (\<lambda>i. cells r ! nat ((r_out r + int i) mod r_size r)) [0..<nat (r_count r)]"

lemma length_contents: "ring_ok r \<Longrightarrow> int (length (contents r)) = r_count r"
  by (simp add: contents_def ring_ok_def)

lemma ring_put_contents:
  assumes ok: "ring_ok r" and room: "r_count r \<noteq> r_size r"
  obtains r' where "ring_put c r = Some r'" "ring_ok r'" "contents r' = contents r @ [c]" "r_size r' = r_size r"
proof -
  let ?n = "nat (r_count r)"
  define r' where "r' = r\<lparr>cells := (cells r)[nat (r_in r) := c], r_in := (r_in r + 1) mod r_size r, r_count := r_count r + 1\<rparr>"
  have b: "0 < r_size r" "0 \<le> r_count r" "r_count r < r_size r" "r_size r < 2147483648" "r_in r = (r_out r + r_count r) mod r_size r"
    "0 \<le> r_out r" "r_out r < r_size r" "int (length (cells r)) = r_size r"
    using ok room by (auto simp: ring_ok_def)
  then have i: "0 \<le> r_in r" "r_in r < r_size r" by simp_all
  have "s32 (r_count r + 1) = r_count r + 1" using b by (intro s32_id) auto
  then have put: "ring_put c r = Some r'" using i b by (simp add: ring_put_def r'_def)
  have "(r_in r + 1) mod r_size r = (r_out r + (r_count r + 1)) mod r_size r"
    by (simp add: b(5) mod_add_left_eq add.assoc)
  then have ok': "ring_ok r'" using b by (simp add: ring_ok_def r'_def)
  have other: "nat ((r_out r + int k) mod r_size r) \<noteq> nat (r_in r)" if "k < ?n" for k
  proof
    assume "nat ((r_out r + int k) mod r_size r) = nat (r_in r)"
    then have "(r_out r + int k) mod r_size r = (r_out r + r_count r) mod r_size r" using i b by (simp add: nat_eq_iff)
    then have "r_size r dvd (r_out r + r_count r) - (r_out r + int k)" by (metis mod_eq_dvd_iff)
    then have "r_size r dvd r_count r - int k" by simp
    then have "r_size r \<le> r_count r - int k" using that by (intro zdvd_imp_le) auto
    then show False using b that by linarith
  qed
  have n: "nat (r_count r + 1) = Suc ?n" using b by simp
  have "nat ((r_out r + int ?n) mod r_size r) = nat (r_in r)" using b by simp
  moreover have "nat (r_in r) < length (cells r)" using i b(8) by (simp only: nat_less_iff)
  ultimately have "contents r' = contents r @ [c]"
    using not_sym [OF other] by (auto simp: contents_def r'_def n)
  then show thesis using that put ok' by (simp add: r'_def)
qed

lemma ring_take_contents:
  assumes ok: "ring_ok r" and some: "r_count r \<noteq> 0"
  obtains c r' where "ring_take r = Some (c, r')" "ring_ok r'" "contents r = c # contents r'" "r_size r' = r_size r"
proof -
  define r' where "r' = r\<lparr>r_out := (r_out r + 1) mod r_size r, r_count := r_count r - 1\<rparr>"
  have b: "0 < r_size r" "0 < r_count r" "r_count r \<le> r_size r" "r_size r < 2147483648" "r_in r = (r_out r + r_count r) mod r_size r"
    "0 \<le> r_out r" "r_out r < r_size r" "int (length (cells r)) = r_size r"
    using ok some by (auto simp: ring_ok_def)
  have "s32 (r_count r - 1) = r_count r - 1" using b by (intro s32_id) auto
  then have take: "ring_take r = Some (cells r ! nat (r_out r), r')" using b by (simp add: ring_take_def r'_def)
  have e: "((r_out r + 1) mod r_size r + k) mod r_size r = (r_out r + (1 + k)) mod r_size r" for k
    by (simp add: mod_add_left_eq add.assoc)
  have ok': "ring_ok r'" using b e [of "r_count r - 1"] by (simp add: ring_ok_def r'_def)
  have n: "nat (r_count r) = Suc (nat (r_count r - 1))" using b by simp
  have "contents r = cells r ! nat (r_out r) # contents r'"
    using b unfolding contents_def n map_upt_Suc by (simp add: r'_def e add.assoc del: map_upt_Suc)
  then show thesis using that take ok' by (simp add: r'_def)
qed

section \<open>The operations on a quiet buffer\<close>

definition buffer_ready :: "'a buffers_scheme \<Rightarrow> addr \<Rightarrow> bool" where
  "buffer_ready s b \<longleftrightarrow> b \<noteq> 0 \<and> lock_idle s (b_lock s b) \<and> b_producer s b \<noteq> 0 \<and> b_consumer s b \<noteq> 0
     \<and> on_list s (Wchan (cv_wchan s (b_producer s b))) [] \<and> on_list s (Wchan (cv_wchan s (b_consumer s b))) []
     \<and> ring_ok (b_ring s b)"

lemma ring_upd_lists [simp]: "on_list (s\<lparr>b_ring := f\<rparr>) l ts = on_list s l ts"
  by (rule on_list_cong) simp_all

lemma ring_upd_idle [simp]: "lock_idle (s\<lparr>b_ring := f\<rparr>) l = lock_idle s l"
  by (rule lock_idle_cong) simp_all

lemma buffer_ready_ring: "buffer_ready s b \<Longrightarrow> ring_ok r \<Longrightarrow> buffer_ready (s\<lparr>b_ring := (b_ring s)(b := r)\<rparr>) b"
  by (simp add: buffer_ready_def)

text \<open>The end of both functions: nobody waits on the condition variable, and the lock is given back.\<close>

lemma signal_release:
  assumes "lock_idle s l" and "cv \<noteq> 0" and "on_list s (Wchan (cv_wchan s cv)) []"
  shows "cv_signal cv l (taken l s) = Some (taken l s)" "lock_release l (taken l s) = Some s"
proof -
  have "on_list (taken l s) (Wchan (cv_wchan s cv)) []" using assms(3) on_list_cong [of "taken l s" s] by (simp add: taken_def)
  then show "cv_signal cv l (taken l s) = Some (taken l s)"
    using assms by (simp add: cv_signal_def lock_do_i_hold_def wchan_wakeone_def remhead_empty lock_idle_def taken_def)
  show "lock_release l (taken l s) = Some s"
    using lk.leave [OF lk.mine_take [OF assms(1)]] lk.drop_take [OF assms(1)] by simp
qed

lemma buffer_taken [simp]: "b_ring (taken l s) = b_ring s" "b_lock (taken l s) = b_lock s" "b_producer (taken l s) = b_producer s"
  "b_consumer (taken l s) = b_consumer s" "(taken l s)\<lparr>b_ring := f\<rparr> = taken l (s\<lparr>b_ring := f\<rparr>)"
  by (simp_all add: taken_def)

lemma produce_eq:
  assumes r: "buffer_ready s b" and room: "r_count (b_ring s b) \<noteq> r_size (b_ring s b)" and put: "ring_put c (b_ring s b) = Some r'"
  shows "shared_buffer_produce b c s = Some (True, s\<lparr>b_ring := (b_ring s)(b := r')\<rparr>)"
proof -
  let ?s = "s\<lparr>b_ring := (b_ring s)(b := r')\<rparr>"
  have e: "lock_now (b_lock s b) s = Some (taken (b_lock s b) s)" using r by (simp add: buffer_ready_def lk.enter)
  have i: "lock_idle ?s (b_lock s b)" using r by (simp add: buffer_ready_def)
  have "cv_signal (b_consumer s b) (b_lock s b) (taken (b_lock s b) ?s) = Some (taken (b_lock s b) ?s)"
    using r by (intro signal_release [OF i]) (simp_all add: buffer_ready_def)
  moreover have "lock_release (b_lock s b) (taken (b_lock s b) ?s) = Some ?s"
    using r by (intro signal_release [OF i, of "b_consumer s b"]) (simp_all add: buffer_ready_def)
  ultimately show ?thesis
    using room put r e unfolding shared_buffer_produce_def produce_loop_def by (auto simp: buffer_ready_def)
qed

lemma consume_eq:
  assumes r: "buffer_ready s b" and some: "r_count (b_ring s b) \<noteq> 0" and take: "ring_take (b_ring s b) = Some (c, r')"
  shows "shared_buffer_consume b s = Some (Some c, s\<lparr>b_ring := (b_ring s)(b := r')\<rparr>)"
proof -
  let ?s = "s\<lparr>b_ring := (b_ring s)(b := r')\<rparr>"
  have e: "lock_now (b_lock s b) s = Some (taken (b_lock s b) s)" using r by (simp add: buffer_ready_def lk.enter)
  have i: "lock_idle ?s (b_lock s b)" using r by (simp add: buffer_ready_def)
  have "cv_signal (b_producer s b) (b_lock s b) (taken (b_lock s b) ?s) = Some (taken (b_lock s b) ?s)"
    using r by (intro signal_release [OF i]) (simp_all add: buffer_ready_def)
  moreover have "lock_release (b_lock s b) (taken (b_lock s b) ?s) = Some ?s"
    using r by (intro signal_release [OF i, of "b_producer s b"]) (simp_all add: buffer_ready_def)
  ultimately show ?thesis
    using some take r e unfolding shared_buffer_consume_def consume_loop_def by (auto simp: buffer_ready_def)
qed

text \<open>
  The caller has gone to sleep on the condition variable \<open>cv\<close> of the buffer \<open>b\<close>: in terms of the scheduler's
  queues \<open>Q\<close> of the threads \<open>Th\<close>.
\<close>

definition asleep_on :: "addr \<Rightarrow> addr \<Rightarrow> thread set \<Rightarrow> (tlist \<Rightarrow> thread list) \<Rightarrow> 'a buffers_scheme \<Rightarrow> 'a buffers_scheme \<Rightarrow> bool" where
  "asleep_on cv b Th Q s s' \<longleftrightarrow> b_ring s' = b_ring s \<and> b_lock s' = b_lock s \<and> b_producer s' = b_producer s \<and> b_consumer s' = b_consumer s
     \<and> b_buffer s' = b_buffer s \<and> lk_available s' (b_lock s b) \<and> lk_holder s' (b_lock s b) = 0
     \<and> sched_ok s' Th (switched (Wchan (cv_wchan s cv)) (curthread s) (curcpu s) Q)"

lemma same_env_buffers:
  assumes "same_env s s'"
  shows "b_ring s' = b_ring s" "b_lock s' = b_lock s" "b_producer s' = b_producer s" "b_consumer s' = b_consumer s" "b_buffer s' = b_buffer s"
  using assms by (cases s, cases s', simp add: same_env_def)+

lemma sleeps_on:
  assumes r: "buffer_ready s b" and cv: "cv \<noteq> 0" and th: "sched_ok s Th Q" "\<not> c_isidle s (curcpu s)"
  obtains s' where "cv_wait cv (b_lock s b) (taken (b_lock s b) s) = Some s'" "asleep_on cv b Th Q s s'"
proof -
  let ?l = "b_lock s b"
  have l: "lock_idle s ?l" using r by (simp add: buffer_ready_def)
  obtain s' where s': "wchan_sleep (cv_wchan s cv) s = Some s'" "sched_ok s' Th (switched (Wchan (cv_wchan s cv)) (curthread s) (curcpu s) Q)" "same_env s s'"
    by (rule sleep_sched [OF th]) (rule that)
  have h: "lk_holder (taken ?l s) ?l = curthread s" "curthread (taken ?l s) = curthread s" "?l \<noteq> 0" using l by (simp_all add: taken_def lock_idle_def)
  have "lock_release ?l (taken ?l s) = Some s" using lk.leave [OF lk.mine_take [OF l]] lk.drop_take [OF l] by simp
  then have "cv_wait cv ?l (taken ?l s) = Some s'" using s'(1) cv h by (simp add: cv_wait_def lock_do_i_hold_def)
  moreover have "asleep_on cv b Th Q s s'"
    using s'(2) same_env_sync [OF s'(3)] same_env_buffers [OF s'(3)] l by (simp add: asleep_on_def lock_idle_def)
  ultimately show thesis by (rule that)
qed

lemma produce_sleeps:
  assumes r: "buffer_ready s b" and full: "r_count (b_ring s b) = r_size (b_ring s b)"
  shows "\<forall>Th Q. sched_ok s Th Q \<and> \<not> c_isidle s (curcpu s) \<longrightarrow>
    (\<exists>s'. shared_buffer_produce b c s = Some (False, s') \<and> asleep_on (b_producer s b) b Th Q s s')"
proof (intro allI impI; elim conjE)
  fix Th Q assume th: "sched_ok s Th Q" "\<not> c_isidle s (curcpu s)"
  have b: "b \<noteq> 0" "b_producer s b \<noteq> 0" "lock_idle s (b_lock s b)" using r by (simp_all add: buffer_ready_def)
  obtain s' where "cv_wait (b_producer s b) (b_lock s b) (taken (b_lock s b) s) = Some s'" "asleep_on (b_producer s b) b Th Q s s'"
    by (rule sleeps_on [OF r b(2) th])
  then show "\<exists>s'. shared_buffer_produce b c s = Some (False, s') \<and> asleep_on (b_producer s b) b Th Q s s'"
    using full b lk.enter [OF b(3)] by (simp add: shared_buffer_produce_def produce_loop_def)
qed

lemma consume_sleeps:
  assumes r: "buffer_ready s b" and empty: "r_count (b_ring s b) = 0"
  shows "\<forall>Th Q. sched_ok s Th Q \<and> \<not> c_isidle s (curcpu s) \<longrightarrow>
    (\<exists>s'. shared_buffer_consume b s = Some (None, s') \<and> asleep_on (b_consumer s b) b Th Q s s')"
proof (intro allI impI; elim conjE)
  fix Th Q assume th: "sched_ok s Th Q" "\<not> c_isidle s (curcpu s)"
  have b: "b \<noteq> 0" "b_consumer s b \<noteq> 0" "lock_idle s (b_lock s b)" using r by (simp_all add: buffer_ready_def)
  obtain s' where "cv_wait (b_consumer s b) (b_lock s b) (taken (b_lock s b) s) = Some s'" "asleep_on (b_consumer s b) b Th Q s s'"
    by (rule sleeps_on [OF r b(2) th])
  then show "\<exists>s'. shared_buffer_consume b s = Some (None, s') \<and> asleep_on (b_consumer s b) b Th Q s s'"
    using empty b lk.enter [OF b(3)] by (simp add: shared_buffer_consume_def consume_loop_def)
qed

section \<open>Producers and consumers\<close>

text \<open>
  Any number of threads.  A thread in \<open>m_producing\<close> is in \<open>shared_buffer_produce\<close> and awake: it is on
  its way into the lock.  A turn is what it does from taking the lock to leaving it, in
  \<open>lock_release\<close> or in \<open>cv_wait\<close>; the lock makes turns exclude each other.  \<open>m_produced\<close> and
  \<open>m_consumed\<close> record the characters in the order of the turns.
\<close>

record monitor =
  m_ring :: ring
  m_input :: "thread \<Rightarrow> char"
  m_producing :: "thread set"
  m_consuming :: "thread set"
  m_psleep :: "thread list"
  m_csleep :: "thread list"
  m_produced :: string
  m_consumed :: string

text \<open>\<open>cv_signal\<close> wakes the first sleeper, if there is one.\<close>

definition signal_consumer :: "monitor \<Rightarrow> monitor" where
  "signal_consumer m = (case m_csleep m of [] \<Rightarrow> m | t # ts \<Rightarrow> m\<lparr>m_csleep := ts, m_consuming := insert t (m_consuming m)\<rparr>)"

definition signal_producer :: "monitor \<Rightarrow> monitor" where
  "signal_producer m = (case m_psleep m of [] \<Rightarrow> m | t # ts \<Rightarrow> m\<lparr>m_psleep := ts, m_producing := insert t (m_producing m)\<rparr>)"

definition produce_turn :: "thread \<Rightarrow> monitor \<Rightarrow> monitor option" where
  "produce_turn t m =
     (let m' = m\<lparr>m_producing := m_producing m - {t}\<rparr> in
      if r_size (m_ring m) = r_count (m_ring m) then Some (m'\<lparr>m_psleep := m_psleep m @ [t]\<rparr>)
      else do {
        r \<leftarrow> ring_put (m_input m t) (m_ring m);
        Some (signal_consumer (m'\<lparr>m_ring := r, m_produced := m_produced m @ [m_input m t]\<rparr>)) })"

definition consume_turn :: "thread \<Rightarrow> monitor \<Rightarrow> monitor option" where
  "consume_turn t m =
     (let m' = m\<lparr>m_consuming := m_consuming m - {t}\<rparr> in
      if r_count (m_ring m) = 0 then Some (m'\<lparr>m_csleep := m_csleep m @ [t]\<rparr>)
      else do {
        (c, r) \<leftarrow> ring_take (m_ring m);
        Some (signal_producer (m'\<lparr>m_ring := r, m_consumed := m_consumed m @ [c]\<rparr>)) })"

definition inside :: "monitor \<Rightarrow> thread set" where
  "inside m = m_producing m \<union> m_consuming m \<union> set (m_psleep m) \<union> set (m_csleep m)"

inductive buffer_step :: "monitor \<Rightarrow> monitor \<Rightarrow> bool" where
  call_produce: "t \<notin> inside m \<Longrightarrow> buffer_step m (m\<lparr>m_input := (m_input m)(t := c), m_producing := insert t (m_producing m)\<rparr>)"
| call_consume: "t \<notin> inside m \<Longrightarrow> buffer_step m (m\<lparr>m_consuming := insert t (m_consuming m)\<rparr>)"
| produce: "t \<in> m_producing m \<Longrightarrow> produce_turn t m = Some m' \<Longrightarrow> buffer_step m m'"
| consume: "t \<in> m_consuming m \<Longrightarrow> consume_turn t m = Some m' \<Longrightarrow> buffer_step m m'"

definition monitor_ok :: "monitor \<Rightarrow> bool" where
  "monitor_ok m \<longleftrightarrow> ring_ok (m_ring m) \<and> m_produced m = m_consumed m @ contents (m_ring m)
     \<and> finite (m_producing m) \<and> finite (m_consuming m) \<and> distinct (m_psleep m) \<and> distinct (m_csleep m)
     \<and> m_producing m \<inter> m_consuming m = {} \<and> set (m_psleep m) \<inter> set (m_csleep m) = {}
     \<and> (m_producing m \<union> m_consuming m) \<inter> (set (m_psleep m) \<union> set (m_csleep m)) = {}"

text \<open>The wake-ups are enough: every free place, and every character, has an awake thread for it.\<close>

definition wakeups_ok :: "monitor \<Rightarrow> bool" where
  "wakeups_ok m \<longleftrightarrow> (m_psleep m \<noteq> [] \<longrightarrow> r_size (m_ring m) - r_count (m_ring m) \<le> int (card (m_producing m)))
     \<and> (m_csleep m \<noteq> [] \<longrightarrow> r_count (m_ring m) \<le> int (card (m_consuming m)))"

lemma produce_turn_ok:
  assumes ok: "monitor_ok m" "wakeups_ok m" and t: "t \<in> m_producing m"
  obtains m' where "produce_turn t m = Some m'" "monitor_ok m'" "wakeups_ok m'"
proof (cases "r_size (m_ring m) = r_count (m_ring m)")
  case True
  then show thesis using that [of "m\<lparr>m_producing := m_producing m - {t}, m_psleep := m_psleep m @ [t]\<rparr>"] ok t
    by (auto simp: produce_turn_def monitor_ok_def wakeups_ok_def)
next
  case False
  have r: "ring_ok (m_ring m)" and fin: "finite (m_producing m)" "finite (m_consuming m)" using ok by (auto simp: monitor_ok_def)
  obtain r' where r': "ring_put (m_input m t) (m_ring m) = Some r'" "ring_ok r'" "contents r' = contents (m_ring m) @ [m_input m t]"
      "r_size r' = r_size (m_ring m)"
    using ring_put_contents [OF r] False by metis
  have n: "r_count r' = r_count (m_ring m) + 1"
    using length_contents [OF r'(2)] length_contents [OF r] r'(3) by simp
  have c: "int (card (m_producing m - {t})) = int (card (m_producing m)) - 1"
    using t fin card_gt_0_iff [of "m_producing m"] by (auto simp: card_Diff_singleton of_nat_diff)
  let ?m = "m\<lparr>m_producing := m_producing m - {t}, m_ring := r', m_produced := m_produced m @ [m_input m t]\<rparr>"
  have "monitor_ok (signal_consumer ?m)"
    using ok(1) r' by (cases "m_csleep m") (auto simp: monitor_ok_def signal_consumer_def)
  moreover have "wakeups_ok (signal_consumer ?m)"
  proof (cases "m_csleep m")
    case Nil
    then show ?thesis using ok(2) r'(4) n c by (auto simp: wakeups_ok_def signal_consumer_def)
  next
    case (Cons u us)
    then have "card (insert u (m_consuming m)) = card (m_consuming m) + 1" using ok(1) fin by (auto simp: monitor_ok_def)
    then show ?thesis using Cons ok(2) r'(4) n c by (auto simp: wakeups_ok_def signal_consumer_def)
  qed
  ultimately show thesis using that r' False by (simp add: produce_turn_def)
qed

lemma consume_turn_ok:
  assumes ok: "monitor_ok m" "wakeups_ok m" and t: "t \<in> m_consuming m"
  obtains m' where "consume_turn t m = Some m'" "monitor_ok m'" "wakeups_ok m'"
proof (cases "r_count (m_ring m) = 0")
  case True
  then show thesis using that [of "m\<lparr>m_consuming := m_consuming m - {t}, m_csleep := m_csleep m @ [t]\<rparr>"] ok t
    by (auto simp: consume_turn_def monitor_ok_def wakeups_ok_def)
next
  case False
  have r: "ring_ok (m_ring m)" and fin: "finite (m_producing m)" "finite (m_consuming m)" using ok by (auto simp: monitor_ok_def)
  obtain c r' where r': "ring_take (m_ring m) = Some (c, r')" "ring_ok r'" "contents (m_ring m) = c # contents r'"
      "r_size r' = r_size (m_ring m)"
    using ring_take_contents [OF r] False by metis
  have n: "r_count r' = r_count (m_ring m) - 1"
    using length_contents [OF r'(2)] length_contents [OF r] r'(3) by simp
  have c: "int (card (m_consuming m - {t})) = int (card (m_consuming m)) - 1"
    using t fin card_gt_0_iff [of "m_consuming m"] by (auto simp: card_Diff_singleton of_nat_diff)
  let ?m = "m\<lparr>m_consuming := m_consuming m - {t}, m_ring := r', m_consumed := m_consumed m @ [c]\<rparr>"
  have "monitor_ok (signal_producer ?m)"
    using ok(1) r' by (cases "m_psleep m") (auto simp: monitor_ok_def signal_producer_def)
  moreover have "wakeups_ok (signal_producer ?m)"
  proof (cases "m_psleep m")
    case Nil
    then show ?thesis using ok(2) r'(4) n c by (auto simp: wakeups_ok_def signal_producer_def)
  next
    case (Cons u us)
    then have "card (insert u (m_producing m)) = card (m_producing m) + 1" using ok(1) fin by (auto simp: monitor_ok_def)
    then show ?thesis using Cons ok(2) r'(4) n c by (auto simp: wakeups_ok_def signal_producer_def)
  qed
  ultimately show thesis using that r' False by (simp add: consume_turn_def)
qed

lemma buffer_step_ok: "buffer_step m m' \<Longrightarrow> monitor_ok m \<and> wakeups_ok m \<Longrightarrow> monitor_ok m' \<and> wakeups_ok m'"
proof (induction rule: buffer_step.induct)
  case (produce t m m')
  then show ?case using produce_turn_ok [of m t] by (metis option.inject)
next
  case (consume t m m')
  then show ?case using consume_turn_ok [of m t] by (metis option.inject)
qed (auto simp: monitor_ok_def wakeups_ok_def inside_def card_insert_if)

lemma buffer_step_size: "buffer_step m m' \<Longrightarrow> r_size (m_ring m') = r_size (m_ring m)"
  by (induction rule: buffer_step.induct)
    (auto simp: produce_turn_def consume_turn_def ring_put_def ring_take_def signal_producer_def signal_consumer_def Let_def bind_eq_Some_conv
      split: if_splits list.splits prod.splits)

lemma buffer_steps_ok: "buffer_step\<^sup>*\<^sup>* m m' \<Longrightarrow> monitor_ok m \<Longrightarrow> wakeups_ok m \<Longrightarrow> monitor_ok m' \<and> wakeups_ok m'"
  by (induction rule: rtranclp_induct) (use buffer_step_ok in blast)+

section \<open>Properties\<close>

text \<open>
  C36: On a buffer that nobody else uses, the two operations act on its contents as a bounded queue:
  \<open>shared_buffer_produce\<close> appends when there is room, \<open>shared_buffer_consume\<close> removes and returns the
  first character when there is one; lock, waiters and the other buffers stay as they were.  On a full
  buffer the producer, and on an empty one the consumer, changes no buffer and goes to sleep: it is the
  last on the channel of its condition variable, the lock is free, and the CPU has taken the next thread.
\<close>

theorem shared_buffer_refines:
  assumes "buffer_ready s b"
  shows "(if int (length (contents (b_ring s b))) < r_size (b_ring s b)
      then \<exists>r. shared_buffer_produce b c s = Some (True, s\<lparr>b_ring := (b_ring s)(b := r)\<rparr>)
           \<and> contents r = contents (b_ring s b) @ [c] \<and> r_size r = r_size (b_ring s b) \<and> buffer_ready (s\<lparr>b_ring := (b_ring s)(b := r)\<rparr>) b
      else \<forall>Th Q. sched_ok s Th Q \<and> \<not> c_isidle s (curcpu s) \<longrightarrow>
          (\<exists>s'. shared_buffer_produce b c s = Some (False, s') \<and> asleep_on (b_producer s b) b Th Q s s'))
    \<and> (case contents (b_ring s b) of
          [] \<Rightarrow> \<forall>Th Q. sched_ok s Th Q \<and> \<not> c_isidle s (curcpu s) \<longrightarrow>
            (\<exists>s'. shared_buffer_consume b s = Some (None, s') \<and> asleep_on (b_consumer s b) b Th Q s s')
        | d # ds \<Rightarrow> \<exists>r. shared_buffer_consume b s = Some (Some d, s\<lparr>b_ring := (b_ring s)(b := r)\<rparr>)
           \<and> contents r = ds \<and> r_size r = r_size (b_ring s b) \<and> buffer_ready (s\<lparr>b_ring := (b_ring s)(b := r)\<rparr>) b)"
proof
  have ok: "ring_ok (b_ring s b)" using assms by (simp add: buffer_ready_def)
  note len = length_contents [OF ok]
  show "if int (length (contents (b_ring s b))) < r_size (b_ring s b)
      then \<exists>r. shared_buffer_produce b c s = Some (True, s\<lparr>b_ring := (b_ring s)(b := r)\<rparr>)
           \<and> contents r = contents (b_ring s b) @ [c] \<and> r_size r = r_size (b_ring s b) \<and> buffer_ready (s\<lparr>b_ring := (b_ring s)(b := r)\<rparr>) b
      else \<forall>Th Q. sched_ok s Th Q \<and> \<not> c_isidle s (curcpu s) \<longrightarrow>
          (\<exists>s'. shared_buffer_produce b c s = Some (False, s') \<and> asleep_on (b_producer s b) b Th Q s s')"
  proof (cases "r_count (b_ring s b) = r_size (b_ring s b)")
    case True
    then show ?thesis using produce_sleeps [OF assms True] len by simp
  next
    case room: False
    from ring_put_contents [OF ok this, of c] obtain r where "ring_put c (b_ring s b) = Some r" "ring_ok r"
        "contents r = contents (b_ring s b) @ [c]" "r_size r = r_size (b_ring s b)" .
    then have "\<exists>r. shared_buffer_produce b c s = Some (True, s\<lparr>b_ring := (b_ring s)(b := r)\<rparr>)
           \<and> contents r = contents (b_ring s b) @ [c] \<and> r_size r = r_size (b_ring s b) \<and> buffer_ready (s\<lparr>b_ring := (b_ring s)(b := r)\<rparr>) b"
      using produce_eq [OF assms room] buffer_ready_ring [OF assms] by blast
    moreover have "r_count (b_ring s b) < r_size (b_ring s b)" using room ok by (simp add: ring_ok_def)
    ultimately show ?thesis using len by simp
  qed
  show "case contents (b_ring s b) of
          [] \<Rightarrow> \<forall>Th Q. sched_ok s Th Q \<and> \<not> c_isidle s (curcpu s) \<longrightarrow>
            (\<exists>s'. shared_buffer_consume b s = Some (None, s') \<and> asleep_on (b_consumer s b) b Th Q s s')
        | d # ds \<Rightarrow> \<exists>r. shared_buffer_consume b s = Some (Some d, s\<lparr>b_ring := (b_ring s)(b := r)\<rparr>)
           \<and> contents r = ds \<and> r_size r = r_size (b_ring s b) \<and> buffer_ready (s\<lparr>b_ring := (b_ring s)(b := r)\<rparr>) b"
  proof (cases "r_count (b_ring s b) = 0")
    case True
    then have "contents (b_ring s b) = []" by (simp add: contents_def)
    then show ?thesis using consume_sleeps [OF assms True] by simp
  next
    case False
    from ring_take_contents [OF ok this] obtain d r where "ring_take (b_ring s b) = Some (d, r)" "ring_ok r"
        "contents (b_ring s b) = d # contents r" "r_size r = r_size (b_ring s b)" .
    then show ?thesis using consume_eq [OF assms False] buffer_ready_ring [OF assms] by auto
  qed
qed

definition boot_buffers :: buffers where
  "boot_buffers = sync.extend boot_sync (buffers.fields (\<lambda>_. 20)
     (\<lambda>_. \<lparr>cells = ''xyz'', r_in = 0, r_out = 1, r_count = 2, r_size = 3\<rparr>) (\<lambda>_. 40) (\<lambda>_. 44) (\<lambda>_. 44))"

lemma boot_buffer_ready: "buffer_ready boot_buffers 35"
proof -
  have "on_list boot_sync (Wchan 45) []" by (simp add: boot_sync_def all_empty_lists)
  then have "on_list boot_buffers (Wchan 45) []"
    using on_list_cong [of boot_buffers boot_sync] by (simp add: boot_buffers_def sync.defs)
  moreover have "lock_idle boot_buffers 40" unfolding boot_buffers_def by (rule boot_lock_idle) simp
  ultimately show ?thesis by (simp add: buffer_ready_def boot_buffers_def sync.defs buffers.defs boot_fields ring_ok_def)
qed

text \<open>The same with three characters in its three places.\<close>

definition full_buffers :: buffers where
  "full_buffers = boot_buffers\<lparr>b_ring := \<lambda>_. \<lparr>cells = ''xyz'', r_in = 1, r_out = 1, r_count = 3, r_size = 3\<rparr>\<rparr>"

lemma full_buffers_ok: "buffer_ready full_buffers 35" "sched_ok full_buffers {10} (\<lambda>_. [])" "\<not> c_isidle full_buffers (curcpu full_buffers)"
proof -
  show "buffer_ready full_buffers 35" using boot_buffer_ready by (simp add: full_buffers_def buffer_ready_def ring_ok_def)
  have "queues boot_sync (\<lambda>_. [])" "detached boot_sync 10" by (simp_all add: queues_def boot_sync_def all_empty_lists)
  then have "sched_ok boot_sync {10} (\<lambda>_. [])" by (simp add: sched_ok_def boot_fields thread_checkstack_def)
  then show "sched_ok full_buffers {10} (\<lambda>_. [])"
    by (subst sched_cong [of _ boot_sync]) (simp_all add: full_buffers_def boot_buffers_def sync.defs)
  show "\<not> c_isidle full_buffers (curcpu full_buffers)" by (simp add: full_buffers_def boot_buffers_def sync.defs boot_fields)
qed

lemma shared_buffer_refines_witness:
  "(\<exists>s. shared_buffer_consume 35 boot_buffers = Some (Some (CHR ''y''), s)) \<and> shared_buffer_produce 35 (CHR ''q'') boot_buffers \<noteq> None
    \<and> (\<exists>s. shared_buffer_produce 35 (CHR ''q'') full_buffers = Some (False, s) \<and> b_ring s = b_ring full_buffers)"
proof -
  have "b_ring boot_buffers 35 = \<lparr>cells = ''xyz'', r_in = 0, r_out = 1, r_count = 2, r_size = 3\<rparr>"
    by (simp add: boot_buffers_def sync.defs buffers.defs)
  moreover have "[0..<2] = [0, Suc 0]" by (simp add: upt_rec)
  ultimately have "(\<exists>s. shared_buffer_consume 35 boot_buffers = Some (Some (CHR ''y''), s)) \<and> shared_buffer_produce 35 (CHR ''q'') boot_buffers \<noteq> None"
    using shared_buffer_refines [OF boot_buffer_ready, of "CHR ''q''"] by (auto simp: contents_def)
  moreover have "\<not> int (length (contents (b_ring full_buffers 35))) < r_size (b_ring full_buffers 35)"
    by (simp add: full_buffers_def contents_def)
  then have "\<exists>s. shared_buffer_produce 35 (CHR ''q'') full_buffers = Some (False, s) \<and> b_ring s = b_ring full_buffers"
    using conjunct1 [OF shared_buffer_refines [OF full_buffers_ok(1), of "CHR ''q''"]] full_buffers_ok(2,3) unfolding asleep_on_def by auto
  ultimately show ?thesis by blast
qed

definition start :: "int \<Rightarrow> monitor" where
  "start n = \<lparr>m_ring = \<lparr>cells = replicate (nat n) CHR 0x00, r_in = 0, r_out = 0, r_count = 0, r_size = n\<rparr>, m_input = \<lambda>_. CHR 0x00,
     m_producing = {}, m_consuming = {}, m_psleep = [], m_csleep = [], m_produced = [], m_consumed = []\<rparr>"

text \<open>
  C35: In every interleaving of any number of producers and consumers on a buffer of \<open>n\<close> places, the
  characters consumed are a prefix of those produced, in the same order, and the rest, at most \<open>n\<close>
  of them, is in the buffer.  No wake-up is lost: when a producer sleeps and there is room, a
  producer is awake and on its way into the buffer; when a consumer sleeps and there is a character,
  a consumer is; and when threads of both kinds sleep, somebody is awake.  No turn panics.
\<close>

theorem shared_buffer_monitor:
  assumes "0 < n" and "n < 2147483648" and "buffer_step\<^sup>*\<^sup>* (start n) m"
  shows "m_produced m = m_consumed m @ contents (m_ring m) \<and> int (length (contents (m_ring m))) \<le> n
    \<and> (m_psleep m \<noteq> [] \<and> int (length (contents (m_ring m))) < n \<longrightarrow> m_producing m \<noteq> {})
    \<and> (m_csleep m \<noteq> [] \<and> contents (m_ring m) \<noteq> [] \<longrightarrow> m_consuming m \<noteq> {})
    \<and> (m_psleep m \<noteq> [] \<and> m_csleep m \<noteq> [] \<longrightarrow> m_producing m \<union> m_consuming m \<noteq> {})
    \<and> (\<forall>t \<in> m_producing m. produce_turn t m \<noteq> None) \<and> (\<forall>t \<in> m_consuming m. consume_turn t m \<noteq> None)"
proof -
  have "monitor_ok (start n)" "wakeups_ok (start n)"
    using assms(1,2) by (simp_all add: monitor_ok_def wakeups_ok_def start_def ring_ok_def contents_def)
  then have ok: "monitor_ok m" "wakeups_ok m" using buffer_steps_ok [OF assms(3)] by simp_all
  have "r_size (m_ring m) = n" using assms(3) buffer_step_size by (induction rule: rtranclp_induct) (simp_all add: start_def)
  moreover have r: "ring_ok (m_ring m)" and hist: "m_produced m = m_consumed m @ contents (m_ring m)"
    using ok(1) by (simp_all add: monitor_ok_def)
  moreover have "m_psleep m \<noteq> [] \<longrightarrow> r_count (m_ring m) < r_size (m_ring m) \<longrightarrow> m_producing m \<noteq> {}"
    "m_csleep m \<noteq> [] \<longrightarrow> 0 < r_count (m_ring m) \<longrightarrow> m_consuming m \<noteq> {}"
    using ok(2) by (auto simp: wakeups_ok_def)
  moreover have "0 < r_size (m_ring m)" "0 \<le> r_count (m_ring m)" "r_count (m_ring m) \<le> r_size (m_ring m)" using r by (simp_all add: ring_ok_def)
  moreover have "int (length (contents (m_ring m))) = r_count (m_ring m)" "contents (m_ring m) \<noteq> [] \<longleftrightarrow> r_count (m_ring m) \<noteq> 0"
    using length_contents [OF r] by auto
  moreover have "\<forall>t \<in> m_producing m. produce_turn t m \<noteq> None" "\<forall>t \<in> m_consuming m. consume_turn t m \<noteq> None"
    using produce_turn_ok [OF ok] consume_turn_ok [OF ok] by (metis option.distinct(1))+
  ultimately show ?thesis by (smt (verit) Un_empty)
qed

lemma shared_buffer_monitor_witness:
  "\<exists>m. buffer_step\<^sup>*\<^sup>* (start 1) m \<and> m_produced m = ''a'' \<and> m_psleep m = [7] \<and> m_produced m = m_consumed m @ contents (m_ring m)"
proof -
  define m1 where "m1 = (start 1)\<lparr>m_input := (m_input (start 1))(6 := CHR ''a''), m_producing := insert 6 (m_producing (start 1))\<rparr>"
  define m2 where "m2 = the (produce_turn 6 m1)"
  define m3 where "m3 = m2\<lparr>m_input := (m_input m2)(7 := CHR ''b''), m_producing := insert 7 (m_producing m2)\<rparr>"
  define m4 where "m4 = the (produce_turn 7 m3)"
  note e = m1_def m2_def m3_def m4_def start_def produce_turn_def ring_put_def signal_consumer_def s32_def
  have 1: "buffer_step (start 1) m1" unfolding m1_def by (rule call_produce) (simp add: inside_def start_def)
  have 2: "buffer_step m1 m2" by (rule produce [of 6]) (simp_all add: e)
  have 3: "buffer_step m2 m3" unfolding m3_def by (rule call_produce) (simp add: inside_def e)
  have 4: "buffer_step m3 m4" by (rule produce [of 7]) (simp_all add: e)
  have r: "buffer_step\<^sup>*\<^sup>* (start 1) m4" using 1 2 3 4 by (meson rtranclp.rtrancl_into_rtrancl rtranclp.rtrancl_refl)
  moreover have "m_produced m4 = ''a''" "m_psleep m4 = [7]" by (simp_all add: e)
  ultimately show ?thesis using shared_buffer_monitor [OF _ _ r] by auto
qed

end
