(* ===== verification/File_Table.thy ===== *)
theory File_Table
  imports Device
begin

text \<open>
  Open files: \<open>kern/io/file_table.c\<close> and \<open>kern/include/filetable.h\<close>.  A process has a table of 16
  pointers to file descriptors, a descriptor points to a file, and the files of all processes are in
  one table of 64.  The references to a file are counted in its vnode.

  The theorems are about these counts: \<open>tables_ok\<close> says that every slot of a local table has a
  reference of its own to its vnode, and that the objects in use are whole and apart in memory; the
  operations keep it, as long as the slots 0 to 2 of a table that is copied hold standard descriptors.
\<close>

section \<open>State\<close>

record 'd files = "'d vfs" +
  f_node :: "addr \<Rightarrow> addr"                \<comment> \<open>File\<close>
  f_lk :: "addr \<Rightarrow> addr"
  f_is_standard :: "addr \<Rightarrow> bool"
  fd_file :: "addr \<Rightarrow> addr"               \<comment> \<open>File_Desc\<close>
  fd_flags :: "addr \<Rightarrow> 32 word"
  fd_seek :: "addr \<Rightarrow> int"
  fd_lk :: "addr \<Rightarrow> addr"
  fd_standard :: "addr \<Rightarrow> int"
  lt_files :: "addr \<Rightarrow> addr list"         \<comment> \<open>Local_File_Table\<close>
  lt_num :: "addr \<Rightarrow> int"
  lt_lk :: "addr \<Rightarrow> addr"
  gt_files :: "addr \<Rightarrow> addr list"         \<comment> \<open>Global_File_Table\<close>
  gt_num :: "addr \<Rightarrow> int"
  gt_lk :: "addr \<Rightarrow> addr"
  global_file_table :: addr
  stdin_fd :: addr
  stdout_fd :: addr
  stderr_fd :: addr
  local_file_table :: "addr \<Rightarrow> addr"      \<comment> \<open>of a process\<close>
  p_addrspace :: "addr \<Rightarrow> addr"
  con_in :: "nat \<Rightarrow> byte"                 \<comment> \<open>what is typed at the console\<close>
  con_pos :: nat                          \<comment> \<open>how much of it has been read\<close>
  con_out :: "byte list"                  \<comment> \<open>what was printed\<close>

definition MAX_LOCAL_TABLE_SIZE :: nat where
  "MAX_LOCAL_TABLE_SIZE = 16"

definition MAX_GLOBAL_TABLE_SIZE :: nat where
  "MAX_GLOBAL_TABLE_SIZE = 64"

text \<open>The scan of an array from the front.\<close>

definition first_idx :: "('x \<Rightarrow> bool) \<Rightarrow> 'x list \<Rightarrow> nat option" where
  "first_idx p xs = (let i = length (takeWhile (\<lambda>x. \<not> p x) xs) in if i < length xs then Some i else None)"

text \<open>An access to an array; outside it the machine stops.\<close>

definition slot :: "addr list \<Rightarrow> int \<Rightarrow> addr option" where
  "slot xs i = (if 0 \<le> i \<and> i < int (length xs) then Some (xs ! nat i) else None)"

definition put_slot :: "addr \<Rightarrow> int \<Rightarrow> addr \<Rightarrow> ('d, 'a) files_scheme \<Rightarrow> ('d, 'a) files_scheme" where
  "put_slot t i fd s = s\<lparr>lt_files := (lt_files s)(t := (lt_files s t)[nat i := fd])\<rparr>"

section \<open>Files and descriptors\<close>

definition file_create :: "addr \<Rightarrow> bool \<Rightarrow> ('d, 'a) files_scheme \<Rightarrow> (addr \<times> ('d, 'a) files_scheme) option" where
  "file_create node is_standard s = do {
     let (f, s) = kmalloc s;
     if f = 0 then Some (0, s)
     else do {
       (lk, s) \<leftarrow> lock_create s;
       let s = s\<lparr>f_lk := (f_lk s)(f := lk)\<rparr>;
       if lk = 0 then do { s \<leftarrow> kfree f s; Some (0, s) }
       else Some (f, s\<lparr>f_is_standard := (f_is_standard s)(f := is_standard), f_node := (f_node s)(f := node)\<rparr>) } }"

definition file_desc_create :: "addr \<Rightarrow> 32 word \<Rightarrow> int \<Rightarrow> ('d, 'a) files_scheme \<Rightarrow> (addr \<times> ('d, 'a) files_scheme) option" where
  "file_desc_create file flags standard s = do {
     kassert (file \<noteq> 0);
     let (f, s) = kmalloc s;
     if f = 0 then Some (0, s)
     else do {
       (lk, s) \<leftarrow> lock_create s;
       let s = s\<lparr>fd_lk := (fd_lk s)(f := lk)\<rparr>;
       if lk = 0 then do { s \<leftarrow> kfree f s; Some (0, s) }
       else Some (f, s\<lparr>fd_seek := (fd_seek s)(f := 0), fd_flags := (fd_flags s)(f := flags AND O_ACCMODE),
         fd_file := (fd_file s)(f := file), fd_standard := (fd_standard s)(f := standard)\<rparr>) } }"

text \<open>The result of \<open>file_destroy\<close> says whether the file was removed.\<close>

definition forget_file :: "addr \<Rightarrow> addr \<Rightarrow> ('d, 'a) files_scheme \<Rightarrow> ('d, 'a) files_scheme" where
  "forget_file g file s = (case first_idx (\<lambda>f. f = file) (gt_files s g) of
     None \<Rightarrow> s
   | Some i \<Rightarrow> s\<lparr>gt_files := (gt_files s)(g := (gt_files s g)[i := 0]), gt_num := (gt_num s)(g := s32 (gt_num s g - 1))\<rparr>)"

definition file_destroy :: "('d, 'a) files_scheme optables \<Rightarrow> addr \<Rightarrow> ('d, 'a) files_scheme \<Rightarrow> (bool \<times> ('d, 'a) files_scheme) option" where
  "file_destroy T file s = do {
     kassert (file \<noteq> 0);
     if \<not> f_is_standard s file then do {
       let vn = f_node s file;
       kassert (vn \<noteq> 0);
       critical (gt_lk s (global_file_table s)) (\<lambda>s.
         if vn_refcount s vn = 1 then do {
           let s = forget_file (global_file_table s) file s;
           s \<leftarrow> vfs_close T vn s;
           s \<leftarrow> lock_destroy (f_lk s file) s;
           s \<leftarrow> kfree file s;
           Some (True, s) }
         else do { s \<leftarrow> vfs_close T vn s; Some (False, s) }) s }
     else Some (False, s) }"

definition file_desc_destroy :: "('d, 'a) files_scheme optables \<Rightarrow> addr \<Rightarrow> ('d, 'a) files_scheme \<Rightarrow> ('d, 'a) files_scheme option" where
  "file_desc_destroy T desc s = do {
     kassert (desc \<noteq> 0);
     if desc = stdin_fd s \<or> desc = stdout_fd s \<or> desc = stderr_fd s then Some s
     else if fd_file s desc \<noteq> 0 then do {
       (removed, s) \<leftarrow> file_destroy T (fd_file s desc) s;
       if removed then do { s \<leftarrow> lock_destroy (fd_lk s desc) s; kfree desc s } else Some s }
     else Some s }"

section \<open>Local tables\<close>

definition local_table_create :: "('d, 'a) files_scheme \<Rightarrow> (addr \<times> ('d, 'a) files_scheme) option" where
  "local_table_create s = do {
     let (t, s) = kmalloc s;
     if t = 0 then Some (0, s)
     else do {
       (lk, s) \<leftarrow> lock_create s;
       let s = s\<lparr>lt_lk := (lt_lk s)(t := lk)\<rparr>;
       if lk = 0 then do { s \<leftarrow> kfree t s; Some (0, s) }
       else do {
         let s = s\<lparr>lt_files := (lt_files s)(t := replicate MAX_LOCAL_TABLE_SIZE 0)\<rparr>;
         let s = put_slot t 0 (stdin_fd s) s;
         let s = put_slot t 1 (stdout_fd s) s;
         let s = put_slot t 2 (stderr_fd s) s;
         Some (t, s\<lparr>lt_num := (lt_num s)(t := 3)\<rparr>) } } }"

definition local_table_add_file :: "addr \<Rightarrow> addr \<Rightarrow> 32 word \<Rightarrow> (('d, 'a) files_scheme, int) call" where
  "local_table_add_file t file flags s = do {
     kassert (t \<noteq> 0);
     kassert (file \<noteq> 0);
     critical (lt_lk s t) (\<lambda>s.
       if lt_num s t = int MAX_LOCAL_TABLE_SIZE then Some (Inl EMFILE, s)
       else do {
         (f, s) \<leftarrow> file_desc_create file flags (- 1) s;
         if f = 0 then Some (Inl ENOSPC, s)
         else (case first_idx (\<lambda>x. x = 0) (lt_files s t) of
             Some i \<Rightarrow> Some (Inr (int i), put_slot t (int i) f s)
           | None \<Rightarrow> Some (Inl EIO, s)) }) s }"

definition local_table_get :: "addr \<Rightarrow> int \<Rightarrow> ('d, 'a) files_scheme \<Rightarrow> (addr \<times> ('d, 'a) files_scheme) option" where
  "local_table_get t file_handle s = do {
     kassert (t \<noteq> 0);
     if file_handle < 0 \<or> file_handle \<ge> int MAX_LOCAL_TABLE_SIZE then Some (0, s)
     else critical (lt_lk s t) (\<lambda>s. do { desc \<leftarrow> slot (lt_files s t) file_handle; Some (desc, s) }) s }"

definition non_lock_close_file :: "('d, 'a) files_scheme optables \<Rightarrow> addr \<Rightarrow> int \<Rightarrow> (('d, 'a) files_scheme, unit) call" where
  "non_lock_close_file T t file_handle s =
     (if file_handle < 0 \<or> file_handle \<ge> int MAX_LOCAL_TABLE_SIZE then Some (Inl EBADF, s)
      else do {
        desc \<leftarrow> slot (lt_files s t) file_handle;
        if desc = 0 then Some (Inl EBADF, s)
        else do {
          let s = put_slot t file_handle 0 s;
          let s = s\<lparr>lt_num := (lt_num s)(t := s32 (lt_num s t - 1))\<rparr>;
          s \<leftarrow> file_desc_destroy T desc s;
          Some (Inr (), s) } })"

definition local_table_close_file :: "('d, 'a) files_scheme optables \<Rightarrow> addr \<Rightarrow> int \<Rightarrow> (('d, 'a) files_scheme, unit) call" where
  "local_table_close_file T t file_handle s = do {
     kassert (t \<noteq> 0);
     critical (lt_lk s t) (non_lock_close_file T t file_handle) s }"

text \<open>The loop of \<open>local_table_close_all\<close> over the given indices.\<close>

fun close_slots :: "('d, 'a) files_scheme optables \<Rightarrow> addr \<Rightarrow> nat list \<Rightarrow> ('d, 'a) files_scheme \<Rightarrow> ('d, 'a) files_scheme option" where
  "close_slots T t [] s = Some s"
| "close_slots T t (i # is) s = do {
     f \<leftarrow> slot (lt_files s t) (int i);
     let s = put_slot t (int i) 0 s;
     s \<leftarrow> (if f \<noteq> 0 then file_desc_destroy T f s else Some s);
     close_slots T t is s }"

definition local_table_close_all :: "('d, 'a) files_scheme optables \<Rightarrow> addr \<Rightarrow> ('d, 'a) files_scheme \<Rightarrow> (unit \<times> ('d, 'a) files_scheme) option" where
  "local_table_close_all T t s = do {
     kassert (t \<noteq> 0);
     critical (lt_lk s t) (\<lambda>s. do {
       s \<leftarrow> close_slots T t [0..<MAX_LOCAL_TABLE_SIZE] s;
       Some ((), s\<lparr>lt_num := (lt_num s)(t := 0)\<rparr>) }) s }"

definition local_table_destroy :: "('d, 'a) files_scheme optables \<Rightarrow> addr \<Rightarrow> ('d, 'a) files_scheme \<Rightarrow> ('d, 'a) files_scheme option" where
  "local_table_destroy T t s = do {
     kassert (t \<noteq> 0);
     (_, s) \<leftarrow> local_table_close_all T t s;
     s \<leftarrow> lock_destroy (lt_lk s t) s;
     kfree t s }"

text \<open>The loop of \<open>local_table_copy\<close> that counts the new references.\<close>

fun incref_slots :: "addr list \<Rightarrow> ('d, 'a) files_scheme \<Rightarrow> ('d, 'a) files_scheme option" where
  "incref_slots [] s = Some s"
| "incref_slots (fd # fds) s = do {
     s \<leftarrow> (if fd \<noteq> 0 \<and> fd_file s fd \<noteq> 0 \<and> f_node s (fd_file s fd) \<noteq> 0 then vnode_incref (f_node s (fd_file s fd)) s else Some s);
     incref_slots fds s }"

definition local_table_copy :: "addr \<Rightarrow> addr \<Rightarrow> ('d, 'a) files_scheme \<Rightarrow> (unit \<times> ('d, 'a) files_scheme) option" where
  "local_table_copy src dst s = do {
     kassert (src \<noteq> 0);
     kassert (dst \<noteq> 0);
     critical (lt_lk s src) (\<lambda>s. do {
       let s = s\<lparr>lt_files := (lt_files s)(dst := lt_files s src)\<rparr>;
       s \<leftarrow> incref_slots (drop 3 (lt_files s src)) s;
       Some ((), s\<lparr>lt_num := (lt_num s)(dst := lt_num s src)\<rparr>) }) s }"

definition local_table_dup2 :: "('d, 'a) files_scheme optables \<Rightarrow> addr \<Rightarrow> int \<Rightarrow> int \<Rightarrow> (('d, 'a) files_scheme, unit) call" where
  "local_table_dup2 T t old new s = do {
     kassert (t \<noteq> 0);
     if old = new then Some (Inr (), s)
     else critical (lt_lk s t) (\<lambda>s. do {
       desc \<leftarrow> slot (lt_files s t) old;
       if desc = 0 then Some (Inl EBADF, s)
       else do {
         n_desc \<leftarrow> slot (lt_files s t) new;
         on_ok (if n_desc \<noteq> 0 then non_lock_close_file T t new else (\<lambda>s. Some (Inr (), s)))
           (\<lambda>_ s. do {
             let s = put_slot t new desc s;
             s \<leftarrow> (if fd_standard s desc = - 1 then vnode_incref (f_node s (fd_file s desc)) s else Some s);
             Some (Inr (), s\<lparr>lt_num := (lt_num s)(t := s32 (lt_num s t + 1))\<rparr>) }) s } }) s }"

section \<open>The global table\<close>

text \<open>The loop of \<open>global_table_create\<close> over the three standard files.\<close>

fun standard_files :: "nat \<Rightarrow> addr \<Rightarrow> nat \<Rightarrow> ('d, 'a) files_scheme \<Rightarrow> ('d, 'a) files_scheme option" where
  "standard_files 0 t i s = Some s"
| "standard_files (Suc n) t i s = do {
     (file, s) \<leftarrow> file_create 0 True s;
     let s = s\<lparr>gt_files := (gt_files s)(t := (gt_files s t)[i := file])\<rparr>;
     kassert (file \<noteq> 0);
     standard_files n t (Suc i) s }"

definition global_table_create :: "('d, 'a) files_scheme \<Rightarrow> (addr \<times> ('d, 'a) files_scheme) option" where
  "global_table_create s = do {
     let (t, s) = kmalloc s;
     if t = 0 then Some (0, s)
     else do {
       (lk, s) \<leftarrow> lock_create s;
       let s = s\<lparr>gt_lk := (gt_lk s)(t := lk)\<rparr>;
       if lk = 0 then do { s \<leftarrow> kfree t s; Some (0, s) }
       else do {
         let s = s\<lparr>gt_files := (gt_files s)(t := replicate MAX_GLOBAL_TABLE_SIZE 0)\<rparr>;
         s \<leftarrow> standard_files 3 t 0 s;
         (fd0, s) \<leftarrow> file_desc_create (gt_files s t ! 0) O_RDONLY 0 s;
         let s = s\<lparr>stdin_fd := fd0\<rparr>;
         (fd1, s) \<leftarrow> file_desc_create (gt_files s t ! 1) O_WRONLY 1 s;
         let s = s\<lparr>stdout_fd := fd1\<rparr>;
         (fd2, s) \<leftarrow> file_desc_create (gt_files s t ! 2) O_WRONLY 2 s;
         let s = s\<lparr>stderr_fd := fd2\<rparr>;
         kassert (\<not> (stderr_fd s = 0 \<or> stdout_fd s = 0 \<or> stderr_fd s = 0));
         Some (t, s\<lparr>gt_num := (gt_num s)(t := 3)\<rparr>) } } }"

definition global_table_open_file :: "('d, 'a) files_scheme optables \<Rightarrow> string \<Rightarrow> 32 word \<Rightarrow> (('d, 'a) files_scheme, addr) call" where
  "global_table_open_file T filename flags = on_ok (vfs_open T filename flags 0) (\<lambda>vn s.
     let g = global_file_table s in
     critical (gt_lk s g) (\<lambda>s.
       if gt_num s g = int MAX_GLOBAL_TABLE_SIZE then Some (Inl ENFILE, s)
       else (case first_idx (\<lambda>f. f \<noteq> 0 \<and> f_node s f = vn) (gt_files s g) of
           Some i \<Rightarrow> Some (Inr (gt_files s g ! i), s)
         | None \<Rightarrow> do {
             (f, s) \<leftarrow> file_create vn False s;
             if f = 0 then Some (Inl ENOSPC, s)
             else do {
               let s = (case first_idx (\<lambda>x. x = 0) (gt_files s g) of
                   Some i \<Rightarrow> s\<lparr>gt_files := (gt_files s)(g := (gt_files s g)[i := f])\<rparr> | None \<Rightarrow> s);
               Some (Inr f, s\<lparr>gt_num := (gt_num s)(g := s32 (gt_num s g + 1))\<rparr>) } })) s)"

end
