(* ===== verification/File_Refs.thy ===== *)
theory File_Refs
  imports File_Table
begin

text \<open>
  Reference counts and memory of open files: what the operations of \<open>File_Table\<close> do, as effects, and
  the invariant they keep.
\<close>

section \<open>Effects that free memory\<close>

text \<open>A step that changes the counts by \<open>d\<close> and frees the blocks \<open>bs\<close>, whatever it does to the tables.\<close>

definition effect :: "('d, 'a) vnodes_scheme optables \<Rightarrow> ('d, 'a) vnodes_scheme \<Rightarrow> ('d, 'a) vnodes_scheme \<Rightarrow> (addr \<Rightarrow> int) \<Rightarrow> addr set \<Rightarrow> bool" where
  "effect T s s' d bs \<longleftrightarrow> vnodes_ok T s' \<and> same_sync s s' \<and> own s' = own s - bs
     \<and> (\<forall>v. vn_refcount s' v = vn_refcount s v + d v) \<and> kept s s'"

lemma effectD:
  assumes "effect T s s' d bs"
  shows "vnodes_ok T s'" "same_sync s s'" "own s' = own s - bs" "vn_refcount s' v = vn_refcount s v + d v" "kept s s'"
  using assms by (simp_all add: effect_def)

lemma step_effect: "step T s s' d \<longleftrightarrow> effect T s s' d {} \<and> vnodes.more s' = vnodes.more s"
  by (auto simp: step_def balance_def effect_def)

lemma effect_refl: "vnodes_ok T s \<Longrightarrow> effect T s s (\<lambda>_. 0) {}"
  by (simp add: effect_def kept_def)

lemma effect_then_same:
  assumes "effect T s s1 d A" and "effect T s1 s2 (\<lambda>_. 0) B"
  shows "effect T s s2 d (A \<union> B)"
proof -
  have "kept s s2" using assms by (simp add: effect_def kept_def)
  then show ?thesis using assms same_sync_trans by (auto simp: effect_def)
qed

lemma effect_same_then:
  assumes "effect T s s1 (\<lambda>_. 0) A" and "effect T s1 s2 d B"
  shows "effect T s s2 d (A \<union> B)"
proof -
  have "kept s s2" using assms by (simp add: effect_def kept_def)
  then show ?thesis using assms same_sync_trans by (auto simp: effect_def)
qed

lemma check_live [simp]: "vnode_check T v (s\<lparr>live := X\<rparr>) = vnode_check T v s"
  by (simp add: vnode_check_def)

lemma effect_free:
  assumes "vnodes_ok T s" and "B \<subseteq> own s"
  shows "effect T s (s\<lparr>live := live s - B\<rparr>) (\<lambda>_. 0) B" "vnodes.more (s\<lparr>live := live s - B\<rparr>) = vnodes.more s"
proof -
  have "same_sync s (s\<lparr>live := live s - B\<rparr>)"
    unfolding same_sync_def by (intro exI [of _ "oom s"] exI [of _ "ticks s"] exI [of _ "live s - B"] exI [of _ "sync.more s"]) (auto intro: sync.equality)
  then show "effect T s (s\<lparr>live := live s - B\<rparr>) (\<lambda>_. 0) B"
    using assms by (auto simp: effect_def kept_def own_def vnodes_ok_def kmem_ok_def check_live)
qed simp

text \<open>Around a critical section.\<close>

lemma effect_locked:
  assumes l: "lock_idle s l" and e: "effect T (taken l s) s1 d B"
  shows "lock_mine s1 l" "effect T s (dropped l s1) d B"
proof -
  note m = same_sync_taken [OF l effectD(2) [OF e]]
  show "lock_mine s1 l" by (rule m(1))
  have ok: "vnodes_ok T (dropped l s1) = vnodes_ok T s1" by (rule vnodes_ok_cong) simp_all
  have "own (dropped l s1) = own s1" "own (taken l s) = own s" by (simp_all add: own_def)
  then show "effect T s (dropped l s1) d B" using e m(2) ok by (simp add: effect_def kept_def)
qed

lemma taken_ok [simp]: "vnodes_ok T (taken l s) = vnodes_ok T s"
  by (rule vnodes_ok_cong) simp_all

lemma taken_low [simp]: "low (taken l s) n = low s n" "droppable T (taken l s) v = droppable T s v" "own (taken l s) = own s"
  by (simp_all add: low_def droppable_def own_def)

lemma critical_effect:
  assumes l: "lock_idle s l" and f: "f (taken l s) = Some (r, s1)" and e: "effect T (taken l s) s1 d B"
  shows "critical l f s = Some (r, dropped l s1)" "effect T s (dropped l s1) d B" "vnodes.more (dropped l s1) = vnodes.more s1"
  using critical_eq [where l = l and s = s and f = f, OF l f] effect_locked [OF l e] by simp_all

text \<open>Locks that a step leaves alone.\<close>

lemma effect_idle: "effect T s s' d B \<Longrightarrow> lock_idle s' l = lock_idle s l"
  by (rule same_sync_sel(8)) (rule effectD)

lemma effect_lock_sel: "effect T s s' d B \<Longrightarrow> lk_name s' = lk_name s \<and> lk_wchan s' = lk_wchan s"
  using same_sync_sel(3,4) effectD(2) by metis

lemma lock_destroy_eq:
  assumes "lock_idle s l" and "distinct [l, lk_name s l, lk_wchan s l]" and "{l, lk_name s l, lk_wchan s l} \<subseteq> live s"
    and "lk_name s l \<noteq> 0" and "lk_wchan s l \<noteq> 0"
  shows "lock_destroy l s = Some (s\<lparr>live := live s - {l, lk_name s l, lk_wchan s l}\<rparr>)"
proof -
  have "wchan_destroy (lk_wchan s l) s = kfree (lk_wchan s l) s" using assms(1) by (simp add: wchan_destroy_eq [of s _ "[]"] lock_idle_def)
  then have w: "wchan_destroy (lk_wchan s l) s = Some (s\<lparr>live := live s - {lk_wchan s l}\<rparr>)" using assms by (simp add: kfree_def)
  have l: "l \<noteq> 0" "lk_available s l" "lk_holder s l = 0" using assms(1) by (simp_all add: lock_idle_def)
  have e: "live s - {lk_wchan s l} - {lk_name s l} - {l} = live s - {l, lk_name s l, lk_wchan s l}" by blast
  have "lock_destroy l s = do { s \<leftarrow> wchan_destroy (lk_wchan s l) s; s \<leftarrow> kfree (lk_name s l) s; kfree l s }"
    using l by (simp add: lock_destroy_def)
  also have "\<dots> = Some (s\<lparr>live := live s - {lk_wchan s l} - {lk_name s l} - {l}\<rparr>)"
    unfolding w using assms(2-4) l(1) by (simp add: kfree_def)
  finally show ?thesis unfolding e .
qed

section \<open>Objects\<close>

datatype obj = Global | Table addr | Desc addr | File addr

fun obj_addr :: "('d, 'a) files_scheme \<Rightarrow> obj \<Rightarrow> addr" where
  "obj_addr s Global = global_file_table s"
| "obj_addr s (Table t) = t"
| "obj_addr s (Desc d) = d"
| "obj_addr s (File f) = f"

fun obj_lock :: "('d, 'a) files_scheme \<Rightarrow> obj \<Rightarrow> addr" where
  "obj_lock s Global = gt_lk s (global_file_table s)"
| "obj_lock s (Table t) = lt_lk s t"
| "obj_lock s (Desc d) = fd_lk s d"
| "obj_lock s (File f) = f_lk s f"

definition lock_blocks :: "'a sync_scheme \<Rightarrow> addr \<Rightarrow> addr list" where
  "lock_blocks s l = [l, lk_name s l, lk_wchan s l]"

definition obj_blocks :: "('d, 'a) files_scheme \<Rightarrow> obj \<Rightarrow> addr list" where
  "obj_blocks s x = obj_addr s x # lock_blocks s (obj_lock s x)"

definition whole :: "('d, 'a) files_scheme \<Rightarrow> obj \<Rightarrow> bool" where
  "whole s x \<longleftrightarrow> lock_idle s (obj_lock s x) \<and> distinct (obj_blocks s x) \<and> set (obj_blocks s x) \<subseteq> own s \<and> 0 \<notin> set (obj_blocks s x)"

text \<open>The end of the destroying functions.\<close>

lemma destroy_obj:
  assumes "whole s x"
  shows "do { s \<leftarrow> lock_destroy (obj_lock s x) s; kfree (obj_addr s x) s } = Some (s\<lparr>live := live s - set (obj_blocks s x)\<rparr>)"
proof -
  let ?l = "obj_lock s x"
  have d: "distinct [?l, lk_name s ?l, lk_wchan s ?l]" "obj_addr s x \<notin> {?l, lk_name s ?l, lk_wchan s ?l}" "obj_addr s x \<noteq> 0"
    "{?l, lk_name s ?l, lk_wchan s ?l} \<subseteq> live s" "obj_addr s x \<in> live s" "lock_idle s ?l"
    using assms by (auto simp: whole_def obj_blocks_def lock_blocks_def own_def)
  have n: "lk_name s ?l \<noteq> 0" "lk_wchan s ?l \<noteq> 0" using assms by (auto simp: whole_def obj_blocks_def lock_blocks_def)
  have "obj_addr (s\<lparr>live := X\<rparr>) x = obj_addr s x" for X by (cases x) simp_all
  moreover have "live s - {?l, lk_name s ?l, lk_wchan s ?l} - {obj_addr s x} = live s - set (obj_blocks s x)"
    by (auto simp: obj_blocks_def lock_blocks_def)
  ultimately show ?thesis using lock_destroy_eq [OF d(6,1,4)] d n by (simp add: kfree_def)
qed

lemma files_fields:
  assumes "vnodes.more s1 = vnodes.more s"
  shows "f_node s1 = f_node s" "f_lk s1 = f_lk s" "f_is_standard s1 = f_is_standard s" "fd_file s1 = fd_file s" "fd_flags s1 = fd_flags s"
    "fd_seek s1 = fd_seek s" "fd_lk s1 = fd_lk s" "fd_standard s1 = fd_standard s" "lt_files s1 = lt_files s" "lt_num s1 = lt_num s"
    "lt_lk s1 = lt_lk s" "gt_files s1 = gt_files s" "gt_num s1 = gt_num s" "gt_lk s1 = gt_lk s" "global_file_table s1 = global_file_table s"
    "stdin_fd s1 = stdin_fd s" "stdout_fd s1 = stdout_fd s" "stderr_fd s1 = stderr_fd s" "local_file_table s1 = local_file_table s"
    "p_addrspace s1 = p_addrspace s" "con_in s1 = con_in s" "con_pos s1 = con_pos s" "con_out s1 = con_out s"
  using assms by (cases s; cases s1; simp)+

lemma more_obj:
  assumes "vnodes.more s1 = vnodes.more s"
  shows "obj_addr s1 x = obj_addr s x" "obj_lock s1 x = obj_lock s x"
  using files_fields [OF assms] by (cases x; simp)+

lemma effect_whole:
  assumes e: "effect T s s1 d B" and m: "obj_addr s1 x = obj_addr s x" "obj_lock s1 x = obj_lock s x"
    and w: "whole s x" and b: "set (obj_blocks s x) \<inter> B = {}"
  shows "whole s1 x" "obj_blocks s1 x = obj_blocks s x"
proof -
  show "obj_blocks s1 x = obj_blocks s x" using effect_lock_sel [OF e] m by (simp add: obj_blocks_def lock_blocks_def)
  then show "whole s1 x" using w b effect_idle [OF e] effectD(3) [OF e] m by (auto simp: whole_def)
qed

section \<open>Giving a file back\<close>

text \<open>Fields above the vnodes do not matter to an effect.\<close>

lemma effect_fields:
  assumes "vnodes_ok T s" and "s' = vnodes.more_update (\<lambda>_. m) s"
  shows "effect T s s' (\<lambda>_. 0) {}"
proof -
  have "same_sync s s'" unfolding same_sync_def assms(2)
    by (intro exI [of _ "oom s"] exI [of _ "ticks s"] exI [of _ "live s"] exI [of _ "sync.more (vnodes.more_update (\<lambda>_. m) s)"]) (cases s, simp)
  moreover have "vnodes_ok T s'" using assms by (simp add: vnodes_ok_def kmem_ok_def vnode_check_def)
  ultimately show ?thesis by (simp add: effect_def kept_def own_def assms(2))
qed

lemma files_taken [simp]: "f_node (taken l s) = f_node s" "f_lk (taken l s) = f_lk s" "f_is_standard (taken l s) = f_is_standard s"
  "fd_file (taken l s) = fd_file s" "fd_flags (taken l s) = fd_flags s" "fd_seek (taken l s) = fd_seek s" "fd_lk (taken l s) = fd_lk s"
  "fd_standard (taken l s) = fd_standard s" "lt_files (taken l s) = lt_files s" "lt_num (taken l s) = lt_num s" "lt_lk (taken l s) = lt_lk s"
  "gt_files (taken l s) = gt_files s" "gt_num (taken l s) = gt_num s" "gt_lk (taken l s) = gt_lk s"
  "global_file_table (taken l s) = global_file_table s" "stdin_fd (taken l s) = stdin_fd s" "stdout_fd (taken l s) = stdout_fd s"
  "stderr_fd (taken l s) = stderr_fd s"
  by (simp_all add: taken_def)

lemma forget_more: "forget_file g f s = vnodes.more_update (\<lambda>_. vnodes.more (forget_file g f s)) s"
  by (cases s) (simp add: forget_file_def split: option.split)

lemma forget_taken: "forget_file g f (taken l s) = taken l (forget_file g f s)"
  by (simp add: forget_file_def taken_def split: option.split)

lemma forget_sel [simp]: "f_lk (forget_file g f s) = f_lk s" "vn_refcount (forget_file g f s) = vn_refcount s" "vn_ops (forget_file g f s) = vn_ops s"
  by (simp_all add: forget_file_def split: option.split)

lemma whole_taken: "whole s x \<Longrightarrow> l \<noteq> obj_lock s x \<Longrightarrow> whole (taken l s) x"
proof -
  assume w: "whole s x" and l: "l \<noteq> obj_lock s x"
  have "obj_lock (taken l s) x = obj_lock s x" "obj_addr (taken l s) x = obj_addr s x" by (cases x; simp)+
  then show ?thesis using w l by (simp add: whole_def obj_blocks_def lock_blocks_def)
qed

lemma obj_blocks_taken [simp]: "obj_blocks (taken l s) x = obj_blocks s x"
  by (cases x) (simp_all add: obj_blocks_def lock_blocks_def)

text \<open>A reference is given back, and then an object goes.\<close>

lemma close_and_destroy:
  assumes c: "fs_contract T" and ok: "vnodes_ok T s" and v: "droppable T s v" and w: "whole s x"
  obtains s' where "do { s \<leftarrow> vfs_close T v s; s \<leftarrow> lock_destroy (obj_lock s x) s; kfree (obj_addr s x) s } = Some s'"
    "effect T s s' (- one v) (set (obj_blocks s x))" "vnodes.more s' = vnodes.more s"
proof -
  obtain s1 where s1: "vnode_decref T v s = Some s1" "step T s s1 (- one v)"
    using decref_ok [OF c ok v] by (metis step_def)
  then have e1: "effect T s s1 (- one v) {}" and m1: "vnodes.more s1 = vnodes.more s" by (simp_all add: step_effect)
  note w1 = effect_whole [OF e1 more_obj [OF m1] w, simplified]
  let ?s2 = "s1\<lparr>live := live s1 - set (obj_blocks s1 x)\<rparr>"
  have "set (obj_blocks s1 x) \<subseteq> own s1" using w1(1) by (simp add: whole_def)
  note f = effect_free [OF effectD(1) [OF e1] this]
  have "effect T s ?s2 (- one v) (set (obj_blocks s x))" using effect_then_same [OF e1 f(1)] w1(2) by simp
  moreover have "vnodes.more ?s2 = vnodes.more s" using f(2) m1 by simp
  ultimately show thesis using that [of ?s2] s1(1) destroy_obj [OF w1(1)] by (simp add: vfs_close_def)
qed

lemma file_destroy_spec:
  assumes c: "fs_contract T" and ok: "vnodes_ok T s" and v: "droppable T s (f_node s f)" and w: "whole s (File f)"
    and g: "whole s Global" and gf: "gt_lk s (global_file_table s) \<noteq> f_lk s f" and std: "\<not> f_is_standard s f"
  obtains s' where "file_destroy T f s = Some (vn_refcount s (f_node s f) = 1, s')"
    "effect T s s' (- one (f_node s f)) (if vn_refcount s (f_node s f) = 1 then set (obj_blocks s (File f)) else {})"
    "vnodes.more s' = vnodes.more (if vn_refcount s (f_node s f) = 1 then forget_file (global_file_table s) f s else s)"
proof -
  let ?v = "f_node s f" and ?g = "global_file_table s"
  let ?l = "gt_lk s ?g"
  have f0: "f \<noteq> 0" using w by (auto simp: whole_def obj_blocks_def)
  have l: "lock_idle s ?l" using g by (simp add: whole_def)
  have v0: "?v \<noteq> 0" using vnode_checkD [OF ok dropped_pos [OF v]] by (auto simp: vnode_check_def split: if_splits)
  let ?body = "\<lambda>s. if vn_refcount s ?v = 1 then do {
      let s = forget_file (global_file_table s) f s;
      s \<leftarrow> vfs_close T ?v s; s \<leftarrow> lock_destroy (f_lk s f) s; s \<leftarrow> kfree f s; Some (True, s) }
    else do { s \<leftarrow> vfs_close T ?v s; Some (False, s) }"
  have fd: "file_destroy T f s = critical ?l ?body s" using f0 std v0 by (simp add: file_destroy_def Let_def)
  obtain s1 where s1: "?body (taken ?l s) = Some (vn_refcount s ?v = 1, s1)"
    "effect T (taken ?l s) s1 (- one ?v) (if vn_refcount s ?v = 1 then set (obj_blocks s (File f)) else {})"
    "vnodes.more s1 = vnodes.more (if vn_refcount s ?v = 1 then forget_file ?g f s else s)"
  proof (cases "vn_refcount s ?v = 1")
    case True
    let ?a = "forget_file ?g f (taken ?l s)"
    have ea: "effect T (taken ?l s) ?a (\<lambda>_. 0) {}" using ok by (intro effect_fields [OF _ forget_more]) simp
    have wa: "whole ?a (File f)" "obj_blocks ?a (File f) = obj_blocks s (File f)"
      using effect_whole [OF ea _ _ whole_taken [OF w, of ?l]] gf by simp_all
    have da: "droppable T ?a ?v" using v by (simp add: droppable_def)
    obtain s1 where s1: "do { s \<leftarrow> vfs_close T ?v ?a; s \<leftarrow> lock_destroy (obj_lock s (File f)) s; kfree (obj_addr s (File f)) s } = Some s1"
      "effect T ?a s1 (- one ?v) (set (obj_blocks ?a (File f)))" "vnodes.more s1 = vnodes.more ?a"
      by (rule close_and_destroy [OF c effectD(1) [OF ea] da wa(1)])
    note s1 = s1 [unfolded wa(2) obj_addr.simps obj_lock.simps]
    have b: "?body (taken ?l s) = Option.bind (do { s \<leftarrow> vfs_close T ?v ?a; s \<leftarrow> lock_destroy (f_lk s f) s; kfree f s }) (\<lambda>s. Some (True, s))"
      using True by (simp add: Let_def)
    have "effect T (taken ?l s) s1 (- one ?v) (set (obj_blocks s (File f)))" using effect_same_then [OF ea s1(2)] by simp
    moreover have "vnodes.more s1 = vnodes.more (forget_file ?g f s)" using s1(3) by (simp add: forget_taken)
    moreover have "?body (taken ?l s) = Some (True, s1)" unfolding b s1(1) by simp
    ultimately show thesis using that [of s1] True by simp
  next
    case False
    obtain s1 where s1: "vnode_decref T ?v (taken ?l s) = Some s1" "step T (taken ?l s) s1 (- one ?v)"
      using decref_ok [OF c, of "taken ?l s" ?v] ok v by (metis step_def taken_ok taken_low(2))
    then show thesis using that [of s1] False by (simp add: vfs_close_def step_effect)
  qed
  note ce = critical_effect [where f = ?body and l = ?l and s = s, OF l s1(1,2)]
  show thesis by (rule that [OF _ ce(2)]) (simp_all add: fd ce(1,3) s1(3))
qed

lemma forget_fields:
  "fd_lk (forget_file g f s) = fd_lk s" "fd_file (forget_file g f s) = fd_file s" "fd_standard (forget_file g f s) = fd_standard s"
  "f_node (forget_file g f s) = f_node s" "f_is_standard (forget_file g f s) = f_is_standard s" "lt_files (forget_file g f s) = lt_files s"
  "lt_lk (forget_file g f s) = lt_lk s" "gt_lk (forget_file g f s) = gt_lk s" "global_file_table (forget_file g f s) = global_file_table s"
  "stdin_fd (forget_file g f s) = stdin_fd s" "stdout_fd (forget_file g f s) = stdout_fd s" "stderr_fd (forget_file g f s) = stderr_fd s"
  "lt_num (forget_file g f s) = lt_num s"
  by (simp_all add: forget_file_def split: option.split)

lemma desc_destroy_spec:
  assumes c: "fs_contract T" and ok: "vnodes_ok T s" and v: "droppable T s (f_node s (fd_file s d))"
    and wf: "whole s (File (fd_file s d))" and wd: "whole s (Desc d)" and g: "whole s Global"
    and apart: "set (obj_blocks s Global) \<inter> set (obj_blocks s (File (fd_file s d))) = {}" "set (obj_blocks s (Desc d)) \<inter> set (obj_blocks s (File (fd_file s d))) = {}"
    and std: "\<not> f_is_standard s (fd_file s d)" "d \<notin> {stdin_fd s, stdout_fd s, stderr_fd s}"
  obtains s' where "file_desc_destroy T d s = Some s'"
    "effect T s s' (- one (f_node s (fd_file s d)))
       (if vn_refcount s (f_node s (fd_file s d)) = 1 then set (obj_blocks s (File (fd_file s d))) \<union> set (obj_blocks s (Desc d)) else {})"
    "vnodes.more s' = vnodes.more (if vn_refcount s (f_node s (fd_file s d)) = 1 then forget_file (global_file_table s) (fd_file s d) s else s)"
proof -
  let ?f = "fd_file s d"
  let ?v = "f_node s ?f"
  have 0: "d \<noteq> 0" "?f \<noteq> 0" using wd wf by (auto simp: whole_def obj_blocks_def)
  have "gt_lk s (global_file_table s) \<noteq> f_lk s ?f" using apart(1) by (auto simp: obj_blocks_def lock_blocks_def)
  from file_destroy_spec [OF c ok v wf g this std(1)] obtain s1 where s1: "file_destroy T ?f s = Some (vn_refcount s ?v = 1, s1)"
    "effect T s s1 (- one ?v) (if vn_refcount s ?v = 1 then set (obj_blocks s (File ?f)) else {})"
    "vnodes.more s1 = vnodes.more (if vn_refcount s ?v = 1 then forget_file (global_file_table s) ?f s else s)" .
  have fdd: "file_desc_destroy T d s = do {
      (removed, s) \<leftarrow> file_destroy T ?f s;
      if removed then do { s \<leftarrow> lock_destroy (fd_lk s d) s; kfree d s } else Some s }"
    using 0 std(2) by (simp add: file_desc_destroy_def)
  show thesis
  proof (cases "vn_refcount s ?v = 1")
    case True
    have m: "fd_lk s1 = fd_lk s" using files_fields(7) [OF s1(3)] True by (simp add: forget_fields)
    have e1: "effect T s s1 (- one ?v) (set (obj_blocks s (File ?f)))" using s1(2) True by simp
    note w1 = effect_whole [OF e1 _ _ wd apart(2), simplified, OF fun_cong [OF m]]
    let ?s2 = "s1\<lparr>live := live s1 - set (obj_blocks s1 (Desc d))\<rparr>"
    have "set (obj_blocks s1 (Desc d)) \<subseteq> own s1" using w1(1) by (simp add: whole_def)
    note fr = effect_free [OF effectD(1) [OF e1] this]
    have "do { s \<leftarrow> lock_destroy (fd_lk s1 d) s1; kfree d s } = Some ?s2" using destroy_obj [OF w1(1)] by simp
    then have "file_desc_destroy T d s = Some ?s2" unfolding fdd s1(1) using True by simp
    moreover have "effect T s ?s2 (- one ?v) (set (obj_blocks s (File ?f)) \<union> set (obj_blocks s (Desc d)))"
      using effect_then_same [OF e1 fr(1)] w1(2) by simp
    moreover have "vnodes.more ?s2 = vnodes.more (forget_file (global_file_table s) ?f s)" using fr(2) s1(3) True by simp
    ultimately show thesis using that [of ?s2] True by simp
  next
    case False
    then have "file_desc_destroy T d s = Some s1" unfolding fdd s1(1) by simp
    then show thesis using that [of s1] s1(2,3) False by simp
  qed
qed

section \<open>The invariant\<close>

definition stds :: "('d, 'a) files_scheme \<Rightarrow> addr set" where
  "stds s = {stdin_fd s, stdout_fd s, stderr_fd s}"

definition used :: "('d, 'a) files_scheme \<Rightarrow> addr set \<Rightarrow> addr set" where
  "used s TS = (\<Union>t\<in>TS. set (lt_files s t)) \<union> stds s - {0}"

definition open_files :: "('d, 'a) files_scheme \<Rightarrow> addr set" where
  "open_files s = set (gt_files s (global_file_table s)) - {0}"

definition objs :: "('d, 'a) files_scheme \<Rightarrow> addr set \<Rightarrow> obj set" where
  "objs s TS = insert Global (Table ` TS \<union> Desc ` used s TS \<union> File ` open_files s)"

text \<open>The slots that refer to a vnode.\<close>

definition slots :: "('d, 'a) files_scheme \<Rightarrow> addr set \<Rightarrow> addr \<Rightarrow> (addr \<times> nat) set" where
  "slots s TS v = {(t, i). t \<in> TS \<and> i < length (lt_files s t) \<and> lt_files s t ! i \<notin> insert 0 (stds s)
     \<and> f_node s (fd_file s (lt_files s t ! i)) = v}"

definition apart :: "('d, 'a) files_scheme \<Rightarrow> obj set \<Rightarrow> bool" where
  "apart s X \<longleftrightarrow> (\<forall>x\<in>X. whole s x) \<and> (\<forall>x\<in>X. \<forall>y\<in>X. x \<noteq> y \<longrightarrow> set (obj_blocks s x) \<inter> set (obj_blocks s y) = {})"

definition desc_ok :: "('d, 'a) files_scheme \<Rightarrow> addr \<Rightarrow> bool" where
  "desc_ok s d \<longleftrightarrow> fd_file s d \<in> open_files s \<and> (f_is_standard s (fd_file s d) \<longleftrightarrow> d \<in> stds s) \<and> (fd_standard s d = - 1 \<longleftrightarrow> d \<notin> stds s)
     \<and> (d \<in> stds s \<longrightarrow> f_node s (fd_file s d) = 0)"

definition tables_ok :: "('d, 'a) files_scheme optables \<Rightarrow> ('d, 'a) files_scheme \<Rightarrow> addr set \<Rightarrow> bool" where
  "tables_ok T s TS \<longleftrightarrow> vnodes_ok T s \<and> finite TS \<and> apart s (objs s TS)
     \<and> (\<forall>t\<in>TS. length (lt_files s t) = MAX_LOCAL_TABLE_SIZE) \<and> 0 \<notin> stds s
     \<and> (\<forall>d\<in>used s TS. desc_ok s d)
     \<and> length (gt_files s (global_file_table s)) = MAX_GLOBAL_TABLE_SIZE \<and> distinct (filter ((\<noteq>) 0) (gt_files s (global_file_table s)))
     \<and> (\<forall>v. int (card (slots s TS v)) \<le> vn_refcount s v)
     \<and> (\<forall>v. slots s TS v \<noteq> {} \<and> vn_ops s v = dev_ops T \<longrightarrow> int (card (slots s TS v)) < vn_refcount s v)"

text \<open>Changes to the tables that leave the objects themselves alone.\<close>

definition same_objs :: "('d, 'a) files_scheme \<Rightarrow> ('d, 'a) files_scheme \<Rightarrow> bool" where
  "same_objs s s' \<longleftrightarrow> f_node s' = f_node s \<and> f_lk s' = f_lk s \<and> f_is_standard s' = f_is_standard s \<and> fd_file s' = fd_file s
     \<and> fd_lk s' = fd_lk s \<and> fd_standard s' = fd_standard s \<and> lt_lk s' = lt_lk s \<and> gt_lk s' = gt_lk s
     \<and> global_file_table s' = global_file_table s \<and> stdin_fd s' = stdin_fd s \<and> stdout_fd s' = stdout_fd s \<and> stderr_fd s' = stderr_fd s"

lemma same_objs_obj: "same_objs s s' \<Longrightarrow> obj_addr s' x = obj_addr s x \<and> obj_lock s' x = obj_lock s x"
  by (cases x) (simp_all add: same_objs_def)

lemma apart_mono: "apart s X \<Longrightarrow> Y \<subseteq> X \<Longrightarrow> apart s Y"
  unfolding apart_def by (meson subsetD)

lemma apart_effect:
  assumes e: "effect T s s' d B" and m: "same_objs s s'" and a: "apart s X" and b: "\<And>x. x \<in> X \<Longrightarrow> set (obj_blocks s x) \<inter> B = {}"
  shows "apart s' X"
proof -
  have "whole s' x \<and> obj_blocks s' x = obj_blocks s x" if "x \<in> X" for x
    using effect_whole [OF e, of x] same_objs_obj [OF m, of x] a b that by (auto simp: apart_def)
  then show ?thesis using a by (simp add: apart_def)
qed

lemma finite_slots: "finite TS \<Longrightarrow> (\<And>t. t \<in> TS \<Longrightarrow> length (lt_files s t) = n) \<Longrightarrow> finite (slots s TS v)"
  by (rule finite_subset [of _ "TS \<times> {..<n}"]) (auto simp: slots_def)

lemma stds_same: "same_objs s s' \<Longrightarrow> stds s' = stds s"
  by (simp add: same_objs_def stds_def)

lemma desc_ok_same: "same_objs s s' \<Longrightarrow> fd_file s d \<in> open_files s' \<Longrightarrow> desc_ok s d \<Longrightarrow> desc_ok s' d"
  by (simp add: desc_ok_def stds_same) (simp add: same_objs_def)

text \<open>What one slot says of the state.\<close>

lemma slot_facts:
  assumes ok: "tables_ok T s TS" and t: "t \<in> TS" and i: "i < 16" and d: "lt_files s t ! i \<notin> insert 0 (stds s)"
  defines "fd \<equiv> lt_files s t ! i" and "f \<equiv> fd_file s (lt_files s t ! i)" and "v \<equiv> f_node s (fd_file s (lt_files s t ! i))"
  shows "fd \<in> used s TS" "desc_ok s fd" "f \<in> open_files s" "\<not> f_is_standard s f" "(t, i) \<in> slots s TS v" "droppable T s v"
    "Desc fd \<in> objs s TS" "File f \<in> objs s TS"
proof -
  have l: "length (lt_files s t) = 16" using ok t by (simp add: tables_ok_def MAX_LOCAL_TABLE_SIZE_def)
  then have "lt_files s t ! i \<in> set (lt_files s t)" using i by simp
  then show u: "fd \<in> used s TS" using t d unfolding used_def fd_def by blast
  then show dk: "desc_ok s fd" using ok by (simp add: tables_ok_def)
  then show f: "f \<in> open_files s" "\<not> f_is_standard s f" using d by (auto simp: desc_ok_def f_def fd_def)
  show sl: "(t, i) \<in> slots s TS v" using t i d l by (simp add: slots_def v_def)
  have fin: "finite (slots s TS v)" using ok by (intro finite_slots) (auto simp: tables_ok_def)
  then have "0 < card (slots s TS v)" using sl by (auto simp: card_gt_0_iff)
  moreover have "int (card (slots s TS v)) \<le> vn_refcount s v" "vn_ops s v = dev_ops T \<longrightarrow> int (card (slots s TS v)) < vn_refcount s v"
    using ok sl by (auto simp: tables_ok_def)
  ultimately show "droppable T s v" by (auto simp: droppable_def)
  show "Desc fd \<in> objs s TS" "File f \<in> objs s TS" using u f by (auto simp: objs_def)
qed

text \<open>A slot is emptied, and its reference given back.\<close>

lemma slots_cleared:
  assumes "same_objs s s'" and "lt_files s' = (lt_files s)(t := (lt_files s t)[i := 0])"
  shows "slots s' TS v = slots s TS v - {(t, i)}"
proof -
  have e: "lt_files s' u ! j = (if u = t \<and> j = i then 0 else lt_files s u ! j)" if "j < length (lt_files s u)" for u j
    using that assms(2) by (cases "u = t"; cases "j = i") simp_all
  have l: "length (lt_files s' u) = length (lt_files s u)" for u using assms(2) by simp
  have o: "f_node s' = f_node s" "fd_file s' = fd_file s" "stds s' = stds s" using assms(1) stds_same [OF assms(1)] by (simp_all add: same_objs_def)
  show ?thesis unfolding slots_def o l by (auto simp: e split: if_splits)
qed

lemma used_cleared:
  assumes "same_objs s s'" and "lt_files s' = (lt_files s)(t := (lt_files s t)[i := 0])"
  shows "used s' TS \<subseteq> used s TS"
proof -
  have "set (lt_files s' u) \<subseteq> insert 0 (set (lt_files s u))" for u
    using assms(2) set_update_subset_insert [of "lt_files s t" i 0] by (cases "u = t") auto
  then show ?thesis unfolding used_def stds_same [OF assms(1)] by blast
qed

lemma tables_ok_cleared:
  assumes ok: "tables_ok T s TS" and t: "t \<in> TS" and i: "i < 16" and d: "lt_files s t ! i \<notin> insert 0 (stds s)"
    and so: "same_objs s s'" and lt: "lt_files s' = (lt_files s)(t := (lt_files s t)[i := 0])"
    and v: "v = f_node s (fd_file s (lt_files s t ! i))"
    and cases: "(vn_refcount s v \<noteq> 1 \<and> effect T s s' (- one v) {} \<and> gt_files s' = gt_files s)
      \<or> (vn_refcount s v = 1 \<and> effect T s s' (- one v) (set (obj_blocks s (File (fd_file s (lt_files s t ! i)))) \<union> set (obj_blocks s (Desc (lt_files s t ! i))))
          \<and> gt_files s' = (gt_files s)(global_file_table s := map (\<lambda>f. if f = fd_file s (lt_files s t ! i) then 0 else f) (gt_files s (global_file_table s))))"
  shows "tables_ok T s' TS"
proof -
  let ?d = "lt_files s t ! i" and ?g = "global_file_table s"
  let ?f = "fd_file s ?d"
  note sf = slot_facts [OF ok t i d, folded v]
  obtain B where e: "effect T s s' (- one v) B" using cases by blast
  have g: "global_file_table s' = ?g" and stds: "stds s' = stds s" using so stds_same [OF so] by (simp_all add: same_objs_def)
  have ops: "vn_ops s' u = vn_ops s u" if "0 < vn_refcount s' u" for u
  proof -
    have "0 < vn_refcount s u" using that effectD(4) [OF e, of u] by (auto simp: one_def split: if_splits)
    then show ?thesis using that effectD(5) [OF e] by (simp add: kept_def)
  qed
  have sl: "slots s' TS u = slots s TS u - {(t, i)}" for u by (rule slots_cleared [OF so lt])
  have fin: "finite (slots s TS u)" for u using ok by (intro finite_slots) (auto simp: tables_ok_def)
  have cnt: "int (card (slots s' TS u)) \<le> vn_refcount s' u \<and> (slots s' TS u \<noteq> {} \<and> vn_ops s' u = dev_ops T \<longrightarrow> int (card (slots s' TS u)) < vn_refcount s' u)" for u
  proof (cases "u = v")
    case True
    have c: "int (card (slots s' TS v)) = int (card (slots s TS v)) - 1"
      using sf(5) fin card_gt_0_iff [of "slots s TS v"] by (auto simp: sl card_Diff_singleton of_nat_diff)
    have "int (card (slots s TS v)) \<le> vn_refcount s v" "vn_ops s v = dev_ops T \<longrightarrow> int (card (slots s TS v)) < vn_refcount s v"
      using ok sf(5) by (auto simp: tables_ok_def)
    moreover have "slots s' TS v \<noteq> {} \<Longrightarrow> 0 < vn_refcount s' v"
      using calculation c effectD(4) [OF e, of v] fin [of v] card_gt_0_iff [of "slots s' TS v"] by (auto simp: one_def sl)
    moreover from this have "slots s' TS v \<noteq> {} \<Longrightarrow> vn_ops s' v = vn_ops s v" using ops by blast
    moreover have "vn_refcount s' v = vn_refcount s v - 1" using effectD(4) [OF e, of v] by (simp add: one_def)
    ultimately show ?thesis unfolding True using c by (metis diff_mono diff_strict_right_mono order_refl)
  next
    case False
    have "f_node s (fd_file s ?d) \<noteq> u" using False v by simp
    then have "(t, i) \<notin> slots s TS u" by (simp add: slots_def)
    then have "slots s' TS u = slots s TS u" by (simp add: sl)
    moreover have "vn_refcount s' u = vn_refcount s u" using effectD(4) [OF e, of u] False by (simp add: one_def)
    moreover have "int (card (slots s TS u)) \<le> vn_refcount s u" "slots s TS u \<noteq> {} \<and> vn_ops s u = dev_ops T \<longrightarrow> int (card (slots s TS u)) < vn_refcount s u"
      using ok by (auto simp: tables_ok_def)
    moreover have "slots s TS u \<noteq> {} \<Longrightarrow> 0 < card (slots s TS u)" using fin by (simp add: card_gt_0_iff)
    ultimately show ?thesis using ops [of u] by fastforce
  qed
  have u: "used s' TS \<subseteq> used s TS" by (rule used_cleared [OF so lt])
  have len: "\<forall>u\<in>TS. length (lt_files s' u) = MAX_LOCAL_TABLE_SIZE" using ok by (simp add: tables_ok_def lt)
  have rest: "apart s' (objs s' TS) \<and> (\<forall>x\<in>used s' TS. desc_ok s' x) \<and> length (gt_files s' ?g) = MAX_GLOBAL_TABLE_SIZE \<and> distinct (filter ((\<noteq>) 0) (gt_files s' ?g))"
    using cases
  proof (elim disjE conjE)
    assume eB: "effect T s s' (- one v) {}" and gt: "gt_files s' = gt_files s"
    have of': "open_files s' = open_files s" by (simp add: open_files_def g gt)
    then have "objs s' TS \<subseteq> objs s TS" using u by (auto simp: objs_def)
    then have "apart s (objs s' TS)" using ok apart_mono by (auto simp: tables_ok_def)
    from apart_effect [OF eB so this] have "apart s' (objs s' TS)" by simp
    moreover have "desc_ok s' x" if "x \<in> used s' TS" for x
    proof -
      have dk: "desc_ok s x" using ok u that by (auto simp: tables_ok_def)
      then have "fd_file s x \<in> open_files s'" by (simp add: desc_ok_def of')
      then show ?thesis using desc_ok_same [OF so _ dk] by simp
    qed
    ultimately show ?thesis using ok by (simp add: tables_ok_def gt)
  next
    assume r1: "vn_refcount s v = 1" and eB: "effect T s s' (- one v) (set (obj_blocks s (File ?f)) \<union> set (obj_blocks s (Desc ?d)))"
      and gt: "gt_files s' = (gt_files s)(?g := map (\<lambda>f. if f = ?f then 0 else f) (gt_files s ?g))"
    have of': "open_files s' = open_files s - {?f}" by (auto simp: open_files_def g gt)
    have "int (card (slots s TS v)) \<le> 1" using ok r1 by (metis tables_ok_def)
    then have only: "slots s TS v = {(t, i)}" using sf(5) fin [of v] by (metis card_le_Suc0_iff_eq One_nat_def of_nat_le_iff of_nat_1 is_singletonI' is_singleton_the_elem singletonD empty_iff)
    have other: "fd_file s x \<noteq> ?f \<and> x \<noteq> ?d" if x: "x \<in> used s' TS" for x
    proof (cases "x \<in> stds s")
      case True
      then have "f_is_standard s (fd_file s x)" using ok u x by (auto simp: tables_ok_def desc_ok_def)
      then show ?thesis using sf(4) by auto
    next
      case False
      then obtain t' where t': "t' \<in> TS" "x \<in> set (lt_files s' t')" "x \<noteq> 0" using x stds by (auto simp: used_def)
      then obtain i' where i': "i' < length (lt_files s' t')" "lt_files s' t' ! i' = x" by (auto simp: in_set_conv_nth)
      have "(t', i') \<in> slots s' TS (f_node s (fd_file s x))" using t' i' False so stds by (auto simp: slots_def same_objs_def)
      then have "f_node s (fd_file s x) \<noteq> v" using only by (auto simp: sl)
      then show ?thesis using v by auto
    qed
    have sub: "objs s' TS \<subseteq> objs s TS - {File ?f, Desc ?d}" using u other of' by (auto simp: objs_def)
    have ap: "apart s (objs s TS)" using ok by (simp add: tables_ok_def)
    have a': "apart s (objs s' TS)" using apart_mono [OF ap] sub by blast
    have dj: "set (obj_blocks s x) \<inter> (set (obj_blocks s (File ?f)) \<union> set (obj_blocks s (Desc ?d))) = {}" if "x \<in> objs s' TS" for x
    proof -
      have "x \<in> objs s TS" "x \<noteq> File ?f" "x \<noteq> Desc ?d" using sub that by auto
      then have "set (obj_blocks s x) \<inter> set (obj_blocks s (File ?f)) = {}" "set (obj_blocks s x) \<inter> set (obj_blocks s (Desc ?d)) = {}"
        using ap sf(7,8) unfolding apart_def by blast+
      then show ?thesis by (simp add: Int_Un_distrib)
    qed
    from apart_effect [OF eB so a' dj] have "apart s' (objs s' TS)" .
    moreover have "desc_ok s' x" if "x \<in> used s' TS" for x
    proof -
      have dk: "desc_ok s x" using ok u that by (auto simp: tables_ok_def)
      then have "fd_file s x \<in> open_files s'" using other [OF that] by (simp add: desc_ok_def of')
      then show ?thesis using desc_ok_same [OF so _ dk] by simp
    qed
    moreover have "distinct (filter ((\<noteq>) 0) (map (\<lambda>f. if f = ?f then 0 else f) xs))" if "distinct (filter ((\<noteq>) 0) xs)" for xs
    proof -
      have "filter ((\<noteq>) 0) (map (\<lambda>f. if f = ?f then 0 else f) xs) = filter (\<lambda>x. x \<noteq> ?f) (filter ((\<noteq>) 0) xs)" by (induction xs) auto
      then show ?thesis using distinct_filter [OF that] by (simp only:)
    qed
    ultimately show ?thesis using ok by (simp add: tables_ok_def gt)
  qed
  show ?thesis
    using ok rest cnt len effectD(1) [OF e] by (simp add: tables_ok_def g stds)
qed

text \<open>Other changes of slots, with nothing freed.\<close>

lemma tables_ok_update:
  assumes ok: "tables_ok T s TS" and e: "effect T s s' d {}" and so: "same_objs s s'" and gt: "gt_files s' = gt_files s"
    and len: "\<And>t. t \<in> TS \<Longrightarrow> length (lt_files s' t) = 16" and u: "used s' TS \<subseteq> used s TS"
    and cnt: "\<And>v. int (card (slots s' TS v)) \<le> vn_refcount s' v"
      "\<And>v. slots s' TS v \<noteq> {} \<Longrightarrow> vn_ops s' v = dev_ops T \<Longrightarrow> int (card (slots s' TS v)) < vn_refcount s' v"
  shows "tables_ok T s' TS"
proof -
  have g: "global_file_table s' = global_file_table s" using so by (simp add: same_objs_def)
  have of': "open_files s' = open_files s" by (simp add: open_files_def g gt)
  then have "objs s' TS \<subseteq> objs s TS" using u by (auto simp: objs_def)
  then have "apart s (objs s' TS)" using ok apart_mono by (auto simp: tables_ok_def)
  from apart_effect [OF e so this] have "apart s' (objs s' TS)" by simp
  moreover have "desc_ok s' x" if "x \<in> used s' TS" for x
  proof -
    have dk: "desc_ok s x" using ok u that by (auto simp: tables_ok_def)
    then have "fd_file s x \<in> open_files s'" by (simp add: desc_ok_def of')
    then show ?thesis using desc_ok_same [OF so _ dk] by simp
  qed
  ultimately show ?thesis
    using ok effectD(1) [OF e] len cnt by (simp add: tables_ok_def gt g stds_same [OF so] MAX_LOCAL_TABLE_SIZE_def)
qed

text \<open>The counts of a state, and those after an effect that keeps them.\<close>

lemma tables_count: "tables_ok T s TS \<Longrightarrow> int (card (slots s TS v)) \<le> vn_refcount s v"
  "tables_ok T s TS \<Longrightarrow> slots s TS v \<noteq> {} \<Longrightarrow> vn_ops s v = dev_ops T \<Longrightarrow> int (card (slots s TS v)) < vn_refcount s v"
  "tables_ok T s TS \<Longrightarrow> finite (slots s TS v)"
  by (auto simp: tables_ok_def intro: finite_slots)

lemma slots_pos: "tables_ok T s TS \<Longrightarrow> slots s TS v \<noteq> {} \<Longrightarrow> 0 < vn_refcount s v"
proof -
  assume a: "tables_ok T s TS" "slots s TS v \<noteq> {}"
  then have "0 < card (slots s TS v)" using tables_count(3) [OF a(1), of v] by (simp add: card_gt_0_iff)
  then show ?thesis using tables_count(1) [OF a(1), of v] by linarith
qed

lemma forget_map:
  assumes "distinct (filter ((\<noteq>) 0) (gt_files s g))" and "f \<in> set (gt_files s g)" and "f \<noteq> 0"
  shows "gt_files (forget_file g f s) = (gt_files s)(g := map (\<lambda>x. if x = f then 0 else x) (gt_files s g))"
proof -
  have m: "xs[length (takeWhile (\<lambda>x. x \<noteq> f) xs) := 0] = map (\<lambda>x. if x = f then 0 else x) xs \<and> length (takeWhile (\<lambda>x. x \<noteq> f) xs) < length xs"
    if "distinct (filter ((\<noteq>) 0) xs)" "f \<in> set xs" for xs
    using that
  proof (induction xs)
    case (Cons x xs)
    show ?case
    proof (cases "x = f")
      case True
      then have "f \<notin> set xs" using Cons.prems assms(3) by auto
      then have "map (\<lambda>x. if x = f then 0 else x) xs = xs" by (induction xs) auto
      then show ?thesis using True by simp
    next
      case False
      then show ?thesis using Cons by (auto split: if_splits)
    qed
  qed simp
  show ?thesis using m [OF assms(1,2)] by (simp add: forget_file_def first_idx_def)
qed

section \<open>Closing\<close>

text \<open>The slot is emptied, and the objects are those of before or fewer.\<close>

definition emptied :: "addr \<Rightarrow> nat \<Rightarrow> ('d, 'a) files_scheme \<Rightarrow> ('d, 'a) files_scheme \<Rightarrow> bool" where
  "emptied t i s s' \<longleftrightarrow> same_objs s s' \<and> lt_files s' = (lt_files s)(t := (lt_files s t)[i := 0])"

lemma lock_apart:
  assumes "apart s X" and "x \<in> X" and "y \<in> X" and "x \<noteq> y"
  shows "obj_lock s x \<noteq> obj_lock s y"
  using assms by (auto simp: apart_def obj_blocks_def lock_blocks_def)

lemma close_slot:
  assumes c: "fs_contract T" and ok: "tables_ok T s TS" and t: "t \<in> TS" and i: "i < 16" and d: "lt_files s t ! i \<noteq> 0"
    and s0: "s0 = (put_slot t (int i) 0 (taken (lt_lk s t) s))\<lparr>lt_num := n\<rparr>"
  obtains s1 where "file_desc_destroy T (lt_files s t ! i) s0 = Some s1" "lock_mine s1 (lt_lk s t)"
    "tables_ok T (dropped (lt_lk s t) s1) TS" "emptied t i s (dropped (lt_lk s t) s1)" "lt_num s1 = n"
    "\<And>v. vn_refcount s1 v = vn_refcount s v - (if (t, i) \<in> slots s TS v then 1 else 0)"
    "same_sync (taken (lt_lk s t) s) s1" "kept s s1"
proof -
  let ?l = "lt_lk s t" and ?d = "lt_files s t ! i" and ?g = "global_file_table s"
  let ?f = "fd_file s ?d"
  let ?v = "f_node s ?f"
  have vo: "vnodes_ok T s" and ap: "apart s (objs s TS)" using ok by (simp_all add: tables_ok_def)
  have tab: "Table t \<in> objs s TS" "Global \<in> objs s TS" using t by (auto simp: objs_def)
  have l: "lock_idle s ?l" using ap tab(1) by (auto simp: apart_def whole_def)
  have e0: "effect T (taken ?l s) s0 (\<lambda>_. 0) {}"
    by (rule effect_fields [of _ _ _ "vnodes.more s0"]) (use vo in \<open>simp, cases s, simp add: s0 put_slot_def taken_def\<close>)
  have same0: "same_objs s s0" "gt_files s0 = gt_files s" "lt_files s0 = (lt_files s)(t := (lt_files s t)[i := 0])" "vn_refcount s0 = vn_refcount s"
    "lt_num s0 = n"
    by (simp_all add: s0 put_slot_def same_objs_def)
  have len: "length (lt_files s u) = 16" if "u \<in> TS" for u using ok that by (simp add: tables_ok_def MAX_LOCAL_TABLE_SIZE_def)
  show thesis
  proof (cases "?d \<in> stds s")
    case True
    have fd: "file_desc_destroy T ?d s0 = Some s0" using True d same0(1) by (simp add: file_desc_destroy_def stds_def same_objs_def)
    let ?s' = "dropped ?l s0"
    have em: "emptied t i s ?s'" using same0 by (simp add: emptied_def same_objs_def dropped_def)
    have e': "effect T s ?s' (\<lambda>_. 0) {}" by (rule effect_locked(2) [OF l e0])
    have n: "(t, i) \<notin> slots s TS v" for v using True by (simp add: slots_def)
    have sl: "slots ?s' TS v = slots s TS v" for v using slots_cleared [of s ?s' t i TS v] em n by (simp add: emptied_def)
    have "tables_ok T ?s' TS"
    proof (rule tables_ok_update [OF ok e'])
      show "same_objs s ?s'" "used ?s' TS \<subseteq> used s TS" using em used_cleared [of s ?s' t i TS] by (simp_all add: emptied_def)
      show "gt_files ?s' = gt_files s" using same0 by (simp add: dropped_def)
      show "length (lt_files ?s' u) = 16" if "u \<in> TS" for u using em len [OF that] len [OF t] by (simp add: emptied_def)
      fix v
      show "int (card (slots ?s' TS v)) \<le> vn_refcount ?s' v" using tables_count(1) [OF ok] effectD(4) [OF e'] by (simp add: sl)
      assume a: "slots ?s' TS v \<noteq> {}" "vn_ops ?s' v = dev_ops T"
      have "vn_ops ?s' v = vn_ops s v" using effectD(5) [OF e'] slots_pos [OF ok, of v] a(1) effectD(4) [OF e', of v] by (simp add: kept_def sl)
      then show "int (card (slots ?s' TS v)) < vn_refcount ?s' v" using tables_count(2) [OF ok, of v] a effectD(4) [OF e', of v] by (simp add: sl)
    qed
    then show thesis
      using that [OF fd effect_locked(1) [OF l e0] _ em same0(5)] n effectD(2) [OF e0] effectD(5) [OF e'] same0(4) by (simp add: kept_def)
  next
    case False
    then have d': "?d \<notin> insert 0 (stds s)" using d by simp
    note sf = slot_facts [OF ok t i d']
    have wh: "whole s0 x" "obj_blocks s0 x = obj_blocks s x" if x: "x \<in> objs s TS" "x \<noteq> Table t" for x
    proof -
      have "?l \<noteq> obj_lock s x" using lock_apart [OF ap tab(1) x(1)] x(2) by auto
      then have w: "whole (taken ?l s) x" using whole_taken ap x by (auto simp: apart_def)
      have a: "obj_addr s0 x = obj_addr (taken ?l s) x" "obj_lock s0 x = obj_lock (taken ?l s) x"
        using same_objs_obj [OF same0(1), of x] by (cases x; simp)+
      show "whole s0 x" "obj_blocks s0 x = obj_blocks s x" using effect_whole [OF e0 a w] by simp_all
    qed
    have dj: "set (obj_blocks s Global) \<inter> set (obj_blocks s (File ?f)) = {}" "set (obj_blocks s (Desc ?d)) \<inter> set (obj_blocks s (File ?f)) = {}"
      using ap tab(2) sf(7,8) by (auto simp: apart_def)
    have bl: "obj_blocks s0 (File ?f) = obj_blocks s (File ?f)" "obj_blocks s0 (Desc ?d) = obj_blocks s (Desc ?d)" "obj_blocks s0 Global = obj_blocks s Global"
      using wh(2) sf(7,8) tab(2) by simp_all
    have eq: "fd_file s0 = fd_file s" "f_node s0 = f_node s" "f_is_standard s0 = f_is_standard s" "global_file_table s0 = ?g"
      "stdin_fd s0 = stdin_fd s" "stdout_fd s0 = stdout_fd s" "stderr_fd s0 = stderr_fd s"
      using same0(1) by (simp_all add: same_objs_def)
    have dr: "droppable T s0 ?v" using sf(6) effectD(5) [OF e0] same0(4) by (auto simp: droppable_def kept_def)
    obtain s1 where s1: "file_desc_destroy T ?d s0 = Some s1"
      "effect T s0 s1 (- one ?v) (if vn_refcount s ?v = 1 then set (obj_blocks s (File ?f)) \<union> set (obj_blocks s (Desc ?d)) else {})"
      "vnodes.more s1 = vnodes.more (if vn_refcount s ?v = 1 then forget_file ?g ?f s0 else s0)"
      by (rule desc_destroy_spec [OF c effectD(1) [OF e0], of ?d, unfolded eq same0(4) bl])
        (use dr wh(1) sf(4,7,8) tab(2) dj d' in \<open>simp_all add: stds_def\<close>)
    have e1: "effect T (taken ?l s) s1 (- one ?v) (if vn_refcount s ?v = 1 then set (obj_blocks s (File ?f)) \<union> set (obj_blocks s (Desc ?d)) else {})"
      using effect_same_then [OF e0 s1(2)] by simp
    note lo = effect_locked [OF l e1]
    let ?s' = "dropped ?l s1"
    have more: "vnodes.more ?s' = vnodes.more (if vn_refcount s ?v = 1 then forget_file ?g ?f s0 else s0)" using s1(3) by simp
    note ff = files_fields [OF more]
    have so: "same_objs s ?s'" using same0(1) unfolding same_objs_def ff by (simp add: forget_fields)
    have lt: "lt_files ?s' = (lt_files s)(t := (lt_files s t)[i := 0])" unfolding ff using same0(3) by (simp add: forget_fields)
    have num: "lt_num s1 = n" using files_fields(10) [OF s1(3)] same0(5) by (simp add: forget_fields)
    have gt: "gt_files ?s' = (if vn_refcount s ?v = 1 then (gt_files s)(?g := map (\<lambda>f. if f = ?f then 0 else f) (gt_files s ?g)) else gt_files s)"
      unfolding ff using forget_map [of s0 ?g ?f] same0(2) ok sf(3) by (simp add: tables_ok_def open_files_def)
    have tk: "tables_ok T ?s' TS"
      using lo(2) gt by (intro tables_ok_cleared [OF ok t i d' so lt refl]) (cases "vn_refcount s ?v = 1", simp_all)
    have cnt: "vn_refcount s1 v = vn_refcount s v - (if (t, i) \<in> slots s TS v then 1 else 0)" for v
      using effectD(4) [OF s1(2), of v] same0(4) sf(5) by (auto simp: one_def slots_def)
    have "kept s s1" using effectD(5) [OF lo(2)] by (simp add: kept_def)
    then show thesis using that [OF s1(1) lo(1) tk _ num cnt effectD(2) [OF e1]] so lt by (simp add: emptied_def)
  qed
qed

lemma taken_dropped: "lock_mine s l \<Longrightarrow> taken l (dropped l s) = s"
proof -
  assume m: "lock_mine s l"
  then have "(lk_available s)(l := False) = lk_available s" "(lk_holder s)(l := curthread s) = lk_holder s"
    by (simp_all add: lock_mine_def fun_upd_idem)
  then show ?thesis by (simp add: taken_def dropped_def)
qed

lemma table_lock: "tables_ok T s TS \<Longrightarrow> t \<in> TS \<Longrightarrow> lock_idle s (lt_lk s t) \<and> t \<noteq> 0 \<and> length (lt_files s t) = 16"
proof -
  assume a: "tables_ok T s TS" "t \<in> TS"
  then have "Table t \<in> objs s TS" by (simp add: objs_def)
  then have "whole s (Table t)" using a(1) by (simp add: tables_ok_def apart_def)
  then show ?thesis using a by (auto simp: whole_def obj_blocks_def tables_ok_def MAX_LOCAL_TABLE_SIZE_def)
qed

lemma close_file_ok:
  assumes c: "fs_contract T" and ok: "tables_ok T s TS" and t: "t \<in> TS" and i: "i < 16" and d: "lt_files s t ! i \<noteq> 0"
  obtains s' where "local_table_close_file T t (int i) s = Some (Inr (), s')" "tables_ok T s' TS" "emptied t i s s'"
    "lt_num s' = (lt_num s)(t := s32 (lt_num s t - 1))"
    "\<And>v. vn_refcount s' v = vn_refcount s v - (if (t, i) \<in> slots s TS v then 1 else 0)"
proof -
  let ?l = "lt_lk s t" and ?n = "(lt_num s)(t := s32 (lt_num s t - 1))"
  note tl = table_lock [OF ok t]
  obtain s1 where s1: "file_desc_destroy T (lt_files s t ! i) ((put_slot t (int i) 0 (taken ?l s))\<lparr>lt_num := ?n\<rparr>) = Some s1" "lock_mine s1 ?l"
    "tables_ok T (dropped ?l s1) TS" "emptied t i s (dropped ?l s1)" "lt_num s1 = ?n"
    "\<And>v. vn_refcount s1 v = vn_refcount s v - (if (t, i) \<in> slots s TS v then 1 else 0)"
    using close_slot [OF c ok t i d refl] by metis
  have "non_lock_close_file T t (int i) (taken ?l s) = Some (Inr (), s1)"
    using s1(1) tl i d by (simp add: non_lock_close_file_def slot_def MAX_LOCAL_TABLE_SIZE_def put_slot_def taken_def)
  from critical_eq [where f = "non_lock_close_file T t (int i)", OF _ this s1(2)]
  have "local_table_close_file T t (int i) s = Some (Inr (), dropped ?l s1)" using tl by (simp add: local_table_close_file_def)
  then show thesis using that [of "dropped ?l s1"] s1 by (simp add: dropped_def)
qed

section \<open>Filling a slot\<close>

lemma slots_filled:
  assumes so: "same_objs s s'" and lt: "lt_files s' = (lt_files s)(t := (lt_files s t)[i := d])" and t: "t \<in> TS" and i: "i < length (lt_files s t)"
    and e: "lt_files s t ! i = 0"
  shows "slots s' TS v = slots s TS v \<union> (if d \<notin> insert 0 (stds s) \<and> f_node s (fd_file s d) = v then {(t, i)} else {})"
proof -
  have n: "lt_files s' u ! j = (if u = t \<and> j = i then d else lt_files s u ! j)" if "j < length (lt_files s u)" for u j
    using that lt by (cases "u = t"; cases "j = i") simp_all
  have l: "length (lt_files s' u) = length (lt_files s u)" for u using lt by simp
  have o: "f_node s' = f_node s" "fd_file s' = fd_file s" "stds s' = stds s" using so stds_same [OF so] by (simp_all add: same_objs_def)
  have "(t, i) \<notin> slots s TS v" using e by (simp add: slots_def)
  then show ?thesis unfolding slots_def o l using t i e by (auto simp: n split: if_splits)
qed

text \<open>The slot receives a descriptor in use, and its vnode one more reference.\<close>

lemma fill_slot:
  assumes ok: "tables_ok T s TS" and t: "t \<in> TS" and i: "i < 16" and e: "lt_files s t ! i = 0" and d: "d \<in> used s TS" and low: "low s 1"
    and s0: "s0 = put_slot t (int i) d (taken (lt_lk s t) s)"
    and used: "d \<notin> stds s \<Longrightarrow> slots s TS (f_node s (fd_file s d)) \<noteq> {}"
  obtains s1 where "(if fd_standard s0 d = - 1 then vnode_incref (f_node s0 (fd_file s0 d)) s0 else Some s0) = Some s1"
    "lock_mine (s1\<lparr>lt_num := n\<rparr>) (lt_lk s t)" "tables_ok T (dropped (lt_lk s t) (s1\<lparr>lt_num := n\<rparr>)) TS"
    "same_objs s s1" "lt_files s1 = (lt_files s)(t := (lt_files s t)[i := d])" "lt_num s1 = lt_num s"
    "\<forall>v. vn_refcount s1 v = vn_refcount s v + (if d \<notin> stds s \<and> f_node s (fd_file s d) = v then 1 else 0)"
proof -
  let ?l = "lt_lk s t" and ?v = "f_node s (fd_file s d)"
  note tl = table_lock [OF ok t]
  have vo: "vnodes_ok T s" using ok by (simp add: tables_ok_def)
  have so0: "same_objs s s0" "gt_files s0 = gt_files s" "lt_files s0 = (lt_files s)(t := (lt_files s t)[i := d])" "vn_refcount s0 = vn_refcount s"
    "lt_num s0 = lt_num s" "global_file_table s0 = global_file_table s"
    by (simp_all add: s0 put_slot_def same_objs_def)
  have e0: "effect T (taken ?l s) s0 (\<lambda>_. 0) {}"
    by (rule effect_fields [of _ _ _ "vnodes.more s0"]) (use vo in \<open>simp, cases s, simp add: s0 put_slot_def taken_def\<close>)
  have std: "(fd_standard s d = - 1) = (d \<notin> stds s)" using ok d by (simp add: tables_ok_def desc_ok_def)
  define dd where "dd = (\<lambda>v. if d \<notin> stds s \<and> ?v = v then 1 else (0 :: int))"
  have dd: "dd v = (if d \<notin> stds s \<and> ?v = v then 1 else 0)" for v by (simp add: dd_def)
  obtain s1 where s1: "(if fd_standard s0 d = - 1 then vnode_incref (f_node s0 (fd_file s0 d)) s0 else Some s0) = Some s1"
    "effect T s0 s1 dd {}" "vnodes.more s1 = vnodes.more s0"
  proof (cases "d \<in> stds s")
    case True
    then show thesis using that [of s0] std so0(1) effect_refl [OF effectD(1) [OF e0]] by (simp add: same_objs_def dd_def)
  next
    case False
    have "0 < vn_refcount s0 ?v" using used [OF False] slots_pos [OF ok] so0(4) by simp
    moreover have "low s0 1" using low so0(4) by (simp add: low_def)
    ultimately obtain s1 where "vnode_incref ?v s0 = Some s1" "step T s0 s1 (one ?v)"
      using incref_ok [OF effectD(1) [OF e0]] by (metis step_def)
    moreover have "one ?v = dd" using False by (auto simp: one_def dd_def)
    ultimately show thesis using that [of s1] std False so0(1) by (simp add: same_objs_def step_effect)
  qed
  have e1: "effect T (taken ?l s) s1 dd {}" using effect_same_then [OF e0 s1(2)] by simp
  let ?s2 = "s1\<lparr>lt_num := n\<rparr>"
  have "effect T s1 ?s2 (\<lambda>_. 0) {}"
    by (rule effect_fields [OF effectD(1) [OF s1(2)], of _ "vnodes.more ?s2"]) (cases s1, simp)
  from effect_then_same [OF e1 this] have e2: "effect T (taken ?l s) ?s2 dd {}" by simp
  let ?s' = "dropped ?l ?s2"
  note lo = effect_locked [OF conjunct1 [OF tl] e2]
  note ff = files_fields [OF s1(3)]
  have so1: "same_objs s s1" using so0(1) unfolding same_objs_def ff .
  have so': "same_objs s ?s'" and lt': "lt_files ?s' = (lt_files s)(t := (lt_files s t)[i := d])" and gt': "gt_files ?s' = gt_files s"
    using so1 so0(2,3) by (simp_all add: same_objs_def dropped_def ff)
  have len: "length (lt_files s u) = 16" if "u \<in> TS" for u using table_lock [OF ok that] by simp
  have il: "i < length (lt_files s t)" using i tl by simp
  have sl: "slots ?s' TS v = slots s TS v \<union> (if d \<notin> stds s \<and> ?v = v then {(t, i)} else {})" for v
    using slots_filled [OF so' lt' t il e, of v] d by (auto simp: used_def)
  have ni: "(t, i) \<notin> slots s TS v" for v using e by (simp add: slots_def)
  have cs: "int (card (slots ?s' TS v)) = int (card (slots s TS v)) + dd v" for v
    using tables_count(3) [OF ok, of v] ni by (simp add: sl dd)
  have rc: "vn_refcount ?s' v = vn_refcount s v + dd v" for v using effectD(4) [OF lo(2)] .
  have "tables_ok T ?s' TS"
  proof (rule tables_ok_update [OF ok _ so' gt'])
    show "effect T s ?s' dd {}" by (rule lo(2))
    show "length (lt_files ?s' u) = 16" if "u \<in> TS" for u using len [OF that] len [OF t] lt' by simp
    have "set (lt_files ?s' u) \<subseteq> insert d (set (lt_files s u))" for u
      unfolding lt' using set_update_subset_insert [of "lt_files s t" i d] by auto
    then show "used ?s' TS \<subseteq> used s TS" using d stds_same [OF so'] unfolding used_def by blast
    fix v
    show "int (card (slots ?s' TS v)) \<le> vn_refcount ?s' v" using cs [of v] rc [of v] tables_count(1) [OF ok, of v] by linarith
    assume a: "slots ?s' TS v \<noteq> {}" "vn_ops ?s' v = dev_ops T"
    have ne: "slots s TS v \<noteq> {}" using a(1) used by (auto simp: sl split: if_splits)
    have "0 \<le> dd v" by (simp add: dd)
    then have "vn_ops ?s' v = vn_ops s v" using effectD(5) [OF lo(2)] slots_pos [OF ok ne] rc [of v] by (simp add: kept_def)
    then show "int (card (slots ?s' TS v)) < vn_refcount ?s' v" using tables_count(2) [OF ok ne] a(2) cs [of v] rc [of v] by linarith
  qed
  then show thesis
    using that [OF s1(1) lo(1) _ so1] so0(3,5) ff effectD(4) [OF e1] by (simp add: dd)
qed

lemma critical_done: "lock_idle s l \<Longrightarrow> f (taken l s) = Some (r, s1) \<Longrightarrow> lock_mine s1 l \<Longrightarrow> critical l f s = Some (r, dropped l s1)"
  by (rule critical_eq)

lemma dup2_ok:
  assumes c: "fs_contract T" and ok: "tables_ok T s TS" and t: "t \<in> TS" and i: "i < 16" and j: "j < 16" and ij: "i \<noteq> j"
    and d: "lt_files s t ! i \<noteq> 0" and low: "low s 1"
  obtains s' where "local_table_dup2 T t (int i) (int j) s = Some (Inr (), s')" "tables_ok T s' TS" "same_objs s s'"
    "lt_files s' = (lt_files s)(t := (lt_files s t)[j := lt_files s t ! i])"
    "\<And>v. vn_refcount s' v = vn_refcount s v - (if (t, j) \<in> slots s TS v then 1 else 0) + (if (t, i) \<in> slots s TS v then 1 else 0)"
proof -
  let ?l = "lt_lk s t" and ?d = "lt_files s t ! i"
  note tl = table_lock [OF ok t]
  obtain s1 where s1: "(if lt_files s t ! j \<noteq> 0 then non_lock_close_file T t (int j) else (\<lambda>s. Some (Inr (), s))) (taken ?l s) = Some (Inr (), s1)"
    "lock_mine s1 ?l" "tables_ok T (dropped ?l s1) TS" "emptied t j s (dropped ?l s1)"
    "\<And>v. vn_refcount s1 v = vn_refcount s v - (if (t, j) \<in> slots s TS v then 1 else 0)"
  proof (cases "lt_files s t ! j = 0")
    case True
    then have "(lt_files s t)[j := 0] = lt_files s t" by (metis list_update_id)
    then have "emptied t j s s" by (simp add: emptied_def same_objs_def)
    moreover have "lock_mine (taken ?l s) ?l" "dropped ?l (taken ?l s) = s" using tl by (simp_all add: lk.mine_take lk.drop_take)
    moreover have "(t, j) \<notin> slots s TS v" for v using True by (simp add: slots_def)
    ultimately show thesis using that [of "taken ?l s"] True ok by simp
  next
    case False
    let ?n = "(lt_num s)(t := s32 (lt_num s t - 1))"
    obtain s1 where s1: "file_desc_destroy T (lt_files s t ! j) ((put_slot t (int j) 0 (taken ?l s))\<lparr>lt_num := ?n\<rparr>) = Some s1" "lock_mine s1 ?l"
      "tables_ok T (dropped ?l s1) TS" "emptied t j s (dropped ?l s1)"
      "\<And>v. vn_refcount s1 v = vn_refcount s v - (if (t, j) \<in> slots s TS v then 1 else 0)"
      using close_slot [OF c ok t j False refl] by metis
    have "non_lock_close_file T t (int j) (taken ?l s) = Some (Inr (), s1)"
      using s1(1) tl j False by (simp add: non_lock_close_file_def slot_def MAX_LOCAL_TABLE_SIZE_def put_slot_def taken_def)
    then show thesis using that [of s1] s1 False by simp
  qed
  let ?sd = "dropped ?l s1"
  have so: "same_objs s ?sd" and lt: "lt_files ?sd = (lt_files s)(t := (lt_files s t)[j := 0])" using s1(4) by (simp_all add: emptied_def)
  have l': "lt_lk ?sd t = ?l" "stds ?sd = stds s" "f_node ?sd = f_node s" "fd_file ?sd = fd_file s" "taken ?l ?sd = s1"
    using so stds_same [OF so] taken_dropped [OF s1(2)] by (simp_all add: same_objs_def)
  have at: "lt_files ?sd t ! j = 0" "lt_files ?sd t ! i = ?d" "i < length (lt_files ?sd t)" using lt tl i j ij by simp_all
  have u: "?d \<in> used ?sd TS" using at(2,3) d t nth_mem [OF at(3)] unfolding used_def by auto
  have lw: "low ?sd 1" using low s1(5) unfolding low_def by (simp add: dropped_def) (smt (verit))
  have ne: "slots ?sd TS (f_node ?sd (fd_file ?sd ?d)) \<noteq> {}" if "?d \<notin> stds ?sd"
  proof -
    have "(t, i) \<in> slots ?sd TS (f_node ?sd (fd_file ?sd ?d))" using at(2,3) d t that by (simp add: slots_def)
    then show ?thesis by blast
  qed
  let ?s0 = "put_slot t (int j) ?d s1"
  let ?n = "(lt_num s1)(t := s32 (lt_num s1 t + 1))"
  have s0: "?s0 = put_slot t (int j) ?d (taken (lt_lk ?sd t) ?sd)" by (simp only: l')
  obtain s2 where s2: "(if fd_standard ?s0 ?d = - 1 then vnode_incref (f_node ?s0 (fd_file ?s0 ?d)) ?s0 else Some ?s0) = Some s2"
    "lock_mine (s2\<lparr>lt_num := ?n\<rparr>) ?l" "tables_ok T (dropped ?l (s2\<lparr>lt_num := ?n\<rparr>)) TS"
    "same_objs ?sd s2" "lt_files s2 = (lt_files ?sd)(t := (lt_files ?sd t)[j := ?d])" "lt_num s2 = lt_num ?sd"
    "\<forall>v. vn_refcount s2 v = vn_refcount ?sd v + (if ?d \<notin> stds ?sd \<and> f_node ?sd (fd_file ?sd ?d) = v then 1 else 0)"
    by (rule fill_slot [where n = ?n, OF s1(3) t j at(1) u lw s0 ne, unfolded l'(1)])
  let ?s' = "dropped ?l (s2\<lparr>lt_num := ?n\<rparr>)"
  have num: "lt_num s2 = lt_num s1" using s2(6) by (simp add: dropped_def)
  let ?body = "\<lambda>s. do {
       desc \<leftarrow> slot (lt_files s t) (int i);
       if desc = 0 then Some (Inl EBADF, s)
       else do {
         n_desc \<leftarrow> slot (lt_files s t) (int j);
         on_ok (if n_desc \<noteq> 0 then non_lock_close_file T t (int j) else (\<lambda>s. Some (Inr (), s)))
           (\<lambda>_ s. do {
             let s = put_slot t (int j) desc s;
             s \<leftarrow> (if fd_standard s desc = - 1 then vnode_incref (f_node s (fd_file s desc)) s else Some s);
             Some (Inr (), s\<lparr>lt_num := (lt_num s)(t := s32 (lt_num s t + 1))\<rparr>) }) s } }"
  have sl: "slot (lt_files s t) (int i) = Some ?d" "slot (lt_files s t) (int j) = Some (lt_files s t ! j)" using tl i j by (simp_all add: slot_def)
  have b: "?body (taken ?l s) = Some (Inr (), s2\<lparr>lt_num := ?n\<rparr>)"
    using s2(1) num by (simp only: sl files_taken bind.bind_lunit d if_False on_ok_def s1(1) prod.case sum.case) (simp add: Let_def)
  have "local_table_dup2 T t (int i) (int j) s = Some (Inr (), ?s')"
    using critical_done [where f = ?body, OF conjunct1 [OF tl] b s2(2)] tl ij by (simp add: local_table_dup2_def)
  moreover have "lt_files ?s' = (lt_files s)(t := (lt_files s t)[j := ?d])" using s2(5) lt by (simp add: dropped_def)
  moreover have "same_objs s ?s'" using s2(4) so by (simp add: same_objs_def dropped_def)
  moreover have "(t, i) \<in> slots s TS v \<longleftrightarrow> ?d \<notin> stds s \<and> f_node s (fd_file s ?d) = v" for v using t tl i d by (simp add: slots_def)
  then have "vn_refcount ?s' v = vn_refcount s v - (if (t, j) \<in> slots s TS v then 1 else 0) + (if (t, i) \<in> slots s TS v then 1 else 0)" for v
    using s2(7) [rule_format, of v] s1(5) [of v] l' by (simp add: dropped_def)
  ultimately show thesis using that [of ?s'] s2(3) by blast
qed

section \<open>Copying a table\<close>

definition refers :: "('d, 'a) files_scheme \<Rightarrow> addr \<Rightarrow> addr \<Rightarrow> bool" where
  "refers s v d \<longleftrightarrow> d \<notin> insert 0 (stds s) \<and> f_node s (fd_file s d) = v"

lemma incref_slots_ok:
  assumes "vnodes_ok T s" and "low s (int (length fds))"
    and "\<And>d. d \<in> set fds \<Longrightarrow> d \<notin> insert 0 (stds s) \<Longrightarrow> 0 < vn_refcount s (f_node s (fd_file s d)) \<and> fd_file s d \<noteq> 0 \<and> f_node s (fd_file s d) \<noteq> 0"
    and "\<And>d. d \<in> set fds \<Longrightarrow> d \<in> stds s \<Longrightarrow> f_node s (fd_file s d) = 0"
  shows "\<exists>s'. incref_slots fds s = Some s' \<and> step T s s' (\<lambda>v. int (length (filter (refers s v) fds)))"
  using assms
proof (induction fds arbitrary: s)
  case Nil
  then show ?case by (simp add: step_refl)
next
  case (Cons d fds)
  let ?v = "f_node s (fd_file s d)"
  let ?r = "d \<noteq> 0 \<and> fd_file s d \<noteq> 0 \<and> ?v \<noteq> 0"
  have r: "?r \<longleftrightarrow> d \<notin> insert 0 (stds s)" using Cons.prems(3,4) [of d] by auto
  define e where "e = (\<lambda>v. if refers s v d then 1 else (0 :: int))"
  have e0: "0 \<le> e v" "e v \<le> 1" for v by (simp_all add: e_def)
  obtain s1 where s1: "(if ?r then vnode_incref ?v s else Some s) = Some s1" "step T s s1 e"
  proof (cases ?r)
    case True
    have "low s 1" using Cons.prems(2) by (rule low_mono) simp
    then obtain s1 where "vnode_incref ?v s = Some s1" "step T s s1 (one ?v)"
      using incref_ok [OF Cons.prems(1)] Cons.prems(3) [of d] True r by (metis list.set_intros(1) step_def)
    moreover have "one ?v = e" using True r by (auto simp: one_def e_def refers_def)
    ultimately show thesis using that [of s1] True by simp
  next
    case False
    then have "e = (\<lambda>_. 0)" using r by (auto simp: e_def refers_def)
    then show thesis using that [of s] step_refl [OF Cons.prems(1)] by (simp only: if_not_P [OF False] simp_thms)
  qed
  note ff = files_fields [OF step_more [OF s1(2)]]
  have st: "stds s1 = stds s" "refers s1 v = refers s v" for v using ff by (simp_all add: stds_def refers_def fun_eq_iff)
  have low: "low s1 (int (length fds))"
    unfolding low_def
  proof
    fix v
    have "vn_refcount s v + int (length (d # fds)) \<le> 2147483647" using Cons.prems(2) unfolding low_def by blast
    then show "vn_refcount s1 v + int (length fds) \<le> 2147483647" using step_count [OF s1(2), of v] e0(2) [of v] by simp
  qed
  have "\<exists>s'. incref_slots fds s1 = Some s' \<and> step T s1 s' (\<lambda>v. int (length (filter (refers s1 v) fds)))"
  proof (rule Cons.IH [OF stepD(1) [OF s1(2)] low])
    show "0 < vn_refcount s1 (f_node s1 (fd_file s1 x)) \<and> fd_file s1 x \<noteq> 0 \<and> f_node s1 (fd_file s1 x) \<noteq> 0" if "x \<in> set fds" "x \<notin> insert 0 (stds s1)" for x
      using Cons.prems(3) [of x] that step_count [OF s1(2), of "f_node s (fd_file s x)"] e0(1) [of "f_node s (fd_file s x)"] by (simp add: ff st)
    show "f_node s1 (fd_file s1 x) = 0" if "x \<in> set fds" "x \<in> stds s1" for x
      using Cons.prems(4) [of x] that by (simp add: ff st)
  qed
  then obtain s' where s': "incref_slots fds s1 = Some s'" "step T s1 s' (\<lambda>v. int (length (filter (refers s v) fds)))" unfolding st by blast
  have "step T s s' (\<lambda>v. e v + int (length (filter (refers s v) fds)))" by (rule step_trans [OF s1(2) s'(2)]) (rule e0(1))
  moreover have "e v + int (length (filter (refers s v) fds)) = int (length (filter (refers s v) (d # fds)))" for v by (simp add: e_def)
  ultimately show ?case using s1(1) s'(1) by simp
qed

lemma slots_copied:
  assumes so: "same_objs s s'" and lt: "lt_files s' = (lt_files s)(dst := lt_files s src)" and t: "src \<in> TS" "dst \<in> TS" "src \<noteq> dst"
    and len: "length (lt_files s dst) = length (lt_files s src)"
    and fresh: "set (lt_files s dst) \<subseteq> insert 0 (stds s)"
  shows "slots s' TS v = slots s TS v \<union> Pair dst ` {i. i < length (lt_files s src) \<and> refers s v (lt_files s src ! i)}"
    "slots s TS v \<inter> Pair dst ` X = {}"
proof -
  have o: "f_node s' = f_node s" "fd_file s' = fd_file s" "stds s' = stds s" using so stds_same [OF so] by (simp_all add: same_objs_def)
  have d: "(dst, i) \<notin> slots s TS v" for i using fresh by (auto simp: slots_def dest!: nth_mem)
  then show "slots s TS v \<inter> Pair dst ` X = {}" by auto
  show "slots s' TS v = slots s TS v \<union> Pair dst ` {i. i < length (lt_files s src) \<and> refers s v (lt_files s src ! i)}" (is "?L = ?R")
  proof (rule set_eqI)
    fix x
    show "x \<in> ?L \<longleftrightarrow> x \<in> ?R"
    proof (cases x)
      case (Pair u i)
      show ?thesis
      proof (cases "u = dst")
        case True
        then show ?thesis using Pair d [of i] t by (auto simp: slots_def o lt refers_def)
      next
        case False
        then show ?thesis using Pair by (auto simp: slots_def o lt)
      qed
    qed
  qed
qed

text \<open>What a copy does to the counts: only the slots from 3 on are counted, but all are copied.\<close>

lemma copy_spec:
  assumes ok: "tables_ok T s TS" and t: "src \<in> TS" "dst \<in> TS" "src \<noteq> dst" and low: "low s 13"
    and fresh: "set (lt_files s dst) \<subseteq> insert 0 (stds s)"
  obtains s' where "local_table_copy src dst s = Some ((), s')" "same_objs s s'" "gt_files s' = gt_files s"
    "lt_files s' = (lt_files s)(dst := lt_files s src)" "lt_num s' = (lt_num s)(dst := lt_num s src)"
    "effect T s s' (\<lambda>v. int (length (filter (refers s v) (drop 3 (lt_files s src))))) {}"
    "\<forall>v. int (card (slots s' TS v)) = int (card (slots s TS v)) + int (length (filter (refers s v) (lt_files s src)))"
    "\<forall>v. slots s' TS v \<noteq> {} \<longrightarrow> slots s TS v \<noteq> {}"
proof -
  let ?l = "lt_lk s src" and ?xs = "lt_files s src"
  let ?s0 = "(taken ?l s)\<lparr>lt_files := (lt_files s)(dst := ?xs)\<rparr>"
  note tl = table_lock [OF ok t(1)] and td = table_lock [OF ok t(2)]
  have vo: "vnodes_ok T s" using ok by (simp add: tables_ok_def)
  have e0: "effect T (taken ?l s) ?s0 (\<lambda>_. 0) {}"
    by (rule effect_fields [of _ _ _ "vnodes.more ?s0"]) (use vo in \<open>simp, cases s, simp add: taken_def\<close>)
  have eq: "stds ?s0 = stds s" "refers ?s0 v = refers s v" for v by (simp_all add: stds_def refers_def fun_eq_iff)
  have u: "d \<in> used s TS" if "d \<in> set ?xs" "d \<noteq> 0" for d using that t by (auto simp: used_def)
  have dk: "desc_ok s d" if "d \<in> set ?xs" "d \<noteq> 0" for d using u [OF that] ok by (simp add: tables_ok_def)
  have "\<exists>s'. incref_slots (drop 3 ?xs) ?s0 = Some s' \<and> step T ?s0 s' (\<lambda>v. int (length (filter (refers ?s0 v) (drop 3 ?xs))))"
  proof (rule incref_slots_ok [OF effectD(1) [OF e0]])
    show "low ?s0 (int (length (drop 3 ?xs)))" using low tl by (simp add: low_def)
    fix d
    assume d: "d \<in> set (drop 3 ?xs)"
    then have dx: "d \<in> set ?xs" using set_drop_subset by fastforce
    show "f_node ?s0 (fd_file ?s0 d) = 0" if "d \<in> stds ?s0"
    proof -
      have "d \<in> stds s" "0 \<notin> stds s" using that ok by (simp_all add: eq tables_ok_def)
      then show ?thesis using dk [OF dx] by (cases "d = 0") (simp_all add: desc_ok_def)
    qed
    show "0 < vn_refcount ?s0 (f_node ?s0 (fd_file ?s0 d)) \<and> fd_file ?s0 d \<noteq> 0 \<and> f_node ?s0 (fd_file ?s0 d) \<noteq> 0" if "d \<notin> insert 0 (stds ?s0)"
    proof -
      obtain i where i: "i < 16" "?xs ! i = d" using dx tl by (auto simp: in_set_conv_nth)
      have d': "?xs ! i \<notin> insert 0 (stds s)" using that i(2) by (simp add: eq)
      note sf = slot_facts [OF ok t(1) i(1) d', unfolded i(2)]
      have p: "0 < vn_refcount s (f_node s (fd_file s d))" using dropped_pos [OF sf(6)] .
      have "f_node s (fd_file s d) \<noteq> 0" using vnode_checkD [OF vo p] by (auto simp: vnode_check_def split: if_splits)
      then show ?thesis using p sf(3) by (simp add: open_files_def)
    qed
  qed
  then obtain s1 where s1: "incref_slots (drop 3 ?xs) ?s0 = Some s1" "step T ?s0 s1 (\<lambda>v. int (length (filter (refers s v) (drop 3 ?xs))))" unfolding eq by blast
  define dd where "dd = (\<lambda>v. int (length (filter (refers s v) (drop 3 ?xs))))"
  have es: "effect T ?s0 s1 dd {}" and ms: "vnodes.more s1 = vnodes.more ?s0" using s1(2) by (simp_all add: step_effect dd_def)
  note ff = files_fields [OF ms]
  let ?n = "(lt_num s1)(dst := lt_num s1 src)"
  let ?s2 = "s1\<lparr>lt_num := ?n\<rparr>"
  have "effect T s1 ?s2 (\<lambda>_. 0) {}"
    by (rule effect_fields [OF effectD(1) [OF es], of _ "vnodes.more ?s2"]) (cases s1, simp)
  from effect_then_same [OF effect_same_then [OF e0 es] this] have e2: "effect T (taken ?l s) ?s2 dd {}" by simp
  let ?s' = "dropped ?l ?s2"
  note lo = effect_locked [OF conjunct1 [OF tl] e2]
  have so: "same_objs s ?s'" and lt: "lt_files ?s' = (lt_files s)(dst := ?xs)" and gt: "gt_files ?s' = gt_files s" and num: "lt_num ?s' = (lt_num s)(dst := lt_num s src)"
    by (simp_all add: same_objs_def dropped_def ff)
  let ?I = "\<lambda>v. {i. i < length ?xs \<and> refers s v (?xs ! i)}"
  have len: "length (lt_files s dst) = length ?xs" using tl td by simp
  note sc = slots_copied [OF so lt t len fresh]
  have cs: "int (card (slots ?s' TS v)) = int (card (slots s TS v)) + int (length (filter (refers s v) ?xs))" for v
  proof -
    have "card (slots ?s' TS v) = card (slots s TS v) + card (Pair dst ` ?I v)"
      unfolding sc(1) by (rule card_Un_disjoint) (use tables_count(3) [OF ok] sc(2) in auto)
    also have "card (Pair dst ` ?I v) = card (?I v)" by (rule card_image) (simp add: inj_on_def)
    finally show ?thesis by (simp only: of_nat_add length_filter_conv_card)
  qed
  have ne: "slots s TS v \<noteq> {}" if "slots ?s' TS v \<noteq> {}" for v
  proof
    assume e: "slots s TS v = {}"
    have "?I v \<noteq> {}" using that e unfolding sc(1) by blast
    then obtain i where "i \<in> ?I v" by blast
    then have "(src, i) \<in> slots s TS v" using t by (auto simp: slots_def refers_def)
    then show False using e by simp
  qed
  have "local_table_copy src dst s = Some ((), ?s')"
  proof -
    have 0: "src \<noteq> 0" "dst \<noteq> 0" using tl td by simp_all
    let ?f = "\<lambda>s. do {
       let s = s\<lparr>lt_files := (lt_files s)(dst := lt_files s src)\<rparr>;
       s \<leftarrow> incref_slots (drop 3 (lt_files s src)) s;
       Some ((), s\<lparr>lt_num := (lt_num s)(dst := lt_num s src)\<rparr>) }"
    have "?f (taken ?l s) = Some ((), ?s2)" using s1(1) t(3) by simp
    from critical_done [where f = ?f, OF conjunct1 [OF tl] this lo(1)] show ?thesis using 0 by (simp add: local_table_copy_def)
  qed
  then show thesis using that [of ?s'] so lt gt num lo(2) cs ne by (simp add: dd_def [symmetric])
qed

text \<open>The references that a copy takes: one for every file from slot 3 on.\<close>

lemma refs_from_three:
  assumes "t \<in> TS"
  shows "length (filter (refers s v) (drop 3 (lt_files s t))) = card {k. 3 \<le> k \<and> (t, k) \<in> slots s TS v}"
proof -
  let ?xs = "lt_files s t"
  let ?I = "{i. i < length (drop 3 ?xs) \<and> refers s v (drop 3 ?xs ! i)}"
  have "k - 3 \<in> ?I \<and> k = 3 + (k - 3)" if "3 \<le> k" "(t, k) \<in> slots s TS v" for k
    using that by (auto simp: slots_def refers_def)
  moreover have "3 \<le> 3 + i \<and> (t, 3 + i) \<in> slots s TS v" if "i \<in> ?I" for i
    using that assms by (auto simp: slots_def refers_def)
  ultimately have "{k. 3 \<le> k \<and> (t, k) \<in> slots s TS v} = (+) 3 ` ?I" by blast
  moreover have "card ((+) 3 ` ?I) = card ?I" by (rule card_image) simp
  ultimately show ?thesis by (simp add: length_filter_conv_card)
qed

lemma copy_takes:
  assumes "tables_ok T s TS" and "src \<in> TS" "dst \<in> TS" "src \<noteq> dst" and "low s 13" and "set (lt_files s dst) \<subseteq> insert 0 (stds s)"
  obtains s' where "local_table_copy src dst s = Some ((), s')" "lt_files s' = (lt_files s)(dst := lt_files s src)"
    "\<forall>v. vn_refcount s' v = vn_refcount s v + int (card {k. 3 \<le> k \<and> (src, k) \<in> slots s TS v})"
proof -
  obtain s' where s': "local_table_copy src dst s = Some ((), s')" "lt_files s' = (lt_files s)(dst := lt_files s src)"
    "effect T s s' (\<lambda>v. int (length (filter (refers s v) (drop 3 (lt_files s src))))) {}"
    by (rule copy_spec [OF assms]) (rule that)
  show thesis by (rule that [OF s'(1,2)]) (simp add: effectD(4) [OF s'(3)] refs_from_three [OF assms(2)])
qed

lemma copy_ok:
  assumes ok: "tables_ok T s TS" and t: "src \<in> TS" "dst \<in> TS" "src \<noteq> dst" and low: "low s 13"
    and fresh: "set (lt_files s dst) \<subseteq> insert 0 (stds s)" and std: "set (take 3 (lt_files s src)) \<subseteq> insert 0 (stds s)"
  obtains s' where "local_table_copy src dst s = Some ((), s')" "tables_ok T s' TS" "same_objs s s'"
    "lt_files s' = (lt_files s)(dst := lt_files s src)" "lt_num s' = (lt_num s)(dst := lt_num s src)"
proof -
  let ?xs = "lt_files s src"
  define dd where "dd = (\<lambda>v. int (length (filter (refers s v) (drop 3 ?xs))))"
  obtain s' where s': "local_table_copy src dst s = Some ((), s')" "same_objs s s'" "gt_files s' = gt_files s"
    "lt_files s' = (lt_files s)(dst := ?xs)" "lt_num s' = (lt_num s)(dst := lt_num s src)" "effect T s s' dd {}"
    "\<forall>v. int (card (slots s' TS v)) = int (card (slots s TS v)) + int (length (filter (refers s v) ?xs))"
    "\<forall>v. slots s' TS v \<noteq> {} \<longrightarrow> slots s TS v \<noteq> {}"
    unfolding dd_def by (rule copy_spec [OF ok t low fresh])
  have cs: "int (card (slots s' TS v)) = int (card (slots s TS v)) + dd v" for v
  proof -
    have "filter (refers s v) (take 3 ?xs) = []" using std by (auto simp: filter_empty_conv refers_def)
    then have "length (filter (refers s v) ?xs) = length (filter (refers s v) (drop 3 ?xs))"
      by (metis append_Nil append_take_drop_id filter_append)
    then show ?thesis using s'(7) by (simp add: dd_def)
  qed
  have rc: "vn_refcount s' v = vn_refcount s v + dd v" for v using effectD(4) [OF s'(6)] .
  have "tables_ok T s' TS"
  proof (rule tables_ok_update [OF ok s'(6,2,3)])
    show "length (lt_files s' u) = 16" if "u \<in> TS" for u using table_lock [OF ok that] table_lock [OF ok t(1)] s'(4) by simp
    show "used s' TS \<subseteq> used s TS" using t s'(4) stds_same [OF s'(2)] by (auto simp: used_def split: if_splits)
    fix v
    show "int (card (slots s' TS v)) \<le> vn_refcount s' v" using cs [of v] rc [of v] tables_count(1) [OF ok, of v] by linarith
    assume a: "slots s' TS v \<noteq> {}" "vn_ops s' v = dev_ops T"
    have ne: "slots s TS v \<noteq> {}" using s'(8) a(1) by blast
    have "0 \<le> dd v" by (simp add: dd_def)
    then have "vn_ops s' v = vn_ops s v" using effectD(5) [OF s'(6)] slots_pos [OF ok ne] rc [of v] by (simp add: kept_def)
    then show "int (card (slots s' TS v)) < vn_refcount s' v" using tables_count(2) [OF ok ne] a(2) cs [of v] rc [of v] by linarith
  qed
  then show thesis using that s' by blast
qed

text \<open>A descriptor that was moved into one of the first three slots is copied without a reference.\<close>

lemma copy_uncounted:
  assumes ok: "tables_ok T s TS" and t: "src \<in> TS" "dst \<in> TS" "src \<noteq> dst" and low: "low s 13"
    and fresh: "set (lt_files s dst) \<subseteq> insert 0 (stds s)" and i: "i < 3" "refers s v (lt_files s src ! i)"
    and exact: "int (card (slots s TS v)) = vn_refcount s v"
  obtains s' where "local_table_copy src dst s = Some ((), s')" "vn_refcount s' v < int (card (slots s' TS v))"
proof -
  let ?xs = "lt_files s src"
  obtain s' where s': "local_table_copy src dst s = Some ((), s')" "effect T s s' (\<lambda>v. int (length (filter (refers s v) (drop 3 ?xs)))) {}"
    "\<forall>v. int (card (slots s' TS v)) = int (card (slots s TS v)) + int (length (filter (refers s v) ?xs))"
    by (rule copy_spec [OF ok t low fresh]) (rule that)
  have "?xs ! i \<in> set (take 3 ?xs)" using i(1) table_lock [OF ok t(1)] by (auto simp: in_set_conv_nth)
  then have "filter (refers s v) (take 3 ?xs) \<noteq> []" using i(2) by (auto simp: filter_empty_conv)
  moreover have "length (filter (refers s v) ?xs) = length (filter (refers s v) (take 3 ?xs)) + length (filter (refers s v) (drop 3 ?xs))"
    by (metis append_take_drop_id filter_append length_append)
  ultimately have "length (filter (refers s v) (drop 3 ?xs)) < length (filter (refers s v) ?xs)" by simp
  then show thesis using that [OF s'(1)] s'(3) exact effectD(4) [OF s'(2), of v] by simp
qed

section \<open>A machine with open files\<close>

text \<open>
  The objects are at multiples of four: the global table 100, local tables 104 and 108, the standard
  descriptors 112, 116 and 120 with their files 124, 128 and 132, and the descriptor 140 of the file 136,
  which is the null device, open in slot 3 of table 104.
\<close>

definition boot_files :: "unit files" where
  "boot_files = (vfs.extend boot_vfs (files.fields
     (\<lambda>f. if f = 136 then 22 else 0) (\<lambda>f. f + 1) (\<lambda>f. f \<noteq> 136)
     (\<lambda>d. if d = 112 then 124 else if d = 116 then 128 else if d = 120 then 132 else 136) (\<lambda>_. 0) (\<lambda>_. 0) (\<lambda>d. d + 1)
     (\<lambda>d. if d = 112 then 0 else if d = 116 then 1 else if d = 120 then 2 else - 1)
     (\<lambda>t. [112, 116, 120, if t = 104 then 140 else 0] @ replicate 12 0) (\<lambda>_. 3) (\<lambda>t. t + 1)
     (\<lambda>_. [124, 128, 132, 136] @ replicate 60 0) (\<lambda>_. 4) (\<lambda>g. g + 1) 100 112 116 120 (\<lambda>_. 104) (\<lambda>_. 0) (\<lambda>_. 0) 0 []))
     \<lparr>live := {10..200}, ticks := 200, lk_name := \<lambda>l. l + 1, lk_wchan := \<lambda>l. l + 2, vn_refcount := \<lambda>v. if v = 22 then 2 else 0\<rparr>"

lemma boot_files_sel:
  "f_node boot_files f = (if f = 136 then 22 else 0)" "f_lk boot_files f = f + 1" "f_is_standard boot_files f = (f \<noteq> 136)"
  "fd_file boot_files d = (if d = 112 then 124 else if d = 116 then 128 else if d = 120 then 132 else 136)" "fd_lk boot_files d = d + 1"
  "fd_standard boot_files d = (if d = 112 then 0 else if d = 116 then 1 else if d = 120 then 2 else - 1)"
  "lt_files boot_files t = [112, 116, 120, if t = 104 then 140 else 0] @ replicate 12 0" "lt_lk boot_files t = t + 1"
  "gt_files boot_files g = [124, 128, 132, 136] @ replicate 60 0" "gt_lk boot_files g = g + 1" "global_file_table boot_files = 100"
  "stdin_fd boot_files = 112" "stdout_fd boot_files = 116" "stderr_fd boot_files = 120" "local_file_table boot_files p = 104"
  "live boot_files = {10..200}" "ticks boot_files = 200" "lk_name boot_files l = l + 1" "lk_wchan boot_files l = l + 2"
  "vn_refcount boot_files v = (if v = 22 then 2 else 0)" "vn_fs boot_files v = 0" "vn_ops boot_files v = (if v = 22 then 9 else 0)"
  "fs_blocks boot_files = {}" "fd_seek boot_files d = 0" "fd_flags boot_files d = 0" "curproc boot_files = 30"
  using boot_vfs_sel by (simp_all add: boot_files_def files.defs vfs.defs curproc_def)

lemma boot_files_idle: "l \<noteq> 0 \<Longrightarrow> lock_idle boot_files l"
proof -
  assume l: "l \<noteq> 0"
  have i: "lock_idle boot_vfs l" using l by (rule boot_vfs_idle)
  have "on_list boot_vfs (Wchan w) []" for w
  proof -
    have "on_list boot_sync (Wchan w) []" by (simp add: boot_sync_def all_empty_lists)
    then show ?thesis using on_list_cong [of boot_vfs boot_sync] by (simp add: boot_vfs_def vnodes.defs sync.defs vfs.defs)
  qed
  then have "on_list boot_files (Wchan w) []" for w
    using on_list_cong [of boot_files boot_vfs] by (simp add: boot_files_def files.defs vfs.defs)
  then show ?thesis using i by (simp add: lock_idle_def boot_files_def files.defs vfs.defs)
qed

lemma boot_files_used: "used boot_files {104, 108} = {112, 116, 120, 140}" "open_files boot_files = {124, 128, 132, 136}" "stds boot_files = {112, 116, 120}"
  by (auto simp: used_def open_files_def stds_def boot_files_sel)

lemma boot_files_objs: "objs boot_files {104, 108} = {Global, Table 104, Table 108, Desc 112, Desc 116, Desc 120, Desc 140, File 124, File 128, File 132, File 136}"
  by (auto simp: objs_def boot_files_used)

lemma boot_files_nth:
  "i < 16 \<Longrightarrow> lt_files boot_files t ! i = (if i = 0 then 112 else if i = 1 then 116 else if i = 2 then 120 else if i = 3 \<and> t = 104 then 140 else 0)"
  "length (lt_files boot_files t) = 16"
  by (auto simp: boot_files_sel nth_Cons')

lemma boot_files_slots: "slots boot_files {104, 108} v = (if v = 22 then {(104, 3)} else {})"
proof -
  have f: "f_node boot_files (fd_file boot_files 140) = 22" by (simp add: boot_files_sel)
  have "(t, i) \<in> slots boot_files {104, 108} v \<longleftrightarrow> v = 22 \<and> t = 104 \<and> i = 3" for t i
    unfolding slots_def boot_files_used(3) boot_files_nth(2) using boot_files_nth(1) [of i t] f by (auto split: if_splits)
  then show ?thesis by auto
qed

lemma boot_files_ok: "tables_ok (device_tables (\<lambda>_. null_device)) boot_files {104, 108}"
proof -
  let ?X = "objs boot_files {104, 108}"
  have lk: "obj_lock boot_files x = obj_addr boot_files x + 1" for x by (cases x) (simp_all add: boot_files_sel)
  have bl: "obj_blocks boot_files x = [obj_addr boot_files x, obj_addr boot_files x + 1, obj_addr boot_files x + 2, obj_addr boot_files x + 3]" for x
    by (simp add: obj_blocks_def lock_blocks_def lk boot_files_sel)
  have ad: "obj_addr boot_files x \<ge> 100 \<and> obj_addr boot_files x \<le> 140 \<and> 4 dvd obj_addr boot_files x" if "x \<in> ?X" for x
    using that by (auto simp: boot_files_objs boot_files_sel)
  have inj: "obj_addr boot_files x \<noteq> obj_addr boot_files y" if "x \<in> ?X" "y \<in> ?X" "x \<noteq> y" for x y
    using that by (auto simp: boot_files_objs boot_files_sel)
  have "apart boot_files ?X"
    unfolding apart_def
  proof (intro conjI ballI impI)
    fix x assume x: "x \<in> ?X"
    show "whole boot_files x" using ad [OF x] by (auto simp: whole_def bl own_def boot_files_sel lk boot_files_idle)
    fix y assume y: "y \<in> ?X" "x \<noteq> y"
    have "obj_addr boot_files x div 4 \<noteq> obj_addr boot_files y div 4" using ad [OF x] ad [OF y(1)] inj [OF x y] by (auto elim!: dvdE)
    then show "set (obj_blocks boot_files x) \<inter> set (obj_blocks boot_files y) = {}"
      using ad [OF x] ad [OF y(1)] by (auto simp: bl elim!: dvdE)
  qed
  moreover have "vnodes_ok (device_tables (\<lambda>_. null_device)) boot_files"
    by (auto simp: vnodes_ok_def kmem_ok_def vnode_check_def boot_files_sel deadbeef_def device_tables_def dev_vnode_ops_def)
  moreover have "distinct (filter ((\<noteq>) 0) (gt_files boot_files 100))" by (simp add: boot_files_sel)
  ultimately show ?thesis
    unfolding tables_ok_def boot_files_used(1) boot_files_slots
    by (simp add: boot_files_used desc_ok_def) (simp add: boot_files_sel MAX_LOCAL_TABLE_SIZE_def MAX_GLOBAL_TABLE_SIZE_def device_tables_def)
qed

section \<open>Properties\<close>

text \<open>
  C37: Closing, duplicating and copying descriptors in tables that are consistent (no two objects
  overlap, every slot with a file has a reference of its own to the vnode).  A slot in use is emptied
  and its reference given back, an empty one yields EBADF; \<open>dup2\<close> closes the target and adds a
  reference; both keep the tables consistent.  A copy into a table that holds standard descriptors at
  most takes one reference for every file in the slots from 3 on and none for the slots 0 to 2, so it
  keeps the tables consistent if the first three slots of the source hold standard descriptors.
\<close>

theorem file_tables_keep_counts:
  assumes "fs_contract T" and "tables_ok T s TS" and "t \<in> TS" and "i < 16" and "j < 16" and "i \<noteq> j" and "low s 13"
  shows "(if lt_files s t ! i = 0 then local_table_close_file T t (int i) s = Some (Inl EBADF, s)
      else \<exists>s'. local_table_close_file T t (int i) s = Some (Inr (), s') \<and> tables_ok T s' TS
        \<and> lt_files s' = (lt_files s)(t := (lt_files s t)[i := 0])
        \<and> (\<forall>v. vn_refcount s' v = vn_refcount s v - (if (t, i) \<in> slots s TS v then 1 else 0)))
    \<and> (if lt_files s t ! i = 0 then local_table_dup2 T t (int i) (int j) s = Some (Inl EBADF, s)
      else \<exists>s'. local_table_dup2 T t (int i) (int j) s = Some (Inr (), s') \<and> tables_ok T s' TS
        \<and> lt_files s' = (lt_files s)(t := (lt_files s t)[j := lt_files s t ! i])
        \<and> (\<forall>v. vn_refcount s' v = vn_refcount s v - (if (t, j) \<in> slots s TS v then 1 else 0) + (if (t, i) \<in> slots s TS v then 1 else 0)))
    \<and> (\<forall>u. u \<in> TS \<and> u \<noteq> t \<and> set (lt_files s u) \<subseteq> insert 0 (stds s) \<longrightarrow>
        (\<exists>s'. local_table_copy t u s = Some ((), s') \<and> lt_files s' = (lt_files s)(u := lt_files s t)
          \<and> (\<forall>v. vn_refcount s' v = vn_refcount s v + int (card {k. 3 \<le> k \<and> (t, k) \<in> slots s TS v}))
          \<and> (set (take 3 (lt_files s t)) \<subseteq> insert 0 (stds s) \<longrightarrow> tables_ok T s' TS)))"
proof (intro conjI allI impI)
  note tl = table_lock [OF assms(2,3)]
  have sl: "slot (lt_files s t) (int i) = Some (lt_files s t ! i)" using tl assms(4) by (simp add: slot_def)
  have low: "low s 1" using assms(7) by (rule low_mono) simp
  show "if lt_files s t ! i = 0 then local_table_close_file T t (int i) s = Some (Inl EBADF, s)
      else \<exists>s'. local_table_close_file T t (int i) s = Some (Inr (), s') \<and> tables_ok T s' TS
        \<and> lt_files s' = (lt_files s)(t := (lt_files s t)[i := 0])
        \<and> (\<forall>v. vn_refcount s' v = vn_refcount s v - (if (t, i) \<in> slots s TS v then 1 else 0))"
  proof (cases "lt_files s t ! i = 0")
    case True
    then have "non_lock_close_file T t (int i) (taken (lt_lk s t) s) = Some (Inl EBADF, taken (lt_lk s t) s)"
      using sl by (simp add: non_lock_close_file_def MAX_LOCAL_TABLE_SIZE_def)
    from critical_pure [where f = "non_lock_close_file T t (int i)", OF conjunct1 [OF tl] this] True show ?thesis
      using tl by (simp add: local_table_close_file_def)
  next
    case False
    from close_file_ok [OF assms(1-4) False] show ?thesis using False by (metis emptied_def)
  qed
  show "if lt_files s t ! i = 0 then local_table_dup2 T t (int i) (int j) s = Some (Inl EBADF, s)
      else \<exists>s'. local_table_dup2 T t (int i) (int j) s = Some (Inr (), s') \<and> tables_ok T s' TS
        \<and> lt_files s' = (lt_files s)(t := (lt_files s t)[j := lt_files s t ! i])
        \<and> (\<forall>v. vn_refcount s' v = vn_refcount s v - (if (t, j) \<in> slots s TS v then 1 else 0) + (if (t, i) \<in> slots s TS v then 1 else 0))"
  proof (cases "lt_files s t ! i = 0")
    case True
    then show ?thesis
      using critical_read [where g = "\<lambda>_. Inl EBADF", OF conjunct1 [OF tl]] sl tl assms(6)
      by (simp add: local_table_dup2_def critical_def guarded_def lk.enter)
  next
    case False
    from dup2_ok [OF assms(1-6) False low] show ?thesis using False by metis
  qed
  fix u
  assume "u \<in> TS \<and> u \<noteq> t \<and> set (lt_files s u) \<subseteq> insert 0 (stds s)"
  then have u: "u \<in> TS" "t \<noteq> u" "set (lt_files s u) \<subseteq> insert 0 (stds s)" by auto
  obtain s' where s': "local_table_copy t u s = Some ((), s')" "lt_files s' = (lt_files s)(u := lt_files s t)"
    "\<forall>v. vn_refcount s' v = vn_refcount s v + int (card {k. 3 \<le> k \<and> (t, k) \<in> slots s TS v})"
    by (rule copy_takes [OF assms(2,3) u(1,2) assms(7) u(3)])
  have "tables_ok T s' TS" if std: "set (take 3 (lt_files s t)) \<subseteq> insert 0 (stds s)"
    by (rule copy_ok [OF assms(2,3) u(1,2) assms(7) u(3) std]) (simp add: s'(1))
  then show "\<exists>s'. local_table_copy t u s = Some ((), s') \<and> lt_files s' = (lt_files s)(u := lt_files s t)
      \<and> (\<forall>v. vn_refcount s' v = vn_refcount s v + int (card {k. 3 \<le> k \<and> (t, k) \<in> slots s TS v}))
      \<and> (set (take 3 (lt_files s t)) \<subseteq> insert 0 (stds s) \<longrightarrow> tables_ok T s' TS)" using s' by blast
qed

lemma file_tables_keep_counts_witness:
  "\<exists>s'. local_table_dup2 (device_tables (\<lambda>_. null_device)) 104 3 7 boot_files = Some (Inr (), s')
    \<and> vn_refcount s' 22 = 3 \<and> tables_ok (device_tables (\<lambda>_. null_device)) s' {104, 108}"
proof -
  have "low boot_files 13" by (simp add: low_def boot_files_sel)
  from file_tables_keep_counts [OF null_contract boot_files_ok _ _ _ _ this, of 104 3 7]
  obtain s' where "local_table_dup2 (device_tables (\<lambda>_. null_device)) 104 3 7 boot_files = Some (Inr (), s')" "tables_ok (device_tables (\<lambda>_. null_device)) s' {104, 108}"
    "vn_refcount s' 22 = vn_refcount boot_files 22 - (if (104, 7) \<in> slots boot_files {104, 108} 22 then 1 else 0) + (if (104, 3) \<in> slots boot_files {104, 108} 22 then 1 else 0)"
    by (auto simp: boot_files_sel)
  then show ?thesis by (simp add: boot_files_slots boot_files_sel)
qed

end
