(* ===== verification/File_Syscalls.thy ===== *)
theory File_Syscalls
  imports File_Refs
begin

text \<open>
  The system calls on open files: \<open>open\<close>, \<open>close\<close>, \<open>read\<close>, \<open>write\<close>, \<open>lseek\<close> and \<open>dup2\<close> of
  \<open>kern/syscall/\<close>.  Results stored through a pointer are the \<open>Inr\<close> value.  \<open>kaddr\<close> gives the virtual
  address of a block of kernel memory, and \<open>kbuf\<close> that of a buffer on the kernel stack; the console
  is an input sequence and the bytes printed.
\<close>

section \<open>Opening and closing\<close>

definition MAX_FILENAME_LEN :: nat where
  "MAX_FILENAME_LEN = 128"

text \<open>The string of \<open>n\<close> characters at an address.\<close>

definition chars_at :: "memory \<Rightarrow> nat \<Rightarrow> nat \<Rightarrow> string" where
  "chars_at m p n = map (\<lambda>i. char_of (unat (m (p + i)))) [0..<n]"

definition my_table :: "('d, 'a) files_scheme \<Rightarrow> addr" where
  "my_table s = local_file_table s (curproc s)"

definition sys_open :: "nat \<Rightarrow> ('d, 'a) files_scheme optables \<Rightarrow> nat \<Rightarrow> 32 word \<Rightarrow> (('d, 'a) files_scheme, int) call" where
  "sys_open kbuf T filename flags s =
     (if filename = 0 then Some (Inl EFAULT, s)
      else
        let (r, m) = copyinstr filename kbuf MAX_FILENAME_LEN (user_mem s);
            s = s\<lparr>user_mem := m\<rparr>
        in case r of
             Inl e \<Rightarrow> Some (Inl e, s)
           | Inr len \<Rightarrow> on_ok (global_table_open_file T (chars_at (bytes m) kbuf (len - 1)) flags) (\<lambda>new_file s. do {
               (r, s) \<leftarrow> local_table_add_file (my_table s) new_file flags s;
               case r of
                 Inl e \<Rightarrow> do { (_, s) \<leftarrow> file_destroy T new_file s; Some (Inl e, s) }
               | Inr fd \<Rightarrow> Some (Inr fd, s) }) s)"

definition sys_close :: "('d, 'a) files_scheme optables \<Rightarrow> int \<Rightarrow> (('d, 'a) files_scheme, unit) call" where
  "sys_close T fd s =
     (if fd < 0 \<or> fd \<ge> int MAX_LOCAL_TABLE_SIZE then Some (Inl EBADF, s)
      else local_table_close_file T (my_table s) fd s)"

definition sys_dup2 :: "('d, 'a) files_scheme optables \<Rightarrow> int \<Rightarrow> int \<Rightarrow> (('d, 'a) files_scheme, int) call" where
  "sys_dup2 T oldfd newfd s =
     (if oldfd \<ge> int MAX_LOCAL_TABLE_SIZE \<or> oldfd < 0 \<or> newfd \<ge> int MAX_LOCAL_TABLE_SIZE \<or> newfd < 0 then Some (Inl EBADF, s)
      else on_ok (local_table_dup2 T (my_table s) oldfd newfd) (\<lambda>_ s. Some (Inr newfd, s)) s)"

section \<open>Seeking\<close>

definition SEEK_SET :: int where "SEEK_SET = 0"
definition SEEK_CUR :: int where "SEEK_CUR = 1"
definition SEEK_END :: int where "SEEK_END = 2"

text \<open>The switch: the new position, before the check of its sign.\<close>

definition seek_target :: "('d, 'a) files_scheme optables \<Rightarrow> addr \<Rightarrow> int \<Rightarrow> int \<Rightarrow> (('d, 'a) files_scheme, int) call" where
  "seek_target T fd pos whence s =
     (if whence = SEEK_SET then Some (Inr pos, s)
      else if whence = SEEK_CUR then Some (Inr (s64 (fd_seek s fd + pos)), s)
      else if whence = SEEK_END then
        on_ok (VOP T vop_stat (f_node s (fd_file s fd))) (\<lambda>st s. Some (Inr (s64 (st_size st + pos)), s)) s
      else Some (Inl EINVAL, s))"

definition sys_lseek :: "('d, 'a) files_scheme optables \<Rightarrow> int \<Rightarrow> int \<Rightarrow> int \<Rightarrow> (('d, 'a) files_scheme, int) call" where
  "sys_lseek T fd pos whence s = do {
     (fdesc, s) \<leftarrow> local_table_get (my_table s) fd s;
     if fdesc = 0 then Some (Inl EBADF, s)
     else if fd_standard s fdesc \<noteq> - 1 then Some (Inl ESPIPE, s)
     else critical (fd_lk s fdesc) (\<lambda>s. do {
       let node = f_node s (fd_file s fdesc);
       vnode_check T node s;
       if \<not> vop_isseekable (vops T (vn_ops s node)) node s then Some (Inl ESPIPE, s)
       else on_ok (seek_target T fdesc pos whence) (\<lambda>newPos s.
         if newPos < 0 then Some (Inl EINVAL, s)
         else Some (Inr newPos, s\<lparr>fd_seek := (fd_seek s)(fdesc := newPos)\<rparr>)) s }) s }"

section \<open>Reading and writing\<close>

text \<open>The shape of \<open>read_from_disk\<close> and \<open>write_to_disk\<close>.\<close>

definition disk_transfer ::
  "('d, 'a) files_scheme optables \<Rightarrow> (('d, 'a) files_scheme vnode_ops \<Rightarrow> addr \<Rightarrow> uio \<Rightarrow> (('d, 'a) files_scheme, uio) call)
    \<Rightarrow> uio_rw \<Rightarrow> 32 word \<Rightarrow> addr \<Rightarrow> nat \<Rightarrow> nat \<Rightarrow> (('d, 'a) files_scheme, nat) call" where
  "disk_transfer T vop rw refused desc buf sz s =
     critical (fd_lk s desc) (\<lambda>s.
       if fd_flags s desc = refused then Some (Inl EBADF, s)
       else do {
         let file = fd_file s desc;
         critical (f_lk s file) (\<lambda>s.
           let ku = (uio_kinit buf sz (fd_seek s desc) rw)\<lparr>uio_segflg := UIO_USERSPACE, uio_space := p_addrspace s (curproc s)\<rparr> in
           on_ok (VOP T (\<lambda>ops v. vop ops v ku) (f_node s file)) (\<lambda>ku s.
             let bytes_copied = u32 (sz + (2 ^ 32 - uio_resid ku)) in
             Some (Inr bytes_copied, s\<lparr>fd_seek := (fd_seek s)(desc := s64 (fd_seek s desc + int bytes_copied))\<rparr>)) s) s }) s"

definition read_from_disk :: "('d, 'a) files_scheme optables \<Rightarrow> addr \<Rightarrow> nat \<Rightarrow> nat \<Rightarrow> (('d, 'a) files_scheme, nat) call" where
  "read_from_disk T = disk_transfer T vop_read UIO_READ O_WRONLY"

definition write_to_disk :: "('d, 'a) files_scheme optables \<Rightarrow> addr \<Rightarrow> nat \<Rightarrow> nat \<Rightarrow> (('d, 'a) files_scheme, nat) call" where
  "write_to_disk T = disk_transfer T vop_write UIO_WRITE O_RDONLY"

text \<open>\<open>getch\<close> and \<open>putch\<close>; a store to kernel memory.\<close>

definition getch :: "('d, 'a) files_scheme \<Rightarrow> byte \<times> ('d, 'a) files_scheme" where
  "getch s = (con_in s (con_pos s), s\<lparr>con_pos := con_pos s + 1\<rparr>)"

definition putch :: "byte \<Rightarrow> ('d, 'a) files_scheme \<Rightarrow> ('d, 'a) files_scheme" where
  "putch c s = s\<lparr>con_out := con_out s @ [c]\<rparr>"

definition store :: "nat \<Rightarrow> byte \<Rightarrow> ('d, 'a) files_scheme \<Rightarrow> ('d, 'a) files_scheme" where
  "store a c s = s\<lparr>user_mem := (user_mem s)\<lparr>bytes := (bytes (user_mem s))(a := c)\<rparr>\<rparr>"

text \<open>The loop of \<open>read_stdin\<close>: 10 and 13 are newline and carriage return.\<close>

function stdin_loop :: "nat \<Rightarrow> nat \<Rightarrow> nat \<Rightarrow> ('d, 'a) files_scheme \<Rightarrow> nat \<times> ('d, 'a) files_scheme" where
  "stdin_loop p sz read s =
     (if read < sz then
        let (c, s) = getch s in
        if c = 10 \<or> c = 13 then (read + 1, putch 10 (store (p + read) 10 s))
        else stdin_loop p sz (read + 1) (store (p + read) c s)
      else (read, s))"
  by pat_completeness auto
termination by (relation "measure (\<lambda>(p, sz, read, s). sz - read)") auto

declare stdin_loop.simps [simp del]

definition read_stdin :: "(addr \<Rightarrow> nat) \<Rightarrow> addr \<Rightarrow> nat \<Rightarrow> nat \<Rightarrow> (('d, 'a) files_scheme, nat) call" where
  "read_stdin kaddr desc buf sz s =
     critical (fd_lk s desc) (\<lambda>s. critical (f_lk s (fd_file s desc)) (\<lambda>s.
       let (block, s) = kmalloc s in
       if block = 0 then Some (Inl ENOMEM, s)
       else
         let (read, s) = stdin_loop (kaddr block) sz 0 s;
             (r, m) = copyout (kaddr block) buf read (user_mem s);
             s = s\<lparr>user_mem := m\<rparr>
         in do { s \<leftarrow> kfree block s; Some (case r of Inl e \<Rightarrow> Inl e | Inr _ \<Rightarrow> Inr read, s) }) s) s"

definition sys_read :: "(addr \<Rightarrow> nat) \<Rightarrow> ('d, 'a) files_scheme optables \<Rightarrow> int \<Rightarrow> nat \<Rightarrow> nat \<Rightarrow> (('d, 'a) files_scheme, nat) call" where
  "sys_read kaddr T filehandle buf sz s =
     (if buf = 0 then Some (Inl EFAULT, s)
      else do {
        (desc, s) \<leftarrow> local_table_get (my_table s) filehandle s;
        if desc = 0 then Some (Inl EBADF, s)
        else if fd_standard s desc = 0 then read_stdin kaddr desc buf sz s
        else if fd_standard s desc = - 1 then read_from_disk T desc buf sz s
        else Some (Inl EBADF, s) })"

text \<open>The loop of \<open>write_std\<close>.\<close>

definition put_bytes :: "nat \<Rightarrow> nat \<Rightarrow> ('d, 'a) files_scheme \<Rightarrow> ('d, 'a) files_scheme" where
  "put_bytes p sz s = fold (\<lambda>i s. putch (bytes (user_mem s) (p + i)) s) [0..<sz] s"

definition write_std :: "(addr \<Rightarrow> nat) \<Rightarrow> addr \<Rightarrow> nat \<Rightarrow> nat \<Rightarrow> (('d, 'a) files_scheme, nat) call" where
  "write_std kaddr desc buf sz s =
     critical (fd_lk s desc) (\<lambda>s. critical (f_lk s (fd_file s desc)) (\<lambda>s.
       let (block, s) = kmalloc s in
       if block = 0 then Some (Inl ENOMEM, s)
       else
         let (r, m) = copyin buf (kaddr block) sz (user_mem s);
             s = s\<lparr>user_mem := m\<rparr>
         in case r of
              Inl e \<Rightarrow> do { s \<leftarrow> kfree block s; Some (Inl e, s) }
            | Inr _ \<Rightarrow> do {
                let s = put_bytes (kaddr block) sz s;
                s \<leftarrow> kfree block s;
                Some (Inr sz, s) }) s) s"

definition sys_write :: "(addr \<Rightarrow> nat) \<Rightarrow> ('d, 'a) files_scheme optables \<Rightarrow> int \<Rightarrow> nat \<Rightarrow> nat \<Rightarrow> (('d, 'a) files_scheme, nat) call" where
  "sys_write kaddr T filehandle buf sz s =
     (if buf = 0 then Some (Inl EFAULT, s)
      else do {
        (desc, s) \<leftarrow> local_table_get (my_table s) filehandle s;
        if desc = 0 then Some (Inl EBADF, s)
        else if fd_standard s desc = 2 \<or> fd_standard s desc = 1 then write_std kaddr desc buf sz s
        else if fd_standard s desc = - 1 then write_to_disk T desc buf sz s
        else Some (Inl EBADF, s) })"

end
