(* ===== verification/Addrspace.thy ===== *)
theory Addrspace
  imports Cstring
begin

text \<open>
  Physical memory and address spaces: \<open>kern/arch/mips/vm/ram.c\<close> and \<open>kern/arch/mips/vm/dumbvm.c\<close>.
  Physical pages are handed out from the front of the free memory and never come back.  An address
  space has two regions and a stack, each in consecutive physical pages; \<open>vm_fault\<close> enters the page
  of a faulting address into a free slot of the TLB.  Addresses are \<open>nat\<close>s below $2^{32}$, and
  \<open>ram\<close> is the memory as the kernel addresses it.

  The theorems: physical pages are handed out once, as long as the requests do not wrap around; a copy
  of an address space holds the same bytes at the same addresses, in pages of its own; and what the
  TLB holds is at all times a part of the translation of the address space that is active.
\<close>

section \<open>State\<close>

definition PAGE_SIZE :: nat where "PAGE_SIZE = 4096"
definition PAGE_FRAME :: nat where "PAGE_FRAME = 0xfffff000"
definition MIPS_KSEG0 :: nat where "MIPS_KSEG0 = 0x80000000"
definition USERSTACK :: nat where "USERSTACK = 0x80000000"
definition DUMBVM_STACKPAGES :: nat where "DUMBVM_STACKPAGES = 18"
definition NUM_TLB :: nat where "NUM_TLB = 64"
definition TLBLO_DIRTY :: nat where "TLBLO_DIRTY = 0x400"
definition TLBLO_VALID :: nat where "TLBLO_VALID = 0x200"
definition TLBLO_INVALID :: nat where "TLBLO_INVALID = 0"
definition TLBHI_INVALID :: "nat \<Rightarrow> nat" where "TLBHI_INVALID entryno = u32 (push_bit 12 (0x80000 + entryno))"
definition VM_FAULT_READ :: int where "VM_FAULT_READ = 0"
definition VM_FAULT_WRITE :: int where "VM_FAULT_WRITE = 1"
definition VM_FAULT_READONLY :: int where "VM_FAULT_READONLY = 2"

definition PADDR_TO_KVADDR :: "nat \<Rightarrow> nat" where
  "PADDR_TO_KVADDR paddr = u32 (paddr + MIPS_KSEG0)"

record addrspace =
  as_vbase1 :: nat
  as_pbase1 :: nat
  as_npages1 :: nat
  as_vbase2 :: nat
  as_pbase2 :: nat
  as_npages2 :: nat
  as_stackpbase :: nat

record vm = kmem +
  firstpaddr :: nat
  lastpaddr :: nat
  ram :: memory
  aspace :: "addr \<Rightarrow> addrspace"
  tlb :: "(nat \<times> nat) list"         \<comment> \<open>entryhi and entrylo of every slot\<close>
  cpu_exists :: bool
  c_spinlocks :: nat
  in_interrupt :: bool

section \<open>Physical memory\<close>

definition ram_bootstrap :: "nat \<Rightarrow> nat \<Rightarrow> vm \<Rightarrow> vm" where
  "ram_bootstrap ramsize firstfree s =
     (let ramsize = (if ramsize > 512 * 1024 * 1024 then 512 * 1024 * 1024 else ramsize)
      in s\<lparr>lastpaddr := ramsize, firstpaddr := u32 (firstfree + (2 ^ 32 - MIPS_KSEG0))\<rparr>)"

definition ram_stealmem :: "nat \<Rightarrow> vm \<Rightarrow> nat \<times> vm" where
  "ram_stealmem npages s =
     (let size = u32 (npages * PAGE_SIZE) in
      if u32 (firstpaddr s + size) > lastpaddr s then (0, s)
      else (firstpaddr s, s\<lparr>firstpaddr := u32 (firstpaddr s + size)\<rparr>))"

definition ram_getsize :: "vm \<Rightarrow> nat" where
  "ram_getsize s = lastpaddr s"

definition ram_getfirstfree :: "vm \<Rightarrow> nat \<times> vm" where
  "ram_getfirstfree s = (firstpaddr s, s\<lparr>firstpaddr := 0, lastpaddr := 0\<rparr>)"

section \<open>Kernel pages\<close>

definition dumbvm_can_sleep :: "vm \<Rightarrow> unit option" where
  "dumbvm_can_sleep s = (if cpu_exists s then do { kassert (c_spinlocks s = 0); kassert (\<not> in_interrupt s) } else Some ())"

definition getppages :: "nat \<Rightarrow> vm \<Rightarrow> nat \<times> vm" where
  "getppages npages s = ram_stealmem npages s"

definition alloc_kpages :: "nat \<Rightarrow> vm \<Rightarrow> (nat \<times> vm) option" where
  "alloc_kpages npages s = do {
     dumbvm_can_sleep s;
     let (pa, s) = getppages npages s;
     if pa = 0 then Some (0, s) else Some (PADDR_TO_KVADDR pa, s) }"

definition free_kpages :: "nat \<Rightarrow> vm \<Rightarrow> vm" where
  "free_kpages vaddr s = s"

section \<open>Address spaces\<close>

definition as_create :: "vm \<Rightarrow> addr \<times> vm" where
  "as_create s =
     (let (as, s) = kmalloc s in
      if as = 0 then (0, s)
      else (as, s\<lparr>aspace := (aspace s)(as := \<lparr>as_vbase1 = 0, as_pbase1 = 0, as_npages1 = 0, as_vbase2 = 0, as_pbase2 = 0,
              as_npages2 = 0, as_stackpbase = 0\<rparr>)\<rparr>))"

definition as_destroy :: "addr \<Rightarrow> vm \<Rightarrow> vm option" where
  "as_destroy as s = do { dumbvm_can_sleep s; kfree as s }"

definition as_activate :: "addr \<Rightarrow> vm \<Rightarrow> vm" where
  "as_activate as s =
     (if as = 0 then s else s\<lparr>tlb := map (\<lambda>i. (TLBHI_INVALID i, TLBLO_INVALID)) [0..<NUM_TLB]\<rparr>)"

definition as_define_region :: "addr \<Rightarrow> nat \<Rightarrow> nat \<Rightarrow> vm \<Rightarrow> ((errno + unit) \<times> vm) option" where
  "as_define_region as vaddr sz s = do {
     dumbvm_can_sleep s;
     let sz = u32 (sz + (vaddr AND 0xfff));
     let vaddr = vaddr AND PAGE_FRAME;
     let sz = u32 (sz + PAGE_SIZE - 1) AND PAGE_FRAME;
     let npages = sz div PAGE_SIZE;
     let A = aspace s as;
     if as_vbase1 A = 0 then Some (Inr (), s\<lparr>aspace := (aspace s)(as := A\<lparr>as_vbase1 := vaddr, as_npages1 := npages\<rparr>)\<rparr>)
     else if as_vbase2 A = 0 then Some (Inr (), s\<lparr>aspace := (aspace s)(as := A\<lparr>as_vbase2 := vaddr, as_npages2 := npages\<rparr>)\<rparr>)
     else Some (Inl ENOSYS, s) }"

definition as_zero_region :: "nat \<Rightarrow> nat \<Rightarrow> vm \<Rightarrow> vm" where
  "as_zero_region paddr npages s = s\<lparr>ram := bzero (PADDR_TO_KVADDR paddr) (u32 (npages * PAGE_SIZE)) (ram s)\<rparr>"

definition as_prepare_load :: "addr \<Rightarrow> vm \<Rightarrow> ((errno + unit) \<times> vm) option" where
  "as_prepare_load as s = do {
     kassert (as_pbase1 (aspace s as) = 0);
     kassert (as_pbase2 (aspace s as) = 0);
     kassert (as_stackpbase (aspace s as) = 0);
     dumbvm_can_sleep s;
     let (p, s) = getppages (as_npages1 (aspace s as)) s;
     let s = s\<lparr>aspace := (aspace s)(as := (aspace s as)\<lparr>as_pbase1 := p\<rparr>)\<rparr>;
     if p = 0 then Some (Inl ENOMEM, s)
     else do {
       let (p, s) = getppages (as_npages2 (aspace s as)) s;
       let s = s\<lparr>aspace := (aspace s)(as := (aspace s as)\<lparr>as_pbase2 := p\<rparr>)\<rparr>;
       if p = 0 then Some (Inl ENOMEM, s)
       else do {
         let (p, s) = getppages DUMBVM_STACKPAGES s;
         let s = s\<lparr>aspace := (aspace s)(as := (aspace s as)\<lparr>as_stackpbase := p\<rparr>)\<rparr>;
         if p = 0 then Some (Inl ENOMEM, s)
         else do {
           let s = as_zero_region (as_pbase1 (aspace s as)) (as_npages1 (aspace s as)) s;
           let s = as_zero_region (as_pbase2 (aspace s as)) (as_npages2 (aspace s as)) s;
           let s = as_zero_region (as_stackpbase (aspace s as)) DUMBVM_STACKPAGES s;
           Some (Inr (), s) } } } }"

definition as_complete_load :: "addr \<Rightarrow> vm \<Rightarrow> ((errno + unit) \<times> vm) option" where
  "as_complete_load as s = do { dumbvm_can_sleep s; Some (Inr (), s) }"

definition as_define_stack :: "addr \<Rightarrow> vm \<Rightarrow> ((errno + nat) \<times> vm) option" where
  "as_define_stack as s = do { kassert (as_stackpbase (aspace s as) \<noteq> 0); Some (Inr USERSTACK, s) }"

definition copy_pages :: "nat \<Rightarrow> nat \<Rightarrow> nat \<Rightarrow> vm \<Rightarrow> vm" where
  "copy_pages dst src npages s =
     s\<lparr>ram := memmove (PADDR_TO_KVADDR dst) (PADDR_TO_KVADDR src) (u32 (npages * PAGE_SIZE)) (ram s)\<rparr>"

definition as_copy :: "addr \<Rightarrow> vm \<Rightarrow> ((errno + addr) \<times> vm) option" where
  "as_copy old s = do {
     dumbvm_can_sleep s;
     let (new, s) = as_create s;
     if new = 0 then Some (Inl ENOMEM, s)
     else do {
       let src = aspace s old;
       let s = s\<lparr>aspace := (aspace s)(new := (aspace s new)\<lparr>as_vbase1 := as_vbase1 src, as_npages1 := as_npages1 src,
                 as_vbase2 := as_vbase2 src, as_npages2 := as_npages2 src\<rparr>)\<rparr>;
       (r, s) \<leftarrow> as_prepare_load new s;
       case r of
         Inl e \<Rightarrow> do { s \<leftarrow> as_destroy new s; Some (Inl ENOMEM, s) }
       | Inr _ \<Rightarrow> do {
           let dst = aspace s new;
           let src = aspace s old;
           kassert (as_pbase1 dst \<noteq> 0);
           kassert (as_pbase2 dst \<noteq> 0);
           kassert (as_stackpbase dst \<noteq> 0);
           let s = copy_pages (as_pbase1 dst) (as_pbase1 src) (as_npages1 src) s;
           let s = copy_pages (as_pbase2 dst) (as_pbase2 src) (as_npages2 src) s;
           let s = copy_pages (as_stackpbase dst) (as_stackpbase src) DUMBVM_STACKPAGES s;
           Some (Inr new, s) } } }"

section \<open>Faults\<close>

text \<open>The loop over the TLB: an entry for the page goes into the first slot that is not valid.\<close>

definition tlb_enter :: "nat \<Rightarrow> nat \<Rightarrow> (nat \<times> nat) list \<Rightarrow> (nat \<times> nat) list option" where
  "tlb_enter faultaddress paddr es =
     (let i = length (takeWhile (\<lambda>(ehi, elo). elo AND TLBLO_VALID \<noteq> 0) es) in
      if i < NUM_TLB then Some (es[i := (faultaddress, paddr OR TLBLO_DIRTY OR TLBLO_VALID)]) else None)"

definition vm_fault :: "addr \<Rightarrow> addr \<Rightarrow> int \<Rightarrow> nat \<Rightarrow> vm \<Rightarrow> ((errno + unit) \<times> vm) option" where
  "vm_fault curproc as faulttype faultaddress s =
     (let faultaddress = faultaddress AND PAGE_FRAME in
      if faulttype = VM_FAULT_READONLY then None
      else if faulttype \<noteq> VM_FAULT_READ \<and> faulttype \<noteq> VM_FAULT_WRITE then Some (Inl EINVAL, s)
      else if curproc = 0 then Some (Inl EFAULT, s)
      else if as = 0 then Some (Inl EFAULT, s)
      else do {
        let A = aspace s as;
        kassert (as_vbase1 A \<noteq> 0);
        kassert (as_pbase1 A \<noteq> 0);
        kassert (as_npages1 A \<noteq> 0);
        kassert (as_vbase2 A \<noteq> 0);
        kassert (as_pbase2 A \<noteq> 0);
        kassert (as_npages2 A \<noteq> 0);
        kassert (as_stackpbase A \<noteq> 0);
        kassert (as_vbase1 A AND PAGE_FRAME = as_vbase1 A);
        kassert (as_pbase1 A AND PAGE_FRAME = as_pbase1 A);
        kassert (as_vbase2 A AND PAGE_FRAME = as_vbase2 A);
        kassert (as_pbase2 A AND PAGE_FRAME = as_pbase2 A);
        kassert (as_stackpbase A AND PAGE_FRAME = as_stackpbase A);
        let vbase1 = as_vbase1 A;
        let vtop1 = u32 (vbase1 + as_npages1 A * PAGE_SIZE);
        let vbase2 = as_vbase2 A;
        let vtop2 = u32 (vbase2 + as_npages2 A * PAGE_SIZE);
        let stackbase = USERSTACK - DUMBVM_STACKPAGES * PAGE_SIZE;
        let stacktop = USERSTACK;
        let found = (if faultaddress \<ge> vbase1 \<and> faultaddress < vtop1 then Some (u32 (faultaddress - vbase1 + as_pbase1 A))
              else if faultaddress \<ge> vbase2 \<and> faultaddress < vtop2 then Some (u32 (faultaddress - vbase2 + as_pbase2 A))
              else if faultaddress \<ge> stackbase \<and> faultaddress < stacktop then Some (u32 (faultaddress - stackbase + as_stackpbase A))
              else None);
        case found of
          None \<Rightarrow> Some (Inl EFAULT, s)
        | Some paddr \<Rightarrow> do {
            kassert (paddr AND PAGE_FRAME = paddr);
            case tlb_enter faultaddress paddr (tlb s) of
              None \<Rightarrow> Some (Inl EFAULT, s)
            | Some es \<Rightarrow> Some (Inr (), s\<lparr>tlb := es\<rparr>) } })"

section \<open>Words and pages\<close>

lemma page_frame: "x < 4294967296 \<Longrightarrow> x AND PAGE_FRAME = 4096 * (x div 4096)"
proof -
  assume x: "x < 4294967296"
  have f: "PAGE_FRAME = push_bit 12 (mask 20)" by (simp add: PAGE_FRAME_def push_bit_eq_mult mask_eq_exp_minus_1)
  have "x AND PAGE_FRAME = push_bit 12 (take_bit 20 (drop_bit 12 x))"
    unfolding f by (rule bit_eqI) (auto simp: bit_simps)
  also have "drop_bit 12 x < 2 ^ 20" using x by (simp add: drop_bit_eq_div)
  then have "take_bit 20 (drop_bit 12 x) = drop_bit 12 x" by (rule take_bit_nat_eq_self)
  finally show ?thesis by (simp add: push_bit_eq_mult drop_bit_eq_div)
qed

lemma page_offset: "x AND 0xfff = x mod (4096::nat)"
proof -
  have "(0xfff::nat) = mask 12" by (simp add: mask_eq_exp_minus_1)
  then have "x AND 0xfff = take_bit 12 x" by (simp only: take_bit_eq_mask)
  then show ?thesis by (simp add: take_bit_eq_mod)
qed

lemma page_aligned: "x < 4294967296 \<Longrightarrow> x AND PAGE_FRAME = x \<longleftrightarrow> x mod 4096 = 0"
  using mult_div_mod_eq [of 4096 x] by (simp only: page_frame) linarith

lemmas vm_consts = PAGE_SIZE_def MIPS_KSEG0_def USERSTACK_def DUMBVM_STACKPAGES_def NUM_TLB_def

lemma kvaddr: "p < 2147483648 \<Longrightarrow> PADDR_TO_KVADDR p = p + 2147483648"
  by (simp add: PADDR_TO_KVADDR_def u32_id vm_consts)

text \<open>An entry of the TLB, read back.\<close>

lemma entrylo:
  assumes "p < 4294967296" and "p mod 4096 = 0"
  shows "(p OR TLBLO_DIRTY OR TLBLO_VALID) AND PAGE_FRAME = p"
    "(p OR TLBLO_DIRTY OR TLBLO_VALID) AND TLBLO_VALID = TLBLO_VALID" "(p OR TLBLO_DIRTY OR TLBLO_VALID) AND TLBLO_DIRTY = TLBLO_DIRTY"
proof -
  obtain k where p: "p = push_bit 12 k" using assms(2) by (auto simp: push_bit_eq_mult mod_eq_0_iff_dvd elim: dvdE)
  have f: "PAGE_FRAME = push_bit 12 (mask 20)" by (simp add: PAGE_FRAME_def push_bit_eq_mult mask_eq_exp_minus_1)
  have d: "TLBLO_DIRTY = 2 ^ 10" "TLBLO_VALID = 2 ^ 9" by (simp_all add: TLBLO_DIRTY_def TLBLO_VALID_def)
  have b: "bit TLBLO_DIRTY n \<longleftrightarrow> n = 10" "bit TLBLO_VALID n \<longleftrightarrow> n = 9" for n
    unfolding d by (simp_all only: bit_exp_iff possible_bit_nat simp_thms)
  have k: "n < 20" if "bit k n" for n
  proof -
    have "k < 2 ^ 20" using assms(1) by (simp add: p push_bit_eq_mult)
    then have "take_bit 20 k = k" by (rule take_bit_nat_eq_self)
    then show ?thesis using that by (metis bit_take_bit_iff)
  qed
  show "(p OR TLBLO_DIRTY OR TLBLO_VALID) AND PAGE_FRAME = p"
    unfolding p f by (rule bit_eqI) (use k in \<open>auto simp: bit_simps b\<close>)
  show "(p OR TLBLO_DIRTY OR TLBLO_VALID) AND TLBLO_VALID = TLBLO_VALID" "(p OR TLBLO_DIRTY OR TLBLO_VALID) AND TLBLO_DIRTY = TLBLO_DIRTY"
    unfolding p by (rule bit_eqI, auto simp: bit_simps b)+
qed

section \<open>What an address space means\<close>

text \<open>The regions: virtual base, physical base, and length in pages.  The first that fits is used.\<close>

definition regions :: "addrspace \<Rightarrow> (nat \<times> nat \<times> nat) list" where
  "regions A = [(as_vbase1 A, as_pbase1 A, as_npages1 A), (as_vbase2 A, as_pbase2 A, as_npages2 A),
     (USERSTACK - DUMBVM_STACKPAGES * PAGE_SIZE, as_stackpbase A, DUMBVM_STACKPAGES)]"

fun region_at :: "(nat \<times> nat \<times> nat) list \<Rightarrow> nat \<Rightarrow> nat option" where
  "region_at [] v = None"
| "region_at ((vb, pb, n) # rs) v = (if vb \<le> v \<and> v < vb + n * 4096 then Some (pb + (v - vb)) else region_at rs v)"

definition translate :: "addrspace \<Rightarrow> nat \<Rightarrow> nat option" where
  "translate A v = region_at (regions A) v"

text \<open>What the process reads at an address.\<close>

definition user_byte :: "vm \<Rightarrow> addr \<Rightarrow> nat \<Rightarrow> byte option" where
  "user_byte s a v = map_option (\<lambda>p. ram s (PADDR_TO_KVADDR p)) (translate (aspace s a) v)"

definition region_ok :: "nat \<Rightarrow> nat \<times> nat \<times> nat \<Rightarrow> bool" where
  "region_ok hi = (\<lambda>(vb, pb, n). vb \<noteq> 0 \<and> pb \<noteq> 0 \<and> n \<noteq> 0 \<and> vb mod 4096 = 0 \<and> pb mod 4096 = 0
     \<and> vb + n * 4096 \<le> USERSTACK \<and> pb + n * 4096 \<le> hi)"

definition block :: "vm \<Rightarrow> addr \<times> nat \<Rightarrow> nat set" where
  "block s = (\<lambda>(a, i). case regions (aspace s a) ! i of (vb, pb, n) \<Rightarrow> {pb..<pb + n * 4096})"

definition ram_ok :: "vm \<Rightarrow> bool" where
  "ram_ok s \<longleftrightarrow> firstpaddr s mod 4096 = 0 \<and> 0 < firstpaddr s \<and> firstpaddr s \<le> lastpaddr s \<and> lastpaddr s \<le> 0x20000000"

text \<open>The address spaces in use are well-formed and apart in physical memory.\<close>

definition vm_ok :: "vm \<Rightarrow> addr set \<Rightarrow> bool" where
  "vm_ok s AS \<longleftrightarrow> ram_ok s \<and> kmem_ok s \<and> dumbvm_can_sleep s = Some () \<and> AS \<subseteq> live s
     \<and> (\<forall>a\<in>AS. \<forall>r\<in>set (regions (aspace s a)). region_ok (firstpaddr s) r)
     \<and> (\<forall>x\<in>AS \<times> {0, 1, 2}. \<forall>y\<in>AS \<times> {0, 1, 2}. x \<noteq> y \<longrightarrow> block s x \<inter> block s y = {})"

lemma region_ok_mono: "region_ok hi r \<Longrightarrow> hi \<le> hi' \<Longrightarrow> region_ok hi' r"
  by (auto simp: region_ok_def)

lemma regions_nth: "regions A ! 0 = (as_vbase1 A, as_pbase1 A, as_npages1 A)" "regions A ! 1 = (as_vbase2 A, as_pbase2 A, as_npages2 A)"
  "regions A ! 2 = (USERSTACK - DUMBVM_STACKPAGES * PAGE_SIZE, as_stackpbase A, DUMBVM_STACKPAGES)"
  by (simp_all add: regions_def)

lemma block_below:
  assumes "vm_ok s AS" and "x \<in> AS \<times> {0, 1, 2}"
  shows "block s x \<subseteq> {0..<firstpaddr s}"
proof -
  obtain a i where x: "x = (a, i)" "a \<in> AS" "i = 0 \<or> i = 1 \<or> i = 2" using assms(2) by auto
  then have "regions (aspace s a) ! i \<in> set (regions (aspace s a))" by (auto simp: regions_def)
  then have "region_ok (firstpaddr s) (regions (aspace s a) ! i)" using assms(1) x(2) by (simp add: vm_ok_def)
  then show ?thesis using x(1) by (auto simp: block_def region_ok_def split: prod.splits)
qed

text \<open>Translations stay below the end of the memory in use.\<close>

lemma region_at_bound: "\<forall>r\<in>set rs. region_ok hi r \<Longrightarrow> region_at rs v = Some p \<Longrightarrow> 0 < p \<and> p < hi \<and> v < USERSTACK"
  by (induction rs) (auto simp: region_ok_def split: if_splits)

lemma region_at_page: "\<forall>r\<in>set rs. region_ok hi r \<Longrightarrow> region_at rs v = Some p \<Longrightarrow> p mod 4096 = v mod 4096"
proof (induction rs)
  case (Cons r rs)
  obtain vb pb n where r: "r = (vb, pb, n)" by (cases r)
  show ?case
  proof (cases "vb \<le> v \<and> v < vb + n * 4096")
    case True
    then have "p + vb = pb + v" and "vb mod 4096 = 0" "pb mod 4096 = 0" using Cons.prems by (auto simp: r region_ok_def)
    then have "(p + vb) mod 4096 = (pb + v) mod 4096" by simp
    then show ?thesis using \<open>vb mod 4096 = 0\<close> \<open>pb mod 4096 = 0\<close> by (metis mod_add_left_eq mod_add_right_eq add_0 add.right_neutral)
  next
    case False
    then show ?thesis using Cons by (auto simp: r)
  qed
qed simp

section \<open>Handing out pages\<close>

lemma steal_eq:
  assumes "ram_ok s" and "n * 4096 \<le> 0x80000000"
  shows "ram_stealmem n s = (if firstpaddr s + n * 4096 > lastpaddr s then (0, s) else (firstpaddr s, s\<lparr>firstpaddr := firstpaddr s + n * 4096\<rparr>))"
  using assms by (simp add: ram_stealmem_def ram_ok_def vm_consts u32_id Let_def)

lemma steal_ram_ok: "ram_ok s \<Longrightarrow> firstpaddr s + n * 4096 \<le> lastpaddr s \<Longrightarrow> ram_ok (s\<lparr>firstpaddr := firstpaddr s + n * 4096\<rparr>)"
  by (simp add: ram_ok_def)

fun steal_all :: "nat list \<Rightarrow> vm \<Rightarrow> nat list \<times> vm" where
  "steal_all [] s = ([], s)"
| "steal_all (n # ns) s = (let (p, s) = ram_stealmem n s; (ps, s) = steal_all ns s in (p # ps, s))"

lemma steal_all_ok:
  assumes "ram_ok s" and "\<forall>n\<in>set ns. n * 4096 \<le> 0x80000000" and "steal_all ns s = (ps, s')"
  shows "length ps = length ns \<and> ram_ok s' \<and> lastpaddr s' = lastpaddr s \<and> firstpaddr s \<le> firstpaddr s'
    \<and> (\<forall>i<length ns. ps ! i \<noteq> 0 \<longrightarrow> firstpaddr s \<le> ps ! i \<and> ps ! i + ns ! i * 4096 \<le> firstpaddr s' \<and> ps ! i mod 4096 = 0)
    \<and> (\<forall>i<length ns. \<forall>j<i. ps ! i \<noteq> 0 \<and> ps ! j \<noteq> 0 \<longrightarrow> ps ! j + ns ! j * 4096 \<le> ps ! i)"
  using assms
proof (induction ns arbitrary: s ps)
  case (Cons n ns)
  define p where "p = fst (ram_stealmem n s)"
  define s1 where "s1 = snd (ram_stealmem n s)"
  have e: "ram_stealmem n s = (if firstpaddr s + n * 4096 > lastpaddr s then (0, s) else (firstpaddr s, s\<lparr>firstpaddr := firstpaddr s + n * 4096\<rparr>))"
    using Cons.prems by (intro steal_eq) auto
  have s1: "ram_ok s1" "lastpaddr s1 = lastpaddr s" "firstpaddr s \<le> firstpaddr s1"
    "p \<noteq> 0 \<Longrightarrow> p = firstpaddr s \<and> firstpaddr s1 = p + n * 4096"
    using e Cons.prems(1) steal_ram_ok [of s n] by (auto simp: p_def s1_def)
  obtain qs where qs: "ps = p # qs" "steal_all ns s1 = (qs, s')"
    using Cons.prems(3) by (auto simp: p_def s1_def Let_def split: prod.splits)
  have IH: "length qs = length ns \<and> ram_ok s' \<and> lastpaddr s' = lastpaddr s1 \<and> firstpaddr s1 \<le> firstpaddr s'
    \<and> (\<forall>i<length ns. qs ! i \<noteq> 0 \<longrightarrow> firstpaddr s1 \<le> qs ! i \<and> qs ! i + ns ! i * 4096 \<le> firstpaddr s' \<and> qs ! i mod 4096 = 0)
    \<and> (\<forall>i<length ns. \<forall>j<i. qs ! i \<noteq> 0 \<and> qs ! j \<noteq> 0 \<longrightarrow> qs ! j + ns ! j * 4096 \<le> qs ! i)"
    using Cons.prems(2) by (intro Cons.IH [OF s1(1) _ qs(2)]) auto
  have f: "firstpaddr s mod 4096 = 0" using Cons.prems(1) by (simp add: ram_ok_def)
  have 1: "\<forall>i<length (n # ns). ps ! i \<noteq> 0 \<longrightarrow> firstpaddr s \<le> ps ! i \<and> ps ! i + (n # ns) ! i * 4096 \<le> firstpaddr s' \<and> ps ! i mod 4096 = 0"
    using IH s1 f by (auto simp: qs(1) nth_Cons' less_Suc_eq_0_disj intro: order_trans)
  have 2: "\<forall>i<length (n # ns). \<forall>j<i. ps ! i \<noteq> 0 \<and> ps ! j \<noteq> 0 \<longrightarrow> ps ! j + (n # ns) ! j * 4096 \<le> ps ! i"
  proof (intro allI impI)
    fix i j assume i: "i < length (n # ns)" "j < i" "ps ! i \<noteq> 0 \<and> ps ! j \<noteq> 0"
    then obtain k where k: "i = Suc k" "k < length ns" by (cases i) auto
    show "ps ! j + (n # ns) ! j * 4096 \<le> ps ! i"
    proof (cases j)
      case 0
      then show ?thesis using IH s1(4) i k by (auto simp: qs(1))
    next
      case (Suc j')
      then show ?thesis using IH i k by (auto simp: qs(1))
    qed
  qed
  show ?case using IH s1(2,3) 1 2 by (simp add: qs(1))
qed simp

section \<open>Loading and copying\<close>

lemma can_sleep_upd [simp]:
  "dumbvm_can_sleep (s\<lparr>firstpaddr := f\<rparr>) = dumbvm_can_sleep s" "dumbvm_can_sleep (s\<lparr>aspace := A\<rparr>) = dumbvm_can_sleep s"
  "dumbvm_can_sleep (s\<lparr>ram := m\<rparr>) = dumbvm_can_sleep s" "dumbvm_can_sleep (s\<lparr>tlb := es\<rparr>) = dumbvm_can_sleep s"
  "dumbvm_can_sleep (s\<lparr>ticks := n\<rparr>) = dumbvm_can_sleep s" "dumbvm_can_sleep (s\<lparr>live := l\<rparr>) = dumbvm_can_sleep s"
  by (simp_all add: dumbvm_can_sleep_def)

text \<open>The state after the pages of an address space have been allocated.\<close>

definition prepared :: "addr \<Rightarrow> vm \<Rightarrow> vm" where
  "prepared as s =
     (let A = aspace s as; f = firstpaddr s; g = f + as_npages1 A * 4096; h = g + as_npages2 A * 4096; e = h + 18 * 4096 in
      s\<lparr>firstpaddr := e, aspace := (aspace s)(as := A\<lparr>as_pbase1 := f, as_pbase2 := g, as_stackpbase := h\<rparr>),
        ram := (\<lambda>x. if f + MIPS_KSEG0 \<le> x \<and> x < e + MIPS_KSEG0 then 0 else ram s x)\<rparr>)"

text \<open>What a load that runs out of memory leaves: pages that belong to nobody.\<close>

definition leaked :: "addr \<Rightarrow> vm \<Rightarrow> vm \<Rightarrow> bool" where
  "leaked a s s' \<longleftrightarrow> ram s' = ram s \<and> (\<forall>b. b \<noteq> a \<longrightarrow> aspace s' b = aspace s b) \<and> ram_ok s' \<and> firstpaddr s \<le> firstpaddr s'
     \<and> lastpaddr s' = lastpaddr s \<and> kmem.truncate s' = kmem.truncate s \<and> dumbvm_can_sleep s' = Some () \<and> tlb s' = tlb s"

definition room :: "addrspace \<Rightarrow> vm \<Rightarrow> bool" where
  "room A s \<longleftrightarrow> firstpaddr s + (as_npages1 A + as_npages2 A + 18) * 4096 \<le> lastpaddr s"

lemma ram_cong: "(\<And>x. m x = m' x) \<Longrightarrow> s\<lparr>ram := m\<rparr> = s\<lparr>ram := m'\<rparr>"
  by (auto simp: fun_eq_iff intro: arg_cong)

lemma zero_region_eq:
  "p < 2147483648 \<Longrightarrow> n * 4096 < 4294967296 \<Longrightarrow>
   as_zero_region p n s = s\<lparr>ram := (\<lambda>x. if p + 2147483648 \<le> x \<and> x < p + 2147483648 + n * 4096 then 0 else ram s x)\<rparr>"
  by (simp add: as_zero_region_def bzero_eq kvaddr u32_id PAGE_SIZE_def)

lemma prepare_load_eq:
  assumes s: "ram_ok s" "dumbvm_can_sleep s = Some ()"
    and A: "as_pbase1 (aspace s a) = 0" "as_pbase2 (aspace s a) = 0" "as_stackpbase (aspace s a) = 0"
    and n: "as_npages1 (aspace s a) * 4096 \<le> 0x80000000" "as_npages2 (aspace s a) * 4096 \<le> 0x80000000"
  shows "room (aspace s a) s \<Longrightarrow> as_prepare_load a s = Some (Inr (), prepared a s)"
    and "\<not> room (aspace s a) s \<Longrightarrow> \<exists>s'. as_prepare_load a s = Some (Inl ENOMEM, s') \<and> leaked a s s'"
proof -
  let ?A = "aspace s a" and ?f = "firstpaddr s"
  have f: "0 < ?f" "?f mod 4096 = 0" "?f \<le> lastpaddr s" "lastpaddr s \<le> 0x20000000" using s(1) by (simp_all add: ram_ok_def)
  have st: "getppages k (s\<lparr>firstpaddr := g, aspace := as'\<rparr>)
      = (if g + k * 4096 > lastpaddr s then (0, s\<lparr>firstpaddr := g, aspace := as'\<rparr>) else (g, s\<lparr>firstpaddr := g + k * 4096, aspace := as'\<rparr>))"
    if "g mod 4096 = 0" "0 < g" "g \<le> lastpaddr s" "k * 4096 \<le> 0x80000000" for k g as'
    using that f steal_eq [of "s\<lparr>firstpaddr := g, aspace := as'\<rparr>" k] by (simp add: getppages_def ram_ok_def)
  have st0: "getppages k s = (if ?f + k * 4096 > lastpaddr s then (0, s) else (?f, s\<lparr>firstpaddr := ?f + k * 4096\<rparr>))"
    if "k * 4096 \<le> 0x80000000" for k
    using steal_eq [OF s(1) that] by (simp add: getppages_def)
  show "as_prepare_load a s = Some (Inr (), prepared a s)" if r: "room ?A s"
  proof -
    have r': "?f + as_npages1 ?A * 4096 \<le> lastpaddr s" "?f + as_npages1 ?A * 4096 + as_npages2 ?A * 4096 \<le> lastpaddr s"
      "?f + as_npages1 ?A * 4096 + as_npages2 ?A * 4096 + 73728 \<le> lastpaddr s"
      using r by (simp_all add: room_def algebra_simps)
    have u: "u32 (as_npages1 ?A * 4096) = as_npages1 ?A * 4096" "u32 (as_npages2 ?A * 4096) = as_npages2 ?A * 4096"
      using n by (simp_all add: u32_id)
    have k: "PADDR_TO_KVADDR g = g + 2147483648" if "g \<le> lastpaddr s" for g using that f by (intro kvaddr) simp
    let ?g = "?f + as_npages1 ?A * 4096"
    let ?h = "?g + as_npages2 ?A * 4096"
    let ?s = "s\<lparr>firstpaddr := ?h + 73728, aspace := (aspace s)(a := ?A\<lparr>as_pbase1 := ?f, as_pbase2 := ?g, as_stackpbase := ?h\<rparr>)\<rparr>"
    have m: "?g mod 4096 = 0" "?h mod 4096 = 0" using f(2) by simp_all
    have b: "?f < 2147483648" "?g < 2147483648" "?h < 2147483648" "as_npages1 ?A * 4096 < 4294967296" "as_npages2 ?A * 4096 < 4294967296"
      using f(3,4) r' n by simp_all
    have "as_prepare_load a s = Some (Inr (), as_zero_region ?h 18 (as_zero_region ?g (as_npages2 ?A) (as_zero_region ?f (as_npages1 ?A) ?s)))"
      unfolding as_prepare_load_def
      using f(1) r' A n s(2) m by (simp add: st0 st as_zero_region_def DUMBVM_STACKPAGES_def)
    also have "as_zero_region ?h 18 (as_zero_region ?g (as_npages2 ?A) (as_zero_region ?f (as_npages1 ?A) ?s)) = prepared a s"
      unfolding prepared_def Let_def MIPS_KSEG0_def zero_region_eq [OF b(1) b(4)] zero_region_eq [OF b(2) b(5)] zero_region_eq [OF b(3), of 18, simplified]
      by (simp cong: if_cong) (rule ram_cong, auto)
    finally show ?thesis .
  qed
  show "\<exists>s'. as_prepare_load a s = Some (Inl ENOMEM, s') \<and> leaked a s s'" if r: "\<not> room ?A s"
  proof (cases "?f + as_npages1 ?A * 4096 \<le> lastpaddr s")
    case False
    then show ?thesis using f A n s by (simp add: as_prepare_load_def st0 leaked_def ram_ok_def kmem.defs)
  next
    case True
    let ?g = "?f + as_npages1 ?A * 4096"
    have m: "?g mod 4096 = 0" using f(2) by simp
    show ?thesis
    proof (cases "?g + as_npages2 ?A * 4096 \<le> lastpaddr s")
      case False
      then show ?thesis using True f A n s m by (simp add: as_prepare_load_def st0 st leaked_def ram_ok_def kmem.defs)
    next
      case T2: True
      let ?h = "?g + as_npages2 ?A * 4096"
      have m2: "?h mod 4096 = 0" using m by simp
      have "\<not> ?h + 73728 \<le> lastpaddr s" using r by (simp add: room_def algebra_simps)
      then show ?thesis using T2 True f A n s m m2 by (simp add: as_prepare_load_def st0 st leaked_def ram_ok_def kmem.defs DUMBVM_STACKPAGES_def)
    qed
  qed
qed

lemma vm_ok_apart: "vm_ok s AS \<Longrightarrow> x \<in> AS \<times> {0, 1, 2} \<Longrightarrow> y \<in> AS \<times> {0, 1, 2} \<Longrightarrow> x \<noteq> y \<Longrightarrow> block s x \<inter> block s y = {}"
  unfolding vm_ok_def by blast

lemma vm_okI:
  "ram_ok s \<Longrightarrow> kmem_ok s \<Longrightarrow> dumbvm_can_sleep s = Some () \<Longrightarrow> AS \<subseteq> live s \<Longrightarrow> (\<And>a r. a \<in> AS \<Longrightarrow> r \<in> set (regions (aspace s a)) \<Longrightarrow> region_ok (firstpaddr s) r)
   \<Longrightarrow> (\<And>x y. x \<in> AS \<times> {0, 1, 2} \<Longrightarrow> y \<in> AS \<times> {0, 1, 2} \<Longrightarrow> x \<noteq> y \<Longrightarrow> block s x \<inter> block s y = {}) \<Longrightarrow> vm_ok s AS"
  unfolding vm_ok_def by blast

lemma vm_ok_region: "vm_ok s AS \<Longrightarrow> a \<in> AS \<Longrightarrow> r \<in> set (regions (aspace s a)) \<Longrightarrow> region_ok (firstpaddr s) r"
  unfolding vm_ok_def by blast

lemma vm_ok_later:
  assumes "vm_ok s AS" and "\<forall>b\<in>AS. aspace s' b = aspace s b" and "ram_ok s'" and "firstpaddr s \<le> firstpaddr s'"
    and "kmem_ok s'" and "AS \<subseteq> live s'" and "dumbvm_can_sleep s' = Some ()"
  shows "vm_ok s' AS"
proof -
  have "block s' (b, i) = block s (b, i)" if "b \<in> AS" for b i using that assms(2) by (simp add: block_def)
  then have b: "block s' x = block s x" if "x \<in> AS \<times> {0, 1, 2}" for x :: "addr \<times> nat" using that by auto
  show ?thesis
  proof (rule vm_okI [OF assms(3,5,7,6)])
    fix a r assume "a \<in> AS" "r \<in> set (regions (aspace s' a))"
    then have "region_ok (firstpaddr s) r" using vm_ok_region [OF assms(1), of a r] assms(2) by simp
    then show "region_ok (firstpaddr s') r" using assms(4) by (rule region_ok_mono)
  next
    fix x y :: "addr \<times> nat" assume "x \<in> AS \<times> {0, 1, 2}" "y \<in> AS \<times> {0, 1, 2}" "x \<noteq> y"
    then show "block s' x \<inter> block s' y = {}" using vm_ok_apart [OF assms(1)] b by simp
  qed
qed

text \<open>A space that owns the pages behind those in use can be added.\<close>

lemma vm_ok_insert:
  assumes ok: "vm_ok s AS" and b: "b \<in> live s" and r: "\<forall>r\<in>set (regions (aspace s b)). region_ok (firstpaddr s) r"
    and new: "\<forall>i\<in>{0, 1, 2}. \<forall>y\<in>AS \<times> {0, 1, 2}. block s (b, i) \<inter> block s y = {}"
    and own: "block s (b, 0) \<inter> block s (b, 1) = {}" "block s (b, 0) \<inter> block s (b, 2) = {}" "block s (b, 1) \<inter> block s (b, 2) = {}"
  shows "vm_ok s (insert b AS)"
proof -
  note old = vm_ok_apart [OF ok]
  have s: "ram_ok s" "kmem_ok s" "dumbvm_can_sleep s = Some ()" "insert b AS \<subseteq> live s" using ok b by (simp_all add: vm_ok_def)
  show ?thesis
  proof (rule vm_okI [OF s])
    fix a r' assume "a \<in> insert b AS" "r' \<in> set (regions (aspace s a))"
    then show "region_ok (firstpaddr s) r'" using r vm_ok_region [OF ok] by blast
  next
    fix x y :: "addr \<times> nat" assume xy: "x \<in> insert b AS \<times> {0, 1, 2}" "y \<in> insert b AS \<times> {0, 1, 2}" "x \<noteq> y"
    obtain c i d j where x: "x = (c, i)" "y = (d, j)" by (cases x, cases y)
    have i: "i \<in> {0, 1, 2}" "j \<in> {0, 1, 2}" "c \<in> insert b AS" "d \<in> insert b AS" using xy x by auto
    consider "c \<in> AS" "d \<in> AS" | "c = b" "d \<in> AS" | "c \<in> AS" "d = b" | "c = b" "d = b" using i by auto
    then show "block s x \<inter> block s y = {}"
    proof cases
      case 1
      then show ?thesis using old [of x y] xy(3) i x by simp
    next
      case 2
      then show ?thesis using new i x by blast
    next
      case 3
      then show ?thesis using new i x by blast
    next
      case 4
      then show ?thesis using own i x xy(3) by auto
    qed
  qed
qed

lemma copy_pages_eq:
  "dst < 2147483648 \<Longrightarrow> src < 2147483648 \<Longrightarrow> n * 4096 < 4294967296 \<Longrightarrow>
   copy_pages dst src n s = s\<lparr>ram := (\<lambda>x. if dst + 2147483648 \<le> x \<and> x < dst + 2147483648 + n * 4096
     then ram s (src + 2147483648 + (x - (dst + 2147483648))) else ram s x)\<rparr>"
  by (simp add: copy_pages_def memmove_eq copied_def kvaddr u32_id PAGE_SIZE_def)

lemma add_stack_pages: "x mod 4096 = 0 \<Longrightarrow> (x + 73728) mod 4096 = (0::nat)"
  using mod_mult_self1 [of x 18 4096] by simp

lemma as_copy_ok:
  assumes ok: "vm_ok s AS" and a: "a \<in> AS"
  shows "oom s (ticks s) \<or> \<not> room (aspace s a) s \<Longrightarrow> \<exists>s'. as_copy a s = Some (Inl ENOMEM, s') \<and> vm_ok s' AS
      \<and> (\<forall>c\<in>AS. aspace s' c = aspace s c) \<and> ram s' = ram s \<and> live s' = live s \<and> tlb s' = tlb s"
    and "\<not> oom s (ticks s) \<Longrightarrow> room (aspace s a) s \<Longrightarrow> \<exists>s' b. as_copy a s = Some (Inr b, s') \<and> b \<notin> AS \<and> vm_ok s' (insert b AS)
      \<and> (\<forall>v. user_byte s' b v = user_byte s a v) \<and> (\<forall>c\<in>AS. aspace s' c = aspace s c \<and> (\<forall>v. user_byte s' c v = user_byte s c v)) \<and> tlb s' = tlb s"
proof -
  let ?b = "Suc (ticks s)" and ?A = "aspace s a" and ?f = "firstpaddr s"
  have s: "ram_ok s" "kmem_ok s" "dumbvm_can_sleep s = Some ()" "AS \<subseteq> live s" using ok by (simp_all add: vm_ok_def)
  have fresh: "?b \<notin> live s" using s(2) by (rule kmem_ok_fresh)
  then have b: "?b \<notin> AS" "a \<noteq> ?b" using s(4) a by auto
  have r: "\<forall>r\<in>set (regions ?A). region_ok ?f r" using ok a by (simp add: vm_ok_def)
  then have n: "as_npages1 ?A * 4096 \<le> 0x80000000" "as_npages2 ?A * 4096 \<le> 0x80000000" by (auto simp: regions_def region_ok_def vm_consts)
  define N where "N = \<lparr>as_vbase1 = as_vbase1 ?A, as_pbase1 = 0, as_npages1 = as_npages1 ?A, as_vbase2 = as_vbase2 ?A, as_pbase2 = 0,
    as_npages2 = as_npages2 ?A, as_stackpbase = 0\<rparr>"
  define s1 where "s1 = s\<lparr>ticks := ?b, live := insert ?b (live s), aspace := (aspace s)(?b := N)\<rparr>"
  have copy: "as_copy a s = do {
       (r, s) \<leftarrow> as_prepare_load ?b s1;
       case r of
         Inl e \<Rightarrow> do { s \<leftarrow> as_destroy ?b s; Some (Inl ENOMEM, s) }
       | Inr _ \<Rightarrow> do {
           let dst = aspace s ?b;
           let src = aspace s a;
           kassert (as_pbase1 dst \<noteq> 0);
           kassert (as_pbase2 dst \<noteq> 0);
           kassert (as_stackpbase dst \<noteq> 0);
           let s = copy_pages (as_pbase1 dst) (as_pbase1 src) (as_npages1 src) s;
           let s = copy_pages (as_pbase2 dst) (as_pbase2 src) (as_npages2 src) s;
           let s = copy_pages (as_stackpbase dst) (as_stackpbase src) DUMBVM_STACKPAGES s;
           Some (Inr ?b, s) } }" if "\<not> oom s (ticks s)"
    using that b s(3) by (simp add: as_copy_def as_create_def kmalloc_def Let_def s1_def N_def)
  have s1: "ram_ok s1" "dumbvm_can_sleep s1 = Some ()" "aspace s1 ?b = N" "room N s1 = room ?A s"
    using s by (simp_all add: s1_def ram_ok_def room_def N_def)
  have k1: "kmem_ok s1" using s(2) by (auto simp: kmem_ok_def s1_def)
  note prep = prepare_load_eq [OF s1(1,2), of ?b, unfolded s1(3,4), unfolded N_def addrspace.simps, OF refl refl refl n, folded N_def]
  show "\<exists>s'. as_copy a s = Some (Inl ENOMEM, s') \<and> vm_ok s' AS \<and> (\<forall>c\<in>AS. aspace s' c = aspace s c) \<and> ram s' = ram s \<and> live s' = live s \<and> tlb s' = tlb s"
    if no: "oom s (ticks s) \<or> \<not> room ?A s"
  proof (cases "oom s (ticks s)")
    case True
    have "vm_ok (s\<lparr>ticks := ?b\<rparr>) AS"
      using s ok by (intro vm_ok_later [OF ok]) (auto simp: ram_ok_def kmem_ok_def)
    then show ?thesis using True s(3) by (simp add: as_copy_def as_create_def kmalloc_def Let_def)
  next
    case False
    then obtain s2 where s2: "as_prepare_load ?b s1 = Some (Inl ENOMEM, s2)" "leaked ?b s1 s2" using prep(2) no by blast
    have m: "live s2 = insert ?b (live s)" "ticks s2 = ?b" using s2(2) by (auto simp: leaked_def s1_def kmem.defs)
    let ?s = "s2\<lparr>live := live s2 - {?b}\<rparr>"
    have "as_destroy ?b s2 = Some ?s" using s2(2) m by (simp add: as_destroy_def leaked_def kfree_def)
    then have c: "as_copy a s = Some (Inl ENOMEM, ?s)" using copy [OF False] s2(1) by simp
    have "c \<noteq> ?b" if "c \<in> AS" for c using b(1) that by blast
    then have e: "\<forall>c\<in>AS. aspace ?s c = aspace s c" "ram ?s = ram s" "live ?s = live s" "tlb ?s = tlb s"
      using s2(2) fresh m by (auto simp: leaked_def s1_def)
    have "vm_ok ?s AS"
      using s2(2) e s m by (intro vm_ok_later [OF ok]) (auto simp: leaked_def ram_ok_def kmem_ok_def s1_def le_SucI)
    then show ?thesis using c e by blast
  qed
  assume oom: "\<not> oom s (ticks s)" and rm: "room ?A s"
  show "\<exists>s' b. as_copy a s = Some (Inr b, s') \<and> b \<notin> AS \<and> vm_ok s' (insert b AS)
      \<and> (\<forall>v. user_byte s' b v = user_byte s a v) \<and> (\<forall>c\<in>AS. aspace s' c = aspace s c \<and> (\<forall>v. user_byte s' c v = user_byte s c v)) \<and> tlb s' = tlb s"
  proof -
    let ?g = "?f + as_npages1 ?A * 4096"
    let ?h = "?g + as_npages2 ?A * 4096"
    let ?B = "\<lparr>as_vbase1 = as_vbase1 ?A, as_pbase1 = ?f, as_npages1 = as_npages1 ?A, as_vbase2 = as_vbase2 ?A, as_pbase2 = ?g,
      as_npages2 = as_npages2 ?A, as_stackpbase = ?h\<rparr>"
    define P where "P = prepared ?b s1"
    define S where "S = copy_pages ?h (as_stackpbase ?A) 18 (copy_pages ?g (as_pbase2 ?A) (as_npages2 ?A) (copy_pages ?f (as_pbase1 ?A) (as_npages1 ?A) P))"
    have f: "0 < ?f" "?f mod 4096 = 0" "?f \<le> lastpaddr s" "lastpaddr s \<le> 0x20000000" using s(1) by (simp_all add: ram_ok_def)
    have h: "?h + 73728 \<le> lastpaddr s" using rm by (simp add: room_def algebra_simps)
    have P: "aspace P = (aspace s)(?b := ?B)" "firstpaddr P = ?h + 73728" "lastpaddr P = lastpaddr s" "live P = insert ?b (live s)"
      "ticks P = ?b" "dumbvm_can_sleep P = Some ()" "tlb P = tlb s"
      using s(3) by (simp_all add: P_def prepared_def s1_def N_def Let_def)
    have low: "as_pbase1 ?A + as_npages1 ?A * 4096 \<le> ?f" "as_pbase2 ?A + as_npages2 ?A * 4096 \<le> ?f" "as_stackpbase ?A + 73728 \<le> ?f"
      using r by (auto simp: regions_def region_ok_def DUMBVM_STACKPAGES_def)
    have lt: "?f < 2147483648" "?g < 2147483648" "?h < 2147483648" "as_pbase1 ?A < 2147483648" "as_pbase2 ?A < 2147483648" "as_stackpbase ?A < 2147483648"
      "as_npages1 ?A * 4096 < 4294967296" "as_npages2 ?A * 4096 < 4294967296"
      using low f h n by simp_all
    define M where "M = ram S"
    have S: "S = P\<lparr>ram := M\<rparr>"
      unfolding S_def M_def using lt by (simp add: copy_pages_eq)
    have keep: "ram P x = ram s x" if "x < ?f + 2147483648" for x using that by (simp add: P_def prepared_def s1_def Let_def MIPS_KSEG0_def)
    have M: "M x = (if ?h + 2147483648 \<le> x \<and> x < ?h + 2147483648 + 73728 then ram s (as_stackpbase ?A + 2147483648 + (x - (?h + 2147483648)))
        else if ?g + 2147483648 \<le> x \<and> x < ?h + 2147483648 then ram s (as_pbase2 ?A + 2147483648 + (x - (?g + 2147483648)))
        else if ?f + 2147483648 \<le> x \<and> x < ?g + 2147483648 then ram s (as_pbase1 ?A + 2147483648 + (x - (?f + 2147483648)))
        else ram P x)" for x
    proof -
      define P1 where "P1 = copy_pages ?f (as_pbase1 ?A) (as_npages1 ?A) P"
      define P2 where "P2 = copy_pages ?g (as_pbase2 ?A) (as_npages2 ?A) P1"
      have 1: "ram P1 y = (if ?f + 2147483648 \<le> y \<and> y < ?g + 2147483648 then ram s (as_pbase1 ?A + 2147483648 + (y - (?f + 2147483648))) else ram P y)" for y
      proof -
        have "as_pbase1 ?A + 2147483648 + (y - (?f + 2147483648)) < ?f + 2147483648" if "?f + 2147483648 \<le> y" "y < ?g + 2147483648"
          using low(1) that by linarith
        from keep [OF this] show ?thesis unfolding P1_def copy_pages_eq [OF lt(1,4,7)] by auto
      qed
      have 2: "ram P2 y = (if ?g + 2147483648 \<le> y \<and> y < ?h + 2147483648 then ram s (as_pbase2 ?A + 2147483648 + (y - (?g + 2147483648))) else ram P1 y)" for y
      proof -
        have "as_pbase2 ?A + 2147483648 + (y - (?g + 2147483648)) < ?f + 2147483648" if "?g + 2147483648 \<le> y" "y < ?h + 2147483648"
          using low(2) that by linarith
        then have "ram P1 (as_pbase2 ?A + 2147483648 + (y - (?g + 2147483648))) = ram s (as_pbase2 ?A + 2147483648 + (y - (?g + 2147483648)))"
          if "?g + 2147483648 \<le> y" "y < ?h + 2147483648" using that keep 1 by auto
        then show ?thesis unfolding P2_def copy_pages_eq [OF lt(2,5,8)] by auto
      qed
      have "M x = (if ?h + 2147483648 \<le> x \<and> x < ?h + 2147483648 + 73728 then ram s (as_stackpbase ?A + 2147483648 + (x - (?h + 2147483648))) else ram P2 x)"
      proof -
        have "as_stackpbase ?A + 2147483648 + (x - (?h + 2147483648)) < ?f + 2147483648" if "?h + 2147483648 \<le> x" "x < ?h + 2147483648 + 73728"
          using low(3) that by linarith
        then have "ram P2 (as_stackpbase ?A + 2147483648 + (x - (?h + 2147483648))) = ram s (as_stackpbase ?A + 2147483648 + (x - (?h + 2147483648)))"
          if "?h + 2147483648 \<le> x" "x < ?h + 2147483648 + 73728" using that keep 1 2 by auto
        then show ?thesis unfolding M_def S_def P1_def [symmetric] P2_def [symmetric] copy_pages_eq [OF lt(3,6), of 18, simplified] by auto
      qed
      then show ?thesis using 1 2 by auto
    qed
    have "as_copy a s = Some (Inr ?b, S)"
      unfolding copy [OF oom] prep(1) [OF rm] P_def [symmetric] using P(1) b(2) f(1) by (simp add: S_def DUMBVM_STACKPAGES_def Let_def)
    moreover have "vm_ok S (insert ?b AS)"
    proof (rule vm_ok_insert)
      have "?h mod 4096 = 0" using f(2) by simp
      then have "(?h + 73728) mod 4096 = 0" by (rule add_stack_pages)
      then have "ram_ok S" using f h by (simp add: S P ram_ok_def)
      moreover have "kmem_ok S" using s(2) by (auto simp: S P kmem_ok_def le_SucI)
      ultimately show "vm_ok S AS" using P b(1) f h s(4) by (intro vm_ok_later [OF ok]) (auto simp: S)
      show "?b \<in> live S" by (simp add: S P)
      show "\<forall>r\<in>set (regions (aspace S ?b)). region_ok (firstpaddr S) r"
        using r f h by (simp add: S P regions_def region_ok_def DUMBVM_STACKPAGES_def PAGE_SIZE_def USERSTACK_def)
      have blk: "block S (?b, 0) = {?f..<?g}" "block S (?b, 1) = {?g..<?h}" "block S (?b, 2) = {?h..<?h + 73728}"
        by (simp_all only: block_def prod.case regions_nth) (simp_all add: S P DUMBVM_STACKPAGES_def)
      have "aspace S c = aspace s c" if "c \<in> AS" for c using that b(1) by (auto simp: S P)
      then have "block S (c, i) = block s (c, i)" if "c \<in> AS" for c i using that by (simp add: block_def)
      then have "block S y = block s y" if "y \<in> AS \<times> {0, 1, 2}" for y :: "addr \<times> nat" using that by auto
      then have lo: "block S y \<subseteq> {0..<?f}" if "y \<in> AS \<times> {0, 1, 2}" for y :: "addr \<times> nat"
        using block_below [OF ok, of y] that by simp
      have hi: "block S (?b, i) \<inter> {0..<?f} = {}" if "i \<in> {0, 1, 2}" for i using that blk by auto
      show "\<forall>i\<in>{0, 1, 2}. \<forall>y\<in>AS \<times> {0, 1, 2}. block S (?b, i) \<inter> block S y = {}"
      proof (intro ballI)
        fix i :: nat and y :: "addr \<times> nat" assume "i \<in> {0, 1, 2}" "y \<in> AS \<times> {0, 1, 2}"
        then show "block S (?b, i) \<inter> block S y = {}" using lo [of y] hi [of i] by blast
      qed
      show "block S (?b, 0) \<inter> block S (?b, 1) = {}" "block S (?b, 0) \<inter> block S (?b, 2) = {}" "block S (?b, 1) \<inter> block S (?b, 2) = {}"
        unfolding blk by auto
    qed
    moreover have "user_byte S ?b v = user_byte s a v" for v
    proof -
      have k: "PADDR_TO_KVADDR (q + o') = q + o' + 2147483648" if "q + n * 4096 \<le> lastpaddr s" "o' < n * 4096" for q o' n
        using that f(4) by (intro kvaddr) linarith
      have h1: "?f + as_npages1 ?A * 4096 \<le> lastpaddr s" "?g + as_npages2 ?A * 4096 \<le> lastpaddr s" "?h + 18 * 4096 \<le> lastpaddr s"
        and l1: "as_pbase1 ?A + as_npages1 ?A * 4096 \<le> lastpaddr s" "as_pbase2 ?A + as_npages2 ?A * 4096 \<le> lastpaddr s" "as_stackpbase ?A + 18 * 4096 \<le> lastpaddr s"
        using h low f(3) by simp_all
      have m1: "M (PADDR_TO_KVADDR (?f + o')) = ram s (PADDR_TO_KVADDR (as_pbase1 ?A + o'))" if "o' < as_npages1 ?A * 4096" for o'
        unfolding k [OF h1(1) that] k [OF l1(1) that] using that by (simp add: M) (simp add: add_ac)
      have m2: "M (PADDR_TO_KVADDR (?g + o')) = ram s (PADDR_TO_KVADDR (as_pbase2 ?A + o'))" if "o' < as_npages2 ?A * 4096" for o'
        unfolding k [OF h1(2) that] k [OF l1(2) that] using that by (simp add: M) (simp add: add_ac)
      have m3: "M (PADDR_TO_KVADDR (?h + o')) = ram s (PADDR_TO_KVADDR (as_stackpbase ?A + o'))" if "o' < 18 * 4096" for o'
        unfolding k [OF h1(3) that] k [OF l1(3) that] using that by (simp add: M) (simp add: add_ac)
      have o: "v - c < n * 4096" if "v < c + n * 4096" "c \<le> v" for c n using that by linarith
      show ?thesis
        using m1 [OF o, of "as_vbase1 ?A"] m2 [OF o, of "as_vbase2 ?A"] m3 [OF o, of "USERSTACK - 73728"]
        by (simp add: user_byte_def translate_def regions_def S P(1) DUMBVM_STACKPAGES_def PAGE_SIZE_def)
    qed
    moreover have "user_byte S c v = user_byte s c v" if c: "c \<in> AS" for c v
    proof (cases "translate (aspace s c) v")
      case None
      then show ?thesis using b(1) c by (auto simp: user_byte_def S P)
    next
      case (Some p)
      then have p: "p < ?f" using region_at_bound [of "regions (aspace s c)" ?f v p] vm_ok_region [OF ok c] by (auto simp: translate_def)
      then have "M (PADDR_TO_KVADDR p) = ram s (PADDR_TO_KVADDR p)" using f lt(1) by (simp add: kvaddr M keep)
      then show ?thesis using Some b(1) c by (auto simp: user_byte_def S P)
    qed
    moreover have "aspace S c = aspace s c" if "c \<in> AS" for c using that b(1) by (auto simp: S P)
    moreover have "tlb S = tlb s" by (simp add: S P)
    ultimately show ?thesis using b(1) by blast
  qed
qed

section \<open>The TLB\<close>

lemma region_at_offset:
  "\<forall>r\<in>set rs. region_ok hi r \<Longrightarrow> region_at rs v = map_option (\<lambda>p. p + v mod 4096) (region_at rs (4096 * (v div 4096)))"
proof (induction rs)
  case (Cons r rs)
  obtain vb pb n where r: "r = (vb, pb, n)" by (cases r)
  have "vb mod 4096 = 0" using Cons.prems by (simp add: r region_ok_def)
  then obtain k where k: "vb = 4096 * k" by (auto simp: mod_eq_0_iff_dvd elim: dvdE)
  have v: "v = 4096 * (v div 4096) + v mod 4096" "v mod 4096 < 4096" by simp_all
  have "vb \<le> v \<longleftrightarrow> vb \<le> 4096 * (v div 4096)" "v < vb + n * 4096 \<longleftrightarrow> 4096 * (v div 4096) < vb + n * 4096"
  proof -
    let ?d = "v div 4096"
    have "k \<le> ?d" if "4096 * k \<le> v" using that v by linarith
    then show "vb \<le> v \<longleftrightarrow> vb \<le> 4096 * ?d" unfolding k using v by linarith
    have "?d + 1 \<le> k + n" if "4096 * ?d < 4096 * k + n * 4096" using that by linarith
    then show "v < vb + n * 4096 \<longleftrightarrow> 4096 * ?d < vb + n * 4096" unfolding k using v by linarith
  qed
  moreover have "region_at rs v = map_option (\<lambda>p. p + v mod 4096) (region_at rs (4096 * (v div 4096)))" using Cons by simp
  ultimately show ?case using v by (auto simp: r)
qed simp

definition valid :: "nat \<times> nat \<Rightarrow> bool" where
  "valid e \<longleftrightarrow> snd e AND TLBLO_VALID \<noteq> 0"

text \<open>Every valid entry is a page of the address space, and no page has two.\<close>

definition tlb_ok :: "addrspace \<Rightarrow> (nat \<times> nat) list \<Rightarrow> bool" where
  "tlb_ok A es \<longleftrightarrow> length es = NUM_TLB \<and> distinct (map fst (filter valid es))
     \<and> (\<forall>e\<in>set es. valid e \<longrightarrow> fst e mod 4096 = 0 \<and> (\<exists>p. translate A (fst e) = Some p \<and> snd e = p OR TLBLO_DIRTY OR TLBLO_VALID))"

definition page_of :: "nat \<Rightarrow> nat" where
  "page_of v = 4096 * (v div 4096)"

lemma vm_fault_eq:
  assumes ok: "vm_ok s AS" and a: "a \<in> AS" and v: "v < 4294967296" and ft: "ft = VM_FAULT_READ \<or> ft = VM_FAULT_WRITE" and p: "p \<noteq> 0"
  shows "vm_fault p a ft v s = (case translate (aspace s a) (page_of v) of
      None \<Rightarrow> Some (Inl EFAULT, s)
    | Some q \<Rightarrow> (case tlb_enter (page_of v) q (tlb s) of None \<Rightarrow> Some (Inl EFAULT, s) | Some es \<Rightarrow> Some (Inr (), s\<lparr>tlb := es\<rparr>)))"
proof -
  let ?A = "aspace s a"
  have r: "\<forall>r\<in>set (regions ?A). region_ok (firstpaddr s) r" using ok a by (simp add: vm_ok_def)
  have f: "firstpaddr s \<le> 0x20000000" "ram_ok s" using ok by (simp_all add: vm_ok_def ram_ok_def)
  have fr: "v AND PAGE_FRAME = page_of v" using v by (simp add: page_frame page_of_def)
  have al: "x AND PAGE_FRAME = x" if "x mod 4096 = 0" "x < 4294967296" for x using page_aligned [OF that(2)] that(1) by blast
  have "as_vbase1 ?A < 4294967296" "as_vbase2 ?A < 4294967296" "as_pbase1 ?A < 4294967296" "as_pbase2 ?A < 4294967296" "as_stackpbase ?A < 4294967296"
    using r f(1) by (auto simp: regions_def region_ok_def USERSTACK_def)
  moreover have "as_vbase1 ?A \<noteq> 0" "as_pbase1 ?A \<noteq> 0" "as_npages1 ?A \<noteq> 0" "as_vbase2 ?A \<noteq> 0" "as_pbase2 ?A \<noteq> 0" "as_npages2 ?A \<noteq> 0"
    "as_stackpbase ?A \<noteq> 0" "as_vbase1 ?A mod 4096 = 0" "as_vbase2 ?A mod 4096 = 0" "as_pbase1 ?A mod 4096 = 0" "as_pbase2 ?A mod 4096 = 0"
    "as_stackpbase ?A mod 4096 = 0"
    using r by (simp_all add: regions_def region_ok_def)
  ultimately have chk: "as_vbase1 ?A AND PAGE_FRAME = as_vbase1 ?A" "as_vbase2 ?A AND PAGE_FRAME = as_vbase2 ?A" "as_pbase1 ?A AND PAGE_FRAME = as_pbase1 ?A"
    "as_pbase2 ?A AND PAGE_FRAME = as_pbase2 ?A" "as_stackpbase ?A AND PAGE_FRAME = as_stackpbase ?A"
    and nz: "as_vbase1 ?A \<noteq> 0" "as_pbase1 ?A \<noteq> 0" "as_npages1 ?A \<noteq> 0" "as_vbase2 ?A \<noteq> 0" "as_pbase2 ?A \<noteq> 0" "as_npages2 ?A \<noteq> 0" "as_stackpbase ?A \<noteq> 0"
    by (simp_all add: al)
  have tops: "u32 (as_vbase1 ?A + as_npages1 ?A * PAGE_SIZE) = as_vbase1 ?A + as_npages1 ?A * 4096"
    "u32 (as_vbase2 ?A + as_npages2 ?A * PAGE_SIZE) = as_vbase2 ?A + as_npages2 ?A * 4096"
    using r by (simp_all add: regions_def region_ok_def vm_consts u32_id)
  have R: "as_pbase1 ?A + as_npages1 ?A * 4096 \<le> firstpaddr s" "as_pbase2 ?A + as_npages2 ?A * 4096 \<le> firstpaddr s" "as_stackpbase ?A \<le> firstpaddr s"
    using r by (auto simp: regions_def region_ok_def)
  have ph: "u32 (w - as_vbase1 ?A + as_pbase1 ?A) = as_pbase1 ?A + (w - as_vbase1 ?A)" if "w < as_vbase1 ?A + as_npages1 ?A * 4096" for w
  proof -
    have "w - as_vbase1 ?A + as_pbase1 ?A < 4294967296" using R that f(1) by linarith
    then show ?thesis by (simp add: u32_id)
  qed
  have ph2: "u32 (w - as_vbase2 ?A + as_pbase2 ?A) = as_pbase2 ?A + (w - as_vbase2 ?A)" if "w < as_vbase2 ?A + as_npages2 ?A * 4096" for w
  proof -
    have "w - as_vbase2 ?A + as_pbase2 ?A < 4294967296" using R that f(1) by linarith
    then show ?thesis by (simp add: u32_id)
  qed
  have ph3: "u32 (w - (USERSTACK - DUMBVM_STACKPAGES * PAGE_SIZE) + as_stackpbase ?A) = as_stackpbase ?A + (w - (USERSTACK - DUMBVM_STACKPAGES * PAGE_SIZE))"
    if "w < USERSTACK" for w
    using R(3) f that by (simp add: u32_id vm_consts)
  have st: "USERSTACK - DUMBVM_STACKPAGES * PAGE_SIZE + DUMBVM_STACKPAGES * 4096 = USERSTACK" by (simp add: vm_consts)
  let ?w = "page_of v"
  have found: "(if as_vbase1 ?A \<le> ?w \<and> ?w < as_vbase1 ?A + as_npages1 ?A * 4096 then Some (u32 (?w - as_vbase1 ?A + as_pbase1 ?A))
      else if as_vbase2 ?A \<le> ?w \<and> ?w < as_vbase2 ?A + as_npages2 ?A * 4096 then Some (u32 (?w - as_vbase2 ?A + as_pbase2 ?A))
      else if USERSTACK - DUMBVM_STACKPAGES * PAGE_SIZE \<le> ?w \<and> ?w < USERSTACK then Some (u32 (?w - (USERSTACK - DUMBVM_STACKPAGES * PAGE_SIZE) + as_stackpbase ?A))
      else None) = translate ?A ?w"
    unfolding translate_def regions_def region_at.simps st by (intro if_cong refl arg_cong [where f = Some] ph ph2 ph3) auto
  have pg: "q AND PAGE_FRAME = q" if "translate ?A ?w = Some q" for q
  proof (rule al)
    show "q mod 4096 = 0" using region_at_page [OF r] that by (fastforce simp: translate_def page_of_def)
    show "q < 4294967296" using region_at_bound [OF r] that f(1) by (fastforce simp: translate_def)
  qed
  have ft': "ft \<noteq> VM_FAULT_READONLY" "\<not> (ft \<noteq> VM_FAULT_READ \<and> ft \<noteq> VM_FAULT_WRITE)"
    using ft by (auto simp: VM_FAULT_READ_def VM_FAULT_WRITE_def VM_FAULT_READONLY_def)
  have a0: "a \<noteq> 0" using ok a by (auto simp: vm_ok_def kmem_ok_def)
  have "vm_fault p a ft v s = (case translate ?A ?w of None \<Rightarrow> Some (Inl EFAULT, s)
     | Some paddr \<Rightarrow> do { kassert (paddr AND PAGE_FRAME = paddr);
         case tlb_enter ?w paddr (tlb s) of None \<Rightarrow> Some (Inl EFAULT, s) | Some es \<Rightarrow> Some (Inr (), s\<lparr>tlb := es\<rparr>) })"
    unfolding vm_fault_def Let_def fr tops found using ft' p a0 by (auto simp: nz chk)
  also have "\<dots> = (case translate ?A ?w of None \<Rightarrow> Some (Inl EFAULT, s)
     | Some q \<Rightarrow> (case tlb_enter ?w q (tlb s) of None \<Rightarrow> Some (Inl EFAULT, s) | Some es \<Rightarrow> Some (Inr (), s\<lparr>tlb := es\<rparr>)))"
    using pg by (auto split: option.splits)
  finally show ?thesis .
qed

lemma tlb_enter_slot:
  assumes "length es = NUM_TLB"
  shows "tlb_enter w q es = None \<longleftrightarrow> (\<forall>e\<in>set es. valid e)"
    and "tlb_enter w q es = Some es' \<Longrightarrow> \<exists>i<length es. \<not> valid (es ! i) \<and> es' = es[i := (w, q OR TLBLO_DIRTY OR TLBLO_VALID)]"
proof -
  have v: "(\<lambda>(ehi, elo). elo AND TLBLO_VALID \<noteq> 0) = valid" by (auto simp: valid_def fun_eq_iff)
  let ?i = "length (takeWhile valid es)"
  have "?i \<le> length es" by (rule length_takeWhile_le)
  moreover have "takeWhile valid es = take ?i es" by (rule takeWhile_eq_take)
  ultimately have "?i < length es \<longleftrightarrow> takeWhile valid es \<noteq> es" by (metis nat_less_le take_all order_refl)
  then show "tlb_enter w q es = None \<longleftrightarrow> (\<forall>e\<in>set es. valid e)"
    unfolding tlb_enter_def v Let_def using assms takeWhile_eq_all_conv [of valid es] by simp
  show "\<exists>i<length es. \<not> valid (es ! i) \<and> es' = es[i := (w, q OR TLBLO_DIRTY OR TLBLO_VALID)]" if "tlb_enter w q es = Some es'"
    using that [unfolded tlb_enter_def v Let_def] assms nth_length_takeWhile [of valid es] by (auto split: if_splits)
qed

lemma filter_update:
  assumes "i < length es" and "\<not> Q (es ! i)" and "Q e"
  obtains xs ys where "filter Q es = xs @ ys" "filter Q (es[i := e]) = xs @ e # ys"
proof
  show "filter Q es = filter Q (take i es) @ filter Q (drop (Suc i) es)"
    using id_take_nth_drop [OF assms(1)] assms(2) by (metis filter.simps(2) filter_append)
  show "filter Q (es[i := e]) = filter Q (take i es) @ e # filter Q (drop (Suc i) es)"
    using assms(1,3) by (simp add: upd_conv_take_nth_drop)
qed

lemma tlb_enter_ok:
  assumes tl: "tlb_ok A es" and q: "translate A w = Some q" "q < 4294967296" "q mod 4096 = 0" "w mod 4096 = 0"
    and miss: "\<forall>e\<in>set es. valid e \<longrightarrow> fst e \<noteq> w" and en: "tlb_enter w q es = Some es'"
  shows "tlb_ok A es'" "(w, q OR TLBLO_DIRTY OR TLBLO_VALID) \<in> set es'"
proof -
  let ?e = "(w, q OR TLBLO_DIRTY OR TLBLO_VALID)"
  have len: "length es = NUM_TLB" using tl by (simp add: tlb_ok_def)
  obtain i where i: "i < length es" "\<not> valid (es ! i)" "es' = es[i := ?e]" using tlb_enter_slot(2) [OF len en] by blast
  have v: "valid ?e" using entrylo(2) [OF q(2,3)] by (simp add: valid_def TLBLO_VALID_def)
  obtain xs ys where xy: "filter valid es = xs @ ys" "filter valid es' = xs @ ?e # ys"
    using filter_update [OF i(1,2) v] i(3) by metis
  have "w \<notin> fst ` set (filter valid es)" using miss by auto
  then have "distinct (map fst (filter valid es'))" using tl by (auto simp: xy tlb_ok_def)
  moreover have sub: "set es' \<subseteq> insert ?e (set es)" unfolding i(3) by (rule set_update_subset_insert)
  moreover have "length es' = NUM_TLB" using len i(3) by simp
  moreover have "fst e mod 4096 = 0 \<and> (\<exists>p. translate A (fst e) = Some p \<and> snd e = p OR TLBLO_DIRTY OR TLBLO_VALID)" if e: "e \<in> set es'" "valid e" for e
  proof (cases "e = ?e")
    case True
    then show ?thesis using q by simp
  next
    case False
    then have "e \<in> set es" using sub e(1) by blast
    then show ?thesis using tl e(2) by (simp add: tlb_ok_def)
  qed
  ultimately show "tlb_ok A es'" unfolding tlb_ok_def by blast
  show "?e \<in> set es'" using i by (simp add: set_update_memI)
qed

text \<open>Activation, faults and copies, in any order; the state has the spaces in use and the active one.\<close>

inductive mmu_step :: "vm \<times> addr set \<times> addr \<Rightarrow> vm \<times> addr set \<times> addr \<Rightarrow> bool" where
  activate: "a \<in> AS \<Longrightarrow> mmu_step (s, AS, c) (as_activate a s, AS, a)"
| fault: "v < 4294967296 \<Longrightarrow> \<forall>e\<in>set (tlb s). valid e \<longrightarrow> fst e \<noteq> page_of v \<Longrightarrow> p \<noteq> 0 \<Longrightarrow>
    vm_fault p c ft v s = Some (r, s') \<Longrightarrow> mmu_step (s, AS, c) (s', AS, c)"
| copy: "a \<in> AS \<Longrightarrow> as_copy a s = Some (Inr b, s') \<Longrightarrow> mmu_step (s, AS, c) (s', insert b AS, c)"
| copy_fails: "a \<in> AS \<Longrightarrow> as_copy a s = Some (Inl e, s') \<Longrightarrow> mmu_step (s, AS, c) (s', AS, c)"
| steal: "n * 4096 \<le> 0x80000000 \<Longrightarrow> ram_stealmem n s = (p, s') \<Longrightarrow> mmu_step (s, AS, c) (s', AS, c)"

definition mmu_ok :: "vm \<times> addr set \<times> addr \<Rightarrow> bool" where
  "mmu_ok = (\<lambda>(s, AS, c). vm_ok s AS \<and> c \<in> AS \<and> tlb_ok (aspace s c) (tlb s))"

lemma empty_tlb: "tlb_ok A (map (\<lambda>i. (TLBHI_INVALID i, TLBLO_INVALID)) [0..<NUM_TLB])"
  by (auto simp: tlb_ok_def valid_def TLBLO_INVALID_def filter_map o_def)

lemma mmu_step_ok:
  assumes "mmu_step x y" and "mmu_ok x"
  shows "mmu_ok y"
  using assms
proof (induction rule: mmu_step.induct)
  case (activate a AS s c)
  have ok: "vm_ok s AS" "c \<in> AS" "tlb_ok (aspace s c) (tlb s)" using activate.prems by (simp_all add: mmu_ok_def)
  have "a \<noteq> 0" using activate(1) ok(1) by (auto simp: vm_ok_def kmem_ok_def)
  moreover have "vm_ok (as_activate a s) AS"
    using ok(1) by (intro vm_ok_later [OF ok(1)]) (auto simp: as_activate_def vm_ok_def ram_ok_def kmem_ok_def)
  ultimately show ?case using activate(1) empty_tlb by (simp add: mmu_ok_def as_activate_def)
next
  case (fault v s p c ft r s' AS)
  have ok: "vm_ok s AS" "c \<in> AS" "tlb_ok (aspace s c) (tlb s)" using fault.prems by (simp_all add: mmu_ok_def)
  show ?case
  proof (cases "ft = VM_FAULT_READ \<or> ft = VM_FAULT_WRITE")
    case False
    then have "s' = s" using fault(4) by (auto simp: vm_fault_def Let_def split: if_splits)
    then show ?thesis using ok by (simp add: mmu_ok_def)
  next
    case True
    note eq = vm_fault_eq [OF ok(1,2) fault(1) True fault(3)]
    have r: "\<forall>r\<in>set (regions (aspace s c)). region_ok (firstpaddr s) r" using ok by (simp add: vm_ok_def)
    have f: "firstpaddr s \<le> 0x20000000" using ok by (simp add: vm_ok_def ram_ok_def)
    show ?thesis
    proof (cases "s' = s")
      case True
      then show ?thesis using ok by (simp add: mmu_ok_def)
    next
      case False
      then obtain q es where q: "translate (aspace s c) (page_of v) = Some q" "tlb_enter (page_of v) q (tlb s) = Some es" "s' = s\<lparr>tlb := es\<rparr>"
        using fault(4) eq by (auto split: option.splits)
      have "q mod 4096 = 0" using region_at_page [OF r] q(1) by (fastforce simp: translate_def page_of_def)
      moreover have "q < 4294967296" using region_at_bound [OF r] q(1) f by (fastforce simp: translate_def)
      ultimately have "tlb_ok (aspace s c) es" using tlb_enter_ok(1) [OF ok(3) q(1) _ _ _ fault(2) q(2)] by (simp add: page_of_def)
      moreover have "vm_ok s' AS" using ok(1) unfolding q(3)
        by (intro vm_ok_later [OF ok(1)]) (auto simp: vm_ok_def ram_ok_def kmem_ok_def)
      ultimately show ?thesis using ok(2) by (simp add: mmu_ok_def q(3))
    qed
  qed
next
  case (copy a AS s b s' c)
  have ok: "vm_ok s AS" "c \<in> AS" "tlb_ok (aspace s c) (tlb s)" using copy.prems by (simp_all add: mmu_ok_def)
  have "\<not> (oom s (ticks s) \<or> \<not> room (aspace s a) s)" using as_copy_ok(1) [OF ok(1) copy(1)] copy(2) by auto
  then have "vm_ok s' (insert b AS)" "aspace s' c = aspace s c" "tlb s' = tlb s"
    using as_copy_ok(2) [OF ok(1) copy(1)] copy(2) ok(2) by auto
  then show ?case using ok by (simp add: mmu_ok_def)
next
  case (copy_fails a AS s e s' c)
  have ok: "vm_ok s AS" "c \<in> AS" "tlb_ok (aspace s c) (tlb s)" using copy_fails.prems by (simp_all add: mmu_ok_def)
  have "oom s (ticks s) \<or> \<not> room (aspace s a) s" using as_copy_ok(2) [OF ok(1) copy_fails(1)] copy_fails(2) by auto
  then have "vm_ok s' AS" "aspace s' c = aspace s c" "tlb s' = tlb s"
    using as_copy_ok(1) [OF ok(1) copy_fails(1)] copy_fails(2) ok(2) by auto
  then show ?case using ok by (simp add: mmu_ok_def)
next
  case (steal n s p s' AS c)
  have ok: "vm_ok s AS" "c \<in> AS" "tlb_ok (aspace s c) (tlb s)" using steal.prems by (simp_all add: mmu_ok_def)
  have r: "ram_ok s" using ok(1) by (simp add: vm_ok_def)
  have "s' = s \<or> firstpaddr s + n * 4096 \<le> lastpaddr s \<and> s' = s\<lparr>firstpaddr := firstpaddr s + n * 4096\<rparr>"
    using steal(2) steal_eq [OF r steal(1)] by (auto split: if_splits)
  moreover have "vm_ok (s\<lparr>firstpaddr := firstpaddr s + n * 4096\<rparr>) AS" if "firstpaddr s + n * 4096 \<le> lastpaddr s"
    using ok(1) steal_ram_ok [OF r that] by (intro vm_ok_later [OF ok(1)]) (auto simp: vm_ok_def kmem_ok_def)
  ultimately show ?case using ok by (auto simp: mmu_ok_def)
qed

lemma mmu_reachable_ok: "mmu_step\<^sup>*\<^sup>* x y \<Longrightarrow> mmu_ok x \<Longrightarrow> mmu_ok y"
  by (induction rule: rtranclp_induct) (auto intro: mmu_step_ok)

lemma translate_offset:
  assumes "vm_ok s AS" and "a \<in> AS"
  shows "translate (aspace s a) v = map_option (\<lambda>p. p + v mod 4096) (translate (aspace s a) (page_of v))"
  using region_at_offset [of "regions (aspace s a)" "firstpaddr s" v] assms by (simp add: vm_ok_def translate_def page_of_def)

text \<open>The processor reads what the address space holds.\<close>

lemma tlb_reads:
  assumes ok: "vm_ok s AS" "a \<in> AS" "tlb_ok (aspace s a) (tlb s)" and e: "e \<in> set (tlb s)" "valid e" and o': "i < 4096"
  shows "user_byte s a (fst e + i) = Some (ram s (PADDR_TO_KVADDR ((snd e AND PAGE_FRAME) + i)))"
proof -
  obtain p where p: "fst e mod 4096 = 0" "translate (aspace s a) (fst e) = Some p" "snd e = p OR TLBLO_DIRTY OR TLBLO_VALID"
    using ok(3) e by (auto simp: tlb_ok_def)
  have r: "\<forall>r\<in>set (regions (aspace s a)). region_ok (firstpaddr s) r" and f: "firstpaddr s \<le> 0x20000000" using ok by (auto simp: vm_ok_def ram_ok_def)
  have q: "p mod 4096 = 0" "p < 4294967296"
    using region_at_page [OF r] region_at_bound [OF r] p f by (fastforce simp: translate_def)+
  obtain k where k: "fst e = 4096 * k" using p(1) by (auto simp: mod_eq_0_iff_dvd elim: dvdE)
  have "page_of (fst e + i) = fst e" "(fst e + i) mod 4096 = i" using o' by (simp_all add: k page_of_def)
  then have "translate (aspace s a) (fst e + i) = Some (p + i)" using translate_offset [OF ok(1,2), of "fst e + i"] p(2) by simp
  then show ?thesis using entrylo(1) [OF q(2,1)] by (simp add: user_byte_def p(3))
qed

text \<open>A machine with one address space: 20 pages from \<open>0x10000\<close> on.\<close>

definition one_space :: vm where
  "one_space = \<lparr>oom = \<lambda>_. False, ticks = 5, live = {5}, firstpaddr = 0x24000, lastpaddr = 0x1000000,
     ram = \<lambda>x. of_nat (x div 4096),
     aspace = \<lambda>_. \<lparr>as_vbase1 = 0x400000, as_pbase1 = 0x10000, as_npages1 = 1, as_vbase2 = 0x10000000, as_pbase2 = 0x11000,
       as_npages2 = 1, as_stackpbase = 0x12000\<rparr>,
     tlb = map (\<lambda>i. (TLBHI_INVALID i, TLBLO_INVALID)) [0..<NUM_TLB], cpu_exists = True, c_spinlocks = 0, in_interrupt = False\<rparr>"

text \<open>A fault enters the page of the address into a free slot.\<close>

lemma fault_enters:
  assumes ok: "vm_ok s AS" "c \<in> AS" "tlb_ok (aspace s c) (tlb s)" and v: "v < 4294967296" and ft: "ft = VM_FAULT_READ \<or> ft = VM_FAULT_WRITE" and p: "p \<noteq> 0"
  shows "if user_byte s c v = None \<or> (\<forall>e\<in>set (tlb s). valid e) then vm_fault p c ft v s = Some (Inl EFAULT, s)
    else \<exists>i<NUM_TLB. \<exists>e. vm_fault p c ft v s = Some (Inr (), s\<lparr>tlb := (tlb s)[i := e]\<rparr>) \<and> \<not> valid (tlb s ! i) \<and> valid e \<and> fst e = page_of v
      \<and> (\<forall>k<4096. user_byte s c (fst e + k) = Some (ram s (PADDR_TO_KVADDR ((snd e AND PAGE_FRAME) + k))))"
proof -
  have len: "length (tlb s) = NUM_TLB" using ok(3) by (simp add: tlb_ok_def)
  note f = vm_fault_eq [OF ok(1,2) v ft p]
  have n: "user_byte s c v = None \<longleftrightarrow> translate (aspace s c) (page_of v) = None"
    by (simp add: user_byte_def translate_offset [OF ok(1,2), of v])
  show ?thesis
  proof (cases "translate (aspace s c) (page_of v)")
    case None
    then show ?thesis using f n by simp
  next
    case (Some q)
    let ?e = "(page_of v, q OR TLBLO_DIRTY OR TLBLO_VALID)"
    have r: "\<forall>r\<in>set (regions (aspace s c)). region_ok (firstpaddr s) r" and "firstpaddr s \<le> 0x20000000" using ok by (auto simp: vm_ok_def ram_ok_def)
    then have q: "q mod 4096 = 0" "q < 4294967296"
      using region_at_page [OF r] region_at_bound [OF r] Some by (fastforce simp: translate_def page_of_def)+
    then have e: "valid ?e" using entrylo(2) by (simp add: valid_def TLBLO_VALID_def)
    show ?thesis
    proof (cases "tlb_enter (page_of v) q (tlb s)")
      case None
      then show ?thesis using f Some tlb_enter_slot(1) [OF len, of "page_of v" q] by simp
    next
      case en: (Some es)
      then obtain i where i: "i < length (tlb s)" "es = (tlb s)[i := ?e]" "\<not> valid (tlb s ! i)"
        using tlb_enter_slot(2) [OF len] by blast
      have "\<not> (\<forall>e\<in>set (tlb s). valid e)" using i(1,3) nth_mem by blast
      moreover have "vm_fault p c ft v s = Some (Inr (), s\<lparr>tlb := (tlb s)[i := ?e]\<rparr>)" using f Some en i(2) by simp
      moreover have "user_byte s c (page_of v + k) = Some (ram s (PADDR_TO_KVADDR ((snd ?e AND PAGE_FRAME) + k)))" if "k < 4096" for k
      proof -
        have "page_of (page_of v + k) = page_of v" "(page_of v + k) mod 4096 = k" using that by (simp_all add: page_of_def)
        then have "translate (aspace s c) (page_of v + k) = Some (q + k)" using translate_offset [OF ok(1,2), of "page_of v + k"] Some by simp
        then show ?thesis using entrylo(1) [OF q(2,1)] by (simp add: user_byte_def)
      qed
      ultimately show ?thesis using n Some e i(1,3) len by auto
    qed
  qed
qed

lemma one_space_ok: "vm_ok one_space {5}" "ram_ok one_space" "mmu_ok (one_space, {5}, 5)"
proof -
  have b: "block one_space (5, 0) = {0x10000..<0x11000}" "block one_space (5, 1) = {0x11000..<0x12000}" "block one_space (5, 2) = {0x12000..<0x24000}"
    by (simp_all only: block_def prod.case regions_nth) (simp_all add: one_space_def vm_consts)
  have p: "region_ok 0x24000 r" if "r \<in> set (regions (aspace one_space 5))" for r
    using that by (auto simp: one_space_def regions_def region_ok_def vm_consts)
  show r: "ram_ok one_space" by (simp add: ram_ok_def one_space_def)
  show ok: "vm_ok one_space {5}"
  proof (rule vm_okI [OF r])
    show "kmem_ok one_space" "dumbvm_can_sleep one_space = Some ()" "{5} \<subseteq> live one_space"
      by (simp_all add: kmem_ok_def dumbvm_can_sleep_def one_space_def)
    show "region_ok (firstpaddr one_space) r" if "a \<in> {5}" "r \<in> set (regions (aspace one_space a))" for a r
      using p that by (simp add: one_space_def)
    fix x y :: "addr \<times> nat" assume "x \<in> {5} \<times> {0, 1, 2}" "y \<in> {5} \<times> {0, 1, 2}" "x \<noteq> y"
    then show "block one_space x \<inter> block one_space y = {}" using b by auto
  qed
  show "mmu_ok (one_space, {5}, 5)" using ok empty_tlb by (simp add: mmu_ok_def) (simp add: one_space_def)
qed

section \<open>Properties\<close>

text \<open>
  C40: Physical pages are handed out once: the blocks that a sequence of requests gets are page-aligned,
  lie in the free memory and come one behind the other, as long as no request is longer than 2 GiB.
  A request of $2^{20} - 1$ pages wraps around: it succeeds and moves the start of the free memory back
  by one page, so the page before it is handed out again.
\<close>

theorem pages_handed_out_once:
  assumes "ram_ok s" and "\<forall>n\<in>set ns. n * 4096 \<le> 0x80000000" and "steal_all ns s = (ps, s')"
  shows "ram_ok s' \<and> lastpaddr s' = lastpaddr s \<and> firstpaddr s \<le> firstpaddr s'
    \<and> (\<forall>i<length ns. ps ! i \<noteq> 0 \<longrightarrow> firstpaddr s \<le> ps ! i \<and> ps ! i + ns ! i * 4096 \<le> firstpaddr s' \<and> ps ! i mod 4096 = 0)
    \<and> (\<forall>i<length ns. \<forall>j<i. ps ! i \<noteq> 0 \<and> ps ! j \<noteq> 0 \<longrightarrow> ps ! j + ns ! j * 4096 \<le> ps ! i)
    \<and> ram_stealmem 0xfffff s = (firstpaddr s, s\<lparr>firstpaddr := firstpaddr s - 4096\<rparr>)"
proof -
  have f: "firstpaddr s mod 4096 = 0" "0 < firstpaddr s" "firstpaddr s \<le> lastpaddr s" "lastpaddr s \<le> 0x20000000" using assms(1) by (simp_all add: ram_ok_def)
  then obtain k where k: "firstpaddr s = 4096 + k" by (metis le_add_diff_inverse mod_less not_less zero_less_iff_neq_zero)
  have "u32 (firstpaddr s + 4294963200) = (k + 4294967296) mod 4294967296" by (simp add: k u32_def)
  then have u: "u32 (firstpaddr s + 4294963200) = firstpaddr s - 4096" using f k by simp
  have "ram_stealmem 0xfffff s = (firstpaddr s, s\<lparr>firstpaddr := firstpaddr s - 4096\<rparr>)"
    using f u by (simp add: ram_stealmem_def PAGE_SIZE_def u32_def [of 4294963200] Let_def)
  then show ?thesis using steal_all_ok [OF assms] by blast
qed

lemma pages_handed_out_once_witness:
  "ram_stealmem 0xfffff one_space = (0x24000, one_space\<lparr>firstpaddr := 0x23000\<rparr>) \<and> ram_ok (snd (steal_all [2, 3] one_space))"
  using pages_handed_out_once [OF one_space_ok(2), of "[2, 3]" "fst (steal_all [2, 3] one_space)" "snd (steal_all [2, 3] one_space)"]
  by (simp add: one_space_def)

text \<open>
  C39: A copy of an address space reads like the original at every address, and lies in pages of its
  own; the other address spaces keep what they hold.  It fails with ENOMEM exactly when memory for
  the structure or for the pages is not there, and then changes no byte.
\<close>

theorem as_copy_is_private:
  assumes "vm_ok s AS" and "a \<in> AS"
  shows "if oom s (ticks s) \<or> \<not> room (aspace s a) s
    then \<exists>s'. as_copy a s = Some (Inl ENOMEM, s') \<and> vm_ok s' AS \<and> (\<forall>c\<in>AS. aspace s' c = aspace s c) \<and> ram s' = ram s \<and> live s' = live s
    else \<exists>s' b. as_copy a s = Some (Inr b, s') \<and> b \<notin> AS \<and> vm_ok s' (insert b AS)
      \<and> (\<forall>v. user_byte s' b v = user_byte s a v) \<and> (\<forall>c\<in>AS. aspace s' c = aspace s c \<and> (\<forall>v. user_byte s' c v = user_byte s c v))"
  using as_copy_ok [OF assms] by auto

lemma as_copy_is_private_witness:
  "\<exists>s' b. as_copy 5 one_space = Some (Inr b, s') \<and> user_byte s' b 0x400004 = Some 0x10 \<and> vm_ok s' {b, 5}"
proof -
  have "\<not> (oom one_space (ticks one_space) \<or> \<not> room (aspace one_space 5) one_space)" by (simp add: one_space_def room_def)
  with as_copy_is_private [OF one_space_ok(1), of 5]
  obtain s' b where s': "as_copy 5 one_space = Some (Inr b, s')" "vm_ok s' {b, 5}" "\<forall>v. user_byte s' b v = user_byte one_space 5 v" by auto
  have "user_byte one_space 5 0x400004 = Some 0x10"
    by (simp add: user_byte_def translate_def regions_def one_space_def PADDR_TO_KVADDR_def u32_def MIPS_KSEG0_def)
  then show ?thesis using s' by metis
qed

text \<open>
  C38: After any sequence of activations, faults, copies and allocations, every valid entry of the TLB
  is a page of the active address space, with the bytes that the space has there, and no page has two.
  A read or write fault outside the space, or without a free slot, returns EFAULT and changes nothing; any other
  puts an entry for the page, with the bytes of the space, into a free slot and leaves the other slots.  A
  fault on a read-only page stops the machine, and any other type of fault returns EINVAL.
\<close>

theorem tlb_is_translation:
  assumes "mmu_ok (s, AS, c)" and "mmu_step\<^sup>*\<^sup>* (s, AS, c) (s', AS', c')" and "v < 4294967296" and "p \<noteq> 0"
  shows "vm_ok s' AS' \<and> c' \<in> AS' \<and> distinct (map fst (filter valid (tlb s')))
    \<and> (\<forall>e\<in>set (tlb s'). valid e \<longrightarrow> (\<forall>i<4096. user_byte s' c' (fst e + i) = Some (ram s' (PADDR_TO_KVADDR ((snd e AND PAGE_FRAME) + i)))))
    \<and> (\<forall>ft. if ft = VM_FAULT_READONLY then vm_fault p c' ft v s' = None
        else if ft \<notin> {VM_FAULT_READ, VM_FAULT_WRITE} then vm_fault p c' ft v s' = Some (Inl EINVAL, s')
        else if user_byte s' c' v = None \<or> (\<forall>e\<in>set (tlb s'). valid e) then vm_fault p c' ft v s' = Some (Inl EFAULT, s')
        else \<exists>i<NUM_TLB. \<exists>e. vm_fault p c' ft v s' = Some (Inr (), s'\<lparr>tlb := (tlb s')[i := e]\<rparr>) \<and> \<not> valid (tlb s' ! i) \<and> valid e \<and> fst e = page_of v
          \<and> (\<forall>k<4096. user_byte s' c' (fst e + k) = Some (ram s' (PADDR_TO_KVADDR ((snd e AND PAGE_FRAME) + k)))))"
proof -
  have ok: "vm_ok s' AS'" "c' \<in> AS'" "tlb_ok (aspace s' c') (tlb s')" using mmu_reachable_ok [OF assms(2,1)] by (simp_all add: mmu_ok_def)
  have d: "distinct (map fst (filter valid (tlb s')))" using ok(3) by (simp add: tlb_ok_def)
  have ro: "vm_fault p c' VM_FAULT_READONLY v s' = None" by (simp add: vm_fault_def Let_def)
  have other: "vm_fault p c' ft v s' = Some (Inl EINVAL, s')" if "ft \<noteq> VM_FAULT_READONLY" "ft \<notin> {VM_FAULT_READ, VM_FAULT_WRITE}" for ft
    using that by (simp add: vm_fault_def Let_def)
  note rw = fault_enters [OF ok assms(3) _ assms(4)]
  show ?thesis
  proof (intro conjI allI)
    fix ft
    show "if ft = VM_FAULT_READONLY then vm_fault p c' ft v s' = None
        else if ft \<notin> {VM_FAULT_READ, VM_FAULT_WRITE} then vm_fault p c' ft v s' = Some (Inl EINVAL, s')
        else if user_byte s' c' v = None \<or> (\<forall>e\<in>set (tlb s'). valid e) then vm_fault p c' ft v s' = Some (Inl EFAULT, s')
        else \<exists>i<NUM_TLB. \<exists>e. vm_fault p c' ft v s' = Some (Inr (), s'\<lparr>tlb := (tlb s')[i := e]\<rparr>) \<and> \<not> valid (tlb s' ! i) \<and> valid e \<and> fst e = page_of v
          \<and> (\<forall>k<4096. user_byte s' c' (fst e + k) = Some (ram s' (PADDR_TO_KVADDR ((snd e AND PAGE_FRAME) + k))))"
      using ro other [of ft] rw [of ft] by (cases "ft = VM_FAULT_READONLY"; cases "ft \<in> {VM_FAULT_READ, VM_FAULT_WRITE}"; simp only: if_True if_False simp_thms insert_iff empty_iff)
  qed (use ok(1,2) d tlb_reads [OF ok] in blast)+
qed

lemma tlb_is_translation_witness:
  "\<exists>i<NUM_TLB. \<exists>e. vm_fault 9 5 VM_FAULT_WRITE 0x400123 one_space = Some (Inr (), one_space\<lparr>tlb := (tlb one_space)[i := e]\<rparr>) \<and> valid e \<and> fst e = 0x400000"
proof -
  have u: "\<not> (user_byte one_space 5 0x400123 = None \<or> (\<forall>e\<in>set (tlb one_space). valid e))"
  proof -
    have "user_byte one_space 5 0x400123 \<noteq> None" by (simp add: user_byte_def translate_def regions_def one_space_def)
    moreover have "\<not> (\<forall>e\<in>set (tlb one_space). valid e)"
      by (simp add: one_space_def valid_def TLBLO_INVALID_def NUM_TLB_def) (rule exI [of _ 0], simp)
    ultimately show ?thesis by blast
  qed
  have w: "VM_FAULT_WRITE \<noteq> VM_FAULT_READONLY" "VM_FAULT_WRITE \<in> {VM_FAULT_READ, VM_FAULT_WRITE}" by (simp_all add: VM_FAULT_WRITE_def VM_FAULT_READONLY_def)
  have p: "page_of 0x400123 = 0x400000" by (simp add: page_of_def)
  have "(0x400123::nat) < 4294967296" "(9::nat) \<noteq> 0" by simp_all
  note T = tlb_is_translation [OF one_space_ok(3) rtranclp.rtrancl_refl this]
  have "\<exists>i<NUM_TLB. \<exists>e. vm_fault 9 5 VM_FAULT_WRITE 0x400123 one_space = Some (Inr (), one_space\<lparr>tlb := (tlb one_space)[i := e]\<rparr>)
      \<and> \<not> valid (tlb one_space ! i) \<and> valid e \<and> fst e = 0x400000
      \<and> (\<forall>k<4096. user_byte one_space 5 (fst e + k) = Some (ram one_space (PADDR_TO_KVADDR ((snd e AND PAGE_FRAME) + k))))"
    using spec [OF conjunct2 [OF conjunct2 [OF conjunct2 [OF conjunct2 [OF T]]]], of VM_FAULT_WRITE] u w by (simp only: if_False simp_thms p)
  then show ?thesis by blast
qed

end
