(* ===== verification/Proc.thy ===== *)
theory Proc
  imports File_Syscalls Addrspace
begin

text \<open>
  Processes: \<open>kern/proc/proc.c\<close>, the parts of \<open>kern/thread/thread.c\<close> that start and end a thread of
  a process, and the system calls \<open>fork\<close>, \<open>_exit\<close>, \<open>waitpid\<close>, \<open>getpid\<close> and \<open>chdir\<close>.  The process
  table has 128 slots, the pid of a process is the number of its slot, and what a parent learns of a
  child is in the entry of the slot.  A process structure is its address; \<open>p_namestr\<close> is the text of
  its name.  The spinlock of a process is taken and given back inside one operation and is left out.
\<close>

section \<open>State\<close>

record trapframe =
  tf_vaddr :: nat
  tf_status :: nat
  tf_cause :: nat
  tf_v0 :: nat
  tf_v1 :: nat
  tf_a0 :: nat
  tf_a1 :: nat
  tf_a2 :: nat
  tf_a3 :: nat
  tf_sp :: nat
  tf_epc :: nat

record 'd procs = "'d files" +
  p_name :: "addr \<Rightarrow> addr"
  p_namestr :: "addr \<Rightarrow> string"
  p_numthreads :: "addr \<Rightarrow> nat"
  pid :: "addr \<Rightarrow> int"
  return_value :: "addr \<Rightarrow> int"
  p_thread :: "addr \<Rightarrow> addr"
  p_mutex :: "addr \<Rightarrow> addr"
  p_parent :: "addr \<Rightarrow> addr"
  p_num_childs :: "addr \<Rightarrow> nat"
  p_childs :: "addr \<Rightarrow> addr list"
  kproc :: addr
  pt_pcb :: "addr \<Rightarrow> addr"               \<comment> \<open>pt_entry\<close>
  pt_termed :: "addr \<Rightarrow> bool"
  pt_p_termed :: "addr \<Rightarrow> bool"
  pt_exitcode :: "addr \<Rightarrow> int"
  pt_waiting :: "addr \<Rightarrow> addr"
  Global_Proc_Table :: "addr list"
  GPT_lock :: addr
  GLOBAL_PROC_COUNT :: nat
  thread_count :: nat
  thread_count_wchan :: addr
  t_data :: "thread \<Rightarrow> addr \<times> nat"        \<comment> \<open>the arguments of the entry point, in the switchframe\<close>
  tf_at :: "addr \<Rightarrow> trapframe"            \<comment> \<open>trapframes in allocated blocks\<close>
  vmem :: vm

definition MAX_PROCS :: nat where "MAX_PROCS = 128"
definition MAX_CHILDS :: nat where "MAX_CHILDS = 32"

definition is_kernel :: "string \<Rightarrow> bool" where
  "is_kernel name \<longleftrightarrow> name = ''[kernel]''"

text \<open>The virtual memory system has its own state and uses the allocator of the kernel.\<close>

definition on_vm :: "(vm \<Rightarrow> ('r \<times> vm) option) \<Rightarrow> ('d, 'a) procs_scheme \<Rightarrow> ('r \<times> ('d, 'a) procs_scheme) option" where
  "on_vm f s = do {
     (r, v) \<leftarrow> f ((vmem s)\<lparr>oom := oom s, ticks := ticks s, live := live s, in_interrupt := t_in_interrupt s (curthread s)\<rparr>);
     Some (r, s\<lparr>vmem := v, ticks := ticks v, live := live v\<rparr>) }"

section \<open>Creating processes\<close>

text \<open>The parts that set fields of the process table have names of their own: \<open>Proc_Table\<close> is about them.\<close>

definition init_entry :: "addr \<Rightarrow> addr \<Rightarrow> ('d, 'a) procs_scheme \<Rightarrow> ('d, 'a) procs_scheme" where
  "init_entry ret pcb s =
     s\<lparr>pt_p_termed := (pt_p_termed s)(ret := False), pt_termed := (pt_termed s)(ret := False),
       pt_pcb := (pt_pcb s)(ret := pcb), pt_exitcode := (pt_exitcode s)(ret := 0)\<rparr>"

definition create_entry :: "addr \<Rightarrow> ('d, 'a) procs_scheme \<Rightarrow> (addr \<times> ('d, 'a) procs_scheme) option" where
  "create_entry pcb s = do {
     kassert (pcb \<noteq> 0);
     let (ret, s) = kmalloc s;
     if ret = 0 then Some (0, s)
     else do {
       let s = init_entry ret pcb s;
       (cv, s) \<leftarrow> cv_create True s;
       let s = s\<lparr>pt_waiting := (pt_waiting s)(ret := cv)\<rparr>;
       if cv = 0 then do { s \<leftarrow> kfree ret s; Some (0, s) }
       else Some (ret, s) } }"

text \<open>The loop that looks for a free slot.\<close>

definition enter_table :: "addr \<Rightarrow> addr \<Rightarrow> ('d, 'a) procs_scheme \<Rightarrow> ('d, 'a) procs_scheme" where
  "enter_table entry p s =
     (case first_idx (\<lambda>e. e = 0) (Global_Proc_Table s) of
        None \<Rightarrow> s
      | Some i \<Rightarrow> s\<lparr>Global_Proc_Table := (Global_Proc_Table s)[i := entry], pid := (pid s)(p := int i)\<rparr>)"

definition set_parent :: "string \<Rightarrow> addr \<Rightarrow> ('d, 'a) procs_scheme \<Rightarrow> ('d, 'a) procs_scheme" where
  "set_parent name p s =
     (if is_kernel name then s\<lparr>p_thread := (p_thread s)(p := 0), p_parent := (p_parent s)(p := 0)\<rparr>
      else s\<lparr>p_thread := (p_thread s)(p := curthread s), p_parent := (p_parent s)(p := curproc s)\<rparr>)"

definition init_childs :: "addr \<Rightarrow> ('d, 'a) procs_scheme \<Rightarrow> ('d, 'a) procs_scheme" where
  "init_childs p s = s\<lparr>p_num_childs := (p_num_childs s)(p := 0), p_childs := (p_childs s)(p := replicate MAX_CHILDS 0)\<rparr>"

definition count_proc :: "('d, 'a) procs_scheme \<Rightarrow> ('d, 'a) procs_scheme" where
  "count_proc s = s\<lparr>GLOBAL_PROC_COUNT := u32 (GLOBAL_PROC_COUNT s + 1)\<rparr>"

text \<open>From the fields after the file table on.\<close>

definition register_proc :: "('d, 'a) procs_scheme optables \<Rightarrow> string \<Rightarrow> addr \<Rightarrow> ('d, 'a) procs_scheme \<Rightarrow> (addr \<times> ('d, 'a) procs_scheme) option" where
  "register_proc T name p s = do {
     let s = s\<lparr>p_numthreads := (p_numthreads s)(p := 0), p_addrspace := (p_addrspace s)(p := 0), p_cwd := (p_cwd s)(p := 0),
               return_value := (return_value s)(p := 0)\<rparr>;
     let s = set_parent name p s;
     (lk, s) \<leftarrow> lock_create s;
     let s = s\<lparr>p_mutex := (p_mutex s)(p := lk)\<rparr>;
     if lk = 0 then do {
       s \<leftarrow> local_table_destroy T (local_file_table s p) s;
       s \<leftarrow> kfree (p_name s p) s;
       s \<leftarrow> kfree p s;
       Some (0, s) }
     else do {
       let s = init_childs p s;
       s \<leftarrow> (if \<not> is_kernel name then lock_now (GPT_lock s) s else Some s);
       (entry, s) \<leftarrow> create_entry p s;
       if entry = 0 then do {
         s \<leftarrow> local_table_destroy T (local_file_table s p) s;
         s \<leftarrow> kfree (p_name s p) s;
         s \<leftarrow> lock_destroy (p_mutex s p) s;
         s \<leftarrow> kfree p s;
         s \<leftarrow> lock_release (GPT_lock s) s;
         Some (0, s) }
       else do {
         let s = enter_table entry p s;
         s \<leftarrow> (if \<not> is_kernel name then lock_release (GPT_lock s) s else Some s);
         Some (p, count_proc s) } } }"

definition proc_create :: "('d, 'a) procs_scheme optables \<Rightarrow> string \<Rightarrow> ('d, 'a) procs_scheme \<Rightarrow> (addr \<times> ('d, 'a) procs_scheme) option" where
  "proc_create T name s =
     (if GLOBAL_PROC_COUNT s \<ge> MAX_PROCS then Some (0, s)
      else do {
        let (p, s) = kmalloc s;
        if p = 0 then Some (0, s)
        else do {
          let (nm, s) = kstrdup s;
          let s = s\<lparr>p_name := (p_name s)(p := nm), p_namestr := (p_namestr s)(p := name)\<rparr>;
          if nm = 0 then do { s \<leftarrow> kfree p s; Some (0, s) }
          else if \<not> is_kernel name then do {
            (t, s) \<leftarrow> local_table_create s;
            let s = s\<lparr>local_file_table := (local_file_table s)(p := t)\<rparr>;
            if t = 0 then do { s \<leftarrow> kfree (p_name s p) s; s \<leftarrow> kfree p s; Some (0, s) }
            else register_proc T name p s }
          else register_proc T name p s } })"

definition proc_getas :: "('d, 'a) procs_scheme \<Rightarrow> addr" where
  "proc_getas s = (if curproc s = 0 then 0 else p_addrspace s (curproc s))"

definition proc_setas :: "addr \<Rightarrow> ('d, 'a) procs_scheme \<Rightarrow> (addr \<times> ('d, 'a) procs_scheme) option" where
  "proc_setas newas s = do {
     let p = curproc s;
     kassert (p \<noteq> 0);
     Some (p_addrspace s p, s\<lparr>p_addrspace := (p_addrspace s)(p := newas)\<rparr>) }"

definition proc_destroy :: "('d, 'a) procs_scheme optables \<Rightarrow> addr \<Rightarrow> ('d, 'a) procs_scheme \<Rightarrow> ('d, 'a) procs_scheme option" where
  "proc_destroy T p s = do {
     kassert (p \<noteq> 0);
     kassert (p \<noteq> kproc s);
     s \<leftarrow> local_table_destroy T (local_file_table s p) s;
     s \<leftarrow> lock_destroy (p_mutex s p) s;
     s \<leftarrow> (if p_cwd s p \<noteq> 0 then do {
             s \<leftarrow> vnode_decref T (p_cwd s p) s;
             Some (s\<lparr>p_cwd := (p_cwd s)(p := 0)\<rparr>) }
           else Some s);
     s \<leftarrow> (if p_addrspace s p \<noteq> 0 then do {
             (as, s) \<leftarrow> (if p = curproc s then proc_setas 0 s
                         else Some (p_addrspace s p, s\<lparr>p_addrspace := (p_addrspace s)(p := 0)\<rparr>));
             (_, s) \<leftarrow> on_vm (\<lambda>v. do { v \<leftarrow> as_destroy as v; Some ((), v) }) s;
             Some s }
           else Some s);
     kassert (p_numthreads s p = 0);
     s \<leftarrow> kfree (p_name s p) s;
     kfree p s }"

definition proc_bootstrap :: "('d, 'a) procs_scheme optables \<Rightarrow> ('d, 'a) procs_scheme \<Rightarrow> ('d, 'a) procs_scheme option" where
  "proc_bootstrap T s = do {
     (p, s) \<leftarrow> proc_create T ''[kernel]'' s;
     let s = s\<lparr>kproc := p\<rparr>;
     kassert (p \<noteq> 0);
     Some s }"

definition file_table_bootstrap :: "('d, 'a) procs_scheme \<Rightarrow> ('d, 'a) procs_scheme option" where
  "file_table_bootstrap s = do {
     let s = s\<lparr>Global_Proc_Table := replicate MAX_PROCS 0\<rparr>;
     (lk, s) \<leftarrow> lock_create s;
     let s = s\<lparr>GPT_lock := lk\<rparr>;
     (t, s) \<leftarrow> global_table_create s;
     let s = s\<lparr>global_file_table := t\<rparr>;
     kassert (t \<noteq> 0);
     Some s }"

definition proc_create_runprogram :: "('d, 'a) procs_scheme optables \<Rightarrow> string \<Rightarrow> ('d, 'a) procs_scheme \<Rightarrow> (addr \<times> ('d, 'a) procs_scheme) option" where
  "proc_create_runprogram T name s = do {
     (newproc, s) \<leftarrow> proc_create T name s;
     if newproc = 0 then Some (0, s)
     else do {
       let s = s\<lparr>p_addrspace := (p_addrspace s)(newproc := 0)\<rparr>;
       let cwd = p_cwd s (curproc s);
       if cwd \<noteq> 0 then do {
         s \<leftarrow> vnode_incref cwd s;
         Some (newproc, s\<lparr>p_cwd := (p_cwd s)(newproc := cwd)\<rparr>) }
       else Some (newproc, s) } }"

section \<open>Threads of a process\<close>

definition proc_addthread :: "addr \<Rightarrow> thread \<Rightarrow> ('d, 'a) procs_scheme \<Rightarrow> ('d, 'a) procs_scheme option" where
  "proc_addthread p t s = do {
     kassert (t_proc s t = 0);
     let s = s\<lparr>p_numthreads := (p_numthreads s)(p := u32 (p_numthreads s p + 1))\<rparr>;
     let s = (if \<not> is_kernel (p_namestr s p) then s\<lparr>p_thread := (p_thread s)(p := t)\<rparr> else s);
     Some (s\<lparr>t_proc := (t_proc s)(t := p)\<rparr>) }"

definition proc_remthread :: "('d, 'a) procs_scheme optables \<Rightarrow> thread \<Rightarrow> ('d, 'a) procs_scheme \<Rightarrow> ('d, 'a) procs_scheme option" where
  "proc_remthread T t s = do {
     let p = t_proc s t;
     kassert (p \<noteq> 0);
     kassert (p_numthreads s p > 0);
     let s = s\<lparr>p_numthreads := (p_numthreads s)(p := p_numthreads s p - 1)\<rparr>;
     let s = s\<lparr>t_proc := (t_proc s)(t := 0)\<rparr>;
     proc_destroy T p s }"

definition thread_fork :: "nat \<Rightarrow> addr \<Rightarrow> addr \<Rightarrow> nat \<Rightarrow> (('d, 'a) procs_scheme, unit) call" where
  "thread_fork namelen p data1 data2 s = do {
     (t, s) \<leftarrow> thread_create namelen s;
     if t = 0 then Some (Inl ENOMEM, s)
     else do {
       let (stack, s) = kmalloc s;
       let s = s\<lparr>t_stack := (t_stack s)(t := stack)\<rparr>;
       if stack = 0 then do { s \<leftarrow> thread_destroy t s; Some (Inl ENOMEM, s) }
       else do {
         s \<leftarrow> thread_checkstack_init t s;
         let s = s\<lparr>t_cpu := (t_cpu s)(t := t_cpu s (curthread s))\<rparr>;
         let p = (if p = 0 then t_proc s (curthread s) else p);
         s \<leftarrow> proc_addthread p t s;
         let s = s\<lparr>thread_count := u32 (thread_count s + 1)\<rparr>;
         s \<leftarrow> wchan_wakeall (thread_count_wchan s) s;
         let s = s\<lparr>t_data := (t_data s)(t := (data1, data2))\<rparr>;
         s \<leftarrow> thread_make_runnable t s;
         Some (Inr (), s) } } }"

definition thread_exit :: "('d, 'a) procs_scheme optables \<Rightarrow> ('d, 'a) procs_scheme \<Rightarrow> ('d, 'a) procs_scheme option" where
  "thread_exit T s = do {
     let cur = curthread s;
     s \<leftarrow> proc_remthread T cur s;
     kassert (t_proc s cur = 0);
     thread_checkstack cur s;
     s \<leftarrow> (if thread_count s \<noteq> 0 then wchan_wakeall (thread_count_wchan s) (s\<lparr>thread_count := thread_count s - 1\<rparr>) else Some s);
     thread_switch S_ZOMBIE 0 s }"

section \<open>fork\<close>

text \<open>The first free place among the children of a process.\<close>

definition add_child :: "addr \<Rightarrow> addr \<Rightarrow> ('d, 'a) procs_scheme \<Rightarrow> ('d, 'a) procs_scheme" where
  "add_child parent child s =
     (case first_idx (\<lambda>c. c = 0) (p_childs s parent) of
        None \<Rightarrow> s
      | Some i \<Rightarrow> s\<lparr>p_childs := (p_childs s)(parent := (p_childs s parent)[i := child])\<rparr>)"

definition adopt :: "addr \<Rightarrow> addr \<Rightarrow> ('d, 'a) procs_scheme \<Rightarrow> ('d, 'a) procs_scheme" where
  "adopt parent child s = add_child parent child (s\<lparr>p_num_childs := (p_num_childs s)(parent := u32 (p_num_childs s parent + 1))\<rparr>)"

definition sys_fork :: "('d, 'a) procs_scheme optables \<Rightarrow> trapframe \<Rightarrow> (('d, 'a) procs_scheme, int) call" where
  "sys_fork T tf s = do {
     kassert (curproc s \<noteq> 0);
     if GLOBAL_PROC_COUNT s \<ge> MAX_PROCS then Some (Inl ENPROC, s)
     else if p_num_childs s (curproc s) \<ge> MAX_CHILDS then Some (Inl EMPROC, s)
     else do {
       (new_proc, s) \<leftarrow> proc_create T ''user_proc'' s;
       if new_proc = 0 then Some (Inl ENOMEM, s)
       else critical (p_mutex s (curproc s)) (\<lambda>s. do {
         let s = s\<lparr>p_cwd := (p_cwd s)(new_proc := p_cwd s (curproc s))\<rparr>;
         kassert (p_cwd s new_proc \<noteq> 0);
         s \<leftarrow> vnode_incref (p_cwd s new_proc) s;
         (r, s) \<leftarrow> on_vm (as_copy (p_addrspace s (curproc s))) s;
         case r of
           Inl e \<Rightarrow> do { s \<leftarrow> proc_destroy T new_proc s; Some (Inl e, s) }
         | Inr as \<Rightarrow> do {
             let s = s\<lparr>p_addrspace := (p_addrspace s)(new_proc := as)\<rparr>;
             (_, s) \<leftarrow> local_table_copy (local_file_table s (curproc s)) (local_file_table s new_proc) s;
             let (new_tf, s) = kmalloc s;
             if new_tf = 0 then do { s \<leftarrow> proc_destroy T new_proc s; Some (Inl ENOMEM, s) }
             else do {
               let s = s\<lparr>tf_at := (tf_at s)(new_tf := tf)\<rparr>;
               (r, s) \<leftarrow> thread_fork 16 new_proc new_tf (nat (pid s new_proc mod 2 ^ 32)) s;
               case r of
                 Inl e \<Rightarrow> do { s \<leftarrow> proc_destroy T new_proc s; s \<leftarrow> kfree new_tf s; Some (Inl e, s) }
               | Inr _ \<Rightarrow> do {
                   let s = adopt (curproc s) new_proc s;
                   Some (Inr (pid s new_proc), s) } } } }) s } }"

text \<open>The frame with which the child enters user mode.\<close>

definition enter_forked_process :: "trapframe \<Rightarrow> trapframe" where
  "enter_forked_process tf = tf\<lparr>tf_v0 := 0, tf_a3 := 0, tf_epc := u32 (tf_epc tf + 4)\<rparr>"

section \<open>exit\<close>

text \<open>The loop over the children, which tells them that their parent has ended.\<close>

fun orphan_children :: "addr list \<Rightarrow> ('d, 'a) procs_scheme \<Rightarrow> ('d, 'a) procs_scheme option" where
  "orphan_children [] s = Some s"
| "orphan_children (c # cs) s = do {
     s \<leftarrow> (if c \<noteq> 0 then do {
             kassert (c \<in> live s);
             child \<leftarrow> slot (Global_Proc_Table s) (pid s c);
             kassert (child \<noteq> 0);
             Some (s\<lparr>pt_p_termed := (pt_p_termed s)(child := True)\<rparr>) }
           else Some s);
     orphan_children cs s }"

text \<open>Up to the broadcast: the entry of the process, and the state with the marks.\<close>

definition exit_marks :: "int \<Rightarrow> ('d, 'a) procs_scheme \<Rightarrow> (addr \<times> ('d, 'a) procs_scheme) option" where
  "exit_marks code s = do {
     let pcb = curproc s;
     current \<leftarrow> slot (Global_Proc_Table s) (pid s pcb);
     kassert (current \<noteq> 0);
     let s = s\<lparr>pt_termed := (pt_termed s)(current := True), pt_exitcode := (pt_exitcode s)(current := code)\<rparr>;
     s \<leftarrow> orphan_children (p_childs s pcb) s;
     Some (current, s) }"

text \<open>From the broadcast on.\<close>

definition exit_unlink :: "addr \<Rightarrow> ('d, 'a) procs_scheme \<Rightarrow> ('d, 'a) procs_scheme option" where
  "exit_unlink current s = do {
     let pcb = curproc s;
     let s = (if pt_p_termed s current then s\<lparr>Global_Proc_Table := (Global_Proc_Table s)[nat (pid s pcb) := 0]\<rparr> else s);
     let parent = p_parent s pcb;
     kassert (parent \<in> live s);
     case first_idx (\<lambda>c. c = pcb) (p_childs s parent) of
       None \<Rightarrow> Some s
     | Some j \<Rightarrow> Some (s\<lparr>p_childs := (p_childs s)(parent := (p_childs s parent)[j := 0])\<rparr>) }"

definition sys__exit :: "('d, 'a) procs_scheme optables \<Rightarrow> int \<Rightarrow> ('d, 'a) procs_scheme \<Rightarrow> ('d, 'a) procs_scheme option" where
  "sys__exit T code s = do {
     s \<leftarrow> lock_now (GPT_lock s) s;
     (current, s) \<leftarrow> exit_marks code s;
     s \<leftarrow> cv_broadcast (pt_waiting s current) (GPT_lock s) s;
     s \<leftarrow> exit_unlink current s;
     s \<leftarrow> lock_release (GPT_lock s) s;
     thread_exit T s }"

section \<open>waitpid\<close>

text \<open>The scan of the children; the children are looked at up to the first that fits.\<close>

fun find_child :: "addr list \<Rightarrow> int \<Rightarrow> ('d, 'a) procs_scheme \<Rightarrow> bool option" where
  "find_child [] target s = Some False"
| "find_child (c # cs) target s =
     (if c \<noteq> 0 then do {
        kassert (c \<in> live s);
        if pid s c = target then Some True else find_child cs target s }
      else find_child cs target s)"

text \<open>The checks under the lock: the entry of the child.  An index outside the table stops the machine.\<close>

definition wait_target :: "int \<Rightarrow> ('d, 'a) procs_scheme \<Rightarrow> (errno + addr) option" where
  "wait_target target s = do {
     tgt \<leftarrow> slot (Global_Proc_Table s) target;
     if tgt = 0 then Some (Inl ESRCH)
     else do {
       found \<leftarrow> find_child (p_childs s (curproc s)) target s;
       Some (if \<not> found then Inl ECHILD else Inr tgt) } }"

text \<open>An \<open>int\<close> in memory, most significant byte first.\<close>

definition int_bytes :: "int \<Rightarrow> byte list" where
  "int_bytes x = map (\<lambda>k. word_of_int (x div 256 ^ k)) [3, 2, 1, 0]"

text \<open>What follows when the child has ended.\<close>

definition wait_reap :: "nat \<Rightarrow> int \<Rightarrow> nat \<Rightarrow> addr \<Rightarrow> (('d, 'a) procs_scheme, int) call" where
  "wait_reap kaddr target ret_status tgt s = do {
     kassert (pt_termed s tgt);
     let (r, s) = (if ret_status \<noteq> 0 then
         let um = (user_mem s)\<lparr>bytes := put_bytes_at kaddr (int_bytes (pt_exitcode s tgt)) (bytes (user_mem s))\<rparr>;
             (r, um) = copyout kaddr ret_status 4 um
         in (r, s\<lparr>user_mem := um\<rparr>)
       else (Inr (), s));
     case r of
       Inl e \<Rightarrow> Some (Inl e, s)
     | Inr _ \<Rightarrow> Some (Inr target, s\<lparr>Global_Proc_Table := (Global_Proc_Table s)[nat target := 0]\<rparr>) }"

text \<open>
  \<open>sys_waitpid\<close> up to where the caller sleeps (\<open>Inr (Some tgt)\<close>: asleep on the entry \<open>tgt\<close>) or
  returns; and the rest, from where the caller has the lock again.  \<open>kaddr\<close> is the address of the
  exit code of the entry.
\<close>

definition sys_waitpid :: "nat \<Rightarrow> int \<Rightarrow> nat \<Rightarrow> int \<Rightarrow> (('d, 'a) procs_scheme, int + addr) call" where
  "sys_waitpid kaddr target ret_status opts s =
     (if opts \<noteq> 0 then Some (Inl EINVAL, s)
      else if target \<le> 0 then Some (Inl ESRCH, s)
      else do {
        s \<leftarrow> lock_now (GPT_lock s) s;
        r \<leftarrow> wait_target target s;
        case r of
          Inl e \<Rightarrow> do { s \<leftarrow> lock_release (GPT_lock s) s; Some (Inl e, s) }
        | Inr tgt \<Rightarrow>
            if \<not> pt_termed s tgt then do {
              s \<leftarrow> cv_wait (pt_waiting s tgt) (GPT_lock s) s;
              Some (Inr (Inr tgt), s) }
            else do {
              (r, s) \<leftarrow> wait_reap kaddr target ret_status tgt s;
              s \<leftarrow> lock_release (GPT_lock s) s;
              Some (map_sum (\<lambda>e. e) Inl r, s) } })"

definition waitpid_awake :: "nat \<Rightarrow> int \<Rightarrow> nat \<Rightarrow> addr \<Rightarrow> (('d, 'a) procs_scheme, int) call" where
  "waitpid_awake kaddr target ret_status tgt s = do {
     s \<leftarrow> lock_now (GPT_lock s) s;
     (r, s) \<leftarrow> wait_reap kaddr target ret_status tgt s;
     s \<leftarrow> lock_release (GPT_lock s) s;
     Some (r, s) }"

section \<open>getpid and chdir\<close>

definition sys_getpid :: "(('d, 'a) procs_scheme, int) call" where
  "sys_getpid s = Some (Inr (pid s (curproc s)), s)"

definition sys_chdir :: "nat \<Rightarrow> ('d, 'a) procs_scheme optables \<Rightarrow> nat \<Rightarrow> (('d, 'a) procs_scheme, int) call" where
  "sys_chdir kbuf T pathName s = critical (p_mutex s (curproc s)) (\<lambda>s.
     if pathName = 0 then Some (Inl EFAULT, s)
     else
       let (r, m) = copyinstr pathName kbuf MAX_FILENAME_LEN (user_mem s);
           s = s\<lparr>user_mem := m\<rparr>
       in case r of
            Inl e \<Rightarrow> Some (Inl e, s)
          | Inr len \<Rightarrow> on_ok (vfs_chdir T (chars_at (bytes m) kbuf (len - 1))) (\<lambda>_ s. Some (Inr 0, s)) s) s"

end
