(* ===== verification/Proc_Table.thy ===== *)
theory Proc_Table
  imports Proc
begin

text \<open>
  What the processes do to the process table, in any order.  \<open>fork\<close> enters a child, \<open>_exit\<close> marks its
  entry and wakes the parent that waits for it, \<open>waitpid\<close> looks for a child, sleeps until it has ended
  and frees its entry.  The steps are the parts of the system calls of \<open>Proc\<close> that work on the table;
  each runs under \<open>GPT_lock\<close>, a sleeper is one that has given up the lock in \<open>cv_wait\<close>, and a broadcast
  makes it want the lock again.  \<open>fork\<close> counts as one step here; the last theorem shows what can happen
  when the child runs before its parent has entered it among its children.
\<close>

section \<open>Steps\<close>

record 'd pmachine =
  pm :: "'d procs"
  pm_live :: "addr set"                                 \<comment> \<open>processes that have not ended\<close>
  pm_sleep :: "addr \<Rightarrow> (int \<times> nat \<times> addr) option"       \<comment> \<open>asleep in waitpid: pid, status pointer, entry\<close>
  pm_woken :: "addr \<Rightarrow> (int \<times> nat \<times> addr) option"       \<comment> \<open>woken, not yet on the way again\<close>
  pm_code :: "addr \<Rightarrow> int option"                       \<comment> \<open>the code that was passed to \<open>_exit\<close>, by entry\<close>

text \<open>The running thread is that of process \<open>p\<close>.\<close>

definition as_proc :: "addr \<Rightarrow> 'd procs \<Rightarrow> 'd procs" where
  "as_proc p s = s\<lparr>t_proc := (t_proc s)(curthread s := p)\<rparr>"

definition running :: "'d pmachine \<Rightarrow> addr \<Rightarrow> bool" where
  "running m p \<longleftrightarrow> p \<in> pm_live m \<and> pm_sleep m p = None \<and> pm_woken m p = None"

text \<open>\<open>fork\<close>: the child \<open>c\<close> with the entry \<open>e\<close>.\<close>

definition fork_create :: "addr \<Rightarrow> addr \<Rightarrow> 'd procs \<Rightarrow> 'd procs" where
  "fork_create c e s = count_proc (enter_table e c (init_entry e c (init_childs c (set_parent ''user_proc'' c s))))"

definition fork_table :: "addr \<Rightarrow> addr \<Rightarrow> addr \<Rightarrow> 'd procs \<Rightarrow> 'd procs" where
  "fork_table p c e s = adopt p c (fork_create c e (as_proc p s))"

text \<open>\<open>_exit\<close>, up to the end of the process.\<close>

definition exit_table :: "addr \<Rightarrow> int \<Rightarrow> 'd procs \<Rightarrow> (addr \<times> 'd procs) option" where
  "exit_table p code s = do {
     (e, s) \<leftarrow> exit_marks code (as_proc p s);
     s \<leftarrow> exit_unlink e s;
     s \<leftarrow> kfree p s;
     Some (e, s) }"

definition wake_sleepers :: "addr \<Rightarrow> 'd pmachine \<Rightarrow> 'd pmachine" where
  "wake_sleepers e m =
     m\<lparr>pm_sleep := (\<lambda>q. case pm_sleep m q of Some (t, st, e') \<Rightarrow> if e' = e then None else pm_sleep m q | None \<Rightarrow> None),
       pm_woken := (\<lambda>q. case pm_sleep m q of Some (t, st, e') \<Rightarrow> if e' = e then pm_sleep m q else pm_woken m q | None \<Rightarrow> pm_woken m q)\<rparr>"

inductive proc_step :: "'d pmachine \<Rightarrow> 'd pmachine \<Rightarrow> bool" where
  fork: "running m p \<Longrightarrow> GLOBAL_PROC_COUNT (pm m) < MAX_PROCS \<Longrightarrow> p_num_childs (pm m) p < MAX_CHILDS \<Longrightarrow>
    kmalloc (pm m) = (c, s1) \<Longrightarrow> c \<noteq> 0 \<Longrightarrow> kmalloc s1 = (e, s2) \<Longrightarrow> e \<noteq> 0 \<Longrightarrow>
    proc_step m (m\<lparr>pm := fork_table p c e s2, pm_live := insert c (pm_live m)\<rparr>)"
| exit: "running m p \<Longrightarrow> exit_table p code (pm m) = Some (e, s') \<Longrightarrow>
    proc_step m (wake_sleepers e (m\<lparr>pm := s', pm_live := pm_live m - {p}, pm_code := (pm_code m)(e := Some code)\<rparr>))"
| sleep: "running m p \<Longrightarrow> 0 < t \<Longrightarrow> wait_target t (as_proc p (pm m)) = Some (Inr e) \<Longrightarrow> \<not> pt_termed (pm m) e \<Longrightarrow>
    proc_step m (m\<lparr>pm_sleep := (pm_sleep m)(p := Some (t, st, e))\<rparr>)"
| reap_now: "running m p \<Longrightarrow> 0 < t \<Longrightarrow> wait_target t (as_proc p (pm m)) = Some (Inr e) \<Longrightarrow> pt_termed (pm m) e \<Longrightarrow>
    wait_reap a t st e (pm m) = Some (r, s') \<Longrightarrow> proc_step m (m\<lparr>pm := s'\<rparr>)"
| reap: "pm_woken m p = Some (t, st, e) \<Longrightarrow> wait_reap a t st e (pm m) = Some (r, s') \<Longrightarrow>
    proc_step m (m\<lparr>pm := s', pm_woken := (pm_woken m)(p := None)\<rparr>)"

section \<open>The invariant\<close>

definition entry :: "'d procs \<Rightarrow> addr \<Rightarrow> addr" where
  "entry s p = Global_Proc_Table s ! nat (pid s p)"

definition kids :: "'d procs \<Rightarrow> addr \<Rightarrow> addr set" where
  "kids s p = set (p_childs s p) - {0}"

text \<open>Every process that has not ended has an entry of its own; the others are of ended processes.\<close>

definition slots_ok :: "'d procs \<Rightarrow> addr set \<Rightarrow> bool" where
  "slots_ok s L \<longleftrightarrow> length (Global_Proc_Table s) = MAX_PROCS
     \<and> (\<forall>p\<in>L. 0 \<le> pid s p \<and> pid s p < int MAX_PROCS \<and> entry s p \<noteq> 0 \<and> pt_pcb s (entry s p) = p \<and> \<not> pt_termed s (entry s p))
     \<and> (\<forall>i<MAX_PROCS. \<forall>j<MAX_PROCS. Global_Proc_Table s ! i \<noteq> 0 \<and> Global_Proc_Table s ! i = Global_Proc_Table s ! j \<longrightarrow> i = j)
     \<and> (\<forall>i<MAX_PROCS. Global_Proc_Table s ! i \<noteq> 0 \<and> \<not> pt_termed s (Global_Proc_Table s ! i) \<longrightarrow>
          pt_pcb s (Global_Proc_Table s ! i) \<in> L \<and> pid s (pt_pcb s (Global_Proc_Table s ! i)) = int i)
     \<and> card {i. i < MAX_PROCS \<and> Global_Proc_Table s ! i \<noteq> 0} \<le> GLOBAL_PROC_COUNT s \<and> GLOBAL_PROC_COUNT s \<le> MAX_PROCS"

text \<open>Parents and children.\<close>

definition family_ok :: "'d procs \<Rightarrow> addr set \<Rightarrow> bool" where
  "family_ok s L \<longleftrightarrow> (\<forall>p\<in>insert (kproc s) L. length (p_childs s p) = MAX_CHILDS \<and> distinct (filter ((\<noteq>) 0) (p_childs s p)))
     \<and> (\<forall>p\<in>insert (kproc s) L. \<forall>c\<in>kids s p. c \<in> L \<and> p_parent s c = p \<and> c \<noteq> p)
     \<and> (\<forall>p\<in>L. card (kids s p) \<le> p_num_childs s p \<and> p_num_childs s p \<le> MAX_CHILDS)
     \<and> (\<forall>c\<in>L. p_parent s c \<in> L \<longrightarrow> c \<in> kids s (p_parent s c))
     \<and> (\<forall>c\<in>L. p_parent s c \<notin> L \<and> p_parent s c \<noteq> kproc s \<longrightarrow> p_parent s c \<notin> live s)
     \<and> (\<forall>c\<in>L. pt_p_termed s (entry s c) \<longleftrightarrow> p_parent s c \<notin> insert (kproc s) L)"

definition memory_ok :: "'d procs \<Rightarrow> addr set \<Rightarrow> bool" where
  "memory_ok s L \<longleftrightarrow> kmem_ok s \<and> L \<subseteq> live s \<and> kproc s \<in> live s \<and> kproc s \<notin> L
     \<and> (\<forall>e\<in>set (Global_Proc_Table s). e \<le> ticks s) \<and> (\<forall>c\<in>L. p_parent s c \<le> ticks s)"

text \<open>A sleeper waits for a child that has not ended; one that was woken finds the code of its child.\<close>

definition waiters_ok :: "'d pmachine \<Rightarrow> bool" where
  "waiters_ok m \<longleftrightarrow> (let s = pm m in
       (\<forall>q t st e. pm_sleep m q = Some (t, st, e) \<longrightarrow> q \<in> pm_live m \<and> 0 < t \<and> pm_woken m q = None \<and> (\<exists>c\<in>kids s q. pid s c = t \<and> entry s c = e))
     \<and> (\<forall>q t st e. pm_woken m q = Some (t, st, e) \<longrightarrow> q \<in> pm_live m \<and> 0 < t \<and> t < int MAX_PROCS \<and> Global_Proc_Table s ! nat t = e \<and> e \<noteq> 0 \<and> pt_termed s e)
     \<and> (\<forall>q r t st st' e e'. pm_woken m q = Some (t, st, e) \<and> pm_woken m r = Some (t, st', e') \<longrightarrow> q = r)
     \<and> (\<forall>i<MAX_PROCS. Global_Proc_Table s ! i \<noteq> 0 \<and> pt_termed s (Global_Proc_Table s ! i) \<longrightarrow>
          pm_code m (Global_Proc_Table s ! i) = Some (pt_exitcode s (Global_Proc_Table s ! i))))"

definition ptable_ok :: "'d pmachine \<Rightarrow> bool" where
  "ptable_ok m \<longleftrightarrow> slots_ok (pm m) (pm_live m) \<and> family_ok (pm m) (pm_live m) \<and> memory_ok (pm m) (pm_live m) \<and> waiters_ok m"

lemma first_idx_Some: "first_idx Q xs = Some i \<longleftrightarrow> i < length xs \<and> Q (xs ! i) \<and> (\<forall>j<i. \<not> Q (xs ! j))"
proof -
  let ?i = "length (takeWhile (\<lambda>x. \<not> Q x) xs)"
  have 1: "Q (xs ! ?i)" if "?i < length xs" using nth_length_takeWhile [of "\<lambda>x. \<not> Q x" xs] that by simp
  have 2: "\<not> Q (xs ! j)" if "j < ?i" for j
  proof -
    have "takeWhile (\<lambda>x. \<not> Q x) xs ! j \<in> set (takeWhile (\<lambda>x. \<not> Q x) xs)" using that by (rule nth_mem)
    then show ?thesis using takeWhile_nth [OF that] by (metis set_takeWhileD)
  qed
  show ?thesis
  proof
    assume "first_idx Q xs = Some i"
    then have "i = ?i" "?i < length xs" by (auto simp: first_idx_def Let_def split: if_splits)
    then show "i < length xs \<and> Q (xs ! i) \<and> (\<forall>j<i. \<not> Q (xs ! j))" using 1 2 by simp
  next
    assume i: "i < length xs \<and> Q (xs ! i) \<and> (\<forall>j<i. \<not> Q (xs ! j))"
    have "\<not> i < ?i" using 2 i by blast
    moreover have "\<not> ?i < i" using 1 i by (meson order_less_trans)
    ultimately have "i = ?i" by linarith
    then show "first_idx Q xs = Some i" using i by (simp add: first_idx_def Let_def)
  qed
qed

lemma first_idx_None: "first_idx Q xs = None \<longleftrightarrow> (\<forall>x\<in>set xs. \<not> Q x)"
proof -
  have "length (takeWhile (\<lambda>x. \<not> Q x) xs) < length xs \<longleftrightarrow> takeWhile (\<lambda>x. \<not> Q x) xs \<noteq> xs"
    using length_takeWhile_le [of "\<lambda>x. \<not> Q x" xs] takeWhile_eq_take [of "\<lambda>x. \<not> Q x" xs] by (metis le_neq_implies_less nat_less_le take_all order_refl)
  then show ?thesis by (simp add: takeWhile_eq_all_conv first_idx_def Let_def)
qed

lemma as_proc_sel [simp]:
  "curproc (as_proc p s) = p" "pid (as_proc p s) = pid s" "p_parent (as_proc p s) = p_parent s" "p_childs (as_proc p s) = p_childs s"
  "p_num_childs (as_proc p s) = p_num_childs s" "kproc (as_proc p s) = kproc s" "pt_pcb (as_proc p s) = pt_pcb s"
  "pt_termed (as_proc p s) = pt_termed s" "pt_p_termed (as_proc p s) = pt_p_termed s" "pt_exitcode (as_proc p s) = pt_exitcode s"
  "Global_Proc_Table (as_proc p s) = Global_Proc_Table s" "GLOBAL_PROC_COUNT (as_proc p s) = GLOBAL_PROC_COUNT s"
  "live (as_proc p s) = live s" "ticks (as_proc p s) = ticks s" "oom (as_proc p s) = oom s" "user_mem (as_proc p s) = user_mem s"
  by (simp_all add: as_proc_def curproc_def)

lemma slotsD:
  assumes "slots_ok s L"
  shows "length (Global_Proc_Table s) = MAX_PROCS"
    and "p \<in> L \<Longrightarrow> 0 \<le> pid s p \<and> nat (pid s p) < MAX_PROCS \<and> entry s p \<noteq> 0 \<and> pt_pcb s (entry s p) = p \<and> \<not> pt_termed s (entry s p)"
    and "i < MAX_PROCS \<Longrightarrow> k < MAX_PROCS \<Longrightarrow> Global_Proc_Table s ! i \<noteq> 0 \<Longrightarrow> Global_Proc_Table s ! i = Global_Proc_Table s ! k \<Longrightarrow> i = k"
    and "i < MAX_PROCS \<Longrightarrow> Global_Proc_Table s ! i \<noteq> 0 \<Longrightarrow> \<not> pt_termed s (Global_Proc_Table s ! i) \<Longrightarrow>
      pt_pcb s (Global_Proc_Table s ! i) \<in> L \<and> pid s (pt_pcb s (Global_Proc_Table s ! i)) = int i"
    and "card {i. i < MAX_PROCS \<and> Global_Proc_Table s ! i \<noteq> 0} \<le> GLOBAL_PROC_COUNT s" "GLOBAL_PROC_COUNT s \<le> MAX_PROCS"
proof -
  show "length (Global_Proc_Table s) = MAX_PROCS" using assms by (simp only: slots_ok_def)
  show "0 \<le> pid s p \<and> nat (pid s p) < MAX_PROCS \<and> entry s p \<noteq> 0 \<and> pt_pcb s (entry s p) = p \<and> \<not> pt_termed s (entry s p)" if "p \<in> L"
  proof -
    have "0 \<le> pid s p \<and> pid s p < int MAX_PROCS \<and> entry s p \<noteq> 0 \<and> pt_pcb s (entry s p) = p \<and> \<not> pt_termed s (entry s p)"
      using assms that unfolding slots_ok_def by blast
    then show ?thesis by linarith
  qed
qed (use assms in \<open>unfold slots_ok_def, blast+\<close>)

lemma slotsI:
  assumes "length (Global_Proc_Table s) = MAX_PROCS"
    and "\<And>p. p \<in> L \<Longrightarrow> 0 \<le> pid s p \<and> pid s p < int MAX_PROCS \<and> entry s p \<noteq> 0 \<and> pt_pcb s (entry s p) = p \<and> \<not> pt_termed s (entry s p)"
    and "\<And>i k. i < MAX_PROCS \<Longrightarrow> k < MAX_PROCS \<Longrightarrow> Global_Proc_Table s ! i \<noteq> 0 \<Longrightarrow> Global_Proc_Table s ! i = Global_Proc_Table s ! k \<Longrightarrow> i = k"
    and "\<And>i. i < MAX_PROCS \<Longrightarrow> Global_Proc_Table s ! i \<noteq> 0 \<Longrightarrow> \<not> pt_termed s (Global_Proc_Table s ! i) \<Longrightarrow>
      pt_pcb s (Global_Proc_Table s ! i) \<in> L \<and> pid s (pt_pcb s (Global_Proc_Table s ! i)) = int i"
    and "card {i. i < MAX_PROCS \<and> Global_Proc_Table s ! i \<noteq> 0} \<le> GLOBAL_PROC_COUNT s" "GLOBAL_PROC_COUNT s \<le> MAX_PROCS"
  shows "slots_ok s L"
  unfolding slots_ok_def
  by (intro conjI; (intro allI ballI impI)?; (elim conjE)?; rule assms; assumption?)

lemma familyD:
  assumes "family_ok s L"
  shows "p \<in> insert (kproc s) L \<Longrightarrow> length (p_childs s p) = MAX_CHILDS \<and> distinct (filter ((\<noteq>) 0) (p_childs s p))"
    and "p \<in> insert (kproc s) L \<Longrightarrow> c \<in> kids s p \<Longrightarrow> c \<in> L \<and> p_parent s c = p \<and> c \<noteq> p"
    and "p \<in> L \<Longrightarrow> card (kids s p) \<le> p_num_childs s p \<and> p_num_childs s p \<le> MAX_CHILDS"
    and "c \<in> L \<Longrightarrow> p_parent s c \<in> L \<Longrightarrow> c \<in> kids s (p_parent s c)"
    and "c \<in> L \<Longrightarrow> p_parent s c \<notin> L \<Longrightarrow> p_parent s c \<noteq> kproc s \<Longrightarrow> p_parent s c \<notin> live s"
    and "c \<in> L \<Longrightarrow> pt_p_termed s (entry s c) \<longleftrightarrow> p_parent s c \<notin> insert (kproc s) L"
  using assms unfolding family_ok_def by blast+

lemma familyI:
  assumes "\<And>p. p \<in> insert (kproc s) L \<Longrightarrow> length (p_childs s p) = MAX_CHILDS \<and> distinct (filter ((\<noteq>) 0) (p_childs s p))"
    and "\<And>p c. p \<in> insert (kproc s) L \<Longrightarrow> c \<in> kids s p \<Longrightarrow> c \<in> L \<and> p_parent s c = p \<and> c \<noteq> p"
    and "\<And>p. p \<in> L \<Longrightarrow> card (kids s p) \<le> p_num_childs s p \<and> p_num_childs s p \<le> MAX_CHILDS"
    and "\<And>c. c \<in> L \<Longrightarrow> p_parent s c \<in> L \<Longrightarrow> c \<in> kids s (p_parent s c)"
    and "\<And>c. c \<in> L \<Longrightarrow> p_parent s c \<notin> L \<Longrightarrow> p_parent s c \<noteq> kproc s \<Longrightarrow> p_parent s c \<notin> live s"
    and "\<And>c. c \<in> L \<Longrightarrow> pt_p_termed s (entry s c) \<longleftrightarrow> p_parent s c \<notin> insert (kproc s) L"
  shows "family_ok s L"
  unfolding family_ok_def
  by (intro conjI; intro ballI impI; (elim conjE)?; rule assms; assumption)

lemma family_cong:
  assumes ok: "family_ok s L" and eq: "kproc s' = kproc s" "p_childs s' = p_childs s" "p_parent s' = p_parent s" "p_num_childs s' = p_num_childs s"
    "live s' = live s" "pt_p_termed s' = pt_p_termed s" and ent: "\<And>p. p \<in> L \<Longrightarrow> entry s' p = entry s p"
  shows "family_ok s' L"
proof -
  have k: "kids s' = kids s" by (simp add: kids_def eq fun_eq_iff)
  show ?thesis
    by (rule familyI; unfold eq k; (rule familyD [OF ok]; assumption)?) (simp add: ent familyD(6) [OF ok])
qed

section \<open>fork\<close>

lemma free_slot:
  assumes "slots_ok s L" and "GLOBAL_PROC_COUNT s < MAX_PROCS"
  obtains i where "first_idx (\<lambda>e. e = 0) (Global_Proc_Table s) = Some i" "i < MAX_PROCS" "Global_Proc_Table s ! i = 0"
proof (cases "first_idx (\<lambda>e. e = 0) (Global_Proc_Table s)")
  case None
  then have "{i. i < MAX_PROCS \<and> Global_Proc_Table s ! i \<noteq> 0} = {0..<MAX_PROCS}"
    using slotsD(1) [OF assms(1)] by (auto simp: first_idx_None)
  then show ?thesis using slotsD(5) [OF assms(1)] assms(2) by simp
next
  case (Some i)
  then have "i < MAX_PROCS" "Global_Proc_Table s ! i = 0" using slotsD(1) [OF assms(1)] by (simp_all add: first_idx_Some)
  with Some show ?thesis by (rule that)
qed

lemma free_child:
  assumes "family_ok s L" and "p \<in> L" and "p_num_childs s p < MAX_CHILDS"
  obtains j where "first_idx (\<lambda>c. c = 0) (p_childs s p) = Some j" "j < MAX_CHILDS" "p_childs s p ! j = 0"
proof (cases "first_idx (\<lambda>c. c = 0) (p_childs s p)")
  case None
  then have n: "\<forall>x\<in>set (p_childs s p). x \<noteq> 0" by (simp add: first_idx_None)
  then have "filter ((\<noteq>) 0) (p_childs s p) = p_childs s p" by (auto simp: filter_id_conv)
  moreover have l: "length (p_childs s p) = MAX_CHILDS" "distinct (filter ((\<noteq>) 0) (p_childs s p))" "card (kids s p) \<le> p_num_childs s p"
    using familyD(1,3) [OF assms(1), of p] assms(2) by simp_all
  ultimately have "card (set (p_childs s p)) = MAX_CHILDS" using distinct_card [of "p_childs s p"] by simp
  moreover have "kids s p = set (p_childs s p)" using n by (auto simp: kids_def)
  ultimately show ?thesis using l(3) assms(3) by simp
next
  case (Some j)
  then have "j < MAX_CHILDS" "p_childs s p ! j = 0" using familyD(1) [OF assms(1), of p] assms(2) by (simp_all add: first_idx_Some)
  with Some show ?thesis by (rule that)
qed

definition forked :: "addr \<Rightarrow> addr \<Rightarrow> addr \<Rightarrow> nat \<Rightarrow> nat \<Rightarrow> 'd procs \<Rightarrow> 'd procs \<Rightarrow> bool" where
  "forked p c e i j s s' \<longleftrightarrow> Global_Proc_Table s' = (Global_Proc_Table s)[i := e] \<and> pid s' = (pid s)(c := int i)
     \<and> pt_pcb s' = (pt_pcb s)(e := c) \<and> pt_termed s' = (pt_termed s)(e := False) \<and> pt_p_termed s' = (pt_p_termed s)(e := False)
     \<and> pt_exitcode s' = (pt_exitcode s)(e := 0) \<and> p_parent s' = (p_parent s)(c := p)
     \<and> p_num_childs s' = (p_num_childs s)(c := 0, p := p_num_childs s p + 1)
     \<and> p_childs s' = (p_childs s)(c := replicate MAX_CHILDS 0, p := (p_childs s p)[j := c])
     \<and> GLOBAL_PROC_COUNT s' = GLOBAL_PROC_COUNT s + 1 \<and> kproc s' = kproc s \<and> oom s' = oom s
     \<and> live s' = live s \<and> ticks s' = ticks s \<and> user_mem s' = user_mem s"

lemma fork_table_eq:
  assumes "first_idx (\<lambda>e. e = 0) (Global_Proc_Table s) = Some i" and "first_idx (\<lambda>c. c = 0) (p_childs s p) = Some j" and "p \<noteq> c"
    and "GLOBAL_PROC_COUNT s < MAX_PROCS" and "p_num_childs s p < MAX_CHILDS"
  shows "forked p c e i j s (fork_table p c e s)"
proof -
  have cp: "t_proc (as_proc p s) (curthread (as_proc p s)) = p" by (simp add: as_proc_def)
  show ?thesis
    using assms
    by (simp add: forked_def fork_table_def fork_create_def adopt_def add_child_def count_proc_def enter_table_def init_entry_def init_childs_def
      set_parent_def is_kernel_def curproc_def cp u32_id MAX_PROCS_def MAX_CHILDS_def)
qed

lemma entry_other:
  assumes "slots_ok s L" and "q \<in> L" and "Global_Proc_Table s ! i = 0"
  shows "nat (pid s q) \<noteq> i"
  using slotsD(2) [OF assms(1,2)] assms(3) by (auto simp: entry_def)

lemma fork_slots:
  assumes ok: "slots_ok s L" and f: "forked p c e i j s s'" and i: "i < MAX_PROCS" "Global_Proc_Table s ! i = 0"
    and new: "c \<notin> L" "e \<noteq> 0" "e \<notin> set (Global_Proc_Table s)" and cnt: "GLOBAL_PROC_COUNT s < MAX_PROCS"
  shows "slots_ok s' (insert c L)" "\<forall>q\<in>L. entry s' q = entry s q" "entry s' c = e"
proof -
  let ?G = "Global_Proc_Table s"
  have s': "Global_Proc_Table s' = ?G[i := e]" "pid s' = (pid s)(c := int i)" "pt_pcb s' = (pt_pcb s)(e := c)"
    "pt_termed s' = (pt_termed s)(e := False)" "GLOBAL_PROC_COUNT s' = GLOBAL_PROC_COUNT s + 1"
    using f by (simp_all add: forked_def)
  have len: "length ?G = MAX_PROCS" using ok by (rule slotsD)
  have ne: "?G ! k \<noteq> e" if "k < MAX_PROCS" for k using new(3) that len by (metis nth_mem)
  show old: "\<forall>q\<in>L. entry s' q = entry s q"
  proof
    fix q assume q: "q \<in> L"
    then have "q \<noteq> c" "nat (pid s q) \<noteq> i" using new(1) entry_other [OF ok q i(2)] by blast+
    then show "entry s' q = entry s q" by (simp add: entry_def s')
  qed
  show e: "entry s' c = e" using i(1) len by (simp add: entry_def s')
  show "slots_ok s' (insert c L)"
  proof (rule slotsI)
    show "length (Global_Proc_Table s') = MAX_PROCS" using len by (simp add: s')
    fix q assume q: "q \<in> insert c L"
    show "0 \<le> pid s' q \<and> pid s' q < int MAX_PROCS \<and> entry s' q \<noteq> 0 \<and> pt_pcb s' (entry s' q) = q \<and> \<not> pt_termed s' (entry s' q)"
    proof (cases "q = c")
      case True
      then show ?thesis using e i new(2) by (simp add: s')
    next
      case False
      then have q: "q \<in> L" using q by simp
      note o = slotsD(2) [OF ok q]
      then have "entry s q \<noteq> e" using ne [of "nat (pid s q)"] by (simp add: entry_def)
      moreover have "pid s q < int MAX_PROCS" using o by linarith
      ultimately show ?thesis using False old q o by (simp add: s')
    qed
  next
    fix k l assume kl: "k < MAX_PROCS" "l < MAX_PROCS" "Global_Proc_Table s' ! k \<noteq> 0" "Global_Proc_Table s' ! k = Global_Proc_Table s' ! l"
    show "k = l"
    proof (cases "k = i \<or> l = i")
      case True
      then show ?thesis using kl ne len i(1) by (auto simp: s' nth_list_update split: if_splits)
    next
      case False
      then have "?G ! k \<noteq> 0" "?G ! k = ?G ! l" using kl by (simp_all add: s')
      then show ?thesis by (rule slotsD(3) [OF ok kl(1,2)])
    qed
  next
    fix k assume k: "k < MAX_PROCS" "Global_Proc_Table s' ! k \<noteq> 0" "\<not> pt_termed s' (Global_Proc_Table s' ! k)"
    show "pt_pcb s' (Global_Proc_Table s' ! k) \<in> insert c L \<and> pid s' (pt_pcb s' (Global_Proc_Table s' ! k)) = int k"
    proof (cases "k = i")
      case True
      then show ?thesis using i(1) len by (simp add: s')
    next
      case False
      then have "?G ! k \<noteq> 0" "\<not> pt_termed s (?G ! k)" using k ne by (simp_all add: s')
      then have "pt_pcb s (?G ! k) \<in> L \<and> pid s (pt_pcb s (?G ! k)) = int k" by (rule slotsD(4) [OF ok k(1)])
      then show ?thesis using False ne [OF k(1)] new(1) by (auto simp: s')
    qed
  next
    have "{k. k < MAX_PROCS \<and> Global_Proc_Table s' ! k \<noteq> 0} \<subseteq> insert i {k. k < MAX_PROCS \<and> ?G ! k \<noteq> 0}"
      by (auto simp: s' nth_list_update split: if_splits)
    then have "card {k. k < MAX_PROCS \<and> Global_Proc_Table s' ! k \<noteq> 0} \<le> card (insert i {k. k < MAX_PROCS \<and> ?G ! k \<noteq> 0})"
      by (intro card_mono) simp_all
    also have "\<dots> \<le> Suc (card {k. k < MAX_PROCS \<and> ?G ! k \<noteq> 0})" by (rule card_insert_le_m1) simp_all
    finally show "card {k. k < MAX_PROCS \<and> Global_Proc_Table s' ! k \<noteq> 0} \<le> GLOBAL_PROC_COUNT s'" using slotsD(5) [OF ok] by (simp add: s')
    show "GLOBAL_PROC_COUNT s' \<le> MAX_PROCS" using cnt by (simp add: s')
  qed
qed

lemma kids_replicate: "p_childs s p = replicate n 0 \<Longrightarrow> kids s p = {}"
  by (auto simp: kids_def)

lemma fork_family:
  assumes ok: "family_ok s L" and f: "forked p c e i j s s'" and p: "p \<in> L" "j < MAX_CHILDS" "p_childs s p ! j = 0"
    and new: "c \<notin> L" "c \<noteq> kproc s" "c \<noteq> 0" "kproc s \<notin> L" and par: "\<forall>q\<in>L. p_parent s q \<noteq> c" and num: "p_num_childs s p < MAX_CHILDS"
    and ent: "\<forall>q\<in>L. entry s' q = entry s q \<and> entry s q \<noteq> e" "entry s' c = e"
  shows "family_ok s' (insert c L)" "\<forall>q\<in>L. kids s q \<subseteq> kids s' q"
proof -
  let ?C = "p_childs s p"
  have s': "p_parent s' = (p_parent s)(c := p)" "p_childs s' = (p_childs s)(c := replicate MAX_CHILDS 0, p := ?C[j := c])" "kproc s' = kproc s"
    "pt_p_termed s' = (pt_p_termed s)(e := False)" "p_num_childs s' = (p_num_childs s)(c := 0, p := p_num_childs s p + 1)" "live s' = live s"
    using f by (simp_all add: forked_def)
  have pc: "p \<noteq> c" "p \<noteq> kproc s" using p(1) new by auto
  have C: "length ?C = MAX_CHILDS" "distinct (filter ((\<noteq>) 0) ?C)" using familyD(1) [OF ok, of p] p(1) by simp_all
  have cC: "c \<notin> set ?C" using familyD(2) [OF ok, of p c] p(1) new(1,3) by (auto simp: kids_def)
  obtain xs ys where xy: "filter ((\<noteq>) 0) ?C = xs @ ys" "filter ((\<noteq>) 0) (?C[j := c]) = xs @ c # ys"
    by (rule filter_update [of j ?C "(\<noteq>) 0" c]) (use p C new in auto)
  have dC: "distinct (filter ((\<noteq>) 0) (?C[j := c]))"
  proof -
    have "c \<notin> set (xs @ ys)" using cC unfolding xy(1) [symmetric] by simp
    then show ?thesis using C(2) unfolding xy by simp
  qed
  have kp: "kids s' p = insert c (kids s p)"
  proof -
    have "set (filter ((\<noteq>) 0) (?C[j := c])) = insert c (set (filter ((\<noteq>) 0) ?C))" unfolding xy by simp
    moreover have "kids s' p = set (filter ((\<noteq>) 0) (?C[j := c]))" "kids s p = set (filter ((\<noteq>) 0) ?C)" by (auto simp: kids_def s')
    ultimately show ?thesis by simp
  qed
  have kc: "kids s' c = {}" using pc by (intro kids_replicate [of _ _ MAX_CHILDS]) (simp add: s')
  have ko: "kids s' q = kids s q" if "q \<noteq> p" "q \<noteq> c" for q using that by (simp add: kids_def s')
  show "\<forall>q\<in>L. kids s q \<subseteq> kids s' q"
  proof
    fix q assume "q \<in> L"
    then have "q \<noteq> c" using new(1) by blast
    then show "kids s q \<subseteq> kids s' q" using kp ko [of q] by (cases "q = p") auto
  qed
  show "family_ok s' (insert c L)"
  proof (rule familyI)
    fix q assume q: "q \<in> insert (kproc s') (insert c L)"
    show "length (p_childs s' q) = MAX_CHILDS \<and> distinct (filter ((\<noteq>) 0) (p_childs s' q))"
      using q C dC familyD(1) [OF ok, of q] by (auto simp: s')
    fix d assume d: "d \<in> kids s' q"
    consider "q = p" | "q = c" | "q \<noteq> p" "q \<noteq> c" "q \<in> insert (kproc s) L" using q by (auto simp: s')
    then show "d \<in> insert c L \<and> p_parent s' d = q \<and> d \<noteq> q"
    proof cases
      case 1
      then show ?thesis using d kp familyD(2) [OF ok, of p d] p(1) new(1) pc(1) by (auto simp: s')
    next
      case 2
      then show ?thesis using d kc by simp
    next
      case 3
      then have "d \<in> L \<and> p_parent s d = q \<and> d \<noteq> q" using d ko familyD(2) [OF ok, of q d] by simp
      then show ?thesis using new(1) by (auto simp: s')
    qed
  next
    fix q assume q: "q \<in> insert c L"
    show "card (kids s' q) \<le> p_num_childs s' q \<and> p_num_childs s' q \<le> MAX_CHILDS"
    proof (cases "q = p")
      case True
      have "card (insert c (kids s p)) \<le> Suc (card (kids s p))" by (rule card_insert_le_m1) (simp_all add: kids_def)
      then show ?thesis using True kp num familyD(3) [OF ok p(1)] by (simp add: s')
    next
      case False
      then show ?thesis using q kc ko familyD(3) [OF ok, of q] by (cases "q = c") (auto simp: s')
    qed
  next
    fix d assume d: "d \<in> insert c L" "p_parent s' d \<in> insert c L"
    show "d \<in> kids s' (p_parent s' d)"
    proof (cases "d = c")
      case True
      then show ?thesis using kp by (simp add: s')
    next
      case False
      then have d': "d \<in> L" "p_parent s d \<in> L" using d par by (auto simp: s')
      then have "d \<in> kids s (p_parent s d)" by (rule familyD(4) [OF ok])
      then show ?thesis using False d' kp ko [of "p_parent s d"] par by (cases "p_parent s d = p") (auto simp: s')
    qed
  next
    fix d assume d: "d \<in> insert c L" "p_parent s' d \<notin> insert c L" "p_parent s' d \<noteq> kproc s'"
    then have "d \<noteq> c" using p(1) by (auto simp: s')
    then have "d \<in> L" "p_parent s d \<notin> L" "p_parent s d \<noteq> kproc s" using d by (auto simp: s')
    then show "p_parent s' d \<notin> live s'" using familyD(5) [OF ok, of d] \<open>d \<noteq> c\<close> by (simp add: s')
  next
    fix d assume d: "d \<in> insert c L"
    show "pt_p_termed s' (entry s' d) \<longleftrightarrow> p_parent s' d \<notin> insert (kproc s') (insert c L)"
    proof (cases "d = c")
      case True
      then show ?thesis using p(1) ent(2) by (simp add: s')
    next
      case False
      then have "d \<in> L" using d by simp
      then show ?thesis using familyD(6) [OF ok, of d] False ent(1) par by (simp add: s')
    qed
  qed
qed

section \<open>exit\<close>

lemma entry_inj:
  assumes "slots_ok s L" and "p \<in> L" and "q \<in> L" and "entry s p = entry s q"
  shows "p = q"
  using slotsD(2) [OF assms(1,2)] slotsD(2) [OF assms(1,3)] assms(4) by metis

lemma slot_entry:
  assumes "slots_ok s L" and "p \<in> L"
  shows "slot (Global_Proc_Table s) (pid s p) = Some (entry s p)"
proof -
  have "0 \<le> pid s p" "nat (pid s p) < MAX_PROCS" using slotsD(2) [OF assms] by simp_all
  then have "0 \<le> pid s p \<and> pid s p < int MAX_PROCS" by linarith
  then show ?thesis using slotsD(1) [OF assms(1)] by (simp add: slot_def entry_def)
qed

lemma orphan_children_eq:
  assumes "\<forall>c\<in>set cs - {0}. c \<in> live s \<and> slot (Global_Proc_Table s) (pid s c) = Some (entry s c) \<and> entry s c \<noteq> 0"
  shows "orphan_children cs s = Some (s\<lparr>pt_p_termed := (\<lambda>x. x \<in> entry s ` (set cs - {0}) \<or> pt_p_termed s x)\<rparr>)"
  using assms
proof (induction cs arbitrary: s)
  case (Cons c cs)
  show ?case
  proof (cases "c = 0")
    case True
    then show ?thesis using Cons by simp
  next
    case False
    let ?s = "s\<lparr>pt_p_termed := (pt_p_termed s)(entry s c := True)\<rparr>"
    have e: "entry ?s d = entry s d" for d by (simp add: entry_def)
    have "orphan_children cs ?s = Some (?s\<lparr>pt_p_termed := (\<lambda>x. x \<in> entry ?s ` (set cs - {0}) \<or> pt_p_termed ?s x)\<rparr>)"
      using Cons.prems by (intro Cons.IH) (simp add: e)
    moreover have "(\<lambda>x. x \<in> entry ?s ` (set cs - {0}) \<or> pt_p_termed ?s x) = (\<lambda>x. x \<in> entry s ` (set (c # cs) - {0}) \<or> pt_p_termed s x)"
      using False by (auto simp: e fun_eq_iff)
    ultimately show ?thesis using False Cons.prems by simp
  qed
qed simp

lemma remove_child:
  assumes "j < length xs" and "xs ! j = c" and "c \<noteq> 0" and "distinct (filter ((\<noteq>) 0) xs)"
  shows "distinct (filter ((\<noteq>) 0) (xs[j := 0]))" "set (xs[j := 0]) - {0} = set xs - {0} - {c :: nat}"
proof -
  have x: "xs = take j xs @ c # drop (Suc j) xs" using id_take_nth_drop [OF assms(1)] assms(2) by simp
  have u: "xs[j := 0] = take j xs @ 0 # drop (Suc j) xs" using assms(1) by (rule upd_conv_take_nth_drop)
  have "distinct (filter ((\<noteq>) 0) (take j xs @ c # drop (Suc j) xs))" using assms(4) x by simp
  then have d: "distinct (filter ((\<noteq>) 0) (take j xs @ drop (Suc j) xs))" "c \<notin> set (take j xs)" "c \<notin> set (drop (Suc j) xs)" using assms(3) by auto
  show "distinct (filter ((\<noteq>) 0) (xs[j := 0]))" unfolding u using d(1) by simp
  have "set xs = insert c (set (take j xs) \<union> set (drop (Suc j) xs))" by (subst x) simp
  then show "set (xs[j := 0]) - {0} = set xs - {0} - {c}" unfolding u using d(2,3) assms(3) by auto
qed

definition exited :: "addr \<Rightarrow> int \<Rightarrow> 'd procs \<Rightarrow> 'd procs \<Rightarrow> bool" where
  "exited p code s s' \<longleftrightarrow> Global_Proc_Table s' = Global_Proc_Table s \<and> pid s' = pid s \<and> pt_pcb s' = pt_pcb s
     \<and> pt_termed s' = (pt_termed s)(entry s p := True) \<and> pt_exitcode s' = (pt_exitcode s)(entry s p := code)
     \<and> (\<forall>x. pt_p_termed s' x \<longleftrightarrow> x \<in> entry s ` kids s p \<or> pt_p_termed s x) \<and> p_parent s' = p_parent s \<and> p_num_childs s' = p_num_childs s
     \<and> GLOBAL_PROC_COUNT s' = GLOBAL_PROC_COUNT s \<and> kproc s' = kproc s \<and> live s' = live s - {p} \<and> ticks s' = ticks s
     \<and> (\<forall>q. q \<noteq> p_parent s p \<longrightarrow> p_childs s' q = p_childs s q) \<and> length (p_childs s' (p_parent s p)) = length (p_childs s (p_parent s p))
     \<and> distinct (filter ((\<noteq>) 0) (p_childs s' (p_parent s p))) \<and> kids s' (p_parent s p) = kids s (p_parent s p) - {p}"

lemma exit_marks_eq:
  assumes sl: "slots_ok s L" and fm: "family_ok s L" and me: "memory_ok s L" and p: "p \<in> L"
  shows "exit_marks code (as_proc p s) = Some (entry s p, (as_proc p s)\<lparr>pt_termed := (pt_termed s)(entry s p := True),
    pt_exitcode := (pt_exitcode s)(entry s p := code), pt_p_termed := (\<lambda>x. x \<in> entry s ` kids s p \<or> pt_p_termed s x)\<rparr>)"
proof -
  let ?s = "(as_proc p s)\<lparr>pt_termed := (pt_termed s)(entry s p := True), pt_exitcode := (pt_exitcode s)(entry s p := code)\<rparr>"
  have e: "entry ?s d = entry s d" for d by (simp add: entry_def)
  have k: "c \<in> L" if "c \<in> kids s p" for c using familyD(2) [OF fm, of p c] p that by simp
  have "\<forall>c\<in>set (p_childs s p) - {0}. c \<in> live ?s \<and> slot (Global_Proc_Table ?s) (pid ?s c) = Some (entry ?s c) \<and> entry ?s c \<noteq> 0"
  proof
    fix c assume "c \<in> set (p_childs s p) - {0}"
    then have c: "c \<in> L" using k by (simp add: kids_def)
    then have "c \<in> live s" using me by (auto simp: memory_ok_def)
    then show "c \<in> live ?s \<and> slot (Global_Proc_Table ?s) (pid ?s c) = Some (entry ?s c) \<and> entry ?s c \<noteq> 0"
      using slot_entry [OF sl c] slotsD(2) [OF sl c] by (simp add: e)
  qed
  from orphan_children_eq [OF this] show ?thesis
    using slot_entry [OF sl p] slotsD(2) [OF sl p] by (simp add: exit_marks_def e kids_def)
qed

lemma exit_table_eq:
  assumes sl: "slots_ok s L" and fm: "family_ok s L" and me: "memory_ok s L" and p: "p \<in> L"
  shows "p_parent s p \<in> insert (kproc s) L \<Longrightarrow> \<exists>s'. exit_table p code s = Some (entry s p, s') \<and> exited p code s s'"
    and "p_parent s p \<notin> insert (kproc s) L \<Longrightarrow> exit_table p code s = None"
proof -
  let ?par = "p_parent s p" and ?e = "entry s p"
  let ?s = "(as_proc p s)\<lparr>pt_termed := (pt_termed s)(?e := True), pt_exitcode := (pt_exitcode s)(?e := code),
    pt_p_termed := (\<lambda>x. x \<in> entry s ` kids s p \<or> pt_p_termed s x)\<rparr>"
  note ma = exit_marks_eq [OF assms]
  have cp: "curproc ?s = p" using as_proc_sel(1) [of p s] by (simp add: curproc_def)
  show "exit_table p code s = None" if "?par \<notin> insert (kproc s) L"
  proof -
    have "?par \<notin> live s" using familyD(5) [OF fm p] that by simp
    then show ?thesis by (simp add: exit_table_def ma exit_unlink_def cp Let_def)
  qed
  assume par: "?par \<in> insert (kproc s) L"
  have live: "?par \<in> live s" "p \<in> live s" using me par p by (auto simp: memory_ok_def)
  have self: "?e \<notin> entry s ` kids s p"
  proof
    assume "?e \<in> entry s ` kids s p"
    then obtain c where c: "c \<in> kids s p" "entry s c = ?e" by auto
    then have "c \<in> L" "c \<noteq> p" using familyD(2) [OF fm, of p c] p by simp_all
    then show False using entry_inj [OF sl _ p c(2)] by blast
  qed
  have np: "\<not> pt_p_termed s ?e" using familyD(6) [OF fm p] par by simp
  let ?u = "case first_idx (\<lambda>c. c = p) (p_childs s ?par) of None \<Rightarrow> ?s
      | Some j \<Rightarrow> ?s\<lparr>p_childs := (p_childs s)(?par := (p_childs s ?par)[j := 0])\<rparr>"
  have u: "exit_unlink ?e ?s = Some ?u" using self np live(1) by (simp add: exit_unlink_def cp Let_def split: option.splits)
  let ?t = "?u\<lparr>live := live s - {p}\<rparr>"
  have "live ?u = live s" by (simp split: option.splits)
  then have x: "exit_table p code s = Some (?e, ?t)" using live(2) me p by (auto simp: exit_table_def ma u kfree_def memory_ok_def kmem_ok_def)
  have C: "length (p_childs s ?par) = MAX_CHILDS" "distinct (filter ((\<noteq>) 0) (p_childs s ?par))" using familyD(1) [OF fm par] by simp_all
  have p0: "p \<noteq> 0" using me p by (auto simp: memory_ok_def kmem_ok_def)
  have "exited p code s ?t"
  proof (cases "first_idx (\<lambda>c. c = p) (p_childs s ?par)")
    case None
    then have "p \<notin> set (p_childs s ?par)" by (simp add: first_idx_None) blast
    then have "kids s ?par - {p} = kids s ?par" by (auto simp: kids_def)
    then show ?thesis using None C(2) by (simp add: exited_def kids_def)
  next
    case (Some j)
    then have j: "j < length (p_childs s ?par)" "p_childs s ?par ! j = p" by (simp_all add: first_idx_Some)
    show ?thesis using Some remove_child [OF j p0 C(2)] by (simp add: exited_def kids_def)
  qed
  with x show "\<exists>s'. exit_table p code s = Some (?e, s') \<and> exited p code s s'" by blast
qed

lemma exitedD:
  assumes "exited p code s s'"
  shows "Global_Proc_Table s' = Global_Proc_Table s" "pid s' = pid s" "pt_pcb s' = pt_pcb s" "pt_termed s' = (pt_termed s)(entry s p := True)"
    "pt_exitcode s' = (pt_exitcode s)(entry s p := code)" "pt_p_termed s' x \<longleftrightarrow> x \<in> entry s ` kids s p \<or> pt_p_termed s x" "p_parent s' = p_parent s"
    "p_num_childs s' = p_num_childs s" "GLOBAL_PROC_COUNT s' = GLOBAL_PROC_COUNT s" "kproc s' = kproc s" "live s' = live s - {p}" "ticks s' = ticks s"
    "length (p_childs s' (p_parent s p)) = length (p_childs s (p_parent s p))" "distinct (filter ((\<noteq>) 0) (p_childs s' (p_parent s p)))"
    "q \<noteq> p_parent s p \<Longrightarrow> p_childs s' q = p_childs s q" "kids s' (p_parent s p) = kids s (p_parent s p) - {p}"
    "q \<noteq> p_parent s p \<Longrightarrow> kids s' q = kids s q" "entry s' = entry s"
  using assms unfolding exited_def by (simp_all add: kids_def entry_def fun_eq_iff)

lemma exit_slots:
  assumes ok: "slots_ok s L" and x: "exited p code s s'" and p: "p \<in> L"
  shows "slots_ok s' (L - {p})"
proof (rule slotsI)
  note s' = exitedD(1-5,9,18) [OF x]
  show "length (Global_Proc_Table s') = MAX_PROCS" using slotsD(1) [OF ok] by (simp add: s')
  show "0 \<le> pid s' q \<and> pid s' q < int MAX_PROCS \<and> entry s' q \<noteq> 0 \<and> pt_pcb s' (entry s' q) = q \<and> \<not> pt_termed s' (entry s' q)" if "q \<in> L - {p}" for q
  proof -
    have "entry s q \<noteq> entry s p" using entry_inj [OF ok _ p, of q] that by auto
    moreover have "pid s q < int MAX_PROCS" using slotsD(2) [OF ok, of q] that by auto
    ultimately show ?thesis using slotsD(2) [OF ok, of q] that by (simp add: s')
  qed
  show "i = k" if "i < MAX_PROCS" "k < MAX_PROCS" "Global_Proc_Table s' ! i \<noteq> 0" "Global_Proc_Table s' ! i = Global_Proc_Table s' ! k" for i k
    using that slotsD(3) [OF ok that(1,2)] by (simp add: s')
  show "pt_pcb s' (Global_Proc_Table s' ! i) \<in> L - {p} \<and> pid s' (pt_pcb s' (Global_Proc_Table s' ! i)) = int i"
    if i: "i < MAX_PROCS" "Global_Proc_Table s' ! i \<noteq> 0" "\<not> pt_termed s' (Global_Proc_Table s' ! i)" for i
  proof -
    have ne: "Global_Proc_Table s ! i \<noteq> entry s p" "\<not> pt_termed s (Global_Proc_Table s ! i)" using i(3) by (auto simp: s' split: if_splits)
    then have o: "pt_pcb s (Global_Proc_Table s ! i) \<in> L \<and> pid s (pt_pcb s (Global_Proc_Table s ! i)) = int i" using slotsD(4) [OF ok i(1)] i(2) by (simp add: s')
    have "pt_pcb s (Global_Proc_Table s ! i) \<noteq> p"
    proof
      assume "pt_pcb s (Global_Proc_Table s ! i) = p"
      then have "entry s p = Global_Proc_Table s ! i" using o by (simp add: entry_def)
      then show False using ne(1) by simp
    qed
    then show ?thesis using o by (simp add: s')
  qed
  show "card {i. i < MAX_PROCS \<and> Global_Proc_Table s' ! i \<noteq> 0} \<le> GLOBAL_PROC_COUNT s'" "GLOBAL_PROC_COUNT s' \<le> MAX_PROCS"
    using slotsD(5,6) [OF ok] by (simp_all add: s')
qed

lemma exit_family:
  assumes sl: "slots_ok s L" and ok: "family_ok s L" and x: "exited p code s s'" and p: "p \<in> L" and par: "p_parent s p \<in> insert (kproc s) L" and k: "kproc s \<notin> L"
  shows "family_ok s' (L - {p})"
proof (rule familyI)
  let ?par = "p_parent s p"
  note s' = exitedD(4-8,10,11,18) [OF x]
  have kid: "kids s' q \<subseteq> kids s q" "p \<notin> kids s' q" if "q \<in> insert (kproc s) L" for q
  proof -
    show "kids s' q \<subseteq> kids s q" using exitedD(16,17) [OF x] by (cases "q = ?par") auto
    have "p \<notin> kids s q" if "q \<noteq> ?par" using familyD(2) [OF ok \<open>q \<in> insert (kproc s) L\<close>, of p] that by blast
    then show "p \<notin> kids s' q" using exitedD(16,17) [OF x] by (cases "q = ?par") auto
  qed
  have keep: "c \<in> kids s' q" if "c \<in> kids s q" "c \<noteq> p" for c q
    using exitedD(16,17) [OF x] that by (cases "q = ?par") auto
  show "length (p_childs s' q) = MAX_CHILDS \<and> distinct (filter ((\<noteq>) 0) (p_childs s' q))" if "q \<in> insert (kproc s') (L - {p})" for q
    using that familyD(1) [OF ok, of q] exitedD(13-15) [OF x] by (cases "q = ?par") (auto simp: s')
  show "c \<in> L - {p} \<and> p_parent s' c = q \<and> c \<noteq> q" if "q \<in> insert (kproc s') (L - {p})" "c \<in> kids s' q" for q c
  proof -
    have q: "q \<in> insert (kproc s) L" using that(1) by (auto simp: s')
    then have "c \<in> kids s q" "c \<noteq> p" using kid [OF q] that(2) by auto
    then show ?thesis using familyD(2) [OF ok q] by (simp add: s')
  qed
  show "card (kids s' q) \<le> p_num_childs s' q \<and> p_num_childs s' q \<le> MAX_CHILDS" if "q \<in> L - {p}" for q
  proof -
    have "card (kids s' q) \<le> card (kids s q)" using kid(1) [of q] that by (intro card_mono) (auto simp: kids_def)
    then show ?thesis using familyD(3) [OF ok, of q] that by (simp add: s')
  qed
  show "c \<in> kids s' (p_parent s' c)" if "c \<in> L - {p}" "p_parent s' c \<in> L - {p}" for c
    using familyD(4) [OF ok, of c] that keep by (simp add: s')
  show "p_parent s' c \<notin> live s'" if "c \<in> L - {p}" "p_parent s' c \<notin> L - {p}" "p_parent s' c \<noteq> kproc s'" for c
    using familyD(5) [OF ok, of c] that by (cases "p_parent s c = p") (auto simp: s')
  show "pt_p_termed s' (entry s' c) \<longleftrightarrow> p_parent s' c \<notin> insert (kproc s') (L - {p})" if c: "c \<in> L - {p}" for c
  proof -
    have cL: "c \<in> L" using c by simp
    have "entry s c \<in> entry s ` kids s p \<longleftrightarrow> c \<in> kids s p"
      using entry_inj [OF sl cL] familyD(2) [OF ok, of p] p by blast
    also have "c \<in> kids s p \<longleftrightarrow> p_parent s c = p"
      using familyD(2) [OF ok, of p c] familyD(4) [OF ok cL] p by auto
    finally show ?thesis using familyD(6) [OF ok cL] k p by (auto simp: s' exitedD(6) [OF x])
  qed
qed

lemma exit_memory:
  assumes "memory_ok s L" and "exited p code s s'" and "p \<in> L"
  shows "memory_ok s' (L - {p})"
  using assms(1,3) exitedD [OF assms(2)] by (auto simp: memory_ok_def kmem_ok_def)

lemma exit_waiters:
  assumes sl: "slots_ok s L" and fm: "family_ok s L" and me: "memory_ok s L" and wa: "waiters_ok m" and x: "exited p code s s'" and p: "running m p"
    and m: "pm m = s" "pm_live m = L"
  shows "waiters_ok (wake_sleepers (entry s p) (m\<lparr>pm := s', pm_live := L - {p}, pm_code := (pm_code m)(entry s p := Some code)\<rparr>))"
proof -
  let ?e = "entry s p" and ?m = "wake_sleepers (entry s p) (m\<lparr>pm := s', pm_live := L - {p}, pm_code := (pm_code m)(entry s p := Some code)\<rparr>)"
  note s' = exitedD(1,2,4,5,18) [OF x]
  have pL: "p \<in> L" "pm_sleep m p = None" "pm_woken m p = None" using p m by (simp_all add: running_def)
  have S: "q \<in> L" "pm_woken m q = None" "0 < t" "\<exists>c\<in>kids s q. pid s c = t \<and> entry s c = e" if "pm_sleep m q = Some (t, st, e)" for q t st e
    using wa that m unfolding waiters_ok_def Let_def by blast+
  have K: "q \<in> L" "0 < t" "t < int MAX_PROCS" "Global_Proc_Table s ! nat t = e" "e \<noteq> 0" "pt_termed s e" if "pm_woken m q = Some (t, st, e)" for q t st e
    using wa that m unfolding waiters_ok_def Let_def by blast+
  have U: "q = r" if "pm_woken m q = Some (t, st, e)" "pm_woken m r = Some (t, st', e')" for q r t st st' e e'
    using wa that unfolding waiters_ok_def Let_def by blast
  have E: "pm_code m (Global_Proc_Table s ! i) = Some (pt_exitcode s (Global_Proc_Table s ! i))"
    if "i < MAX_PROCS" "Global_Proc_Table s ! i \<noteq> 0" "pt_termed s (Global_Proc_Table s ! i)" for i
    using wa that m unfolding waiters_ok_def Let_def by blast
  text \<open>A process that sleeps on the entry of \<open>p\<close> is its parent.\<close>
  have par: "q = p_parent s p \<and> t = pid s p" if h: "pm_sleep m q = Some (t, st, ?e)" for q t st
  proof -
    obtain c where c: "c \<in> kids s q" "pid s c = t" "entry s c = ?e" using S(4) [OF h] by blast
    have "c \<in> L" "p_parent s c = q" using familyD(2) [OF fm, of q c] S(1) [OF h] c(1) by simp_all
    then show ?thesis using entry_inj [OF sl _ pL(1) c(3)] c(2) by auto
  qed
  have sleep: "pm_sleep ?m q = Some (t, st, e) \<longleftrightarrow> pm_sleep m q = Some (t, st, e) \<and> e \<noteq> ?e" for q t st e
    by (auto simp: wake_sleepers_def split: option.splits if_splits)
  have woken: "pm_woken ?m q = Some (t, st, e) \<longleftrightarrow> pm_sleep m q = Some (t, st, e) \<and> e = ?e \<or> pm_woken m q = Some (t, st, e)" for q t st e
    using S(2) by (auto simp: wake_sleepers_def split: option.splits if_splits)
  have ep: "Global_Proc_Table s ! nat (pid s p) = ?e" "?e \<noteq> 0" "\<not> pt_termed s ?e" "nat (pid s p) < MAX_PROCS" "0 \<le> pid s p"
    using slotsD(2) [OF sl pL(1)] by (simp_all add: entry_def)
  show ?thesis
    unfolding waiters_ok_def Let_def
  proof (intro conjI allI impI)
    fix q t st e assume q: "pm_sleep ?m q = Some (t, st, e)"
    then have q': "pm_sleep m q = Some (t, st, e)" "e \<noteq> ?e" by (simp_all add: sleep)
    then show "q \<in> pm_live ?m" using S(1) [OF q'(1)] pL(2) by (auto simp: wake_sleepers_def)
    show "0 < t" using S(3) [OF q'(1)] .
    show "pm_woken ?m q = None"
    proof (rule ccontr)
      assume "pm_woken ?m q \<noteq> None"
      then obtain a b c where "pm_woken ?m q = Some (a, b, c)" by (cases "pm_woken ?m q") auto
      then show False using q' S(2) [OF q'(1)] by (simp add: woken)
    qed
    obtain c where c: "c \<in> kids s q" "pid s c = t" "entry s c = e" using S(4) [OF q'(1)] by blast
    then have "c \<noteq> p" using q'(2) by blast
    then have "c \<in> kids s' q" using c(1) exitedD(16,17) [OF x] by (cases "q = p_parent s p") auto
    then show "\<exists>c\<in>kids (pm ?m) q. pid (pm ?m) c = t \<and> entry (pm ?m) c = e" using c by (auto simp: wake_sleepers_def s')
  next
    fix q t st e assume q: "pm_woken ?m q = Some (t, st, e)"
    then consider "pm_sleep m q = Some (t, st, ?e)" "e = ?e" | "pm_woken m q = Some (t, st, e)" by (auto simp: woken)
    then have "q \<in> L \<and> q \<noteq> p \<and> 0 < t \<and> t < int MAX_PROCS \<and> Global_Proc_Table s ! nat t = e \<and> e \<noteq> 0 \<and> pt_termed s' e"
    proof cases
      case 1
      then show ?thesis using S(1,3) [OF 1(1)] par [OF 1(1)] ep pL by (auto simp: s')
    next
      case 2
      then show ?thesis using K [OF 2] pL by (auto simp: s')
    qed
    then show "q \<in> pm_live ?m" "0 < t" "t < int MAX_PROCS" "Global_Proc_Table (pm ?m) ! nat t = e" "e \<noteq> 0" "pt_termed (pm ?m) e"
      by (simp_all add: wake_sleepers_def s')
  next
    fix q r t st st' e e' assume qr: "pm_woken ?m q = Some (t, st, e) \<and> pm_woken ?m r = Some (t, st', e')"
    have mix: False if "pm_sleep m a = Some (t, b, ?e)" "pm_woken m c = Some (t, d, f)" for a b c d f
      using par [OF that(1)] K(4,6) [OF that(2)] ep by simp
    show "q = r" using qr par mix U unfolding woken by metis
  next
    fix i assume i: "i < MAX_PROCS" "Global_Proc_Table (pm ?m) ! i \<noteq> 0 \<and> pt_termed (pm ?m) (Global_Proc_Table (pm ?m) ! i)"
    show "pm_code ?m (Global_Proc_Table (pm ?m) ! i) = Some (pt_exitcode (pm ?m) (Global_Proc_Table (pm ?m) ! i))"
      using i E [OF i(1)] by (auto simp: wake_sleepers_def s')
  qed
qed

section \<open>waitpid\<close>

lemma find_child_eq:
  "\<forall>c\<in>set cs - {0}. c \<in> live s \<Longrightarrow> find_child cs t s = Some (\<exists>c\<in>set cs - {0}. pid s c = t)"
  by (induction cs) auto

lemma wait_target_eq:
  assumes sl: "slots_ok s L" and fm: "family_ok s L" and me: "memory_ok s L" and p: "p \<in> L" and t: "0 < t" "t < int MAX_PROCS"
  shows "wait_target t (as_proc p s) = Some (if Global_Proc_Table s ! nat t = 0 then Inl ESRCH
    else if \<exists>c\<in>kids s p. pid s c = t then Inr (Global_Proc_Table s ! nat t) else Inl ECHILD)"
proof -
  have "c \<in> live s" if "c \<in> set (p_childs s p) - {0}" for c
    using familyD(2) [OF fm, of p c] p that me by (auto simp: kids_def memory_ok_def)
  then have "find_child (p_childs s p) t (as_proc p s) = Some (\<exists>c\<in>kids s p. pid s c = t)"
    using find_child_eq [of "p_childs s p" "as_proc p s" t] by (simp add: kids_def)
  then show ?thesis using t slotsD(1) [OF sl] by (simp add: wait_target_def slot_def)
qed

lemma kid_entry:
  assumes sl: "slots_ok s L" and fm: "family_ok s L" and p: "p \<in> L" and c: "c \<in> kids s p" "pid s c = t"
  shows "c \<in> L" "entry s c = Global_Proc_Table s ! nat t" "\<not> pt_termed s (Global_Proc_Table s ! nat t)" "Global_Proc_Table s ! nat t \<noteq> 0"
proof -
  show c': "c \<in> L" using familyD(2) [OF fm, of p c] p c(1) by simp
  show e: "entry s c = Global_Proc_Table s ! nat t" using c(2) by (simp add: entry_def)
  show "\<not> pt_termed s (Global_Proc_Table s ! nat t)" "Global_Proc_Table s ! nat t \<noteq> 0" using slotsD(2) [OF sl c'] e by simp_all
qed

text \<open>A child of the caller has not ended: a child that ends is taken off the list.\<close>

lemma wait_target_live:
  assumes "slots_ok s L" and "family_ok s L" and "memory_ok s L" and "p \<in> L" and "0 < t" and "wait_target t (as_proc p s) = Some (Inr e)"
  shows "\<not> pt_termed s e" "\<exists>c\<in>kids s p. pid s c = t \<and> entry s c = e"
proof -
  have t: "t < int MAX_PROCS" using assms(5,6) slotsD(1) [OF assms(1)] by (auto simp: wait_target_def slot_def split: if_splits)
  have "\<exists>c\<in>kids s p. pid s c = t" "e = Global_Proc_Table s ! nat t"
    using assms(6) wait_target_eq [OF assms(1-5) t] by (auto split: if_splits)
  then show "\<not> pt_termed s e" "\<exists>c\<in>kids s p. pid s c = t \<and> entry s c = e" using kid_entry [OF assms(1,2,4)] by blast+
qed

lemma wait_reap_eq:
  assumes "pt_termed s e"
  shows "\<exists>u. wait_reap a t 0 e s = Some (Inr t, s\<lparr>Global_Proc_Table := (Global_Proc_Table s)[nat t := 0]\<rparr>)
    \<and> (wait_reap a t st e s = Some (Inr t, s\<lparr>user_mem := u, Global_Proc_Table := (Global_Proc_Table s)[nat t := 0]\<rparr>)
      \<or> wait_reap a t st e s = Some (Inl EFAULT, s\<lparr>user_mem := u\<rparr>))"
proof -
  let ?um = "(user_mem s)\<lparr>bytes := put_bytes_at a (int_bytes (pt_exitcode s e)) (bytes (user_mem s))\<rparr>"
  have n: "wait_reap a t 0 e s = Some (Inr t, s\<lparr>Global_Proc_Table := (Global_Proc_Table s)[nat t := 0]\<rparr>)" using assms by (simp add: wait_reap_def)
  show ?thesis
  proof (cases "st = 0")
    case True
    have "s\<lparr>Global_Proc_Table := (Global_Proc_Table s)[nat t := 0]\<rparr> = s\<lparr>user_mem := user_mem s, Global_Proc_Table := (Global_Proc_Table s)[nat t := 0]\<rparr>" by simp
    then show ?thesis using n True by metis
  next
    case False
    obtain r u where r: "copyout a st 4 ?um = (r, u)" by (cases "copyout a st 4 ?um")
    have "r = Inr () \<or> r = Inl EFAULT" using r copycheck_EFAULT [of st 4] by (auto simp: copyout_def Let_def split: sum.splits if_splits prod.splits)
    then have "wait_reap a t st e s = Some (Inr t, s\<lparr>user_mem := u, Global_Proc_Table := (Global_Proc_Table s)[nat t := 0]\<rparr>)
        \<or> wait_reap a t st e s = Some (Inl EFAULT, s\<lparr>user_mem := u\<rparr>)"
      using assms False r by (auto simp: wait_reap_def Let_def)
    then show ?thesis using n by blast
  qed
qed

text \<open>The \<open>int\<close> that a process reads at an address, most significant byte first.\<close>

definition int_at :: "memory \<Rightarrow> nat \<Rightarrow> int" where
  "int_at m a = s32 (uint (m a) * 2 ^ 24 + uint (m (a + 1)) * 2 ^ 16 + uint (m (a + 2)) * 2 ^ 8 + uint (m (a + 3)))"

lemma four_bytes:
  assumes "0 < (B::int)"
  shows "(x div (B * B * B) mod B) * (B * B * B) + (x div (B * B) mod B) * (B * B) + (x div B mod B) * B + x mod B = x mod (B * B * B * B)"
proof -
  have a: "x mod (B * B * B * B) = B * B * B * (x div (B * B * B) mod B) + x mod (B * B * B)" using assms by (intro zmod_zmult2_eq) simp
  have b: "x mod (B * B * B) = B * B * (x div (B * B) mod B) + x mod (B * B)" using assms by (intro zmod_zmult2_eq) simp
  have c: "x mod (B * B) = B * (x div B mod B) + x mod B" using assms by (intro zmod_zmult2_eq) simp
  show ?thesis unfolding a b c by (simp add: mult.commute)
qed

lemma int_bytes_read:
  assumes "\<forall>i<4. m (a + i) = int_bytes x ! i"
  shows "int_at m a = s32 x"
proof -
  have b: "m a = word_of_int (x div 2 ^ 24)" "m (a + 1) = word_of_int (x div 2 ^ 16)" "m (a + 2) = word_of_int (x div 2 ^ 8)" "m (a + 3) = word_of_int x"
    using assms [rule_format, of 0] assms [rule_format, of 1] assms [rule_format, of 2] assms [rule_format, of 3] by (simp_all add: int_bytes_def)
  have u: "uint (word_of_int y :: byte) = y mod 256" for y by (simp add: uint_word_of_int)
  have p: "(2::int) ^ 24 = 16777216" "(2::int) ^ 16 = 65536" "(2::int) ^ 8 = 256" by simp_all
  have f: "(x div 16777216 mod 256) * 16777216 + (x div 65536 mod 256) * 65536 + (x div 256 mod 256) * 256 + x mod 256 = x mod 4294967296"
    by (rule four_bytes [of 256 x, simplified])
  have "int_at m a = s32 (x mod 4294967296)" unfolding int_at_def b u unfolding p f ..
  moreover have "s32 (x mod 4294967296) = s32 x" by (simp add: s32_def mod_simps)
  ultimately show ?thesis by simp
qed

lemma put_bytes_frame: "b < a \<Longrightarrow> put_bytes_at a bs m b = m b"
  by (simp add: put_bytes_at_def)

text \<open>The reap with a status pointer: the exit code goes to the caller's memory, or the entry stays.\<close>

lemma wait_reap_copies:
  assumes "pt_termed s e" and "0 < st" and "st < 4294967296" and "USERSPACETOP \<le> a"
  shows "\<exists>r s'. wait_reap a t st e s = Some (r, s')
    \<and> (if st + 4 \<le> USERSPACETOP \<and> accessible (user_mem s) st a 4
       then r = Inr t \<and> Global_Proc_Table s' = (Global_Proc_Table s)[nat t := 0] \<and> int_at (bytes (user_mem s')) st = s32 (pt_exitcode s e)
       else r = Inl EFAULT \<and> Global_Proc_Table s' = Global_Proc_Table s)
    \<and> (\<forall>b<USERSPACETOP. b < st \<or> st + 4 \<le> b \<longrightarrow> bytes (user_mem s') b = bytes (user_mem s) b)"
proof -
  let ?bs = "int_bytes (pt_exitcode s e)"
  let ?um = "(user_mem s)\<lparr>bytes := put_bytes_at a ?bs (bytes (user_mem s))\<rparr>"
  let ?r = "fst (copyout a st 4 ?um)" and ?u = "snd (copyout a st 4 ?um)"
  have acc: "accessible ?um st a 4 = accessible (user_mem s) st a 4" by (simp add: accessible_def)
  have spec: "?r = (if st + 4 \<le> USERSPACETOP \<and> accessible (user_mem s) st a 4 then Inr () else Inl EFAULT)"
      "?r = Inr () \<longrightarrow> (\<forall>i<4. bytes ?u (st + i) = put_bytes_at a ?bs (bytes (user_mem s)) (a + i))"
      "\<forall>b. b < st \<or> st + 4 \<le> b \<longrightarrow> bytes ?u b = put_bytes_at a ?bs (bytes (user_mem s)) b"
    using copyout_spec [OF assms(3) _ assms(4), of 4 ?um] acc by simp_all
  have len: "length ?bs = 4" by (simp add: int_bytes_def)
  have frame: "\<forall>b<USERSPACETOP. b < st \<or> st + 4 \<le> b \<longrightarrow> bytes ?u b = bytes (user_mem s) b"
    using spec(3) assms(4) put_bytes_frame [of _ a] by (metis less_le_trans)
  have eq: "wait_reap a t st e s = (case ?r of Inl x \<Rightarrow> Some (Inl x, s\<lparr>user_mem := ?u\<rparr>)
      | Inr _ \<Rightarrow> Some (Inr t, s\<lparr>user_mem := ?u, Global_Proc_Table := (Global_Proc_Table s)[nat t := 0]\<rparr>))"
    using assms(1,2) by (simp add: wait_reap_def Let_def case_prod_beta split: sum.split)
  show ?thesis
  proof (cases "st + 4 \<le> USERSPACETOP \<and> accessible (user_mem s) st a 4")
    case True
    then have "\<forall>i<4. bytes ?u (st + i) = ?bs ! i" using spec(1,2) len by (simp add: put_bytes_at_def)
    then have "int_at (bytes ?u) st = s32 (pt_exitcode s e)" by (rule int_bytes_read)
    then show ?thesis using True eq spec(1) frame by simp
  next
    case False
    then show ?thesis using eq spec(1) frame by auto
  qed
qed

lemma reap_keeps:
  assumes ok: "ptable_ok m" and w: "pm_woken m q = Some (t, st, e)"
  shows "ptable_ok (m\<lparr>pm := (pm m)\<lparr>user_mem := u\<rparr>, pm_woken := (pm_woken m)(q := None)\<rparr>)"
    and "ptable_ok (m\<lparr>pm := (pm m)\<lparr>user_mem := u, Global_Proc_Table := (Global_Proc_Table (pm m))[nat t := 0]\<rparr>, pm_woken := (pm_woken m)(q := None)\<rparr>)"
proof -
  let ?s = "pm m" and ?L = "pm_live m"
  let ?u = "?s\<lparr>user_mem := u\<rparr>"
  let ?s' = "?s\<lparr>user_mem := u, Global_Proc_Table := (Global_Proc_Table ?s)[nat t := 0]\<rparr>"
  let ?m = "m\<lparr>pm := ?s', pm_woken := (pm_woken m)(q := None)\<rparr>"
  let ?G = "Global_Proc_Table ?s"
  have sl: "slots_ok ?s ?L" and fm: "family_ok ?s ?L" and me: "memory_ok ?s ?L" and wa: "waiters_ok m" using ok by (simp_all add: ptable_ok_def)
  have k: "kids ?s' = kids ?s" "kids ?u = kids ?s" "entry ?u = entry ?s" by (simp_all add: kids_def entry_def fun_eq_iff)
  have S: "x \<in> ?L" "0 < t'" "pm_woken m x = None" "\<exists>c\<in>kids ?s x. pid ?s c = t' \<and> entry ?s c = e'" if "pm_sleep m x = Some (t', st', e')" for x t' st' e'
    using wa that unfolding waiters_ok_def Let_def by blast+
  have K: "x \<in> ?L" "0 < t'" "t' < int MAX_PROCS" "?G ! nat t' = e'" "e' \<noteq> 0" "pt_termed ?s e'" if "pm_woken m x = Some (t', st', e')" for x t' st' e'
    using wa that unfolding waiters_ok_def Let_def by blast+
  have U: "x = r" if "pm_woken m x = Some (t', a, b)" "pm_woken m r = Some (t', a', b')" for x r t' a a' b b'
    using wa that unfolding waiters_ok_def Let_def by blast
  have E: "pm_code m (?G ! i) = Some (pt_exitcode ?s (?G ! i))" if "i < MAX_PROCS" "?G ! i \<noteq> 0" "pt_termed ?s (?G ! i)" for i
    using wa that unfolding waiters_ok_def Let_def by blast
  show "ptable_ok (m\<lparr>pm := ?u, pm_woken := (pm_woken m)(q := None)\<rparr>)"
  proof -
    have "slots_ok ?u ?L" using sl by (simp add: slots_ok_def k)
    moreover have "family_ok ?u ?L" by (rule family_cong [OF fm]) (simp_all add: k)
    moreover have "memory_ok ?u ?L" using me by (simp add: memory_ok_def kmem_ok_def)
    moreover have "waiters_ok (m\<lparr>pm := ?u, pm_woken := (pm_woken m)(q := None)\<rparr>)"
      unfolding waiters_ok_def Let_def
      using S K U E by (intro conjI allI impI) (auto simp: k split: if_splits)
    ultimately show ?thesis by (simp add: ptable_ok_def)
  qed
  have t: "nat t < MAX_PROCS" "pt_termed ?s (?G ! nat t)" using K [OF w] by auto
  have live: "nat (pid ?s p) \<noteq> nat t" if "p \<in> ?L" for p
    using slotsD(2) [OF sl that] t(2) by (auto simp: entry_def)
  have ent: "entry ?s' p = entry ?s p" if "p \<in> ?L" for p using live [OF that] by (simp add: entry_def)
  have len: "length ?G = MAX_PROCS" by (rule slotsD(1) [OF sl])
  have G: "?G[nat t := 0] ! i = (if i = nat t then 0 else ?G ! i)" if "i < MAX_PROCS" for i using that len by simp
  have "slots_ok ?s' ?L"
  proof (rule slotsI)
    show "length (Global_Proc_Table ?s') = MAX_PROCS" using len by simp
    show "0 \<le> pid ?s' p \<and> pid ?s' p < int MAX_PROCS \<and> entry ?s' p \<noteq> 0 \<and> pt_pcb ?s' (entry ?s' p) = p \<and> \<not> pt_termed ?s' (entry ?s' p)" if "p \<in> ?L" for p
    proof -
      have "pid ?s p < int MAX_PROCS" using slotsD(2) [OF sl that] by auto
      then show ?thesis using slotsD(2) [OF sl that] ent [OF that] by simp
    qed
    show "i = l" if "i < MAX_PROCS" "l < MAX_PROCS" "Global_Proc_Table ?s' ! i \<noteq> 0" "Global_Proc_Table ?s' ! i = Global_Proc_Table ?s' ! l" for i l
      using that slotsD(3) [OF sl that(1,2)] by (auto simp: G split: if_splits)
    show "pt_pcb ?s' (Global_Proc_Table ?s' ! i) \<in> ?L \<and> pid ?s' (pt_pcb ?s' (Global_Proc_Table ?s' ! i)) = int i"
      if "i < MAX_PROCS" "Global_Proc_Table ?s' ! i \<noteq> 0" "\<not> pt_termed ?s' (Global_Proc_Table ?s' ! i)" for i
      using that slotsD(4) [OF sl that(1)] by (auto simp: G split: if_splits)
    have "{i. i < MAX_PROCS \<and> Global_Proc_Table ?s' ! i \<noteq> 0} \<subseteq> {i. i < MAX_PROCS \<and> ?G ! i \<noteq> 0}" by (auto simp: G split: if_splits)
    then have "card {i. i < MAX_PROCS \<and> Global_Proc_Table ?s' ! i \<noteq> 0} \<le> card {i. i < MAX_PROCS \<and> ?G ! i \<noteq> 0}" by (intro card_mono) simp_all
    then show "card {i. i < MAX_PROCS \<and> Global_Proc_Table ?s' ! i \<noteq> 0} \<le> GLOBAL_PROC_COUNT ?s'" using slotsD(5) [OF sl] by simp
    show "GLOBAL_PROC_COUNT ?s' \<le> MAX_PROCS" using slotsD(6) [OF sl] by simp
  qed
  moreover have "family_ok ?s' ?L" by (rule family_cong [OF fm]) (simp_all add: ent)
  moreover have "memory_ok ?s' ?L"
    using me set_update_subset_insert [of ?G "nat t" 0] by (auto simp: memory_ok_def kmem_ok_def)
  moreover have "waiters_ok ?m"
    unfolding waiters_ok_def Let_def
  proof (intro conjI allI impI)
    fix x t' st' e' assume x: "pm_sleep ?m x = Some (t', st', e')"
    then have x': "pm_sleep m x = Some (t', st', e')" by simp
    show "x \<in> pm_live ?m" "0 < t'" "pm_woken ?m x = None" using S [OF x'] by simp_all
    obtain c where c: "c \<in> kids ?s x" "pid ?s c = t'" "entry ?s c = e'" using S(4) [OF x'] by blast
    have "c \<in> ?L" using familyD(2) [OF fm, of x c] S(1) [OF x'] c(1) by simp
    then have "entry ?s' c = e'" using ent c(3) by simp
    then show "\<exists>c\<in>kids (pm ?m) x. pid (pm ?m) c = t' \<and> entry (pm ?m) c = e'" using c by (auto simp: k)
  next
    fix x t' st' e' assume "pm_woken ?m x = Some (t', st', e')"
    then have x: "pm_woken m x = Some (t', st', e')" "x \<noteq> q" by (simp_all split: if_splits)
    then have "t' \<noteq> t" using U [OF _ w] by blast
    then have "nat t' \<noteq> nat t" using K(2) [OF x(1)] K(2) [OF w] by simp
    then show "x \<in> pm_live ?m" "0 < t'" "t' < int MAX_PROCS" "Global_Proc_Table (pm ?m) ! nat t' = e'" "e' \<noteq> 0" "pt_termed (pm ?m) e'"
      using K [OF x(1)] by simp_all
  next
    fix x r t' a a' b b' assume "pm_woken ?m x = Some (t', a, b) \<and> pm_woken ?m r = Some (t', a', b')"
    then show "x = r" using U by (auto split: if_splits)
  next
    fix i assume i: "i < MAX_PROCS" "Global_Proc_Table (pm ?m) ! i \<noteq> 0 \<and> pt_termed (pm ?m) (Global_Proc_Table (pm ?m) ! i)"
    then show "pm_code ?m (Global_Proc_Table (pm ?m) ! i) = Some (pt_exitcode (pm ?m) (Global_Proc_Table (pm ?m) ! i))"
      using E [OF i(1)] by (auto simp: G split: if_splits)
  qed
  ultimately show "ptable_ok ?m" by (simp add: ptable_ok_def)
qed

section \<open>Every step keeps the invariant\<close>

lemma waitersD:
  assumes "waiters_ok m"
  shows "pm_sleep m q = Some (t, st, e) \<Longrightarrow> q \<in> pm_live m \<and> 0 < t \<and> pm_woken m q = None \<and> (\<exists>c\<in>kids (pm m) q. pid (pm m) c = t \<and> entry (pm m) c = e)"
    and "pm_woken m q = Some (t, st, e) \<Longrightarrow> q \<in> pm_live m \<and> 0 < t \<and> t < int MAX_PROCS \<and> Global_Proc_Table (pm m) ! nat t = e \<and> e \<noteq> 0 \<and> pt_termed (pm m) e"
    and "pm_woken m q = Some (t, st, e) \<Longrightarrow> pm_woken m r = Some (t, st', e') \<Longrightarrow> q = r"
    and "i < MAX_PROCS \<Longrightarrow> Global_Proc_Table (pm m) ! i \<noteq> 0 \<Longrightarrow> pt_termed (pm m) (Global_Proc_Table (pm m) ! i) \<Longrightarrow>
      pm_code m (Global_Proc_Table (pm m) ! i) = Some (pt_exitcode (pm m) (Global_Proc_Table (pm m) ! i))"
  using assms unfolding waiters_ok_def Let_def by blast+

lemma fork_keeps:
  assumes ok: "ptable_ok m" and r: "running m p" and num: "GLOBAL_PROC_COUNT (pm m) < MAX_PROCS" "p_num_childs (pm m) p < MAX_CHILDS"
    and al: "kmalloc (pm m) = (c, s1)" "c \<noteq> 0" "kmalloc s1 = (e, s2)" "e \<noteq> 0"
  shows "ptable_ok (m\<lparr>pm := fork_table p c e s2, pm_live := insert c (pm_live m)\<rparr>)"
    and "\<exists>i<MAX_PROCS. Global_Proc_Table (pm m) ! i = 0 \<and> pid (fork_table p c e s2) c = int i \<and> c \<in> kids (fork_table p c e s2) p"
proof -
  let ?s = "pm m" and ?L = "pm_live m" and ?n = "ticks (pm m)"
  have sl: "slots_ok ?s ?L" and fm: "family_ok ?s ?L" and me: "memory_ok ?s ?L" and wa: "waiters_ok m" using ok by (simp_all add: ptable_ok_def)
  have pL: "p \<in> ?L" using r by (simp add: running_def)
  have c: "c = Suc ?n" "e = Suc (Suc ?n)" "s2 = ?s\<lparr>ticks := Suc (Suc ?n), live := insert e (insert c (live ?s))\<rparr>"
    using al by (auto simp: kmalloc_def Let_def split: if_splits)
  have km: "\<forall>x\<in>live ?s. 0 < x \<and> x \<le> ?n" "?L \<subseteq> live ?s" "kproc ?s \<in> live ?s" "kproc ?s \<notin> ?L" "\<forall>x\<in>set (Global_Proc_Table ?s). x \<le> ?n"
    "\<forall>q\<in>?L. p_parent ?s q \<le> ?n"
    using me by (auto simp: memory_ok_def kmem_ok_def)
  have sl2: "slots_ok s2 ?L" unfolding c(3) using sl by (simp add: slots_ok_def entry_def)
  have e2: "entry s2 = entry ?s" "kids s2 = kids ?s" by (simp_all add: c(3) entry_def kids_def fun_eq_iff)
  have fm2: "family_ok s2 ?L"
  proof (rule familyI, unfold e2)
    show "length (p_childs s2 p) = MAX_CHILDS \<and> distinct (filter ((\<noteq>) 0) (p_childs s2 p))" if "p \<in> insert (kproc s2) ?L" for p
      using familyD(1) [OF fm, of p] that by (simp add: c(3))
    show "d \<in> ?L \<and> p_parent s2 d = p \<and> d \<noteq> p" if "p \<in> insert (kproc s2) ?L" "d \<in> kids ?s p" for p d
      using familyD(2) [OF fm, of p d] that by (simp add: c(3))
    show "card (kids ?s p) \<le> p_num_childs s2 p \<and> p_num_childs s2 p \<le> MAX_CHILDS" if "p \<in> ?L" for p using familyD(3) [OF fm that] by (simp add: c(3))
    show "d \<in> kids ?s (p_parent s2 d)" if "d \<in> ?L" "p_parent s2 d \<in> ?L" for d using familyD(4) [OF fm that(1)] that(2) by (simp add: c(3))
    show "p_parent s2 d \<notin> live s2" if "d \<in> ?L" "p_parent s2 d \<notin> ?L" "p_parent s2 d \<noteq> kproc s2" for d
      using familyD(5) [OF fm that(1)] that km(6) by (auto simp: c)
    show "pt_p_termed s2 (entry ?s d) \<longleftrightarrow> p_parent s2 d \<notin> insert (kproc s2) ?L" if "d \<in> ?L" for d using familyD(6) [OF fm that] by (simp add: c(3))
  qed
  have same: "Global_Proc_Table s2 = Global_Proc_Table ?s" "GLOBAL_PROC_COUNT s2 = GLOBAL_PROC_COUNT ?s" "p_num_childs s2 = p_num_childs ?s" "p_childs s2 = p_childs ?s"
    "kproc s2 = kproc ?s" "p_parent s2 = p_parent ?s" "pid s2 = pid ?s" "pt_termed s2 = pt_termed ?s" "pt_exitcode s2 = pt_exitcode ?s" "ticks s2 = e" "live s2 = insert e (insert c (live ?s))"
    by (simp_all add: c(3)) (simp add: c(2))
  obtain i where i: "first_idx (\<lambda>e. e = 0) (Global_Proc_Table s2) = Some i" "i < MAX_PROCS" "Global_Proc_Table s2 ! i = 0"
    by (rule free_slot [OF sl2]) (use num in \<open>simp_all add: same\<close>)
  obtain j where j: "first_idx (\<lambda>c. c = 0) (p_childs s2 p) = Some j" "j < MAX_CHILDS" "p_childs s2 p ! j = 0"
    by (rule free_child [OF fm2 pL]) (use num in \<open>simp_all add: same\<close>)
  have new: "c \<notin> ?L" "c \<noteq> kproc ?s" "p \<noteq> c" "e \<notin> set (Global_Proc_Table ?s)" "\<forall>q\<in>?L. p_parent ?s q \<noteq> c"
  proof -
    have live: "x \<le> ?n" if "x \<in> live ?s" for x using km(1) that by blast
    have L: "x \<le> ?n" if "x \<in> ?L" for x using live km(2) that by blast
    show "c \<notin> ?L" "c \<noteq> kproc ?s" "p \<noteq> c" using L [of c] live [OF km(3)] L [OF pL] by (auto simp: c)
    show "e \<notin> set (Global_Proc_Table ?s)" "\<forall>q\<in>?L. p_parent ?s q \<noteq> c" using km(5,6) by (auto simp: c)
  qed
  let ?s' = "fork_table p c e s2"
  let ?m = "m\<lparr>pm := ?s', pm_live := insert c ?L\<rparr>"
  have f: "forked p c e i j s2 ?s'" using num by (intro fork_table_eq [OF i(1) j(1) new(3)]) (simp_all add: same)
  have cnt: "GLOBAL_PROC_COUNT s2 < MAX_PROCS" "p_num_childs s2 p < MAX_CHILDS" using num by (simp_all add: same)
  have e0: "e \<notin> set (Global_Proc_Table s2)" using new(4) by (simp add: same)
  note fs = fork_slots [OF sl2 f i(2,3) new(1) al(4) e0 cnt(1)]
  have ne: "entry ?s q \<noteq> e" if "q \<in> ?L" for q
  proof -
    have "nat (pid ?s q) < length (Global_Proc_Table ?s)" using slotsD(1) [OF sl] slotsD(2) [OF sl that] by simp
    then have "entry ?s q \<in> set (Global_Proc_Table ?s)" by (simp add: entry_def)
    then show ?thesis using new(4) by blast
  qed
  have ff: "family_ok ?s' (insert c ?L)" "\<forall>q\<in>?L. kids s2 q \<subseteq> kids ?s' q"
    by (rule fork_family [OF fm2 f pL j(2,3) new(1)]; use new al(2) km(4) cnt(2) fs(2,3) ne in \<open>simp add: same e2\<close>)+
  have s': "Global_Proc_Table ?s' = (Global_Proc_Table ?s)[i := e]" "pid ?s' = (pid ?s)(c := int i)" "pt_termed ?s' = (pt_termed ?s)(e := False)"
    "pt_exitcode ?s' = (pt_exitcode ?s)(e := 0)" "p_parent ?s' = (p_parent ?s)(c := p)" "ticks ?s' = e" "live ?s' = insert e (insert c (live ?s))" "kproc ?s' = kproc ?s"
    "p_childs ?s' p = (p_childs ?s p)[j := c]"
    using f by (simp_all add: forked_def same)
  show "\<exists>i<MAX_PROCS. Global_Proc_Table ?s ! i = 0 \<and> pid ?s' c = int i \<and> c \<in> kids ?s' p"
    using i j familyD(1) [OF fm, of p] pL al(2) by (intro exI [of _ i]) (simp add: s' same kids_def set_update_memI)
  have mem: "memory_ok ?s' (insert c ?L)"
  proof -
    have "set ((Global_Proc_Table ?s)[i := e]) \<subseteq> insert e (set (Global_Proc_Table ?s))" by (rule set_update_subset_insert)
    moreover have "x \<le> e" if "x \<le> ?n" for x using that by (simp add: c)
    ultimately have "\<forall>x\<in>set (Global_Proc_Table ?s'). x \<le> ticks ?s'" using km(5) unfolding s' by blast
    moreover have "kmem_ok ?s'" unfolding kmem_ok_def s'(6,7) using km(1) c(1,2) by (auto simp: le_SucI)
    moreover have "p \<le> ?n" using km(1,2) pL by blast
    then have "\<forall>q\<in>insert c ?L. p_parent ?s' q \<le> ticks ?s'" unfolding s'(5,6) using km(6) c(1,2) by auto
    ultimately show ?thesis using km(2,3,4) new(2) by (auto simp: memory_ok_def s')
  qed
  have G: "Global_Proc_Table ?s' ! k = (if k = i then e else Global_Proc_Table ?s ! k)" if "k < MAX_PROCS" for k
    using that slotsD(1) [OF sl] by (simp add: s')
  have Ge: "Global_Proc_Table ?s ! k \<noteq> e" if "k < MAX_PROCS" for k using that slotsD(1) [OF sl] new(4) by (metis nth_mem)
  have i0: "Global_Proc_Table ?s ! i = 0" using i(3) by (simp add: same)
  have "waiters_ok ?m"
    unfolding waiters_ok_def Let_def
  proof (intro conjI allI impI)
    fix q t st x assume "pm_sleep ?m q = Some (t, st, x)"
    then have q: "q \<in> ?L \<and> 0 < t \<and> pm_woken m q = None \<and> (\<exists>d\<in>kids ?s q. pid ?s d = t \<and> entry ?s d = x)" using waitersD(1) [OF wa, of q t st x] by simp
    then show "q \<in> pm_live ?m" "0 < t" "pm_woken ?m q = None" by simp_all
    obtain d where d: "d \<in> kids ?s q" "pid ?s d = t" "entry ?s d = x" using q by blast
    have dL: "d \<in> ?L" using familyD(2) [OF fm, of q d] q d(1) by simp
    then have "d \<noteq> c" using new(1) by blast
    moreover have "d \<in> kids ?s' q" using ff(2) q d(1) by (auto simp: e2)
    ultimately show "\<exists>d\<in>kids (pm ?m) q. pid (pm ?m) d = t \<and> entry (pm ?m) d = x"
      using d fs(2) dL by (intro bexI [of _ d]) (simp_all add: s' e2)
  next
    fix q t st x assume "pm_woken ?m q = Some (t, st, x)"
    then have q: "q \<in> ?L \<and> 0 < t \<and> t < int MAX_PROCS \<and> Global_Proc_Table ?s ! nat t = x \<and> x \<noteq> 0 \<and> pt_termed ?s x" using waitersD(2) [OF wa, of q t st x] by simp
    then have "nat t < MAX_PROCS" "nat t \<noteq> i" using i0 by auto
    then show "q \<in> pm_live ?m" "0 < t" "t < int MAX_PROCS" "Global_Proc_Table (pm ?m) ! nat t = x" "x \<noteq> 0" "pt_termed (pm ?m) x"
      using q G [of "nat t"] Ge [of "nat t"] by (simp_all add: s')
  next
    fix q r t st st' x y assume "pm_woken ?m q = Some (t, st, x) \<and> pm_woken ?m r = Some (t, st', y)"
    then show "q = r" using waitersD(3) [OF wa, of q t st x r st' y] by simp
  next
    fix k assume k: "k < MAX_PROCS" "Global_Proc_Table (pm ?m) ! k \<noteq> 0 \<and> pt_termed (pm ?m) (Global_Proc_Table (pm ?m) ! k)"
    then have "k \<noteq> i" using G [OF i(2)] by (auto simp: s')
    then show "pm_code ?m (Global_Proc_Table (pm ?m) ! k) = Some (pt_exitcode (pm ?m) (Global_Proc_Table (pm ?m) ! k))"
      using k G [OF k(1)] Ge [OF k(1)] waitersD(4) [OF wa k(1)] by (simp add: s')
  qed
  then show "ptable_ok ?m" using fs(1) ff(1) mem by (simp add: ptable_ok_def)
qed

lemma proc_step_ok:
  assumes "proc_step m m'" and "ptable_ok m"
  shows "ptable_ok m'"
  using assms
proof (induction rule: proc_step.induct)
  case (fork m p c s1 e s2)
  then show ?case by (intro fork_keeps)
next
  case (exit m p code e s')
  have sl: "slots_ok (pm m) (pm_live m)" and fm: "family_ok (pm m) (pm_live m)" and me: "memory_ok (pm m) (pm_live m)" and wa: "waiters_ok m"
    using exit.prems by (simp_all add: ptable_ok_def)
  have p: "p \<in> pm_live m" using exit.hyps(1) by (simp add: running_def)
  have par: "p_parent (pm m) p \<in> insert (kproc (pm m)) (pm_live m)" using exit_table_eq(2) [OF sl fm me p] exit.hyps(2) by fastforce
  have e: "e = entry (pm m) p" "exited p code (pm m) s'" using exit_table_eq(1) [OF sl fm me p par, of code] exit.hyps(2) by auto
  have "kproc (pm m) \<notin> pm_live m" using me by (simp add: memory_ok_def)
  then show ?case
    unfolding e(1) using exit_slots [OF sl e(2) p] exit_family [OF sl fm e(2) p par] exit_memory [OF me e(2) p]
      exit_waiters [OF sl fm me wa e(2) exit.hyps(1) refl refl]
    by (simp add: ptable_ok_def) (simp add: wake_sleepers_def)
next
  case (sleep m p t e st)
  have sl: "slots_ok (pm m) (pm_live m)" and fm: "family_ok (pm m) (pm_live m)" and me: "memory_ok (pm m) (pm_live m)" and wa: "waiters_ok m"
    using sleep.prems by (simp_all add: ptable_ok_def)
  have p: "p \<in> pm_live m" "pm_woken m p = None" using sleep.hyps(1) by (simp_all add: running_def)
  have "\<exists>c\<in>kids (pm m) p. pid (pm m) c = t \<and> entry (pm m) c = e" using wait_target_live(2) [OF sl fm me p(1) sleep.hyps(2,3)] .
  then have "waiters_ok (m\<lparr>pm_sleep := (pm_sleep m)(p \<mapsto> (t, st, e))\<rparr>)"
    unfolding waiters_ok_def Let_def using waitersD [OF wa] p sleep.hyps(2) by (intro conjI allI impI) (auto split: if_splits)
  then show ?case using sl fm me by (simp add: ptable_ok_def)
next
  case (reap_now m p t e a st r s')
  have sl: "slots_ok (pm m) (pm_live m)" and fm: "family_ok (pm m) (pm_live m)" and me: "memory_ok (pm m) (pm_live m)"
    using reap_now.prems by (simp_all add: ptable_ok_def)
  have "p \<in> pm_live m" using reap_now.hyps(1) by (simp add: running_def)
  then have "\<not> pt_termed (pm m) e" using wait_target_live(1) [OF sl fm me] reap_now.hyps(2,3) by blast
  then show ?case using reap_now.hyps(4) by simp
next
  case (reap m p t st e a r s')
  have "pt_termed (pm m) e" using reap.prems reap.hyps(1) waitersD(2) [of m p t st e] by (simp add: ptable_ok_def)
  from wait_reap_eq [OF this, of a t st] obtain u where
    "s' = (pm m)\<lparr>user_mem := u, Global_Proc_Table := (Global_Proc_Table (pm m))[nat t := 0]\<rparr> \<or> s' = (pm m)\<lparr>user_mem := u\<rparr>"
    using reap.hyps(2) by auto
  then show ?case using reap_keeps [OF reap.prems reap.hyps(1)] by auto
qed

lemma proc_steps_ok: "proc_step\<^sup>*\<^sup>* m m' \<Longrightarrow> ptable_ok m \<Longrightarrow> ptable_ok m'"
  by (induction rule: rtranclp_induct) (auto intro: proc_step_ok)

section \<open>A machine with one process\<close>

text \<open>The first process of \<open>runprogram\<close>: it has the pid 0, and its parent is the kernel process.\<close>

definition boot_proc :: "unit procs" where
  "boot_proc = files.extend boot_files (procs.fields (\<lambda>_. 152) (\<lambda>_. ''sh'') (\<lambda>_. 1) (\<lambda>_. 0) (\<lambda>_. 0) (\<lambda>_. 0) (\<lambda>_. 153) (\<lambda>_. 30) (\<lambda>_. 0)
     (\<lambda>_. replicate 32 0) 30 (\<lambda>_. 150) (\<lambda>_. False) (\<lambda>_. False) (\<lambda>_. 0) (\<lambda>_. 154) (151 # replicate 127 0) 155 2 2 156 (\<lambda>_. (0, 0))
     (\<lambda>_. \<lparr>tf_vaddr = 0, tf_status = 0, tf_cause = 0, tf_v0 = 0, tf_v1 = 0, tf_a0 = 0, tf_a1 = 0, tf_a2 = 0, tf_a3 = 0, tf_sp = 0, tf_epc = 0\<rparr>) one_space)"

definition boot_ptable :: "unit pmachine" where
  "boot_ptable = \<lparr>pm = boot_proc, pm_live = {150}, pm_sleep = \<lambda>_. None, pm_woken = \<lambda>_. None, pm_code = \<lambda>_. None\<rparr>"

lemma boot_proc_sel:
  "pid boot_proc p = 0" "p_parent boot_proc p = 30" "p_num_childs boot_proc p = 0" "p_childs boot_proc p = replicate 32 0" "kproc boot_proc = 30"
  "pt_pcb boot_proc e = 150" "\<not> pt_termed boot_proc e" "\<not> pt_p_termed boot_proc e" "pt_exitcode boot_proc e = 0"
  "Global_Proc_Table boot_proc = 151 # replicate 127 0" "GLOBAL_PROC_COUNT boot_proc = 2" "live boot_proc = {10..200}" "ticks boot_proc = 200"
  using boot_files_sel by (simp_all add: boot_proc_def procs.defs files.defs)

lemma boot_proc_oom: "\<not> oom boot_proc n"
  by (simp add: boot_proc_def procs.defs files.defs boot_files_def vfs.defs boot_vfs_def vnodes.defs boot_sync_def sync.defs all_empty_def Let_def)

lemma boot_slots: "i < MAX_PROCS \<Longrightarrow> Global_Proc_Table boot_proc ! i = (if i = 0 then 151 else 0)"
  by (simp add: boot_proc_sel nth_Cons' MAX_PROCS_def)

lemma boot_ptable_ok: "ptable_ok boot_ptable"
proof -
  have k: "kids boot_proc p = {}" for p by (rule kids_replicate [of _ _ 32]) (simp add: boot_proc_sel)
  have e: "entry boot_proc p = 151" for p by (simp add: entry_def boot_proc_sel)
  have c: "{i. i < MAX_PROCS \<and> Global_Proc_Table boot_proc ! i \<noteq> 0} = {0}"
    using boot_slots by (auto simp: MAX_PROCS_def split: if_splits)
  have "slots_ok boot_proc {150}"
  proof (rule slotsI)
    show "i = l" if "i < MAX_PROCS" "l < MAX_PROCS" "Global_Proc_Table boot_proc ! i \<noteq> 0" "Global_Proc_Table boot_proc ! i = Global_Proc_Table boot_proc ! l" for i l
      using that boot_slots by (auto split: if_splits)
    show "pt_pcb boot_proc (Global_Proc_Table boot_proc ! i) \<in> {150} \<and> pid boot_proc (pt_pcb boot_proc (Global_Proc_Table boot_proc ! i)) = int i"
      if "i < MAX_PROCS" "Global_Proc_Table boot_proc ! i \<noteq> 0" for i
      using that boot_slots by (auto simp: boot_proc_sel(1,6) split: if_splits)
    show "card {i. i < MAX_PROCS \<and> Global_Proc_Table boot_proc ! i \<noteq> 0} \<le> GLOBAL_PROC_COUNT boot_proc" unfolding c by (simp add: boot_proc_sel)
  qed (simp_all add: boot_proc_sel e MAX_PROCS_def)
  moreover have "family_ok boot_proc {150}" by (rule familyI) (auto simp: boot_proc_sel k MAX_CHILDS_def)
  moreover have "memory_ok boot_proc {150}" by (auto simp: memory_ok_def kmem_ok_def boot_proc_sel)
  moreover have "waiters_ok boot_ptable"
    using boot_slots by (auto simp: waiters_ok_def Let_def boot_ptable_def boot_proc_sel(7) split: if_splits)
  ultimately show ?thesis by (simp add: ptable_ok_def boot_ptable_def)
qed

text \<open>After one \<open>fork\<close>.\<close>

lemma boot_fork:
  obtains m c t where "proc_step boot_ptable m" "ptable_ok m" "running m 150" "running m c" "c \<in> kids (pm m) 150" "pid (pm m) c = t" "0 < t" "t < int MAX_PROCS"
proof -
  obtain c s1 where c: "kmalloc boot_proc = (c, s1)" "c \<noteq> 0" "ticks s1 = 201" "oom s1 = oom boot_proc"
    using boot_proc_oom [of 200] by (simp add: kmalloc_def Let_def boot_proc_sel)
  obtain e s2 where e: "kmalloc s1 = (e, s2)" "e \<noteq> 0"
    using boot_proc_oom [of 201] c by (simp add: kmalloc_def Let_def)
  let ?m = "boot_ptable\<lparr>pm := fork_table 150 c e s2, pm_live := insert c {150}\<rparr>"
  have r: "running boot_ptable 150" by (simp add: running_def boot_ptable_def)
  have n: "GLOBAL_PROC_COUNT (pm boot_ptable) < MAX_PROCS" "p_num_childs (pm boot_ptable) 150 < MAX_CHILDS" "kmalloc (pm boot_ptable) = (c, s1)" "pm_live boot_ptable = {150}"
    using c(1) by (simp_all add: boot_ptable_def boot_proc_sel MAX_PROCS_def MAX_CHILDS_def)
  note k = fork_keeps [OF boot_ptable_ok r n(1,2,3) c(2) e]
  obtain i where i: "i < MAX_PROCS" "Global_Proc_Table (pm boot_ptable) ! i = 0" "pid (fork_table 150 c e s2) c = int i" "c \<in> kids (fork_table 150 c e s2) 150"
    using k(2) by blast
  have "i \<noteq> 0" by (rule notI) (use i(2) in \<open>simp add: boot_ptable_def boot_proc_sel\<close>)
  show thesis
  proof (rule that [of ?m c "int i"])
    show "proc_step boot_ptable ?m" using proc_step.fork [OF r n(1,2,3) c(2) e] by (simp add: n(4))
    show "ptable_ok ?m" using k(1) by (simp add: n(4))
  qed (use i \<open>i \<noteq> 0\<close> in \<open>simp_all add: running_def boot_ptable_def\<close>)
qed

section \<open>Properties\<close>

text \<open>
  C1: In every reachable state each process that has not ended has the pid of an entry of its own, and
  no two have the same.  Such a process can end, with its entry found and every child of it told,
  exactly when its parent has not ended: with a parent that was destroyed \<open>_exit\<close> follows a pointer
  into memory that was freed.
\<close>

theorem process_table_invariant:
  assumes "ptable_ok m" and "proc_step\<^sup>*\<^sup>* m m'" and "p \<in> pm_live m'"
  shows "0 \<le> pid (pm m') p \<and> pid (pm m') p < int MAX_PROCS \<and> entry (pm m') p \<noteq> 0 \<and> pt_pcb (pm m') (entry (pm m') p) = p
    \<and> (\<forall>q\<in>pm_live m'. pid (pm m') q = pid (pm m') p \<longrightarrow> q = p)
    \<and> (if p_parent (pm m') p \<in> insert (kproc (pm m')) (pm_live m')
       then \<exists>s'. exit_table p code (pm m') = Some (entry (pm m') p, s') \<and> pt_exitcode s' (entry (pm m') p) = code \<and> p \<notin> kids s' (p_parent s' p)
         \<and> (\<forall>c\<in>kids (pm m') p. pt_p_termed s' (entry s' c))
       else exit_table p code (pm m') = None)"
proof -
  let ?s = "pm m'" and ?L = "pm_live m'"
  have "ptable_ok m'" using assms(2,1) by (rule proc_steps_ok)
  then have sl: "slots_ok ?s ?L" and fm: "family_ok ?s ?L" and me: "memory_ok ?s ?L" by (simp_all add: ptable_ok_def)
  note p = slotsD(2) [OF sl assms(3)]
  have "q = p" if "q \<in> ?L" "pid ?s q = pid ?s p" for q using entry_inj [OF sl that(1) assms(3)] that(2) by (simp add: entry_def)
  moreover have "pid ?s p < int MAX_PROCS" using p by linarith
  moreover have "\<exists>s'. exit_table p code ?s = Some (entry ?s p, s') \<and> pt_exitcode s' (entry ?s p) = code \<and> p \<notin> kids s' (p_parent s' p)
      \<and> (\<forall>c\<in>kids ?s p. pt_p_termed s' (entry s' c))" if h: "p_parent ?s p \<in> insert (kproc ?s) ?L"
  proof -
    obtain s' where s': "exit_table p code ?s = Some (entry ?s p, s')" "exited p code ?s s'" using exit_table_eq(1) [OF sl fm me assms(3) h] by blast
    then show ?thesis using exitedD(5,6,7,16,18) [OF s'(2)] by auto
  qed
  ultimately show ?thesis using p exit_table_eq(2) [OF sl fm me assms(3)] by auto
qed

lemma process_table_invariant_witness: "\<exists>s'. exit_table 150 7 boot_proc = Some (151, s') \<and> pt_exitcode s' 151 = 7"
  using process_table_invariant [OF boot_ptable_ok rtranclp.rtrancl_refl, of 150 7]
  by (auto simp: boot_ptable_def boot_proc_sel entry_def)

text \<open>
  C3: \<open>waitpid\<close> finds the entry of a child that has not ended, reports ESRCH for a pid without an entry
  and ECHILD for the others.  A child that ended before is one of these others, so its exit code is
  lost and its entry stays; and an index behind the table is not checked.
\<close>

theorem waitpid_outcomes:
  assumes "ptable_ok m" and "proc_step\<^sup>*\<^sup>* m m'" and "running m' p" and "0 < t"
  shows "if t < int MAX_PROCS
    then wait_target t (as_proc p (pm m')) = Some (if Global_Proc_Table (pm m') ! nat t = 0 then Inl ESRCH
        else if \<exists>c\<in>kids (pm m') p. pid (pm m') c = t then Inr (Global_Proc_Table (pm m') ! nat t) else Inl ECHILD)
      \<and> (Global_Proc_Table (pm m') ! nat t \<noteq> 0 \<and> pt_termed (pm m') (Global_Proc_Table (pm m') ! nat t) \<longrightarrow>
          wait_target t (as_proc p (pm m')) = Some (Inl ECHILD))
    else wait_target t (as_proc p (pm m')) = None"
proof -
  let ?s = "pm m'" and ?L = "pm_live m'"
  have "ptable_ok m'" using assms(2,1) by (rule proc_steps_ok)
  then have sl: "slots_ok ?s ?L" and fm: "family_ok ?s ?L" and me: "memory_ok ?s ?L" by (simp_all add: ptable_ok_def)
  have p: "p \<in> ?L" using assms(3) by (simp add: running_def)
  show ?thesis
  proof (cases "t < int MAX_PROCS")
    case True
    then show ?thesis using wait_target_eq [OF sl fm me p assms(4) True] kid_entry(3) [OF sl fm p] by auto
  next
    case False
    then show ?thesis using slotsD(1) [OF sl] by (simp add: wait_target_def slot_def)
  qed
qed

lemma waitpid_outcomes_witness:
  "\<exists>m t e. proc_step\<^sup>*\<^sup>* boot_ptable m \<and> e \<noteq> 0 \<and> wait_target t (as_proc 150 (pm m)) = Some (Inr e) \<and> wait_target 500 (as_proc 150 (pm m)) = None"
proof -
  obtain m c t where m: "proc_step boot_ptable m" "ptable_ok m" "running m 150" "running m c" "c \<in> kids (pm m) 150" "pid (pm m) c = t" "0 < t" "t < int MAX_PROCS"
    by (rule boot_fork)
  have s: "proc_step\<^sup>*\<^sup>* boot_ptable m" using m(1) by (rule r_into_rtranclp)
  have "slots_ok (pm m) (pm_live m)" "family_ok (pm m) (pm_live m)" "150 \<in> pm_live m" using m by (simp_all add: ptable_ok_def running_def)
  then have e: "Global_Proc_Table (pm m) ! nat t \<noteq> 0" using kid_entry(4) m(5,6) by blast
  have "wait_target t (as_proc 150 (pm m)) = Some (Inr (Global_Proc_Table (pm m) ! nat t))"
    using waitpid_outcomes [OF boot_ptable_ok s m(3,7)] m(5,6,8) e by auto
  moreover have "wait_target 500 (as_proc 150 (pm m)) = None"
    using waitpid_outcomes [OF boot_ptable_ok s m(3), of 500] by (simp add: MAX_PROCS_def)
  ultimately show ?thesis using s e by blast
qed



end
