(* ===== verification/Proc_Sys.thy ===== *)
theory Proc_Sys
  imports Proc_Table
begin

text \<open>
  How the system calls \<open>_exit\<close> and \<open>waitpid\<close> of \<open>Proc\<close> carry out the steps of \<open>Proc_Table\<close>: with the lock
  of the process table free and the scheduler intact, each call takes the lock, changes the table as
  the step says, wakes or puts to sleep the threads it should, and gives the lock back.  And what
  happens when the child of a \<open>fork\<close> ends before the parent has entered it among its children.
\<close>

section \<open>The process table of a state\<close>

definition same_table :: "'d procs \<Rightarrow> 'd procs \<Rightarrow> bool" where
  "same_table s s' \<longleftrightarrow> pid s' = pid s \<and> p_parent s' = p_parent s \<and> p_num_childs s' = p_num_childs s \<and> p_childs s' = p_childs s
     \<and> kproc s' = kproc s \<and> pt_pcb s' = pt_pcb s \<and> pt_termed s' = pt_termed s \<and> pt_p_termed s' = pt_p_termed s
     \<and> pt_exitcode s' = pt_exitcode s \<and> Global_Proc_Table s' = Global_Proc_Table s \<and> GLOBAL_PROC_COUNT s' = GLOBAL_PROC_COUNT s"

lemma same_table_refl [simp]: "same_table s s"
  by (simp add: same_table_def)

lemma same_table_trans: "same_table s s1 \<Longrightarrow> same_table s1 s2 \<Longrightarrow> same_table s s2"
  by (simp add: same_table_def)

text \<open>The scheduler changes neither the table nor the locks.\<close>

lemma same_env_table:
  assumes "same_env s s'"
  shows "same_table s s'" "pt_waiting s' = pt_waiting s" "GPT_lock s' = GPT_lock s" "user_mem s' = user_mem s"
proof -
  obtain a1 a2 a3 a4 a5 a6 a7 a8 a9 b1 b2 b3 b4 b5 b6 b7 b8 b9 c1 c2 c3 where
    "s' = s\<lparr>oom := a1, ticks := a2, live := a3, tln_prev := a4, tln_next := a5,
      tln_self := a6, tl_count := a7, t_state := a8, t_cpu := a9, t_stack := b1,
      t_proc := b2, t_in_interrupt := b3, stackmem := b4, c_curthread := b5,
      c_isidle := b6, c_hardclocks := b7, c_ipi_pending := b8,
      c_shootdown := b9, allcpus := c1, curcpu := c2, lbolt := c3\<rparr>"
  proof
    show "s' = s\<lparr>oom := oom s', ticks := ticks s', live := live s', tln_prev := tln_prev s', tln_next := tln_next s',
      tln_self := tln_self s', tl_count := tl_count s', t_state := t_state s', t_cpu := t_cpu s', t_stack := t_stack s',
      t_proc := t_proc s', t_in_interrupt := t_in_interrupt s', stackmem := stackmem s', c_curthread := c_curthread s',
      c_isidle := c_isidle s', c_hardclocks := c_hardclocks s', c_ipi_pending := c_ipi_pending s',
      c_shootdown := c_shootdown s', allcpus := allcpus s', curcpu := curcpu s', lbolt := lbolt s'\<rparr>"
      using assms by (intro threads.equality) (simp_all add: same_env_def)
  qed
  then show "same_table s s'" "pt_waiting s' = pt_waiting s" "GPT_lock s' = GPT_lock s" "user_mem s' = user_mem s"
    by (simp_all add: same_table_def)
qed

lemma sched_table [simp]:
  fixes s :: "'d procs"
  shows "sched_ok (s\<lparr>pt_termed := a1\<rparr>) T L = sched_ok s T L" "sched_ok (s\<lparr>pt_exitcode := a2\<rparr>) T L = sched_ok s T L"
    "sched_ok (s\<lparr>pt_p_termed := a3\<rparr>) T L = sched_ok s T L" "sched_ok (s\<lparr>p_childs := a4\<rparr>) T L = sched_ok s T L"
    "sched_ok (s\<lparr>Global_Proc_Table := a5\<rparr>) T L = sched_ok s T L" "sched_ok (s\<lparr>user_mem := a6\<rparr>) T L = sched_ok s T L"
  by (rule sched_cong; simp)+

lemma sched_taken [simp]: "sched_ok (taken l s) T L = sched_ok s T L" "sched_ok (dropped l s) T L = sched_ok s T L"
  by (simp_all add: taken_def dropped_def)

lemma same_table_taken [simp]: "same_table s (taken l s)" "same_table s (dropped l s)"
  by (simp_all add: same_table_def taken_def dropped_def)

lemma table_slots: "same_table s s' \<Longrightarrow> slots_ok s' L = slots_ok s L"
  by (simp add: same_table_def slots_ok_def entry_def)

lemma table_family: "same_table s s' \<Longrightarrow> live s' = live s \<Longrightarrow> family_ok s' L = family_ok s L"
  by (simp add: same_table_def family_ok_def kids_def entry_def)

lemma table_memory: "same_table s s' \<Longrightarrow> live s' = live s \<Longrightarrow> ticks s' = ticks s \<Longrightarrow> memory_ok s' L = memory_ok s L"
  by (simp add: same_table_def memory_ok_def kmem_ok_def)

lemma table_entry: "same_table s s' \<Longrightarrow> entry s' = entry s"
  by (simp add: same_table_def entry_def fun_eq_iff)

lemma as_proc_id: "curproc s = p \<Longrightarrow> as_proc p s = s"
  by (auto simp: as_proc_def curproc_def)

section \<open>_exit\<close>

text \<open>\<open>exit_unlink\<close> looks at the table, the running process and what is allocated.\<close>

lemma exit_unlink_table:
  assumes "exit_unlink e a = Some a'" and "same_table a b" and "curproc b = curproc a" and "live b = live a"
  obtains G C where "exit_unlink e b = Some (b\<lparr>Global_Proc_Table := G, p_childs := C\<rparr>)" "same_table a' (b\<lparr>Global_Proc_Table := G, p_childs := C\<rparr>)"
proof -
  let ?G = "if pt_p_termed b e then (Global_Proc_Table b)[nat (pid b (curproc b)) := 0] else Global_Proc_Table b"
  let ?par = "p_parent b (curproc b)"
  let ?C = "case first_idx (\<lambda>c. c = curproc b) (p_childs b ?par) of None \<Rightarrow> p_childs b | Some j \<Rightarrow> (p_childs b)(?par := (p_childs b ?par)[j := 0])"
  have "curproc (b\<lparr>Global_Proc_Table := G\<rparr>) = curproc b" for G by (simp add: curproc_def)
  moreover have "?par \<in> live b" using assms by (simp add: exit_unlink_def Let_def same_table_def split: if_splits)
  ultimately have "exit_unlink e b = Some (b\<lparr>Global_Proc_Table := ?G, p_childs := ?C\<rparr>)"
    by (simp add: exit_unlink_def Let_def split: option.splits)
  moreover have "same_table a' (b\<lparr>Global_Proc_Table := ?G, p_childs := ?C\<rparr>)"
  proof -
    have "curproc (a\<lparr>Global_Proc_Table := G\<rparr>) = curproc a" for G by (simp add: curproc_def)
    then show ?thesis using assms by (auto simp: exit_unlink_def Let_def same_table_def split: if_splits option.splits)
  qed
  ultimately show thesis by (rule that)
qed

lemma idle_queue: "lock_idle s l \<Longrightarrow> sched_ok s T L \<Longrightarrow> L (Wchan (lk_wchan s l)) = []"
  using on_list_count [of s "Wchan (lk_wchan s l)"] queuesD [of s L] unfolding lock_idle_def sched_ok_def by (metis length_0_conv list.size(3))

lemma exit_runs:
  assumes ok: "slots_ok s L" "family_ok s L" "memory_ok s L" and p: "p \<in> L" "curproc s = p" and x: "exit_table p code s = Some (e, s'')"
    and th: "sched_ok s Th Q" "\<not> c_isidle s (curcpu s)" and l: "lock_idle s (GPT_lock s)" and w: "pt_waiting s (entry s p) \<noteq> 0"
  shows "\<exists>s'. sys__exit T code s = thread_exit T s' \<and> same_table s'' s' \<and> curproc s' = p \<and> lock_idle s' (GPT_lock s')
    \<and> sched_ok s' Th (woken_all (t_cpu s) (cv_wchan s (pt_waiting s e)) Q)"
proof -
  let ?l = "GPT_lock s" and ?e = "entry s p"
  let ?upd = "\<lambda>s. s\<lparr>pt_termed := (pt_termed s)(?e := True), pt_exitcode := (pt_exitcode s)(?e := code), pt_p_termed := (\<lambda>x. x \<in> entry s ` kids s p \<or> pt_p_termed s x)\<rparr>"
  let ?s1 = "taken ?l s"
  have cp: "curproc ?s1 = p" using p(2) by (simp add: curproc_def taken_def)
  have ok1: "slots_ok ?s1 L" "family_ok ?s1 L" "memory_ok ?s1 L"
    using ok by (simp_all add: table_slots [OF same_table_taken(1)] table_family [OF same_table_taken(1)] table_memory [OF same_table_taken(1)])
  have k: "entry ?s1 = entry s" "kids ?s1 = kids s" by (simp_all add: entry_def kids_def taken_def fun_eq_iff)
  have m: "exit_marks code s = Some (?e, ?upd s)" using exit_marks_eq [OF ok p(1)] as_proc_id [OF p(2)] by simp
  have "exit_marks code ?s1 = Some (?e, ?upd ?s1)"
    using exit_marks_eq [OF ok1 p(1), of code] as_proc_id [OF cp] by (simp add: k)
  then have m1: "exit_marks code ?s1 = Some (?e, ?upd (taken ?l s))" .
  let ?s2 = "?upd ?s1"
  have e: "e = ?e" and a: "\<exists>a'. exit_unlink ?e (?upd s) = Some a' \<and> kfree p a' = Some s''"
    using x as_proc_id [OF p(2)] by (auto simp: exit_table_def m split: Option.bind_splits)
  then obtain a' where a': "exit_unlink ?e (?upd s) = Some a'" "kfree p a' = Some s''" by blast
  have tb: "same_table (?upd s) ?s2" by (simp add: same_table_def taken_def entry_def kids_def)
  have s2: "GPT_lock ?s2 = ?l" "lk_holder ?s2 ?l = curthread s" "pt_waiting ?s2 = pt_waiting s" "cv_wchan ?s2 = cv_wchan s" "t_cpu ?s2 = t_cpu s"
    "curthread ?s2 = curthread s" "lk_wchan ?s2 = lk_wchan s" "lk_available ?s2 ?l = False" "t_in_interrupt ?s2 = t_in_interrupt s"
    "live ?s2 = live s" "t_proc ?s2 = t_proc s" "curcpu ?s2 = curcpu s" by (simp_all add: taken_def)
  have l0: "?l \<noteq> 0" "curthread s \<noteq> 0" "\<not> t_in_interrupt s (curthread s)" using l by (simp_all add: lock_idle_def)
  have "sched_ok ?s2 Th Q" using th(1) by simp
  then obtain s3 where s3: "wchan_wakeall (cv_wchan ?s2 (pt_waiting ?s2 ?e)) ?s2 = Some s3" "sched_ok s3 Th (woken_all (t_cpu ?s2) (cv_wchan ?s2 (pt_waiting ?s2 ?e)) Q)"
    "same_env ?s2 s3" "c_curthread s3 = c_curthread ?s2" "c_isidle s3 = c_isidle ?s2" "t_proc s3 = t_proc ?s2" "live s3 = live ?s2"
    by (rule wakeall_sched) (rule that)
  note y = same_env_sync [OF s3(3)] same_env_table [OF s3(3)]
  have cc: "curcpu s3 = curcpu s" "t_in_interrupt s3 = t_in_interrupt s" using s3(3) s2 by (simp_all add: same_env_def)
  have cs3: "curproc s3 = curproc (?upd s)" using s3(4,6) cc s2 by (simp add: curproc_def)
  have st3: "same_table (?upd s) s3" using tb y(10) by (rule same_table_trans)
  have lv3: "live s3 = live (?upd s)" using s3(7) s2(10) by simp
  obtain G C where u: "exit_unlink ?e s3 = Some (s3\<lparr>Global_Proc_Table := G, p_childs := C\<rparr>)" "same_table a' (s3\<lparr>Global_Proc_Table := G, p_childs := C\<rparr>)"
    by (rule exit_unlink_table [OF a'(1) st3 cs3 lv3]) (rule that)
  let ?s4 = "s3\<lparr>Global_Proc_Table := G, p_childs := C\<rparr>"
  have ok4: "sched_ok ?s4 Th (woken_all (t_cpu s) (cv_wchan s (pt_waiting s ?e)) Q)" using s3(2) s2 by simp
  then have "on_list ?s4 (Wchan (lk_wchan s ?l)) (woken_all (t_cpu s) (cv_wchan s (pt_waiting s ?e)) Q (Wchan (lk_wchan s ?l)))"
    by (simp add: sched_ok_def queues_def)
  moreover have "woken_all (t_cpu s) (cv_wchan s (pt_waiting s ?e)) Q (Wchan (lk_wchan s ?l)) = []"
    using idle_queue [OF l th(1)] by (simp add: woken_all_def)
  ultimately have mine: "lock_mine ?s4 ?l"
    using l0 y s2 s3(4) cc by (simp add: lock_mine_def)
  then have r: "lock_release ?l ?s4 = Some (dropped ?l ?s4)" by (rule lk.leave)
  have "lock_now ?l s = Some ?s1" using l by (rule lk.enter)
  moreover have "cv_broadcast (pt_waiting ?s2 ?e) (GPT_lock ?s2) ?s2 = Some s3"
    using s3(1) l0 s2 w by (simp add: cv_broadcast_def lock_do_i_hold_def)
  moreover have "GPT_lock ?s4 = ?l" using y(12) s2 by simp
  ultimately have "sys__exit T code s = thread_exit T (dropped ?l ?s4)"
    using u(1) r m1 by (simp add: sys__exit_def)
  moreover have "same_table s'' (dropped ?l ?s4)"
  proof -
    have "same_table s'' a'" using a'(2) by (auto simp: kfree_def same_table_def split: if_splits)
    then show ?thesis using u(2) same_table_trans same_table_taken(2) by blast
  qed
  moreover have "curproc (dropped ?l ?s4) = p"
    using s3(4,6) cc s2 p(2) by (simp add: curproc_def dropped_def)
  moreover have "lock_idle (dropped ?l ?s4) (GPT_lock (dropped ?l ?s4))"
    using lk.idle_drop [OF mine] y(12) s2 by (simp add: dropped_def)
  ultimately show ?thesis using ok4 e by (intro exI [of _ "dropped ?l ?s4"]) simp
qed

section \<open>waitpid\<close>

lemma find_child_taken: "find_child cs t (taken l s) = find_child cs t s"
  by (induction cs) (simp_all add: taken_def)

lemma wait_target_taken: "wait_target t (taken l s) = wait_target t s"
proof -
  have "curproc (taken l s) = curproc s" "Global_Proc_Table (taken l s) = Global_Proc_Table s" "p_childs (taken l s) = p_childs s"
    by (simp_all add: curproc_def taken_def)
  then show ?thesis by (simp add: wait_target_def find_child_taken cong: if_cong)
qed

lemma wait_reap_taken: "wait_reap a t st e (taken l s) = map_option (map_prod id (taken l)) (wait_reap a t st e s)"
  by (auto simp: wait_reap_def taken_def Let_def split: prod.splits sum.splits)

lemma waitpid_fails:
  assumes "0 < t" and "lock_idle s (GPT_lock s)" and "wait_target t s = Some (Inl x)"
  shows "sys_waitpid a t st 0 s = Some (Inl x, s)"
proof -
  have "GPT_lock (taken (GPT_lock s) s) = GPT_lock s" by (simp add: taken_def)
  then show ?thesis
    using assms lk.enter [OF assms(2)] lk.leave [OF lk.mine_take [OF assms(2)]] lk.drop_take [OF assms(2)]
    by (simp add: sys_waitpid_def wait_target_taken)
qed

lemma waitpid_sleeps:
  assumes ok: "slots_ok s L" "family_ok s L" "memory_ok s L" and p: "p \<in> L" "curproc s = p" and t: "0 < t" "wait_target t s = Some (Inr e)"
    and th: "sched_ok s Th Q" "\<not> c_isidle s (curcpu s)" and l: "lock_idle s (GPT_lock s)" and w: "pt_waiting s e \<noteq> 0"
  shows "\<exists>s'. sys_waitpid a t st 0 s = Some (Inr (Inr e), s') \<and> same_table s s' \<and> lk_available s' (GPT_lock s') \<and> lk_holder s' (GPT_lock s') = 0
    \<and> sched_ok s' Th (switched (Wchan (cv_wchan s (pt_waiting s e))) (curthread s) (curcpu s) Q)"
proof -
  let ?l = "GPT_lock s" and ?w = "cv_wchan s (pt_waiting s e)"
  have e: "\<not> pt_termed s e" using wait_target_live(1) [OF ok p(1) t(1)] t(2) as_proc_id [OF p(2)] by simp
  obtain s' where s': "wchan_sleep ?w s = Some s'" "sched_ok s' Th (switched (Wchan ?w) (curthread s) (curcpu s) Q)" "same_env s s'"
    by (rule sleep_sched [OF th]) (rule that)
  have g: "GPT_lock (taken ?l s) = ?l" "pt_waiting (taken ?l s) = pt_waiting s" "pt_termed (taken ?l s) = pt_termed s" "lk_holder (taken ?l s) ?l = curthread s"
    by (simp_all add: taken_def)
  have l0: "?l \<noteq> 0" "lk_available s ?l" "lk_holder s ?l = 0" using l by (simp_all add: lock_idle_def)
  have "cv_wait (pt_waiting s e) ?l (taken ?l s) = Some s'"
    using s'(1) w l0(1) g lk.leave [OF lk.mine_take [OF l]] lk.drop_take [OF l] by (simp add: cv_wait_def lock_do_i_hold_def)
  then have "sys_waitpid a t st 0 s = Some (Inr (Inr e), s')"
    using t e g lk.enter [OF l] by (simp add: sys_waitpid_def wait_target_taken)
  then show ?thesis using s'(2) same_env_table [OF s'(3)] same_env_sync [OF s'(3)] l0 by simp
qed

lemma waitpid_awakes:
  assumes "lock_idle s (GPT_lock s)" and "pt_termed s e"
  shows "\<exists>r s'. waitpid_awake a t st e s = Some (r, s') \<and> wait_reap a t st e s = Some (r, s') \<and> lock_idle s' (GPT_lock s')"
proof -
  let ?l = "GPT_lock s"
  obtain r s' where r: "wait_reap a t st e s = Some (r, s')" and s': "\<exists>u G. s' = s\<lparr>user_mem := u, Global_Proc_Table := G\<rparr>"
  proof -
    obtain u where "wait_reap a t st e s = Some (Inr t, s\<lparr>user_mem := u, Global_Proc_Table := (Global_Proc_Table s)[nat t := 0]\<rparr>)
        \<or> wait_reap a t st e s = Some (Inl EFAULT, s\<lparr>user_mem := u\<rparr>)" using wait_reap_eq [OF assms(2)] by blast
    moreover have "s\<lparr>user_mem := u\<rparr> = s\<lparr>user_mem := u, Global_Proc_Table := Global_Proc_Table s\<rparr>" by simp
    ultimately show thesis using that by metis
  qed
  have g: "GPT_lock s' = ?l" "lock_idle s' ?l" using s' assms(1) lock_idle_cong [of s' s ?l] by auto
  have "wait_reap a t st e (taken ?l s) = Some (r, taken ?l s')" using r by (simp add: wait_reap_taken)
  moreover have "GPT_lock (taken ?l s') = ?l" "GPT_lock (taken ?l s) = ?l" using g by (simp_all add: taken_def)
  ultimately have "waitpid_awake a t st e s = Some (r, s')"
    using lk.enter [OF assms(1)] lk.leave [OF lk.mine_take [OF g(2)]] lk.drop_take [OF g(2)] by (simp add: waitpid_awake_def)
  then show ?thesis using r g by simp
qed

section \<open>fork and the end of the child\<close>

lemma orphan_dangling: "c \<in> set cs \<Longrightarrow> c \<noteq> 0 \<Longrightarrow> c \<notin> live s \<Longrightarrow> orphan_children cs s = None"
proof (induction cs arbitrary: s)
  case (Cons d ds)
  show ?case
  proof (cases "c = d")
    case False
    then show ?thesis using Cons by (cases "slot (Global_Proc_Table s) (pid s d)") (auto split: Option.bind_splits)
  qed (use Cons in simp)
qed simp

lemma exit_dangling:
  assumes "c \<in> kids s p" and "c \<notin> live s"
  shows "exit_table p code s = None"
proof -
  have "c \<in> set (p_childs s p)" "c \<noteq> 0" using assms(1) by (auto simp: kids_def)
  then have "exit_marks code (as_proc p s) = None"
    using assms(2) by (auto simp: exit_marks_def Let_def orphan_dangling split: Option.bind_splits)
  then show ?thesis by (simp add: exit_table_def)
qed

lemma race_fields:
  assumes "first_idx (\<lambda>e. e = 0) (Global_Proc_Table s) = Some i" and "i < MAX_PROCS" and "length (Global_Proc_Table s) = MAX_PROCS"
    and s'_def: "s' = fork_create c e (as_proc p s)"
  shows "slot (Global_Proc_Table s') (pid s' c) = Some e" "p_childs s' = (p_childs s)(c := replicate MAX_CHILDS 0)" "p_parent s' c = p"
    "\<not> pt_p_termed s' e" "live s' = live s" "Global_Proc_Table s' = (Global_Proc_Table s)[i := e]" "pid s' c = int i"
proof -
  have cp: "t_proc (as_proc p s) (curthread (as_proc p s)) = p" by (simp add: as_proc_def)
  show "slot (Global_Proc_Table s') (pid s' c) = Some e" "p_childs s' = (p_childs s)(c := replicate MAX_CHILDS 0)" "p_parent s' c = p"
    "\<not> pt_p_termed s' e" "live s' = live s" "Global_Proc_Table s' = (Global_Proc_Table s)[i := e]" "pid s' c = int i"
    using assms(1-3)
    by (simp_all add: s'_def slot_def fork_create_def count_proc_def enter_table_def init_entry_def init_childs_def set_parent_def is_kernel_def curproc_def cp)
qed

lemma orphan_none: "orphan_children (replicate n 0) s = Some s"
  by (induction n) simp_all

lemma exit_childless:
  assumes "slot (Global_Proc_Table s) (pid s c) = Some e" "e \<noteq> 0" "p_childs s c = replicate n 0" "\<not> pt_p_termed s e" "p_parent s c = p" "p \<in> live s"
    "c \<in> live s" "c \<noteq> 0" "c \<notin> set (p_childs s p)"
  shows "\<exists>s'. exit_table c code s = Some (e, s') \<and> live s' = live s - {c} \<and> p_childs s' = p_childs s \<and> Global_Proc_Table s' = Global_Proc_Table s
    \<and> pt_termed s' e \<and> pid s' = pid s"
proof -
  let ?s = "(as_proc c s)\<lparr>pt_termed := (pt_termed s)(e := True), pt_exitcode := (pt_exitcode s)(e := code)\<rparr>"
  have cp: "curproc ?s = c" using as_proc_sel(1) [of c s] by (simp add: curproc_def)
  have "exit_marks code (as_proc c s) = Some (e, ?s)" using assms(1-3) by (simp add: exit_marks_def Let_def orphan_none)
  moreover have "first_idx (\<lambda>x. x = c) (p_childs s p) = None" using assms(9) by (auto simp: first_idx_None)
  then have "exit_unlink e ?s = Some ?s" using assms(4-6) by (simp add: exit_unlink_def Let_def cp)
  ultimately have "exit_table c code s = Some (e, ?s\<lparr>live := live s - {c}\<rparr>)" using assms(7,8) by (simp add: exit_table_def kfree_def)
  then show ?thesis by simp
qed

section \<open>The machine of the witnesses\<close>

definition user_ptable :: "unit pmachine" where
  "user_ptable = boot_ptable\<lparr>pm := as_proc 150 boot_proc\<rparr>"

lemma user_ptable_ok: "ptable_ok user_ptable"
proof -
  have s: "same_table boot_proc (as_proc 150 boot_proc)" by (simp add: same_table_def)
  have "waiters_ok user_ptable = waiters_ok boot_ptable"
    by (simp add: waiters_ok_def user_ptable_def boot_ptable_def Let_def kids_def entry_def)
  then show ?thesis
    using boot_ptable_ok table_slots [OF s] table_family [OF s] table_memory [OF s] by (simp add: ptable_ok_def user_ptable_def boot_ptable_def)
qed

lemma user_sched:
  "sched_ok (pm user_ptable) {10} (\<lambda>_. [])" "\<not> c_isidle (pm user_ptable) (curcpu (pm user_ptable))" "lock_idle (pm user_ptable) 155"
  "curproc (pm user_ptable) = 150" "running user_ptable 150" "GPT_lock (pm user_ptable) = 155" "pt_waiting (pm user_ptable) e = 154"
  "kproc (pm user_ptable) = 30" "p_parent (pm user_ptable) 150 = 30" "Global_Proc_Table (pm user_ptable) = 151 # replicate 127 0"
  "entry (pm user_ptable) 150 = 151"
proof -
  have u: "pm user_ptable = as_proc 150 boot_proc" by (simp add: user_ptable_def)
  have f: "c_curthread boot_proc = c_curthread boot_sync" "curcpu boot_proc = curcpu boot_sync" "c_isidle boot_proc = c_isidle boot_sync"
    "allcpus boot_proc = allcpus boot_sync" "t_cpu boot_proc = t_cpu boot_sync" "t_in_interrupt boot_proc = t_in_interrupt boot_sync"
    "t_stack boot_proc = t_stack boot_sync" "tln_prev boot_proc = tln_prev boot_sync" "tln_next boot_proc = tln_next boot_sync"
    "tln_self boot_proc = tln_self boot_sync" "tl_count boot_proc = tl_count boot_sync" "stackmem boot_proc = stackmem boot_sync"
    "lk_available boot_proc = lk_available boot_sync" "lk_holder boot_proc = lk_holder boot_sync"
    by (simp_all add: boot_proc_def procs.defs files.defs boot_files_def vfs.defs boot_vfs_def vnodes.defs sync.defs)
  have q: "queues boot_sync (\<lambda>_. [])" "detached boot_sync 10" by (simp_all add: queues_def boot_sync_def all_empty_lists)
  then have "sched_ok boot_sync {10} (\<lambda>_. [])" by (simp add: sched_ok_def boot_fields thread_checkstack_def)
  then show "sched_ok (pm user_ptable) {10} (\<lambda>_. [])"
    unfolding u by (subst sched_cong [of _ boot_sync]) (simp_all add: as_proc_def f)
  have "on_list (pm user_ptable) (Wchan w) []" for w
    using q(1) on_list_cong [of "pm user_ptable" boot_sync] by (simp add: u as_proc_def f queues_def)
  then show "lock_idle (pm user_ptable) 155" by (simp add: lock_idle_def u as_proc_def f boot_fields)
  show "\<not> c_isidle (pm user_ptable) (curcpu (pm user_ptable))" by (simp add: u as_proc_def f boot_fields)
  show "GPT_lock (pm user_ptable) = 155" "pt_waiting (pm user_ptable) e = 154"
    by (simp_all add: u as_proc_def boot_proc_def procs.defs files.defs)
qed (simp_all add: user_ptable_def boot_ptable_def running_def boot_proc_sel entry_def)

section \<open>Properties\<close>

text \<open>
  C4: The system call \<open>_exit\<close> of a process whose parent has not ended does what the step of the process
  table says: it returns from every one of its calls, marks the entry with the code, moves all sleepers
  on the entry to the run queues, leaves the table as the step leaves it, gives the lock of the table
  back and ends the thread.
\<close>

theorem exit_does_its_step:
  assumes "ptable_ok m" and "proc_step\<^sup>*\<^sup>* m m'" and "running m' p" and "curproc (pm m') = p"
    and "p_parent (pm m') p \<in> insert (kproc (pm m')) (pm_live m')"
    and "sched_ok (pm m') Th Q" and "\<not> c_isidle (pm m') (curcpu (pm m'))" and "lock_idle (pm m') (GPT_lock (pm m'))"
    and "pt_waiting (pm m') (entry (pm m') p) \<noteq> 0"
  shows "\<exists>s s' m''. sys__exit T code (pm m') = thread_exit T s \<and> curproc s = p \<and> lock_idle s (GPT_lock s)
    \<and> exit_table p code (pm m') = Some (entry (pm m') p, s') \<and> same_table s' s \<and> proc_step m' m'' \<and> pm m'' = s'
    \<and> sched_ok s Th (woken_all (t_cpu (pm m')) (cv_wchan (pm m') (pt_waiting (pm m') (entry (pm m') p))) Q)"
proof -
  have "ptable_ok m'" using assms(2,1) by (rule proc_steps_ok)
  then have ok: "slots_ok (pm m') (pm_live m')" "family_ok (pm m') (pm_live m')" "memory_ok (pm m') (pm_live m')" by (simp_all add: ptable_ok_def)
  have p: "p \<in> pm_live m'" using assms(3) by (simp add: running_def)
  obtain s' where s': "exit_table p code (pm m') = Some (entry (pm m') p, s')" using exit_table_eq(1) [OF ok p assms(5)] by blast
  from proc_step.exit [OF assms(3) s'] have m: "\<exists>m''. proc_step m' m'' \<and> pm m'' = s'" by (auto simp: wake_sleepers_def)
  from exit_runs [OF ok p assms(4) s' assms(6-9)] m s' show ?thesis by blast
qed

lemma exit_does_its_step_witness:
  "\<exists>s s'. sys__exit (device_tables (\<lambda>_. null_device)) 7 (pm user_ptable) = thread_exit (device_tables (\<lambda>_. null_device)) s \<and> exit_table 150 7 (pm user_ptable) = Some (151, s') \<and> same_table s' s"
  using exit_does_its_step [OF user_ptable_ok rtranclp.rtrancl_refl user_sched(5,4) _ user_sched(1,2), of "device_tables (\<lambda>_. null_device)" 7] user_sched(3,6-11) by auto

text \<open>
  C5: The system call \<open>waitpid\<close> of a process reports ESRCH and ECHILD without a trace in the state, and
  puts the caller to sleep on the entry of a child that has not ended, with the lock of the table
  given back.  When it goes on, it gets the lock and reaps the entry as the step says.
\<close>

theorem waitpid_does_its_step:
  assumes "ptable_ok m" and "proc_step\<^sup>*\<^sup>* m m'"
    and "sched_ok (pm m') Th Q" and "\<not> c_isidle (pm m') (curcpu (pm m'))" and "lock_idle (pm m') (GPT_lock (pm m'))"
    and "\<forall>e\<in>set (Global_Proc_Table (pm m')) - {0}. pt_waiting (pm m') e \<noteq> 0"
  shows "(running m' (curproc (pm m')) \<and> 0 < t \<and> t < int MAX_PROCS \<longrightarrow>
      (case wait_target t (pm m') of
         None \<Rightarrow> False
       | Some (Inl x) \<Rightarrow> sys_waitpid a t st 0 (pm m') = Some (Inl x, pm m')
       | Some (Inr e) \<Rightarrow> \<exists>s. sys_waitpid a t st 0 (pm m') = Some (Inr (Inr e), s) \<and> same_table (pm m') s \<and> lk_available s (GPT_lock s)
           \<and> sched_ok s Th (switched (Wchan (cv_wchan (pm m') (pt_waiting (pm m') e))) (curthread (pm m')) (curcpu (pm m')) Q)
           \<and> proc_step m' (m'\<lparr>pm_sleep := (pm_sleep m')(curproc (pm m') \<mapsto> (t, st, e))\<rparr>)))
    \<and> (pm_woken m' q = Some (t', st', e') \<longrightarrow>
        (\<exists>r s. waitpid_awake a t' st' e' (pm m') = Some (r, s) \<and> lock_idle s (GPT_lock s)
           \<and> proc_step m' (m'\<lparr>pm := s, pm_woken := (pm_woken m')(q := None)\<rparr>)))"
proof (intro conjI impI)
  let ?s = "pm m'" and ?L = "pm_live m'" and ?p = "curproc (pm m')"
  have k: "ptable_ok m'" using assms(2,1) by (rule proc_steps_ok)
  then have ok: "slots_ok ?s ?L" "family_ok ?s ?L" "memory_ok ?s ?L" "waiters_ok m'" by (simp_all add: ptable_ok_def)
  have as: "as_proc ?p ?s = ?s" by (rule as_proc_id) simp
  show "case wait_target t ?s of
         None \<Rightarrow> False
       | Some (Inl x) \<Rightarrow> sys_waitpid a t st 0 ?s = Some (Inl x, ?s)
       | Some (Inr e) \<Rightarrow> \<exists>s. sys_waitpid a t st 0 ?s = Some (Inr (Inr e), s) \<and> same_table ?s s \<and> lk_available s (GPT_lock s)
           \<and> sched_ok s Th (switched (Wchan (cv_wchan ?s (pt_waiting ?s e))) (curthread ?s) (curcpu ?s) Q)
           \<and> proc_step m' (m'\<lparr>pm_sleep := (pm_sleep m')(?p \<mapsto> (t, st, e))\<rparr>)"
    if h: "running m' ?p \<and> 0 < t \<and> t < int MAX_PROCS"
  proof -
    have p: "?p \<in> ?L" and t: "0 < t" "t < int MAX_PROCS" using h by (simp_all add: running_def)
    note w = wait_target_eq [OF ok(1-3) p t, unfolded as]
    show ?thesis
    proof (cases "wait_target t ?s")
      case None
      then show ?thesis using w by simp
    next
      case (Some r)
      show ?thesis
      proof (cases r)
        case (Inl x)
        then show ?thesis using Some waitpid_fails [OF t(1) assms(5)] by simp
      next
        case (Inr e)
        then have e: "wait_target t ?s = Some (Inr e)" using Some by simp
        then have "e = Global_Proc_Table ?s ! nat t" "e \<noteq> 0" using w by (auto split: if_splits)
        moreover have "nat t < length (Global_Proc_Table ?s)" using slotsD(1) [OF ok(1)] t by simp
        ultimately have "pt_waiting ?s e \<noteq> 0" using assms(6) by simp
        note sl = waitpid_sleeps [OF ok(1-3) p refl t(1) e assms(3,4,5) this, of a st]
        have "\<not> pt_termed ?s e" using wait_target_live(1) [OF ok(1-3) p t(1), unfolded as, OF e] .
        then have "proc_step m' (m'\<lparr>pm_sleep := (pm_sleep m')(?p \<mapsto> (t, st, e))\<rparr>)"
          using proc_step.sleep [OF conjunct1 [OF h] t(1)] e as by simp
        then show ?thesis using sl e by auto
      qed
    qed
  qed
  show "\<exists>r s. waitpid_awake a t' st' e' ?s = Some (r, s) \<and> lock_idle s (GPT_lock s) \<and> proc_step m' (m'\<lparr>pm := s, pm_woken := (pm_woken m')(q := None)\<rparr>)"
    if h: "pm_woken m' q = Some (t', st', e')"
  proof -
    have "pt_termed ?s e'" using waitersD(2) [OF ok(4) h] by simp
    from waitpid_awakes [OF assms(5) this] show ?thesis using proc_step.reap [OF h] by blast
  qed
qed

lemma waitpid_does_its_step_witness: "sys_waitpid 0 5 0 0 (pm user_ptable) = Some (Inl ESRCH, pm user_ptable)"
proof -
  have w: "wait_target 5 (pm user_ptable) = Some (Inl ESRCH)" using user_sched(10) by (simp add: wait_target_def slot_def nth_Cons')
  have "\<forall>e\<in>set (Global_Proc_Table (pm user_ptable)) - {0}. pt_waiting (pm user_ptable) e \<noteq> 0" using user_sched(7) by simp
  from waitpid_does_its_step [OF user_ptable_ok rtranclp.rtrancl_refl user_sched(1,2) _ this, of 5 0 0]
  show ?thesis using user_sched(3-6) w by (simp add: MAX_PROCS_def)
qed

text \<open>
  C6: \<open>fork\<close> makes the child runnable before it enters it among the children of the parent.  If the child
  runs and ends in between, then the parent keeps a pointer to the freed structure of the child among
  its children, and follows it when it ends itself.
\<close>

theorem fork_child_ends_early:
  assumes "ptable_ok m" and "running m p" and "GLOBAL_PROC_COUNT (pm m) < MAX_PROCS" and "p_num_childs (pm m) p < MAX_CHILDS"
    and "kmalloc (pm m) = (c, s1)" and "c \<noteq> 0" and "kmalloc s1 = (e, s2)" and "e \<noteq> 0"
  shows "\<exists>s. exit_table c code (fork_create c e (as_proc p s2)) = Some (e, s) \<and> c \<in> kids (adopt p c s) p \<and> c \<notin> live (adopt p c s)
    \<and> exit_table p code' (adopt p c s) = None"
proof -
  let ?s = "pm m" and ?L = "pm_live m" and ?n = "ticks (pm m)"
  have sl: "slots_ok ?s ?L" and fm: "family_ok ?s ?L" and me: "memory_ok ?s ?L" using assms(1) by (simp_all add: ptable_ok_def)
  have pL: "p \<in> ?L" using assms(2) by (simp add: running_def)
  have c: "c = Suc ?n" "e = Suc (Suc ?n)" "s2 = ?s\<lparr>ticks := Suc (Suc ?n), live := insert e (insert c (live ?s))\<rparr>"
    using assms(5-8) by (auto simp: kmalloc_def Let_def split: if_splits)
  have km: "\<forall>x\<in>live ?s. 0 < x \<and> x \<le> ?n" "?L \<subseteq> live ?s" using me by (auto simp: memory_ok_def kmem_ok_def)
  have pl: "p \<in> live ?s" "p \<noteq> c" using km pL c(1) by force+
  obtain i where i: "first_idx (\<lambda>e. e = 0) (Global_Proc_Table ?s) = Some i" "i < MAX_PROCS" by (rule free_slot [OF sl assms(3)])
  obtain j where j: "first_idx (\<lambda>c. c = 0) (p_childs ?s p) = Some j" "j < MAX_CHILDS" by (rule free_child [OF fm pL assms(4)])
  have G: "first_idx (\<lambda>e. e = 0) (Global_Proc_Table s2) = Some i" "length (Global_Proc_Table s2) = MAX_PROCS" "p_childs s2 = p_childs ?s" "live s2 = insert e (insert c (live ?s))"
    using i slotsD(1) [OF sl] by (simp_all add: c(3))
  note f = race_fields [OF G(1) i(2) G(2) refl, of c e p]
  have nin: "c \<notin> set (p_childs ?s p)"
  proof
    assume "c \<in> set (p_childs ?s p)"
    then have "c \<in> ?L" using familyD(2) [OF fm, of p c] pL assms(6) by (simp add: kids_def)
    then show False using km c(1) by force
  qed
  let ?u = "fork_create c e (as_proc p s2)"
  obtain s where s: "exit_table c code ?u = Some (e, s)" "live s = live ?u - {c}" "p_childs s = p_childs ?u"
    using exit_childless [OF f(1) assms(8) _ f(4) f(3)] f(2,5) G(3,4) pl nin assms(6) by (metis (no_types, lifting) fun_upd_other fun_upd_same insertCI)
  have ps: "p_childs s p = p_childs ?s p" "c \<notin> live s" using s(2,3) f(2) G(3) pl(2) by simp_all
  have len: "length (p_childs ?s p) = MAX_CHILDS" using familyD(1) [OF fm, of p] pL by simp
  have ad: "adopt p c s = s\<lparr>p_num_childs := (p_num_childs s)(p := u32 (p_num_childs s p + 1)), p_childs := (p_childs s)(p := (p_childs ?s p)[j := c])\<rparr>"
    using ps(1) j(1) by (simp add: adopt_def add_child_def)
  have k: "c \<in> kids (adopt p c s) p" "c \<notin> live (adopt p c s)"
    using ad ps(2) assms(6) j(2) len set_update_memI [of j "p_childs ?s p" c] by (simp_all add: kids_def)
  show ?thesis using s(1) k exit_dangling [OF k] by blast
qed

lemma fork_child_ends_early_witness:
  "\<exists>(s2 :: unit procs) s. exit_table 201 0 (fork_create 201 202 (as_proc 150 s2)) = Some (202, s) \<and> exit_table 150 0 (adopt 150 201 s) = None"
proof -
  obtain s1 where s1: "kmalloc boot_proc = (201, s1)" "ticks s1 = 201" "oom s1 = oom boot_proc"
    using boot_proc_oom [of 200] by (simp add: kmalloc_def Let_def boot_proc_sel)
  obtain s2 where s2: "kmalloc s1 = (202, s2)" using boot_proc_oom [of 201] s1 by (simp add: kmalloc_def Let_def)
  have b: "running boot_ptable 150" "GLOBAL_PROC_COUNT (pm boot_ptable) < MAX_PROCS" "p_num_childs (pm boot_ptable) 150 < MAX_CHILDS" "kmalloc (pm boot_ptable) = (201, s1)"
    using s1(1) by (simp_all add: running_def boot_ptable_def boot_proc_sel MAX_PROCS_def MAX_CHILDS_def)
  show ?thesis using fork_child_ends_early [OF boot_ptable_ok b _ s2, of 0 0] by auto
qed

end
