(* ===== verification/Vfs_Mount.thy ===== *)
theory Vfs_Mount
  imports Device
begin

text \<open>
  The rest of \<open>kern/vfs/vfslist.c\<close>: adding devices and file systems to the table of known devices,
  mounting and unmounting, swap, and the operations on all file systems; \<open>devnull_create\<close>, and the
  shutdown of \<open>kern/main/main.c\<close>.  A device name is a value; the block that holds it is allocated and
  freed.  The function that \<open>vfs_mount\<close> calls to set up a file system is an argument.
\<close>

section \<open>Names\<close>

definition mkrawname :: "string \<Rightarrow> string" where
  "mkrawname name = name @ ''raw''"

text \<open>\<open>None\<close> is a NULL pointer.\<close>

definition samestring :: "string option \<Rightarrow> string option \<Rightarrow> bool" where
  "samestring a b = (if a = None \<or> b = None then False else a = b)"

definition samestring3 :: "string option \<Rightarrow> string option \<Rightarrow> string option \<Rightarrow> string option \<Rightarrow> bool" where
  "samestring3 a b c d = (samestring a b \<or> samestring a c \<or> samestring a d)"

fun badnames_in :: "('d, 'a) vfs_scheme optables \<Rightarrow> string option \<Rightarrow> string option \<Rightarrow> string option \<Rightarrow> nat list \<Rightarrow> ('d, 'a) vfs_scheme \<Rightarrow> bool option" where
  "badnames_in T n1 n2 n3 [] s = Some False"
| "badnames_in T n1 n2 n3 (i # is) s = do {
     kd \<leftarrow> array_get (knowndevs s) i;
     let fs = kd_fs s kd;
     if fs \<noteq> 0 \<and> fs \<noteq> SWAP_FS \<and> samestring3 (fsop_getvolname (fops T fs) fs s) n1 n2 n3 then Some True
     else if samestring3 (kd_rawname s kd) n1 n2 n3 \<or> samestring3 (Some (kd_name s kd)) n1 n2 n3 then Some True
     else badnames_in T n1 n2 n3 is s }"

definition badnames :: "('d, 'a) vfs_scheme optables \<Rightarrow> string option \<Rightarrow> string option \<Rightarrow> string option \<Rightarrow> ('d, 'a) vfs_scheme \<Rightarrow> bool option" where
  "badnames T n1 n2 n3 s = do {
     biglock_held s;
     badnames_in T n1 n2 n3 [0..<array_num (knowndevs s)] s }"

section \<open>Adding a device\<close>

text \<open>The label \<open>fail\<close> of \<open>vfs_doadd\<close>.\<close>

definition doadd_fail :: "('d, 'a) vfs_scheme optables \<Rightarrow> addr \<Rightarrow> addr \<Rightarrow> addr \<Rightarrow> addr \<Rightarrow> errno \<Rightarrow> (('d, 'a) vfs_scheme, unit) call" where
  "doadd_fail T name rawname vnode kd result s = do {
     s \<leftarrow> (if name \<noteq> 0 then kfree name s else Some s);
     s \<leftarrow> (if rawname \<noteq> 0 then kfree rawname s else Some s);
     s \<leftarrow> (if vnode \<noteq> 0 then dev_uncreate_vnode (dev_ops T) vnode s else Some s);
     s \<leftarrow> (if kd \<noteq> 0 then kfree kd s else Some s);
     Some (Inl result, s) }"

text \<open>From the allocation of the \<open>knowndev\<close> on.\<close>

definition doadd_enter :: "('d, 'a) vfs_scheme optables \<Rightarrow> string \<Rightarrow> bool \<Rightarrow> addr \<Rightarrow> addr \<Rightarrow> addr \<Rightarrow> addr \<Rightarrow> addr \<Rightarrow> (('d, 'a) vfs_scheme, unit) call" where
  "doadd_enter T dname mountable dev fs name rawname vnode s = (let (kd, s) = kmalloc s in
     if kd = 0 then doadd_fail T name rawname vnode 0 ENOMEM s
     else do {
       let raw = (if mountable then Some (mkrawname dname) else None);
       let s = s\<lparr>kd_name := (kd_name s)(kd := dname), kd_rawname := (kd_rawname s)(kd := raw), kd_device := (kd_device s)(kd := dev),
                 kd_vnode := (kd_vnode s)(kd := vnode), kd_fs := (kd_fs s)(kd := fs)\<rparr>;
       let volname = (if fs \<noteq> 0 then fsop_getvolname (fops T fs) fs s else None);
       bad \<leftarrow> badnames T (Some dname) raw volname s;
       if bad then doadd_fail T name rawname vnode kd EEXIST s
       else do {
         (result, devs, s) \<leftarrow> array_add (knowndevs s) kd s;
         let s = s\<lparr>knowndevs := devs\<rparr>;
         case result of
           Inl e \<Rightarrow> doadd_fail T name rawname vnode kd e s
         | Inr index \<Rightarrow>
             Some (Inr (), if dev \<noteq> 0 then s\<lparr>d_devnumber := (d_devnumber s)(dev := u32 (index + 1))\<rparr> else s) } })"

definition vfs_doadd :: "('d, 'a) vfs_scheme optables \<Rightarrow> string \<Rightarrow> bool \<Rightarrow> addr \<Rightarrow> addr \<Rightarrow> (('d, 'a) vfs_scheme, unit) call" where
  "vfs_doadd T dname mountable dev fs = biglocked (\<lambda>s.
     let (name, s) = kstrdup s in
     if name = 0 then doadd_fail T 0 0 0 0 ENOMEM s
     else
       let (rawname, s) = (if mountable then kmalloc s else (0, s)) in
       if mountable \<and> rawname = 0 then doadd_fail T name 0 0 0 ENOMEM s
       else do {
         (vnode, s) \<leftarrow> dev_create_vnode (dev_ops T) dev s;
         if vnode = 0 then doadd_fail T name rawname 0 0 ENOMEM s
         else doadd_enter T dname mountable dev fs name rawname vnode s })"

definition vfs_adddev :: "('d, 'a) vfs_scheme optables \<Rightarrow> string \<Rightarrow> addr \<Rightarrow> bool \<Rightarrow> (('d, 'a) vfs_scheme, unit) call" where
  "vfs_adddev T devname dev mountable = vfs_doadd T devname mountable dev 0"

definition vfs_addfs :: "('d, 'a) vfs_scheme optables \<Rightarrow> string \<Rightarrow> addr \<Rightarrow> (('d, 'a) vfs_scheme, unit) call" where
  "vfs_addfs T devname fs = vfs_doadd T devname False 0 fs"

text \<open>Running out of memory here is a panic.\<close>

definition devnull_create :: "('d, 'a) vfs_scheme optables \<Rightarrow> ('d, 'a) vfs_scheme \<Rightarrow> ('d, 'a) vfs_scheme option" where
  "devnull_create T s = do {
     let (dev, s) = kmalloc s;
     kassert (dev \<noteq> 0);
     let s = s\<lparr>d_devnumber := (d_devnumber s)(dev := 0)\<rparr>;
     (result, s) \<leftarrow> vfs_adddev T ''null'' dev False s;
     case result of Inl e \<Rightarrow> None | Inr _ \<Rightarrow> Some s }"

definition vfs_bootstrap :: "('d, 'a) vfs_scheme optables \<Rightarrow> (('d, 'a) vfs_scheme \<Rightarrow> ('d, 'a) vfs_scheme option) \<Rightarrow> ('d, 'a) vfs_scheme
    \<Rightarrow> ('d, 'a) vfs_scheme option" where
  "vfs_bootstrap T semfs_bootstrap s = do {
     let (devs, s) = array_create s;
     a \<leftarrow> devs;
     let s = s\<lparr>knowndevs := a\<rparr>;
     (lk, s) \<leftarrow> lock_create s;
     let s = s\<lparr>vfs_biglock := lk\<rparr>;
     kassert (lk \<noteq> 0);
     let s = s\<lparr>vfs_biglock_depth := 0\<rparr>;
     s \<leftarrow> devnull_create T s;
     semfs_bootstrap s }"

section \<open>Mounting\<close>

fun findmount_in :: "string \<Rightarrow> nat list \<Rightarrow> ('d, 'a) vfs_scheme \<Rightarrow> (errno + addr) option" where
  "findmount_in devname [] s = Some (Inl ENODEV)"
| "findmount_in devname (i # is) s = do {
     dev \<leftarrow> array_get (knowndevs s) i;
     if kd_rawname s dev \<noteq> None \<and> devname = kd_name s dev then Some (Inr dev)
     else findmount_in devname is s }"

definition findmount :: "string \<Rightarrow> (('d, 'a) vfs_scheme, addr) call" where
  "findmount devname s = do {
     biglock_held s;
     r \<leftarrow> findmount_in devname [0..<array_num (knowndevs s)] s;
     Some (r, s) }"

definition set_fs :: "addr \<Rightarrow> addr \<Rightarrow> ('d, 'a) vfs_scheme \<Rightarrow> ('d, 'a) vfs_scheme" where
  "set_fs kd fs s = s\<lparr>kd_fs := (kd_fs s)(kd := fs)\<rparr>"

definition vfs_mount :: "string \<Rightarrow> (addr \<Rightarrow> (('d, 'a) vfs_scheme, addr) call) \<Rightarrow> (('d, 'a) vfs_scheme, unit) call" where
  "vfs_mount devname mountfunc = biglocked (on_ok (findmount devname) (\<lambda>kd s.
     if kd_fs s kd \<noteq> 0 then Some (Inl EBUSY, s)
     else do {
       kassert (kd_rawname s kd \<noteq> None);
       kassert (kd_device s kd \<noteq> 0);
       on_ok (mountfunc (kd_device s kd)) (\<lambda>fs s. do {
         kassert (fs \<noteq> 0);
         kassert (fs \<noteq> SWAP_FS);
         Some (Inr (), set_fs kd fs s) }) s }))"

definition attach_swap :: "string \<Rightarrow> (('d, 'a) vfs_scheme, addr) call" where
  "attach_swap devname = biglocked (on_ok (findmount devname) (\<lambda>kd s.
     if kd_fs s kd \<noteq> 0 then Some (Inl EBUSY, s)
     else do {
       kassert (kd_rawname s kd \<noteq> None);
       kassert (kd_device s kd \<noteq> 0);
       let s = set_fs kd SWAP_FS s;
       s \<leftarrow> vnode_incref (kd_vnode s kd) s;
       Some (Inr (kd_vnode s kd), s) }))"

text \<open>A colon (character 58) at the end of the name is cut off, in a copy of the name.\<close>

definition vfs_swapon :: "string \<Rightarrow> (('d, 'a) vfs_scheme, addr) call" where
  "vfs_swapon devname s = do {
     let colon = (devname \<noteq> [] \<and> last devname = CHR '':'');
     let (myname, s) = (if colon then kstrdup s else (0, s));
     if colon \<and> myname = 0 then Some (Inl ENOMEM, s)
     else do {
       (result, s) \<leftarrow> attach_swap (if colon then butlast devname else devname) s;
       s \<leftarrow> (if myname \<noteq> 0 then kfree myname s else Some s);
       Some (result, s) } }"

definition vfs_unmount :: "('d, 'a) vfs_scheme optables \<Rightarrow> string \<Rightarrow> (('d, 'a) vfs_scheme, unit) call" where
  "vfs_unmount T devname = biglocked (on_ok (findmount devname) (\<lambda>kd s.
     if kd_fs s kd = 0 \<or> kd_fs s kd = SWAP_FS then Some (Inl EINVAL, s)
     else do {
       kassert (kd_rawname s kd \<noteq> None);
       kassert (kd_device s kd \<noteq> 0);
       on_ok (fsop_sync (fops T (kd_fs s kd)) (kd_fs s kd)) (\<lambda>_ s.
         on_ok (fsop_unmount (fops T (kd_fs s kd)) (kd_fs s kd)) (\<lambda>_ s.
           Some (Inr (), set_fs kd 0 s)) s) s }))"

definition vfs_swapoff :: "string \<Rightarrow> (('d, 'a) vfs_scheme, unit) call" where
  "vfs_swapoff devname = biglocked (on_ok (findmount devname) (\<lambda>kd s.
     if kd_fs s kd \<noteq> SWAP_FS then Some (Inl EINVAL, s)
     else Some (Inr (), set_fs kd 0 s)))"

section \<open>All file systems\<close>

fun sync_all :: "('d, 'a) vfs_scheme optables \<Rightarrow> nat list \<Rightarrow> ('d, 'a) vfs_scheme \<Rightarrow> ('d, 'a) vfs_scheme option" where
  "sync_all T [] s = Some s"
| "sync_all T (i # is) s = do {
     dev \<leftarrow> array_get (knowndevs s) i;
     let fs = kd_fs s dev;
     s \<leftarrow> (if fs \<noteq> 0 \<and> fs \<noteq> SWAP_FS then do { (_, s) \<leftarrow> fsop_sync (fops T fs) fs s; Some s } else Some s);
     sync_all T is s }"

definition vfs_sync :: "('d, 'a) vfs_scheme optables \<Rightarrow> (('d, 'a) vfs_scheme, unit) call" where
  "vfs_sync T = biglocked (\<lambda>s. do { s \<leftarrow> sync_all T [0..<array_num (knowndevs s)] s; Some (Inr (), s) })"

text \<open>One file system of \<open>vfs_unmountall\<close>: two attempts to sync, then the unmount.\<close>

definition unmount_one :: "('d, 'a) vfs_scheme optables \<Rightarrow> addr \<Rightarrow> ('d, 'a) vfs_scheme \<Rightarrow> ('d, 'a) vfs_scheme option" where
  "unmount_one T dev s =
     (let fs = kd_fs s dev in
      if kd_rawname s dev = None \<or> fs = 0 then Some s
      else if fs = SWAP_FS then Some (set_fs dev 0 s)
      else do {
        (result, s) \<leftarrow> fsop_sync (fops T fs) fs s;
        (result, s) \<leftarrow> (case result of Inl _ \<Rightarrow> fsop_sync (fops T fs) fs s | Inr _ \<Rightarrow> Some (result, s));
        case result of
          Inl _ \<Rightarrow> Some s
        | Inr _ \<Rightarrow> do {
            (result, s) \<leftarrow> fsop_unmount (fops T fs) fs s;
            Some (case result of Inl _ \<Rightarrow> s | Inr _ \<Rightarrow> set_fs dev 0 s) } })"

fun unmount_all :: "('d, 'a) vfs_scheme optables \<Rightarrow> nat list \<Rightarrow> ('d, 'a) vfs_scheme \<Rightarrow> ('d, 'a) vfs_scheme option" where
  "unmount_all T [] s = Some s"
| "unmount_all T (i # is) s = do {
     dev \<leftarrow> array_get (knowndevs s) i;
     s \<leftarrow> unmount_one T dev s;
     unmount_all T is s }"

definition vfs_unmountall :: "('d, 'a) vfs_scheme optables \<Rightarrow> (('d, 'a) vfs_scheme, unit) call" where
  "vfs_unmountall T = biglocked (\<lambda>s. do { s \<leftarrow> unmount_all T [0..<array_num (knowndevs s)] s; Some (Inr (), s) })"

section \<open>Shutdown\<close>

definition shutdown :: "('d, 'a) vfs_scheme optables \<Rightarrow> ('d, 'a) vfs_scheme \<Rightarrow> ('d, 'a) vfs_scheme option" where
  "shutdown T s = do {
     (_, s) \<leftarrow> vfs_clearbootfs T s;
     (_, s) \<leftarrow> vfs_clearcurdir T s;
     (_, s) \<leftarrow> vfs_unmountall T s;
     thread_shutdown s }"

definition RB_REBOOT :: int where "RB_REBOOT = 0"
definition RB_HALT :: int where "RB_HALT = 1"
definition RB_POWEROFF :: int where "RB_POWEROFF = 2"

text \<open>\<open>Inr\<close>: the machine is switched off or starts again, and the call does not return.\<close>

definition sys_reboot :: "('d, 'a) vfs_scheme optables \<Rightarrow> int \<Rightarrow> (('d, 'a) vfs_scheme, unit) call" where
  "sys_reboot T code s =
     (if code \<notin> {RB_REBOOT, RB_HALT, RB_POWEROFF} then Some (Inl EINVAL, s)
      else do { s \<leftarrow> shutdown T s; Some (Inr (), s) })"

section \<open>Work under the big lock\<close>

lemma biglocked_eq:
  assumes "lock_idle s (vfs_biglock s)" "vfs_biglock_depth s = 0" and "f (entered s) = Some (r, entered s1)"
    and "lock_idle s1 (vfs_biglock s1)" "vfs_biglock_depth s1 = 0"
  shows "biglocked f s = Some (r, s1)"
proof -
  let ?l = "vfs_biglock s1"
  have m: "lock_mine (taken ?l s1) ?l" using assms(4) by (rule lk.mine_take)
  then have h: "lk_holder (entered s1) ?l = curthread (entered s1)" "?l \<noteq> 0" by (simp_all add: lock_mine_def entered_def)
  have e: "(entered s1)\<lparr>vfs_biglock_depth := 0\<rparr> = taken ?l s1" using assms(5) by (simp add: entered_def taken_def)
  have "vfs_biglock_release (entered s1) = Some s1"
    using h e assms(5) lk.leave [OF m] lk.drop_take [OF assms(4)] by (simp add: vfs_biglock_release_def lock_do_i_hold_def Let_def taken_def)
  then show ?thesis using assms(3) biglock_enter [OF assms(1,2)] by (simp add: biglocked_def)
qed

text \<open>The devices that can be mounted are found by their names.\<close>

definition mountable :: "('d, 'a) vfs_scheme \<Rightarrow> addr list \<Rightarrow> string \<Rightarrow> addr \<Rightarrow> bool" where
  "mountable s kds n kd \<longleftrightarrow> kd \<in> set kds \<and> kd_rawname s kd \<noteq> None \<and> kd_name s kd = n
     \<and> (\<forall>k\<in>set kds. kd_rawname s k \<noteq> None \<and> kd_name s k = n \<longrightarrow> k = kd)"

lemma findmount_in_eq:
  assumes "holds_list s (knowndevs s) kds" and "set is \<subseteq> {..<length kds}"
  shows "findmount_in n is s = Some (case filter (\<lambda>k. kd_rawname s k \<noteq> None \<and> kd_name s k = n) (map (nth kds) is) of [] \<Rightarrow> Inl ENODEV | k # _ \<Rightarrow> Inr k)"
  using assms(2) by (induction "is") (use array_get_eq [OF assms(1)] in auto)

lemma findmount_eq:
  assumes d: "devs_ok s kds" and h: "biglock_held s = Some ()"
  shows "mountable s kds n kd \<Longrightarrow> findmount n s = Some (Inr kd, s)"
    and "\<forall>k\<in>set kds. kd_rawname s k = None \<or> kd_name s k \<noteq> n \<Longrightarrow> findmount n s = Some (Inl ENODEV, s)"
proof -
  have a: "holds_list s (knowndevs s) kds" using d by (simp add: devs_ok_def)
  then have num: "array_num (knowndevs s) = length kds" by (simp add: holds_list_def array_num_def)
  let ?f = "filter (\<lambda>k. kd_rawname s k \<noteq> None \<and> kd_name s k = n) kds"
  have e: "findmount n s = Some (case ?f of [] \<Rightarrow> Inl ENODEV | k # _ \<Rightarrow> Inr k, s)"
    using findmount_in_eq [OF a, of "[0..<length kds]" n] h by (simp add: findmount_def num map_nth atLeast0LessThan)
  show "findmount n s = Some (Inr kd, s)" if m: "mountable s kds n kd"
  proof (cases ?f)
    case Nil
    then show ?thesis using m by (auto simp: mountable_def filter_empty_conv)
  next
    case (Cons k ks)
    then have "k \<in> set ?f" by simp
    then have "k = kd" using m by (auto simp: mountable_def)
    then show ?thesis using e Cons by simp
  qed
  show "findmount n s = Some (Inl ENODEV, s)" if "\<forall>k\<in>set kds. kd_rawname s k = None \<or> kd_name s k \<noteq> n"
  proof -
    have "?f = []" using that by (auto simp: filter_empty_conv)
    then show ?thesis using e by simp
  qed
qed

lemma entered_name [simp]: "kd_name (entered s) = kd_name s"
  by (simp add: entered_def taken_def)

lemma devs_entered [simp]: "devs_ok (entered s) kds = devs_ok s kds"
  by (simp add: devs_ok_def holds_list_def kmem_ok_def)

lemma mountable_entered [simp]: "mountable (entered s) kds n kd = mountable s kds n kd"
  by (simp add: mountable_def)

lemma set_fs_entered: "set_fs kd fs (entered s) = entered (set_fs kd fs s)"
  by (simp add: set_fs_def entered_def taken_def)

lemma set_fs_idle: "lock_idle (set_fs kd fs s) l = lock_idle s l" "vfs_biglock_depth (set_fs kd fs s) = vfs_biglock_depth s" "vfs_biglock (set_fs kd fs s) = vfs_biglock s"
proof -
  show "lock_idle (set_fs kd fs s) l = lock_idle s l" by (rule lock_idle_cong) (simp_all add: set_fs_def)
qed (simp_all add: set_fs_def)

text \<open>A call under the lock on the device that a name stands for.\<close>

lemma on_mountable:
  assumes r: "vfs_ready T s kds" and m: "mountable s kds n kd" and g: "g kd (entered s) = Some (r, entered s1)"
    and l: "lock_idle s1 (vfs_biglock s1)" "vfs_biglock_depth s1 = 0"
  shows "biglocked (on_ok (findmount n) g) s = Some (r, s1)"
proof -
  have i: "lock_idle s (vfs_biglock s)" "vfs_biglock_depth s = 0" "devs_ok (entered s) kds" using r by (simp_all add: vfs_ready_def names_ok_def)
  have m': "mountable (entered s) kds n kd" using m by simp
  have "findmount n (entered s) = Some (Inr kd, entered s)" by (rule findmount_eq(1) [OF i(3) entered_held [OF i(1)] m'])
  then have "on_ok (findmount n) g (entered s) = Some (r, entered s1)" using g by (simp add: on_ok_def)
  then show ?thesis by (rule biglocked_eq [OF i(1,2) _ l])
qed

lemma on_mountable_err:
  assumes "vfs_ready T s kds" and "mountable s kds n kd" and "g kd (entered s) = Some (Inl e, entered s)"
  shows "biglocked (on_ok (findmount n) g) s = Some (Inl e, s)"
  using on_mountable [of T s kds n kd g "Inl e" s] assms by (simp add: vfs_ready_def)

lemma not_mountable:
  assumes r: "vfs_ready T s kds" and m: "\<forall>k\<in>set kds. kd_rawname s k = None \<or> kd_name s k \<noteq> n"
  shows "biglocked (on_ok (findmount n) g) s = Some (Inl ENODEV, s)"
proof -
  have i: "lock_idle s (vfs_biglock s)" "vfs_biglock_depth s = 0" "devs_ok (entered s) kds" using r by (simp_all add: vfs_ready_def names_ok_def)
  have m': "\<forall>k\<in>set kds. kd_rawname (entered s) k = None \<or> kd_name (entered s) k \<noteq> n" using m by simp
  have "findmount n (entered s) = Some (Inl ENODEV, entered s)" by (rule findmount_eq(2) [OF i(3) entered_held [OF i(1)] m'])
  then have "on_ok (findmount n) g (entered s) = Some (Inl ENODEV, entered s)" by (simp add: on_ok_def)
  then show ?thesis by (rule biglocked_eq [OF i(1,2) _ i(1,2)])
qed

section \<open>Properties\<close>

text \<open>
  C31: A device that can be mounted is free, mounted or in use as swap.  \<open>vfs_mount\<close> and \<open>vfs_swapon\<close> are
  refused with EBUSY unless it is free, \<open>vfs_unmount\<close> unless it is mounted and \<open>vfs_swapoff\<close> unless it is
  swap with EINVAL, and all of them with ENODEV for any other name (names for \<open>vfs_swapon\<close> are without a final
  colon); a refused call leaves no trace.  Otherwise the call puts the device in its new state: \<open>vfs_unmount\<close>
  after it has synced and unmounted the file system.  When the file system fails, its error is returned and the
  device stays as it was.
\<close>

theorem mount_states:
  assumes r: "vfs_ready T s kds" and m: "mountable s kds n kd" and n: "n = [] \<or> last n \<noteq> CHR '':''" and low: "low s 1"
  shows "vfs_swapoff n s = Some (if kd_fs s kd = SWAP_FS then (Inr (), set_fs kd 0 s) else (Inl EINVAL, s))
    \<and> vfs_swapon n s = Some (if kd_fs s kd = 0 then (Inr (kd_vnode s kd),
        (set_fs kd SWAP_FS s)\<lparr>vn_refcount := (vn_refcount s)(kd_vnode s kd := vn_refcount s (kd_vnode s kd) + 1)\<rparr>) else (Inl EBUSY, s))
    \<and> (kd_fs s kd \<noteq> 0 \<longrightarrow> vfs_mount n f s = Some (Inl EBUSY, s))
    \<and> (\<forall>x s1. kd_fs s kd = 0 \<and> f (kd_device s kd) (entered s) = Some (x, entered s1) \<and> lock_idle s1 (vfs_biglock s1) \<and> vfs_biglock_depth s1 = 0
        \<and> (case x of Inl _ \<Rightarrow> True | Inr fs \<Rightarrow> fs \<noteq> 0 \<and> fs \<noteq> SWAP_FS) \<longrightarrow>
        vfs_mount n f s = Some (case x of Inl e \<Rightarrow> (Inl e, s1) | Inr fs \<Rightarrow> (Inr (), set_fs kd fs s1)))
    \<and> (kd_fs s kd = 0 \<or> kd_fs s kd = SWAP_FS \<longrightarrow> vfs_unmount T n s = Some (Inl EINVAL, s))
    \<and> (\<forall>e s1. kd_fs s kd \<noteq> 0 \<and> kd_fs s kd \<noteq> SWAP_FS \<and> fsop_sync (fops T (kd_fs s kd)) (kd_fs s kd) (entered s) = Some (Inl e, entered s1)
        \<and> lock_idle s1 (vfs_biglock s1) \<and> vfs_biglock_depth s1 = 0 \<longrightarrow> vfs_unmount T n s = Some (Inl e, s1))
    \<and> (\<forall>s1 x s2. kd_fs s kd \<noteq> 0 \<and> kd_fs s kd \<noteq> SWAP_FS \<and> fsop_sync (fops T (kd_fs s kd)) (kd_fs s kd) (entered s) = Some (Inr (), entered s1)
        \<and> kd_fs s1 kd = kd_fs s kd \<and> fsop_unmount (fops T (kd_fs s kd)) (kd_fs s kd) (entered s1) = Some (x, entered s2)
        \<and> lock_idle s2 (vfs_biglock s2) \<and> vfs_biglock_depth s2 = 0 \<longrightarrow>
        vfs_unmount T n s = Some (case x of Inl e \<Rightarrow> (Inl e, s2) | Inr _ \<Rightarrow> (Inr (), set_fs kd 0 s2)))
    \<and> (\<forall>k. (\<forall>j\<in>set kds. kd_rawname s j = None \<or> kd_name s j \<noteq> k) \<longrightarrow>
        vfs_mount k f s = Some (Inl ENODEV, s) \<and> vfs_unmount T k s = Some (Inl ENODEV, s) \<and> vfs_swapoff k s = Some (Inl ENODEV, s)
        \<and> (k = [] \<or> last k \<noteq> CHR '':'' \<longrightarrow> vfs_swapon k s = Some (Inl ENODEV, s)))"
proof -
  have i: "lock_idle s (vfs_biglock s)" "vfs_biglock_depth s = 0" and d: "devs_ok s kds" and v: "vnodes_ok T s"
    using r by (simp_all add: vfs_ready_def names_ok_def)
  have k: "kd_rawname s kd \<noteq> None" "kd_device s kd \<noteq> 0" "0 < vn_refcount s (kd_vnode s kd)"
    using m d by (auto simp: mountable_def devs_ok_def)
  note same = on_mountable_err [OF r m]
  have off: "vfs_swapoff n s = Some (if kd_fs s kd = SWAP_FS then (Inr (), set_fs kd 0 s) else (Inl EINVAL, s))"
  proof (cases "kd_fs s kd = SWAP_FS")
    case True
    have "vfs_swapoff n s = Some (Inr (), set_fs kd 0 s)"
      unfolding vfs_swapoff_def using True i by (intro on_mountable [OF r m]) (simp_all add: set_fs_entered set_fs_idle)
    then show ?thesis using True by simp
  next
    case False
    then have "vfs_swapoff n s = Some (Inl EINVAL, s)" unfolding vfs_swapoff_def by (intro same) simp
    then show ?thesis using False by simp
  qed
  have colon: "vfs_swapon n s = attach_swap n s"
  proof -
    have "(n \<noteq> [] \<and> last n = CHR '':'') = False" using n by auto
    then show ?thesis by (cases "attach_swap n s") (auto simp: vfs_swapon_def Let_def)
  qed
  have on: "vfs_swapon n s = Some (if kd_fs s kd = 0 then (Inr (kd_vnode s kd),
        (set_fs kd SWAP_FS s)\<lparr>vn_refcount := (vn_refcount s)(kd_vnode s kd := vn_refcount s (kd_vnode s kd) + 1)\<rparr>) else (Inl EBUSY, s))"
  proof (cases "kd_fs s kd = 0")
    case True
    let ?s = "(set_fs kd SWAP_FS s)\<lparr>vn_refcount := (vn_refcount s)(kd_vnode s kd := vn_refcount s (kd_vnode s kd) + 1)\<rparr>"
    have v0: "kd_vnode s kd \<noteq> 0" using vnode_checkD [OF v k(3)] by (auto simp: vnode_check_def split: if_splits)
    have "vn_refcount s (kd_vnode s kd) + 1 \<le> 2147483647" using low by (simp only: low_def)
    then have "s32 (vn_refcount s (kd_vnode s kd) + 1) = vn_refcount s (kd_vnode s kd) + 1" using k(3) by (intro s32_id) auto
    then have inc: "vnode_incref (kd_vnode s kd) (set_fs kd SWAP_FS (entered s)) = Some (entered ?s)"
      using v0 by (simp add: vnode_incref_def set_fs_def entered_def taken_def)
    have l: "lock_idle ?s (vfs_biglock ?s)" "vfs_biglock_depth ?s = 0"
      using i lock_idle_cong [of ?s s] by (simp_all add: set_fs_def)
    have nm: "kd_vnode (set_fs kd SWAP_FS (entered s)) = kd_vnode s" by (simp add: set_fs_def)
    have "attach_swap n s = Some (Inr (kd_vnode s kd), ?s)"
      unfolding attach_swap_def using True k inc nm by (intro on_mountable [OF r m _ l]) (simp add: set_fs_def)
    then show ?thesis using True colon by simp
  next
    case False
    have "attach_swap n s = Some (Inl EBUSY, s)" unfolding attach_swap_def using False by (intro same) simp
    then show ?thesis using False colon by simp
  qed
  have mount: "vfs_mount n f s = Some (Inl EBUSY, s)" if "kd_fs s kd \<noteq> 0" unfolding vfs_mount_def using that by (intro same) simp
  have mounts: "vfs_mount n f s = Some (case x of Inl e \<Rightarrow> (Inl e, s1) | Inr fs \<Rightarrow> (Inr (), set_fs kd fs s1))"
    if "kd_fs s kd = 0 \<and> f (kd_device s kd) (entered s) = Some (x, entered s1) \<and> lock_idle s1 (vfs_biglock s1) \<and> vfs_biglock_depth s1 = 0
        \<and> (case x of Inl _ \<Rightarrow> True | Inr fs \<Rightarrow> fs \<noteq> 0 \<and> fs \<noteq> SWAP_FS)" for x s1
  proof -
    let ?r = "case x of Inl e \<Rightarrow> Inl e | Inr fs \<Rightarrow> Inr ()" and ?s = "case x of Inl e \<Rightarrow> s1 | Inr fs \<Rightarrow> set_fs kd fs s1"
    have "vfs_mount n f s = Some (?r, ?s)"
      unfolding vfs_mount_def using that k by (intro on_mountable [OF r m]) (cases x, simp_all add: on_ok_def set_fs_entered set_fs_idle)+
    then show ?thesis by (simp split: sum.splits)
  qed
  have unmount: "vfs_unmount T n s = Some (Inl EINVAL, s)" if "kd_fs s kd = 0 \<or> kd_fs s kd = SWAP_FS"
    unfolding vfs_unmount_def using that by (intro same) auto
  have sync_fails: "vfs_unmount T n s = Some (Inl e, s1)"
    if "kd_fs s kd \<noteq> 0 \<and> kd_fs s kd \<noteq> SWAP_FS \<and> fsop_sync (fops T (kd_fs s kd)) (kd_fs s kd) (entered s) = Some (Inl e, entered s1)
        \<and> lock_idle s1 (vfs_biglock s1) \<and> vfs_biglock_depth s1 = 0" for e s1
    unfolding vfs_unmount_def using that k by (intro on_mountable [OF r m]) (simp_all add: on_ok_def)
  have unmounts: "vfs_unmount T n s = Some (case x of Inl e \<Rightarrow> (Inl e, s2) | Inr _ \<Rightarrow> (Inr (), set_fs kd 0 s2))"
    if "kd_fs s kd \<noteq> 0 \<and> kd_fs s kd \<noteq> SWAP_FS \<and> fsop_sync (fops T (kd_fs s kd)) (kd_fs s kd) (entered s) = Some (Inr (), entered s1)
        \<and> kd_fs s1 kd = kd_fs s kd \<and> fsop_unmount (fops T (kd_fs s kd)) (kd_fs s kd) (entered s1) = Some (x, entered s2)
        \<and> lock_idle s2 (vfs_biglock s2) \<and> vfs_biglock_depth s2 = 0" for s1 x s2
  proof -
    let ?r = "case x of Inl e \<Rightarrow> Inl e | Inr _ \<Rightarrow> Inr ()" and ?s = "case x of Inl e \<Rightarrow> s2 | Inr _ \<Rightarrow> set_fs kd 0 s2"
    have "vfs_unmount T n s = Some (?r, ?s)"
      unfolding vfs_unmount_def using that k by (intro on_mountable [OF r m]) (cases x, simp_all add: on_ok_def set_fs_entered set_fs_idle)+
    then show ?thesis by (simp split: sum.splits)
  qed
  have none: "vfs_mount k f s = Some (Inl ENODEV, s) \<and> vfs_unmount T k s = Some (Inl ENODEV, s) \<and> vfs_swapoff k s = Some (Inl ENODEV, s)
      \<and> (k = [] \<or> last k \<noteq> CHR '':'' \<longrightarrow> vfs_swapon k s = Some (Inl ENODEV, s))"
    if "\<forall>j\<in>set kds. kd_rawname s j = None \<or> kd_name s j \<noteq> k" for k
  proof -
    have "attach_swap k s = Some (Inl ENODEV, s)" unfolding attach_swap_def by (rule not_mountable [OF r that])
    then have "vfs_swapon k s = Some (Inl ENODEV, s)" if "k = [] \<or> last k \<noteq> CHR '':''" using that by (auto simp: vfs_swapon_def Let_def)
    moreover have "vfs_mount k f s = Some (Inl ENODEV, s)" "vfs_unmount T k s = Some (Inl ENODEV, s)" "vfs_swapoff k s = Some (Inl ENODEV, s)"
      unfolding vfs_mount_def vfs_unmount_def vfs_swapoff_def by (rule not_mountable [OF r that])+
    ultimately show ?thesis by blast
  qed
  show ?thesis by (intro conjI allI off on) (blast intro: mount mounts unmount sync_fails unmounts dest: none)+
qed

lemma mount_states_witness:
  "vfs_swapoff ''lhd0'' (boot_vfs\<lparr>kd_name := \<lambda>_. ''lhd0'', kd_rawname := \<lambda>_. Some ''lhd0raw'', kd_fs := \<lambda>_. SWAP_FS\<rparr>)
    = Some (Inr (), set_fs 21 0 (boot_vfs\<lparr>kd_name := \<lambda>_. ''lhd0'', kd_rawname := \<lambda>_. Some ''lhd0raw'', kd_fs := \<lambda>_. SWAP_FS\<rparr>))"
proof -
  let ?s = "boot_vfs\<lparr>kd_name := \<lambda>_. ''lhd0'', kd_rawname := \<lambda>_. Some ''lhd0raw'', kd_fs := \<lambda>_. SWAP_FS\<rparr>"
  have "lock_idle ?s l = lock_idle boot_vfs l" for l by (rule lock_idle_cong) simp_all
  then have "vfs_ready (device_tables (\<lambda>_. null_device)) ?s [21]"
    by (auto simp: vfs_ready_def names_ok_def vnodes_ok_def devs_ok_def holds_list_def kmem_ok_def vnode_check_def own_def curproc_def
      boot_vfs_sel boot_vfs_idle deadbeef_def device_tables_def dev_vnode_ops_def)
  moreover have "mountable ?s [21] ''lhd0'' 21" by (simp add: mountable_def)
  moreover have "low ?s 1" using boot_vfs_low [of 1] by (simp add: low_def)
  ultimately show ?thesis using mount_states [of _ ?s "[21]" "''lhd0''" 21] by simp
qed

end
