(* ===== verification/Exec.thy ===== *)
theory Exec
  imports Proc
begin

text \<open>
  Starting a program: the ELF loader \<open>kern/syscall/loadelf.c\<close>, \<open>kern/syscall/runprogram.c\<close> and
  \<open>kern/syscall/execv_syscall.c\<close>.  Structures that are read from a file lie in memory at an address that
  is an argument, and their fields are read from there, most significant byte first.  A call that
  enters user mode returns the trapframe it enters with.  What user memory holds after the switch to
  another address space is left to the machine: the model keeps the bytes.
\<close>

section \<open>Structures in memory\<close>

definition byte_at_addr :: "memory \<Rightarrow> nat \<Rightarrow> nat" where
  "byte_at_addr m a = unat (m a)"

definition half_at :: "memory \<Rightarrow> nat \<Rightarrow> nat" where
  "half_at m a = byte_at_addr m a * 256 + byte_at_addr m (a + 1)"

definition word_at :: "memory \<Rightarrow> nat \<Rightarrow> nat" where
  "word_at m a = half_at m a * 65536 + half_at m (a + 2)"

definition sizeof_Ehdr :: nat where "sizeof_Ehdr = 52"
definition sizeof_Phdr :: nat where "sizeof_Phdr = 32"

record Elf_Ehdr =
  e_ident :: "nat list"
  e_type :: nat
  e_machine :: nat
  e_version :: nat
  e_entry :: nat
  e_phoff :: nat
  e_phentsize :: nat
  e_phnum :: nat

record Elf_Phdr =
  p_type :: nat
  p_offset :: nat
  p_vaddr :: nat
  p_filesz :: nat
  p_memsz :: nat
  p_flags :: nat

definition ehdr_at :: "memory \<Rightarrow> nat \<Rightarrow> Elf_Ehdr" where
  "ehdr_at m a = \<lparr>e_ident = map (\<lambda>i. byte_at_addr m (a + i)) [0..<16], e_type = half_at m (a + 16), e_machine = half_at m (a + 18),
     e_version = word_at m (a + 20), e_entry = word_at m (a + 24), e_phoff = word_at m (a + 28),
     e_phentsize = half_at m (a + 42), e_phnum = half_at m (a + 44)\<rparr>"

definition phdr_at :: "memory \<Rightarrow> nat \<Rightarrow> Elf_Phdr" where
  "phdr_at m a = \<lparr>p_type = word_at m a, p_offset = word_at m (a + 4), p_vaddr = word_at m (a + 8), p_filesz = word_at m (a + 16),
     p_memsz = word_at m (a + 20), p_flags = word_at m (a + 24)\<rparr>"

definition PT_NULL :: nat where "PT_NULL = 0"
definition PT_LOAD :: nat where "PT_LOAD = 1"
definition PT_PHDR :: nat where "PT_PHDR = 6"
definition PT_MIPS_REGINFO :: nat where "PT_MIPS_REGINFO = 0x70000000"
definition PF_X :: nat where "PF_X = 1"

text \<open>The magic number, \<open>ELFCLASS32\<close>, \<open>ELFDATA2MSB\<close>, \<open>EV_CURRENT\<close>, \<open>ET_EXEC\<close> and \<open>EM_MIPS\<close>.\<close>

definition elf_header_ok :: "Elf_Ehdr \<Rightarrow> bool" where
  "elf_header_ok eh \<longleftrightarrow> e_ident eh ! 0 = 0x7f \<and> e_ident eh ! 1 = 0x45 \<and> e_ident eh ! 2 = 0x4c \<and> e_ident eh ! 3 = 0x46
     \<and> e_ident eh ! 4 = 1 \<and> e_ident eh ! 5 = 2 \<and> e_ident eh ! 6 = 1 \<and> e_version eh = 1 \<and> e_type eh = 2 \<and> e_machine eh = 8"

section \<open>The loader\<close>

definition load_segment :: "('d, 'a) procs_scheme optables \<Rightarrow> addr \<Rightarrow> addr \<Rightarrow> int \<Rightarrow> nat \<Rightarrow> nat \<Rightarrow> nat \<Rightarrow> bool
    \<Rightarrow> (('d, 'a) procs_scheme, unit) call" where
  "load_segment T as v offset vaddr memsize filesize is_executable =
     (let filesize = (if filesize > memsize then memsize else filesize);
          u = \<lparr>uio_iov = [(vaddr, memsize)], uio_offset = offset, uio_resid = filesize,
               uio_segflg = if is_executable then UIO_USERISPACE else UIO_USERSPACE, uio_rw = UIO_READ, uio_space = as\<rparr>
      in on_ok (VOP T (\<lambda>ops v. vop_read ops v u) v) (\<lambda>u s.
        if uio_resid u \<noteq> 0 then Some (Inl ENOEXEC, s) else Some (Inr (), s)))"

text \<open>The shape \<open>uio_kinit\<close>, \<open>VOP_READ\<close>, and an error unless everything was read.\<close>

definition read_struct :: "('d, 'a) procs_scheme optables \<Rightarrow> addr \<Rightarrow> nat \<Rightarrow> nat \<Rightarrow> int \<Rightarrow> (('d, 'a) procs_scheme, unit) call" where
  "read_struct T v kaddr sz offset =
     on_ok (VOP T (\<lambda>ops v. vop_read ops v (uio_kinit kaddr sz offset UIO_READ)) v) (\<lambda>ku s.
       if uio_resid ku \<noteq> 0 then Some (Inl ENOEXEC, s) else Some (Inr (), s))"

text \<open>
  The two loops over the program headers are one, with what is done to a segment as an argument.
  \<open>kph\<close> is the address of \<open>ph\<close>.
\<close>

fun each_segment :: "('d, 'a) procs_scheme optables \<Rightarrow> addr \<Rightarrow> nat \<Rightarrow> Elf_Ehdr \<Rightarrow> (Elf_Phdr \<Rightarrow> (('d, 'a) procs_scheme, unit) call)
    \<Rightarrow> nat list \<Rightarrow> (('d, 'a) procs_scheme, unit) call" where
  "each_segment T v kph eh f [] s = Some (Inr (), s)"
| "each_segment T v kph eh f (i # is) s =
     on_ok (read_struct T v kph sizeof_Phdr (int (u32 (e_phoff eh + i * e_phentsize eh)))) (\<lambda>_ s.
       let ph = phdr_at (bytes (user_mem s)) kph in
       if p_type ph \<in> {PT_NULL, PT_PHDR, PT_MIPS_REGINFO} then each_segment T v kph eh f is s
       else if p_type ph \<noteq> PT_LOAD then Some (Inl ENOEXEC, s)
       else on_ok (f ph) (\<lambda>_ s. each_segment T v kph eh f is s) s) s"

text \<open>\<open>keh\<close> is the address of \<open>eh\<close>; the result is the entry point.\<close>

definition load_elf :: "nat \<Rightarrow> nat \<Rightarrow> ('d, 'a) procs_scheme optables \<Rightarrow> addr \<Rightarrow> (('d, 'a) procs_scheme, nat) call" where
  "load_elf keh kph T v s =
     (let as = proc_getas s in
      on_ok (read_struct T v keh sizeof_Ehdr 0) (\<lambda>_ s.
        let eh = ehdr_at (bytes (user_mem s)) keh in
        if \<not> elf_header_ok eh then Some (Inl ENOEXEC, s)
        else on_ok (each_segment T v kph eh (\<lambda>ph. on_vm (as_define_region as (p_vaddr ph) (p_memsz ph))) [0..<e_phnum eh]) (\<lambda>_.
          on_ok (on_vm (as_prepare_load as)) (\<lambda>_.
            on_ok (each_segment T v kph eh (\<lambda>ph. load_segment T as v (int (p_offset ph)) (p_vaddr ph) (p_memsz ph) (p_filesz ph)
                     (p_flags ph AND PF_X \<noteq> 0)) [0..<e_phnum eh]) (\<lambda>_.
              on_ok (on_vm (as_complete_load as)) (\<lambda>_ s. Some (Inr (e_entry eh), s))))) s) s)"

section \<open>Entering a new program\<close>

text \<open>\<open>0xff0c\<close>: interrupts on, and user mode.\<close>

definition enter_new_process :: "nat \<Rightarrow> nat \<Rightarrow> nat \<Rightarrow> nat \<Rightarrow> nat \<Rightarrow> trapframe" where
  "enter_new_process argc argv env stack entry =
     \<lparr>tf_vaddr = 0, tf_status = 0xff0c, tf_cause = 0, tf_v0 = 0, tf_v1 = 0, tf_a0 = argc, tf_a1 = argv, tf_a2 = env, tf_a3 = 0,
       tf_sp = stack, tf_epc = entry\<rparr>"

text \<open>\<open>proc_setas\<close> and \<open>as_activate\<close>.\<close>

definition switch_to :: "addr \<Rightarrow> ('d, 'a) procs_scheme \<Rightarrow> ('d, 'a) procs_scheme option" where
  "switch_to as s = do {
     (_, s) \<leftarrow> proc_setas as s;
     let s = s\<lparr>user_mem := (user_mem s)\<lparr>current_as := as\<rparr>\<rparr>;
     (_, s) \<leftarrow> on_vm (\<lambda>v. Some ((), as_activate as v)) s;
     Some s }"

definition new_space :: "('d, 'a) procs_scheme \<Rightarrow> (addr \<times> ('d, 'a) procs_scheme) option" where
  "new_space = on_vm (\<lambda>v. Some (as_create v))"

definition runprogram :: "nat \<Rightarrow> nat \<Rightarrow> ('d, 'a) procs_scheme optables \<Rightarrow> string \<Rightarrow> (('d, 'a) procs_scheme, trapframe) call" where
  "runprogram keh kph T progname = on_ok (vfs_open T progname O_RDONLY 0) (\<lambda>v s. do {
     kassert (proc_getas s = 0);
     (as, s) \<leftarrow> new_space s;
     if as = 0 then do { s \<leftarrow> vfs_close T v s; Some (Inl ENOMEM, s) }
     else do {
       s \<leftarrow> switch_to as s;
       (r, s) \<leftarrow> load_elf keh kph T v s;
       s \<leftarrow> vfs_close T v s;
       case r of
         Inl e \<Rightarrow> Some (Inl e, s)
       | Inr entrypoint \<Rightarrow> on_ok (on_vm (as_define_stack as)) (\<lambda>stackptr s.
           Some (Inr (enter_new_process 0 0 0 stackptr entrypoint), s)) s } })"

section \<open>execv\<close>

definition ARG_MAX_LEN :: nat where "ARG_MAX_LEN = 128"

text \<open>The string at an address; one without an end stops the machine.\<close>

definition cstring_at :: "memory \<Rightarrow> nat \<Rightarrow> string option" where
  "cstring_at m a = do { n \<leftarrow> strlen a m; Some (chars_at m a n) }"

definition word_bytes :: "nat \<Rightarrow> byte list" where
  "word_bytes x = map (\<lambda>k. of_nat (x div 256 ^ k)) [3, 2, 1, 0]"

text \<open>
  The loop that counts the arguments; \<open>knext\<close> is the address of \<open>next_arg\<close>.  The result of \<open>copyin\<close> is
  not looked at, so the loop need not end.
\<close>

partial_function (option) count_args :: "nat \<Rightarrow> nat \<Rightarrow> nat \<Rightarrow> umem \<Rightarrow> (nat \<times> umem) option" where
  "count_args args knext arg_c um =
     (if word_at (bytes um) knext \<noteq> 0 then
        count_args args knext (arg_c + 1) (snd (copyin (u32 (args + 4 * (arg_c + 1))) knext 4 um))
      else Some (arg_c, um))"

definition copy_pointers :: "nat \<Rightarrow> nat \<Rightarrow> nat \<Rightarrow> umem \<Rightarrow> umem" where
  "copy_pointers args dest arg_c um = fold (\<lambda>i um. snd (copyin (u32 (args + 4 * i)) (dest + 4 * i) 4 um)) [0..<arg_c] um"

text \<open>
  The loop that copies the strings.  A string that does not fit leads to \<open>kfree(&next_arg)\<close>, and \<open>kfree\<close>
  panics on an address that is not in the heap.
\<close>

fun copy_strings :: "(addr \<Rightarrow> nat) \<Rightarrow> nat \<Rightarrow> nat list \<Rightarrow> ('d, 'a) procs_scheme \<Rightarrow> (addr list \<times> ('d, 'a) procs_scheme) option" where
  "copy_strings kaddr ptrs [] s = Some ([], s)"
| "copy_strings kaddr ptrs (i # is) s = do {
     let (block, s) = kmalloc s;
     kassert (block \<noteq> 0);
     let s = s\<lparr>user_mem := snd (copyinstr (word_at (bytes (user_mem s)) (ptrs + 4 * i)) (kaddr block) ARG_MAX_LEN (user_mem s))\<rparr>;
     kassert (bytes (user_mem s) (kaddr block + ARG_MAX_LEN - 1) = 0);
     (blocks, s) \<leftarrow> copy_strings kaddr ptrs is s;
     Some (block # blocks, s) }"

definition place_args :: "(addr \<Rightarrow> nat) \<Rightarrow> addr list \<Rightarrow> nat \<Rightarrow> umem \<Rightarrow> umem" where
  "place_args kaddr blocks stackptr um =
     fold (\<lambda>(i, b) um. snd (copyoutstr (kaddr b) (u32 (stackptr + ARG_MAX_LEN * i)) ARG_MAX_LEN um)) (enumerate 0 blocks) um"

text \<open>From the creation of the address space on.\<close>

definition exec_load :: "nat \<Rightarrow> nat \<Rightarrow> (addr \<Rightarrow> nat) \<Rightarrow> ('d, 'a) procs_scheme optables \<Rightarrow> addr \<Rightarrow> addr list \<Rightarrow> (('d, 'a) procs_scheme, trapframe) call" where
  "exec_load keh kph kaddr T v k_args s = do {
     (as, s) \<leftarrow> new_space s;
     if as = 0 then do { s \<leftarrow> vfs_close T v s; Some (Inl ENOMEM, s) }
     else do {
       s \<leftarrow> switch_to as s;
       (r, s) \<leftarrow> load_elf keh kph T v s;
       case r of
         Inl e \<Rightarrow> do { s \<leftarrow> vfs_close T v s; Some (Inl e, s) }
       | Inr entrypoint \<Rightarrow> do {
           (_, s) \<leftarrow> on_vm (as_complete_load as) s;
           s \<leftarrow> vfs_close T v s;
           on_ok (on_vm (as_define_stack as)) (\<lambda>stackptr s.
             let s = s\<lparr>user_mem := place_args kaddr k_args stackptr (user_mem s)\<rparr> in
             Some (Inr (enter_new_process 0 0 0 stackptr entrypoint), s)) s } } }"

text \<open>\<open>kaddr\<close> gives the address of a block, and \<open>knext\<close> is the address of \<open>next_arg\<close>.\<close>

definition sys_execv :: "nat \<Rightarrow> nat \<Rightarrow> nat \<Rightarrow> (addr \<Rightarrow> nat) \<Rightarrow> ('d, 'a) procs_scheme optables \<Rightarrow> nat \<Rightarrow> nat
    \<Rightarrow> (('d, 'a) procs_scheme, trapframe) call" where
  "sys_execv keh kph knext kaddr T progname args s =
     (if progname = 0 then Some (Inl ENOENT, s)
      else
        let (k_progname, s) = kmalloc s in
        if k_progname = 0 then Some (Inl ENOMEM, s)
        else do {
          let s = s\<lparr>user_mem := snd (copyinstr progname (kaddr k_progname) MAX_FILENAME_LEN (user_mem s))\<rparr>;
          path \<leftarrow> cstring_at (bytes (user_mem s)) (kaddr k_progname);
          on_ok (vfs_open T path O_RDONLY 0) (\<lambda>v s. do {
            let (next_arg, s) = kmalloc s;
            let um = (user_mem s)\<lparr>bytes := put_bytes_at knext (word_bytes (if next_arg = 0 then 0 else kaddr next_arg)) (bytes (user_mem s))\<rparr>;
            (arg_c, um) \<leftarrow> count_args args knext 0 (snd (copyin args knext 4 um));
            let (arg_ptrs, s) = kmalloc (s\<lparr>user_mem := um\<rparr>);
            kassert (arg_c = 0 \<or> arg_ptrs \<noteq> 0);
            let s = s\<lparr>user_mem := copy_pointers args (kaddr arg_ptrs) arg_c (user_mem s)\<rparr>;
            let (k_args, s) = kmalloc s;
            kassert (arg_c = 0 \<or> k_args \<noteq> 0);
            (blocks, s) \<leftarrow> copy_strings kaddr (kaddr arg_ptrs) [0..<arg_c] s;
            exec_load keh kph kaddr T v blocks s }) s })"

text \<open>
  The initial stack pointer is the first address behind the user's memory, so none of the arguments
  reaches the new program.
\<close>

lemma arguments_are_lost:
  assumes "length blocks \<le> 2 ^ 24"
  shows "place_args kaddr blocks USERSTACK um = um"
proof -
  have f: "fold (\<lambda>(i, b) um. snd (copyoutstr (kaddr b) (u32 (USERSTACK + ARG_MAX_LEN * i)) ARG_MAX_LEN um)) xs um = um"
    if "\<forall>(i, b)\<in>set xs. i < 2 ^ 24" for xs
    using that
  proof (induction xs arbitrary: um)
    case (Cons x xs)
    obtain i b where x: "x = (i, b)" by (cases x)
    have "u32 (USERSTACK + ARG_MAX_LEN * i) = USERSTACK + ARG_MAX_LEN * i" using Cons.prems x by (intro u32_id) (simp add: USERSTACK_def ARG_MAX_LEN_def)
    then have "copycheck (u32 (USERSTACK + ARG_MAX_LEN * i)) ARG_MAX_LEN = Inl EFAULT"
      by (simp add: copycheck_def Let_def USERSTACK_def USERSPACETOP_def)
    then have "snd (copyoutstr (kaddr b) (u32 (USERSTACK + ARG_MAX_LEN * i)) ARG_MAX_LEN um) = um" by (simp add: copyoutstr_def)
    then show ?case using Cons x by simp
  qed simp
  have "\<forall>(i, b)\<in>set (enumerate 0 blocks). i < 2 ^ 24" using assms by (auto simp: in_set_enumerate_eq)
  then show ?thesis unfolding place_args_def by (rule f)
qed

end
