(* ===== verification/Syscall.thy ===== *)
theory Syscall
  imports Exec Vfs_Mount Lib_Words Proc_Sys
begin

text \<open>
  The dispatcher of system calls, \<open>kern/arch/mips/syscall/syscall.c\<close>, with \<open>time\<close> and \<open>getcwd\<close>: the call
  number and the arguments are registers of the trapframe, and the result goes back into registers.
  Kernel objects whose addresses matter (buffers on the stack, blocks of the heap) get them from a
  \<open>layout\<close>; the clock is an argument.
\<close>

record layout =
  k_path :: nat                   \<comment> \<open>\<open>pathNameInput\<close>\<close>
  k_name :: nat                   \<comment> \<open>the name of a volume\<close>
  k_colon :: nat
  k_whence :: nat
  k_exit :: nat                   \<comment> \<open>\<open>exitcode\<close> of the entry that \<open>waitpid\<close> waits for\<close>
  k_time :: nat
  k_eh :: nat
  k_ph :: nat
  k_next :: nat
  k_block :: "addr \<Rightarrow> nat"

section \<open>getcwd and time\<close>

text \<open>\<open>uiomove\<close> from kernel memory that holds the given bytes.\<close>

definition move_bytes :: "nat \<Rightarrow> byte list \<Rightarrow> uio \<Rightarrow> (('d, 'a) vfs_scheme, uio) call" where
  "move_bytes a bs u s = do {
     (r, u, um) \<leftarrow> uiomove a (length bs) u ((user_mem s)\<lparr>bytes := put_bytes_at a bs (bytes (user_mem s))\<rparr>);
     Some (case r of Inl e \<Rightarrow> Inl e | Inr _ \<Rightarrow> Inr u, s\<lparr>user_mem := um\<rparr>) }"

definition vfs_getcwd :: "nat \<Rightarrow> nat \<Rightarrow> ('d, 'a) vfs_scheme optables \<Rightarrow> uio \<Rightarrow> (('d, 'a) vfs_scheme, uio) call" where
  "vfs_getcwd kname kcolon T u s = do {
     kassert (uio_rw u = UIO_READ);
     on_ok vfs_getcurdir (\<lambda>cwd s. do {
       kassert (vn_fs s cwd \<noteq> 0);
       (name, s) \<leftarrow> (case fsop_getvolname (fops T (vn_fs s cwd)) (vn_fs s cwd) s of
            Some name \<Rightarrow> Some (Some name, s)
          | None \<Rightarrow> biglocked (\<lambda>s. do { name \<leftarrow> vfs_getdevname (vn_fs s cwd) s; Some (name, s) }) s);
       name \<leftarrow> name;
       (result, s) \<leftarrow> on_ok (move_bytes kname (map of_char name) u) (\<lambda>u.
          on_ok (move_bytes kcolon [58] u) (\<lambda>u. VOP T (\<lambda>ops v. vop_namefile ops v u) cwd)) s;
       s \<leftarrow> vnode_decref T cwd s;
       Some (result, s) }) s }"

definition sys____getcwd :: "layout \<Rightarrow> ('d, 'a) procs_scheme optables \<Rightarrow> nat \<Rightarrow> nat \<Rightarrow> (('d, 'a) procs_scheme, nat) call" where
  "sys____getcwd K T buf buflen s = critical (p_mutex s (curproc s)) (\<lambda>s.
     if buf = 0 then Some (Inl EFAULT, s)
     else if buflen = 0 then Some (Inl EINVAL, s)
     else
       let useruio = (uio_kinit buf buflen 0 UIO_READ)\<lparr>uio_space := p_addrspace s (curproc s), uio_segflg := UIO_USERISPACE\<rparr> in
       on_ok (vfs_getcwd (k_name K) (k_colon K) T useruio) (\<lambda>u s. Some (Inr (u32 (buflen + 2 ^ 32 - uio_resid u)), s)) s) s"

text \<open>The clock is that of the real-time clock device.  \<open>tv_sec\<close> has eight bytes.\<close>

definition sys___time :: "layout \<Rightarrow> (('d, 'a) procs_scheme \<Rightarrow> (int \<times> int) \<times> ('d, 'a) procs_scheme) \<Rightarrow> nat \<Rightarrow> nat \<Rightarrow> (('d, 'a) procs_scheme, unit) call" where
  "sys___time K gettime user_seconds_ptr user_nanoseconds_ptr s =
     (let ((sec, nsec), s) = gettime s;
          um = (user_mem s)\<lparr>bytes := put_bytes_at (k_time K) (int_bytes (sec div 2 ^ 32) @ int_bytes sec @ int_bytes nsec) (bytes (user_mem s))\<rparr>;
          (r, um) = copyout (k_time K) user_seconds_ptr 8 um
      in case r of
           Inl e \<Rightarrow> Some (Inl e, s\<lparr>user_mem := um\<rparr>)
         | Inr _ \<Rightarrow>
             let (r, um) = copyout (k_time K + 8) user_nanoseconds_ptr 4 um
             in Some (r, s\<lparr>user_mem := um\<rparr>))"

section \<open>The dispatcher\<close>

definition SYS_fork :: int where "SYS_fork = 0"
definition SYS_execv :: int where "SYS_execv = 2"
definition SYS__exit :: int where "SYS__exit = 3"
definition SYS_waitpid :: int where "SYS_waitpid = 4"
definition SYS_getpid :: int where "SYS_getpid = 5"
definition SYS_open :: int where "SYS_open = 45"
definition SYS_dup2 :: int where "SYS_dup2 = 48"
definition SYS_close :: int where "SYS_close = 49"
definition SYS_read :: int where "SYS_read = 50"
definition SYS_write :: int where "SYS_write = 55"
definition SYS_lseek :: int where "SYS_lseek = 59"
definition SYS_chdir :: int where "SYS_chdir = 74"
definition SYS___getcwd :: int where "SYS___getcwd = 76"
definition SYS___time :: int where "SYS___time = 113"
definition SYS_reboot :: int where "SYS_reboot = 119"

text \<open>
  What becomes of the calling thread: it returns to user mode with a trapframe, it sleeps in \<open>waitpid\<close> on
  an entry of the process table, it has ended, or the machine is switched off.
\<close>

datatype outcome = Return_to trapframe | Asleep addr | Gone | Halted

text \<open>The end of \<open>syscall\<close>: the results are \<open>retval\<close> and \<open>retval2\<close>.\<close>

definition finish :: "trapframe \<Rightarrow> errno + int \<times> int \<Rightarrow> trapframe" where
  "finish tf r =
     (let tf = (case r of
          Inl e \<Rightarrow> tf\<lparr>tf_v0 := nat (errno_code e), tf_a3 := 1\<rparr>
        | Inr (retval, retval2) \<Rightarrow> tf\<lparr>tf_v0 := nat (retval mod 2 ^ 32), tf_v1 := nat (retval2 mod 2 ^ 32), tf_a3 := 0\<rparr>)
      in tf\<lparr>tf_epc := u32 (tf_epc tf + 4)\<rparr>)"

definition returns :: "trapframe \<Rightarrow> ('r \<Rightarrow> int \<times> int) \<Rightarrow> ('s, 'r) call \<Rightarrow> 's \<Rightarrow> (outcome \<times> 's) option" where
  "returns tf ret c s = do { (r, s) \<leftarrow> c s; Some (Return_to (finish tf (map_sum id ret r)), s) }"

definition nothing :: "unit \<Rightarrow> int \<times> int" where "nothing u = (0, 0)"
definition number :: "int \<Rightarrow> int \<times> int" where "number x = (x, 0)"
definition count :: "nat \<Rightarrow> int \<times> int" where "count n = (int n, 0)"

text \<open>A register as an \<open>int\<close>.\<close>

definition reg :: "nat \<Rightarrow> int" where
  "reg r = s32 (int r)"

text \<open>The case \<open>SYS_lseek\<close>: the position is in two registers, and \<open>whence\<close> on the user's stack.\<close>

definition lseek_args :: "layout \<Rightarrow> trapframe \<Rightarrow> (('d, 'a) procs_scheme, int \<times> int) call" where
  "lseek_args K tf s =
     (let pos = join32to64 (of_nat (tf_a2 tf)) (of_nat (tf_a3 tf));
          (r, um) = copyin (u32 (tf_sp tf + 16)) (k_whence K) 4 (user_mem s);
          s = s\<lparr>user_mem := um\<rparr>
      in Some (case r of Inl e \<Rightarrow> Inl e | Inr _ \<Rightarrow> Inr (sint pos, reg (word_at (bytes um) (k_whence K))), s))"

definition offset_regs :: "int \<Rightarrow> int \<times> int" where
  "offset_regs pos = (let (hi, lo) = split64to32 (word_of_int pos) in (uint hi, uint lo))"

definition do_lseek :: "layout \<Rightarrow> ('d, 'a) procs_scheme optables \<Rightarrow> trapframe \<Rightarrow> (('d, 'a) procs_scheme, int) call" where
  "do_lseek K T tf = on_ok (lseek_args K tf) (\<lambda>(pos, whence). sys_lseek T (reg (tf_a0 tf)) pos whence)"

definition syscall :: "layout \<Rightarrow> (('d, 'a) procs_scheme \<Rightarrow> (int \<times> int) \<times> ('d, 'a) procs_scheme) \<Rightarrow> ('d, 'a) procs_scheme optables
    \<Rightarrow> trapframe \<Rightarrow> ('d, 'a) procs_scheme \<Rightarrow> (outcome \<times> ('d, 'a) procs_scheme) option" where
  "syscall K gettime T tf s = do {
     let callno = reg (tf_v0 tf);
     if callno = SYS_reboot then do {
       (r, s) \<leftarrow> sys_reboot T (reg (tf_a0 tf)) s;
       Some (case r of Inl e \<Rightarrow> Return_to (finish tf (Inl e)) | Inr _ \<Rightarrow> Halted, s) }
     else if callno = SYS___time then returns tf nothing (sys___time K gettime (tf_a0 tf) (tf_a1 tf)) s
     else if callno = SYS_fork then returns tf number (sys_fork T tf) s
     else if callno = SYS_execv then do {
       (r, s) \<leftarrow> sys_execv (k_eh K) (k_ph K) (k_next K) (k_block K) T (tf_a0 tf) (tf_a1 tf) s;
       Some (Return_to (case r of Inl e \<Rightarrow> finish tf (Inl e) | Inr new \<Rightarrow> new), s) }
     else if callno = SYS_getpid then returns tf number sys_getpid s
     else if callno = SYS_waitpid then do {
       (r, s) \<leftarrow> sys_waitpid (k_exit K) (reg (tf_a0 tf)) (tf_a1 tf) (reg (tf_a2 tf)) s;
       Some (case r of
           Inl e \<Rightarrow> Return_to (finish tf (Inl e))
         | Inr (Inl p) \<Rightarrow> Return_to (finish tf (Inr (number p)))
         | Inr (Inr tgt) \<Rightarrow> Asleep tgt, s) }
     else if callno = SYS_open then returns tf number (sys_open (k_path K) T (tf_a0 tf) (of_nat (tf_a1 tf))) s
     else if callno = SYS_read then returns tf count (sys_read (k_block K) T (reg (tf_a0 tf)) (tf_a1 tf) (tf_a2 tf)) s
     else if callno = SYS_write then returns tf count (sys_write (k_block K) T (reg (tf_a0 tf)) (tf_a1 tf) (tf_a2 tf)) s
     else if callno = SYS__exit then do { s \<leftarrow> sys__exit T (reg (tf_a0 tf)) s; Some (Gone, s) }
     else if callno = SYS_close then returns tf nothing (sys_close T (reg (tf_a0 tf))) s
     else if callno = SYS_chdir then returns tf number (sys_chdir (k_path K) T (tf_a0 tf)) s
     else if callno = SYS_lseek then returns tf offset_regs (do_lseek K T tf) s
     else if callno = SYS_dup2 then returns tf number (sys_dup2 T (reg (tf_a0 tf)) (reg (tf_a1 tf))) s
     else if callno = SYS___getcwd then returns tf count (sys____getcwd K T (tf_a0 tf) (tf_a1 tf)) s
     else Some (Return_to (finish tf (Inl ENOSYS)), s) }"

text \<open>A sleeper in \<open>waitpid\<close> that runs again.\<close>

definition syscall_awake :: "layout \<Rightarrow> trapframe \<Rightarrow> addr \<Rightarrow> ('d, 'a) procs_scheme \<Rightarrow> (outcome \<times> ('d, 'a) procs_scheme) option" where
  "syscall_awake K tf tgt = returns tf number (waitpid_awake (k_exit K) (reg (tf_a0 tf)) (tf_a1 tf) tgt)"

section \<open>Seeking\<close>

text \<open>A descriptor of an open file, with nobody at its lock.\<close>

definition open_desc :: "('d, 'a) files_scheme optables \<Rightarrow> ('d, 'a) files_scheme \<Rightarrow> int \<Rightarrow> addr \<Rightarrow> bool" where
  "open_desc T s fd d \<longleftrightarrow> my_table s \<noteq> 0 \<and> lock_idle s (lt_lk s (my_table s)) \<and> 0 \<le> fd \<and> fd < int MAX_LOCAL_TABLE_SIZE
     \<and> slot (lt_files s (my_table s)) fd = Some d \<and> d \<noteq> 0 \<and> fd_standard s d = - 1 \<and> lock_idle s (fd_lk s d)
     \<and> vnode_check T (f_node s (fd_file s d)) s = Some ()"

definition seekable :: "('d, 'a) files_scheme optables \<Rightarrow> ('d, 'a) files_scheme \<Rightarrow> addr \<Rightarrow> bool" where
  "seekable T s d \<longleftrightarrow> (\<forall>s'. vop_isseekable (vops T (vn_ops s (f_node s (fd_file s d)))) (f_node s (fd_file s d)) s')"

lemma get_open:
  assumes "open_desc T s fd d"
  shows "local_table_get (my_table s) fd s = Some (d, s)"
proof -
  let ?l = "lt_lk s (my_table s)"
  have i: "lock_idle s ?l" using assms by (simp add: open_desc_def)
  have "lt_files (taken ?l s) = lt_files s" by (simp add: taken_def)
  then have "critical ?l (\<lambda>s'. do { desc \<leftarrow> slot (lt_files s' (my_table s)) fd; Some (desc, s') }) s = Some (d, s)"
    using i assms by (intro critical_pure) (simp_all add: open_desc_def)
  then show ?thesis using assms by (simp add: local_table_get_def open_desc_def)
qed

lemma lseek_moves:
  assumes d: "open_desc T s fd d" and k: "seekable T s d"
    and w: "whence = SEEK_SET \<and> new = pos \<or> whence = SEEK_CUR \<and> new = s64 (fd_seek s d + pos)"
  shows "sys_lseek T fd pos whence s = (if new < 0 then Some (Inl EINVAL, s) else Some (Inr new, s\<lparr>fd_seek := (fd_seek s)(d := new)\<rparr>))"
proof -
  let ?l = "fd_lk s d" and ?node = "f_node s (fd_file s d)"
  let ?s1 = "if new < 0 then s else s\<lparr>fd_seek := (fd_seek s)(d := new)\<rparr>"
  let ?r = "if new < 0 then Inl EINVAL else Inr new"
  have i: "lock_idle s ?l" using d by (simp add: open_desc_def)
  have i1: "lock_idle ?s1 ?l" using i lock_idle_cong [of ?s1 s ?l] by simp
  have sel: "fd_file (taken ?l s) = fd_file s" "f_node (taken ?l s) = f_node s" "vn_ops (taken ?l s) = vn_ops s" "fd_seek (taken ?l s) = fd_seek s"
    "vnode_check T ?node (taken ?l s) = vnode_check T ?node s" by (simp_all add: taken_def vnode_check_def)
  have t: "(taken ?l s)\<lparr>fd_seek := x\<rparr> = taken ?l (s\<lparr>fd_seek := x\<rparr>)" for x by (simp add: taken_def)
  have "critical ?l (\<lambda>s'. do {
       let node = f_node s' (fd_file s' d);
       vnode_check T node s';
       if \<not> vop_isseekable (vops T (vn_ops s' node)) node s' then Some (Inl ESPIPE, s')
       else on_ok (seek_target T d pos whence) (\<lambda>newPos s.
         if newPos < 0 then Some (Inl EINVAL, s)
         else Some (Inr newPos, s\<lparr>fd_seek := (fd_seek s)(d := newPos)\<rparr>)) s' }) s = Some (?r, ?s1)"
    using d k w sel t
    by (intro critical_pure [OF i _ i1]) (auto simp: open_desc_def seekable_def on_ok_def seek_target_def SEEK_SET_def SEEK_CUR_def)
  then show ?thesis using get_open [OF d] d by (simp add: sys_lseek_def open_desc_def)
qed

lemma offset_regs_join: "offset_regs (sint (join32to64 hi lo)) = (uint hi, uint lo)"
  by (simp add: offset_regs_def split_join)

lemma uint_join: "uint (join32to64 hi lo) = uint hi * 2 ^ 32 + uint lo"
proof -
  have lo: "bit lo n \<Longrightarrow> n < 32" for n
    using bit_imp_le_length [of lo n] by simp
  have "join32to64 hi lo = push_bit 32 (ucast hi) + ucast lo"
    unfolding join32to64_def
    by (rule disjunctive_add_eq_or [symmetric]) (rule bit_word_eqI, use lo in \<open>force simp: bit_simps\<close>)
  moreover have "uint hi < 2 ^ 32" "uint lo < 2 ^ 32"
    using uint_lt2p [of hi] uint_lt2p [of lo] by simp_all
  ultimately show ?thesis
    by (simp add: uint_word_ariths push_bit_eq_mult unsigned_ucast_eq take_bit_eq_mod)
qed
lemma sint_join:
  assumes "hi < 2 ^ 31" and "lo < 2 ^ 32"
  shows "sint (join32to64 (of_nat hi) (of_nat lo)) = int (hi * 2 ^ 32 + lo)"
proof -
  have "uint (of_nat hi :: 32 word) = int hi" "uint (of_nat lo :: 32 word) = int lo"
    using assms by (simp_all add: uint_nat unat_of_nat)
  then have "uint (join32to64 (of_nat hi) (of_nat lo)) = int (hi * 2 ^ 32 + lo)"
    by (simp add: uint_join)
  then show ?thesis using assms by (simp add: sint_uint signed_take_bit_int_eq_self)
qed

lemma lseek_case:
  assumes "reg (tf_v0 tf) = SYS_lseek"
  shows "syscall K g T tf s = returns tf offset_regs (do_lseek K T tf) s"
  using assms by (simp add: syscall_def SYS_lseek_def SYS_reboot_def SYS___time_def SYS_fork_def SYS_execv_def SYS_getpid_def SYS_waitpid_def
    SYS_open_def SYS_read_def SYS_write_def SYS__exit_def SYS_close_def SYS_chdir_def)

lemma open_desc_keep:
  "open_desc T (s\<lparr>user_mem := um\<rparr>) fd d = open_desc T s fd d" "open_desc T (s\<lparr>fd_seek := x\<rparr>) fd d = open_desc T s fd d"
  "seekable T (s\<lparr>user_mem := um\<rparr>) d = seekable T s d" "seekable T (s\<lparr>fd_seek := x\<rparr>) d = seekable T s d"
proof -
  have "lock_idle (s\<lparr>user_mem := um\<rparr>) l = lock_idle s l" "lock_idle (s\<lparr>fd_seek := x\<rparr>) l = lock_idle s l" for l
    by (rule lock_idle_cong; simp)+
  then show "open_desc T (s\<lparr>user_mem := um\<rparr>) fd d = open_desc T s fd d" "open_desc T (s\<lparr>fd_seek := x\<rparr>) fd d = open_desc T s fd d"
    "seekable T (s\<lparr>user_mem := um\<rparr>) d = seekable T s d" "seekable T (s\<lparr>fd_seek := x\<rparr>) d = seekable T s d"
    by (simp_all add: open_desc_def seekable_def my_table_def curproc_def vnode_check_def)
qed

lemma lseek_call:
  assumes d: "open_desc T s fd d" "seekable T s d" and tf: "reg (tf_v0 tf) = SYS_lseek" "reg (tf_a0 tf) = fd" "tf_a2 tf < 2 ^ 31" "tf_a3 tf < 2 ^ 32"
    and c: "copyin (u32 (tf_sp tf + 16)) (k_whence K) 4 (user_mem s) = (Inr (), um)" "reg (word_at (bytes um) (k_whence K)) = whence"
    and w: "whence = SEEK_SET \<and> new = int (tf_a2 tf * 2 ^ 32 + tf_a3 tf) \<or> whence = SEEK_CUR \<and> new = s64 (fd_seek s d + int (tf_a2 tf * 2 ^ 32 + tf_a3 tf))"
    and n: "0 \<le> new"
  shows "syscall K g T tf s = Some (Return_to (finish tf (Inr (offset_regs new))), s\<lparr>user_mem := um, fd_seek := (fd_seek s)(d := new)\<rparr>)"
proof -
  let ?s = "s\<lparr>user_mem := um\<rparr>"
  have "open_desc T ?s fd d" "seekable T ?s d" using d by (simp_all add: open_desc_keep)
  from lseek_moves [OF this, of whence new] have "sys_lseek T fd (int (tf_a2 tf * 2 ^ 32 + tf_a3 tf)) whence ?s = Some (Inr new, ?s\<lparr>fd_seek := (fd_seek s)(d := new)\<rparr>)"
    using w n by simp
  then show ?thesis
    using tf c sint_join [OF tf(3,4)] by (simp add: lseek_case returns_def do_lseek_def on_ok_def lseek_args_def)
qed

text \<open>The fifth word of the user's stack holds a value of \<open>whence\<close>, and \<open>copyin\<close> can fetch it.\<close>

definition whence_at :: "layout \<Rightarrow> trapframe \<Rightarrow> int \<Rightarrow> umem \<Rightarrow> bool" where
  "whence_at K tf whence m \<longleftrightarrow> tf_sp tf + 20 \<le> USERSPACETOP \<and> USERSPACETOP \<le> k_whence K \<and> accessible m (k_whence K) (tf_sp tf + 16) 4
     \<and> reg (word_at (bytes m) (tf_sp tf + 16)) = whence"

lemma word_at_cong: "(\<And>i. i < 4 \<Longrightarrow> f (a + i) = g (b + i)) \<Longrightarrow> word_at f a = word_at g b"
proof -
  assume a: "\<And>i. i < 4 \<Longrightarrow> f (a + i) = g (b + i)"
  have "f a = g b" "f (a + 1) = g (b + 1)" "f (a + 2) = g (b + 2)" "f (a + 3) = g (b + 3)" using a [of 0] a [of 1] a [of 2] a [of 3] by simp_all
  then show ?thesis by (simp add: word_at_def half_at_def byte_at_addr_def numeral_3_eq_3)
qed

lemma whence_fetched:
  assumes w: "whence_at K tf whence m"
  shows "\<exists>um. copyin (u32 (tf_sp tf + 16)) (k_whence K) 4 m = (Inr (), um) \<and> reg (word_at (bytes um) (k_whence K)) = whence
    \<and> (\<forall>tf' w'. whence_at K tf' w' m \<longrightarrow> whence_at K tf' w' um)"
proof -
  let ?u = "tf_sp tf + 16" and ?k = "k_whence K"
  have b: "?u < 4294967296" "?u + 4 \<le> USERSPACETOP" "USERSPACETOP \<le> ?k" "accessible m ?k ?u 4"
    using w by (auto simp: whence_at_def USERSPACETOP_def)
  have u: "u32 ?u = ?u" using b(1) by (simp add: u32_def)
  obtain r um where c: "copyin ?u ?k 4 m = (r, um)" by fastforce
  have f: "r = Inr ()" "\<forall>i<4. bytes um (?k + i) = bytes m (?u + i)" "\<And>a. a < ?k \<Longrightarrow> bytes um a = bytes m a"
    using copyin_spec [OF b(1) _ b(3), of 4 m] b c by simp_all
  have acc: "readable um = readable m" "writable um = writable m"
    using c b by (auto simp: copyin_eq [OF b(1)] fault_memcpy_ok)
  have "word_at (bytes um) ?k = word_at (bytes m) ?u" using f(2) by (intro word_at_cong) simp
  moreover have "whence_at K tf' w' um" if t: "whence_at K tf' w' m" for tf' w'
  proof -
    have "tf_sp tf' + 20 \<le> ?k" using t by (simp add: whence_at_def)
    then have "word_at (bytes um) (tf_sp tf' + 16) = word_at (bytes m) (tf_sp tf' + 16)"
      by (intro word_at_cong f(3)) simp
    then show ?thesis using t acc by (simp add: whence_at_def accessible_def)
  qed
  ultimately show ?thesis using c f(1) w u by (auto simp: whence_at_def)
qed

text \<open>The registers of an offset that came in registers.\<close>

lemma offset_regs_pair:
  assumes "hi < 2 ^ 31" and "lo < 2 ^ 32"
  shows "offset_regs (int (hi * 2 ^ 32 + lo)) = (int hi, int lo)"
  using offset_regs_join [of "of_nat hi" "of_nat lo"] assms unfolding sint_join [OF assms] by (simp add: uint_nat unat_of_nat)

text \<open>
  C7: A program that seeks to a 64-bit position and then asks for the current one gets it back in the
  same halves: the dispatcher takes the position from registers \<open>a2\<close> and \<open>a3\<close> and \<open>whence\<close> from the user's
  stack, answers in \<open>v0\<close> and \<open>v1\<close> with \<open>a3\<close> cleared, steps over the syscall instruction, and the second
  call leaves the position of the open file as it is.
\<close>

theorem lseek_tells_position:
  assumes "open_desc T s fd d" "seekable T s d"
    and "reg (tf_v0 tf) = SYS_lseek" "reg (tf_a0 tf) = fd" "tf_a2 tf < 2 ^ 31" "tf_a3 tf < 2 ^ 32" "whence_at K tf SEEK_SET (user_mem s)"
    and "reg (tf_v0 tf2) = SYS_lseek" "reg (tf_a0 tf2) = fd" "tf_a2 tf2 = 0" "tf_a3 tf2 = 0" "whence_at K tf2 SEEK_CUR (user_mem s)"
  shows "\<exists>s1 s2 r r2. syscall K gettime T tf s = Some (Return_to r, s1) \<and> syscall K gettime T tf2 s1 = Some (Return_to r2, s2)
    \<and> (tf_v0 r, tf_v1 r, tf_a3 r) = (tf_a2 tf, tf_a3 tf, 0) \<and> tf_epc r = u32 (tf_epc tf + 4)
    \<and> (tf_v0 r2, tf_v1 r2, tf_a3 r2) = (tf_a2 tf, tf_a3 tf, 0) \<and> tf_epc r2 = u32 (tf_epc tf2 + 4)
    \<and> fd_seek s1 = (fd_seek s)(d := int (tf_a2 tf * 2 ^ 32 + tf_a3 tf)) \<and> fd_seek s2 = fd_seek s1"
proof -
  let ?pos = "int (tf_a2 tf * 2 ^ 32 + tf_a3 tf)"
  obtain um where um: "copyin (u32 (tf_sp tf + 16)) (k_whence K) 4 (user_mem s) = (Inr (), um)" "reg (word_at (bytes um) (k_whence K)) = SEEK_SET"
    "whence_at K tf2 SEEK_CUR um"
    using whence_fetched [OF assms(7)] assms(12) by blast
  obtain um2 where um2: "copyin (u32 (tf_sp tf2 + 16)) (k_whence K) 4 um = (Inr (), um2)" "reg (word_at (bytes um2) (k_whence K)) = SEEK_CUR"
    using whence_fetched [OF um(3)] by blast
  let ?s1 = "s\<lparr>user_mem := um, fd_seek := (fd_seek s)(d := ?pos)\<rparr>"
  have "syscall K gettime T tf s = Some (Return_to (finish tf (Inr (offset_regs ?pos))), ?s1)"
    by (rule lseek_call [OF assms(1-6) um(1,2)]) simp_all
  moreover have "open_desc T ?s1 fd d" "seekable T ?s1 d" using assms(1,2) by (simp_all add: open_desc_keep)
  then have "syscall K gettime T tf2 ?s1 = Some (Return_to (finish tf2 (Inr (offset_regs ?pos))), ?s1\<lparr>user_mem := um2, fd_seek := (fd_seek ?s1)(d := ?pos)\<rparr>)"
    using um2 assms(5,6,8-11) by (intro lseek_call [where fd = fd and d = d and whence = SEEK_CUR]) (simp_all add: s64_id)
  moreover have "finish f (Inr (offset_regs ?pos)) = f\<lparr>tf_v0 := tf_a2 tf, tf_v1 := tf_a3 tf, tf_a3 := 0, tf_epc := u32 (tf_epc f + 4)\<rparr>" for f
    using assms(5,6) unfolding offset_regs_pair [OF assms(5,6)] by (simp add: finish_def Let_def)
  ultimately show ?thesis by simp
qed

definition some_layout :: layout where
  "some_layout = \<lparr>k_path = 2147490000, k_name = 2147491000, k_colon = 2147492000, k_whence = 2147493000, k_exit = 2147494000, k_time = 2147495000,
     k_eh = 2147496000, k_ph = 2147497000, k_next = 2147498000, k_block = \<lambda>a. 2147500000 + a\<rparr>"

text \<open>The program \<open>sh\<close> of the first process has the null device, which is made a block device here, open as descriptor 3.\<close>

definition seek_proc :: "unit procs" where
  "seek_proc = (as_proc 150 boot_proc)\<lparr>user_mem := (user_mem boot_proc)\<lparr>bytes := \<lambda>a. if a = 2019 then 1 else 0\<rparr>\<rparr>"

definition seek_tables :: "unit procs optables" where
  "seek_tables = device_tables (\<lambda>_. null_device\<lparr>d_blocks := 8\<rparr>)"

definition seek_frame :: "nat \<Rightarrow> nat \<Rightarrow> nat \<Rightarrow> trapframe" where
  "seek_frame hi lo sp = \<lparr>tf_vaddr = 0, tf_status = 0, tf_cause = 0, tf_v0 = 59, tf_v1 = 0, tf_a0 = 3, tf_a1 = 0, tf_a2 = hi, tf_a3 = lo, tf_sp = sp, tf_epc = 4096\<rparr>"

lemma seek_proc_open: "open_desc seek_tables seek_proc 3 140 \<and> seekable seek_tables seek_proc 140"
proof -
  have f: "lt_files seek_proc = lt_files boot_files" "lt_lk seek_proc = lt_lk boot_files" "f_node seek_proc = f_node boot_files" "fd_file seek_proc = fd_file boot_files"
    "fd_standard seek_proc = fd_standard boot_files" "fd_lk seek_proc = fd_lk boot_files" "vn_ops seek_proc = vn_ops boot_files" "vn_fs seek_proc = vn_fs boot_files"
    "vn_refcount seek_proc = vn_refcount boot_files" "local_file_table seek_proc = local_file_table boot_files"
    by (simp_all add: seek_proc_def as_proc_def boot_proc_def procs.defs files.defs)
  have i: "lock_idle seek_proc l" if "l \<noteq> 0" for l
    using boot_files_idle [OF that] lock_idle_cong [of seek_proc boot_files]
    by (simp add: seek_proc_def as_proc_def boot_proc_def procs.defs files.defs)
  have "my_table seek_proc = 104" by (simp add: my_table_def f boot_files_sel)
  then show ?thesis
    by (simp add: open_desc_def seekable_def f boot_files_sel i slot_def MAX_LOCAL_TABLE_SIZE_def vnode_check_def deadbeef_def seek_tables_def
        device_tables_def dev_vnode_ops_def dev_isseekable_def)
qed

lemma seek_proc_whence:
  "whence_at some_layout (seek_frame 1 7 1000) SEEK_SET (user_mem seek_proc)" "whence_at some_layout (seek_frame 0 0 2000) SEEK_CUR (user_mem seek_proc)"
proof -
  have m: "user_mem seek_proc = (user_mem boot_vfs)\<lparr>bytes := \<lambda>a. if a = 2019 then 1 else 0\<rparr>"
    by (simp add: seek_proc_def boot_proc_def boot_files_def procs.defs files.defs vfs.defs)
  have a: "accessible (user_mem seek_proc) k u n" for k u n
    by (simp add: accessible_def m boot_vfs_def vnodes.defs vfs.defs sync.defs)
  show "whence_at some_layout (seek_frame 1 7 1000) SEEK_SET (user_mem seek_proc)" "whence_at some_layout (seek_frame 0 0 2000) SEEK_CUR (user_mem seek_proc)"
    unfolding whence_at_def using a
    by (simp_all add: m some_layout_def seek_frame_def USERSPACETOP_def word_at_def half_at_def byte_at_addr_def reg_def s32_def SEEK_SET_def SEEK_CUR_def)
qed

theorem lseek_tells_position_witness:
  "\<exists>s1 s2 r r2. syscall some_layout (\<lambda>s. ((0, 0), s)) seek_tables (seek_frame 1 7 1000) seek_proc = Some (Return_to r, s1)
    \<and> syscall some_layout (\<lambda>s. ((0, 0), s)) seek_tables (seek_frame 0 0 2000) s1 = Some (Return_to r2, s2)
    \<and> (tf_v0 r, tf_v1 r, tf_a3 r) = (1, 7, 0) \<and> tf_epc r = 4100 \<and> (tf_v0 r2, tf_v1 r2, tf_a3 r2) = (1, 7, 0) \<and> tf_epc r2 = 4100
    \<and> fd_seek s1 = (fd_seek seek_proc)(140 := 4294967303) \<and> fd_seek s2 = fd_seek s1"
  using lseek_tells_position [OF conjunct1 [OF seek_proc_open] conjunct2 [OF seek_proc_open] _ _ _ _ seek_proc_whence(1) _ _ _ _ seek_proc_whence(2),
      where gettime = "\<lambda>s. ((0, 0), s)"]
  by (simp add: seek_frame_def reg_def s32_def SYS_lseek_def u32_def)

end
