(* ===== verification/Lhd.thy ===== *)
theory Lhd
  imports Vfs_Mount
begin

text \<open>
  The disk driver \<open>kern/dev/lamebus/lhd.c\<close>.  A softc is named by the address of its device structure.
  The card is hardware: its registers and what it does between the start of an operation and its
  interrupt are an argument, a \<open>card\<close>; the buffer on the card is mapped into memory at \<open>lh_buf\<close>.
  The runs of \<open>lhd_io\<close> here are those in which nobody else uses the disk and the interrupt of an
  operation comes before the driver waits for it.  The locale \<open>lhd_card\<close> says what the driver expects
  of a card, \<open>good_card\<close> adds that no medium fails.
\<close>

section \<open>The driver\<close>

record 'h card =
  rd_reg :: "'h \<Rightarrow> nat \<Rightarrow> nat"
  wr_reg :: "nat \<Rightarrow> nat \<Rightarrow> 'h \<Rightarrow> 'h"
  operate :: "nat \<Rightarrow> memory \<Rightarrow> 'h \<Rightarrow> memory \<times> 'h"   \<comment> \<open>with the buffer at an address\<close>

record 'h lhd =
  lh_hw :: "addr \<Rightarrow> 'h"
  lh_result :: "addr \<Rightarrow> errno option"    \<comment> \<open>\<open>None\<close> is 0\<close>
  lh_buf :: "addr \<Rightarrow> nat"
  lh_clear :: "addr \<Rightarrow> addr"
  lh_done :: "addr \<Rightarrow> addr"

definition LHD_SECTSIZE :: nat where "LHD_SECTSIZE = 512"
definition LHD_REG_NSECT :: nat where "LHD_REG_NSECT = 0"
definition LHD_REG_STAT :: nat where "LHD_REG_STAT = 4"
definition LHD_REG_SECT :: nat where "LHD_REG_SECT = 8"
definition LHD_IDLE :: nat where "LHD_IDLE = 0"
definition LHD_WORKING :: nat where "LHD_WORKING = 1"
definition LHD_OK :: nat where "LHD_OK = 4"
definition LHD_INVSECT :: nat where "LHD_INVSECT = 12"
definition LHD_MEDIA :: nat where "LHD_MEDIA = 20"
definition LHD_ISWRITE :: nat where "LHD_ISWRITE = 2"
definition LHD_STATEMASK :: nat where "LHD_STATEMASK = 0x1d"
definition LHD_BUFFER :: nat where "LHD_BUFFER = 32768"

definition on_fs :: "('d \<Rightarrow> 'd) \<Rightarrow> ('d, 'a) vnodes_scheme \<Rightarrow> ('d, 'a) vnodes_scheme" where
  "on_fs f s = s\<lparr>fs_state := f (fs_state s)\<rparr>"

definition lhd_rdreg :: "'h card \<Rightarrow> addr \<Rightarrow> nat \<Rightarrow> (('h, 'x) lhd_scheme, 'a) vnodes_scheme \<Rightarrow> nat" where
  "lhd_rdreg C lh r s = rd_reg C (lh_hw (fs_state s) lh) r"

definition lhd_wreg :: "'h card \<Rightarrow> addr \<Rightarrow> nat \<Rightarrow> nat \<Rightarrow> (('h, 'x) lhd_scheme, 'a) vnodes_scheme \<Rightarrow> (('h, 'x) lhd_scheme, 'a) vnodes_scheme" where
  "lhd_wreg C lh r val = on_fs (\<lambda>d. d\<lparr>lh_hw := (lh_hw d)(lh := wr_reg C r val (lh_hw d lh))\<rparr>)"

definition lhd_code_to_errno :: "nat \<Rightarrow> errno option" where
  "lhd_code_to_errno code =
     (let c = code AND LHD_STATEMASK in
      if c = LHD_OK then None else if c = LHD_INVSECT then Some EINVAL else if c = LHD_MEDIA then Some EIO else Some EAGAIN)"

definition lhd_iodone :: "addr \<Rightarrow> errno option \<Rightarrow> (('h, 'x) lhd_scheme, 'a) vnodes_scheme \<Rightarrow> (('h, 'x) lhd_scheme, 'a) vnodes_scheme option" where
  "lhd_iodone lh err s =
     (let s = on_fs (\<lambda>d. d\<lparr>lh_result := (lh_result d)(lh := err)\<rparr>) s in V (lh_done (fs_state s) lh) s)"

definition lhd_irq :: "'h card \<Rightarrow> addr \<Rightarrow> (('h, 'x) lhd_scheme, 'a) vnodes_scheme \<Rightarrow> (('h, 'x) lhd_scheme, 'a) vnodes_scheme option" where
  "lhd_irq C lh s =
     (let val = lhd_rdreg C lh LHD_REG_STAT s in
      if val AND LHD_STATEMASK \<in> {LHD_OK, LHD_INVSECT, LHD_MEDIA}
      then lhd_iodone lh (lhd_code_to_errno val) (lhd_wreg C lh LHD_REG_STAT 0 s)
      else Some s)"

definition lhd_eachopen :: "addr \<Rightarrow> 32 word \<Rightarrow> ('s, unit) call" where
  "lhd_eachopen d openflags s = Some (Inr (), s)"

definition lhd_ioctl :: "addr \<Rightarrow> int \<Rightarrow> addr \<Rightarrow> ('s, unit) call" where
  "lhd_ioctl d op data s = Some (Inl EIOCTL, s)"

text \<open>\<open>P\<close> in a run that does not have to sleep.\<close>

definition sem_now :: "addr \<Rightarrow> 'a sync_scheme \<Rightarrow> 'a sync_scheme option" where
  "sem_now sem s = do { (got, s) \<leftarrow> P sem s; kassert got; Some s }"

text \<open>\<open>uiomove\<close> between memory at \<open>p\<close> and the uio.\<close>

definition move :: "nat \<Rightarrow> nat \<Rightarrow> (('d, 'a) vnodes_scheme, unit) uio_call" where
  "move p n u s = do { (r, u, m) \<leftarrow> uiomove p n u (user_mem s); Some (r, u, s\<lparr>user_mem := m\<rparr>) }"

text \<open>The card works, and then interrupts.\<close>

definition lhd_operate :: "'h card \<Rightarrow> addr \<Rightarrow> (('h, 'x) lhd_scheme, 'a) vnodes_scheme \<Rightarrow> (('h, 'x) lhd_scheme, 'a) vnodes_scheme option" where
  "lhd_operate C lh s =
     (let (m, h) = operate C (lh_buf (fs_state s) lh) (bytes (user_mem s)) (lh_hw (fs_state s) lh)
      in lhd_irq C lh (on_fs (\<lambda>d. d\<lparr>lh_hw := (lh_hw d)(lh := h)\<rparr>) (s\<lparr>user_mem := (user_mem s)\<lparr>bytes := m\<rparr>\<rparr>)))"

text \<open>The body of the loop of \<open>lhd_io\<close>, for one sector.\<close>

definition lhd_sector :: "'h card \<Rightarrow> addr \<Rightarrow> nat \<Rightarrow> nat \<Rightarrow> ((('h, 'x) lhd_scheme, 'a) vnodes_scheme, unit) uio_call" where
  "lhd_sector C lh statval sector u s = do {
     let clear = lh_clear (fs_state s) lh;
     let done = lh_done (fs_state s) lh;
     let buf = lh_buf (fs_state s) lh;
     s \<leftarrow> sem_now clear s;
     (r, u, s) \<leftarrow> (if uio_rw u = UIO_WRITE then move buf LHD_SECTSIZE u s else Some (Inr (), u, s));
     case r of
       Inl e \<Rightarrow> do { s \<leftarrow> V clear s; Some (Inl e, u, s) }
     | Inr _ \<Rightarrow> do {
         s \<leftarrow> lhd_operate C lh (lhd_wreg C lh LHD_REG_STAT statval (lhd_wreg C lh LHD_REG_SECT sector s));
         s \<leftarrow> sem_now done s;
         (r, u, s) \<leftarrow> (case lh_result (fs_state s) lh of
             Some e \<Rightarrow> Some (Inl e, u, s)
           | None \<Rightarrow> if uio_rw u = UIO_READ then move buf LHD_SECTSIZE u s else Some (Inr (), u, s));
         s \<leftarrow> V clear s;
         Some (r, u, s) } }"

fun lhd_sectors :: "'h card \<Rightarrow> addr \<Rightarrow> nat \<Rightarrow> nat list \<Rightarrow> ((('h, 'x) lhd_scheme, 'a) vnodes_scheme, unit) uio_call" where
  "lhd_sectors C lh statval [] u s = Some (Inr (), u, s)"
| "lhd_sectors C lh statval (sector # sectors) u s = do {
     (r, u, s) \<leftarrow> lhd_sector C lh statval sector u s;
     case r of Inl e \<Rightarrow> Some (Inl e, u, s) | Inr _ \<Rightarrow> lhd_sectors C lh statval sectors u s }"

text \<open>The sums of 32-bit sector numbers wrap around.\<close>

definition lhd_io :: "nat \<Rightarrow> 'h card \<Rightarrow> addr \<Rightarrow> ((('h, 'x) lhd_scheme, 'a) vnodes_scheme, unit) uio_call" where
  "lhd_io nsect C lh u s =
     (let sector = nat ((uio_offset u sdiv int LHD_SECTSIZE) mod 2 ^ 32);
          sectoff = nat ((uio_offset u smod int LHD_SECTSIZE) mod 2 ^ 32);
          len = uio_resid u div LHD_SECTSIZE;
          lenoff = uio_resid u mod LHD_SECTSIZE;
          statval = (if uio_rw u = UIO_WRITE then LHD_WORKING OR LHD_ISWRITE else LHD_WORKING)
      in if sectoff \<noteq> 0 \<or> lenoff \<noteq> 0 then Some (Inl EINVAL, u, s)
         else if u32 (sector + len) > nsect then Some (Inl EINVAL, u, s)
         else lhd_sectors C lh statval (map (\<lambda>i. u32 (sector + i)) [0..<len]) u s)"

text \<open>The device structure that \<open>config_lhd\<close> fills in, with the number of sectors that the card reports.\<close>

definition lhd_device :: "nat \<Rightarrow> 'h card \<Rightarrow> (('h, 'x) lhd_scheme, 'a) vnodes_scheme device" where
  "lhd_device nsect C = \<lparr>d_ops = \<lparr>devop_eachopen = lhd_eachopen, devop_io = lhd_io nsect C, devop_ioctl = lhd_ioctl\<rparr>,
     d_blocks = nsect, d_blocksize = LHD_SECTSIZE, d_number = 0\<rparr>"

text \<open>\<open>slot\<close> is where the card is mapped, and \<open>name\<close> is \<open>lhd\<close> with the number of the card.\<close>

definition config_lhd :: "(('h, 'x) lhd_scheme, 'a) vfs_scheme optables \<Rightarrow> nat \<Rightarrow> addr \<Rightarrow> string \<Rightarrow> ((('h, 'x) lhd_scheme, 'a) vfs_scheme, unit) call" where
  "config_lhd T slot lh name s = do {
     let s = on_fs (\<lambda>d. d\<lparr>lh_buf := (lh_buf d)(lh := slot + LHD_BUFFER)\<rparr>) s;
     (clear, s) \<leftarrow> sem_create 1 s;
     let s = on_fs (\<lambda>d. d\<lparr>lh_clear := (lh_clear d)(lh := clear)\<rparr>) s;
     if clear = 0 then Some (Inl ENOMEM, s)
     else do {
       (done, s) \<leftarrow> sem_create 0 s;
       let s = on_fs (\<lambda>d. d\<lparr>lh_done := (lh_done d)(lh := done)\<rparr>) s;
       if done = 0 then do {
         s \<leftarrow> sem_destroy clear s;
         Some (Inl ENOMEM, on_fs (\<lambda>d. d\<lparr>lh_clear := (lh_clear d)(lh := 0)\<rparr>) s) }
       else vfs_adddev T name lh True s } }"

section \<open>What the driver expects of a card\<close>

text \<open>
  An operation is started by writing the sector number and then the status; it leaves the status
  \<open>LHD_OK\<close> or, when the medium fails, \<open>LHD_MEDIA\<close>, and writing 0 to the status makes the card ready again.
  A write that fails may leave anything in its sector.
\<close>

locale lhd_card =
  fixes C :: "'h card" and sectors :: "'h \<Rightarrow> nat \<Rightarrow> byte list" and nsect :: nat and ready :: "'h \<Rightarrow> bool"
  assumes size512: "ready h \<Longrightarrow> n < nsect \<Longrightarrow> length (sectors h n) = 512"
    and nsect: "nsect < 4294967296"
    and reads: "ready h \<Longrightarrow> n < nsect \<Longrightarrow>
        operate C buf m (wr_reg C LHD_REG_STAT LHD_WORKING (wr_reg C LHD_REG_SECT n h)) = (m', h') \<Longrightarrow>
        (\<forall>a. a \<notin> {buf..<buf + 512} \<longrightarrow> m' a = m a)
        \<and> ready (wr_reg C LHD_REG_STAT 0 h') \<and> sectors (wr_reg C LHD_REG_STAT 0 h') = sectors h
        \<and> (rd_reg C h' LHD_REG_STAT AND LHD_STATEMASK = LHD_OK \<and> map m' [buf..<buf + 512] = sectors h n
          \<or> rd_reg C h' LHD_REG_STAT AND LHD_STATEMASK = LHD_MEDIA)"
    and writes: "ready h \<Longrightarrow> n < nsect \<Longrightarrow>
        operate C buf m (wr_reg C LHD_REG_STAT (LHD_WORKING OR LHD_ISWRITE) (wr_reg C LHD_REG_SECT n h)) = (m', h') \<Longrightarrow>
        m' = m \<and> ready (wr_reg C LHD_REG_STAT 0 h')
        \<and> (rd_reg C h' LHD_REG_STAT AND LHD_STATEMASK = LHD_OK
            \<and> sectors (wr_reg C LHD_REG_STAT 0 h') = (sectors h)(n := map m [buf..<buf + 512])
          \<or> rd_reg C h' LHD_REG_STAT AND LHD_STATEMASK = LHD_MEDIA
            \<and> (\<exists>d. length d = 512 \<and> sectors (wr_reg C LHD_REG_STAT 0 h') = (sectors h)(n := d)))"

locale good_card = lhd_card +
  assumes no_media: "ready h \<Longrightarrow> n < nsect \<Longrightarrow> st = LHD_WORKING \<or> st = (LHD_WORKING OR LHD_ISWRITE) \<Longrightarrow>
      operate C buf m (wr_reg C LHD_REG_STAT st (wr_reg C LHD_REG_SECT n h)) = (m', h') \<Longrightarrow>
      rd_reg C h' LHD_REG_STAT AND LHD_STATEMASK \<noteq> LHD_MEDIA"

section \<open>Semaphores without a queue\<close>

definition sem_idle :: "'a sync_scheme \<Rightarrow> addr \<Rightarrow> nat \<Rightarrow> bool" where
  "sem_idle s sem n \<longleftrightarrow> sem \<noteq> 0 \<and> sem_count s sem = n \<and> on_list s (Wchan (sem_wchan s sem)) [] \<and> \<not> t_in_interrupt s (curthread s)"

text \<open>The states in a call of the driver: only counts, the card and memory change.\<close>

definition lhd_at :: "('d, 'a) vnodes_scheme \<Rightarrow> (addr \<Rightarrow> nat) \<Rightarrow> 'd \<Rightarrow> umem \<Rightarrow> ('d, 'a) vnodes_scheme" where
  "lhd_at s c d m = s\<lparr>sem_count := c, fs_state := d, user_mem := m\<rparr>"

lemma lhd_at_sel [simp]:
  "sem_count (lhd_at s c d m) = c" "fs_state (lhd_at s c d m) = d" "user_mem (lhd_at s c d m) = m"
  "sem_wchan (lhd_at s c d m) = sem_wchan s" "t_in_interrupt (lhd_at s c d m) = t_in_interrupt s" "curthread (lhd_at s c d m) = curthread s"
  "on_fs f (lhd_at s c d m) = lhd_at s c (f d) m" "(lhd_at s c d m)\<lparr>user_mem := m'\<rparr> = lhd_at s c d m'"
  "(lhd_at s c d m)\<lparr>sem_count := c'\<rparr> = lhd_at s c' d m"
  by (simp_all add: lhd_at_def on_fs_def)

lemma sem_idle_at: "sem_idle s sem n \<Longrightarrow> on_list (lhd_at s c d m) (Wchan (sem_wchan s sem)) []"
  using on_list_cong [of "lhd_at s c d m" s] by (simp add: sem_idle_def lhd_at_def)

lemma sem_now_eq:
  assumes "sem_idle s sem n" and "c sem = 1"
  shows "sem_now sem (lhd_at s c d m) = Some (lhd_at s (c(sem := 0)) d m)"
  using assms by (simp add: sem_idle_def sem_now_def P_def P_round_def)

lemma V_eq:
  assumes "sem_idle s sem n" and "c sem = 0"
  shows "V sem (lhd_at s c d m) = Some (lhd_at s (c(sem := 1)) d m)"
  using assms sem_idle_at [OF assms(1), of "c(sem := 1)" d m] by (simp add: V_def sem_idle_def u32_def wchan_wakeone_def remhead_empty)

section \<open>One sector\<close>

definition lhd_up :: "('h \<Rightarrow> bool) \<Rightarrow> addr \<Rightarrow> (('h, 'x) lhd_scheme, 'a) vnodes_scheme \<Rightarrow> bool" where
  "lhd_up ready lh s \<longleftrightarrow> ready (lh_hw (fs_state s) lh) \<and> sem_idle s (lh_clear (fs_state s) lh) 1 \<and> sem_idle s (lh_done (fs_state s) lh) 0
     \<and> lh_clear (fs_state s) lh \<noteq> lh_done (fs_state s) lh"

text \<open>What the driver leaves behind: its card in some state, and a result.\<close>

definition lhd_left :: "addr \<Rightarrow> 'h \<Rightarrow> errno option \<Rightarrow> ('h, 'x) lhd_scheme \<Rightarrow> ('h, 'x) lhd_scheme" where
  "lhd_left lh h r d = d\<lparr>lh_hw := (lh_hw d)(lh := h), lh_result := (lh_result d)(lh := r)\<rparr>"

lemma lhd_left_sel [simp]:
  "lh_hw (lhd_left lh h r d) = (lh_hw d)(lh := h)" "lh_result (lhd_left lh h r d) = (lh_result d)(lh := r)"
  "lh_buf (lhd_left lh h r d) = lh_buf d" "lh_clear (lhd_left lh h r d) = lh_clear d" "lh_done (lhd_left lh h r d) = lh_done d"
  "lhd.more (lhd_left lh h r d) = lhd.more d"
  by (simp_all add: lhd_left_def)

text \<open>The interrupt at the end of an operation that the card has completed.\<close>

lemma lhd_operate_eq:
  assumes up: "lhd_up ready lh s" and c: "c (lh_done (fs_state s) lh) = 0" and d: "lh_done d = lh_done (fs_state s)"
    and op: "operate C (lh_buf d lh) (bytes m) (lh_hw d lh) = (b, h)"
    and st: "rd_reg C h LHD_REG_STAT AND LHD_STATEMASK = LHD_OK \<and> r = None \<or> rd_reg C h LHD_REG_STAT AND LHD_STATEMASK = LHD_MEDIA \<and> r = Some EIO"
  shows "lhd_operate C lh (lhd_at s c d m)
    = Some (lhd_at s (c(lh_done (fs_state s) lh := 1)) (lhd_left lh (wr_reg C LHD_REG_STAT 0 h) r d) (m\<lparr>bytes := b\<rparr>))"
proof -
  have i: "sem_idle s (lh_done (fs_state s) lh) 0" using up by (simp add: lhd_up_def)
  show ?thesis
    using op st V_eq [OF i, of c] c d
    by (auto simp: lhd_operate_def lhd_irq_def lhd_rdreg_def lhd_wreg_def lhd_iodone_def lhd_code_to_errno_def lhd_left_def
        LHD_OK_def LHD_MEDIA_def LHD_INVSECT_def)
qed

text \<open>\<open>n\<close> bytes can be moved between \<open>p\<close> and the uio; and the uio afterwards.\<close>

definition movable :: "nat \<Rightarrow> nat \<Rightarrow> uio \<Rightarrow> umem \<Rightarrow> bool" where
  "movable p n u m \<longleftrightarrow> uio_part u m \<and> n \<le> uio_resid u \<and> uio_access p n u m \<and> distinct (uio_addrs u)
     \<and> set (uio_addrs u) \<inter> {p..<p + n} = {} \<and> - (2 ^ 63) \<le> uio_offset u \<and> uio_offset u + int n < 2 ^ 63"

definition advanced :: "nat \<Rightarrow> uio \<Rightarrow> uio \<Rightarrow> bool" where
  "advanced n u u' \<longleftrightarrow> uio_addrs u' = drop n (uio_addrs u) \<and> uio_resid u' = uio_resid u - n \<and> uio_offset u' = uio_offset u + int n
     \<and> uio_segflg u' = uio_segflg u \<and> uio_rw u' = uio_rw u \<and> uio_space u' = uio_space u"

lemma move_ok:
  assumes "movable p n u (user_mem s)"
  obtains u' m' where "move p n u s = Some (Inr (), u', s\<lparr>user_mem := m'\<rparr>)" "uio_part u' m'" "advanced n u u'" "same_access (user_mem s) m'"
    "uio_rw u = UIO_READ \<Longrightarrow> map (bytes m') (take n (uio_addrs u)) = map (bytes (user_mem s)) [p..<p + n]"
    "\<And>a. uio_rw u = UIO_READ \<Longrightarrow> a \<notin> set (take n (uio_addrs u)) \<Longrightarrow> bytes m' a = bytes (user_mem s) a"
    "uio_rw u = UIO_WRITE \<Longrightarrow> map (bytes m') [p..<p + n] = map (bytes (user_mem s)) (take n (uio_addrs u))"
    "\<And>a. uio_rw u = UIO_WRITE \<Longrightarrow> a \<notin> {p..<p + n} \<Longrightarrow> bytes m' a = bytes (user_mem s) a"
proof -
  have a: "uio_part u (user_mem s)" "n \<le> uio_resid u" "uio_access p n u (user_mem s)" "distinct (uio_addrs u)"
    "set (uio_addrs u) \<inter> {p..<p + n} = {}" "- (2 ^ 63) \<le> uio_offset u" "uio_offset u + int n < 2 ^ 63"
    using assms by (simp_all add: movable_def)
  show thesis
  proof (rule uiomove_bytes [OF a])
    fix u' m'
    assume r: "uiomove p n u (user_mem s) = Some (Inr (), u', m')" "uio_part u' m'" "uio_addrs u' = drop n (uio_addrs u)"
      "uio_resid u' = uio_resid u - n" "uio_offset u' = uio_offset u + int n" "uio_segflg u' = uio_segflg u" "uio_rw u' = uio_rw u"
      "uio_space u' = uio_space u" "same_access (user_mem s) m'"
      "uio_rw u = UIO_READ \<Longrightarrow> map (bytes m') (take n (uio_addrs u)) = map (bytes (user_mem s)) [p..<p + n]"
      "\<And>a. uio_rw u = UIO_READ \<Longrightarrow> a \<notin> set (take n (uio_addrs u)) \<Longrightarrow> bytes m' a = bytes (user_mem s) a"
      "uio_rw u = UIO_WRITE \<Longrightarrow> map (bytes m') [p..<p + n] = map (bytes (user_mem s)) (take n (uio_addrs u))"
      "\<And>a. uio_rw u = UIO_WRITE \<Longrightarrow> a \<notin> {p..<p + n} \<Longrightarrow> bytes m' a = bytes (user_mem s) a"
    show thesis
      by (rule that [of u' m']) (use r in \<open>simp_all add: move_def advanced_def\<close>)
  qed
qed

lemma movable_same: "movable p n u m \<Longrightarrow> same_access m m' \<Longrightarrow> movable p n u m'"
  by (simp add: movable_def uio_part_def uio_access_def same_access_def)

text \<open>A block of the kernel.\<close>

lemma kinit_movable:
  assumes "k + 512 \<le> p \<or> p + 512 \<le> k" and "0 \<le> pos" and "pos < 2 ^ 62"
  shows "movable p 512 (uio_kinit k 512 pos rw) m" "uio_addrs (uio_kinit k 512 pos rw) = [k..<k + 512]"
proof -
  show a: "uio_addrs (uio_kinit k 512 pos rw) = [k..<k + 512]" by (simp add: uio_addrs_def uio_kinit_def)
  have "set [k..<k + 512] \<inter> {p..<p + 512} = {}" using assms(1) by auto
  then show "movable p 512 (uio_kinit k 512 pos rw) m"
    using assms(2,3) unfolding movable_def uio_part_def uio_access_def a by (simp add: uio_kinit_def)
qed

text \<open>Nothing has changed but the card, whose sectors are \<open>f\<close> now, and memory.\<close>

definition disk_step :: "('h \<Rightarrow> bool) \<Rightarrow> ('h \<Rightarrow> nat \<Rightarrow> byte list) \<Rightarrow> addr \<Rightarrow> (nat \<Rightarrow> byte list)
    \<Rightarrow> (('h, 'x) lhd_scheme, 'a) vnodes_scheme \<Rightarrow> (('h, 'x) lhd_scheme, 'a) vnodes_scheme \<Rightarrow> bool" where
  "disk_step ready sectors lh f s s' \<longleftrightarrow> (\<exists>h r m. s' = lhd_at s (sem_count s) (lhd_left lh h r (fs_state s)) m \<and> ready h \<and> sectors h = f
     \<and> same_access (user_mem s) m)"

text \<open>What a sector operation does.\<close>

definition sector_done :: "(nat \<Rightarrow> byte list) \<Rightarrow> (nat \<Rightarrow> byte list) \<Rightarrow> nat \<Rightarrow> nat \<Rightarrow> uio \<Rightarrow> uio \<Rightarrow> memory \<Rightarrow> memory \<Rightarrow> bool" where
  "sector_done f f' n buf u u' b b' \<longleftrightarrow> advanced 512 u u' \<and>
     (if uio_rw u = UIO_READ
      then f' = f \<and> map b' (take 512 (uio_addrs u)) = f n \<and> (\<forall>a. a \<notin> set (take 512 (uio_addrs u)) \<union> {buf..<buf + 512} \<longrightarrow> b' a = b a)
      else f' = f(n := map b (take 512 (uio_addrs u))) \<and> (\<forall>a. a \<notin> {buf..<buf + 512} \<longrightarrow> b' a = b a))"

text \<open>What one does that fails: a read leaves the uio as it was, but a write has taken the data already.\<close>

definition sector_failed :: "(nat \<Rightarrow> byte list) \<Rightarrow> (nat \<Rightarrow> byte list) \<Rightarrow> nat \<Rightarrow> nat \<Rightarrow> uio \<Rightarrow> uio \<Rightarrow> memory \<Rightarrow> memory \<Rightarrow> bool" where
  "sector_failed f f' n buf u u' b b' \<longleftrightarrow> (\<forall>a. a \<notin> {buf..<buf + 512} \<longrightarrow> b' a = b a) \<and>
     (if uio_rw u = UIO_READ then f' = f \<and> u' = u else (\<exists>d. length d = 512 \<and> f' = f(n := d)) \<and> advanced 512 u u')"

text \<open>From the start of the operation to the result, for an operation that ends with \<open>r\<close>.\<close>

lemma operate_sector:
  assumes up: "lhd_up ready lh s" and c: "c = (sem_count s)(lh_clear (fs_state s) lh := 0)"
    and op: "operate C (lh_buf (fs_state s) lh) (bytes m) (wr_reg C LHD_REG_STAT st (wr_reg C LHD_REG_SECT n (lh_hw (fs_state s) lh))) = (b, h)"
    and st: "rd_reg C h LHD_REG_STAT AND LHD_STATEMASK = LHD_OK \<and> r = None \<or> rd_reg C h LHD_REG_STAT AND LHD_STATEMASK = LHD_MEDIA \<and> r = Some EIO"
  shows "Option.bind (lhd_operate C lh (lhd_wreg C lh LHD_REG_STAT st (lhd_wreg C lh LHD_REG_SECT n (lhd_at s c (fs_state s) m)))) (sem_now (lh_done (fs_state s) lh))
    = Some (lhd_at s c (lhd_left lh (wr_reg C LHD_REG_STAT 0 h) r (fs_state s)) (m\<lparr>bytes := b\<rparr>))"
proof -
  let ?done = "lh_done (fs_state s) lh" and ?h = "wr_reg C LHD_REG_STAT st (wr_reg C LHD_REG_SECT n (lh_hw (fs_state s) lh))"
  let ?d = "(fs_state s)\<lparr>lh_hw := (lh_hw (fs_state s))(lh := ?h)\<rparr>"
  have dn: "sem_idle s ?done 0" "c ?done = 0" using up c by (auto simp: lhd_up_def sem_idle_def)
  have w: "lhd_wreg C lh LHD_REG_STAT st (lhd_wreg C lh LHD_REG_SECT n (lhd_at s c (fs_state s) m)) = lhd_at s c ?d m"
    by (simp add: lhd_wreg_def)
  have l: "lhd_left lh g r ?d = lhd_left lh g r (fs_state s)" for g by (simp add: lhd_left_def)
  have "lhd_operate C lh (lhd_at s c ?d m) = Some (lhd_at s (c(?done := 1)) (lhd_left lh (wr_reg C LHD_REG_STAT 0 h) r (fs_state s)) (m\<lparr>bytes := b\<rparr>))"
    using lhd_operate_eq [OF up, of c ?d C m b h r] dn(2) op st l by simp
  moreover have "(c(?done := 1))(?done := 0) = c" using dn(2) by auto
  ultimately show ?thesis unfolding w using sem_now_eq [OF dn(1), of "c(?done := 1)"] by simp
qed

context lhd_card
begin

lemma sector:
  assumes up: "lhd_up ready lh s" and n: "n < nsect" and mv: "movable (lh_buf (fs_state s) lh) 512 u (user_mem s)"
    and st: "st = (if uio_rw u = UIO_WRITE then LHD_WORKING OR LHD_ISWRITE else LHD_WORKING)"
  obtains r u' s' f' where "lhd_sector C lh st n u s = Some (r, u', s')" "disk_step ready sectors lh f' s s'"
    "r = Inr () \<and> sector_done (sectors (lh_hw (fs_state s) lh)) f' n (lh_buf (fs_state s) lh) u u' (bytes (user_mem s)) (bytes (user_mem s'))
     \<or> r = Inl EIO \<and> sector_failed (sectors (lh_hw (fs_state s) lh)) f' n (lh_buf (fs_state s) lh) u u' (bytes (user_mem s)) (bytes (user_mem s'))
       \<and> (\<exists>m h h'. operate C (lh_buf (fs_state s) lh) m (wr_reg C LHD_REG_STAT st (wr_reg C LHD_REG_SECT n (lh_hw (fs_state s) lh))) = (h, h')
            \<and> rd_reg C h' LHD_REG_STAT AND LHD_STATEMASK = LHD_MEDIA)"
proof -
  let ?clear = "lh_clear (fs_state s) lh" and ?done = "lh_done (fs_state s) lh" and ?buf = "lh_buf (fs_state s) lh" and ?h0 = "lh_hw (fs_state s) lh"
  let ?c = "(sem_count s)(?clear := 0)" and ?m0 = "user_mem s"
  let ?h1 = "wr_reg C LHD_REG_STAT st (wr_reg C LHD_REG_SECT n ?h0)"
  have i: "sem_idle s ?clear 1" "ready ?h0" using up by (simp_all add: lhd_up_def)
  have s: "s = lhd_at s (sem_count s) (fs_state s) ?m0" by (simp add: lhd_at_def)
  have P: "sem_now ?clear s = Some (lhd_at s ?c (fs_state s) ?m0)"
    by (subst s, rule sem_now_eq [OF i(1)]) (use i(1) in \<open>simp add: sem_idle_def\<close>)
  have V: "V ?clear (lhd_at s ?c d m) = Some (lhd_at s (sem_count s) d m)" for d m
  proof -
    have "?c(?clear := 1) = sem_count s" using i(1) by (auto simp: sem_idle_def)
    then show ?thesis using V_eq [OF i(1), of ?c d m] by simp
  qed
  have step: "disk_step ready sectors lh (sectors h) s (lhd_at s (sem_count s) (lhd_left lh h r (fs_state s)) m)"
    if "ready h" "same_access ?m0 m" for h r m using that unfolding disk_step_def by blast
  show thesis
  proof (cases "uio_rw u = UIO_WRITE")
    case W: True
    have mv1: "movable ?buf 512 u (user_mem (lhd_at s ?c (fs_state s) ?m0))" using mv by simp
    obtain u1 m1 where u1: "move ?buf 512 u (lhd_at s ?c (fs_state s) ?m0) = Some (Inr (), u1, lhd_at s ?c (fs_state s) m1)" "advanced 512 u u1"
      "same_access ?m0 m1" "map (bytes m1) [?buf..<?buf + 512] = map (bytes ?m0) (take 512 (uio_addrs u))"
      "\<forall>a. a \<notin> {?buf..<?buf + 512} \<longrightarrow> bytes m1 a = bytes ?m0 a"
      by (rule move_ok [OF mv1]) (use W in simp)
    obtain b h where op: "operate C ?buf (bytes m1) ?h1 = (b, h)" by fastforce
    have sp: "b = bytes m1" "ready (wr_reg C LHD_REG_STAT 0 h)"
      "rd_reg C h LHD_REG_STAT AND LHD_STATEMASK = LHD_OK \<and> sectors (wr_reg C LHD_REG_STAT 0 h) = (sectors ?h0)(n := map (bytes m1) [?buf..<?buf + 512])
       \<or> rd_reg C h LHD_REG_STAT AND LHD_STATEMASK = LHD_MEDIA \<and> (\<exists>d. length d = 512 \<and> sectors (wr_reg C LHD_REG_STAT 0 h) = (sectors ?h0)(n := d))"
      using writes [OF i(2) n, of ?buf "bytes m1" b h] op W st by simp_all
    let ?r = "if rd_reg C h LHD_REG_STAT AND LHD_STATEMASK = LHD_OK then None else Some EIO"
    let ?s' = "lhd_at s (sem_count s) (lhd_left lh (wr_reg C LHD_REG_STAT 0 h) ?r (fs_state s)) (m1\<lparr>bytes := b\<rparr>)"
    have "Option.bind (lhd_operate C lh (lhd_wreg C lh LHD_REG_STAT st (lhd_wreg C lh LHD_REG_SECT n (lhd_at s ?c (fs_state s) m1)))) (sem_now ?done)
      = Some (lhd_at s ?c (lhd_left lh (wr_reg C LHD_REG_STAT 0 h) ?r (fs_state s)) (m1\<lparr>bytes := b\<rparr>))"
      using sp(3) by (intro operate_sector [OF up refl op]) auto
    then have call: "lhd_sector C lh st n u s = Some (case ?r of None \<Rightarrow> Inr () | Some e \<Rightarrow> Inl e, u1, ?s')"
      using W P u1(1,2) V by (auto simp: lhd_sector_def LHD_SECTSIZE_def advanced_def Let_def Option.bind_eq_Some_conv)
    show thesis
    proof (rule that [OF call step])
      show "ready (wr_reg C LHD_REG_STAT 0 h)" "same_access ?m0 (m1\<lparr>bytes := b\<rparr>)" using sp(2) u1(3) by (simp_all add: same_access_def)
    qed (use sp u1 W op in \<open>auto simp: sector_done_def sector_failed_def LHD_OK_def LHD_MEDIA_def\<close>)
  next
    case False
    then have R: "uio_rw u = UIO_READ" by (cases "uio_rw u") simp_all
    obtain b h where op: "operate C ?buf (bytes ?m0) ?h1 = (b, h)" by fastforce
    have sp: "\<forall>a. a \<notin> {?buf..<?buf + 512} \<longrightarrow> b a = bytes ?m0 a" "ready (wr_reg C LHD_REG_STAT 0 h)" "sectors (wr_reg C LHD_REG_STAT 0 h) = sectors ?h0"
      "rd_reg C h LHD_REG_STAT AND LHD_STATEMASK = LHD_OK \<and> map b [?buf..<?buf + 512] = sectors ?h0 n \<or> rd_reg C h LHD_REG_STAT AND LHD_STATEMASK = LHD_MEDIA"
      using reads [OF i(2) n, of ?buf "bytes ?m0" b h] op R st by simp_all
    let ?r = "if rd_reg C h LHD_REG_STAT AND LHD_STATEMASK = LHD_OK then None else Some EIO"
    let ?d = "lhd_left lh (wr_reg C LHD_REG_STAT 0 h) ?r (fs_state s)" and ?m1 = "?m0\<lparr>bytes := b\<rparr>"
    have o: "Option.bind (lhd_operate C lh (lhd_wreg C lh LHD_REG_STAT st (lhd_wreg C lh LHD_REG_SECT n (lhd_at s ?c (fs_state s) ?m0)))) (sem_now ?done)
      = Some (lhd_at s ?c ?d ?m1)"
      using sp(4) by (intro operate_sector [OF up refl op]) auto
    show thesis
    proof (cases ?r)
      case (Some e)
      have call: "lhd_sector C lh st n u s = Some (Inl e, u, lhd_at s (sem_count s) ?d ?m1)"
        using R P o V Some by (auto simp: lhd_sector_def LHD_SECTSIZE_def Let_def Option.bind_eq_Some_conv)
      show thesis
      proof (rule that [OF call step])
        show "ready (wr_reg C LHD_REG_STAT 0 h)" "same_access ?m0 ?m1" using sp(2) by (simp_all add: same_access_def)
      qed (use sp Some R op in \<open>auto simp: sector_failed_def LHD_OK_def LHD_MEDIA_def split: if_splits\<close>)
    next
      case None
      have mv1: "movable ?buf 512 u (user_mem (lhd_at s ?c ?d ?m1))" using mv by (rule movable_same) (simp add: same_access_def)
      obtain u1 m1 where u1: "move ?buf 512 u (lhd_at s ?c ?d ?m1) = Some (Inr (), u1, lhd_at s ?c ?d m1)" "advanced 512 u u1"
        "same_access ?m1 m1" "map (bytes m1) (take 512 (uio_addrs u)) = map b [?buf..<?buf + 512]"
        "\<forall>a. a \<notin> set (take 512 (uio_addrs u)) \<longrightarrow> bytes m1 a = b a"
        by (rule move_ok [OF mv1]) (use R in simp)
      have call: "lhd_sector C lh st n u s = Some (Inr (), u1, lhd_at s (sem_count s) ?d m1)"
        using R P o V None u1(1) by (auto simp: lhd_sector_def LHD_SECTSIZE_def Let_def Option.bind_eq_Some_conv)
      show thesis
      proof (rule that [OF call step])
        show "ready (wr_reg C LHD_REG_STAT 0 h)" "same_access ?m0 m1" using sp(2) u1(3) by (simp_all add: same_access_def)
      qed (use sp None R u1 in \<open>auto simp: sector_done_def LHD_OK_def LHD_MEDIA_def split: if_splits\<close>)
    qed
  qed
qed


text \<open>One block, aligned.\<close>

lemma io_block:
  assumes up: "lhd_up ready lh s" and n: "n < nsect" and mv: "movable (lh_buf (fs_state s) lh) 512 u (user_mem s)"
    and u: "uio_offset u = int (512 * n)" "uio_resid u = 512"
  obtains r u' s' f' where "lhd_io nsect C lh u s = Some (r, u', s')" "disk_step ready sectors lh f' s s'"
    "r = Inr () \<and> sector_done (sectors (lh_hw (fs_state s) lh)) f' n (lh_buf (fs_state s) lh) u u' (bytes (user_mem s)) (bytes (user_mem s'))
     \<or> r = Inl EIO \<and> sector_failed (sectors (lh_hw (fs_state s) lh)) f' n (lh_buf (fs_state s) lh) u u' (bytes (user_mem s)) (bytes (user_mem s'))
       \<and> (\<exists>st m h h'. (st = LHD_WORKING \<or> st = (LHD_WORKING OR LHD_ISWRITE))
            \<and> operate C (lh_buf (fs_state s) lh) m (wr_reg C LHD_REG_STAT st (wr_reg C LHD_REG_SECT n (lh_hw (fs_state s) lh))) = (h, h')
            \<and> rd_reg C h' LHD_REG_STAT AND LHD_STATEMASK = LHD_MEDIA)"
proof -
  let ?st = "if uio_rw u = UIO_WRITE then LHD_WORKING OR LHD_ISWRITE else LHD_WORKING"
  have sm: "u32 n = n" "u32 (n + 1) \<le> nsect" using n nsect by (simp_all add: u32_def)
  have "(int (512 * n) sdiv 512) mod 2 ^ 32 = int n" "int (512 * n) smod 512 = 0" using n nsect by (simp_all add: signed_divide_int_eq_divide_int signed_modulo_int_eq_modulo_int)
  then have io: "lhd_io nsect C lh u s = lhd_sectors C lh ?st [n] u s"
    using u sm by (simp add: lhd_io_def LHD_SECTSIZE_def Let_def)
  obtain r u' s' f' where "lhd_sector C lh ?st n u s = Some (r, u', s')" "disk_step ready sectors lh f' s s'"
    "r = Inr () \<and> sector_done (sectors (lh_hw (fs_state s) lh)) f' n (lh_buf (fs_state s) lh) u u' (bytes (user_mem s)) (bytes (user_mem s'))
     \<or> r = Inl EIO \<and> sector_failed (sectors (lh_hw (fs_state s) lh)) f' n (lh_buf (fs_state s) lh) u u' (bytes (user_mem s)) (bytes (user_mem s'))
       \<and> (\<exists>m h h'. operate C (lh_buf (fs_state s) lh) m (wr_reg C LHD_REG_STAT ?st (wr_reg C LHD_REG_SECT n (lh_hw (fs_state s) lh))) = (h, h')
            \<and> rd_reg C h' LHD_REG_STAT AND LHD_STATEMASK = LHD_MEDIA)"
    by (rule sector [OF up n mv refl])
  moreover have "lhd_io nsect C lh u s = Some (r, u', s')"
    using calculation(1,3) unfolding io by (auto split: sum.splits)
  ultimately show thesis by (intro that) (auto split: if_splits)
qed

text \<open>A uio without bytes left is accepted up to the end of the disk, and nothing is done.\<close>

lemma io_nothing:
  assumes "n \<le> nsect" and "uio_offset u = int (512 * n)" and "uio_resid u = 0"
  shows "lhd_io nsect C lh u s = Some (Inr (), u, s)"
proof -
  have "(int (512 * n) sdiv 512) mod 2 ^ 32 = int n" "int (512 * n) smod 512 = 0" using assms nsect by (simp_all add: signed_divide_int_eq_divide_int signed_modulo_int_eq_modulo_int)
  then show ?thesis using assms nsect by (simp add: lhd_io_def LHD_SECTSIZE_def Let_def u32_def)
qed

lemma up_step:
  assumes up: "lhd_up ready lh s" and st: "disk_step ready sectors lh f s s'"
  shows "lhd_up ready lh s'" "sectors (lh_hw (fs_state s') lh) = f" "lh_buf (fs_state s') = lh_buf (fs_state s)"
    "lhd.more (fs_state s') = lhd.more (fs_state s)"
proof -
  obtain h r m where s': "s' = lhd_at s (sem_count s) (lhd_left lh h r (fs_state s)) m" "ready h" "sectors h = f"
    using st by (auto simp: disk_step_def)
  have i: "sem_idle s' x n = sem_idle s x n" for x n
    using on_list_cong [of s' s] by (simp add: sem_idle_def s'(1) lhd_at_def)
  show "lhd_up ready lh s'" using up s'(2) unfolding lhd_up_def i by (simp add: s'(1))
  show "sectors (lh_hw (fs_state s') lh) = f" "lh_buf (fs_state s') = lh_buf (fs_state s)" "lhd.more (fs_state s') = lhd.more (fs_state s)"
    using s' by simp_all
qed

end

section \<open>A card\<close>

text \<open>A card with \<open>n\<close> sectors, some of which are on a bad medium: what the hardware is documented to do.\<close>

record platter =
  pl_sect :: "nat \<Rightarrow> byte list"
  pl_bad :: "nat set"
  pl_at :: nat          \<comment> \<open>the register for the sector\<close>
  pl_stat :: nat

definition sim_card :: "nat \<Rightarrow> platter card" where
  "sim_card n = \<lparr>
     rd_reg = (\<lambda>p r. if r = LHD_REG_NSECT then u32 n else if r = LHD_REG_STAT then pl_stat p else pl_at p),
     wr_reg = (\<lambda>r v p. if r = LHD_REG_SECT then p\<lparr>pl_at := v\<rparr> else if r = LHD_REG_STAT then p\<lparr>pl_stat := v\<rparr> else p),
     operate = (\<lambda>buf m p.
        if pl_at p \<ge> u32 n then (m, p\<lparr>pl_stat := LHD_INVSECT\<rparr>)
        else if pl_at p \<in> pl_bad p then (m, p\<lparr>pl_stat := LHD_MEDIA\<rparr>)
        else if pl_stat p = LHD_WORKING then (put_bytes_at buf (pl_sect p (pl_at p)) m, p\<lparr>pl_stat := LHD_OK\<rparr>)
        else (m, p\<lparr>pl_sect := (pl_sect p)(pl_at p := map m [buf..<buf + 512]), pl_stat := LHD_OK\<rparr>))\<rparr>"

definition sim_ready :: "nat \<Rightarrow> platter \<Rightarrow> bool" where
  "sim_ready n p \<longleftrightarrow> (\<forall>k<u32 n. length (pl_sect p k) = 512)"

definition sim_good :: "nat \<Rightarrow> platter \<Rightarrow> bool" where
  "sim_good n p \<longleftrightarrow> sim_ready n p \<and> pl_bad p = {}"

lemma put_bytes_sel: "length bs = 512 \<Longrightarrow> map (put_bytes_at a bs m) [a..<a + 512] = bs"
  by (rule nth_equalityI) (simp_all add: put_bytes_at_def)

lemmas sim_defs = sim_card_def LHD_REG_NSECT_def LHD_REG_STAT_def LHD_REG_SECT_def LHD_WORKING_def LHD_ISWRITE_def LHD_OK_def LHD_MEDIA_def
  LHD_INVSECT_def LHD_STATEMASK_def

interpretation sim: lhd_card "sim_card n" pl_sect "u32 n" "sim_ready n"
proof unfold_locales
  show "u32 n < 4294967296" by (simp add: u32_def)
  show "sim_ready n h \<Longrightarrow> k < u32 n \<Longrightarrow> length (pl_sect h k) = 512" for h k by (simp add: sim_ready_def)
next
  fix h k buf m m' h'
  assume "sim_ready n h" "k < u32 n"
    "operate (sim_card n) buf m (wr_reg (sim_card n) LHD_REG_STAT LHD_WORKING (wr_reg (sim_card n) LHD_REG_SECT k h)) = (m', h')"
  then show "(\<forall>a. a \<notin> {buf..<buf + 512} \<longrightarrow> m' a = m a)
        \<and> sim_ready n (wr_reg (sim_card n) LHD_REG_STAT 0 h') \<and> pl_sect (wr_reg (sim_card n) LHD_REG_STAT 0 h') = pl_sect h
        \<and> (rd_reg (sim_card n) h' LHD_REG_STAT AND LHD_STATEMASK = LHD_OK \<and> map m' [buf..<buf + 512] = pl_sect h k
          \<or> rd_reg (sim_card n) h' LHD_REG_STAT AND LHD_STATEMASK = LHD_MEDIA)"
    using put_bytes_sel [of "pl_sect h k" buf m] by (auto simp: sim_defs sim_ready_def put_bytes_at_def split: if_splits)
next
  fix h k buf m m' h'
  assume "sim_ready n h" "k < u32 n"
    "operate (sim_card n) buf m (wr_reg (sim_card n) LHD_REG_STAT (LHD_WORKING OR LHD_ISWRITE) (wr_reg (sim_card n) LHD_REG_SECT k h)) = (m', h')"
  then show "m' = m \<and> sim_ready n (wr_reg (sim_card n) LHD_REG_STAT 0 h')
        \<and> (rd_reg (sim_card n) h' LHD_REG_STAT AND LHD_STATEMASK = LHD_OK
            \<and> pl_sect (wr_reg (sim_card n) LHD_REG_STAT 0 h') = (pl_sect h)(k := map m [buf..<buf + 512])
          \<or> rd_reg (sim_card n) h' LHD_REG_STAT AND LHD_STATEMASK = LHD_MEDIA
            \<and> (\<exists>d. length d = 512 \<and> pl_sect (wr_reg (sim_card n) LHD_REG_STAT 0 h') = (pl_sect h)(k := d)))"
    by (auto simp: sim_defs sim_ready_def split: if_splits intro!: exI [of _ "pl_sect h k"])
qed

lemma sim_bad:
  "pl_bad (wr_reg (sim_card n) LHD_REG_STAT 0 (snd (operate (sim_card n) buf m (wr_reg (sim_card n) LHD_REG_STAT st (wr_reg (sim_card n) LHD_REG_SECT k h))))) = pl_bad h"
  by (simp add: sim_defs)

interpretation simg: good_card "sim_card n" pl_sect "u32 n" "sim_good n"
proof unfold_locales
  show "u32 n < 4294967296" by (rule sim.nsect)
  show "sim_good n h \<Longrightarrow> k < u32 n \<Longrightarrow> length (pl_sect h k) = 512" for h k by (simp add: sim_good_def sim_ready_def)
next
  fix h k buf m m' h'
  assume "sim_good n h" "k < u32 n"
    and op: "operate (sim_card n) buf m (wr_reg (sim_card n) LHD_REG_STAT LHD_WORKING (wr_reg (sim_card n) LHD_REG_SECT k h)) = (m', h')"
  then show "(\<forall>a. a \<notin> {buf..<buf + 512} \<longrightarrow> m' a = m a)
        \<and> sim_good n (wr_reg (sim_card n) LHD_REG_STAT 0 h') \<and> pl_sect (wr_reg (sim_card n) LHD_REG_STAT 0 h') = pl_sect h
        \<and> (rd_reg (sim_card n) h' LHD_REG_STAT AND LHD_STATEMASK = LHD_OK \<and> map m' [buf..<buf + 512] = pl_sect h k
          \<or> rd_reg (sim_card n) h' LHD_REG_STAT AND LHD_STATEMASK = LHD_MEDIA)"
    using sim.reads [OF _ _ op] sim_bad [of n buf m LHD_WORKING k h] unfolding sim_good_def op by auto
next
  fix h k buf m m' h'
  assume "sim_good n h" "k < u32 n"
    and op: "operate (sim_card n) buf m (wr_reg (sim_card n) LHD_REG_STAT (LHD_WORKING OR LHD_ISWRITE) (wr_reg (sim_card n) LHD_REG_SECT k h)) = (m', h')"
  then show "m' = m \<and> sim_good n (wr_reg (sim_card n) LHD_REG_STAT 0 h')
        \<and> (rd_reg (sim_card n) h' LHD_REG_STAT AND LHD_STATEMASK = LHD_OK
            \<and> pl_sect (wr_reg (sim_card n) LHD_REG_STAT 0 h') = (pl_sect h)(k := map m [buf..<buf + 512])
          \<or> rd_reg (sim_card n) h' LHD_REG_STAT AND LHD_STATEMASK = LHD_MEDIA
            \<and> (\<exists>d. length d = 512 \<and> pl_sect (wr_reg (sim_card n) LHD_REG_STAT 0 h') = (pl_sect h)(k := d)))"
    using sim.writes [OF _ _ op] sim_bad [of n buf m "LHD_WORKING OR LHD_ISWRITE" k h] unfolding sim_good_def op by auto
next
  fix h k st buf m m' h'
  assume "sim_good n h" "k < u32 n" "st = LHD_WORKING \<or> st = (LHD_WORKING OR LHD_ISWRITE)"
    "operate (sim_card n) buf m (wr_reg (sim_card n) LHD_REG_STAT st (wr_reg (sim_card n) LHD_REG_SECT k h)) = (m', h')"
  then show "rd_reg (sim_card n) h' LHD_REG_STAT AND LHD_STATEMASK \<noteq> LHD_MEDIA"
    by (auto simp: sim_defs sim_good_def split: if_splits)
qed

section \<open>Properties\<close>


text \<open>A disk of eight sectors, one of them bad, with its buffer at an address of the kernel.\<close>

definition boot_disk :: "platter lhd vnodes" where
  "boot_disk = (sync.extend boot_sync (vnodes.fields (\<lambda>_. 0) (\<lambda>_. 0) (\<lambda>_. 0) (\<lambda>_. 0)
       \<lparr>lh_hw = \<lambda>_. \<lparr>pl_sect = \<lambda>_. replicate 512 0, pl_bad = {3}, pl_at = 0, pl_stat = 0\<rparr>, lh_result = \<lambda>_. None,
         lh_buf = \<lambda>_. 3221225472, lh_clear = \<lambda>_. 41, lh_done = \<lambda>_. 42\<rparr> {}
       \<lparr>bytes = \<lambda>_. 7, readable = \<lambda>_. True, writable = \<lambda>_. True, tm_badfaultfunc = False, current_as = 0\<rparr>))
     \<lparr>sem_count := \<lambda>x. if x = 41 then 1 else 0\<rparr>"

lemma boot_disk_up: "lhd_up (sim_ready 8) 5 boot_disk"
proof -
  have "on_list boot_sync (Wchan w) []" for w by (simp add: boot_sync_def all_empty_lists)
  then have "on_list boot_disk (Wchan w) []" for w
    using on_list_cong [of boot_disk boot_sync] by (simp add: boot_disk_def vnodes.defs sync.defs)
  then show ?thesis
    by (simp add: lhd_up_def sem_idle_def boot_disk_def vnodes.defs sync.defs boot_fields sim_ready_def)
qed


end
