(* ===== verification/Sfs_Block.thy ===== *)
theory Sfs_Block
  imports Lhd Exec Bitmap
begin

text \<open>
  Blocks of the file system SFS: the block I/O of \<open>kern/fs/sfs/sfs_io.c\<close>, the block allocation of
  \<open>kern/fs/sfs/sfs_balloc.c\<close> and the block map of \<open>kern/fs/sfs/sfs_bmap.c\<close>.  The structures of SFS
  (\<open>kern/include/sfs.h\<close>, \<open>kern/include/kern/sfs.h\<close>) are kept beside those of the disk in \<open>fs_state\<close>;
  \<open>struct fs\<close> is the first member of \<open>struct sfs_fs\<close> and \<open>struct vnode\<close> the first of \<open>struct sfs_vnode\<close>,
  so they have the same addresses.  The static buffers have the addresses \<open>K\<close>; what the code reads into a
  buffer is passed on as a list of bytes or of words.
\<close>

section \<open>Structures\<close>

definition SFS_BLOCKSIZE :: nat where "SFS_BLOCKSIZE = 512"
definition SFS_NDIRECT :: nat where "SFS_NDIRECT = 15"
definition SFS_NINDIRECT :: nat where "SFS_NINDIRECT = 1"
definition SFS_DBPERIDB :: nat where "SFS_DBPERIDB = 128"

record sfs_superblock =
  sb_magic :: nat
  sb_nblocks :: nat
  sb_volname :: "byte list"
  sb_reserved :: "nat list"

record sfs_dinode =
  sfi_size :: nat
  sfi_type :: nat
  sfi_linkcount :: nat
  sfi_direct :: "nat list"
  sfi_indirect :: nat
  sfi_waste :: "nat list"

record 'h sfs = "'h lhd" +
  sv_i :: "addr \<Rightarrow> sfs_dinode"           \<comment> \<open>sfs_vnode\<close>
  sv_ino :: "addr \<Rightarrow> nat"
  sv_dirty :: "addr \<Rightarrow> bool"
  sfs_sb :: "addr \<Rightarrow> sfs_superblock"      \<comment> \<open>sfs_fs\<close>
  sfs_superdirty :: "addr \<Rightarrow> bool"
  sfs_device :: "addr \<Rightarrow> addr"
  sfs_vnodes :: "addr \<Rightarrow> addr arr"
  sfs_freemap :: "addr \<Rightarrow> bitmap option"
  sfs_freemapdirty :: "addr \<Rightarrow> bool"

datatype kbuf = Zeros | Idbuf | Idbuf_trunc | Iobuf | Metaiobuf

text \<open>The file system of a vnode.\<close>

definition sfs_of :: "addr \<Rightarrow> ('d, 'a) vnodes_scheme \<Rightarrow> addr" where
  "sfs_of sv s = vn_fs s sv"

definition set_inode :: "addr \<Rightarrow> (sfs_dinode \<Rightarrow> sfs_dinode) \<Rightarrow> (('h, 'x) sfs_scheme, 'a) vnodes_scheme \<Rightarrow> (('h, 'x) sfs_scheme, 'a) vnodes_scheme" where
  "set_inode sv f = on_fs (\<lambda>d. d\<lparr>sv_i := (sv_i d)(sv := f (sv_i d sv)), sv_dirty := (sv_dirty d)(sv := True)\<rparr>)"

definition set_freemap :: "addr \<Rightarrow> bitmap \<Rightarrow> (('h, 'x) sfs_scheme, 'a) vnodes_scheme \<Rightarrow> (('h, 'x) sfs_scheme, 'a) vnodes_scheme" where
  "set_freemap sfs fm = on_fs (\<lambda>d. d\<lparr>sfs_freemap := (sfs_freemap d)(sfs := Some fm)\<rparr>)"

definition freemap_dirty :: "addr \<Rightarrow> (('h, 'x) sfs_scheme, 'a) vnodes_scheme \<Rightarrow> (('h, 'x) sfs_scheme, 'a) vnodes_scheme" where
  "freemap_dirty sfs = on_fs (\<lambda>d. d\<lparr>sfs_freemapdirty := (sfs_freemapdirty d)(sfs := True)\<rparr>)"

section \<open>Block I/O\<close>

text \<open>The attempts of \<open>sfs_rwblock\<close> with \<open>n\<close> retries left. EINVAL is a panic.\<close>

fun rw_tries :: "(('d, 'a) vnodes_scheme devices) \<Rightarrow> addr \<Rightarrow> nat \<Rightarrow> (('d, 'a) vnodes_scheme, unit) uio_call" where
  "rw_tries D dev n u s = do {
     (result, u, s) \<leftarrow> devop_io (d_ops (D dev)) dev u s;
     kassert (result \<noteq> Inl EINVAL);
     case n of
       0 \<Rightarrow> Some (result, u, s)
     | Suc n \<Rightarrow> if result = Inl EIO then rw_tries D dev n u s else Some (result, u, s) }"

type_synonym ('h, 'x, 'a) sfs_state = "(('h, 'x) sfs_scheme, 'a) vfs_scheme"
type_synonym ('h, 'x, 'a) sfs_devs = "('h, 'x, 'a) sfs_state devices"

definition sfs_rwblock :: "('h, 'x, 'a) sfs_devs \<Rightarrow> addr \<Rightarrow> (('h, 'x, 'a) sfs_state, unit) uio_call" where
  "sfs_rwblock D sfs u s = do {
     biglock_held s;
     rw_tries D (sfs_device (fs_state s) sfs) 10 u s }"

text \<open>The macro \<open>SFSUIO\<close>.\<close>

definition SFSUIO :: "nat \<Rightarrow> nat \<Rightarrow> uio_rw \<Rightarrow> uio" where
  "SFSUIO ptr dblock rw = uio_kinit ptr SFS_BLOCKSIZE (int dblock * int SFS_BLOCKSIZE) rw"

text \<open>The block is read to address \<open>k\<close>, and the result is its bytes.\<close>

definition sfs_readblock :: "('h, 'x, 'a) sfs_devs \<Rightarrow> nat \<Rightarrow> addr \<Rightarrow> nat \<Rightarrow> (('h, 'x, 'a) sfs_state, byte list) call" where
  "sfs_readblock D k sfs dblock s = do {
     (result, u, s) \<leftarrow> sfs_rwblock D sfs (SFSUIO k dblock UIO_READ) s;
     Some (map_sum id (\<lambda>_. map (bytes (user_mem s)) [k..<k + SFS_BLOCKSIZE]) result, s) }"

text \<open>The object at address \<open>k\<close> has the bytes \<open>data\<close>.\<close>

definition sfs_writeblock :: "('h, 'x, 'a) sfs_devs \<Rightarrow> nat \<Rightarrow> addr \<Rightarrow> nat \<Rightarrow> byte list \<Rightarrow> (('h, 'x, 'a) sfs_state, unit) call" where
  "sfs_writeblock D k sfs dblock data s = do {
     kassert (length data = SFS_BLOCKSIZE);
     let s = s\<lparr>user_mem := (user_mem s)\<lparr>bytes := put_bytes_at k data (bytes (user_mem s))\<rparr>\<rparr>;
     (result, u, s) \<leftarrow> sfs_rwblock D sfs (SFSUIO k dblock UIO_WRITE) s;
     Some (result, s) }"

section \<open>Allocation\<close>

definition sfs_clearblock :: "('h, 'x, 'a) sfs_devs \<Rightarrow> (kbuf \<Rightarrow> nat) \<Rightarrow> addr \<Rightarrow> nat \<Rightarrow> (('h, 'x, 'a) sfs_state, unit) call" where
  "sfs_clearblock D K sfs dblock = sfs_writeblock D (K Zeros) sfs dblock (replicate SFS_BLOCKSIZE 0)"

definition sfs_balloc :: "('h, 'x, 'a) sfs_devs \<Rightarrow> (kbuf \<Rightarrow> nat) \<Rightarrow> addr \<Rightarrow> (('h, 'x, 'a) sfs_state, nat) call" where
  "sfs_balloc D K sfs s = do {
     fm \<leftarrow> sfs_freemap (fs_state s) sfs;
     (result, fm) \<leftarrow> bitmap_alloc fm;
     let s = set_freemap sfs fm s;
     case result of
       Inl e \<Rightarrow> Some (Inl e, s)
     | Inr diskblock \<Rightarrow> do {
         let s = freemap_dirty sfs s;
         kassert (diskblock < sb_nblocks (sfs_sb (fs_state s) sfs));
         (result, s) \<leftarrow> sfs_clearblock D K sfs diskblock s;
         case result of
           Inl e \<Rightarrow> do {
             fm \<leftarrow> sfs_freemap (fs_state s) sfs;
             fm \<leftarrow> bitmap_unmark fm diskblock;
             Some (Inl e, set_freemap sfs fm s) }
         | Inr _ \<Rightarrow> Some (Inr diskblock, s) } }"

definition sfs_bfree :: "addr \<Rightarrow> nat \<Rightarrow> ('h, 'x, 'a) sfs_state \<Rightarrow> ('h, 'x, 'a) sfs_state option" where
  "sfs_bfree sfs diskblock s = do {
     fm \<leftarrow> sfs_freemap (fs_state s) sfs;
     fm \<leftarrow> bitmap_unmark fm diskblock;
     Some (freemap_dirty sfs (set_freemap sfs fm s)) }"

definition sfs_bused :: "addr \<Rightarrow> nat \<Rightarrow> ('h, 'x, 'a) sfs_state \<Rightarrow> bool option" where
  "sfs_bused sfs diskblock s = do {
     kassert (diskblock < sb_nblocks (sfs_sb (fs_state s) sfs));
     fm \<leftarrow> sfs_freemap (fs_state s) sfs;
     bitmap_isset fm diskblock }"

section \<open>The block map\<close>

text \<open>A block as an array of 32-bit words, most significant byte first.\<close>

definition block_words :: "byte list \<Rightarrow> nat list" where
  "block_words bs = map (\<lambda>i. word_at (\<lambda>j. bs ! j) (4 * i)) [0..<SFS_DBPERIDB]"

definition words_block :: "nat list \<Rightarrow> byte list" where
  "words_block ws = concat (map word_bytes ws)"

text \<open>Block 0, the superblock, stands for a block that is not there. A mapped block that is marked free is a panic.\<close>

definition hand_back :: "addr \<Rightarrow> nat \<Rightarrow> (('h, 'x, 'a) sfs_state, nat) call" where
  "hand_back sfs dblock s = do {
     used \<leftarrow> (if dblock \<noteq> 0 then sfs_bused sfs dblock s else Some True);
     kassert used;
     Some (Inr dblock, s) }"

definition bmap_direct :: "('h, 'x, 'a) sfs_devs \<Rightarrow> (kbuf \<Rightarrow> nat) \<Rightarrow> addr \<Rightarrow> nat \<Rightarrow> bool \<Rightarrow> (('h, 'x, 'a) sfs_state, nat) call" where
  "bmap_direct D K sv fileblock doalloc s =
     (let block = sfi_direct (sv_i (fs_state s) sv) ! fileblock in
      if block = 0 \<and> doalloc then
        on_ok (sfs_balloc D K (sfs_of sv s)) (\<lambda>block s.
          Some (Inr block, set_inode sv (\<lambda>i. i\<lparr>sfi_direct := (sfi_direct i)[fileblock := block]\<rparr>) s)) s
      else Some (Inr block, s))"

text \<open>The indirect block and its words, when there is one or one may be allocated.\<close>

definition bmap_idblock :: "('h, 'x, 'a) sfs_devs \<Rightarrow> (kbuf \<Rightarrow> nat) \<Rightarrow> addr \<Rightarrow> (('h, 'x, 'a) sfs_state, nat \<times> nat list) call" where
  "bmap_idblock D K sv s =
     (let idblock = sfi_indirect (sv_i (fs_state s) sv) in
      if idblock = 0 then
        on_ok (sfs_balloc D K (sfs_of sv s)) (\<lambda>idblock s.
          Some (Inr (idblock, replicate SFS_DBPERIDB 0), set_inode sv (\<lambda>i. i\<lparr>sfi_indirect := idblock\<rparr>) s)) s
      else on_ok (sfs_readblock D (K Idbuf) (sfs_of sv s) idblock) (\<lambda>bs s. Some (Inr (idblock, block_words bs), s)) s)"

definition bmap_entry :: "('h, 'x, 'a) sfs_devs \<Rightarrow> (kbuf \<Rightarrow> nat) \<Rightarrow> addr \<Rightarrow> nat \<Rightarrow> nat list \<Rightarrow> nat \<Rightarrow> bool \<Rightarrow> (('h, 'x, 'a) sfs_state, nat) call" where
  "bmap_entry D K sv idblock idbuf idoff doalloc s =
     (let block = idbuf ! idoff in
      if block = 0 \<and> doalloc then
        on_ok (sfs_balloc D K (sfs_of sv s)) (\<lambda>block.
          on_ok (\<lambda>s. sfs_writeblock D (K Idbuf) (sfs_of sv s) idblock (words_block (idbuf[idoff := block])) s) (\<lambda>_ s. Some (Inr block, s))) s
      else Some (Inr block, s))"

definition sfs_bmap :: "('h, 'x, 'a) sfs_devs \<Rightarrow> (kbuf \<Rightarrow> nat) \<Rightarrow> addr \<Rightarrow> nat \<Rightarrow> bool \<Rightarrow> (('h, 'x, 'a) sfs_state, nat) call" where
  "sfs_bmap D K sv fileblock doalloc s = do {
     biglock_held s;
     if fileblock < SFS_NDIRECT then on_ok (bmap_direct D K sv fileblock doalloc) (hand_back (sfs_of sv s)) s
     else
       let fileblock = fileblock - SFS_NDIRECT;
           idnum = fileblock div SFS_DBPERIDB;
           idoff = fileblock mod SFS_DBPERIDB
       in if idnum \<ge> SFS_NINDIRECT then Some (Inl EFBIG, s)
          else if sfi_indirect (sv_i (fs_state s) sv) = 0 \<and> \<not> doalloc then Some (Inr 0, s)
          else on_ok (bmap_idblock D K sv) (\<lambda>(idblock, idbuf).
            on_ok (bmap_entry D K sv idblock idbuf idoff doalloc) (hand_back (sfs_of sv s))) s }"

text \<open>The two loops of \<open>sfs_itrunc\<close>; the second gives back the words, whether it has seen a nonzero one, and whether it has changed one.\<close>

fun trunc_direct :: "addr \<Rightarrow> nat \<Rightarrow> nat list \<Rightarrow> ('h, 'x, 'a) sfs_state \<Rightarrow> ('h, 'x, 'a) sfs_state option" where
  "trunc_direct sv blocklen [] s = Some s"
| "trunc_direct sv blocklen (i # is) s =
     (let block = sfi_direct (sv_i (fs_state s) sv) ! i in
      if i \<ge> blocklen \<and> block \<noteq> 0 then do {
        s \<leftarrow> sfs_bfree (sfs_of sv s) block s;
        trunc_direct sv blocklen is (set_inode sv (\<lambda>d. d\<lparr>sfi_direct := (sfi_direct d)[i := 0]\<rparr>) s) }
      else trunc_direct sv blocklen is s)"

fun trunc_words :: "addr \<Rightarrow> nat \<Rightarrow> nat \<Rightarrow> nat list \<Rightarrow> ('h, 'x, 'a) sfs_state \<Rightarrow> (nat list \<times> bool \<times> bool \<times> ('h, 'x, 'a) sfs_state) option" where
  "trunc_words sfs blocklen at [] s = Some ([], False, False, s)"
| "trunc_words sfs blocklen at (w # ws) s = do {
     (w', dirty, s) \<leftarrow> (if blocklen < at \<and> w \<noteq> 0 then do { s \<leftarrow> sfs_bfree sfs w s; Some (0, True, s) } else Some (w, False, s));
     (ws', hasnonzero, iddirty, s) \<leftarrow> trunc_words sfs blocklen (at + 1) ws s;
     Some (w' # ws', w' \<noteq> 0 \<or> hasnonzero, dirty \<or> iddirty, s) }"

definition trunc_indirect :: "('h, 'x, 'a) sfs_devs \<Rightarrow> (kbuf \<Rightarrow> nat) \<Rightarrow> addr \<Rightarrow> nat \<Rightarrow> (('h, 'x, 'a) sfs_state, unit) call" where
  "trunc_indirect D K sv blocklen s =
     (let idblock = sfi_indirect (sv_i (fs_state s) sv);
          baseblock = SFS_NDIRECT;
          highblock = baseblock + SFS_DBPERIDB - 1
      in if blocklen < highblock \<and> idblock \<noteq> 0 then
           on_ok (sfs_readblock D (K Idbuf_trunc) (sfs_of sv s) idblock) (\<lambda>bs s. do {
             (idbuf, hasnonzero, iddirty, s) \<leftarrow> trunc_words (sfs_of sv s) blocklen baseblock (block_words bs) s;
             if \<not> hasnonzero then do {
               s \<leftarrow> sfs_bfree (sfs_of sv s) idblock s;
               Some (Inr (), set_inode sv (\<lambda>i. i\<lparr>sfi_indirect := 0\<rparr>) s) }
             else if iddirty then sfs_writeblock D (K Idbuf_trunc) (sfs_of sv s) idblock (words_block idbuf) s
             else Some (Inr (), s) }) s
         else Some (Inr (), s))"

text \<open>The length is an \<open>off_t\<close>; its number of blocks and the size are kept in 32 bits.\<close>

definition sfs_itrunc :: "('h, 'x, 'a) sfs_devs \<Rightarrow> (kbuf \<Rightarrow> nat) \<Rightarrow> addr \<Rightarrow> int \<Rightarrow> (('h, 'x, 'a) sfs_state, unit) call" where
  "sfs_itrunc D K sv len = biglocked (\<lambda>s. do {
     let blocklen = nat (((len + int SFS_BLOCKSIZE - 1) sdiv int SFS_BLOCKSIZE) mod 2 ^ 32);
     s \<leftarrow> trunc_direct sv blocklen [0..<SFS_NDIRECT] s;
     on_ok (trunc_indirect D K sv blocklen) (\<lambda>_ s.
       Some (Inr (), set_inode sv (\<lambda>i. i\<lparr>sfi_size := nat (len mod 2 ^ 32)\<rparr>) s)) s })"

declare rw_tries.simps [simp del]

section \<open>Steps of the disk\<close>

text \<open>A step that changes only what the file system keeps, and memory outside user space.\<close>

definition io_step :: "('d, 'a) vnodes_scheme \<Rightarrow> ('d, 'a) vnodes_scheme \<Rightarrow> bool" where
  "io_step s s' \<longleftrightarrow> (\<exists>d m. s' = s\<lparr>fs_state := d, user_mem := m\<rparr> \<and> same_access (user_mem s) m
     \<and> (\<forall>a<USERSPACETOP. bytes m a = bytes (user_mem s) a))"

lemma io_step_refl [simp, intro]: "io_step s s"
proof -
  have "s = s\<lparr>fs_state := fs_state s, user_mem := user_mem s\<rparr>" by simp
  then show ?thesis unfolding io_step_def same_access_def by blast
qed

lemma io_step_trans [trans]:
  assumes "io_step s s1" and "io_step s1 s2"
  shows "io_step s s2"
proof -
  obtain d m d' m' where s: "s1 = s\<lparr>fs_state := d, user_mem := m\<rparr>" "s2 = s1\<lparr>fs_state := d', user_mem := m'\<rparr>"
      "same_access (user_mem s) m" "same_access (user_mem s1) m'"
      "\<forall>a<USERSPACETOP. bytes m a = bytes (user_mem s) a" "\<forall>a<USERSPACETOP. bytes m' a = bytes (user_mem s1) a"
    using assms unfolding io_step_def by blast
  have "s2 = s\<lparr>fs_state := d', user_mem := m'\<rparr>" using s(1,2) by simp
  moreover have "same_access (user_mem s) m'" "\<forall>a<USERSPACETOP. bytes m' a = bytes (user_mem s) a"
    using s(1,3-) by (simp_all add: same_access_def)
  ultimately show ?thesis unfolding io_step_def by blast
qed

lemma io_step_fs [simp]: "io_step s (on_fs f s)"
proof -
  have "on_fs f s = s\<lparr>fs_state := f (fs_state s), user_mem := user_mem s\<rparr>" by (simp add: on_fs_def)
  then show ?thesis unfolding io_step_def same_access_def by blast
qed

lemma io_step_sel:
  assumes "io_step s s'"
  shows "vn_fs s' = vn_fs s" "vn_data s' = vn_data s" "vn_ops s' = vn_ops s" "vn_refcount s' = vn_refcount s" "sem_count s' = sem_count s"
    "live s' = live s" "oom s' = oom s" "ticks s' = ticks s"
    "sem_idle s' x n = sem_idle s x n" "lk_holder s' = lk_holder s" "curthread s' = curthread s"
    "same_access (user_mem s) (user_mem s')" "a < USERSPACETOP \<Longrightarrow> bytes (user_mem s') a = bytes (user_mem s) a"
proof -
  obtain d m where s': "s' = s\<lparr>fs_state := d, user_mem := m\<rparr>" "same_access (user_mem s) m" "\<forall>a<USERSPACETOP. bytes m a = bytes (user_mem s) a"
    using assms by (auto simp: io_step_def)
  have "on_list s' (Wchan w) ts = on_list s (Wchan w) ts" for w ts by (rule on_list_cong) (simp_all add: s'(1))
  then show "sem_idle s' x n = sem_idle s x n" by (simp add: sem_idle_def s'(1))
qed (use assms in \<open>auto simp: io_step_def\<close>)

lemma io_step_held:
  fixes s s' :: "('d, 'a) vfs_scheme"
  assumes "io_step s s'"
  shows "vfs_biglock_do_i_hold s' = vfs_biglock_do_i_hold s" "vfs_biglock s' = vfs_biglock s" "vfs_biglock_depth s' = vfs_biglock_depth s"
  using assms by (auto simp: io_step_def vfs_biglock_do_i_hold_def lock_do_i_hold_def)

lemma disk_io_step:
  assumes "disk_step ready sectors lh f s s'" and "\<And>a. a < USERSPACETOP \<Longrightarrow> bytes (user_mem s') a = bytes (user_mem s) a"
  shows "io_step s s'"
proof -
  obtain d m where s': "s' = lhd_at s (sem_count s) d m" "same_access (user_mem s) m" using assms(1) by (auto simp: disk_step_def)
  have "s' = s\<lparr>fs_state := d, user_mem := m\<rparr>" unfolding s'(1) lhd_at_def by simp
  moreover have "\<forall>a<USERSPACETOP. bytes m a = bytes (user_mem s) a" using assms(2) s'(1) by simp
  ultimately show ?thesis using s'(2) unfolding io_step_def by blast
qed

text \<open>The fields of SFS are those behind the fields of the disk.\<close>

lemma sfs_more:
  assumes "lhd.more d = lhd.more d'"
  shows "sv_i d = sv_i d'" "sv_ino d = sv_ino d'" "sv_dirty d = sv_dirty d'" "sfs_sb d = sfs_sb d'" "sfs_superdirty d = sfs_superdirty d'"
    "sfs_device d = sfs_device d'" "sfs_vnodes d = sfs_vnodes d'" "sfs_freemap d = sfs_freemap d'" "sfs_freemapdirty d = sfs_freemapdirty d'"
  using assms by (cases d, cases d', simp)+

text \<open>A file system on a disk that is ready, with the big lock held; the buffers are kernel memory beside that of the card.\<close>

definition sfs_disk :: "('h \<Rightarrow> bool) \<Rightarrow> 'h card \<Rightarrow> nat \<Rightarrow> ('h, 'x, 'a) sfs_devs \<Rightarrow> (kbuf \<Rightarrow> nat) \<Rightarrow> addr \<Rightarrow> ('h, 'x, 'a) sfs_state \<Rightarrow> bool" where
  "sfs_disk ready C nsect D K f s \<longleftrightarrow> (let dev = sfs_device (fs_state s) f; buf = lh_buf (fs_state s) dev in
     D dev = lhd_device nsect C \<and> lhd_up ready dev s \<and> vfs_biglock_do_i_hold s = Some True
     \<and> sb_nblocks (sfs_sb (fs_state s) f) \<le> nsect \<and> USERSPACETOP \<le> buf
     \<and> (\<forall>k. USERSPACETOP \<le> K k \<and> (K k + 512 \<le> buf \<or> buf + 512 \<le> K k)))"

lemma sfs_disk_depth: "sfs_disk ready C nsect D K f (s\<lparr>vfs_biglock_depth := d\<rparr>) = sfs_disk ready C nsect D K f s"
proof -
  have "sem_idle (s\<lparr>vfs_biglock_depth := d\<rparr>) x n = sem_idle s x n" for x n
    using on_list_cong [of "s\<lparr>vfs_biglock_depth := d\<rparr>" s] by (simp add: sem_idle_def)
  then show ?thesis by (simp add: sfs_disk_def lhd_up_def vfs_biglock_do_i_hold_def lock_do_i_hold_def Let_def)
qed

definition secs :: "('h \<Rightarrow> nat \<Rightarrow> byte list) \<Rightarrow> addr \<Rightarrow> ('h, 'x, 'a) sfs_state \<Rightarrow> nat \<Rightarrow> byte list" where
  "secs sectors f s = sectors (lh_hw (fs_state s) (sfs_device (fs_state s) f))"

text \<open>Updates of the structures of SFS that leave the disk and the superblock alone.\<close>

lemma sfs_disk_fs:
  assumes "io_step s s'" and "lh_hw (fs_state s') = lh_hw (fs_state s)" "lh_buf (fs_state s') = lh_buf (fs_state s)"
    "lh_clear (fs_state s') = lh_clear (fs_state s)" "lh_done (fs_state s') = lh_done (fs_state s)"
    "sfs_device (fs_state s') = sfs_device (fs_state s)" "sfs_sb (fs_state s') = sfs_sb (fs_state s)"
  shows "sfs_disk ready C nsect D K f s' = sfs_disk ready C nsect D K f s" "secs sectors f s' = secs sectors f s"
  using assms(2-) io_step_sel(9) [OF assms(1)] io_step_held [OF assms(1)] by (simp_all add: sfs_disk_def lhd_up_def secs_def Let_def)

lemma set_step [simp]:
  "io_step s (set_inode sv g s)" "io_step s (set_freemap f fm s)" "io_step s (freemap_dirty f s)"
  by (simp_all add: set_inode_def set_freemap_def freemap_dirty_def)

lemma set_disk [simp]:
  "sfs_disk ready C nsect D K f (set_inode sv g s) = sfs_disk ready C nsect D K f s" "secs sectors f (set_inode sv g s) = secs sectors f s"
  "sfs_disk ready C nsect D K f (set_freemap f' fm s) = sfs_disk ready C nsect D K f s" "secs sectors f (set_freemap f' fm s) = secs sectors f s"
  "sfs_disk ready C nsect D K f (freemap_dirty f' s) = sfs_disk ready C nsect D K f s" "secs sectors f (freemap_dirty f' s) = secs sectors f s"
  by (rule sfs_disk_fs [OF set_step(1)] sfs_disk_fs [OF set_step(2)] sfs_disk_fs [OF set_step(3)];
      simp add: set_inode_def set_freemap_def freemap_dirty_def on_fs_def)+

lemma set_sel [simp]:
  "sv_i (fs_state (set_inode sv g s)) = (sv_i (fs_state s))(sv := g (sv_i (fs_state s) sv))"
  "sfs_freemap (fs_state (set_inode sv g s)) = sfs_freemap (fs_state s)" "sfs_sb (fs_state (set_inode sv g s)) = sfs_sb (fs_state s)"
  "sv_i (fs_state (set_freemap f fm s)) = sv_i (fs_state s)" "sfs_freemap (fs_state (set_freemap f fm s)) = (sfs_freemap (fs_state s))(f := Some fm)"
  "sfs_sb (fs_state (set_freemap f fm s)) = sfs_sb (fs_state s)"
  "sv_i (fs_state (freemap_dirty f s)) = sv_i (fs_state s)" "sfs_freemap (fs_state (freemap_dirty f s)) = sfs_freemap (fs_state s)"
  "sfs_sb (fs_state (freemap_dirty f s)) = sfs_sb (fs_state s)"
  "vn_fs (set_inode sv g s) = vn_fs s" "vn_fs (set_freemap f fm s) = vn_fs s" "vn_fs (freemap_dirty f s) = vn_fs s"
  by (simp_all add: set_inode_def set_freemap_def freemap_dirty_def on_fs_def)

lemma rw_first:
  assumes "devop_io (d_ops (D dev)) dev u s = Some (r, u', s')" and "r \<noteq> Inl EINVAL" and "r \<noteq> Inl EIO"
  shows "rw_tries D dev n u s = Some (r, u', s')"
  using assms by (subst rw_tries.simps) (cases n; simp)

text \<open>
  What is true in the course of an operation that began in \<open>s0\<close>: the used blocks are \<open>U\<close>, the disk holds \<open>g\<close>
  and the inodes in memory are \<open>I\<close>.  Bits of the free map that stand for no block are set.
\<close>

definition sfs_ok :: "('h \<Rightarrow> bool) \<Rightarrow> 'h card \<Rightarrow> nat \<Rightarrow> ('h, 'x, 'a) sfs_devs \<Rightarrow> (kbuf \<Rightarrow> nat) \<Rightarrow> addr \<Rightarrow> nat set \<Rightarrow> ('h, 'x, 'a) sfs_state \<Rightarrow> bool" where
  "sfs_ok ready C nsect D K f U s \<longleftrightarrow> sfs_disk ready C nsect D K f s \<and> 0 \<in> U
     \<and> (\<exists>fm. sfs_freemap (fs_state s) f = Some fm \<and> bitmap_inv fm \<and> Bitmap.used fm = U
          \<and> sb_nblocks (sfs_sb (fs_state s) f) \<le> nbits fm \<and> {..<nbits fm} - U \<subseteq> {..<sb_nblocks (sfs_sb (fs_state s) f)})"

definition sfs_at :: "('h \<Rightarrow> bool) \<Rightarrow> ('h \<Rightarrow> nat \<Rightarrow> byte list) \<Rightarrow> 'h card \<Rightarrow> nat \<Rightarrow> ('h, 'x, 'a) sfs_devs \<Rightarrow> (kbuf \<Rightarrow> nat) \<Rightarrow> addr
    \<Rightarrow> ('h, 'x, 'a) sfs_state \<Rightarrow> nat set \<Rightarrow> (nat \<Rightarrow> byte list) \<Rightarrow> (addr \<Rightarrow> sfs_dinode) \<Rightarrow> ('h, 'x, 'a) sfs_state \<Rightarrow> bool" where
  "sfs_at ready sectors C nsect D K f s0 U g I s \<longleftrightarrow> sfs_ok ready C nsect D K f U s \<and> io_step s0 s \<and> secs sectors f s = g
     \<and> sv_i (fs_state s) = I \<and> sfs_sb (fs_state s) = sfs_sb (fs_state s0)"

lemma put_step: "USERSPACETOP \<le> k \<Longrightarrow> io_step s (s\<lparr>user_mem := (user_mem s)\<lparr>bytes := put_bytes_at k bs (bytes (user_mem s))\<rparr>\<rparr>)"
  unfolding io_step_def
  by (rule exI [of _ "fs_state s"], rule exI [of _ "(user_mem s)\<lparr>bytes := put_bytes_at k bs (bytes (user_mem s))\<rparr>"])
    (simp add: same_access_def put_bytes_at_def)

context good_card
begin

text \<open>A block on a disk that does not fail.\<close>

lemma rwblock_ok:
  assumes s: "sfs_disk ready C nsect D K f s" and b: "b < sb_nblocks (sfs_sb (fs_state s) f)"
  obtains u s' where "sfs_rwblock D f (SFSUIO (K k) b rw) s = Some (Inr (), u, s')" "sfs_disk ready C nsect D K f s'" "io_step s s'"
    "lhd.more (fs_state s') = lhd.more (fs_state s)"
    "rw = UIO_READ \<Longrightarrow> secs sectors f s' = secs sectors f s \<and> map (bytes (user_mem s')) [K k..<K k + 512] = secs sectors f s b"
    "rw = UIO_WRITE \<Longrightarrow> secs sectors f s' = (secs sectors f s)(b := map (bytes (user_mem s)) [K k..<K k + 512])"
proof -
  let ?dev = "sfs_device (fs_state s) f" and ?u = "SFSUIO (K k) b rw"
  let ?buf = "lh_buf (fs_state s) ?dev"
  have d: "D ?dev = lhd_device nsect C" "lhd_up ready ?dev s" "vfs_biglock_do_i_hold s = Some True" "b < nsect" "USERSPACETOP \<le> ?buf" "USERSPACETOP \<le> K k"
      "K k + 512 \<le> ?buf \<or> ?buf + 512 \<le> K k"
    using s b by (auto simp: sfs_disk_def Let_def)
  have u: "?u = uio_kinit (K k) 512 (int (512 * b)) rw" "uio_rw ?u = rw" "uio_offset ?u = int (512 * b)" "uio_resid ?u = 512"
    by (simp_all add: SFSUIO_def SFS_BLOCKSIZE_def uio_kinit_def)
  have mv: "movable ?buf 512 ?u (user_mem s)" and a: "uio_addrs ?u = [K k..<K k + 512]"
    unfolding u(1) using kinit_movable [of "K k" ?buf "int (512 * b)" rw] d(4,7) nsect by simp_all
  obtain r u' s' f' where io: "lhd_io nsect C ?dev ?u s = Some (r, u', s')" "disk_step ready sectors ?dev f' s s'"
    "r = Inr () \<and> sector_done (sectors (lh_hw (fs_state s) ?dev)) f' b ?buf ?u u' (bytes (user_mem s)) (bytes (user_mem s'))
     \<or> r = Inl EIO \<and> sector_failed (sectors (lh_hw (fs_state s) ?dev)) f' b ?buf ?u u' (bytes (user_mem s)) (bytes (user_mem s'))
       \<and> (\<exists>st m h h'. (st = LHD_WORKING \<or> st = (LHD_WORKING OR LHD_ISWRITE))
            \<and> operate C ?buf m (wr_reg C LHD_REG_STAT st (wr_reg C LHD_REG_SECT b (lh_hw (fs_state s) ?dev))) = (h, h')
            \<and> rd_reg C h' LHD_REG_STAT AND LHD_STATEMASK = LHD_MEDIA)"
    by (rule io_block [OF d(2,4) mv u(3,4)])
  have "ready (lh_hw (fs_state s) ?dev)" using d(2) by (simp add: lhd_up_def)
  then have r: "r = Inr ()" and dn: "sector_done (sectors (lh_hw (fs_state s) ?dev)) f' b ?buf ?u u' (bytes (user_mem s)) (bytes (user_mem s'))"
    using io(3) no_media [OF _ d(4)] by blast+
  have e: "\<forall>x<USERSPACETOP. bytes (user_mem s') x = bytes (user_mem s) x"
  proof -
    have "\<forall>x. x \<notin> {K k..<K k + 512} \<union> {?buf..<?buf + 512} \<longrightarrow> bytes (user_mem s') x = bytes (user_mem s) x"
      using dn unfolding sector_done_def u(2) a by (simp split: if_splits)
    then show ?thesis using d(5,6) by auto
  qed
  have st: "io_step s s'" using disk_io_step [OF io(2)] e by blast
  note up = up_step [OF d(2) io(2)]
  note mr = sfs_more [OF up(4)]
  have ok: "sfs_disk ready C nsect D K f s'"
    using s up(1) io_step_held(1) [OF st] by (simp add: sfs_disk_def Let_def mr up(3))
  have sc: "secs sectors f s' = f'" "secs sectors f s = sectors (lh_hw (fs_state s) ?dev)" using up(2) by (simp_all add: secs_def mr(6))
  have rd: "rw = UIO_READ \<Longrightarrow> f' = sectors (lh_hw (fs_state s) ?dev) \<and> map (bytes (user_mem s')) [K k..<K k + 512] = sectors (lh_hw (fs_state s) ?dev) b"
    using dn unfolding sector_done_def u(2) a by simp
  have wr: "rw = UIO_WRITE \<Longrightarrow> f' = (sectors (lh_hw (fs_state s) ?dev))(b := map (bytes (user_mem s)) [K k..<K k + 512])"
    using dn unfolding sector_done_def u(2) a by simp
  have "devop_io (d_ops (D ?dev)) ?dev ?u s = Some (Inr (), u', s')" using io(1) r d(1) by (simp add: lhd_device_def)
  then have "rw_tries D ?dev 10 ?u s = Some (Inr (), u', s')" by (rule rw_first) simp_all
  then have "sfs_rwblock D f ?u s = Some (Inr (), u', s')" using d(3) by (simp add: sfs_rwblock_def biglock_held_def)
  then show thesis by (rule that [OF _ ok st up(4)]) (use rd wr sc in auto)
qed

lemma at_step:
  assumes "sfs_at ready sectors C nsect D K f s0 U g I s" and "io_step s s'" and "sfs_disk ready C nsect D K f s'"
    and "lhd.more (fs_state s') = lhd.more (fs_state s)" and "secs sectors f s' = g'"
  shows "sfs_at ready sectors C nsect D K f s0 U g' I s'"
proof -
  have "sfs_ok ready C nsect D K f U s" "io_step s0 s" using assms(1) by (simp_all add: sfs_at_def)
  then show ?thesis
    using assms(1,3,5) io_step_trans [OF _ assms(2)] sfs_more [OF assms(4)] by (simp add: sfs_at_def sfs_ok_def)
qed

lemma read_at:
  assumes "sfs_at ready sectors C nsect D K f s0 U g I s" and "b < sb_nblocks (sfs_sb (fs_state s0) f)"
  obtains s' where "sfs_readblock D (K k) f b s = Some (Inr (g b), s')" "sfs_at ready sectors C nsect D K f s0 U g I s'"
proof -
  have s: "sfs_disk ready C nsect D K f s" "b < sb_nblocks (sfs_sb (fs_state s) f)" "secs sectors f s = g"
    using assms by (simp_all add: sfs_at_def sfs_ok_def)
  obtain u s' where r: "sfs_rwblock D f (SFSUIO (K k) b UIO_READ) s = Some (Inr (), u, s')" "sfs_disk ready C nsect D K f s'" "io_step s s'"
      "lhd.more (fs_state s') = lhd.more (fs_state s)" "secs sectors f s' = secs sectors f s"
      "map (bytes (user_mem s')) [K k..<K k + 512] = secs sectors f s b"
    by (rule rwblock_ok [OF s(1,2), of k UIO_READ]) simp
  show thesis
    by (rule that [OF _ at_step [OF assms(1) r(3,2,4)]]) (use r s(3) in \<open>simp_all add: sfs_readblock_def SFS_BLOCKSIZE_def\<close>)
qed

lemma write_at:
  assumes "sfs_at ready sectors C nsect D K f s0 U g I s" and "b < sb_nblocks (sfs_sb (fs_state s0) f)" and "length bs = 512"
  obtains s' where "sfs_writeblock D (K k) f b bs s = Some (Inr (), s')" "sfs_at ready sectors C nsect D K f s0 U (g(b := bs)) I s'"
proof -
  let ?s = "s\<lparr>user_mem := (user_mem s)\<lparr>bytes := put_bytes_at (K k) bs (bytes (user_mem s))\<rparr>\<rparr>"
  have s: "sfs_disk ready C nsect D K f s" "b < sb_nblocks (sfs_sb (fs_state s) f)" "secs sectors f s = g"
    using assms by (simp_all add: sfs_at_def sfs_ok_def)
  have k: "io_step s ?s" by (rule put_step) (use s(1) in \<open>simp add: sfs_disk_def Let_def\<close>)
  have d: "sfs_disk ready C nsect D K f ?s" "secs sectors f ?s = g" using sfs_disk_fs [OF k] s by simp_all
  have m: "map (bytes (user_mem ?s)) [K k..<K k + 512] = bs" using put_bytes_sel [OF assms(3)] by simp
  have b: "b < sb_nblocks (sfs_sb (fs_state ?s) f)" using s(2) by simp
  obtain u s' where r: "sfs_rwblock D f (SFSUIO (K k) b UIO_WRITE) ?s = Some (Inr (), u, s')" "sfs_disk ready C nsect D K f s'" "io_step ?s s'"
      "lhd.more (fs_state s') = lhd.more (fs_state ?s)" "secs sectors f s' = (secs sectors f ?s)(b := map (bytes (user_mem ?s)) [K k..<K k + 512])"
    by (rule rwblock_ok [OF d(1) b, of k UIO_WRITE]) simp
  have "lhd.more (fs_state s') = lhd.more (fs_state s)" "secs sectors f s' = g(b := bs)" using r(4,5) unfolding m d(2) by simp_all
  then show thesis
    by (intro that [OF _ at_step [OF assms(1) io_step_trans [OF k r(3)] r(2)]]) (use r(1) assms(3) in \<open>simp_all add: sfs_writeblock_def SFS_BLOCKSIZE_def Let_def\<close>)
qed

text \<open>The free map.\<close>

lemma set_freemap_at:
  assumes "sfs_at ready sectors C nsect D K f s0 U g I s" and "sfs_freemap (fs_state s) f = Some fm" and "0 \<in> Bitmap.used fm'"
    and "bitmap_inv fm'" and "nbits fm' = nbits fm" and "{..<nbits fm} - Bitmap.used fm' \<subseteq> {..<sb_nblocks (sfs_sb (fs_state s0) f)}"
  shows "sfs_at ready sectors C nsect D K f s0 (Bitmap.used fm') g I (set_freemap f fm' s)"
  using assms io_step_trans [OF _ set_step(2), of s0 s f fm'] by (auto simp: sfs_at_def sfs_ok_def)

lemma dirty_at [simp]: "sfs_at ready sectors C nsect D K f s0 U g I (freemap_dirty f s) = sfs_at ready sectors C nsect D K f s0 U g I s"
  if "io_step s0 s"
  using that io_step_trans [OF that set_step(3), of f] by (auto simp: sfs_at_def sfs_ok_def)

lemma at_map:
  assumes "sfs_at ready sectors C nsect D K f s0 U g I s"
  obtains fm where "sfs_freemap (fs_state s) f = Some fm" "bitmap_inv fm" "Bitmap.used fm = U" "io_step s0 s" "0 \<in> U"
    "sb_nblocks (sfs_sb (fs_state s0) f) \<le> nbits fm" "{..<nbits fm} - U \<subseteq> {..<sb_nblocks (sfs_sb (fs_state s0) f)}"
    "sfs_sb (fs_state s) = sfs_sb (fs_state s0)" "vn_fs s = vn_fs s0"
  using assms io_step_sel(1) [of s0 s] by (auto simp: sfs_at_def sfs_ok_def)

lemma balloc_full:
  assumes "sfs_at ready sectors C nsect D K f s0 U g I s" and "{..<sb_nblocks (sfs_sb (fs_state s0) f)} \<subseteq> U"
  shows "sfs_balloc D K f s = Some (Inl ENOSPC, s)"
proof (rule at_map [OF assms(1)])
  fix fm assume fm: "sfs_freemap (fs_state s) f = Some fm" "bitmap_inv fm" "Bitmap.used fm = U" "{..<nbits fm} - U \<subseteq> {..<sb_nblocks (sfs_sb (fs_state s0) f)}"
  then have "Bitmap.used fm = {..<nbits fm}" using assms(2) used_bound by fastforce
  then have "bitmap_alloc fm = Some (Inl ENOSPC, fm)" by (rule bm.alloc_full [OF fm(2)])
  moreover have "set_freemap f fm s = s" using fm(1) by (simp add: set_freemap_def on_fs_def fun_upd_idem)
  ultimately show ?thesis using fm(1) by (simp add: sfs_balloc_def Let_def)
qed

lemma balloc_ok:
  assumes "sfs_at ready sectors C nsect D K f s0 U g I s" and "\<not> {..<sb_nblocks (sfs_sb (fs_state s0) f)} \<subseteq> U"
  obtains b s' where "sfs_balloc D K f s = Some (Inr b, s')" "b < sb_nblocks (sfs_sb (fs_state s0) f)" "b \<notin> U"
    "sfs_at ready sectors C nsect D K f s0 (insert b U) (g(b := replicate 512 0)) I s'"
proof (rule at_map [OF assms(1)])
  fix fm assume fm: "sfs_freemap (fs_state s) f = Some fm" "bitmap_inv fm" "Bitmap.used fm = U" "io_step s0 s" "0 \<in> U"
    "sb_nblocks (sfs_sb (fs_state s0) f) \<le> nbits fm" "{..<nbits fm} - U \<subseteq> {..<sb_nblocks (sfs_sb (fs_state s0) f)}"
    "sfs_sb (fs_state s) = sfs_sb (fs_state s0)"
  have "Bitmap.used fm \<noteq> {..<nbits fm}" using assms(2) fm(3,6) lessThan_subset_iff by metis
  then obtain b fm' where b: "bitmap_alloc fm = Some (Inr b, fm')" "b < nbits fm" "b \<notin> U" "Bitmap.used fm' = insert b U" "nbits fm' = nbits fm" "bitmap_inv fm'"
    using bm.alloc_ok [OF fm(2)] fm(3) by blast
  then have nb: "b < sb_nblocks (sfs_sb (fs_state s0) f)" using fm(7) by auto
  let ?s = "freemap_dirty f (set_freemap f fm' s)"
  have at: "sfs_at ready sectors C nsect D K f s0 (insert b U) g I (set_freemap f fm' s)"
    using set_freemap_at [OF assms(1) fm(1), of fm'] b(4-6) fm(5,7) by auto
  moreover have "io_step s0 (set_freemap f fm' s)" using io_step_trans [OF fm(4) set_step(2)] .
  ultimately have at: "sfs_at ready sectors C nsect D K f s0 (insert b U) g I ?s" by simp
  obtain s' where s': "sfs_writeblock D (K Zeros) f b (replicate 512 0) ?s = Some (Inr (), s')"
      "sfs_at ready sectors C nsect D K f s0 (insert b U) (g(b := replicate 512 0)) I s'"
    by (rule write_at [OF at nb, of "replicate 512 0" Zeros]) simp
  have "sfs_balloc D K f s = Some (Inr b, s')"
    using fm(1,8) b(1) nb s'(1) by (simp add: sfs_balloc_def sfs_clearblock_def SFS_BLOCKSIZE_def Let_def)
  then show thesis using nb b(3) s'(2) by (rule that)
qed

lemma bfree_at:
  assumes "sfs_at ready sectors C nsect D K f s0 U g I s" and "b \<in> U" and "b \<noteq> 0" and "b < sb_nblocks (sfs_sb (fs_state s0) f)"
  obtains s' where "sfs_bfree f b s = Some s'" "sfs_at ready sectors C nsect D K f s0 (U - {b}) g I s'"
proof (rule at_map [OF assms(1)])
  fix fm assume fm: "sfs_freemap (fs_state s) f = Some fm" "bitmap_inv fm" "Bitmap.used fm = U" "io_step s0 s" "0 \<in> U"
    "sb_nblocks (sfs_sb (fs_state s0) f) \<le> nbits fm" "{..<nbits fm} - U \<subseteq> {..<sb_nblocks (sfs_sb (fs_state s0) f)}"
  obtain fm' where b: "bitmap_unmark fm b = Some fm'" "Bitmap.used fm' = U - {b}" "nbits fm' = nbits fm" "bitmap_inv fm'"
    using bm.unmark_ok [OF fm(2)] fm(3) assms(2) by blast
  have "sfs_at ready sectors C nsect D K f s0 (U - {b}) g I (set_freemap f fm' s)"
    using set_freemap_at [OF assms(1) fm(1), of fm'] b(2-4) fm(5,7) assms(3,4) by auto
  moreover have "io_step s0 (set_freemap f fm' s)" using io_step_trans [OF fm(4) set_step(2)] .
  ultimately show thesis
    using fm(1) b(1) by (intro that [of "freemap_dirty f (set_freemap f fm' s)"]) (simp_all add: sfs_bfree_def)
qed

lemma hand_back_at:
  assumes "sfs_at ready sectors C nsect D K f s0 U g I s" and "b \<in> U" and "b < sb_nblocks (sfs_sb (fs_state s0) f)"
  shows "hand_back f b s = Some (Inr b, s)"
proof (rule at_map [OF assms(1)])
  fix fm assume "sfs_freemap (fs_state s) f = Some fm" "bitmap_inv fm" "Bitmap.used fm = U" "sfs_sb (fs_state s) = sfs_sb (fs_state s0)"
    "sb_nblocks (sfs_sb (fs_state s0) f) \<le> nbits fm"
  then show ?thesis using assms(2,3) bm.isset_ok [of fm b] by (simp add: hand_back_def sfs_bused_def)
qed

lemma set_inode_at:
  assumes "sfs_at ready sectors C nsect D K f s0 U g I s"
  shows "sfs_at ready sectors C nsect D K f s0 U g (I(sv := h (I sv))) (set_inode sv h s)"
  using assms io_step_trans [OF _ set_step(1), of s0 s sv h] by (auto simp: sfs_at_def sfs_ok_def)

end

section \<open>Blocks of words\<close>

lemma length_word_bytes [simp]: "length (word_bytes w) = 4"
  by (simp add: word_bytes_def)

lemma length_words_block [simp]: "length (words_block ws) = 4 * length ws"
  by (induction ws) (simp_all add: words_block_def)

lemma nth_words_block: "i < length ws \<Longrightarrow> k < 4 \<Longrightarrow> words_block ws ! (4 * i + k) = word_bytes (ws ! i) ! k"
proof (induction ws arbitrary: i)
  case (Cons w ws)
  show ?case
  proof (cases i)
    case 0
    then show ?thesis using Cons.prems by (simp add: words_block_def nth_append)
  next
    case (Suc j)
    then show ?thesis using Cons by (simp add: words_block_def nth_append)
  qed
qed simp

lemma word_at_bytes:
  assumes "x < 2 ^ 32" and "\<And>k. k < 4 \<Longrightarrow> m (a + k) = word_bytes x ! k"
  shows "word_at m a = x"
proof -
  have m: "m a = of_nat (x div 16777216)" "m (a + 1) = of_nat (x div 65536)" "m (a + 2) = of_nat (x div 256)" "m (a + 3) = of_nat x"
    using assms(2) [of 0] assms(2) [of 1] assms(2) [of 2] assms(2) [of 3] by (simp_all add: word_bytes_def)
  have d: "x div 65536 = x div 256 div 256" "x div 16777216 = x div 256 div 256 div 256" by (simp_all add: div_mult2_eq [symmetric])
  have "x div 16777216 < 256" using assms(1) by (simp add: less_mult_imp_div_less)
  then have top: "x div 16777216 mod 256 = x div 16777216" by simp
  have "x = x div 256 * 256 + x mod 256" "x div 256 = x div 256 div 256 * 256 + x div 256 mod 256"
    "x div 256 div 256 = x div 256 div 256 div 256 * 256 + x div 256 div 256 mod 256" by simp_all
  then have sum: "x div 16777216 * 16777216 + x div 65536 mod 256 * 65536 + (x div 256 mod 256 * 256 + x mod 256) = x"
    unfolding d by linarith
  have "word_at m a = x div 16777216 mod 256 * 16777216 + x div 65536 mod 256 * 65536 + (x div 256 mod 256 * 256 + x mod 256)"
    using m by (simp add: word_at_def half_at_def byte_at_addr_def unsigned_of_nat take_bit_eq_mod numeral_3_eq_3 add_mult_distrib)
  then show ?thesis using sum top by simp
qed

lemma word_at_bound: "word_at m a < 4294967296"
proof -
  have b: "unat (m x) < 256" for x using unsigned_less [of "m x"] by simp
  have "half_at m x < 65536" for x using b [of x] b [of "x + 1"] by (simp add: half_at_def byte_at_addr_def)
  from this [of a] this [of "a + 2"] show ?thesis by (simp add: word_at_def)
qed

lemma length_block_words [simp]: "length (block_words bs) = 128"
  by (simp add: block_words_def SFS_DBPERIDB_def)

lemma block_words_bound: "i < 128 \<Longrightarrow> block_words bs ! i < 4294967296"
  by (simp add: block_words_def SFS_DBPERIDB_def word_at_bound)

lemma block_words_block:
  assumes "length ws = 128" and "\<forall>w\<in>set ws. w < 4294967296"
  shows "block_words (words_block ws) = ws"
proof (rule nth_equalityI)
  fix i assume i: "i < length (block_words (words_block ws))"
  then have "word_at (\<lambda>j. words_block ws ! j) (4 * i) = ws ! i" using assms by (intro word_at_bytes) (simp_all add: nth_words_block)
  then show "block_words (words_block ws) ! i = ws ! i" using i by (simp add: block_words_def SFS_DBPERIDB_def)
qed (simp add: assms(1))

lemma block_words_zero: "block_words (replicate 512 0) = replicate 128 0"
proof (rule nth_equalityI)
  fix i assume "i < length (block_words (replicate 512 0))"
  then show "block_words (replicate 512 0) ! i = replicate 128 0 ! i"
    by (simp add: block_words_def SFS_DBPERIDB_def word_at_def half_at_def byte_at_addr_def)
qed simp

section \<open>The map of a file\<close>

text \<open>The disk block with block \<open>n\<close> of the file, or 0, when the disk holds \<open>g\<close>.\<close>

definition file_map :: "(nat \<Rightarrow> byte list) \<Rightarrow> sfs_dinode \<Rightarrow> nat \<Rightarrow> nat" where
  "file_map g i n = (if n < SFS_NDIRECT then sfi_direct i ! n
     else if n < SFS_NDIRECT + SFS_DBPERIDB \<and> sfi_indirect i \<noteq> 0 then block_words (g (sfi_indirect i)) ! (n - SFS_NDIRECT) else 0)"

text \<open>Every block of the file is a used block of the disk, and none has two uses.\<close>

definition file_ok :: "nat \<Rightarrow> nat set \<Rightarrow> (nat \<Rightarrow> byte list) \<Rightarrow> sfs_dinode \<Rightarrow> bool" where
  "file_ok nb U g i \<longleftrightarrow> length (sfi_direct i) = SFS_NDIRECT \<and> sfi_indirect i \<in> U \<and> sfi_indirect i < nb
     \<and> (\<forall>n. file_map g i n \<in> U \<and> file_map g i n < nb \<and> (file_map g i n \<noteq> 0 \<longrightarrow> file_map g i n \<noteq> sfi_indirect i))
     \<and> inj_on (file_map g i) {n. file_map g i n \<noteq> 0}"

lemma file_map_cong: "sfi_direct i' = sfi_direct i \<Longrightarrow> sfi_indirect i' = sfi_indirect i \<Longrightarrow> (sfi_indirect i \<noteq> 0 \<Longrightarrow> g' (sfi_indirect i) = g (sfi_indirect i))
    \<Longrightarrow> file_map g' i' = file_map g i"
  by (rule ext) (simp add: file_map_def)

lemma file_map_direct:
  assumes "length (sfi_direct i) = SFS_NDIRECT" and "n < SFS_NDIRECT"
  shows "file_map g (i\<lparr>sfi_direct := (sfi_direct i)[n := b]\<rparr>) = (file_map g i)(n := b)"
  using assms by (intro ext) (simp add: file_map_def nth_list_update)

lemma file_map_fresh:
  assumes "sfi_indirect i = 0" and "g b = replicate 512 0"
  shows "file_map g (i\<lparr>sfi_indirect := b\<rparr>) = file_map g i"
  using assms by (intro ext) (auto simp: file_map_def block_words_zero SFS_DBPERIDB_def)

lemma file_map_entry:
  assumes "sfi_indirect i \<noteq> 0" and "n < 128" and "b < 4294967296"
  shows "file_map (g(sfi_indirect i := words_block ((block_words (g (sfi_indirect i)))[n := b]))) i = (file_map g i)(SFS_NDIRECT + n := b)"
proof -
  let ?ws = "(block_words (g (sfi_indirect i)))[n := b]"
  have "\<forall>w\<in>set ?ws. w < 4294967296" using assms(2,3) block_words_bound by (auto simp: in_set_conv_nth nth_list_update)
  then have "block_words (words_block ?ws) = ?ws" by (intro block_words_block) simp_all
  then show ?thesis using assms(1,2) by (intro ext) (auto simp: file_map_def SFS_DBPERIDB_def nth_list_update)
qed

lemma file_ok_new:
  assumes ok: "file_ok nb U g i" and b: "b \<notin> U" "b < nb" and m: "file_map g' i' = (file_map g i)(n := b)"
    and i: "sfi_indirect i' = sfi_indirect i" "length (sfi_direct i') = length (sfi_direct i)"
  shows "file_ok nb (insert b U) g' i'"
proof -
  have u: "file_map g i k \<noteq> b" for k using ok b(1) by (auto simp: file_ok_def)
  have "inj_on (file_map g' i') {k. file_map g' i' k \<noteq> 0}"
    using ok u by (auto simp: file_ok_def inj_on_def m)
  then show ?thesis using ok b by (auto simp: file_ok_def m i)
qed

lemma file_ok_same:
  assumes "file_ok nb U g i" and "file_map g' i' = file_map g i" and "length (sfi_direct i') = length (sfi_direct i)" and "U \<subseteq> U'"
    and "sfi_indirect i' = sfi_indirect i \<or> sfi_indirect i' \<in> U' - U \<and> sfi_indirect i' < nb"
  shows "file_ok nb U' g' i'"
  using assms unfolding file_ok_def by (metis subsetD DiffD1 DiffD2)

section \<open>The block map of a file\<close>

text \<open>
  The call of \<open>sfs_bmap\<close> for block \<open>n\<close>, with the used blocks, the disk and the inode before and after it.
  Used blocks other than the indirect block of the file keep what they hold; a new block is full of zeros, and every
  block that is newly marked used belongs to the file now.
\<close>

definition bmap_result :: "nat \<Rightarrow> nat \<Rightarrow> bool \<Rightarrow> nat set \<Rightarrow> (nat \<Rightarrow> byte list) \<Rightarrow> sfs_dinode \<Rightarrow> errno + nat
    \<Rightarrow> nat set \<Rightarrow> (nat \<Rightarrow> byte list) \<Rightarrow> sfs_dinode \<Rightarrow> bool" where
  "bmap_result nb n doalloc U g i r U' g' i' \<longleftrightarrow>
     file_ok nb U' g' i' \<and> U \<subseteq> U' \<and> U' \<subseteq> U \<union> {sfi_indirect i'} \<union> (case r of Inl e \<Rightarrow> {} | Inr b \<Rightarrow> {b})
     \<and> (\<forall>k\<in>U. k \<noteq> sfi_indirect i \<or> k = 0 \<longrightarrow> g' k = g k) \<and> sfi_size i' = sfi_size i \<and> sfi_type i' = sfi_type i \<and> sfi_linkcount i' = sfi_linkcount i
     \<and> (case r of
          Inr b \<Rightarrow> n < SFS_NDIRECT + SFS_DBPERIDB \<and> file_map g' i' = (file_map g i)(n := b)
            \<and> (if file_map g i n = 0 \<and> doalloc then b \<notin> U \<and> 0 < b \<and> b < nb \<and> g' b = replicate SFS_BLOCKSIZE 0 else b = file_map g i n \<and> U' = U \<and> g' = g \<and> i' = i)
        | Inl e \<Rightarrow> file_map g' i' = file_map g i
            \<and> (e = EFBIG \<and> SFS_NDIRECT + SFS_DBPERIDB \<le> n
             \<or> e = ENOSPC \<and> n < SFS_NDIRECT + SFS_DBPERIDB \<and> file_map g i n = 0 \<and> doalloc \<and> {..<nb} \<subseteq> U'))"

lemma bmap_result_same:
  assumes "file_ok nb U g i" and "n < SFS_NDIRECT + SFS_DBPERIDB" and "\<not> (file_map g i n = 0 \<and> doalloc)"
  shows "bmap_result nb n doalloc U g i (Inr (file_map g i n)) U g i"
  using assms by (auto simp: bmap_result_def)

lemma bmap_result_error:
  assumes "file_ok nb U g i" and "e = EFBIG \<and> SFS_NDIRECT + SFS_DBPERIDB \<le> n
      \<or> e = ENOSPC \<and> n < SFS_NDIRECT + SFS_DBPERIDB \<and> file_map g i n = 0 \<and> doalloc \<and> {..<nb} \<subseteq> U"
  shows "bmap_result nb n doalloc U g i (Inl e) U g i"
  using assms by (auto simp: bmap_result_def)

text \<open>Allocating the indirect block first.\<close>

lemma bmap_result_trans:
  assumes r: "bmap_result nb n doalloc U1 g1 i1 r U' g' i1" and d: "sfi_indirect i \<noteq> 0 \<or> doalloc" and n: "SFS_NDIRECT \<le> n" and z: "0 \<in> U"
    and s: "if sfi_indirect i \<noteq> 0 then U1 = U \<and> g1 = g \<and> i1 = i
       else \<exists>b. b \<notin> U \<and> U1 = insert b U \<and> g1 = g(b := replicate 512 0) \<and> i1 = i\<lparr>sfi_indirect := b\<rparr> \<and> file_map g1 i1 = file_map g i"
  shows "bmap_result nb n doalloc U g i r U' g' i1"
proof (cases "sfi_indirect i = 0")
  case False
  then show ?thesis using r s by simp
next
  case True
  then obtain b where b: "b \<notin> U" "U1 = insert b U" "g1 = g(b := replicate 512 0)" "i1 = i\<lparr>sfi_indirect := b\<rparr>" "file_map g1 i1 = file_map g i"
    using s by auto
  have i: "sfi_indirect i1 = b" "sfi_size i1 = sfi_size i" "sfi_type i1 = sfi_type i" "sfi_linkcount i1 = sfi_linkcount i" using b(4) by simp_all
  have g: "\<forall>k\<in>U. g' k = g k" using r b(1-3) z unfolding bmap_result_def i(1) by (metis fun_upd_other insertI2)
  have m: "file_map g i n = 0" "doalloc" using True n d by (simp_all add: file_map_def)
  show ?thesis
  proof (cases r)
    case (Inl e)
    then show ?thesis using r g m unfolding bmap_result_def b(2,5) i by auto
  next
    case (Inr x)
    then show ?thesis using r g m unfolding bmap_result_def b(2,5) i by auto
  qed
qed

context good_card
begin

lemma at_zero: "sfs_at ready sectors C nsect D K f s0 U g I s \<Longrightarrow> 0 \<in> U"
  by (simp add: sfs_at_def sfs_ok_def)

lemma at_size:
  assumes "sfs_at ready sectors C nsect D K f s0 U g I s"
  shows "sb_nblocks (sfs_sb (fs_state s0) f) \<le> nsect"
  using assms by (auto simp: sfs_at_def sfs_ok_def sfs_disk_def Let_def)

lemma at_fs: "sfs_at ready sectors C nsect D K f s0 U g I s \<Longrightarrow> sfs_of sv s = sfs_of sv s0"
  using io_step_sel(1) [of s0 s] by (simp add: sfs_at_def sfs_of_def)

lemma bmap_direct_at:
  assumes at: "sfs_at ready sectors C nsect D K f s0 U g I s" and f: "sfs_of sv s0 = f" and ok: "file_ok nb U g (I sv)"
    and nb: "nb = sb_nblocks (sfs_sb (fs_state s0) f)" and n: "n < SFS_NDIRECT"
  obtains r U' g' i' s' where "on_ok (bmap_direct D K sv n doalloc) (hand_back f) s = Some (r, s')"
    "sfs_at ready sectors C nsect D K f s0 U' g' (I(sv := i')) s'" "bmap_result nb n doalloc U g (I sv) r U' g' i'"
proof -
  have I: "sv_i (fs_state s) = I" using at by (simp add: sfs_at_def)
  have m: "file_map g (I sv) n = sfi_direct (I sv) ! n" using n by (simp add: file_map_def)
  have fs: "sfs_of sv s = f" using at_fs [OF at] f by simp
  consider (same) "\<not> (file_map g (I sv) n = 0 \<and> doalloc)" | (full) "file_map g (I sv) n = 0" doalloc "{..<nb} \<subseteq> U"
    | (new) "file_map g (I sv) n = 0" doalloc "\<not> {..<nb} \<subseteq> U" by blast
  then show thesis
  proof cases
    case same
    let ?b = "file_map g (I sv) n"
    have "?b \<in> U" "?b < nb" using ok by (simp_all add: file_ok_def)
    then have hb: "hand_back f ?b s = Some (Inr ?b, s)" using hand_back_at [OF at] nb by simp
    have c: "on_ok (bmap_direct D K sv n doalloc) (hand_back f) s = Some (Inr ?b, s)"
      using hb same by (auto simp: on_ok_def bmap_direct_def Let_def I m)
    have "bmap_result nb n doalloc U g (I sv) (Inr ?b) U g (I sv)"
      using ok n same by (intro bmap_result_same) simp_all
    with c show thesis using at by (intro that [of _ _ U g "I sv"]) simp_all
  next
    case full
    have "on_ok (bmap_direct D K sv n doalloc) (hand_back f) s = Some (Inl ENOSPC, s)"
      using full balloc_full [OF at] nb by (simp add: on_ok_def bmap_direct_def Let_def I m [symmetric] fs)
    moreover have "bmap_result nb n doalloc U g (I sv) (Inl ENOSPC) U g (I sv)"
      using ok n full by (intro bmap_result_error) simp_all
    ultimately show thesis using at by (intro that [of _ _ U g "I sv"]) simp_all
  next
    case new
    obtain b s1 where b: "sfs_balloc D K f s = Some (Inr b, s1)" "b < nb" "b \<notin> U"
        "sfs_at ready sectors C nsect D K f s0 (insert b U) (g(b := replicate 512 0)) I s1"
      by (rule balloc_ok [OF at]) (use new nb in auto)
    let ?i = "(I sv)\<lparr>sfi_direct := (sfi_direct (I sv))[n := b]\<rparr>" and ?g = "g(b := replicate 512 0)"
    let ?s = "set_inode sv (\<lambda>i. i\<lparr>sfi_direct := (sfi_direct i)[n := b]\<rparr>) s1"
    have s: "sfs_at ready sectors C nsect D K f s0 (insert b U) ?g (I(sv := ?i)) ?s" by (rule set_inode_at [OF b(4)])
    have hb: "hand_back f b ?s = Some (Inr b, ?s)" using hand_back_at [OF s] b(2) nb by simp
    have c: "on_ok (bmap_direct D K sv n doalloc) (hand_back f) s = Some (Inr b, ?s)"
      using new(1,2) b(1) hb by (simp add: on_ok_def bmap_direct_def Let_def I m [symmetric] fs)
    have ib: "sfi_indirect (I sv) \<noteq> b" "length (sfi_direct (I sv)) = SFS_NDIRECT" using ok b(3) by (auto simp: file_ok_def)
    have fm: "file_map ?g ?i = (file_map g (I sv))(n := b)"
      using file_map_direct [OF ib(2) n, of ?g b] file_map_cong [of "I sv" "I sv" ?g g] ib(1) by simp
    have "file_ok nb (insert b U) ?g ?i" using file_ok_new [OF ok b(3,2) fm] by simp
    moreover have "b \<noteq> 0" using at_zero [OF at] b(3) by metis
    ultimately have "bmap_result nb n doalloc U g (I sv) (Inr b) (insert b U) ?g ?i"
      using fm new b(2,3) n by (auto simp: bmap_result_def SFS_BLOCKSIZE_def)
    with c s show thesis by (rule that)
  qed
qed

text \<open>The indirect block: there is one afterwards, or the disk is full.\<close>

lemma bmap_idblock_at:
  assumes at: "sfs_at ready sectors C nsect D K f s0 U g I s" and f: "sfs_of sv s0 = f" and ok: "file_ok nb U g (I sv)"
    and nb: "nb = sb_nblocks (sfs_sb (fs_state s0) f)"
  shows "sfi_indirect (I sv) = 0 \<and> {..<nb} \<subseteq> U \<and> bmap_idblock D K sv s = Some (Inl ENOSPC, s)
    \<or> (\<exists>U1 g1 i1 s1. bmap_idblock D K sv s = Some (Inr (sfi_indirect i1, block_words (g1 (sfi_indirect i1))), s1)
        \<and> sfs_at ready sectors C nsect D K f s0 U1 g1 (I(sv := i1)) s1 \<and> sfi_indirect i1 \<noteq> 0 \<and> file_ok nb U1 g1 i1
        \<and> (if sfi_indirect (I sv) \<noteq> 0 then U1 = U \<and> g1 = g \<and> i1 = I sv
           else \<exists>b. b \<notin> U \<and> U1 = insert b U \<and> g1 = g(b := replicate 512 0) \<and> i1 = (I sv)\<lparr>sfi_indirect := b\<rparr> \<and> file_map g1 i1 = file_map g (I sv)))"
proof -
  have I: "sv_i (fs_state s) = I" using at by (simp add: sfs_at_def)
  have fs: "sfs_of sv s = f" using at_fs [OF at] f by simp
  consider (old) "sfi_indirect (I sv) \<noteq> 0" | (full) "sfi_indirect (I sv) = 0" "{..<nb} \<subseteq> U" | (new) "sfi_indirect (I sv) = 0" "\<not> {..<nb} \<subseteq> U" by blast
  then show ?thesis
  proof cases
    case old
    have "sfi_indirect (I sv) < nb" using ok by (simp add: file_ok_def)
    then obtain s1 where r: "sfs_readblock D (K Idbuf) f (sfi_indirect (I sv)) s = Some (Inr (g (sfi_indirect (I sv))), s1)"
        "sfs_at ready sectors C nsect D K f s0 U g I s1"
      using read_at [OF at] nb by metis
    have "bmap_idblock D K sv s = Some (Inr (sfi_indirect (I sv), block_words (g (sfi_indirect (I sv)))), s1)"
      using old r(1) by (simp add: bmap_idblock_def on_ok_def Let_def I fs)
    then show ?thesis using old r(2) ok
      by (intro disjI2 exI [of _ U] exI [of _ g] exI [of _ "I sv"] exI [of _ s1]) simp
  next
    case full
    then show ?thesis using balloc_full [OF at] nb by (simp add: bmap_idblock_def on_ok_def Let_def I fs)
  next
    case new
    obtain b s1 where b: "sfs_balloc D K f s = Some (Inr b, s1)" "b < nb" "b \<notin> U"
        "sfs_at ready sectors C nsect D K f s0 (insert b U) (g(b := replicate 512 0)) I s1"
      by (rule balloc_ok [OF at]) (use new nb in auto)
    let ?i = "(I sv)\<lparr>sfi_indirect := b\<rparr>" and ?g = "g(b := replicate 512 0)"
    let ?s = "set_inode sv (\<lambda>i. i\<lparr>sfi_indirect := b\<rparr>) s1"
    have s: "sfs_at ready sectors C nsect D K f s0 (insert b U) ?g (I(sv := ?i)) ?s" by (rule set_inode_at [OF b(4)])
    have b0: "b \<noteq> 0" using at_zero [OF at] b(3) by metis
    have fm: "file_map ?g ?i = file_map g (I sv)"
      using file_map_fresh [OF new(1), of ?g b] file_map_cong [of "I sv" "I sv" ?g g] new(1) by simp
    have "file_ok nb (insert b U) ?g ?i" using file_ok_same [OF ok fm, of "insert b U"] b(2,3) by auto
    moreover have "bmap_idblock D K sv s = Some (Inr (b, block_words (?g b)), ?s)"
      using new b(1) by (simp add: bmap_idblock_def on_ok_def Let_def I fs block_words_zero SFS_DBPERIDB_def)
    ultimately show ?thesis using new s b0 b(3) fm
      by (intro disjI2 exI [of _ "insert b U"] exI [of _ ?g] exI [of _ ?i] exI [of _ ?s]) auto
  qed
qed

text \<open>The entry in the indirect block.\<close>

lemma bmap_entry_at:
  assumes at: "sfs_at ready sectors C nsect D K f s0 U g I s" and f: "sfs_of sv s0 = f" and ok: "file_ok nb U g (I sv)"
    and nb: "nb = sb_nblocks (sfs_sb (fs_state s0) f)" and n: "n < 128" and i: "sfi_indirect (I sv) \<noteq> 0"
  obtains r U' g' s' where
    "on_ok (bmap_entry D K sv (sfi_indirect (I sv)) (block_words (g (sfi_indirect (I sv)))) n doalloc) (hand_back f) s = Some (r, s')"
    "sfs_at ready sectors C nsect D K f s0 U' g' I s'" "bmap_result nb (SFS_NDIRECT + n) doalloc U g (I sv) r U' g' (I sv)"
proof -
  let ?id = "sfi_indirect (I sv)" and ?n = "SFS_NDIRECT + n"
  have m: "file_map g (I sv) ?n = block_words (g ?id) ! n" using n i by (simp add: file_map_def SFS_DBPERIDB_def)
  have fs: "sfs_of sv s = f" using at_fs [OF at] f by simp
  have n': "?n < SFS_NDIRECT + SFS_DBPERIDB" using n by (simp add: SFS_DBPERIDB_def)
  consider (same) "\<not> (file_map g (I sv) ?n = 0 \<and> doalloc)" | (full) "file_map g (I sv) ?n = 0" doalloc "{..<nb} \<subseteq> U"
    | (new) "file_map g (I sv) ?n = 0" doalloc "\<not> {..<nb} \<subseteq> U" by blast
  then show thesis
  proof cases
    case same
    let ?b = "file_map g (I sv) ?n"
    have "?b \<in> U" "?b < nb" using ok by (simp_all add: file_ok_def)
    then have hb: "hand_back f ?b s = Some (Inr ?b, s)" using hand_back_at [OF at] nb by simp
    have c: "on_ok (bmap_entry D K sv ?id (block_words (g ?id)) n doalloc) (hand_back f) s = Some (Inr ?b, s)"
      using hb same by (auto simp: on_ok_def bmap_entry_def Let_def m)
    show thesis by (rule that [OF c at bmap_result_same [OF ok n' same]])
  next
    case full
    have c: "on_ok (bmap_entry D K sv ?id (block_words (g ?id)) n doalloc) (hand_back f) s = Some (Inl ENOSPC, s)"
      using full balloc_full [OF at] nb by (simp add: on_ok_def bmap_entry_def Let_def m [symmetric] fs)
    show thesis by (rule that [OF c at bmap_result_error]) (use ok n' full in simp_all)
  next
    case new
    obtain b s1 where b: "sfs_balloc D K f s = Some (Inr b, s1)" "b < nb" "b \<notin> U"
        "sfs_at ready sectors C nsect D K f s0 (insert b U) (g(b := replicate 512 0)) I s1"
      by (rule balloc_ok [OF at]) (use new nb in auto)
    let ?ws = "(block_words (g ?id))[n := b]"
    let ?g = "(g(b := replicate 512 0))(?id := words_block ?ws)"
    have id: "?id < nb" "?id \<in> U" "?id \<noteq> b" using ok b(3) by (auto simp: file_ok_def)
    obtain s2 where w: "sfs_writeblock D (K Idbuf) f ?id (words_block ?ws) s1 = Some (Inr (), s2)"
        "sfs_at ready sectors C nsect D K f s0 (insert b U) ?g I s2"
      by (rule write_at [OF b(4), of ?id "words_block ?ws" Idbuf]) (use id(1) nb in simp_all)
    have hb: "hand_back f b s2 = Some (Inr b, s2)" using hand_back_at [OF w(2)] b(2) nb by simp
    have c: "on_ok (bmap_entry D K sv ?id (block_words (g ?id)) n doalloc) (hand_back f) s = Some (Inr b, s2)"
      using new(1,2) b(1) w(1) hb at_fs [OF b(4), of sv] f by (simp add: on_ok_def bmap_entry_def Let_def m [symmetric] fs)
    have b0: "b \<noteq> 0" "b < 4294967296" using at_zero [OF at] b(2,3) at_size [OF at] nsect nb by (metis, linarith)
    have "file_map (g(?id := words_block ?ws)) (I sv) = (file_map g (I sv))(?n := b)" by (rule file_map_entry [OF i n b0(2)])
    moreover have "file_map ?g (I sv) = file_map (g(?id := words_block ?ws)) (I sv)" by (rule file_map_cong) simp_all
    ultimately have fm: "file_map ?g (I sv) = (file_map g (I sv))(?n := b)" by simp
    have "file_ok nb (insert b U) ?g (I sv)" using file_ok_new [OF ok b(3,2) fm] by simp
    then have "bmap_result nb ?n doalloc U g (I sv) (Inr b) (insert b U) ?g (I sv)"
      using fm new b(2,3) b0(1) n' id i by (auto simp: bmap_result_def SFS_BLOCKSIZE_def)
    with c w(2) show thesis by (rule that)
  qed
qed

lemma bmap_at:
  assumes at: "sfs_at ready sectors C nsect D K f s0 U g I s" and f: "sfs_of sv s0 = f" and ok: "file_ok nb U g (I sv)"
    and nb: "nb = sb_nblocks (sfs_sb (fs_state s0) f)"
  obtains r U' g' i' s' where "sfs_bmap D K sv n doalloc s = Some (r, s')"
    "sfs_at ready sectors C nsect D K f s0 U' g' (I(sv := i')) s'" "bmap_result nb n doalloc U g (I sv) r U' g' i'"
proof -
  have I: "sv_i (fs_state s) = I" using at by (simp add: sfs_at_def)
  have fs: "sfs_of sv s = f" using at_fs [OF at] f by simp
  have held: "biglock_held s = Some ()" using at by (simp add: sfs_at_def sfs_ok_def sfs_disk_def Let_def biglock_held_def)
  consider (direct) "n < SFS_NDIRECT" | (big) "SFS_NDIRECT + SFS_DBPERIDB \<le> n"
    | (none) "SFS_NDIRECT \<le> n" "n < SFS_NDIRECT + SFS_DBPERIDB" "sfi_indirect (I sv) = 0" "\<not> doalloc"
    | (ind) "SFS_NDIRECT \<le> n" "n < SFS_NDIRECT + SFS_DBPERIDB" "sfi_indirect (I sv) \<noteq> 0 \<or> doalloc" by linarith
  then show thesis
  proof cases
    case direct
    then have "sfs_bmap D K sv n doalloc s = on_ok (bmap_direct D K sv n doalloc) (hand_back f) s"
      using held by (simp add: sfs_bmap_def fs)
    then show thesis using bmap_direct_at [OF at f ok nb direct, of doalloc] that by metis
  next
    case big
    then have "(n - SFS_NDIRECT) div SFS_DBPERIDB \<ge> SFS_NINDIRECT" by (simp add: SFS_DBPERIDB_def SFS_NINDIRECT_def)
    then have "sfs_bmap D K sv n doalloc s = Some (Inl EFBIG, s)" using big held by (simp add: sfs_bmap_def Let_def SFS_DBPERIDB_def)
    moreover have "bmap_result nb n doalloc U g (I sv) (Inl EFBIG) U g (I sv)" using ok big by (intro bmap_result_error) simp_all
    ultimately show thesis using at by (intro that [of _ _ U g "I sv"]) simp_all
  next
    case none
    have m: "file_map g (I sv) n = 0" using none by (simp add: file_map_def)
    have "(n - SFS_NDIRECT) div SFS_DBPERIDB = 0" using none by (simp add: SFS_DBPERIDB_def)
    then have "sfs_bmap D K sv n doalloc s = Some (Inr (file_map g (I sv) n), s)" using none held m by (simp add: sfs_bmap_def I SFS_NINDIRECT_def)
    moreover have "bmap_result nb n doalloc U g (I sv) (Inr (file_map g (I sv) n)) U g (I sv)" using ok none by (intro bmap_result_same) simp_all
    ultimately show thesis using at by (intro that [of _ _ U g "I sv"]) simp_all
  next
    case ind
    let ?k = "n - SFS_NDIRECT"
    have k: "?k < 128" "SFS_NDIRECT + ?k = n" using ind by (simp_all add: SFS_DBPERIDB_def)
    then have call: "sfs_bmap D K sv n doalloc s = on_ok (bmap_idblock D K sv) (\<lambda>(idblock, idbuf). on_ok (bmap_entry D K sv idblock idbuf ?k doalloc) (hand_back f)) s"
      using ind held by (auto simp: sfs_bmap_def I fs SFS_DBPERIDB_def SFS_NINDIRECT_def)
    show thesis
      using bmap_idblock_at [OF at f ok nb]
    proof (elim disjE exE conjE)
      assume full: "sfi_indirect (I sv) = 0" "{..<nb} \<subseteq> U" "bmap_idblock D K sv s = Some (Inl ENOSPC, s)"
      have "sfs_bmap D K sv n doalloc s = Some (Inl ENOSPC, s)" using full(3) by (simp add: call on_ok_def)
      moreover have "file_map g (I sv) n = 0" using full(1) ind(1) by (simp add: file_map_def)
      then have "bmap_result nb n doalloc U g (I sv) (Inl ENOSPC) U g (I sv)" using ok full ind by (intro bmap_result_error) simp_all
      ultimately show thesis using at by (intro that [of _ _ U g "I sv"]) simp_all
    next
      fix U1 g1 i1 s1
      assume id: "bmap_idblock D K sv s = Some (Inr (sfi_indirect i1, block_words (g1 (sfi_indirect i1))), s1)"
        "sfs_at ready sectors C nsect D K f s0 U1 g1 (I(sv := i1)) s1" "sfi_indirect i1 \<noteq> 0" "file_ok nb U1 g1 i1"
        "if sfi_indirect (I sv) \<noteq> 0 then U1 = U \<and> g1 = g \<and> i1 = I sv
           else \<exists>b. b \<notin> U \<and> U1 = insert b U \<and> g1 = g(b := replicate 512 0) \<and> i1 = (I sv)\<lparr>sfi_indirect := b\<rparr> \<and> file_map g1 i1 = file_map g (I sv)"
      let ?I = "I(sv := i1)"
      obtain r U' g' s' where e: "on_ok (bmap_entry D K sv (sfi_indirect (?I sv)) (block_words (g1 (sfi_indirect (?I sv)))) ?k doalloc) (hand_back f) s1 = Some (r, s')"
          "sfs_at ready sectors C nsect D K f s0 U' g' ?I s'" "bmap_result nb (SFS_NDIRECT + ?k) doalloc U1 g1 (?I sv) r U' g' (?I sv)"
        by (rule bmap_entry_at [OF id(2) f _ nb k(1), where doalloc = doalloc]) (use id(3,4) in simp_all)
      have "bmap_result nb n doalloc U g (I sv) r U' g' i1"
        using bmap_result_trans [OF _ ind(3,1) at_zero [OF at] id(5)] e(3) k(2) by simp
      moreover have "sfs_bmap D K sv n doalloc s = Some (r, s')" using id(1) e(1) by (simp add: call on_ok_def)
      ultimately show thesis using e(2) that by blast
    qed
  qed
qed

end

section \<open>Truncation\<close>

text \<open>A list from which what is at an index of \<open>A\<close> has been removed.\<close>

definition zap :: "nat set \<Rightarrow> nat list \<Rightarrow> nat list" where
  "zap A ws = map (\<lambda>k. if k \<in> A then 0 else ws ! k) [0..<length ws]"

lemma length_zap [simp]: "length (zap A ws) = length ws"
  by (simp add: zap_def)

lemma nth_zap [simp]: "k < length ws \<Longrightarrow> zap A ws ! k = (if k \<in> A then 0 else ws ! k)"
  by (simp add: zap_def)

lemma zap_update: "k < length ws \<Longrightarrow> zap A (ws[k := 0]) = zap (insert k A) ws"
  by (rule nth_equalityI) auto

lemma zap_zero: "k < length ws \<Longrightarrow> ws ! k = 0 \<Longrightarrow> zap (insert k A) ws = zap A ws"
  by (rule nth_equalityI) auto

lemma zap_none [simp]: "zap {} ws = ws"
  by (rule nth_equalityI) auto

text \<open>The blocks that \<open>zap\<close> takes away.\<close>

definition zapped :: "nat set \<Rightarrow> nat list \<Rightarrow> nat set" where
  "zapped A ws = {ws ! k | k. k \<in> A \<and> k < length ws \<and> ws ! k \<noteq> 0}"

text \<open>The nonzero numbers in the list are used blocks, each once.\<close>

definition blocks_in :: "nat set \<Rightarrow> nat \<Rightarrow> nat list \<Rightarrow> bool" where
  "blocks_in U nb ws \<longleftrightarrow> (\<forall>k<length ws. ws ! k \<noteq> 0 \<longrightarrow> ws ! k \<in> U \<and> ws ! k < nb)
     \<and> (\<forall>j<length ws. \<forall>k<length ws. ws ! j \<noteq> 0 \<and> ws ! j = ws ! k \<longrightarrow> j = k)"

lemma blocks_in_update: "blocks_in U nb ws \<Longrightarrow> k < length ws \<Longrightarrow> blocks_in (U - {ws ! k}) nb (ws[k := 0])"
  unfolding blocks_in_def by (auto simp: nth_list_update)

lemma zapped_update: "blocks_in U nb ws \<Longrightarrow> k < length ws \<Longrightarrow> ws ! k \<noteq> 0 \<Longrightarrow> insert (ws ! k) (zapped A (ws[k := 0])) = zapped (insert k A) ws"
  unfolding blocks_in_def zapped_def by (auto simp: nth_list_update)

lemma zapped_zero: "ws ! k = 0 \<Longrightarrow> zapped (insert k A) ws = zapped A ws"
  unfolding zapped_def by auto

lemma zap_Cons: "zap {k. bl < at + k} (w # ws) = (if bl < at then 0 else w) # zap {k. bl < Suc at + k} ws"
  by (rule nth_equalityI) (simp_all add: nth_Cons split: nat.split)

lemma zapped_Cons: "zapped {k. bl < at + k} (w # ws) = (if bl < at \<and> w \<noteq> 0 then {w} else {}) \<union> zapped {k. bl < Suc at + k} ws"
proof -
  have "x \<in> zapped A (w # ws) \<longleftrightarrow> x \<noteq> 0 \<and> (0 \<in> A \<and> x = w \<or> x \<in> zapped {k. Suc k \<in> A} ws)" for x A
  proof -
    have ex: "(\<exists>k. P k) \<longleftrightarrow> P 0 \<or> (\<exists>k. P (Suc k))" for P :: "nat \<Rightarrow> bool" by (metis not0_implies_Suc)
    show ?thesis
      unfolding zapped_def mem_Collect_eq ex [of "\<lambda>k. x = (w # ws) ! k \<and> k \<in> A \<and> k < length (w # ws) \<and> (w # ws) ! k \<noteq> 0"] by auto
  qed
  moreover have "x \<in> zapped A ws \<Longrightarrow> x \<noteq> 0" for x A by (auto simp: zapped_def)
  ultimately show ?thesis by (intro set_eqI) auto
qed

lemma blocks_in_Cons: "blocks_in U nb (w # ws) \<Longrightarrow> blocks_in U nb ws"
  "blocks_in U nb (w # ws) \<Longrightarrow> w \<noteq> 0 \<Longrightarrow> w \<in> U \<and> w < nb \<and> blocks_in (U - {w}) nb ws"
proof -
  assume b: "blocks_in U nb (w # ws)"
  have s: "ws ! k \<noteq> 0 \<Longrightarrow> ws ! k \<in> U \<and> ws ! k < nb" if "k < length ws" for k
    using b that unfolding blocks_in_def by (auto dest: spec [of _ "Suc k"])
  have d: "ws ! j \<noteq> 0 \<Longrightarrow> ws ! j = ws ! k \<Longrightarrow> j = k" if "j < length ws" "k < length ws" for j k
  proof -
    have "\<forall>j<length (w # ws). \<forall>k<length (w # ws). (w # ws) ! j \<noteq> 0 \<and> (w # ws) ! j = (w # ws) ! k \<longrightarrow> j = k" using b unfolding blocks_in_def by blast
    from this [rule_format, of "Suc j" "Suc k"] that show "ws ! j \<noteq> 0 \<Longrightarrow> ws ! j = ws ! k \<Longrightarrow> j = k" by simp
  qed
  show "blocks_in U nb ws" using s d by (simp add: blocks_in_def)
  assume w: "w \<noteq> 0"
  have "ws ! k \<noteq> w" if "k < length ws" for k
    using b that w unfolding blocks_in_def by (metis Suc_less_eq length_Cons nth_Cons_0 nth_Cons_Suc old.nat.distinct(1) zero_less_Suc)
  moreover have "w \<in> U \<and> w < nb" using b w unfolding blocks_in_def by (auto dest: spec [of _ 0])
  ultimately show "w \<in> U \<and> w < nb \<and> blocks_in (U - {w}) nb ws" using s d by (auto simp: blocks_in_def)
qed

lemma zapped_none [simp]: "zapped {} ws = {}"
  by (simp add: zapped_def)

text \<open>The entry \<open>n\<close> of the map is kept by a truncation to \<open>bl\<close> blocks.\<close>

definition trunc_keeps :: "nat \<Rightarrow> nat \<Rightarrow> bool" where
  "trunc_keeps bl n \<longleftrightarrow> (if n < SFS_NDIRECT then n < bl else n \<le> bl)"

text \<open>What is beyond the end in the indirect block.\<close>

definition cut_blocks :: "nat \<Rightarrow> (nat \<Rightarrow> byte list) \<Rightarrow> sfs_dinode \<Rightarrow> nat set" where
  "cut_blocks bl g i = {file_map g i n | n. SFS_NDIRECT \<le> n \<and> bl < n \<and> file_map g i n \<noteq> 0}"

text \<open>The truncation of the indirect blocks, from \<open>U\<close>, \<open>g\<close>, \<open>i\<close> to \<open>U'\<close>, \<open>g'\<close>, \<open>i'\<close>.\<close>

definition indirect_cut :: "nat \<Rightarrow> nat set \<Rightarrow> (nat \<Rightarrow> byte list) \<Rightarrow> sfs_dinode \<Rightarrow> nat set \<Rightarrow> (nat \<Rightarrow> byte list) \<Rightarrow> sfs_dinode \<Rightarrow> bool" where
  "indirect_cut bl U g i U' g' i' \<longleftrightarrow>
     (\<exists>x. i' = i\<lparr>sfi_indirect := x\<rparr> \<and> (x = sfi_indirect i \<or> x = 0 \<and> (\<forall>n\<ge>SFS_NDIRECT. n \<le> bl \<longrightarrow> file_map g i n = 0)))
     \<and> (\<forall>n\<ge>SFS_NDIRECT. file_map g' i' n = (if n \<le> bl then file_map g i n else 0))
     \<and> U' = U - cut_blocks bl g i - (if sfi_indirect i \<noteq> sfi_indirect i' then {sfi_indirect i} else {})
     \<and> (\<forall>k. k \<noteq> sfi_indirect i \<or> k = 0 \<longrightarrow> g' k = g k)"

lemma map_words: "sfi_indirect i \<noteq> 0 \<Longrightarrow> k < 128 \<Longrightarrow> file_map g i (SFS_NDIRECT + k) = block_words (g (sfi_indirect i)) ! k"
  by (simp add: file_map_def SFS_DBPERIDB_def)

lemma map_beyond: "SFS_NDIRECT + SFS_DBPERIDB \<le> n \<Longrightarrow> file_map g i n = 0"
  by (simp add: file_map_def)

lemma map_zapped:
  assumes "sfi_indirect i \<noteq> 0"
  shows "zapped {k. bl < SFS_NDIRECT + k} (block_words (g (sfi_indirect i))) = cut_blocks bl g i"
proof -
  have "(\<exists>k. w = block_words (g (sfi_indirect i)) ! k \<and> bl < SFS_NDIRECT + k \<and> k < 128 \<and> w \<noteq> 0)
      \<longleftrightarrow> (\<exists>n\<ge>SFS_NDIRECT. w = file_map g i n \<and> bl < n \<and> w \<noteq> 0)" for w
  proof
    assume "\<exists>k. w = block_words (g (sfi_indirect i)) ! k \<and> bl < SFS_NDIRECT + k \<and> k < 128 \<and> w \<noteq> 0"
    then show "\<exists>n\<ge>SFS_NDIRECT. w = file_map g i n \<and> bl < n \<and> w \<noteq> 0" using map_words [OF assms] by (metis le_add1)
  next
    assume "\<exists>n\<ge>SFS_NDIRECT. w = file_map g i n \<and> bl < n \<and> w \<noteq> 0"
    then obtain n where n: "SFS_NDIRECT \<le> n" "w = file_map g i n" "bl < n" "w \<noteq> 0" by blast
    then have "n - SFS_NDIRECT < 128" using map_beyond [of n g i] by (cases "SFS_NDIRECT + SFS_DBPERIDB \<le> n") (simp_all add: SFS_DBPERIDB_def)
    then show "\<exists>k. w = block_words (g (sfi_indirect i)) ! k \<and> bl < SFS_NDIRECT + k \<and> k < 128 \<and> w \<noteq> 0"
      using n map_words [OF assms, of "n - SFS_NDIRECT" g] by (intro exI [of _ "n - SFS_NDIRECT"]) simp
  qed
  moreover have "w \<in> zapped {k. bl < SFS_NDIRECT + k} (block_words (g (sfi_indirect i)))
      \<longleftrightarrow> (\<exists>k. w = block_words (g (sfi_indirect i)) ! k \<and> bl < SFS_NDIRECT + k \<and> k < 128 \<and> w \<noteq> 0)" for w
    unfolding zapped_def by auto
  moreover have "w \<in> cut_blocks bl g i \<longleftrightarrow> (\<exists>n\<ge>SFS_NDIRECT. w = file_map g i n \<and> bl < n \<and> w \<noteq> 0)" for w
    unfolding cut_blocks_def by auto
  ultimately show ?thesis by (intro set_eqI) (simp only:)
qed

lemma indirect_cutI:
  assumes "i' = i\<lparr>sfi_indirect := x\<rparr>" and "x = sfi_indirect i \<or> x = 0 \<and> (\<forall>n\<ge>SFS_NDIRECT. n \<le> bl \<longrightarrow> file_map g i n = 0)"
    and "\<And>n. SFS_NDIRECT \<le> n \<Longrightarrow> file_map g' i' n = (if n \<le> bl then file_map g i n else 0)"
    and "U' = U - cut_blocks bl g i - (if sfi_indirect i \<noteq> x then {sfi_indirect i} else {})"
    and "\<And>k. k \<noteq> sfi_indirect i \<or> k = 0 \<Longrightarrow> g' k = g k"
  shows "indirect_cut bl U g i U' g' i'"
proof -
  have "sfi_indirect i' = x" using assms(1) by simp
  then show ?thesis unfolding indirect_cut_def using assms by blast
qed

lemma cut_id:
  assumes "\<And>n. SFS_NDIRECT \<le> n \<Longrightarrow> bl < n \<Longrightarrow> file_map g i n = 0"
  shows "indirect_cut bl U g i U g i"
proof -
  have "cut_blocks bl g i = {}" using assms unfolding cut_blocks_def by auto
  then show ?thesis using assms by (intro indirect_cutI [where x = "sfi_indirect i"]) simp_all
qed

text \<open>The block is written back, or is not needed any more.\<close>

lemma cut_write:
  assumes "sfi_indirect i \<noteq> 0"
  shows "indirect_cut bl U g i (U - zapped {k. bl < SFS_NDIRECT + k} (block_words (g (sfi_indirect i))))
    (g(sfi_indirect i := words_block (zap {k. bl < SFS_NDIRECT + k} (block_words (g (sfi_indirect i)))))) i"
proof -
  let ?ws = "block_words (g (sfi_indirect i))" and ?A = "{k. bl < SFS_NDIRECT + k}"
  let ?g = "g(sfi_indirect i := words_block (zap ?A ?ws))"
  have "\<forall>w\<in>set (zap ?A ?ws). w < 4294967296" using block_words_bound by (auto simp: in_set_conv_nth)
  then have ws: "block_words (?g (sfi_indirect i)) = zap ?A ?ws" by (simp add: block_words_block)
  have "file_map ?g i n = (if n \<le> bl then file_map g i n else 0)" if n: "SFS_NDIRECT \<le> n" for n
  proof (cases "n < SFS_NDIRECT + SFS_DBPERIDB")
    case True
    then have k: "n - SFS_NDIRECT < 128" "SFS_NDIRECT + (n - SFS_NDIRECT) = n" using n by (simp_all add: SFS_DBPERIDB_def)
    then show ?thesis using map_words [OF assms k(1), of g] map_words [OF assms k(1), of ?g] unfolding ws by simp
  qed (simp add: map_beyond)
  then show ?thesis unfolding map_zapped [OF assms] using assms by (intro indirect_cutI [where x = "sfi_indirect i"]) auto
qed

lemma cut_drop:
  assumes "sfi_indirect i \<noteq> 0" and "\<forall>w\<in>set (zap {k. bl < SFS_NDIRECT + k} (block_words (g (sfi_indirect i)))). w = 0"
  shows "indirect_cut bl U g i (U - zapped {k. bl < SFS_NDIRECT + k} (block_words (g (sfi_indirect i))) - {sfi_indirect i}) g (i\<lparr>sfi_indirect := 0\<rparr>)"
proof -
  have z: "file_map g i n = 0" if n: "SFS_NDIRECT \<le> n" "n \<le> bl" for n
  proof (cases "n < SFS_NDIRECT + SFS_DBPERIDB")
    case True
    then have k: "n - SFS_NDIRECT < 128" "SFS_NDIRECT + (n - SFS_NDIRECT) = n" using n by (simp_all add: SFS_DBPERIDB_def)
    have "zap {k. bl < SFS_NDIRECT + k} (block_words (g (sfi_indirect i))) ! (n - SFS_NDIRECT) = 0"
      by (rule bspec [OF assms(2) nth_mem]) (use k(1) in simp)
    then show ?thesis using map_words [OF assms(1) k(1), of g] k n by simp
  qed (simp add: map_beyond)
  moreover have "file_map g (i\<lparr>sfi_indirect := 0\<rparr>) n = 0" if "SFS_NDIRECT \<le> n" for n using that by (simp add: file_map_def)
  ultimately show ?thesis unfolding map_zapped [OF assms(1)] using assms(1) by (intro indirect_cutI [where x = 0]) simp_all
qed

text \<open>
  The result of a truncation to \<open>bl\<close> blocks: the map has exactly the entries that are kept, the blocks that the file
  has given up, and no others, are free, and the disk is as before, but for the indirect block.
\<close>

definition file_blocks :: "(nat \<Rightarrow> byte list) \<Rightarrow> sfs_dinode \<Rightarrow> nat set" where
  "file_blocks g i = insert (sfi_indirect i) (range (file_map g i)) - {0}"

definition trunc_result :: "nat \<Rightarrow> nat \<Rightarrow> nat \<Rightarrow> nat set \<Rightarrow> (nat \<Rightarrow> byte list) \<Rightarrow> sfs_dinode \<Rightarrow> nat set \<Rightarrow> (nat \<Rightarrow> byte list) \<Rightarrow> sfs_dinode \<Rightarrow> bool" where
  "trunc_result nb bl len U g i U' g' i' \<longleftrightarrow>
     file_ok nb U' g' i' \<and> sfi_size i' = len \<and> sfi_type i' = sfi_type i \<and> sfi_linkcount i' = sfi_linkcount i
     \<and> (\<forall>n. file_map g' i' n = (if trunc_keeps bl n then file_map g i n else 0))
     \<and> U' = U - (file_blocks g i - file_blocks g' i')
     \<and> (\<forall>k. k \<noteq> sfi_indirect i \<or> k = 0 \<longrightarrow> g' k = g k)"

lemma file_ok_blocks:
  assumes ok: "file_ok nb U g i"
  shows "blocks_in U nb (sfi_direct i)" "file_map g i j \<noteq> 0 \<Longrightarrow> file_map g i j = file_map g i k \<Longrightarrow> j = k"
    "file_map g i n \<noteq> 0 \<Longrightarrow> file_map g i n \<noteq> sfi_indirect i" "file_map g i n \<in> U" "file_map g i n < nb"
proof -
  show inj: "j = k" if "file_map g i j \<noteq> 0" "file_map g i j = file_map g i k" for j k
    using ok that by (auto simp: file_ok_def inj_on_def)
  show u: "file_map g i n \<in> U" "file_map g i n < nb" "file_map g i n \<noteq> 0 \<Longrightarrow> file_map g i n \<noteq> sfi_indirect i" for n
    using ok by (auto simp: file_ok_def)
  have d: "sfi_direct i ! k = file_map g i k" "length (sfi_direct i) = SFS_NDIRECT" if "k < SFS_NDIRECT" for k
    using ok that by (auto simp: file_ok_def file_map_def)
  have l: "length (sfi_direct i) = SFS_NDIRECT" using ok by (simp add: file_ok_def)
  show "blocks_in U nb (sfi_direct i)"
    unfolding blocks_in_def l
  proof (intro conjI allI impI)
    fix k assume "k < SFS_NDIRECT" "sfi_direct i ! k \<noteq> 0"
    then show "sfi_direct i ! k \<in> U" "sfi_direct i ! k < nb" using u d(1) by auto
  next
    fix j k assume "j < SFS_NDIRECT" "k < SFS_NDIRECT" "sfi_direct i ! j \<noteq> 0 \<and> sfi_direct i ! j = sfi_direct i ! k"
    then show "j = k" using inj d(1) by metis
  qed
qed

text \<open>The direct blocks that a truncation frees.\<close>

lemma direct_zapped:
  assumes "length (sfi_direct i) = SFS_NDIRECT"
  shows "zapped {k \<in> {..<SFS_NDIRECT}. bl \<le> k} (sfi_direct i) = {file_map g i n | n. n < SFS_NDIRECT \<and> bl \<le> n \<and> file_map g i n \<noteq> 0}"
proof -
  have "sfi_direct i ! k = file_map g i k" if "k < SFS_NDIRECT" for k using that by (simp add: file_map_def)
  then have "w \<in> zapped {k \<in> {..<SFS_NDIRECT}. bl \<le> k} (sfi_direct i) \<longleftrightarrow> (\<exists>n. w = file_map g i n \<and> n < SFS_NDIRECT \<and> bl \<le> n \<and> file_map g i n \<noteq> 0)" for w
    unfolding zapped_def assms mem_Collect_eq by (intro ex_cong1) auto
  then show ?thesis by (intro set_eqI) (simp only: mem_Collect_eq)
qed

lemma file_ok_indirect:
  assumes ok: "file_ok nb U g i" and i: "sfi_indirect i \<noteq> 0"
    and Z: "Z = {file_map g i n | n. n < SFS_NDIRECT \<and> bl \<le> n \<and> file_map g i n \<noteq> 0}"
  shows "blocks_in (U - Z) nb (block_words (g (sfi_indirect i)))" "sfi_indirect i \<in> U - Z" "sfi_indirect i \<notin> set (block_words (g (sfi_indirect i)))"
proof -
  note f = file_ok_blocks [OF ok]
  have w: "block_words (g (sfi_indirect i)) ! k = file_map g i (SFS_NDIRECT + k)" if "k < 128" for k using map_words [OF i that] by simp
  have z: "file_map g i (SFS_NDIRECT + k) \<notin> Z" if "file_map g i (SFS_NDIRECT + k) \<noteq> 0" for k
  proof
    assume "file_map g i (SFS_NDIRECT + k) \<in> Z"
    then obtain n where n: "n < SFS_NDIRECT" "file_map g i (SFS_NDIRECT + k) = file_map g i n" unfolding Z by auto
    then show False using f(2) [OF that n(2)] by simp
  qed
  show "blocks_in (U - Z) nb (block_words (g (sfi_indirect i)))"
    unfolding blocks_in_def length_block_words
  proof (intro conjI allI impI)
    fix k :: nat assume k: "k < 128" "block_words (g (sfi_indirect i)) ! k \<noteq> 0"
    then show "block_words (g (sfi_indirect i)) ! k \<in> U - Z" "block_words (g (sfi_indirect i)) ! k < nb"
      using z [of k] f(4,5) [of "SFS_NDIRECT + k"] w [OF k(1)] by simp_all
  next
    fix j k :: nat assume a: "j < 128" "k < 128" "block_words (g (sfi_indirect i)) ! j \<noteq> 0 \<and> block_words (g (sfi_indirect i)) ! j = block_words (g (sfi_indirect i)) ! k"
    have "file_map g i (SFS_NDIRECT + j) \<noteq> 0" "file_map g i (SFS_NDIRECT + j) = file_map g i (SFS_NDIRECT + k)"
      using a(3) unfolding w [OF a(1)] w [OF a(2)] by blast+
    from f(2) [OF this] show "j = k" by simp
  qed
  have "sfi_indirect i \<in> U" using ok by (simp add: file_ok_def)
  moreover have "sfi_indirect i \<notin> Z"
  proof
    assume "sfi_indirect i \<in> Z"
    then obtain n where "sfi_indirect i = file_map g i n" "file_map g i n \<noteq> 0" unfolding Z by blast
    then show False using f(3) [of n] by simp
  qed
  ultimately show "sfi_indirect i \<in> U - Z" by simp
  show "sfi_indirect i \<notin> set (block_words (g (sfi_indirect i)))"
  proof
    assume "sfi_indirect i \<in> set (block_words (g (sfi_indirect i)))"
    then obtain k where "k < 128" "block_words (g (sfi_indirect i)) ! k = sfi_indirect i" by (auto simp: in_set_conv_nth)
    then show False using f(3) [of "SFS_NDIRECT + k"] w i by simp
  qed
qed

text \<open>The two loops together.\<close>

lemma trunc_combine:
  assumes ok: "file_ok nb U g i" and Z: "Z = {file_map g i n | n. n < SFS_NDIRECT \<and> bl \<le> n \<and> file_map g i n \<noteq> 0}" and z: "0 \<in> U"
    and i1: "i1 = i\<lparr>sfi_direct := zap {k \<in> {..<SFS_NDIRECT}. bl \<le> k} (sfi_direct i)\<rparr>" and cut: "indirect_cut bl (U - Z) g i1 U' g' i2"
  shows "trunc_result nb bl len U g i U' g' (i2\<lparr>sfi_size := len\<rparr>)"
proof -
  note f = file_ok_blocks [OF ok]
  let ?i' = "i2\<lparr>sfi_size := len\<rparr>"
  have l: "length (sfi_direct i) = SFS_NDIRECT" using ok by (simp add: file_ok_def)
  have m1: "file_map g i1 n = file_map g i n" if "SFS_NDIRECT \<le> n" for n using that by (simp add: i1 file_map_def)
  have si: "sfi_indirect i1 = sfi_indirect i" by (simp add: i1)
  have c: "\<exists>x. i2 = i1\<lparr>sfi_indirect := x\<rparr> \<and> (x = sfi_indirect i1 \<or> x = 0 \<and> (\<forall>n\<ge>SFS_NDIRECT. n \<le> bl \<longrightarrow> file_map g i1 n = 0))"
    "\<forall>n\<ge>SFS_NDIRECT. file_map g' i2 n = (if n \<le> bl then file_map g i1 n else 0)"
    "U' = U - Z - cut_blocks bl g i1 - (if sfi_indirect i1 \<noteq> sfi_indirect i2 then {sfi_indirect i1} else {})"
    and g': "\<forall>k. k \<noteq> sfi_indirect i \<or> k = 0 \<longrightarrow> g' k = g k"
    using cut unfolding indirect_cut_def si by blast+
  obtain x where x: "i2 = i1\<lparr>sfi_indirect := x\<rparr>" "x = sfi_indirect i \<or> x = 0 \<and> (\<forall>n\<ge>SFS_NDIRECT. n \<le> bl \<longrightarrow> file_map g i n = 0)"
    using c(1) m1 unfolding si by auto
  have hi: "\<forall>n\<ge>SFS_NDIRECT. file_map g' i2 n = (if n \<le> bl then file_map g i n else 0)" using c(2) m1 by simp
  have U': "U' = U - Z - cut_blocks bl g i1 - (if sfi_indirect i \<noteq> x then {sfi_indirect i} else {})" using c(3) by (simp add: si x(1))
  have fm: "file_map g' ?i' n = (if trunc_keeps bl n then file_map g i n else 0)" for n
  proof (cases "n < SFS_NDIRECT")
    case True
    then show ?thesis using l by (simp add: file_map_def trunc_keeps_def x(1) i1)
  next
    case False
    then have "file_map g' ?i' n = file_map g' i2 n" by (simp add: file_map_def)
    then show ?thesis using False hi by (simp add: trunc_keeps_def)
  qed
  have ind: "sfi_indirect ?i' = x" using x(1) by simp
  have cb: "cut_blocks bl g i1 = cut_blocks bl g i" using m1 unfolding cut_blocks_def by (intro Collect_cong) metis
  have cut: "w \<in> Z \<union> cut_blocks bl g i \<longleftrightarrow> (\<exists>n. w = file_map g i n \<and> \<not> trunc_keeps bl n \<and> w \<noteq> 0)" for w
  proof -
    have "\<not> trunc_keeps bl n \<longleftrightarrow> n < SFS_NDIRECT \<and> bl \<le> n \<or> SFS_NDIRECT \<le> n \<and> bl < n" for n by (auto simp: trunc_keeps_def)
    then show ?thesis unfolding Z cut_blocks_def by blast
  qed
  have fb: "w \<in> file_blocks g' ?i' \<longleftrightarrow> w \<noteq> 0 \<and> (w = x \<or> (\<exists>n. trunc_keeps bl n \<and> w = file_map g i n))" for w
    unfolding file_blocks_def ind fm by (auto simp: image_iff)
  have fa: "w \<in> file_blocks g i \<longleftrightarrow> w \<noteq> 0 \<and> (w = sfi_indirect i \<or> (\<exists>n. w = file_map g i n))" for w
    unfolding file_blocks_def by auto
  have free: "U' = U - (file_blocks g i - file_blocks g' ?i')"
  proof (rule set_eqI)
    fix w
    have "w \<in> file_blocks g i - file_blocks g' ?i' \<longleftrightarrow> w \<in> Z \<union> cut_blocks bl g i \<or> sfi_indirect i \<noteq> x \<and> w = sfi_indirect i \<and> w \<noteq> 0"
      unfolding Diff_iff fa fb cut using f(2,3) x(2) by metis
    moreover have "sfi_indirect i \<noteq> x \<Longrightarrow> sfi_indirect i \<noteq> 0" using x(2) by auto
    ultimately show "w \<in> U' \<longleftrightarrow> w \<in> U - (file_blocks g i - file_blocks g' ?i')" unfolding U' cb by auto
  qed
  have "file_ok nb U' g' ?i'"
    unfolding file_ok_def
  proof (intro conjI allI impI)
    show "length (sfi_direct ?i') = SFS_NDIRECT" using l by (simp add: x(1) i1)
    have keep: "w \<in> U'" if "w \<in> U" "w = 0 \<or> w \<in> file_blocks g' ?i'" for w using that unfolding free by (auto simp: file_blocks_def)
    have u: "sfi_indirect i \<in> U" "sfi_indirect i < nb" using ok by (simp_all add: file_ok_def)
    then have nb: "0 < nb" by simp
    show "sfi_indirect ?i' \<in> U'" "sfi_indirect ?i' < nb"
      using keep [of x] x(2) u nb z fb [of x] unfolding ind by auto
    fix n
    show "file_map g' ?i' n \<in> U'"
    proof (rule keep)
      show "file_map g' ?i' n \<in> U" using f(4) [of n] z by (simp add: fm)
      show "file_map g' ?i' n = 0 \<or> file_map g' ?i' n \<in> file_blocks g' ?i'" unfolding file_blocks_def by blast
    qed
    show "file_map g' ?i' n < nb" using f(5) [of n] nb by (simp add: fm)
    show "file_map g' ?i' n \<noteq> sfi_indirect ?i'" if "file_map g' ?i' n \<noteq> 0" using that f(3) [of n] x(2) unfolding ind fm by (auto split: if_splits)
  next
    show "inj_on (file_map g' ?i') {n. file_map g' ?i' n \<noteq> 0}" unfolding inj_on_def fm using f(2) by (auto split: if_splits)
  qed
  then show ?thesis using fm free g' unfolding trunc_result_def by (simp add: x(1) i1)
qed

context good_card
begin

lemma trunc_direct_at:
  assumes "sfs_at ready sectors C nsect D K f s0 U g I s" and "sfs_of sv s0 = f" and "blocks_in U (sb_nblocks (sfs_sb (fs_state s0) f)) (sfi_direct (I sv))"
    and "\<forall>k\<in>set is. k < length (sfi_direct (I sv))"
  shows "\<exists>s'. trunc_direct sv bl is s = Some s' \<and> sfs_at ready sectors C nsect D K f s0 (U - zapped {k \<in> set is. bl \<le> k} (sfi_direct (I sv))) g
      (I(sv := (I sv)\<lparr>sfi_direct := zap {k \<in> set is. bl \<le> k} (sfi_direct (I sv))\<rparr>)) s'"
  using assms
proof (induction "is" arbitrary: U I s)
  case Nil
  then show ?case by simp
next
  case (Cons k "is")
  let ?ds = "sfi_direct (I sv)"
  have I: "sv_i (fs_state s) = I" using Cons.prems(1) by (simp add: sfs_at_def)
  have fs: "sfs_of sv s = f" using at_fs [OF Cons.prems(1)] Cons.prems(2) by simp
  have k: "k < length ?ds" using Cons.prems(4) by simp
  show ?case
  proof (cases "bl \<le> k \<and> ?ds ! k \<noteq> 0")
    case True
    have b: "?ds ! k \<in> U" "?ds ! k < sb_nblocks (sfs_sb (fs_state s0) f)" using Cons.prems(3) k True by (simp_all add: blocks_in_def)
    obtain s1 where s1: "sfs_bfree f (?ds ! k) s = Some s1" "sfs_at ready sectors C nsect D K f s0 (U - {?ds ! k}) g I s1"
      by (rule bfree_at [OF Cons.prems(1) b(1) _ b(2)]) (use True in simp)
    let ?h = "\<lambda>i. i\<lparr>sfi_direct := (sfi_direct i)[k := 0]\<rparr>"
    let ?I = "I(sv := ?h (I sv))"
    have e: "{j \<in> set (k # is). bl \<le> j} = insert k {j \<in> set is. bl \<le> j}" using True by auto
    have ih: "\<exists>s'. trunc_direct sv bl is (set_inode sv ?h s1) = Some s' \<and> sfs_at ready sectors C nsect D K f s0
        (U - {?ds ! k} - zapped {k \<in> set is. bl \<le> k} (sfi_direct (?I sv))) g
        (?I(sv := (?I sv)\<lparr>sfi_direct := zap {k \<in> set is. bl \<le> k} (sfi_direct (?I sv))\<rparr>)) s'"
      by (rule Cons.IH [OF set_inode_at [OF s1(2)] Cons.prems(2)])
        (use blocks_in_update [OF Cons.prems(3) k] Cons.prems(4) in simp_all)
    have c: "trunc_direct sv bl (k # is) s = trunc_direct sv bl is (set_inode sv ?h s1)"
      using True s1(1) by (simp add: I fs Let_def)
    have u: "U - {?ds ! k} - zapped {j \<in> set is. bl \<le> j} (sfi_direct (?I sv)) = U - zapped (insert k {j \<in> set is. bl \<le> j}) ?ds"
      using zapped_update [OF Cons.prems(3) k, of "{j \<in> set is. bl \<le> j}"] True by auto
    have i: "?I(sv := (?I sv)\<lparr>sfi_direct := zap {j \<in> set is. bl \<le> j} (sfi_direct (?I sv))\<rparr>)
        = I(sv := (I sv)\<lparr>sfi_direct := zap (insert k {j \<in> set is. bl \<le> j}) ?ds\<rparr>)"
      using zap_update [OF k] by simp
    show ?thesis using ih unfolding e c u i .
  next
    case False
    have e: "{j \<in> set (k # is). bl \<le> j} = (if bl \<le> k then insert k {j \<in> set is. bl \<le> j} else {j \<in> set is. bl \<le> j})" by auto
    have "zap {j \<in> set (k # is). bl \<le> j} ?ds = zap {j \<in> set is. bl \<le> j} ?ds" "zapped {j \<in> set (k # is). bl \<le> j} ?ds = zapped {j \<in> set is. bl \<le> j} ?ds"
      unfolding e using False zap_zero [OF k] zapped_zero [of ?ds k] by simp_all
    moreover have "trunc_direct sv bl (k # is) s = trunc_direct sv bl is s" using False by (auto simp: I Let_def)
    ultimately show ?thesis using Cons.IH [OF Cons.prems(1-3)] Cons.prems(4) by simp
  qed
qed

lemma trunc_words_at:
  assumes "sfs_at ready sectors C nsect D K f s0 U g I s" and "blocks_in U (sb_nblocks (sfs_sb (fs_state s0) f)) ws"
  shows "\<exists>s'. trunc_words f bl at ws s = Some (zap {k. bl < at + k} ws, \<exists>w\<in>set (zap {k. bl < at + k} ws). w \<noteq> 0, zapped {k. bl < at + k} ws \<noteq> {}, s')
     \<and> sfs_at ready sectors C nsect D K f s0 (U - zapped {k. bl < at + k} ws) g I s'"
  using assms
proof (induction ws arbitrary: at U s)
  case Nil
  then show ?case by (simp add: zap_def zapped_def)
next
  case (Cons w ws)
  let ?A = "{k. bl < Suc at + k}"
  show ?case
  proof (cases "bl < at \<and> w \<noteq> 0")
    case True
    have b: "w \<in> U" "w < sb_nblocks (sfs_sb (fs_state s0) f)" "blocks_in (U - {w}) (sb_nblocks (sfs_sb (fs_state s0) f)) ws"
      using blocks_in_Cons(2) [OF Cons.prems(2)] True by simp_all
    obtain s1 where s1: "sfs_bfree f w s = Some s1" "sfs_at ready sectors C nsect D K f s0 (U - {w}) g I s1"
      by (rule bfree_at [OF Cons.prems(1) b(1) _ b(2)]) (use True in simp)
    obtain s' where s': "trunc_words f bl (Suc at) ws s1 = Some (zap ?A ws, \<exists>w\<in>set (zap ?A ws). w \<noteq> 0, zapped ?A ws \<noteq> {}, s')"
        "sfs_at ready sectors C nsect D K f s0 (U - {w} - zapped ?A ws) g I s'"
      using Cons.IH [OF s1(2) b(3), of "Suc at"] by blast
    have "U - {w} - zapped ?A ws = U - zapped {k. bl < at + k} (w # ws)" unfolding zapped_Cons using True by auto
    moreover have "trunc_words f bl at (w # ws) s = Some (0 # zap ?A ws, \<exists>w\<in>set (zap ?A ws). w \<noteq> 0, True, s')"
      using True s1(1) s'(1) by simp
    moreover have "zap {k. bl < at + k} (w # ws) = 0 # zap ?A ws" "zapped {k. bl < at + k} (w # ws) \<noteq> {}"
      unfolding zap_Cons zapped_Cons using True by simp_all
    ultimately show ?thesis using s'(2) by auto
  next
    case False
    obtain s' where s': "trunc_words f bl (Suc at) ws s = Some (zap ?A ws, \<exists>w\<in>set (zap ?A ws). w \<noteq> 0, zapped ?A ws \<noteq> {}, s')"
        "sfs_at ready sectors C nsect D K f s0 (U - zapped ?A ws) g I s'"
      using Cons.IH [OF Cons.prems(1) blocks_in_Cons(1) [OF Cons.prems(2)], of "Suc at"] by blast
    have "zapped {k. bl < at + k} (w # ws) = zapped ?A ws" "zap {k. bl < at + k} (w # ws) = w # zap ?A ws"
      unfolding zapped_Cons zap_Cons using False by auto
    moreover have "trunc_words f bl at (w # ws) s = Some (w # zap ?A ws, w \<noteq> 0 \<or> (\<exists>w\<in>set (zap ?A ws). w \<noteq> 0), zapped ?A ws \<noteq> {}, s')"
      using False s'(1) by auto
    ultimately show ?thesis using s'(2) by simp
  qed
qed

lemma trunc_indirect_at:
  assumes at: "sfs_at ready sectors C nsect D K f s0 U g I s" and f: "sfs_of sv s0 = f" and nb: "nb = sb_nblocks (sfs_sb (fs_state s0) f)"
    and i: "sfi_indirect (I sv) \<noteq> 0 \<Longrightarrow> blocks_in U nb (block_words (g (sfi_indirect (I sv)))) \<and> sfi_indirect (I sv) \<in> U \<and> sfi_indirect (I sv) < nb
      \<and> sfi_indirect (I sv) \<notin> set (block_words (g (sfi_indirect (I sv))))"
  obtains U' g' i' s' where "trunc_indirect D K sv bl s = Some (Inr (), s')" "sfs_at ready sectors C nsect D K f s0 U' g' (I(sv := i')) s'"
    "indirect_cut bl U g (I sv) U' g' i'"
proof -
  let ?id = "sfi_indirect (I sv)" and ?A = "{k. bl < SFS_NDIRECT + k}"
  let ?ws = "block_words (g ?id)"
  have I: "sv_i (fs_state s) = I" using at by (simp add: sfs_at_def)
  show thesis
  proof (cases "bl < SFS_NDIRECT + SFS_DBPERIDB - 1 \<and> ?id \<noteq> 0")
    case False
    then have "trunc_indirect D K sv bl s = Some (Inr (), s)" by (auto simp: trunc_indirect_def Let_def I)
    moreover have "file_map g (I sv) n = 0" if "SFS_NDIRECT \<le> n" "bl < n" for n using that False by (auto simp: file_map_def)
    then have "indirect_cut bl U g (I sv) U g (I sv)" by (rule cut_id)
    ultimately show thesis using at by (intro that [of _ U g "I sv"]) simp_all
  next
    case True
    then have id: "blocks_in U nb ?ws" "?id \<in> U" "?id < nb" "?id \<notin> set ?ws" "?id \<noteq> 0" using i by simp_all
    obtain s1 where s1: "sfs_readblock D (K Idbuf_trunc) f ?id s = Some (Inr (g ?id), s1)" "sfs_at ready sectors C nsect D K f s0 U g I s1"
      by (rule read_at [OF at]) (use id(3) nb in auto)
    obtain s2 where s2: "trunc_words f bl SFS_NDIRECT ?ws s1 = Some (zap ?A ?ws, \<exists>w\<in>set (zap ?A ?ws). w \<noteq> 0, zapped ?A ?ws \<noteq> {}, s2)"
        "sfs_at ready sectors C nsect D K f s0 (U - zapped ?A ?ws) g I s2"
      using trunc_words_at [OF s1(2), of ?ws bl SFS_NDIRECT] id(1) nb by blast
    have fs: "sfs_of sv s = f" "sfs_of sv s1 = f" "sfs_of sv s2 = f" using at_fs [OF at] at_fs [OF s1(2)] at_fs [OF s2(2)] f by simp_all
    define nz where "nz = (\<exists>w\<in>set (zap ?A ?ws). w \<noteq> 0)"
    have call: "trunc_indirect D K sv bl s = (if \<not> nz then do {
               s \<leftarrow> sfs_bfree f ?id s2;
               Some (Inr (), set_inode sv (\<lambda>i. i\<lparr>sfi_indirect := 0\<rparr>) s) }
             else if zapped ?A ?ws \<noteq> {} then sfs_writeblock D (K Idbuf_trunc) f ?id (words_block (zap ?A ?ws)) s2
             else Some (Inr (), s2))"
      using True s1(1) s2(1) [folded nz_def] by (simp add: trunc_indirect_def on_ok_def Let_def I fs)
    consider (drop) "\<forall>w\<in>set (zap ?A ?ws). w = 0" | (dirty) "\<exists>w\<in>set (zap ?A ?ws). w \<noteq> 0" "zapped ?A ?ws \<noteq> {}"
      | (clean) "\<exists>w\<in>set (zap ?A ?ws). w \<noteq> 0" "zapped ?A ?ws = {}" by blast
    then show thesis
    proof cases
      case drop
      have "zapped ?A ?ws \<subseteq> set ?ws" unfolding zapped_def by auto
      then have u: "?id \<in> U - zapped ?A ?ws" using id(2,4) by blast
      obtain s3 where s3: "sfs_bfree f ?id s2 = Some s3" "sfs_at ready sectors C nsect D K f s0 (U - zapped ?A ?ws - {?id}) g I s3"
        by (rule bfree_at [OF s2(2) u id(5)]) (use id(3) nb in auto)
      have "trunc_indirect D K sv bl s = Some (Inr (), set_inode sv (\<lambda>i. i\<lparr>sfi_indirect := 0\<rparr>) s3)" using drop s3(1) by (simp add: call nz_def)
      then show thesis using set_inode_at [OF s3(2)] cut_drop [where g = g, OF id(5) drop] by (rule that)
    next
      case dirty
      obtain s3 where s3: "sfs_writeblock D (K Idbuf_trunc) f ?id (words_block (zap ?A ?ws)) s2 = Some (Inr (), s3)"
          "sfs_at ready sectors C nsect D K f s0 (U - zapped ?A ?ws) (g(?id := words_block (zap ?A ?ws))) I s3"
        by (rule write_at [OF s2(2), of ?id "words_block (zap ?A ?ws)" Idbuf_trunc]) (use id(3) nb in simp_all)
      have "trunc_indirect D K sv bl s = Some (Inr (), s3)" using dirty s3(1) by (auto simp: call nz_def)
      then show thesis using s3(2) cut_write [OF id(5)] by (intro that [of _ _ _ "I sv"]) simp_all
    next
      case clean
      have c: "trunc_indirect D K sv bl s = Some (Inr (), s2)" using clean by (auto simp: call nz_def)
      have i: "indirect_cut bl U g (I sv) U g (I sv)"
      proof (rule cut_id)
        have "cut_blocks bl g (I sv) = {}" using clean(2) unfolding map_zapped [OF id(5)] .
        then show "file_map g (I sv) n = 0" if "SFS_NDIRECT \<le> n" "bl < n" for n using that unfolding cut_blocks_def by blast
      qed
      have "sfs_at ready sectors C nsect D K f s0 U g (I(sv := I sv)) s2" using s2(2) unfolding clean(2) by simp
      then show thesis by (rule that [OF c _ i])
    qed
  qed
qed

lemma itrunc_at:
  assumes at: "sfs_at ready sectors C nsect D K f s0 U g I s" and f: "sfs_of sv s0 = f" and ok: "file_ok nb U g (I sv)"
    and nb: "nb = sb_nblocks (sfs_sb (fs_state s0) f)"
  obtains U' g' i' s' where "do { s \<leftarrow> trunc_direct sv bl [0..<SFS_NDIRECT] s; on_ok (trunc_indirect D K sv bl) (\<lambda>_ s. Some (Inr (), set_inode sv (\<lambda>i. i\<lparr>sfi_size := len\<rparr>) s)) s } = Some (Inr (), s')"
    "sfs_at ready sectors C nsect D K f s0 U' g' (I(sv := i')) s'" "trunc_result nb bl len U g (I sv) U' g' i'"
proof -
  let ?i = "I sv" and ?A = "{k \<in> {..<SFS_NDIRECT}. bl \<le> k}"
  let ?i1 = "?i\<lparr>sfi_direct := zap ?A (sfi_direct ?i)\<rparr>"
  let ?I1 = "I(sv := ?i1)"
  have l: "length (sfi_direct ?i) = SFS_NDIRECT" using ok by (simp add: file_ok_def)
  obtain Z where Z: "Z = {file_map g ?i n | n. n < SFS_NDIRECT \<and> bl \<le> n \<and> file_map g ?i n \<noteq> 0}" "zapped ?A (sfi_direct ?i) = Z"
    using direct_zapped [OF l] by blast
  have e: "{k \<in> set [0..<SFS_NDIRECT]. bl \<le> k} = ?A" by auto
  have "blocks_in U (sb_nblocks (sfs_sb (fs_state s0) f)) (sfi_direct ?i)" using file_ok_blocks(1) [OF ok] nb by simp
  then obtain s1 where s1: "trunc_direct sv bl [0..<SFS_NDIRECT] s = Some s1" "sfs_at ready sectors C nsect D K f s0 (U - Z) g ?I1 s1"
    using trunc_direct_at [OF at f, of "[0..<SFS_NDIRECT]" bl] l f unfolding e Z(2) by auto
  have pre: "sfi_indirect (?I1 sv) \<noteq> 0 \<Longrightarrow> blocks_in (U - Z) nb (block_words (g (sfi_indirect (?I1 sv)))) \<and> sfi_indirect (?I1 sv) \<in> U - Z \<and> sfi_indirect (?I1 sv) < nb
      \<and> sfi_indirect (?I1 sv) \<notin> set (block_words (g (sfi_indirect (?I1 sv))))"
    using file_ok_indirect [OF ok _ Z(1)] ok by (simp add: file_ok_def)
  obtain U' g' i2 s2 where s2: "trunc_indirect D K sv bl s1 = Some (Inr (), s2)" "sfs_at ready sectors C nsect D K f s0 U' g' (?I1(sv := i2)) s2"
      "indirect_cut bl (U - Z) g (?I1 sv) U' g' i2"
    by (rule trunc_indirect_at [OF s1(2) f nb pre])
  let ?i' = "i2\<lparr>sfi_size := len\<rparr>"
  have at': "sfs_at ready sectors C nsect D K f s0 U' g' (I(sv := ?i')) (set_inode sv (\<lambda>i. i\<lparr>sfi_size := len\<rparr>) s2)"
    using set_inode_at [OF s2(2), of sv "\<lambda>i. i\<lparr>sfi_size := len\<rparr>"] by simp
  have tr: "trunc_result nb bl len U g ?i U' g' ?i'"
    by (rule trunc_combine [OF ok Z(1) at_zero [OF at] refl]) (use s2(3) in simp)
  show thesis by (rule that [OF _ at' tr]) (use s1(1) s2(1) in \<open>simp add: on_ok_def\<close>)
qed

end

section \<open>Properties\<close>

text \<open>
  C9: on a disk that works, \<open>sfs_bmap\<close> returns, and nothing panics, if every block of the file is a used block of the disk
  and has one use.  It maps block \<open>n\<close> of the file and no other: a block that is there is found; one that is
  not is 0, or is allocated if the caller asks for that, from the blocks that are free, full of zeros.  What any
  other used block of the disk holds stays, so no other file is touched, and every block that it takes
  belongs to the file.  It fails with EFBIG beyond the indirect block and with ENOSPC when no block is free.
\<close>

theorem sfs_bmap_maps:
  assumes "good_card C sectors nsect ready" and "sfs_ok ready C nsect D K f U s" and "sfs_of sv s = f"
    and "nb = sb_nblocks (sfs_sb (fs_state s) f)" and "file_ok nb U (secs sectors f s) (sv_i (fs_state s) sv)"
  shows "\<exists>r U' s'. sfs_bmap D K sv n doalloc s = Some (r, s') \<and> sfs_ok ready C nsect D K f U' s'
    \<and> bmap_result nb n doalloc U (secs sectors f s) (sv_i (fs_state s) sv) r U' (secs sectors f s') (sv_i (fs_state s') sv)
    \<and> (\<forall>v. v \<noteq> sv \<longrightarrow> sv_i (fs_state s') v = sv_i (fs_state s) v) \<and> io_step s s'"
proof -
  let ?g = "secs sectors f s" and ?I = "sv_i (fs_state s)"
  have at: "sfs_at ready sectors C nsect D K f s U ?g ?I s" using assms(2) by (simp add: sfs_at_def)
  obtain r U' g' i' s' where r: "sfs_bmap D K sv n doalloc s = Some (r, s')"
      "sfs_at ready sectors C nsect D K f s U' g' (?I(sv := i')) s'" "bmap_result nb n doalloc U ?g (?I sv) r U' g' i'"
    by (rule good_card.bmap_at [OF assms(1) at assms(3,5,4)])
  then show ?thesis by (intro exI [of _ r] exI [of _ U'] exI [of _ s']) (simp add: sfs_at_def)
qed

text \<open>
  A file system of eight blocks: 0 is the superblock, and the file of vnode 70 has the indirect block 2 with
  one entry, so that its block 15 is block 3 of the disk.
\<close>

definition boot_sfs_data :: "platter sfs" where
  "boot_sfs_data = \<lparr>lh_hw = \<lambda>_. \<lparr>pl_sect = \<lambda>k. if k = 2 then words_block (3 # replicate 127 0) else replicate 512 7, pl_bad = {}, pl_at = 0, pl_stat = 0\<rparr>,
     lh_result = \<lambda>_. None, lh_buf = \<lambda>_. 3221225472, lh_clear = \<lambda>_. 41, lh_done = \<lambda>_. 42,
     sv_i = \<lambda>_. \<lparr>sfi_size = 8192, sfi_type = 1, sfi_linkcount = 1, sfi_direct = replicate 15 0, sfi_indirect = 2, sfi_waste = []\<rparr>,
     sv_ino = \<lambda>_. 1, sv_dirty = \<lambda>_. False,
     sfs_sb = \<lambda>_. \<lparr>sb_magic = 0, sb_nblocks = 8, sb_volname = [], sb_reserved = []\<rparr>, sfs_superdirty = \<lambda>_. False, sfs_device = \<lambda>_. 5,
     sfs_vnodes = \<lambda>_. \<lparr>a_at = 0, a_v = 0, a_num = 0, a_max = 0, a_cells = []\<rparr>,
     sfs_freemap = \<lambda>_. Some (set_bit_at (set_bit_at (set_bit_at (fresh_bitmap 48 49 8) 0) 2) 3), sfs_freemapdirty = \<lambda>_. False\<rparr>"

definition boot_sfs :: "(platter, unit, unit) sfs_state" where
  "boot_sfs = (vnodes.extend (sync.extend boot_sync (vnodes.fields (\<lambda>_. 0) (\<lambda>_. 60) (\<lambda>_. 0) (\<lambda>_. 0) boot_sfs_data {}
       \<lparr>bytes = \<lambda>_. 7, readable = \<lambda>_. True, writable = \<lambda>_. True, tm_badfaultfunc = False, current_as = 0\<rparr>))
     (vfs.fields (\<lambda>_. 0) 0 40 1 \<lparr>a_at = 24, a_v = 25, a_num = 0, a_max = 0, a_cells = []\<rparr>
       (\<lambda>_. []) (\<lambda>_. None) (\<lambda>_. 0) (\<lambda>_. 0) (\<lambda>_. 0) (\<lambda>_. 1)))\<lparr>sem_count := \<lambda>x. if x = 41 then 1 else 0, lk_holder := \<lambda>_. 10\<rparr>"

definition boot_disks :: "(platter, unit, unit) sfs_devs" where
  "boot_disks = (\<lambda>_. lhd_device (u32 8) (sim_card 8))"

definition boot_bufs :: "kbuf \<Rightarrow> nat" where
  "boot_bufs = (\<lambda>_. 2147487744)"

lemma boot_sfs_sel:
  "fs_state boot_sfs = boot_sfs_data" "vfs_biglock boot_sfs = 40" "vfs_biglock_depth boot_sfs = 1" "vn_fs boot_sfs v = 60"
  "lk_holder boot_sfs l = 10" "curthread boot_sfs = 10" "sem_count boot_sfs x = (if x = 41 then 1 else 0)" "t_in_interrupt boot_sfs t = False"
  by (simp_all add: boot_sfs_def vnodes.defs sync.defs vfs.defs boot_fields)

lemma boot_sfs_idle: "sem_idle boot_sfs x n \<longleftrightarrow> x \<noteq> 0 \<and> n = (if x = 41 then 1 else 0)"
proof -
  have "on_list boot_sync (Wchan w) []" for w by (simp add: boot_sync_def all_empty_lists)
  then have "on_list boot_sfs (Wchan w) []" for w
    using on_list_cong [of boot_sfs boot_sync] by (simp add: boot_sfs_def vnodes.defs sync.defs vfs.defs)
  then show ?thesis by (auto simp: sem_idle_def boot_sfs_sel)
qed

lemma boot_sfs_ok: "sfs_ok (sim_good 8) (sim_card 8) (u32 8) boot_disks boot_bufs 60 {0, 2, 3} boot_sfs"
proof -
  let ?b = "fresh_bitmap 48 49 8"
  have b: "bitmap_inv ?b" "Bitmap.used ?b = {}" using fresh_bitmap_ok [of 8 48 49] by simp_all
  have n: "nbits (set_bit_at c k) = nbits c" for c k by (simp add: set_bit_at_def)
  have "bitmap_inv (set_bit_at (set_bit_at (set_bit_at ?b 0) 2) 3)" "Bitmap.used (set_bit_at (set_bit_at (set_bit_at ?b 0) 2) 3) = {0, 2, 3}"
    using b by (auto simp: bitmap_inv_set used_set n)
  moreover have "sim_good 8 (lh_hw boot_sfs_data 5)" by (simp add: sim_good_def sim_ready_def boot_sfs_data_def)
  ultimately show ?thesis
    by (simp add: sfs_ok_def sfs_disk_def lhd_up_def boot_sfs_sel boot_sfs_idle boot_disks_def boot_bufs_def n
        vfs_biglock_do_i_hold_def lock_do_i_hold_def boot_sfs_data_def u32_def USERSPACETOP_def subset_iff)
qed

lemma boot_sfs_map:
  "file_map (secs pl_sect 60 boot_sfs) (sv_i (fs_state boot_sfs) 70) n = (if n = 15 then 3 else 0)"
proof -
  have "block_words (words_block (3 # replicate 127 0)) = 3 # replicate 127 0" by (rule block_words_block) simp_all
  then have w: "block_words (secs pl_sect 60 boot_sfs 2) = 3 # replicate 127 0" by (simp add: secs_def boot_sfs_sel boot_sfs_data_def)
  have i: "sfi_direct (sv_i (fs_state boot_sfs) 70) = replicate 15 0" "sfi_indirect (sv_i (fs_state boot_sfs) 70) = 2"
    by (simp_all add: boot_sfs_sel boot_sfs_data_def)
  show ?thesis by (auto simp: file_map_def i w SFS_NDIRECT_def SFS_DBPERIDB_def nth_Cons')
qed

lemma boot_sfs_file: "file_ok 8 {0, 2, 3} (secs pl_sect 60 boot_sfs) (sv_i (fs_state boot_sfs) 70)"
proof -
  have i: "sfi_direct (sv_i (fs_state boot_sfs) 70) = replicate 15 0" "sfi_indirect (sv_i (fs_state boot_sfs) 70) = 2"
    by (simp_all add: boot_sfs_sel boot_sfs_data_def)
  show ?thesis unfolding file_ok_def boot_sfs_map i by (auto simp: SFS_NDIRECT_def inj_on_def)
qed

lemma boot_sfs_pre: "sfs_of 70 boot_sfs = 60" "8 = sb_nblocks (sfs_sb (fs_state boot_sfs) 60)"
  by (simp_all add: sfs_of_def boot_sfs_sel boot_sfs_data_def)

lemma sfs_bmap_maps_witness:
  "\<exists>r U' s'. sfs_bmap boot_disks boot_bufs 70 16 True boot_sfs = Some (r, s')
     \<and> bmap_result 8 16 True {0, 2, 3} (secs pl_sect 60 boot_sfs) (sv_i (fs_state boot_sfs) 70) r U' (secs pl_sect 60 s') (sv_i (fs_state s') 70)"
  using sfs_bmap_maps [OF simg.good_card_axioms boot_sfs_ok boot_sfs_pre boot_sfs_file, of 16 True] by blast

text \<open>The two loops of \<open>sfs_itrunc\<close> with the big lock held, and the lock around them.\<close>

definition itrunc_work :: "('h, 'x, 'a) sfs_devs \<Rightarrow> (kbuf \<Rightarrow> nat) \<Rightarrow> addr \<Rightarrow> nat \<Rightarrow> nat \<Rightarrow> (('h, 'x, 'a) sfs_state, unit) call" where
  "itrunc_work D K sv blocklen n s = do {
     s \<leftarrow> trunc_direct sv blocklen [0..<SFS_NDIRECT] s;
     on_ok (trunc_indirect D K sv blocklen) (\<lambda>_ s. Some (Inr (), set_inode sv (\<lambda>i. i\<lparr>sfi_size := n\<rparr>) s)) s }"

lemma sfs_itrunc_work:
  assumes "0 \<le> len" and "len < 2 ^ 32"
  shows "sfs_itrunc D K sv len s = biglocked (itrunc_work D K sv (nat ((len + 511) div 512)) (nat len)) s"
proof -
  have "nat (((len + int SFS_BLOCKSIZE - 1) sdiv int SFS_BLOCKSIZE) mod 2 ^ 32) = nat ((len + 511) div 512)" "len mod 2 ^ 32 = len"
    using assms by (simp_all add: SFS_BLOCKSIZE_def signed_divide_int_eq_divide_int)
  then show ?thesis by (simp add: sfs_itrunc_def itrunc_work_def [abs_def] Let_def)
qed

lemma biglocked_held:
  fixes s :: "('d, 'a) vfs_scheme"
  assumes held: "vfs_biglock_do_i_hold s = Some True" and d: "0 < vfs_biglock_depth s" "vfs_biglock_depth s < 4294967295"
    and f: "f (s\<lparr>vfs_biglock_depth := vfs_biglock_depth s + 1\<rparr>) = Some (r, s1)" and st: "io_step (s\<lparr>vfs_biglock_depth := vfs_biglock_depth s + 1\<rparr>) s1"
  obtains s' where "biglocked f s = Some (r, s')" "io_step s s'" "s1 = s'\<lparr>vfs_biglock_depth := vfs_biglock_depth s + 1\<rparr>"
proof -
  let ?d = "vfs_biglock_depth s"
  let ?s' = "s1\<lparr>vfs_biglock_depth := ?d\<rparr>"
  obtain e m where m: "s1 = s\<lparr>vfs_biglock_depth := ?d + 1, fs_state := e, user_mem := m\<rparr>" "same_access (user_mem s) m" "\<forall>a<USERSPACETOP. bytes m a = bytes (user_mem s) a"
    using st unfolding io_step_def by auto
  have "vfs_biglock_acquire s = Some (s\<lparr>vfs_biglock_depth := ?d + 1\<rparr>)"
    using held d by (simp add: vfs_biglock_acquire_def vfs_biglock_do_i_hold_def u32_def)
  moreover have "vfs_biglock_release s1 = Some ?s'"
    using io_step_held [OF st] held d by (simp add: vfs_biglock_release_def vfs_biglock_do_i_hold_def lock_do_i_hold_def split: if_splits)
  ultimately have "biglocked f s = Some (r, ?s')" using f by (simp add: biglocked_def)
  moreover have "?s' = s\<lparr>fs_state := e, user_mem := m\<rparr>" unfolding m(1) by simp
  then have "io_step s ?s'" using m(2,3) unfolding io_step_def by blast
  ultimately show thesis using that m(1) by simp
qed

lemma biglocked_unheld:
  fixes s :: "('d, 'a) vfs_scheme"
  assumes idle: "lock_idle s (vfs_biglock s)" and d: "vfs_biglock_depth s = 0"
    and f: "f (entered s) = Some (r, s1)" and st: "io_step (entered s) s1"
  obtains s' where "biglocked f s = Some (r, s')" "io_step s s'" "s1 = entered s'"
proof -
  let ?bl = "vfs_biglock s"
  obtain e m where m: "s1 = (entered s)\<lparr>fs_state := e, user_mem := m\<rparr>" "same_access (user_mem s) m" "\<forall>a<USERSPACETOP. bytes m a = bytes (user_mem s) a"
    using st unfolding io_step_def by (auto simp: entered_def taken_def)
  let ?s' = "s\<lparr>fs_state := e, user_mem := m\<rparr>"
  have s1: "s1 = entered ?s'" unfolding m(1) by (simp add: entered_def taken_def)
  have idle': "lock_idle ?s' ?bl" using idle on_list_cong [of ?s' s] by (simp add: lock_idle_def)
  have z: "s1\<lparr>vfs_biglock_depth := 0\<rparr> = taken ?bl ?s'"
    unfolding s1 using d by (cases s) (simp add: entered_def taken_def)
  have "vfs_biglock_release s1 = lock_release ?bl (taken ?bl ?s')"
    using idle' unfolding z [symmetric] by (simp add: s1 vfs_biglock_release_def lock_do_i_hold_def entered_def taken_def lock_idle_def)
  also have "\<dots> = Some ?s'" using lk.leave [OF lk.mine_take [OF idle']] lk.drop_take [OF idle'] by simp
  finally have "biglocked f s = Some (r, ?s')" using f biglock_enter [OF idle d] by (simp add: biglocked_def)
  moreover have "io_step s ?s'" using m(2,3) unfolding io_step_def by blast
  ultimately show thesis using that s1 by blast
qed

lemma itrunc_work_ok:
  assumes "good_card C sectors nsect ready" and "sfs_ok ready C nsect D K f U s" and "sfs_of sv s = f"
    and "nb = sb_nblocks (sfs_sb (fs_state s) f)" and "file_ok nb U (secs sectors f s) (sv_i (fs_state s) sv)"
  shows "\<exists>U' s'. itrunc_work D K sv bl n s = Some (Inr (), s') \<and> sfs_ok ready C nsect D K f U' s'
    \<and> trunc_result nb bl n U (secs sectors f s) (sv_i (fs_state s) sv) U' (secs sectors f s') (sv_i (fs_state s') sv)
    \<and> (\<forall>v. v \<noteq> sv \<longrightarrow> sv_i (fs_state s') v = sv_i (fs_state s) v) \<and> io_step s s'"
proof -
  have at: "sfs_at ready sectors C nsect D K f s U (secs sectors f s) (sv_i (fs_state s)) s" using assms(2) by (simp add: sfs_at_def)
  obtain U' g' i' s' where r: "do { s \<leftarrow> trunc_direct sv bl [0..<SFS_NDIRECT] s; on_ok (trunc_indirect D K sv bl) (\<lambda>_ s. Some (Inr (), set_inode sv (\<lambda>i. i\<lparr>sfi_size := n\<rparr>) s)) s } = Some (Inr (), s')"
      "sfs_at ready sectors C nsect D K f s U' g' ((sv_i (fs_state s))(sv := i')) s'" "trunc_result nb bl n U (secs sectors f s) (sv_i (fs_state s) sv) U' g' i'"
    by (rule good_card.itrunc_at [OF assms(1) at assms(3,5,4)])
  then show ?thesis by (auto simp: itrunc_work_def sfs_at_def)
qed

text \<open>
  C10: on a disk that works, for a length from 0 to 2^32 - 1, and with the big lock held by the caller or
  free (then \<open>entered s\<close> is the state with the lock), \<open>sfs_itrunc\<close> returns 0, and nothing panics: the file has the size \<open>len\<close>, the map has
  the entries below the number of blocks of that size, rounded up, the blocks that the file has given up are free, and no others,
  and every other used block of the disk holds what it held.  In the indirect block it keeps one entry
  more, the one just after the end: \<open>sfs_itrunc\<close> has \<open><\<close> where \<open>\<le>\<close> is meant, so that a file
  that grows again shows its old contents there.  The lock is afterwards as it was before.
\<close>

theorem sfs_itrunc_cuts:
  assumes "good_card C sectors nsect ready" and "t = (if vfs_biglock_depth s = 0 then entered s else s)" and "sfs_ok ready C nsect D K f U t"
    and "sfs_of sv s = f" and "nb = sb_nblocks (sfs_sb (fs_state s) f)" and "file_ok nb U (secs sectors f s) (sv_i (fs_state s) sv)"
    and "vfs_biglock_depth s = 0 \<Longrightarrow> lock_idle s (vfs_biglock s)" and "vfs_biglock_depth s < 4294967295" and "0 \<le> len" and "len < 2 ^ 32"
  shows "\<exists>U' s'. sfs_itrunc D K sv len s = Some (Inr (), s') \<and> sfs_ok ready C nsect D K f U' (if vfs_biglock_depth s = 0 then entered s' else s')
    \<and> trunc_result nb (nat ((len + 511) div 512)) (nat len) U (secs sectors f s) (sv_i (fs_state s) sv) U' (secs sectors f s') (sv_i (fs_state s') sv)
    \<and> (\<forall>v. v \<noteq> sv \<longrightarrow> sv_i (fs_state s') v = sv_i (fs_state s) v) \<and> io_step s s'"
proof -
  let ?w = "itrunc_work D K sv (nat ((len + 511) div 512)) (nat len)"
  note go = sfs_itrunc_work [OF assms(9,10), of D K sv s]
  show ?thesis
  proof (cases "vfs_biglock_depth s = 0")
    case True
    have e: "fs_state (entered s) = fs_state s" "sfs_of sv (entered s) = sfs_of sv s" "secs sectors f (entered s) = secs sectors f s" for s
      by (simp_all add: entered_def taken_def sfs_of_def secs_def)
    obtain U' s1 where r: "?w (entered s) = Some (Inr (), s1)" "sfs_ok ready C nsect D K f U' s1"
        "trunc_result nb (nat ((len + 511) div 512)) (nat len) U (secs sectors f s) (sv_i (fs_state s) sv) U' (secs sectors f s1) (sv_i (fs_state s1) sv)"
        "\<forall>v. v \<noteq> sv \<longrightarrow> sv_i (fs_state s1) v = sv_i (fs_state s) v" "io_step (entered s) s1"
      using itrunc_work_ok [OF assms(1), of D K f U "entered s" sv nb "nat ((len + 511) div 512)" "nat len"] assms(2-6) True by (auto simp: e)
    obtain s' where "biglocked ?w s = Some (Inr (), s')" "io_step s s'" "s1 = entered s'"
      by (rule biglocked_unheld [where f = ?w, OF assms(7) [OF True] True r(1,5)])
    then show ?thesis using r(2-4) True go by (auto simp: e)
  next
    case False
    let ?s = "s\<lparr>vfs_biglock_depth := vfs_biglock_depth s + 1\<rparr>"
    have e: "fs_state (s\<lparr>vfs_biglock_depth := d\<rparr>) = fs_state s" "sfs_of sv (s\<lparr>vfs_biglock_depth := d\<rparr>) = sfs_of sv s"
        "secs sectors f (s\<lparr>vfs_biglock_depth := d\<rparr>) = secs sectors f s"
        "sfs_ok ready C nsect D K f U' (s\<lparr>vfs_biglock_depth := d\<rparr>) = sfs_ok ready C nsect D K f U' s" for s d U'
      by (simp_all add: sfs_of_def secs_def sfs_ok_def sfs_disk_depth)
    have held: "vfs_biglock_do_i_hold s = Some True" using assms(2,3) False by (simp add: sfs_ok_def sfs_disk_def Let_def)
    obtain U' s1 where r: "?w ?s = Some (Inr (), s1)" "sfs_ok ready C nsect D K f U' s1"
        "trunc_result nb (nat ((len + 511) div 512)) (nat len) U (secs sectors f s) (sv_i (fs_state s) sv) U' (secs sectors f s1) (sv_i (fs_state s1) sv)"
        "\<forall>v. v \<noteq> sv \<longrightarrow> sv_i (fs_state s1) v = sv_i (fs_state s) v" "io_step ?s s1"
      using itrunc_work_ok [OF assms(1), of D K f U ?s sv nb "nat ((len + 511) div 512)" "nat len"] assms(2-6) False by (auto simp: e)
    obtain s' where "biglocked ?w s = Some (Inr (), s')" "io_step s s'" "s1 = s'\<lparr>vfs_biglock_depth := vfs_biglock_depth s + 1\<rparr>"
      using False by (auto intro: biglocked_held [where f = ?w, OF held _ assms(8) r(1,5)])
    then show ?thesis using r(2-4) False go by (auto simp: e)
  qed
qed

text \<open>Truncated to its first 15 blocks, the file still has block 15.\<close>

lemma sfs_itrunc_cuts_witness:
  "\<exists>s'. sfs_itrunc boot_disks boot_bufs 70 7680 boot_sfs = Some (Inr (), s') \<and> sfi_size (sv_i (fs_state s') 70) = 7680
     \<and> file_map (secs pl_sect 60 s') (sv_i (fs_state s') 70) 15 = 3"
proof -
  obtain U' s' where r: "sfs_itrunc boot_disks boot_bufs 70 7680 boot_sfs = Some (Inr (), s')"
      "trunc_result 8 (nat ((7680 + 511) div 512)) (nat 7680) {0, 2, 3} (secs pl_sect 60 boot_sfs) (sv_i (fs_state boot_sfs) 70) U' (secs pl_sect 60 s') (sv_i (fs_state s') 70)"
    using sfs_itrunc_cuts [OF simg.good_card_axioms _ boot_sfs_ok boot_sfs_pre boot_sfs_file, of 7680] by (auto simp: boot_sfs_sel)
  have "trunc_keeps (nat ((7680 + 511) div 512)) 15" by (simp add: trunc_keeps_def SFS_NDIRECT_def)
  then show ?thesis using r boot_sfs_map [of 15] unfolding trunc_result_def by auto
qed

end
