(* ===== verification/Spec2Isabelle.thy ===== *)
theory Spec2Isabelle
  imports Prelude Lib_Words Bitmap Threadlist Threads Synch Hangman Spinlock Critical Linked_List Array Cstring Usermem Vnode Vfslist Vfs Device Shared_Buffer File_Table File_Refs File_Syscalls Addrspace Proc Proc_Table
    Proc_Sys Vfs_Mount Exec Syscall Lhd Sfs_Block
begin

text \<open>
  A model of the OS/161 kernel of this repository, as extended in its course projects:
  \<open>src/group_project/src/kern\<close> with the parts of \<open>src/group_project/src/common/libc\<close> that are linked into it.
  \<open>src/project1\<close> is an older copy of the same tree and has no part of its own here.

  \<^bold>\<open>The program.\<close>  The kernel is a monolith in C.  At the bottom are helpers without state (byte order,
  time, strings, arrays, bitmaps).  Threads are kept on intrusive lists (threadlist.c) and scheduled by
  thread.c, whose wait channels carry the semaphores, locks and condition variables of synch.c; spinlock.c
  protects all of them between CPUs, and hangman.c looks for deadlocks.  Above these are the projects' own
  data structures (a concurrent ordered list, a bounded buffer), the virtual file system (vnodes, known
  devices, path names, device files), physical memory and address spaces, the tables of open files, the
  processes, and the system calls, which user programs reach through a trap.

  \<^bold>\<open>How the model is built.\<close>  An operation is a function into \<open>_ option\<close>: \<open>None\<close> is a stop of the machine, a
  failed \<open>KASSERT\<close>, a panic, or a use of freed memory.  \<open>kassert\<close> is the check.  An operation that can
  fail returns \<open>errno + _\<close> beside the new state (type \<open>call\<close>).  State is a record that is passed along; each
  layer extends the record of the layer below (\<open>kmem\<close>, \<open>lists\<close>, \<open>threads\<close>, \<open>sync\<close>, \<open>vnodes\<close>, \<open>vfs\<close>,
  \<open>files\<close>, \<open>procs\<close>), and the fields of a C structure are maps from its address.  \<open>kmalloc\<close> takes the address
  from a counter, \<open>ticks\<close>, and fails as the oracle \<open>oom\<close> of the state decides, so every theorem holds for every
  pattern of failing allocations; \<open>kfree\<close> requires a live block.  32-bit counters wrap (\<open>u32\<close>), registers and
  bytes are words.  Functions of the C code that are reached through function pointers (file systems, devices)
  are tables given as arguments (\<open>optables\<close>); what is needed of them is the predicate \<open>quiet\<close>: they
  allocate and free nothing that others see and leave the references as they are.  The device operations of
  \<open>Device\<close> satisfy it.  A function that sleeps is split at the
  sleep; the step relations put the pieces together in any order.

  \<^bold>\<open>Theories.\<close>
  \<^item> \<open>Prelude\<close>: errno codes, \<open>KASSERT\<close>, the allocator, \<open>u32\<close>, \<open>first_idx\<close>.
  \<^item> \<open>Lib_Words\<close> (lib/bswap.c, lib/time.c): byte order and time arithmetic; \<open>bswap64\<close> is shown to be right
    on exactly the words whose bytes 4 and 5 are zero.
  \<^item> \<open>Bitmap\<close> (lib/bitmap.c): allocation is first fit, \<open>bitmap_mark\<close> and \<open>bitmap_unmark\<close> are inverse, creation and
    destruction balance.
  \<^item> \<open>Array\<close> (lib/array.c, include/array.h): refinement of lists; the loop that grows the capacity ends
    up to a size of \<open>2 ^ 31\<close>.
  \<^item> \<open>Cstring\<close> (libc string functions, \<open>atoi\<close>): on byte-addressed memory, including the word-at-a-time paths and
    overlapping \<open>memmove\<close>.
  \<^item> \<open>Threadlist\<close> (thread/threadlist.c): the linked structure represents a list, and each operation is the list
    operation on it; the interface \<open>thread_queue\<close> is a locale interpreted on it.
  \<^item> \<open>Threads\<close> (thread/thread.c, thread/clock.c): thread structures, run queues, the context switch, wait channels,
    migration, interprocessor interrupts and the clock tick.  Wait channels are FIFO, yielding is round robin,
    migration neither loses nor invents a thread, zombies are freed.
  \<^item> \<open>Synch\<close> (thread/synch.c): semaphores, locks and condition variables, as operations and as the step relation of
    any number of threads that use them; mutual exclusion, no lost wakeup, the calls return, creation and
    destruction balance.
  \<^item> \<open>Spinlock\<close> (thread/spinlock.c): test-and-set on several CPUs, one memory access in a step.
  \<^item> \<open>Hangman\<close> (thread/hangman.c): every search ends, and reports exactly the waits that
    would close a cycle.
  \<^item> \<open>Critical\<close>: a lock, some work, an unlock: the shape of many functions, with its rule.
  \<^item> \<open>Linked_List\<close> (concurrent_list/linked_list.c), \<open>Shared_Buffer\<close> (shared_buffer/shared_buffer.c): refinement of an
    ordered list and of a bounded queue; the monitor of producers and consumers in every interleaving.
  \<^item> \<open>Usermem\<close> (vm/copyinout.c, lib/uio.c): copies across the border of user memory, and transfers through a \<open>uio\<close>.
  \<^item> \<open>Vnode\<close>, \<open>Vfslist\<close>, \<open>Vfs\<close>, \<open>Device\<close> (vfs/*.c, include/vnode.h, include/fs.h, include/device.h): references of vnodes,
    the known devices, path names and the operations on them, device files.  On every path of every operation
    references and locks balance, whatever the file system answers.
  \<^item> \<open>File_Table\<close>, \<open>File_Refs\<close>, \<open>File_Syscalls\<close> (io/file_table.c, syscall/open, close, read, write, lseek, dup2): open
    files; closing and \<open>dup2\<close> keep one reference of the vnode for each descriptor slot with a file, a copy takes
    none for the first three slots.
  \<^item> \<open>Addrspace\<close> (arch/mips/vm/ram.c, arch/mips/vm/dumbvm.c): physical pages, address spaces, the TLB.
  \<^item> \<open>Proc\<close>, \<open>Proc_Table\<close> (proc/proc.c, syscall/fork, _exit, waitpid, getpid, chdir; \<open>thread_fork\<close> and
    \<open>thread_exit\<close>): processes.  \<open>Proc\<close> has the operations; \<open>Proc_Table\<close> takes the parts of them that use the
    process table as the steps of a machine of many processes, with \<open>fork\<close> as one step, and proves the
    invariant of the table and the protocol between \<open>_exit\<close> and \<open>waitpid\<close>.
  \<^item> \<open>Proc_Sys\<close>: the whole system calls \<open>_exit\<close> and \<open>waitpid\<close>, with their locks and sleeps, do the steps of
    \<open>Proc_Table\<close>; and the interleaving in which a child of \<open>fork\<close> ends too early.
  \<^item> \<open>Vfs_Mount\<close> (vfs/vfslist.c, vfs/devnull.c, shutdown and \<open>reboot\<close> of main/main.c): adding devices, mounting, swap.
  \<^item> \<open>Lhd\<close> (dev/lamebus/lhd.c): the disk driver, on a card that is an argument; its contract is a locale with a
    concrete card as instance.
  \<^item> \<open>Sfs_Block\<close> (fs/sfs/sfs_balloc.c, sfs_bmap.c, block routines of sfs_io.c): the blocks of the file system SFS on
    that disk.  The block map of a file is a function from its blocks to those of the disk; lookup and
    allocation change it at one place, truncation cuts it off, one entry too late in the indirect block.
  \<^item> \<open>Exec\<close> (syscall/loadelf.c, runprogram.c, execv_syscall.c): the loader and the start of programs.
  \<^item> \<open>Syscall\<close> (arch/mips/syscall/syscall.c, getcwd, time): the dispatcher, from the registers of a trapframe
    to the registers; a position survives the way through 32-bit registers.
  \<^bold>\<open>Bounds and fuel.\<close>  Loops over arrays and lists are structural.  Loops that wait (\<open>P\<close>, \<open>lock_acquire\<close>,
  \<open>cv_wait\<close>, the buffer) are not run to the end: they are cut at the sleep.  Loops that may run forever are
  \<open>partial_function\<close>s, and that they return is proved: the walk of the deadlock detector, because no earlier wait
  closed a cycle; the growth of an array, for the sizes that occur; the loops over strings, when there is a
  terminator; the search in the ordered list.  The model has no fuel.  Addresses are natural numbers: memory
  does not wrap around at its end.

  \<^bold>\<open>Not modelled.\<close>  Machine context (switchframes, interrupt levels, traps, assembly), the start of the machine and of
  CPUs, the subpage allocator kmalloc.c (its contract is \<open>kmalloc\<close> of \<open>Prelude\<close>), the other
  drivers of the LAMEbus, the file systems semfs and emufs and the files and directories of sfs (tables of operations here), the menu and the kernel's
  own tests, \<open>printf\<close> and the console (a sequence of bytes), \<open>addrspace.c\<close> (the stub that is not built with dumbvm),
  the unfinished synchronisation problems, user programs, and the build files.  The manifest names each.
\<close>

end
